(* ===== verification/Prelude.thy ===== *)
theory Prelude
  imports Main "HOL-Library.AList" "HOL-Library.Word"
begin

text \<open>
  Shared vocabulary of the development: the machine integers the Rust sources
  use, the hash containers of the standard library, and the generic facts about
  them that the component theories rest on.

  A \<open>HashMap<K, V>\<close> is an association list with distinct keys and a
  \<open>HashSet<K>\<close> a duplicate-free list.  The list fixes one iteration order,
  and the theorems are stated for every such list, so no claim depends on the
  unspecified order in which the standard library iterates.
\<close>

named_theorems hm_simps \<open>lookup after an update of a hash map\<close>
named_theorems hm_inv \<open>operations that keep the keys of a hash map distinct\<close>

type_synonym u8 = "8 word"
type_synonym u16 = "16 word"
type_synonym u32 = "32 word"
type_synonym u64 = "64 word"
type_synonym usize = nat

type_synonym ('k, 'v) hash_map = "('k \<times> 'v) list"
type_synonym 'a hash_set = "'a list"

section \<open>Hash maps\<close>

definition hm_get :: "('k, 'v) hash_map \<Rightarrow> 'k \<Rightarrow> 'v option" where
  "hm_get m k = map_of m k"

definition hm_insert :: "'k \<Rightarrow> 'v \<Rightarrow> ('k, 'v) hash_map \<Rightarrow> ('k, 'v) hash_map" where
  "hm_insert k v m = AList.update k v m"

definition hm_remove :: "'k \<Rightarrow> ('k, 'v) hash_map \<Rightarrow> ('k, 'v) hash_map" where
  "hm_remove k m = AList.delete k m"

definition hm_keys :: "('k, 'v) hash_map \<Rightarrow> 'k list" where
  "hm_keys m = map fst m"

definition hm_contains :: "('k, 'v) hash_map \<Rightarrow> 'k \<Rightarrow> bool" where
  "hm_contains m k \<longleftrightarrow> hm_get m k \<noteq> None"

definition hm_wf :: "('k, 'v) hash_map \<Rightarrow> bool" where
  "hm_wf m \<longleftrightarrow> distinct (map fst m)"

text \<open>\<open>if let Some(v) = map.get_mut(k) { *v = f(v) }\<close>\<close>

definition hm_modify :: "'k \<Rightarrow> ('v \<Rightarrow> 'v) \<Rightarrow> ('k, 'v) hash_map \<Rightarrow> ('k, 'v) hash_map" where
  "hm_modify k f m = (case hm_get m k of None \<Rightarrow> m | Some v \<Rightarrow> hm_insert k (f v) m)"

text \<open>\<open>f(map.entry(k).or_insert(d))\<close>\<close>

definition hm_upsert :: "'k \<Rightarrow> 'v \<Rightarrow> ('v \<Rightarrow> 'v) \<Rightarrow> ('k, 'v) hash_map \<Rightarrow> ('k, 'v) hash_map" where
  "hm_upsert k d f m = hm_insert k (f (case hm_get m k of None \<Rightarrow> d | Some v \<Rightarrow> v)) m"

text \<open>
  The contract of a map that its clients use: what a lookup returns after each
  update, and that the updates keep the representation invariant.
\<close>

locale map_contract =
  fixes get :: "'m \<Rightarrow> 'k \<Rightarrow> 'v option"
    and ins :: "'k \<Rightarrow> 'v \<Rightarrow> 'm \<Rightarrow> 'm"
    and rem :: "'k \<Rightarrow> 'm \<Rightarrow> 'm"
    and emp :: "'m"
    and inv :: "'m \<Rightarrow> bool"
  assumes get_emp: "get emp k = None"
    and get_ins: "get (ins k v m) j = (if j = k then Some v else get m j)"
    and get_rem: "inv m \<Longrightarrow> get (rem k m) j = (if j = k then None else get m j)"
    and inv_emp: "inv emp"
    and inv_ins: "inv m \<Longrightarrow> inv (ins k v m)"
    and inv_rem: "inv m \<Longrightarrow> inv (rem k m)"
begin

lemma get_ins_same [simp]: "get (ins k v m) k = Some v"
  by (simp add: get_ins)

lemma get_ins_other: "j \<noteq> k \<Longrightarrow> get (ins k v m) j = get m j"
  by (simp add: get_ins)

lemma ins_ins_same: "get (ins k v (ins k w m)) = get (ins k v m)"
  by (rule ext) (simp add: get_ins)

lemma ins_commute: "j \<noteq> k \<Longrightarrow> get (ins j v (ins k w m)) = get (ins k w (ins j v m))"
  by (rule ext) (auto simp add: get_ins)

lemma rem_ins: "inv m \<Longrightarrow> get m k = None \<Longrightarrow> get (rem k (ins k v m)) = get m"
  by (rule ext) (simp add: get_rem get_ins inv_ins)

lemma inv_fold_ins: "inv m \<Longrightarrow> inv (fold (\<lambda>p. ins (fst p) (snd p)) ps m)"
  by (induction ps arbitrary: m) (simp_all add: inv_ins)

lemma get_fold_ins:
  "get (fold (\<lambda>p. ins (fst p) (snd p)) ps m) j
     = (case map_of (rev ps) j of None \<Rightarrow> get m j | Some v \<Rightarrow> Some v)"
  by (induction ps arbitrary: m)
    (auto simp: get_ins map_add_def split: option.splits if_splits)

end

lemma hm_get_Nil [simp]: "hm_get [] k = None"
  by (simp add: hm_get_def)

lemma hm_get_Cons: "hm_get ((a, b) # m) k = (if k = a then Some b else hm_get m k)"
  by (simp add: hm_get_def)

lemma hm_get_insert [hm_simps]: "hm_get (hm_insert k v m) j = (if j = k then Some v else hm_get m j)"
  by (simp add: hm_get_def hm_insert_def update_conv')

lemma hm_get_remove [hm_simps]: "hm_get (hm_remove k m) j = (if j = k then None else hm_get m j)"
  by (simp add: hm_get_def hm_remove_def delete_conv')

lemma hm_wf_Nil [simp, hm_inv]: "hm_wf []"
  by (simp add: hm_wf_def)

lemma hm_wf_insert [hm_inv]: "hm_wf m \<Longrightarrow> hm_wf (hm_insert k v m)"
  by (simp add: hm_wf_def hm_insert_def distinct_update)

lemma hm_wf_remove [hm_inv]: "hm_wf m \<Longrightarrow> hm_wf (hm_remove k m)"
  by (simp add: hm_wf_def hm_remove_def distinct_delete)

interpretation hm: map_contract hm_get hm_insert hm_remove "[]" hm_wf
  by unfold_locales (auto simp: hm_simps intro: hm_inv)

lemma hm_get_modify [hm_simps]:
  "hm_get (hm_modify k f m) j = (if j = k then map_option f (hm_get m k) else hm_get m j)"
  by (auto simp: hm_modify_def hm_simps split: option.splits)

lemma hm_get_upsert [hm_simps]:
  "hm_get (hm_upsert k d f m) j
     = (if j = k then Some (f (case hm_get m k of None \<Rightarrow> d | Some v \<Rightarrow> v)) else hm_get m j)"
  by (simp add: hm_upsert_def hm_simps)

lemma hm_wf_modify [hm_inv]: "hm_wf m \<Longrightarrow> hm_wf (hm_modify k f m)"
  by (auto simp: hm_modify_def intro: hm_inv split: option.splits)

lemma hm_wf_upsert [hm_inv]: "hm_wf m \<Longrightarrow> hm_wf (hm_upsert k d f m)"
  by (simp add: hm_upsert_def hm_inv)

lemma hm_get_in: "hm_get m k = Some v \<Longrightarrow> (k, v) \<in> set m"
  by (simp add: hm_get_def map_of_SomeD)

lemma hm_get_eq_in: "hm_wf m \<Longrightarrow> hm_get m k = Some v \<longleftrightarrow> (k, v) \<in> set m"
  by (simp add: hm_get_def hm_wf_def)

lemma hm_keys_iff: "k \<in> set (hm_keys m) \<longleftrightarrow> hm_get m k \<noteq> None"
  by (simp add: hm_keys_def hm_get_def map_of_eq_None_iff)

lemma hm_contains_insert [hm_simps]: "hm_contains (hm_insert k v m) j \<longleftrightarrow> j = k \<or> hm_contains m j"
  by (simp add: hm_contains_def hm_simps)

lemma hm_contains_remove [hm_simps]: "hm_contains (hm_remove k m) j \<longleftrightarrow> j \<noteq> k \<and> hm_contains m j"
  by (simp add: hm_contains_def hm_simps)

lemma hm_remove_absent: "hm_get m k = None \<Longrightarrow> hm_remove k m = m"
  unfolding hm_get_def hm_remove_def by (simp add: map_of_eq_None_iff delete_idem)

section \<open>A property of every entry\<close>

definition hm_all :: "('k \<Rightarrow> 'v \<Rightarrow> bool) \<Rightarrow> ('k, 'v) hash_map \<Rightarrow> bool" where
  "hm_all P m \<longleftrightarrow> list_all (\<lambda>(k, v). P k v) m"

lemma hm_all_Nil [simp]: "hm_all P []"
  by (simp add: hm_all_def)

lemma hm_all_get: "hm_all P m \<Longrightarrow> hm_get m k = Some v \<Longrightarrow> P k v"
  by (auto simp: hm_all_def list_all_iff dest: hm_get_in)

lemma hm_all_iff: "hm_wf m \<Longrightarrow> hm_all P m \<longleftrightarrow> (\<forall>k v. hm_get m k = Some v \<longrightarrow> P k v)"
  by (auto simp: hm_all_def list_all_iff hm_get_eq_in)

lemma hm_all_insert [hm_inv]: "hm_all P m \<Longrightarrow> P k v \<Longrightarrow> hm_all P (hm_insert k v m)"
  unfolding hm_insert_def hm_all_def by (induction m) (auto split: if_splits)

lemma hm_all_remove [hm_inv]: "hm_all P m \<Longrightarrow> hm_all P (hm_remove k m)"
  by (auto simp: hm_all_def list_all_iff hm_remove_def AList.delete_eq)

lemma hm_all_mono: "hm_all P m \<Longrightarrow> (\<And>k v. P k v \<Longrightarrow> Q k v) \<Longrightarrow> hm_all Q m"
  by (auto simp: hm_all_def list_all_iff)

section \<open>Sums over a hash map\<close>

text \<open>The total of a size function over the entries, as byte-accounting code keeps it.\<close>

definition hm_sum :: "('v \<Rightarrow> nat) \<Rightarrow> ('k, 'v) hash_map \<Rightarrow> nat" where
  "hm_sum f m = sum_list (map (f \<circ> snd) m)"

lemma hm_sum_Nil [simp]: "hm_sum f [] = 0"
  by (simp add: hm_sum_def)

lemma hm_sum_remove:
  "hm_wf m \<Longrightarrow> hm_get m k = Some v \<Longrightarrow> hm_sum f m = f v + hm_sum f (hm_remove k m)"
proof (induction m)
  case (Cons p m)
  then show ?case
    by (cases p) (auto simp: hm_sum_def hm_wf_def hm_get_def hm_remove_def
        delete_idem image_iff split: if_splits)
qed simp

lemma hm_sum_insert_fresh: "hm_get m k = None \<Longrightarrow> hm_sum f (hm_insert k v m) = f v + hm_sum f m"
  by (induction m) (auto simp: hm_sum_def hm_insert_def hm_get_def split: if_splits)

section \<open>Hash sets\<close>

definition hs_insert :: "'a \<Rightarrow> 'a hash_set \<Rightarrow> 'a hash_set" where
  "hs_insert x xs = (if x \<in> set xs then xs else xs @ [x])"

definition hs_remove :: "'a \<Rightarrow> 'a hash_set \<Rightarrow> 'a hash_set" where
  "hs_remove x xs = filter (\<lambda>y. y \<noteq> x) xs"

definition hs_extend :: "'a list \<Rightarrow> 'a hash_set \<Rightarrow> 'a hash_set" where
  "hs_extend ys xs = fold hs_insert ys xs"

lemma set_hs_insert [simp]: "set (hs_insert x xs) = insert x (set xs)"
  by (auto simp: hs_insert_def)

lemma distinct_hs_insert [simp]: "distinct (hs_insert x xs) = distinct xs"
  by (auto simp: hs_insert_def)

lemma set_hs_remove [simp]: "set (hs_remove x xs) = set xs - {x}"
  by (auto simp: hs_remove_def)

lemma distinct_hs_remove [simp]: "distinct xs \<Longrightarrow> distinct (hs_remove x xs)"
  by (simp add: hs_remove_def)

lemma set_hs_extend [simp]: "set (hs_extend ys xs) = set ys \<union> set xs"
  unfolding hs_extend_def by (induction ys arbitrary: xs) auto

lemma distinct_hs_extend [simp]: "distinct (hs_extend ys xs) = distinct xs"
  unfolding hs_extend_def by (induction ys arbitrary: xs) auto

section \<open>Lists\<close>

lemma find_Some_iff_first:
  "find P xs = Some x \<longleftrightarrow> (\<exists>ys zs. xs = ys @ x # zs \<and> P x \<and> (\<forall>y \<in> set ys. \<not> P y))"
proof (induction xs)
  case (Cons a xs)
  show ?case
  proof (cases "P a")
    case True
    then show ?thesis by (auto simp: Cons_eq_append_conv)
  next
    case False
    then show ?thesis using Cons.IH
      by (auto simp: Cons_eq_append_conv) (metis set_ConsD)
  qed
qed simp

lemma find_None_iff_all: "find P xs = None \<longleftrightarrow> (\<forall>x \<in> set xs. \<not> P x)"
  by (auto simp: find_None_iff)

end
