(* ===== verification/Text.thy ===== *)
theory Text
  imports Prelude "HOL-Library.Char_ord" "HOL-Library.List_Lexorder" "HOL-Library.Sublist"
begin

text \<open>
  The string operations of the Rust standard library that the sources call.

  A \<open>str\<close> is the list of its UTF-8 bytes, each one a \<open>char\<close>.  Every
  separator the sources search for is ASCII, and an ASCII byte never occurs
  inside a multi-byte encoding, so searching bytes and searching code points
  give the same split.  \<open>Ord for str\<close> compares bytes lexicographically,
  which is the order of \<open>List_Lexorder\<close> over \<open>Char_ord\<close>.
\<close>

section \<open>Splitting and joining\<close>

text \<open>\<open>str::split_once(char)\<close> and \<open>str::rsplit_once(char)\<close>\<close>

primrec split_once :: "'a \<Rightarrow> 'a list \<Rightarrow> ('a list \<times> 'a list) option" where
  "split_once c [] = None"
| "split_once c (x # xs) =
     (if x = c then Some ([], xs)
      else map_option (\<lambda>(a, b). (x # a, b)) (split_once c xs))"

primrec rsplit_once :: "'a \<Rightarrow> 'a list \<Rightarrow> ('a list \<times> 'a list) option" where
  "rsplit_once c [] = None"
| "rsplit_once c (x # xs) =
     (case rsplit_once c xs of
        Some (a, b) \<Rightarrow> Some (x # a, b)
      | None \<Rightarrow> if x = c then Some ([], xs) else None)"

text \<open>\<open>str::rsplit_once(&str)\<close>, for a non-empty pattern\<close>

primrec rsplit_once_str :: "'a list \<Rightarrow> 'a list \<Rightarrow> ('a list \<times> 'a list) option" where
  "rsplit_once_str p [] = None"
| "rsplit_once_str p (x # xs) =
     (case rsplit_once_str p xs of
        Some (a, b) \<Rightarrow> Some (x # a, b)
      | None \<Rightarrow> if prefix p (x # xs) then Some ([], drop (length p) (x # xs)) else None)"

text \<open>\<open>str::split(char)\<close>: always at least one piece\<close>

primrec split :: "'a \<Rightarrow> 'a list \<Rightarrow> 'a list list" where
  "split c [] = [[]]"
| "split c (x # xs) =
     (if x = c then [] # split c xs
      else (case split c xs of [] \<Rightarrow> [[x]] | y # ys \<Rightarrow> (x # y) # ys))"

text \<open>\<open>[String]::join(&str)\<close>\<close>

fun join :: "'a list \<Rightarrow> 'a list list \<Rightarrow> 'a list" where
  "join sep [] = []"
| "join sep [x] = x"
| "join sep (x # y # zs) = x @ sep @ join sep (y # zs)"

text \<open>\<open>str::strip_suffix(char)\<close>\<close>

definition strip_suffix :: "'a \<Rightarrow> 'a list \<Rightarrow> 'a list option" where
  "strip_suffix c s = (if s \<noteq> [] \<and> last s = c then Some (butlast s) else None)"

lemma split_once_None [simp]: "split_once c s = None \<longleftrightarrow> c \<notin> set s"
  by (induction s) auto

lemma split_once_append [simp]: "c \<notin> set a \<Longrightarrow> split_once c (a @ c # b) = Some (a, b)"
  by (induction a) auto

lemma split_once_Some: "split_once c s = Some (a, b) \<longleftrightarrow> s = a @ c # b \<and> c \<notin> set a"
  by (induction s arbitrary: a b) (auto simp: Cons_eq_append_conv)

lemma rsplit_once_None [simp]: "rsplit_once c s = None \<longleftrightarrow> c \<notin> set s"
  by (induction s) (auto split: option.splits)

lemma rsplit_once_append [simp]: "c \<notin> set b \<Longrightarrow> rsplit_once c (a @ c # b) = Some (a, b)"
proof (induction a)
  case Nil
  then have "rsplit_once c b = None" by simp
  then show ?case by (simp del: rsplit_once_None)
qed simp

lemma rsplit_once_Some: "rsplit_once c s = Some (a, b) \<longleftrightarrow> s = a @ c # b \<and> c \<notin> set b"
proof
  show "rsplit_once c s = Some (a, b) \<Longrightarrow> s = a @ c # b \<and> c \<notin> set b"
    by (induction s arbitrary: a b) (auto split: option.splits if_splits)
qed auto

lemma split_not_Nil [simp]: "split c s \<noteq> []"
  by (induction s) (auto split: list.splits)

lemma join_Cons: "ys \<noteq> [] \<Longrightarrow> join sep (x # ys) = x @ sep @ join sep ys"
  by (cases ys) auto

lemma join_split [simp]: "join [c] (split c s) = s"
proof (induction s)
  case (Cons x s)
  then show ?case
  proof (cases "x = c")
    case False
    obtain y ys where "split c s = y # ys" by (cases "split c s") auto
    with Cons False show ?thesis by (cases ys) auto
  qed (simp add: join_Cons)
qed simp

lemma split_no_sep: "c \<notin> set s \<Longrightarrow> split c s = [s]"
  by (induction s) auto

lemma split_append: "c \<notin> set a \<Longrightarrow> split c (a @ c # b) = a # split c b"
  by (induction a) auto

lemma split_join: "ss \<noteq> [] \<Longrightarrow> \<forall>s \<in> set ss. c \<notin> set s \<Longrightarrow> split c (join [c] ss) = ss"
proof (induction ss)
  case (Cons s ss)
  then show ?case by (cases ss) (auto simp: split_no_sep split_append)
qed simp

lemma split_pieces: "p \<in> set (split c s) \<Longrightarrow> c \<notin> set p"
proof (induction s arbitrary: p)
  case (Cons x s)
  obtain y ys where "split c s = y # ys" by (cases "split c s") auto
  with Cons show ?case by (auto split: if_splits)
qed simp

lemma rsplit_once_str_sound:
  "rsplit_once_str p s = Some (a, b) \<Longrightarrow> s = a @ p @ b"
  by (induction s arbitrary: a b) (auto simp: prefix_def split: option.splits if_splits)

text \<open>The last occurrence is found: to its right, no later occurrence starts.\<close>

lemma rsplit_once_str_None:
  "p \<noteq> [] \<Longrightarrow> rsplit_once_str p s = None \<longleftrightarrow> \<not> sublist p s"
proof (induction s)
  case (Cons x s)
  have "sublist p (x # s) \<longleftrightarrow> prefix p (x # s) \<or> sublist p s"
    by (simp add: sublist_Cons_right)
  with Cons show ?case by (auto split: option.splits)
qed simp

lemma rsplit_once_str_append:
  assumes p: "p = h # t" and h: "h \<notin> set t" "h \<notin> set b"
  shows "rsplit_once_str p (a @ p @ b) = Some (a, b)"
proof (induction a)
  case Nil
  have "\<not> sublist p (t @ b)"
  proof
    assume "sublist p (t @ b)"
    then have "h \<in> set (t @ b)" using set_mono_sublist [of p "t @ b"] by (auto simp: p)
    with h show False by simp
  qed
  then have "rsplit_once_str p (t @ b) = None"
    by (simp add: rsplit_once_str_None p)
  then show ?case by (simp add: p)
next
  case (Cons x a)
  then show ?case by simp
qed

lemma strip_suffix_snoc [simp]: "strip_suffix c (s @ [c]) = Some s"
  by (simp add: strip_suffix_def)

lemma strip_suffix_Some: "strip_suffix c s = Some t \<longleftrightarrow> s = t @ [c]"
  by (metis append_butlast_last_id option.distinct(1) option.inject snoc_eq_iff_butlast strip_suffix_def)

section \<open>Decimal numbers\<close>

definition digit_char :: "nat \<Rightarrow> char" where
  "digit_char d = char_of (48 + d)"

definition is_ascii_digit :: "char \<Rightarrow> bool" where
  "is_ascii_digit c \<longleftrightarrow> 48 \<le> (of_char c :: nat) \<and> (of_char c :: nat) \<le> 57"

definition digit_val :: "char \<Rightarrow> nat" where
  "digit_val c = of_char c - 48"

text \<open>\<open>Display\<close> of an unsigned integer\<close>

fun show_nat :: "nat \<Rightarrow> string" where
  "show_nat n = (if n < 10 then [digit_char n] else show_nat (n div 10) @ [digit_char (n mod 10)])"

declare show_nat.simps [simp del]

definition digits_val :: "string \<Rightarrow> nat" where
  "digits_val s = foldl (\<lambda>n c. 10 * n + digit_val c) 0 s"

text \<open>
  \<open>str::parse::<uN>()\<close>: an optional \<open>+\<close>, then at least one digit, and the
  value has to fit the type.
\<close>

definition parse_unsigned :: "nat \<Rightarrow> string \<Rightarrow> nat option" where
  "parse_unsigned bits s =
     (let ds = (case s of c # cs \<Rightarrow> if c = CHR ''+'' \<and> cs \<noteq> [] then cs else s | [] \<Rightarrow> s)
      in if ds \<noteq> [] \<and> list_all is_ascii_digit ds \<and> digits_val ds < 2 ^ bits
         then Some (digits_val ds) else None)"

lemma of_char_digit [simp]: "d < 10 \<Longrightarrow> of_char (digit_char d) = (48 + d :: nat)"
  by (simp add: digit_char_def)

lemma is_ascii_digit_char [simp]: "d < 10 \<Longrightarrow> is_ascii_digit (digit_char d)"
  by (simp add: is_ascii_digit_def)

lemma digit_val_char [simp]: "d < 10 \<Longrightarrow> digit_val (digit_char d) = d"
  by (simp add: digit_val_def)

lemma show_nat_not_Nil [simp]: "show_nat n \<noteq> []"
  by (subst show_nat.simps) simp

lemma show_nat_digits [simp]: "list_all is_ascii_digit (show_nat n)"
proof (induction n rule: show_nat.induct)
  case (1 n)
  then show ?case by (subst show_nat.simps) simp
qed

lemma show_nat_digit_set: "c \<in> set (show_nat n) \<Longrightarrow> is_ascii_digit c"
  using show_nat_digits [of n] by (simp add: list_all_iff)

lemma digits_val_show [simp]: "digits_val (show_nat n) = n"
proof (induction n rule: show_nat.induct)
  case (1 n)
  then show ?case by (subst show_nat.simps) (simp add: digits_val_def)
qed

lemma show_nat_inject [simp]: "show_nat m = show_nat n \<longleftrightarrow> m = n"
  using digits_val_show by metis

lemma not_digit_plus [simp]: "\<not> is_ascii_digit CHR ''+''"
  by (simp add: is_ascii_digit_def)

lemma parse_unsigned_digits:
  "s \<noteq> [] \<Longrightarrow> list_all is_ascii_digit s \<Longrightarrow>
   parse_unsigned bits s = (if digits_val s < 2 ^ bits then Some (digits_val s) else None)"
  by (cases s) (auto simp: parse_unsigned_def Let_def)

lemma parse_unsigned_show: "n < 2 ^ bits \<Longrightarrow> parse_unsigned bits (show_nat n) = Some n"
  by (simp add: parse_unsigned_digits)

definition show_u32 :: "u32 \<Rightarrow> string" where
  "show_u32 w = show_nat (unat w)"

definition parse_u32 :: "string \<Rightarrow> u32 option" where
  "parse_u32 s = map_option of_nat (parse_unsigned 32 s)"

lemma unat_less_u32: "unat (w :: u32) < 4294967296"
  using unsigned_less [of w, where 'a = nat] by simp

lemma parse_show_u32 [simp]: "parse_u32 (show_u32 w) = Some w"
  by (simp add: parse_u32_def show_u32_def parse_unsigned_digits unat_less_u32)

section \<open>Case and white space\<close>

text \<open>
  \<open>str::trim\<close> strips code points with the Unicode property \<open>White_Space\<close>, here by
  their encodings: five ASCII controls and the space, U+0085, U+00A0, U+1680, U+2000
  to U+200A, U+2028, U+2029, U+202F, U+205F and U+3000.  \<open>space_prefix\<close> is the number of bytes
  of the white space that the text starts with, 0 if it starts with none.  From the
  back the same encodings are searched for from their last byte on; in valid UTF-8
  such a suffix starts at a code point because its first byte is a leading byte.
\<close>

definition space_seq :: "nat list \<Rightarrow> bool" where
  "space_seq bs \<longleftrightarrow>
     (case bs of
        [a] \<Rightarrow> 9 \<le> a \<and> a \<le> 13 \<or> a = 32
      | [a, b] \<Rightarrow> a = 0xC2 \<and> (b = 0x85 \<or> b = 0xA0)
      | [a, b, c] \<Rightarrow>
          a = 0xE1 \<and> b = 0x9A \<and> c = 0x80
          \<or> a = 0xE2 \<and> b = 0x80 \<and> (0x80 \<le> c \<and> c \<le> 0x8A \<or> c = 0xA8 \<or> c = 0xA9 \<or> c = 0xAF)
          \<or> a = 0xE2 \<and> b = 0x81 \<and> c = 0x9F
          \<or> a = 0xE3 \<and> b = 0x80 \<and> c = 0x80
      | _ \<Rightarrow> False)"

definition space_prefix :: "(nat list \<Rightarrow> nat list) \<Rightarrow> string \<Rightarrow> nat" where
  "space_prefix order s =
     (let starts = (\<lambda>n. n \<le> length s \<and> space_seq (order (map of_char (take n s))))
      in if starts 1 then 1 else if starts 2 then 2 else if starts 3 then 3 else 0)"

lemma space_prefix_le: "space_prefix order s \<le> length s"
  by (simp add: space_prefix_def Let_def)

function trim_with :: "(nat list \<Rightarrow> nat list) \<Rightarrow> string \<Rightarrow> string" where
  "trim_with order s = (let n = space_prefix order s in if n = 0 then s else trim_with order (drop n s))"
  by auto
termination
proof (relation "measure (\<lambda>(_, s). length s)")
  fix order :: "nat list \<Rightarrow> nat list" and s n
  assume "n = space_prefix order s" "n \<noteq> 0"
  with space_prefix_le [of order s] show "((order, drop n s), (order, s)) \<in> measure (\<lambda>(_, s). length s)"
    by simp
qed simp

declare trim_with.simps [simp del]

definition trim_start :: "string \<Rightarrow> string" where
  "trim_start = trim_with (\<lambda>bs. bs)"

definition trim_end :: "string \<Rightarrow> string" where
  "trim_end s = rev (trim_with rev (rev s))"

definition trim :: "string \<Rightarrow> string" where
  "trim s = trim_end (trim_start s)"

text \<open>
  Trimming the front removes a run of white space and leaves a string that
  starts with none.
\<close>

inductive spaces :: "string \<Rightarrow> bool" where
  no_space: "spaces []"
| more_space: "space_seq (map of_char w) \<Longrightarrow> spaces s \<Longrightarrow> spaces (w @ s)"

lemma trim_start_spec: "\<exists>w. s = w @ trim_start s \<and> spaces w \<and> space_prefix (\<lambda>bs. bs) (trim_start s) = 0"
  unfolding trim_start_def
proof (induction "length s" arbitrary: s rule: less_induct)
  case less
  let ?n = "space_prefix (\<lambda>bs. bs) s"
  show ?case
  proof (cases "?n = 0")
    case True
    then have "trim_with (\<lambda>bs. bs) s = s" by (subst trim_with.simps) simp
    with True show ?thesis by (intro exI [of _ "[]"]) (simp add: no_space)
  next
    case False
    then have "length (drop ?n s) < length s" using space_prefix_le [of "\<lambda>bs. bs" s] by simp
    from less [OF this] obtain w where w: "drop ?n s = w @ trim_with (\<lambda>bs. bs) (drop ?n s)" "spaces w"
      "space_prefix (\<lambda>bs. bs) (trim_with (\<lambda>bs. bs) (drop ?n s)) = 0" by blast
    have step: "trim_with (\<lambda>bs. bs) s = trim_with (\<lambda>bs. bs) (drop ?n s)"
      using False by (subst trim_with.simps) (simp add: Let_def)
    have "space_seq (map of_char (take ?n s))"
      using False by (auto simp: space_prefix_def Let_def split: if_splits)
    then have "spaces (take ?n s @ w)" using w(2) by (rule more_space)
    moreover have "s = (take ?n s @ w) @ trim_with (\<lambda>bs. bs) (drop ?n s)"
      using w(1) by (metis append_assoc append_take_drop_id)
    ultimately show ?thesis using w(3) unfolding step by blast
  qed
qed

definition to_ascii_lowercase :: "string \<Rightarrow> string" where
  "to_ascii_lowercase = map (\<lambda>c. if 65 \<le> (of_char c :: nat) \<and> (of_char c :: nat) \<le> 90
     then char_of (of_char c + 32 :: nat) else c)"

end
