(* ===== verification/Identity.thy ===== *)
theory Identity
  imports Text
begin

text \<open>
  Identities of modules, value cells and graph nodes, with their rendered
  grammars (\<open>reify-core/src/identity.rs\<close> and
  \<open>reify-eval/src/cache/node_id.rs\<close>).  Rendering is \<open>Display\<close>, parsing is
  \<open>FromStr\<close>; every refusal of the parser is a constructor of its error type.
\<close>

section \<open>Module paths\<close>

datatype ModulePathParseError = Empty | EmptySegment string

datatype ModulePath = ModulePath (segments: "string list")

definition from_dotted :: "string \<Rightarrow> ModulePathParseError + ModulePath" where
  "from_dotted dotted =
     (if dotted = [] then Inl Empty
      else if list_ex (\<lambda>s. s = []) (split CHR ''.'' dotted) then Inl (EmptySegment dotted)
      else Inr (ModulePath (split CHR ''.'' dotted)))"

definition to_dotted :: "ModulePath \<Rightarrow> string" where
  "to_dotted p = join ''.'' (segments p)"

definition modulepath_display :: "ModulePath \<Rightarrow> string" where
  "modulepath_display p = join ''/'' (segments p)"

datatype EntityPath = EntityPath (ep_module: ModulePath) (ep_entity: string)

definition entitypath_display :: "EntityPath \<Rightarrow> string" where
  "entitypath_display e = modulepath_display (ep_module e) @ ''::'' @ ep_entity e"

section \<open>Value cells\<close>

definition FIELD_ENTITY_PREFIX :: string where
  "FIELD_ENTITY_PREFIX = ''__field''"

datatype ValueCellId = ValueCellId (vc_entity: string) (vc_member: string)

definition valuecellid_display :: "ValueCellId \<Rightarrow> string" where
  "valuecellid_display v = vc_entity v @ ''.'' @ vc_member v"

datatype ValueCellIdParseError = MissingSeparator | EmptyEntity | EmptyMember | Ambiguous

definition valuecellid_from_str :: "string \<Rightarrow> ValueCellIdParseError + ValueCellId" where
  "valuecellid_from_str s =
     (case split_once CHR ''.'' s of
        None \<Rightarrow> Inl MissingSeparator
      | Some (entity, member) \<Rightarrow>
          if entity = [] then Inl EmptyEntity
          else if member = [] then Inl EmptyMember
          else if CHR ''.'' \<in> set member then Inl Ambiguous
          else Inr (ValueCellId entity member))"

section \<open>Index-addressed nodes\<close>

datatype IndexedNodeKind = IConstraint | IRealization | IResolution | ICompute

definition IndexedNodeKind_ALL :: "IndexedNodeKind list" where
  "IndexedNodeKind_ALL = [IConstraint, IRealization, IResolution, ICompute]"

fun marker :: "IndexedNodeKind \<Rightarrow> string" where
  "marker IConstraint = ''constraint''"
| "marker IRealization = ''realization''"
| "marker IResolution = ''resolution''"
| "marker ICompute = ''computation''"

definition of_rendered_id :: "string \<Rightarrow> IndexedNodeKind option" where
  "of_rendered_id s =
     (case rsplit_once CHR ''#'' s of
        None \<Rightarrow> None
      | Some (_, tail) \<Rightarrow>
          (let segment = (case split_once CHR ''['' tail of None \<Rightarrow> tail | Some (head, _) \<Rightarrow> head)
           in find (\<lambda>kind. marker kind = segment) IndexedNodeKind_ALL))"

definition write_rendered :: "IndexedNodeKind \<Rightarrow> string \<Rightarrow> u32 \<Rightarrow> string" where
  "write_rendered k entity index = entity @ ''#'' @ marker k @ ''['' @ show_u32 index @ '']''"

datatype IndexedNodeIdFault =
  FMissingMarker | FEmptyEntity | FInvalidEntity | FMissingTerminator | FInvalidIndex

datatype IndexedNodeIdParseError =
  IndexedNodeIdParseError (err_kind: IndexedNodeKind) (err_fault: IndexedNodeIdFault)

definition parse_rendered ::
  "IndexedNodeKind \<Rightarrow> string \<Rightarrow> IndexedNodeIdParseError + (string \<times> u32)" where
  "parse_rendered k s =
     (let fail = (\<lambda>fault. Inl (IndexedNodeIdParseError k fault));
          opener = ''#'' @ marker k @ ''['' in
      case rsplit_once_str opener s of
        None \<Rightarrow> fail FMissingMarker
      | Some (entity, rest) \<Rightarrow>
          if entity = [] then fail FEmptyEntity
          else if list_ex (\<lambda>c. c \<in> set [CHR ''/'', CHR ''['', CHR '']'']) entity
            then fail FInvalidEntity
          else (case strip_suffix CHR '']'' rest of
              None \<Rightarrow> fail FMissingTerminator
            | Some index_str \<Rightarrow>
                if index_str = [] \<or> \<not> list_all is_ascii_digit index_str
                  then fail FInvalidIndex
                else (case parse_u32 index_str of
                    None \<Rightarrow> fail FInvalidIndex
                  | Some index \<Rightarrow> Inr (entity, index))))"

datatype ConstraintNodeId = ConstraintNodeId (cn_entity: string) (cn_index: u32)
datatype RealizationNodeId = RealizationNodeId (rn_entity: string) (rn_index: u32)
datatype ResolutionNodeId = ResolutionNodeId (sn_entity: string) (sn_index: u32)
datatype ComputeNodeId = ComputeNodeId (pn_entity: string) (pn_index: u32)

definition constraint_display :: "ConstraintNodeId \<Rightarrow> string" where
  "constraint_display c = write_rendered IConstraint (cn_entity c) (cn_index c)"

definition realization_display :: "RealizationNodeId \<Rightarrow> string" where
  "realization_display r = write_rendered IRealization (rn_entity r) (rn_index r)"

definition resolution_display :: "ResolutionNodeId \<Rightarrow> string" where
  "resolution_display r = write_rendered IResolution (sn_entity r) (sn_index r)"

definition compute_display :: "ComputeNodeId \<Rightarrow> string" where
  "compute_display c = write_rendered ICompute (pn_entity c) (pn_index c)"

definition constraint_from_str :: "string \<Rightarrow> IndexedNodeIdParseError + ConstraintNodeId" where
  "constraint_from_str s = map_sum id (\<lambda>(e, i). ConstraintNodeId e i) (parse_rendered IConstraint s)"

definition realization_from_str :: "string \<Rightarrow> IndexedNodeIdParseError + RealizationNodeId" where
  "realization_from_str s = map_sum id (\<lambda>(e, i). RealizationNodeId e i) (parse_rendered IRealization s)"

definition resolution_from_str :: "string \<Rightarrow> IndexedNodeIdParseError + ResolutionNodeId" where
  "resolution_from_str s = map_sum id (\<lambda>(e, i). ResolutionNodeId e i) (parse_rendered IResolution s)"

definition compute_from_str :: "string \<Rightarrow> IndexedNodeIdParseError + ComputeNodeId" where
  "compute_from_str s = map_sum id (\<lambda>(e, i). ComputeNodeId e i) (parse_rendered ICompute s)"

section \<open>Node identifiers\<close>

datatype NodeId =
    Value ValueCellId
  | Constraint ConstraintNodeId
  | Realization RealizationNodeId
  | Resolution ResolutionNodeId
  | Compute ComputeNodeId

fun nodeid_display :: "NodeId \<Rightarrow> string" where
  "nodeid_display (Value v) = valuecellid_display v"
| "nodeid_display (Constraint c) = constraint_display c"
| "nodeid_display (Realization r) = realization_display r"
| "nodeid_display (Resolution s) = resolution_display s"
| "nodeid_display (Compute c) = compute_display c"

fun describe :: "NodeId \<Rightarrow> string" where
  "describe (Value v) = ''value cell '' @ valuecellid_display v"
| "describe (Constraint c) = ''constraint '' @ constraint_display c"
| "describe (Realization r) = ''realization '' @ realization_display r"
| "describe (Resolution s) = ''resolution '' @ resolution_display s"
| "describe (Compute c) = ''compute '' @ compute_display c"

datatype NodeIdParseError =
    ValueError ValueCellIdParseError
  | IndexedError IndexedNodeIdParseError

fun parse_indexed :: "IndexedNodeKind \<Rightarrow> string \<Rightarrow> IndexedNodeIdParseError + NodeId" where
  "parse_indexed IConstraint s = map_sum id Constraint (constraint_from_str s)"
| "parse_indexed IRealization s = map_sum id Realization (realization_from_str s)"
| "parse_indexed IResolution s = map_sum id Resolution (resolution_from_str s)"
| "parse_indexed ICompute s = map_sum id Compute (compute_from_str s)"

definition nodeid_from_str :: "string \<Rightarrow> NodeIdParseError + NodeId" where
  "nodeid_from_str s =
     (case of_rendered_id s of
        None \<Rightarrow> map_sum ValueError Value (valuecellid_from_str s)
      | Some kind \<Rightarrow>
          (case parse_indexed kind s of
             Inr n \<Rightarrow> Inr n
           | Inl indexed_error \<Rightarrow>
               (case valuecellid_from_str s of
                  Inr v \<Rightarrow> Inr (Value v)
                | Inl _ \<Rightarrow> Inl (IndexedError indexed_error))))"

section \<open>Round trips\<close>

text \<open>What each grammar admits, as decidable predicates on the identifier.\<close>

definition dotted_ok :: "ModulePath \<Rightarrow> bool" where
  "dotted_ok p \<longleftrightarrow> segments p \<noteq> [] \<and> (\<forall>s \<in> set (segments p). s \<noteq> [] \<and> CHR ''.'' \<notin> set s)"

definition cell_ok :: "ValueCellId \<Rightarrow> bool" where
  "cell_ok v \<longleftrightarrow> vc_entity v \<noteq> [] \<and> vc_member v \<noteq> []
     \<and> CHR ''.'' \<notin> set (vc_entity v) \<and> CHR ''.'' \<notin> set (vc_member v)"

definition entity_ok :: "string \<Rightarrow> bool" where
  "entity_ok e \<longleftrightarrow> e \<noteq> [] \<and> set e \<inter> {CHR ''/'', CHR ''['', CHR '']''} = {}"

lemma from_dotted_Inr_iff:
  "from_dotted s = Inr p \<longleftrightarrow> dotted_ok p \<and> to_dotted p = s"
proof
  assume "from_dotted s = Inr p"
  then have p: "s \<noteq> []" "\<forall>t \<in> set (split CHR ''.'' s). t \<noteq> []" "p = ModulePath (split CHR ''.'' s)"
    by (auto simp: from_dotted_def list_ex_iff split: if_splits)
  then show "dotted_ok p \<and> to_dotted p = s"
    by (auto simp: dotted_ok_def to_dotted_def dest: split_pieces)
next
  assume p: "dotted_ok p \<and> to_dotted p = s"
  then have sp: "split CHR ''.'' s = segments p"
    by (auto simp: dotted_ok_def to_dotted_def intro!: split_join)
  moreover have "s \<noteq> []"
  proof
    assume "s = []"
    with sp have "[] \<in> set (segments p)" by (simp flip: sp)
    with p show False by (auto simp: dotted_ok_def)
  qed
  ultimately show "from_dotted s = Inr p"
    using p by (auto simp: from_dotted_def list_ex_iff dotted_ok_def)
qed

lemma valuecellid_from_str_Inr:
  "valuecellid_from_str s = Inr v \<longleftrightarrow> cell_ok v \<and> s = valuecellid_display v"
proof
  show "valuecellid_from_str s = Inr v \<Longrightarrow> cell_ok v \<and> s = valuecellid_display v"
    by (auto simp: valuecellid_from_str_def valuecellid_display_def cell_ok_def split_once_Some
        split: option.splits if_splits)
next
  assume v: "cell_ok v \<and> s = valuecellid_display v"
  then have "split_once CHR ''.'' s = Some (vc_entity v, vc_member v)"
    by (simp add: split_once_Some cell_ok_def valuecellid_display_def)
  with v show "valuecellid_from_str s = Inr v"
    by (simp add: valuecellid_from_str_def cell_ok_def)
qed

lemma marker_chars [simp]:
  "CHR ''#'' \<notin> set (marker k)" "CHR ''['' \<notin> set (marker k)" "CHR ''.'' \<notin> set (marker k)"
  by (cases k; simp)+

lemma marker_inj [simp]: "marker j = marker k \<longleftrightarrow> j = k"
  by (cases j; cases k) simp_all

lemma digit_not_special:
  "is_ascii_digit c \<Longrightarrow> c \<noteq> CHR ''#'' \<and> c \<noteq> CHR ''['' \<and> c \<noteq> CHR '']'' \<and> c \<noteq> CHR ''.''"
  by (auto simp: is_ascii_digit_def)

lemma show_u32_chars [simp]:
  "CHR ''#'' \<notin> set (show_u32 i)" "CHR ''['' \<notin> set (show_u32 i)" "CHR ''.'' \<notin> set (show_u32 i)"
  by (auto simp: show_u32_def dest: show_nat_digit_set digit_not_special)

lemma show_u32_digits [simp]: "list_all is_ascii_digit (show_u32 i)" "show_u32 i \<noteq> []"
  by (simp_all add: show_u32_def)

lemma rsplit_opener:
  "CHR ''#'' \<notin> set b \<Longrightarrow>
   rsplit_once_str (CHR ''#'' # marker k @ ''['') (a @ CHR ''#'' # marker k @ CHR ''['' # b) = Some (a, b)"
  using rsplit_once_str_append [of "CHR ''#'' # marker k @ ''[''" "CHR ''#''" "marker k @ ''[''" b a]
  by simp

lemma entity_ok_iff:
  "entity_ok e \<longleftrightarrow> e \<noteq> [] \<and> \<not> list_ex (\<lambda>c. c \<in> set [CHR ''/'', CHR ''['', CHR '']'']) e"
  by (auto simp: entity_ok_def list_ex_iff)

lemma parse_write_rendered:
  "parse_rendered k (write_rendered k e i) =
     (if e = [] then Inl (IndexedNodeIdParseError k FEmptyEntity)
      else if entity_ok e then Inr (e, i)
      else Inl (IndexedNodeIdParseError k FInvalidEntity))"
proof -
  have "rsplit_once_str (CHR ''#'' # marker k @ ''['') (write_rendered k e i) = Some (e, show_u32 i @ '']'')"
    using rsplit_opener [of "show_u32 i @ '']''" k e] by (simp add: write_rendered_def)
  then show ?thesis
    by (auto simp: parse_rendered_def Let_def entity_ok_iff list_ex_iff)
qed

text \<open>
  The parser accepts exactly the rendered form, up to leading zeros in the index.
\<close>

lemma parse_rendered_Inr:
  "parse_rendered k s = Inr (e, i) \<longleftrightarrow>
     entity_ok e \<and> (\<exists>ds. ds \<noteq> [] \<and> list_all is_ascii_digit ds \<and> parse_u32 ds = Some i
        \<and> s = e @ ''#'' @ marker k @ ''['' @ ds @ '']'')"
  (is "?L \<longleftrightarrow> ?R")
proof
  assume ?L
  then show ?R
    by (auto simp: parse_rendered_def Let_def entity_ok_iff strip_suffix_Some list_all_iff list_ex_iff
        split: option.splits if_splits dest!: rsplit_once_str_sound)
next
  assume ?R
  then obtain ds where ds: "ds \<noteq> []" "list_all is_ascii_digit ds" "parse_u32 ds = Some i"
    "s = e @ ''#'' @ marker k @ ''['' @ ds @ '']''" and e: "entity_ok e" by blast
  from ds(2) have "CHR ''#'' \<notin> set (ds @ '']'')" by (auto simp: list_all_iff dest: digit_not_special)
  then have "rsplit_once_str (CHR ''#'' # marker k @ ''['') s = Some (e, ds @ '']'')"
    using rsplit_opener [of "ds @ '']''" k e] ds(4) by simp
  with ds e show ?L by (auto simp: parse_rendered_def Let_def entity_ok_iff list_ex_iff)
qed

lemma of_rendered_write [simp]: "of_rendered_id (write_rendered k e i) = Some k"
proof -
  have "rsplit_once CHR ''#'' (write_rendered k e i) = Some (e, marker k @ ''['' @ show_u32 i @ '']'')"
    by (simp add: write_rendered_def)
  moreover have "split_once CHR ''['' (marker k @ ''['' @ show_u32 i @ '']'') = Some (marker k, show_u32 i @ '']'')"
    by simp
  ultimately show ?thesis
    by (cases k) (simp_all add: of_rendered_id_def IndexedNodeKind_ALL_def)
qed

lemmas from_str_defs = constraint_from_str_def realization_from_str_def
  resolution_from_str_def compute_from_str_def
lemmas display_defs = constraint_display_def realization_display_def
  resolution_display_def compute_display_def


text \<open>The admitted node ids, and which node an accepted text names.\<close>

fun indexed_parts :: "NodeId \<Rightarrow> (IndexedNodeKind \<times> string \<times> u32) option" where
  "indexed_parts (Value v) = None"
| "indexed_parts (Constraint (ConstraintNodeId e i)) = Some (IConstraint, e, i)"
| "indexed_parts (Realization (RealizationNodeId e i)) = Some (IRealization, e, i)"
| "indexed_parts (Resolution (ResolutionNodeId e i)) = Some (IResolution, e, i)"
| "indexed_parts (Compute (ComputeNodeId e i)) = Some (ICompute, e, i)"

lemma nodeid_display_indexed:
  "indexed_parts n = Some (k, e, i) \<Longrightarrow> nodeid_display n = write_rendered k e i"
  by (cases n rule: indexed_parts.cases) (auto simp: display_defs)

lemma parse_indexed_Inr:
  "parse_indexed k s = Inr n \<longleftrightarrow> (\<exists>e i. indexed_parts n = Some (k, e, i) \<and> parse_rendered k s = Inr (e, i))"
proof (cases "parse_rendered k s")
  case (Inl a)
  then show ?thesis by (cases k) (simp_all add: from_str_defs)
next
  case (Inr b)
  then show ?thesis
    by (cases k; cases b; cases n rule: indexed_parts.cases) (auto simp: from_str_defs)
qed

lemma parse_indexed_Inl:
  "parse_indexed k s = Inl err \<longleftrightarrow> parse_rendered k s = Inl err"
  by (cases k; cases "parse_rendered k s") (auto simp: from_str_defs)

lemma cell_display_not_indexed:
  assumes "indexed_parts n = Some (k, e, i)" and "\<not> entity_ok e"
  shows "nodeid_from_str (nodeid_display n) \<noteq> Inr n"
proof
  assume "nodeid_from_str (nodeid_display n) = Inr n"
  moreover from assms have "\<And>m. parse_indexed k (write_rendered k e i) \<noteq> Inr m"
    by (auto simp: parse_indexed_Inr parse_write_rendered)
  ultimately show False using assms(1)
    by (auto simp: nodeid_from_str_def nodeid_display_indexed split: sum.splits)
qed

text \<open>
  C40.  \<open>FromStr for NodeId\<close> inverts \<open>Display\<close> exactly on the ids its grammar
  admits.  An indexed node is recovered iff its entity is non-empty and free of
  the structural delimiters; a value cell is recovered iff both halves are
  non-empty and dot-free and the text is not also the rendering of an indexed
  node (that reading wins).
\<close>

theorem nodeid_roundtrip:
  "nodeid_from_str (nodeid_display n) = Inr n \<longleftrightarrow>
     (case n of
        Value v \<Rightarrow> cell_ok v \<and>
          \<not> (\<exists>k r. of_rendered_id (valuecellid_display v) = Some k
                 \<and> parse_rendered k (valuecellid_display v) = Inr r)
      | Constraint c \<Rightarrow> entity_ok (cn_entity c)
      | Realization r \<Rightarrow> entity_ok (rn_entity r)
      | Resolution r \<Rightarrow> entity_ok (sn_entity r)
      | Compute c \<Rightarrow> entity_ok (pn_entity c))"
proof -
  have idx: "nodeid_from_str (nodeid_display n) = Inr n \<longleftrightarrow> entity_ok e"
    if p: "indexed_parts n = Some (k, e, i)" for k e i
  proof (cases "entity_ok e")
    case True
    then have "parse_indexed k (write_rendered k e i) = Inr n"
      using p by (auto simp: parse_indexed_Inr parse_write_rendered entity_ok_def)
    with p True show ?thesis by (simp add: nodeid_from_str_def nodeid_display_indexed)
  next
    case False
    with p show ?thesis by (simp add: cell_display_not_indexed)
  qed
  show ?thesis
  proof (cases n)
    case (Value v)
    let ?s = "valuecellid_display v"
    have v: "valuecellid_from_str ?s = Inr v \<longleftrightarrow> cell_ok v"
      by (simp add: valuecellid_from_str_Inr)
    show ?thesis
    proof (cases "\<exists>k r. of_rendered_id ?s = Some k \<and> parse_rendered k ?s = Inr r")
      case True
      then obtain k r where "of_rendered_id ?s = Some k" "parse_rendered k ?s = Inr r" by blast
      then obtain m where "of_rendered_id ?s = Some k" "parse_indexed k ?s = Inr m"
        by (cases "parse_indexed k ?s") (simp_all add: parse_indexed_Inl)
      moreover from this(2) have "m \<noteq> Value v" by (auto simp: parse_indexed_Inr)
      ultimately show ?thesis using True Value by (auto simp: nodeid_from_str_def)
    next
      case False
      then have "\<And>k m. of_rendered_id ?s = Some k \<Longrightarrow> parse_indexed k ?s \<noteq> Inr m"
        by (auto simp: parse_indexed_Inr)
      then show ?thesis using False Value v
        by (cases "valuecellid_from_str ?s")
          (auto simp: nodeid_from_str_def split: option.splits sum.splits)
    qed
  next
    case (Constraint c)
    then show ?thesis using idx [of IConstraint "cn_entity c" "cn_index c"] by (cases c) simp
  next
    case (Realization r)
    then show ?thesis using idx [of IRealization "rn_entity r" "rn_index r"] by (cases r) simp
  next
    case (Resolution r)
    then show ?thesis using idx [of IResolution "sn_entity r" "sn_index r"] by (cases r) simp
  next
    case (Compute c)
    then show ?thesis using idx [of ICompute "pn_entity c" "pn_index c"] by (cases c) simp
  qed
qed

end
