(* ===== verification/NodeTraits.thy ===== *)
theory NodeTraits
  imports Identity
begin

unbundle bit_operations_syntax

text \<open>
  Composable execution-trait flags and the node-kind taxonomy
  (\<open>reify-ir/src/node_traits.rs\<close>), with the override map that resolves the
  flags of a node by instance, then by kind, then by the kind's default.
\<close>

section \<open>Flags\<close>

datatype NodeTraits = NodeTraits (trait_bits: u8)

definition empty_traits :: NodeTraits where
  "empty_traits = NodeTraits 0"

definition is_empty :: "NodeTraits \<Rightarrow> bool" where
  "is_empty t \<longleftrightarrow> trait_bits t = 0"

definition contains_traits :: "NodeTraits \<Rightarrow> NodeTraits \<Rightarrow> bool" where
  "contains_traits t other \<longleftrightarrow> (trait_bits t AND trait_bits other) = trait_bits other"

definition IMMEDIATE :: NodeTraits where "IMMEDIATE = NodeTraits 1"
definition WARM_STARTABLE :: NodeTraits where "WARM_STARTABLE = NodeTraits 2"
definition PROGRESSIVE :: NodeTraits where "PROGRESSIVE = NodeTraits 4"
definition COMMITTABLE :: NodeTraits where "COMMITTABLE = NodeTraits 8"

definition ALL_MASK :: u8 where
  "ALL_MASK = trait_bits IMMEDIATE OR trait_bits WARM_STARTABLE
     OR trait_bits PROGRESSIVE OR trait_bits COMMITTABLE"

definition traits_union :: "NodeTraits \<Rightarrow> NodeTraits \<Rightarrow> NodeTraits" where
  "traits_union a b = NodeTraits (trait_bits a OR trait_bits b)"

definition traits_intersection :: "NodeTraits \<Rightarrow> NodeTraits \<Rightarrow> NodeTraits" where
  "traits_intersection a b = NodeTraits (trait_bits a AND trait_bits b)"

definition traits_not :: "NodeTraits \<Rightarrow> NodeTraits" where
  "traits_not a = NodeTraits (NOT (trait_bits a) AND ALL_MASK)"

section \<open>Kinds\<close>

datatype NodeKind = KValue | KConstraint | KRealization | KResolution | KCompute

fun default_traits :: "NodeKind \<Rightarrow> NodeTraits" where
  "default_traits KValue = IMMEDIATE"
| "default_traits KConstraint = empty_traits"
| "default_traits KRealization = traits_union WARM_STARTABLE COMMITTABLE"
| "default_traits KResolution = traits_union WARM_STARTABLE COMMITTABLE"
| "default_traits KCompute = traits_union WARM_STARTABLE COMMITTABLE"

definition NodeKind_ALL :: "NodeKind list" where
  "NodeKind_ALL = [KValue, KConstraint, KRealization, KResolution, KCompute]"

fun node_kind :: "NodeId \<Rightarrow> NodeKind" where
  "node_kind (Value _) = KValue"
| "node_kind (Constraint _) = KConstraint"
| "node_kind (Realization _) = KRealization"
| "node_kind (Resolution _) = KResolution"
| "node_kind (Compute _) = KCompute"

section \<open>The override map\<close>

record NodeTraitsMap =
  instance_traits :: "(NodeId, NodeTraits) hash_map"
  by_kind :: "(NodeKind, NodeTraits) hash_map"

definition traitsmap_new :: NodeTraitsMap where
  "traitsmap_new = \<lparr>instance_traits = [], by_kind = []\<rparr>"

definition set_instance :: "NodeId \<Rightarrow> NodeTraits \<Rightarrow> NodeTraitsMap \<Rightarrow> NodeTraitsMap" where
  "set_instance node_id traits m = m\<lparr>instance_traits := hm_insert node_id traits (instance_traits m)\<rparr>"

definition set_type :: "NodeKind \<Rightarrow> NodeTraits \<Rightarrow> NodeTraitsMap \<Rightarrow> NodeTraitsMap" where
  "set_type kind traits m = m\<lparr>by_kind := hm_insert kind traits (by_kind m)\<rparr>"

definition resolve_traits :: "NodeTraitsMap \<Rightarrow> NodeId \<Rightarrow> NodeTraits" where
  "resolve_traits m node_id =
     (case hm_get (instance_traits m) node_id of
        Some t \<Rightarrow> t
      | None \<Rightarrow>
          (let kind = node_kind node_id in
           case hm_get (by_kind m) kind of
             Some t \<Rightarrow> t
           | None \<Rightarrow> default_traits kind))"

section \<open>The flags form a Boolean algebra over the declared mask\<close>

definition traits_ok :: "NodeTraits \<Rightarrow> bool" where
  "traits_ok t \<longleftrightarrow> (trait_bits t AND NOT ALL_MASK) = 0"

lemma ALL_MASK_val: "ALL_MASK = 15"
  by (simp add: ALL_MASK_def IMMEDIATE_def WARM_STARTABLE_def PROGRESSIVE_def COMMITTABLE_def)

lemma traits_ok_and_mask: "traits_ok t \<longleftrightarrow> (trait_bits t AND ALL_MASK) = trait_bits t"
proof
  assume "traits_ok t"
  then have "\<And>n. bit (trait_bits t AND NOT ALL_MASK) n = bit (0 :: u8) n" by (simp add: traits_ok_def)
  then show "(trait_bits t AND ALL_MASK) = trait_bits t"
    by (intro bit_word_eqI) (auto simp: bit_simps)
next
  assume "(trait_bits t AND ALL_MASK) = trait_bits t"
  then have "\<And>n. bit (trait_bits t AND ALL_MASK) n = bit (trait_bits t) n" by simp
  then show "traits_ok t" unfolding traits_ok_def by (intro bit_word_eqI) (auto simp: bit_simps)
qed

lemma contains_traits_bits:
  "contains_traits t u \<longleftrightarrow> (\<forall>n < 8. bit (trait_bits u) n \<longrightarrow> bit (trait_bits t) n)"
proof
  assume "contains_traits t u"
  then have "\<And>n. bit (trait_bits t AND trait_bits u) n = bit (trait_bits u) n"
    by (simp add: contains_traits_def)
  then show "\<forall>n < 8. bit (trait_bits u) n \<longrightarrow> bit (trait_bits t) n" by (auto simp: bit_simps)
next
  assume "\<forall>n < 8. bit (trait_bits u) n \<longrightarrow> bit (trait_bits t) n"
  then show "contains_traits t u"
    unfolding contains_traits_def by (intro bit_word_eqI) (auto simp: bit_simps)
qed

text \<open>
  Complement never produces a flag outside the four declared ones, and on
  well-formed flag sets it is the Boolean complement: involutive, disjoint from
  its argument and exhausting the mask with it.
\<close>

theorem traits_not_complement:
  "traits_ok (traits_not t)
   \<and> traits_intersection t (traits_not t) = empty_traits
   \<and> (traits_ok t \<longleftrightarrow> traits_not (traits_not t) = t)
   \<and> (traits_ok t \<longleftrightarrow> traits_union t (traits_not t) = NodeTraits ALL_MASK)"
proof -
  have 1: "traits_ok (traits_not t)"
    unfolding traits_ok_def traits_not_def by (intro bit_word_eqI) (auto simp: bit_simps)
  have 2: "traits_intersection t (traits_not t) = empty_traits"
    unfolding traits_intersection_def traits_not_def empty_traits_def
    by (auto simp: bit_simps intro!: bit_word_eqI)
  have "NOT (NOT (trait_bits t) AND ALL_MASK) AND ALL_MASK = trait_bits t AND ALL_MASK"
    by (intro bit_word_eqI) (auto simp: bit_simps)
  then have 3: "traits_ok t \<longleftrightarrow> traits_not (traits_not t) = t"
    by (cases t) (simp add: traits_ok_and_mask traits_not_def)
  have "trait_bits t OR (NOT (trait_bits t) AND ALL_MASK) = trait_bits t OR ALL_MASK"
    by (intro bit_word_eqI) (auto simp: bit_simps)
  moreover have "(trait_bits t OR ALL_MASK) = ALL_MASK \<longleftrightarrow> (trait_bits t AND ALL_MASK) = trait_bits t"
    by (metis word_ao_absorbs(1,2,3,4,5,6,7,8))
  ultimately have 4: "traits_ok t \<longleftrightarrow> traits_union t (traits_not t) = NodeTraits ALL_MASK"
    by (simp add: traits_ok_and_mask traits_not_def traits_union_def)
  from 1 2 3 4 show ?thesis by blast
qed

text \<open>
  An override for one node or one kind is what the node resolves to
  afterwards, with instance overrides taking precedence over kind overrides and
  those over the defaults, and it changes no other node's resolution.
\<close>

theorem resolve_traits_after_override:
  "resolve_traits (set_instance n t m) j = (if j = n then t else resolve_traits m j)
   \<and> resolve_traits (set_type k t m) j =
       (if hm_get (instance_traits m) j = None \<and> node_kind j = k then t else resolve_traits m j)
   \<and> resolve_traits traitsmap_new j = default_traits (node_kind j)"
  by (auto simp: resolve_traits_def set_instance_def set_type_def traitsmap_new_def hm_simps Let_def
      split: option.splits)

end
