(* ===== verification/Hash.thy ===== *)
theory Hash
  imports Prelude "HOL-Library.Word"
begin

text \<open>Content hashes (\<open>reify-core/src/hash.rs\<close>).\<close>

section \<open>Content hashes\<close>

text \<open>The third-party XXH3 function is the parameter \<open>xxh\<close> of the hash operations.\<close>

type_synonym ContentHash = "128 word"

definition le_bytes :: "nat \<Rightarrow> 'a::len word \<Rightarrow> u8 list" where
  "le_bytes n w = map (\<lambda>i. ucast (drop_bit (8 * i) w)) [0..<n]"

definition hash_of :: "(u8 list \<Rightarrow> ContentHash) \<Rightarrow> u8 list \<Rightarrow> ContentHash" where
  "hash_of xxh data = xxh data"

definition hash_of_str :: "(u8 list \<Rightarrow> ContentHash) \<Rightarrow> string \<Rightarrow> ContentHash" where
  "hash_of_str xxh s = hash_of xxh (map of_char s)"

definition hash_of_u64 :: "(u8 list \<Rightarrow> ContentHash) \<Rightarrow> u64 \<Rightarrow> ContentHash" where
  "hash_of_u64 xxh n = hash_of xxh (le_bytes 8 n)"

definition hash_combine :: "(u8 list \<Rightarrow> ContentHash) \<Rightarrow> ContentHash \<Rightarrow> ContentHash \<Rightarrow> ContentHash" where
  "hash_combine xxh a b = hash_of xxh (le_bytes 16 a @ le_bytes 16 b)"

definition hash_combine_all :: "(u8 list \<Rightarrow> ContentHash) \<Rightarrow> ContentHash list \<Rightarrow> ContentHash" where
  "hash_combine_all xxh hs = foldl (hash_combine xxh) 0 hs"

end
