(* ===== verification/Expr.thy ===== *)
theory Expr
  imports Identity Hash
begin

text \<open>
  The compiled expression tree and the two traversals dependency extraction is
  built on (\<open>reify-ir/src/expr.rs\<close>).  The run-time \<open>Value\<close> of a literal and
  the static \<open>Type\<close> of a node are carried and never inspected here, so they are
  type parameters.
\<close>

datatype SelectorKind = SFace | SPoint | SEdge

datatype DeterminacyPredicateKind = Determined | Undetermined | Constrained | PartiallyDetermined

datatype CompiledPattern =
    Wildcard
  | Variant string
  | VariantBind string "(string \<times> ValueCellId) list"

datatype BinOp =
    Add | Sub | Mul | Div | Mod | Pow | Eq | Ne | Lt | Le | Gt | Ge | And | Or | Implies

datatype UnOp = Neg | Not

datatype QuantifierKind = ForAll | Exists

datatype ResolvedFunction = ResolvedFunction (fn_name: string) (qualified_name: string)

datatype ('v, 't) CompiledExprKind =
    Literal 'v
  | ValueRef ValueCellId
  | BinOp BinOp "('v, 't) CompiledExpr" "('v, 't) CompiledExpr"
  | UnOp UnOp "('v, 't) CompiledExpr"
  | FunctionCall ResolvedFunction "('v, 't) CompiledExpr list"
  | Conditional "('v, 't) CompiledExpr" "('v, 't) CompiledExpr" "('v, 't) CompiledExpr"
  | Match "('v, 't) CompiledExpr" "(CompiledPattern list \<times> ('v, 't) CompiledExpr) list"
  | UserFunctionCall string "('v, 't) CompiledExpr list"
  | Lambda "(string \<times> 't option) list" "ValueCellId list" "('v, 't) CompiledExpr" "ValueCellId list"
  | ListLiteral "('v, 't) CompiledExpr list"
  | SetLiteral "('v, 't) CompiledExpr list"
  | MapLiteral "(('v, 't) CompiledExpr \<times> ('v, 't) CompiledExpr) list"
  | IndexAccess "('v, 't) CompiledExpr" "('v, 't) CompiledExpr"
  | MethodCall "('v, 't) CompiledExpr" string "('v, 't) CompiledExpr list"
  | Quantifier QuantifierKind string ValueCellId "('v, 't) CompiledExpr" "('v, 't) CompiledExpr"
  | OptionSome "('v, 't) CompiledExpr"
  | OptionNone
  | MetaAccess string string
  | DeterminacyPredicate DeterminacyPredicateKind ValueCellId
  | RangeConstructor "('v, 't) CompiledExpr option" "('v, 't) CompiledExpr option" bool bool
  | AdHocSelector "('v, 't) CompiledExpr" SelectorKind "('v, 't) CompiledExpr list"
  | PurposeReflectiveAggregation string string
  | ReflectiveCellList "('v, 't) CompiledExpr list"
  | CrossSubGeometryRef ValueCellId
  | StructureInstanceCtor u32 string u32
      "(string \<times> ('v, 't) CompiledExpr) list" "(string \<times> ('v, 't) CompiledExpr) list"
      "(string \<times> ('v, 't) CompiledExpr) list" "(u32 \<times> u32) option"
  | ResolveSelector "('v, 't) CompiledExpr"
and ('v, 't) CompiledExpr =
  CompiledExpr (expr_kind: "('v, 't) CompiledExprKind") (expr_type: 't) (expr_hash: ContentHash)

section \<open>Value references\<close>

text \<open>
  The cells reported by \<open>try_for_each_value_ref\<close>, in visit order.  The wrapping
  closure of the quantifier arm drops the bound variable from everything the
  predicate reports.
\<close>

fun collect_value_refs :: "('v, 't) CompiledExpr \<Rightarrow> ValueCellId list" where
  "collect_value_refs (CompiledExpr (ValueRef c) ty h) = [c]"
| "collect_value_refs (CompiledExpr (CrossSubGeometryRef c) ty h) = [c]"
| "collect_value_refs (CompiledExpr (Literal v) ty h) = []"
| "collect_value_refs (CompiledExpr (BinOp bop left right) ty h) = collect_value_refs left @ collect_value_refs right"
| "collect_value_refs (CompiledExpr (UnOp uop operand) ty h) = collect_value_refs operand"
| "collect_value_refs (CompiledExpr (FunctionCall fn args) ty h) = concat (map collect_value_refs args)"
| "collect_value_refs (CompiledExpr (Conditional c t e) ty h) =
     collect_value_refs c @ collect_value_refs t @ collect_value_refs e"
| "collect_value_refs (CompiledExpr (Match d arms) ty h) =
     collect_value_refs d @ concat (map (\<lambda>arm. collect_value_refs (snd arm)) arms)"
| "collect_value_refs (CompiledExpr (UserFunctionCall fn args) ty h) = concat (map collect_value_refs args)"
| "collect_value_refs (CompiledExpr (Lambda ps ids body captures) ty h) = captures"
| "collect_value_refs (CompiledExpr (ListLiteral es) ty h) = concat (map collect_value_refs es)"
| "collect_value_refs (CompiledExpr (ReflectiveCellList es) ty h) = concat (map collect_value_refs es)"
| "collect_value_refs (CompiledExpr (SetLiteral es) ty h) = concat (map collect_value_refs es)"
| "collect_value_refs (CompiledExpr (MapLiteral kvs) ty h) =
     concat (map (\<lambda>kv. collect_value_refs (fst kv) @ collect_value_refs (snd kv)) kvs)"
| "collect_value_refs (CompiledExpr (IndexAccess obj ix) ty h) = collect_value_refs obj @ collect_value_refs ix"
| "collect_value_refs (CompiledExpr (MethodCall obj m args) ty h) =
     collect_value_refs obj @ concat (map collect_value_refs args)"
| "collect_value_refs (CompiledExpr (Quantifier q v variable_id coll pred) ty h) =
     collect_value_refs coll @ filter (\<lambda>c. c \<noteq> variable_id) (collect_value_refs pred)"
| "collect_value_refs (CompiledExpr (OptionSome e) ty h) = collect_value_refs e"
| "collect_value_refs (CompiledExpr OptionNone ty h) = []"
| "collect_value_refs (CompiledExpr (MetaAccess ent key) ty h) = []"
| "collect_value_refs (CompiledExpr (DeterminacyPredicate dk cell) ty h) = [cell]"
| "collect_value_refs (CompiledExpr (RangeConstructor lo hi li ui) ty h) =
     (case lo of None \<Rightarrow> [] | Some e \<Rightarrow> collect_value_refs e)
     @ (case hi of None \<Rightarrow> [] | Some e \<Rightarrow> collect_value_refs e)"
| "collect_value_refs (CompiledExpr (AdHocSelector base sk args) ty h) =
     collect_value_refs base @ concat (map collect_value_refs args)"
| "collect_value_refs (CompiledExpr (PurposeReflectiveAggregation p q) ty h) = []"
| "collect_value_refs (CompiledExpr (StructureInstanceCtor ti tn ver ordered_args defaults lets span) ty h) =
     concat (map (\<lambda>na. collect_value_refs (snd na)) ordered_args)
     @ concat (map (\<lambda>nd. collect_value_refs (snd nd)) defaults)"
| "collect_value_refs (CompiledExpr (ResolveSelector s) ty h) = collect_value_refs s"

text \<open>\<open>contains_value_ref_matching\<close> asks the same traversal and stops at the first hit.\<close>

definition contains_value_ref_matching :: "(ValueCellId \<Rightarrow> bool) \<Rightarrow> ('v, 't) CompiledExpr \<Rightarrow> bool" where
  "contains_value_ref_matching f e \<longleftrightarrow> find f (collect_value_refs e) \<noteq> None"

section \<open>Pre-order traversal\<close>

text \<open>
  The nodes \<open>walk\<close> visits: a node, then what its children visit, in the order of
  the match.  Unlike the traversal above it enters lambda bodies.
\<close>

fun children :: "('v, 't) CompiledExprKind \<Rightarrow> ('v, 't) CompiledExpr list" where
  "children (Literal v) = []"
| "children (ValueRef c) = []"
| "children (CrossSubGeometryRef c) = []"
| "children (BinOp bop left right) = [left, right]"
| "children (UnOp uop operand) = [operand]"
| "children (FunctionCall fn args) = args"
| "children (Conditional c t e) = [c, t, e]"
| "children (Match d arms) = d # map snd arms"
| "children (UserFunctionCall fn args) = args"
| "children (Lambda ps ids body captures) = [body]"
| "children (ListLiteral es) = es"
| "children (ReflectiveCellList es) = es"
| "children (SetLiteral es) = es"
| "children (MapLiteral kvs) = concat (map (\<lambda>kv. [fst kv, snd kv]) kvs)"
| "children (IndexAccess obj ix) = [obj, ix]"
| "children (MethodCall obj m args) = obj # args"
| "children (Quantifier q v variable_id coll pred) = [coll, pred]"
| "children (OptionSome e) = [e]"
| "children OptionNone = []"
| "children (MetaAccess ent key) = []"
| "children (DeterminacyPredicate dk cell) = []"
| "children (RangeConstructor lo hi li ui) =
     (case lo of None \<Rightarrow> [] | Some e \<Rightarrow> [e]) @ (case hi of None \<Rightarrow> [] | Some e \<Rightarrow> [e])"
| "children (AdHocSelector base sk args) = base # args"
| "children (PurposeReflectiveAggregation p q) = []"
| "children (StructureInstanceCtor ti tn ver ordered_args defaults lets span) =
     map snd ordered_args @ map snd defaults"
| "children (ResolveSelector s) = [s]"

lemma size_elem: "x \<in> set xs \<Longrightarrow> f x \<le> size_list f xs"
  by (induction xs) auto

lemma size_elem_snd: "x \<in> set (map snd ps) \<Longrightarrow> g x \<le> size_list (size_prod f g) ps"
  proof (induction ps)
  case (Cons p ps)
  then show ?case by (cases p) (simp, fastforce)
qed simp

lemma size_elem_both: "x \<in> set (concat (map (\<lambda>p. [fst p, snd p]) ps)) \<Longrightarrow> f x \<le> size_list (size_prod f f) ps"
proof (induction ps)
  case (Cons p ps)
  then show ?case by (cases p) (simp, fastforce)
qed simp

lemma children_size:
  assumes "x \<in> set (children k)"
  shows "size x < size k"
proof (cases k)
  case (Match d arms)
  then have "x = d \<or> x \<in> set (map snd arms)" using assms by simp
  then show ?thesis using size_elem_snd [of x arms size "\<lambda>_. 0"] unfolding Match by (elim disjE) simp_all
next
  case (MapLiteral kvs)
  then show ?thesis using assms size_elem_both [of x kvs size] by simp
next
  case (StructureInstanceCtor ti tn ver args defaults lets sp)
  then have "x \<in> set (map snd args) \<or> x \<in> set (map snd defaults)" using assms by simp
  then show ?thesis
    using size_elem_snd [of x args size "\<lambda>_. 0"] size_elem_snd [of x defaults size "\<lambda>_. 0"]
    unfolding StructureInstanceCtor by (elim disjE) simp_all
qed (use assms in \<open>auto split: option.splits simp: less_Suc_eq_le trans_le_add1 trans_le_add2 size_elem\<close>)

function walk :: "('v, 't) CompiledExpr \<Rightarrow> ('v, 't) CompiledExpr list" where
  "walk (CompiledExpr k ty h) = CompiledExpr k ty h # concat (map walk (children k))"
  by pat_completeness auto
termination
  by (relation "measure size") (auto dest: children_size)

section \<open>What the two traversals have in common\<close>

lemma contains_value_ref_matching_iff:
  "contains_value_ref_matching f e \<longleftrightarrow> (\<exists>c \<in> set (collect_value_refs e). f c)"
  by (auto simp: contains_value_ref_matching_def find_None_iff)

text \<open>The references a node mentions by itself: the leaf forms and the captures.\<close>

fun own_refs :: "('v, 't) CompiledExprKind \<Rightarrow> ValueCellId list" where
  "own_refs (ValueRef c) = [c]"
| "own_refs (CrossSubGeometryRef c) = [c]"
| "own_refs (DeterminacyPredicate dk c) = [c]"
| "own_refs (Lambda ps ids body captures) = captures"
| "own_refs _ = []"

definition mentioned :: "('v, 't) CompiledExpr list \<Rightarrow> ValueCellId set" where
  "mentioned ns = (\<Union>n \<in> set ns. set (own_refs (expr_kind n)))"

lemma mentioned_simps [simp]:
  "mentioned [] = {}"
  "mentioned (n # ns) = set (own_refs (expr_kind n)) \<union> mentioned ns"
  "mentioned (ms @ ns) = mentioned ms \<union> mentioned ns"
  by (auto simp: mentioned_def)

lemma mentioned_concat: "mentioned (concat (map g xs)) = (\<Union>x \<in> set xs. mentioned (g x))"
  by (induction xs) auto

lemma value_refs_step:
  "set (collect_value_refs (CompiledExpr k ty h))
     \<subseteq> set (own_refs k) \<union> (\<Union>x \<in> set (children k). set (collect_value_refs x))"
  by (cases k) (auto split: option.splits)

lemma value_refs_mentioned: "set (collect_value_refs e) \<subseteq> mentioned (walk e)"
proof (induction e rule: walk.induct)
  case (1 k ty h)
  then show ?case using value_refs_step [of k ty h] by (fastforce simp: mentioned_concat)
qed

end
