(* ===== verification/Deps.thy ===== *)
theory Deps
  imports Expr
begin

text \<open>
  The evaluation graph and static dependency extraction
  (\<open>reify-eval/src/graph.rs\<close>, \<open>reify-eval/src/deps.rs\<close>): the forward trace of
  every node and the reverse index from cells and realizations to the nodes that
  read them.  Payload fields that no dependency function reads (labels, reprs,
  kernels, warm state, elaboration metadata) are left out of the records.
\<close>

named_theorems dep_edges \<open>the edges an operation adds to the reverse index\<close>

section \<open>Graph nodes\<close>

datatype ValueCellKind = Param | Let | Auto bool

fun is_auto :: "ValueCellKind \<Rightarrow> bool" where
  "is_auto (Auto free) = True"
| "is_auto _ = False"

record ('v, 't) ValueCellNode =
  vcn_id :: ValueCellId
  vcn_kind :: ValueCellKind
  cell_type :: 't
  default_expr :: "('v, 't) CompiledExpr option"

record ('v, 't) ConstraintNodeData =
  cnd_id :: ConstraintNodeId
  cnd_expr :: "('v, 't) CompiledExpr"

datatype GeomRef = Step usize | SubRef string

text \<open>The shape kinds of the operations are carried by name.\<close>

datatype ('v, 't) CompiledGeometryOp =
    Primitive string "(string \<times> ('v, 't) CompiledExpr) list"
  | Boolean string GeomRef GeomRef
  | Modify string GeomRef "(string \<times> ('v, 't) CompiledExpr) list"
  | Transform string GeomRef "(string \<times> ('v, 't) CompiledExpr) list"
  | Pattern string GeomRef "(string \<times> ('v, 't) CompiledExpr) list"
  | Sweep string "GeomRef list" "(string \<times> ('v, 't) CompiledExpr) list"
  | Curve string "(string \<times> ('v, 't) CompiledExpr) list"
  | Profile string "(string \<times> ('v, 't) CompiledExpr) list"
  | Surface string "(string \<times> ('v, 't) CompiledExpr) list"
  | Isosurface GeomRef "(string \<times> ('v, 't) CompiledExpr) list"

record ('v, 't) RealizationNodeData =
  rnd_id :: RealizationNodeId
  operations :: "('v, 't) CompiledGeometryOp list"
  geometry_cell :: "ValueCellId option"

record ResolutionNodeData =
  resd_id :: ResolutionNodeId
  auto_params :: "ValueCellId list"
  constraint_deps :: "ConstraintNodeId list"

record ComputeNodeData =
  computation_id :: ComputeNodeId
  cn_target :: string
  value_inputs :: "ValueCellId list"
  realization_inputs :: "RealizationNodeId list"
  output_value_cells :: "ValueCellId list"

record ('v, 't) EvaluationGraph =
  value_cells :: "(ValueCellId, ('v, 't) ValueCellNode) hash_map"
  constraints :: "(ConstraintNodeId, ('v, 't) ConstraintNodeData) hash_map"
  realizations :: "(RealizationNodeId, ('v, 't) RealizationNodeData) hash_map"
  resolutions :: "(ResolutionNodeId, ResolutionNodeData) hash_map"
  compute_nodes :: "(ComputeNodeId, ComputeNodeData) hash_map"

datatype ('v, 't) CompiledFieldSource =
    Analytical "('v, 't) CompiledExpr"
  | Sampled "(string \<times> ('v, 't) CompiledExpr) list"
  | Composed "('v, 't) CompiledExpr"
  | Imported "string option" "string option" "string option"

record ('v, 't) CompiledField =
  fld_name :: string
  fld_source :: "('v, 't) CompiledFieldSource"

section \<open>Traces\<close>

record DependencyTrace =
  reads :: "ValueCellId list"
  realization_reads :: "RealizationNodeId list"

definition trace_default :: DependencyTrace where
  "trace_default = \<lparr>reads = [], realization_reads = []\<rparr>"

definition extract_dependency_trace :: "('v, 't) CompiledExpr \<Rightarrow> DependencyTrace" where
  "extract_dependency_trace e = \<lparr>reads = collect_value_refs e, realization_reads = []\<rparr>"

text \<open>\<open>None\<close> is the panic on an absent key.\<close>

definition take_trace ::
  "(NodeId, DependencyTrace) hash_map \<Rightarrow> NodeId \<Rightarrow>
   (DependencyTrace \<times> (NodeId, DependencyTrace) hash_map) option" where
  "take_trace traces node_id =
     (case hm_get traces node_id of None \<Rightarrow> None | Some t \<Rightarrow> Some (t, hm_remove node_id traces))"

section \<open>The reverse index\<close>

record ReverseDependencyIndex =
  rdi_index :: "(ValueCellId, NodeId hash_set) hash_map"
  rdi_realization_index :: "(RealizationNodeId, NodeId hash_set) hash_map"

definition rdi_new :: ReverseDependencyIndex where
  "rdi_new = \<lparr>rdi_index = [], rdi_realization_index = []\<rparr>"

definition rdi_add :: "ValueCellId \<Rightarrow> NodeId \<Rightarrow> ReverseDependencyIndex \<Rightarrow> ReverseDependencyIndex" where
  "rdi_add cell dependent ri = ri\<lparr>rdi_index := hm_upsert cell [] (hs_insert dependent) (rdi_index ri)\<rparr>"

definition dependents_of :: "ReverseDependencyIndex \<Rightarrow> ValueCellId \<Rightarrow> NodeId hash_set" where
  "dependents_of ri cell = (case hm_get (rdi_index ri) cell of None \<Rightarrow> [] | Some s \<Rightarrow> s)"

definition add_realization ::
  "RealizationNodeId \<Rightarrow> NodeId \<Rightarrow> ReverseDependencyIndex \<Rightarrow> ReverseDependencyIndex" where
  "add_realization rid dependent ri =
     ri\<lparr>rdi_realization_index := hm_upsert rid [] (hs_insert dependent) (rdi_realization_index ri)\<rparr>"

definition realization_dependents_of ::
  "ReverseDependencyIndex \<Rightarrow> RealizationNodeId \<Rightarrow> NodeId hash_set" where
  "realization_dependents_of ri rid =
     (case hm_get (rdi_realization_index ri) rid of None \<Rightarrow> [] | Some s \<Rightarrow> s)"

section \<open>Resolvers from cells and members to realizations\<close>

definition geometry_cell_realization_links ::
  "('v, 't) EvaluationGraph \<Rightarrow> (RealizationNodeId \<times> ValueCellId) list" where
  "geometry_cell_realization_links graph =
     List.map_filter (\<lambda>(_, rnode). map_option (\<lambda>cell. (rnd_id rnode, cell)) (geometry_cell rnode))
       (realizations graph)"

definition realization_by_cell ::
  "('v, 't) EvaluationGraph \<Rightarrow> (ValueCellId, RealizationNodeId) hash_map" where
  "realization_by_cell graph =
     (let unique = fold (\<lambda>(rid, cell) m.
            (case hm_get m cell of
               Some _ \<Rightarrow> hm_insert cell None m
             | None \<Rightarrow> hm_insert cell (Some rid) m))
          (geometry_cell_realization_links graph) []
      in List.map_filter (\<lambda>(cell, rid). map_option (\<lambda>r. (cell, r)) rid) unique)"

definition member_realization_index ::
  "('v, 't) EvaluationGraph \<Rightarrow> (string, RealizationNodeId list) hash_map" where
  "member_realization_index graph =
     fold (\<lambda>(_, rnode) m.
         (case geometry_cell rnode of
            Some cell \<Rightarrow> hm_upsert (vc_member cell) [] (\<lambda>v. v @ [rnd_id rnode]) m
          | None \<Rightarrow> m))
       (realizations graph) []"

definition geometry_cell_realization_reads ::
  "('v, 't) EvaluationGraph \<Rightarrow> (ValueCellId, RealizationNodeId list) hash_map" where
  "geometry_cell_realization_reads graph =
     fold (\<lambda>(rid, cell) m. hm_upsert cell [] (\<lambda>v. v @ [rid]) m)
       (geometry_cell_realization_links graph) []"

text \<open>\<open>if seen.insert(rid.clone()) { result.push(rid) }\<close>\<close>

fun push_new :: "'a \<Rightarrow> 'a list \<times> 'a hash_set \<Rightarrow> 'a list \<times> 'a hash_set" where
  "push_new rid (result, seen) =
     (if rid \<in> set seen then (result, seen) else (result @ [rid], hs_insert rid seen))"

fun is_geometry_query_call :: "('v, 't) CompiledExpr \<Rightarrow> bool" where
  "is_geometry_query_call (CompiledExpr (FunctionCall fn args) ty h) \<longleftrightarrow>
     length args = 1 \<and> fn_name fn \<in> {''volume'', ''area'', ''centroid'', ''bounding_box''}"
| "is_geometry_query_call _ \<longleftrightarrow> False"

text \<open>The cell a recognised query names: its first argument, when that is a direct reference.\<close>

definition query_cell :: "('v, 't) CompiledExpr \<Rightarrow> ValueCellId option" where
  "query_cell node =
     (if is_geometry_query_call node then
        (case expr_kind node of
           FunctionCall fn args \<Rightarrow>
             (case args of
                arg # _ \<Rightarrow> (case expr_kind arg of ValueRef c \<Rightarrow> Some c | _ \<Rightarrow> None)
              | [] \<Rightarrow> None)
         | _ \<Rightarrow> None)
      else None)"

definition collect_constraint_realization_reads ::
  "('v, 't) CompiledExpr \<Rightarrow> (ValueCellId, RealizationNodeId) hash_map \<Rightarrow> RealizationNodeId list" where
  "collect_constraint_realization_reads e rbc =
     fst (fold (\<lambda>node acc.
         (case query_cell node of
            None \<Rightarrow> acc
          | Some cell_id \<Rightarrow>
              (case hm_get rbc cell_id of None \<Rightarrow> acc | Some rid \<Rightarrow> push_new rid acc)))
       (walk e) ([], []))"

definition resolve_reads_to_realizations ::
  "ValueCellId list \<Rightarrow> (ValueCellId, RealizationNodeId) hash_map \<Rightarrow> RealizationNodeId list" where
  "resolve_reads_to_realizations rs rbc =
     fst (fold (\<lambda>cell acc.
         (case hm_get rbc cell of None \<Rightarrow> acc | Some rid \<Rightarrow> push_new rid acc))
       rs ([], []))"

section \<open>Realization operands\<close>

fun op_args :: "('v, 't) CompiledGeometryOp \<Rightarrow> (string \<times> ('v, 't) CompiledExpr) list" where
  "op_args (Primitive k args) = args"
| "op_args (Modify k target args) = args"
| "op_args (Transform k target args) = args"
| "op_args (Pattern k target args) = args"
| "op_args (Sweep k profiles args) = args"
| "op_args (Curve k args) = args"
| "op_args (Profile k args) = args"
| "op_args (Surface k args) = args"
| "op_args (Isosurface grid args) = args"
| "op_args (Boolean k left right) = []"

definition extract_realization_dependencies :: "('v, 't) CompiledGeometryOp list \<Rightarrow> DependencyTrace" where
  "extract_realization_dependencies ops =
     \<lparr>reads = concat (map (\<lambda>gop. concat (map (\<lambda>(_, e). collect_value_refs e) (op_args gop))) ops),
      realization_reads = []\<rparr>"

text \<open>
  The scan of a candidate list for the unique acceptable entry; a second
  acceptable entry ends it with \<open>None\<close>.
\<close>

fun unique_candidate :: "('a \<Rightarrow> bool) \<Rightarrow> 'a list \<Rightarrow> 'a option \<Rightarrow> 'a option" where
  "unique_candidate accept [] found = found"
| "unique_candidate accept (rid # rest) found =
     (if \<not> accept rid then unique_candidate accept rest found
      else if found \<noteq> None then None
      else unique_candidate accept rest (Some rid))"

definition resolve_sub_ref ::
  "string \<Rightarrow> string \<Rightarrow> (string, RealizationNodeId list) hash_map \<Rightarrow> RealizationNodeId option" where
  "resolve_sub_ref name consuming_entity member_index =
     (case split_once CHR ''.'' name of
        None \<Rightarrow> None
      | Some (_, member) \<Rightarrow>
          (case hm_get member_index member of
             None \<Rightarrow> None
           | Some candidates \<Rightarrow>
               unique_candidate (\<lambda>rid. rn_entity rid \<noteq> consuming_entity) candidates None))"

definition resolve_sibling_ref ::
  "string \<Rightarrow> string \<Rightarrow> (string, RealizationNodeId list) hash_map \<Rightarrow> RealizationNodeId option" where
  "resolve_sibling_ref name consuming_entity member_index =
     (if CHR ''.'' \<in> set name then None
      else (case hm_get member_index name of
              None \<Rightarrow> None
            | Some candidates \<Rightarrow>
                unique_candidate (\<lambda>rid. rn_entity rid = consuming_entity) candidates None))"

definition resolve_geom_sub_edge ::
  "string \<Rightarrow> string \<Rightarrow> (string, RealizationNodeId list) hash_map \<Rightarrow> RealizationNodeId option" where
  "resolve_geom_sub_edge name consuming_entity member_index =
     (if CHR ''.'' \<in> set name then resolve_sub_ref name consuming_entity member_index
      else resolve_sibling_ref name consuming_entity member_index)"

fun op_geom_refs :: "('v, 't) CompiledGeometryOp \<Rightarrow> GeomRef list" where
  "op_geom_refs (Boolean k left right) = [left, right]"
| "op_geom_refs (Modify k target args) = [target]"
| "op_geom_refs (Transform k target args) = [target]"
| "op_geom_refs (Pattern k target args) = [target]"
| "op_geom_refs (Sweep k profiles args) = profiles"
| "op_geom_refs (Isosurface grid args) = [grid]"
| "op_geom_refs _ = []"

definition extract_realization_edges ::
  "('v, 't) CompiledGeometryOp list \<Rightarrow> string \<Rightarrow> (string, RealizationNodeId list) hash_map \<Rightarrow>
   RealizationNodeId list" where
  "extract_realization_edges ops consuming_entity member_index =
     concat (map (\<lambda>gop. List.map_filter
         (\<lambda>geom_ref. case geom_ref of
            SubRef name \<Rightarrow> resolve_geom_sub_edge name consuming_entity member_index
          | Step _ \<Rightarrow> None)
         (op_geom_refs gop)) ops)"


section \<open>Building the reverse index\<close>

abbreviation add_reads :: "ValueCellId list \<Rightarrow> NodeId \<Rightarrow> ReverseDependencyIndex \<Rightarrow> ReverseDependencyIndex" where
  "add_reads cells n \<equiv> fold (\<lambda>cell. rdi_add cell n) cells"

abbreviation add_realizations ::
  "RealizationNodeId list \<Rightarrow> NodeId \<Rightarrow> ReverseDependencyIndex \<Rightarrow> ReverseDependencyIndex" where
  "add_realizations rids n \<equiv> fold (\<lambda>rid. add_realization rid n) rids"

definition index_value_cell ::
  "(ValueCellId, RealizationNodeId) hash_map \<Rightarrow> ('v, 't) ValueCellNode \<Rightarrow>
   ReverseDependencyIndex \<Rightarrow> ReverseDependencyIndex" where
  "index_value_cell rbc node ri =
     (if is_auto (vcn_kind node) then ri
      else (case default_expr node of
          None \<Rightarrow> ri
        | Some e \<Rightarrow>
            (let trace = extract_dependency_trace e; node_id = Value (vcn_id node)
             in add_realizations (resolve_reads_to_realizations (reads trace) rbc) node_id
                  (add_reads (reads trace) node_id ri))))"

definition index_constraint ::
  "(ValueCellId, RealizationNodeId) hash_map \<Rightarrow> ('v, 't) ConstraintNodeData \<Rightarrow>
   ReverseDependencyIndex \<Rightarrow> ReverseDependencyIndex" where
  "index_constraint rbc cnode ri =
     (let trace = extract_dependency_trace (cnd_expr cnode); node_id = Constraint (cnd_id cnode)
      in add_realizations (collect_constraint_realization_reads (cnd_expr cnode) rbc) node_id
           (add_reads (reads trace) node_id ri))"

definition index_realization ::
  "(string, RealizationNodeId list) hash_map \<Rightarrow> ('v, 't) RealizationNodeData \<Rightarrow>
   ReverseDependencyIndex \<Rightarrow> ReverseDependencyIndex" where
  "index_realization member_index rnode ri =
     (let trace = extract_realization_dependencies (operations rnode);
          node_id = Realization (rnd_id rnode)
      in add_realizations
           (extract_realization_edges (operations rnode) (rn_entity (rnd_id rnode)) member_index) node_id
           (add_reads (reads trace) node_id ri))"

definition index_resolution :: "ResolutionNodeData \<Rightarrow> ReverseDependencyIndex \<Rightarrow> ReverseDependencyIndex" where
  "index_resolution res_node = add_reads (auto_params res_node) (Resolution (resd_id res_node))"

definition index_compute :: "ComputeNodeData \<Rightarrow> ReverseDependencyIndex \<Rightarrow> ReverseDependencyIndex" where
  "index_compute cnode ri =
     (let node_id = Compute (computation_id cnode)
      in add_realizations (realization_inputs cnode) node_id
           (add_reads (value_inputs cnode) node_id ri))"

definition index_field :: "('v, 't) CompiledField \<Rightarrow> ReverseDependencyIndex \<Rightarrow> ReverseDependencyIndex" where
  "index_field field ri =
     (case fld_source field of
        Composed e \<Rightarrow>
          add_reads (reads (extract_dependency_trace e))
            (Value (ValueCellId FIELD_ENTITY_PREFIX (fld_name field))) ri
      | _ \<Rightarrow> ri)"

definition build_from_graph_and_fields ::
  "('v, 't) EvaluationGraph \<Rightarrow> ('v, 't) CompiledField list \<Rightarrow> ReverseDependencyIndex" where
  "build_from_graph_and_fields graph flds =
     (let rbc = realization_by_cell graph; member_index = member_realization_index graph;
          i1 = fold (\<lambda>(_, node). index_value_cell rbc node) (value_cells graph) rdi_new;
          i2 = fold (\<lambda>(_, cnode). index_constraint rbc cnode) (constraints graph) i1;
          i3 = fold (\<lambda>(_, rnode). index_realization member_index rnode) (realizations graph) i2;
          i4 = fold (\<lambda>(_, res_node). index_resolution res_node) (resolutions graph) i3;
          i5 = fold (\<lambda>(_, cnode). index_compute cnode) (compute_nodes graph) i4;
          i6 = fold index_field flds i5
      in fold (\<lambda>(rid, cell). add_realization rid (Value cell)) (geometry_cell_realization_links graph) i6)"

definition build_from_graph :: "('v, 't) EvaluationGraph \<Rightarrow> ReverseDependencyIndex" where
  "build_from_graph graph = build_from_graph_and_fields graph []"

section \<open>Building the forward traces\<close>

type_synonym traces = "(NodeId, DependencyTrace) hash_map"

definition value_cell_trace ::
  "(ValueCellId, RealizationNodeId) hash_map \<Rightarrow> ('v, 't) ValueCellNode \<Rightarrow> DependencyTrace" where
  "value_cell_trace rbc node =
     (let trace = (if is_auto (vcn_kind node) then trace_default
                   else (case default_expr node of
                       None \<Rightarrow> trace_default | Some e \<Rightarrow> extract_dependency_trace e))
      in trace\<lparr>realization_reads := resolve_reads_to_realizations (reads trace) rbc\<rparr>)"

definition constraint_trace ::
  "(ValueCellId, RealizationNodeId) hash_map \<Rightarrow> ('v, 't) ConstraintNodeData \<Rightarrow> DependencyTrace" where
  "constraint_trace rbc cnode =
     (extract_dependency_trace (cnd_expr cnode))
       \<lparr>realization_reads := collect_constraint_realization_reads (cnd_expr cnode) rbc\<rparr>"

definition realization_trace ::
  "(string, RealizationNodeId list) hash_map \<Rightarrow> ('v, 't) RealizationNodeData \<Rightarrow> DependencyTrace" where
  "realization_trace member_index rnode =
     (let trace = extract_realization_dependencies (operations rnode);
          edges = extract_realization_edges (operations rnode) (rn_entity (rnd_id rnode)) member_index
      in trace\<lparr>realization_reads := fst (fold push_new edges (realization_reads trace, []))\<rparr>)"

definition resolution_trace :: "ResolutionNodeData \<Rightarrow> DependencyTrace" where
  "resolution_trace res_node = \<lparr>reads = auto_params res_node, realization_reads = []\<rparr>"

definition insert_field_trace :: "('v, 't) CompiledField \<Rightarrow> traces \<Rightarrow> traces" where
  "insert_field_trace field traces =
     (case fld_source field of
        Composed e \<Rightarrow>
          hm_insert (Value (ValueCellId FIELD_ENTITY_PREFIX (fld_name field)))
            (extract_dependency_trace e) traces
      | _ \<Rightarrow> traces)"

definition push_realization_read :: "RealizationNodeId \<Rightarrow> DependencyTrace \<Rightarrow> DependencyTrace" where
  "push_realization_read rid trace = trace\<lparr>realization_reads := realization_reads trace @ [rid]\<rparr>"

definition build_trace_map_and_fields ::
  "('v, 't) EvaluationGraph \<Rightarrow> ('v, 't) CompiledField list \<Rightarrow> traces" where
  "build_trace_map_and_fields graph flds =
     (let rbc = realization_by_cell graph; member_index = member_realization_index graph;
          t1 = fold (\<lambda>(_, node). hm_insert (Value (vcn_id node)) (value_cell_trace rbc node))
                 (value_cells graph) [];
          t2 = fold (\<lambda>(_, cnode). hm_insert (Constraint (cnd_id cnode)) (constraint_trace rbc cnode))
                 (constraints graph) t1;
          t3 = fold (\<lambda>(_, rnode). hm_insert (Realization (rnd_id rnode)) (realization_trace member_index rnode))
                 (realizations graph) t2;
          t4 = fold (\<lambda>(_, res_node). hm_insert (Resolution (resd_id res_node)) (resolution_trace res_node))
                 (resolutions graph) t3;
          t5 = fold insert_field_trace flds t4
      in fold (\<lambda>(rid, cell). hm_modify (Value cell) (push_realization_read rid))
           (geometry_cell_realization_links graph) t5)"

definition build_trace_map :: "('v, 't) EvaluationGraph \<Rightarrow> traces" where
  "build_trace_map graph = build_trace_map_and_fields graph []"


section \<open>The edges each side records\<close>

definition rev_edges :: "ReverseDependencyIndex \<Rightarrow> (ValueCellId \<times> NodeId) set" where
  "rev_edges ri = {(c, n). n \<in> set (dependents_of ri c)}"

definition rev_realization_edges :: "ReverseDependencyIndex \<Rightarrow> (RealizationNodeId \<times> NodeId) set" where
  "rev_realization_edges ri = {(r, n). n \<in> set (realization_dependents_of ri r)}"

lemma rev_edges_new [simp]: "rev_edges rdi_new = {}" "rev_realization_edges rdi_new = {}"
  by (simp_all add: rev_edges_def rev_realization_edges_def dependents_of_def
      realization_dependents_of_def rdi_new_def)

lemma rev_edges_add [simp]:
  "rev_edges (rdi_add c n ri) = insert (c, n) (rev_edges ri)"
  "rev_realization_edges (rdi_add c n ri) = rev_realization_edges ri"
  by (auto simp: rev_edges_def rev_realization_edges_def dependents_of_def
      realization_dependents_of_def rdi_add_def hm_simps split: option.splits if_splits)

lemma rev_edges_add_realization [simp]:
  "rev_realization_edges (add_realization r n ri) = insert (r, n) (rev_realization_edges ri)"
  "rev_edges (add_realization r n ri) = rev_edges ri"
  by (auto simp: rev_edges_def rev_realization_edges_def dependents_of_def
      realization_dependents_of_def add_realization_def hm_simps split: option.splits if_splits)

text \<open>A loop that adds a fixed set of edges per element adds their union.\<close>

lemma fold_edges:
  assumes "\<And>x s. edges (f x s) = edges s \<union> A x"
  shows "edges (fold f xs s) = edges s \<union> (\<Union>x \<in> set xs. A x)"
  by (induction xs arbitrary: s) (auto simp: assms)

lemma add_reads_edges [simp]:
  "rev_edges (add_reads cs n ri) = rev_edges ri \<union> set cs \<times> {n}"
  "rev_realization_edges (add_reads cs n ri) = rev_realization_edges ri"
  by (induction cs arbitrary: ri) auto

lemma add_realizations_edges [simp]:
  "rev_realization_edges (add_realizations rs n ri) = rev_realization_edges ri \<union> set rs \<times> {n}"
  "rev_edges (add_realizations rs n ri) = rev_edges ri"
  by (induction rs arbitrary: ri) auto

lemma index_value_cell_edges [dep_edges]:
  "rev_edges (index_value_cell rbc node ri)
     = rev_edges ri \<union> set (reads (value_cell_trace rbc node)) \<times> {Value (vcn_id node)}"
  "rev_realization_edges (index_value_cell rbc node ri)
     = rev_realization_edges ri
       \<union> set (realization_reads (value_cell_trace rbc node)) \<times> {Value (vcn_id node)}"
  by (auto simp: index_value_cell_def value_cell_trace_def trace_default_def
      resolve_reads_to_realizations_def Let_def split: option.splits)

lemma index_constraint_edges [dep_edges]:
  "rev_edges (index_constraint rbc cnode ri)
     = rev_edges ri \<union> set (reads (constraint_trace rbc cnode)) \<times> {Constraint (cnd_id cnode)}"
  "rev_realization_edges (index_constraint rbc cnode ri)
     = rev_realization_edges ri
       \<union> set (realization_reads (constraint_trace rbc cnode)) \<times> {Constraint (cnd_id cnode)}"
  by (auto simp: index_constraint_def constraint_trace_def Let_def)

text \<open>The result of the deduplicating push holds every element once.\<close>

lemma push_new_fold:
  assumes "set result = set seen" "distinct result"
  shows "set (fst (fold push_new xs (result, seen))) = set xs \<union> set result
     \<and> distinct (fst (fold push_new xs (result, seen)))"
  using assms
proof (induction xs arbitrary: result seen)
  case (Cons x xs)
  show ?case
  proof (cases "x \<in> set seen")
    case True
    with Cons show ?thesis by auto
  next
    case False
    with Cons.prems Cons.IH [of "result @ [x]" "hs_insert x seen"] show ?thesis by auto
  qed
qed simp

lemma index_realization_edges [dep_edges]:
  "rev_edges (index_realization mi rnode ri)
     = rev_edges ri \<union> set (reads (realization_trace mi rnode)) \<times> {Realization (rnd_id rnode)}"
  "rev_realization_edges (index_realization mi rnode ri)
     = rev_realization_edges ri
       \<union> set (realization_reads (realization_trace mi rnode)) \<times> {Realization (rnd_id rnode)}"
  by (simp_all add: index_realization_def realization_trace_def extract_realization_dependencies_def
      push_new_fold Let_def)

lemma index_resolution_edges [dep_edges]:
  "rev_edges (index_resolution res ri) = rev_edges ri \<union> set (auto_params res) \<times> {Resolution (resd_id res)}"
  "rev_realization_edges (index_resolution res ri) = rev_realization_edges ri"
  by (simp_all add: index_resolution_def)

lemma index_compute_edges [dep_edges]:
  "rev_edges (index_compute cn ri) = rev_edges ri \<union> set (value_inputs cn) \<times> {Compute (computation_id cn)}"
  "rev_realization_edges (index_compute cn ri)
     = rev_realization_edges ri \<union> set (realization_inputs cn) \<times> {Compute (computation_id cn)}"
  by (simp_all add: index_compute_def Let_def)

text \<open>The cells and traces of the composed fields.\<close>

definition field_cell :: "('v, 't) CompiledField \<Rightarrow> ValueCellId" where
  "field_cell f = ValueCellId FIELD_ENTITY_PREFIX (fld_name f)"

definition composed_traces :: "('v, 't) CompiledField list \<Rightarrow> (NodeId \<times> DependencyTrace) list" where
  "composed_traces flds = List.map_filter
     (\<lambda>f. case fld_source f of
            Composed e \<Rightarrow> Some (Value (field_cell f), extract_dependency_trace e)
          | _ \<Rightarrow> None) flds"

lemma fold_index_field_edges:
  "rev_edges (fold index_field flds ri)
     = rev_edges ri \<union> (\<Union>(n, t) \<in> set (composed_traces flds). set (reads t) \<times> {n})"
  "rev_realization_edges (fold index_field flds ri) = rev_realization_edges ri"
  by (induction flds arbitrary: ri)
    (auto simp: index_field_def composed_traces_def field_cell_def map_filter_simps
      split: CompiledFieldSource.splits)

lemma fold_links_edges:
  "rev_edges (fold (\<lambda>(rid, cell). add_realization rid (Value cell)) ls ri) = rev_edges ri"
  "rev_realization_edges (fold (\<lambda>(rid, cell). add_realization rid (Value cell)) ls ri)
     = rev_realization_edges ri \<union> (\<lambda>(r, c). (r, Value c)) ` set ls"
  by (induction ls arbitrary: ri) auto


text \<open>
  The traces inserted before the geometry links are appended, as one list in
  insertion order.
\<close>

definition node_traces :: "('v, 't) EvaluationGraph \<Rightarrow> ('v, 't) CompiledField list \<Rightarrow> (NodeId \<times> DependencyTrace) list" where
  "node_traces g flds =
     (let rbc = realization_by_cell g; mi = member_realization_index g in
      map (\<lambda>(_, node). (Value (vcn_id node), value_cell_trace rbc node)) (value_cells g)
      @ map (\<lambda>(_, cnode). (Constraint (cnd_id cnode), constraint_trace rbc cnode)) (constraints g)
      @ map (\<lambda>(_, rnode). (Realization (rnd_id rnode), realization_trace mi rnode)) (realizations g)
      @ map (\<lambda>(_, res). (Resolution (resd_id res), resolution_trace res)) (resolutions g)
      @ composed_traces flds)"

lemma fold_hm_insert_map:
  "fold (\<lambda>(k, x). hm_insert (f x) (h x)) xs m
     = fold (\<lambda>p. hm_insert (fst p) (snd p)) (map (\<lambda>(k, x). (f x, h x)) xs) m"
  by (induction xs arbitrary: m) auto

lemma fold_insert_field:
  "fold insert_field_trace flds m = fold (\<lambda>p. hm_insert (fst p) (snd p)) (composed_traces flds) m"
  by (induction flds arbitrary: m)
    (auto simp: insert_field_trace_def composed_traces_def field_cell_def map_filter_simps
      split: CompiledFieldSource.splits)

definition append_links ::
  "(RealizationNodeId \<times> ValueCellId) list \<Rightarrow> NodeId \<Rightarrow> DependencyTrace \<Rightarrow> DependencyTrace" where
  "append_links ls n t =
     t\<lparr>realization_reads := realization_reads t @ map fst (filter (\<lambda>(r, c). Value c = n) ls)\<rparr>"

lemma append_links_simps:
  "append_links [] n t = t"
  "append_links ((r, c) # ls) n t
     = (if Value c = n then append_links ls n (push_realization_read r t) else append_links ls n t)"
  by (simp_all add: append_links_def push_realization_read_def)

lemma hm_get_fold_links:
  "hm_get (fold (\<lambda>(rid, cell). hm_modify (Value cell) (push_realization_read rid)) ls m) n
     = map_option (append_links ls n) (hm_get m n)"
proof (induction ls arbitrary: m)
  case Nil
  then show ?case by (cases "hm_get m n") (simp_all add: append_links_simps)
next
  case (Cons l ls)
  then show ?case
    by (cases l; cases "hm_get m n") (auto simp: append_links_simps hm_simps)
qed

lemma build_trace_map_get:
  "hm_get (build_trace_map_and_fields g flds) n
     = map_option (append_links (geometry_cell_realization_links g) n) (map_of (rev (node_traces g flds)) n)"
proof -
  have "build_trace_map_and_fields g flds =
      fold (\<lambda>(rid, cell). hm_modify (Value cell) (push_realization_read rid))
        (geometry_cell_realization_links g)
        (fold (\<lambda>p. hm_insert (fst p) (snd p)) (node_traces g flds) [])"
    by (simp add: build_trace_map_and_fields_def node_traces_def fold_hm_insert_map
        fold_insert_field Let_def)
  then show ?thesis by (simp add: hm_get_fold_links hm.get_fold_ins option.case_eq_if)
qed

section \<open>Well-formed graphs\<close>

text \<open>
  Every node is stored under its own id, map keys are unique, geometry cells are
  cells of the graph, and the cells of composed fields are distinct and not
  value cells of a template.
\<close>

definition keyed_by :: "('n \<Rightarrow> 'k) \<Rightarrow> ('k, 'n) hash_map \<Rightarrow> bool" where
  "keyed_by key m \<longleftrightarrow> hm_wf m \<and> (\<forall>(k, n) \<in> set m. key n = k)"

definition wf_graph :: "('v, 't) EvaluationGraph \<Rightarrow> ('v, 't) CompiledField list \<Rightarrow> bool" where
  "wf_graph g flds \<longleftrightarrow>
     keyed_by vcn_id (value_cells g) \<and> keyed_by cnd_id (constraints g)
     \<and> keyed_by rnd_id (realizations g) \<and> keyed_by resd_id (resolutions g)
     \<and> keyed_by computation_id (compute_nodes g)
     \<and> (\<forall>(r, c) \<in> set (geometry_cell_realization_links g). hm_contains (value_cells g) c)
     \<and> distinct (map fst (composed_traces flds))
     \<and> (\<forall>c \<in> set (hm_keys (value_cells g)). Value c \<notin> fst ` set (composed_traces flds))"

lemma keyed_by_keys: "keyed_by key m \<Longrightarrow> map (\<lambda>(k, n). key n) m = map fst m"
  unfolding keyed_by_def by (intro map_cong) auto

lemma keyed_by_distinct: "keyed_by key m \<Longrightarrow> distinct (map (\<lambda>(k, n). key n) m)"
  by (simp add: keyed_by_keys) (simp add: keyed_by_def hm_wf_def)

lemma map_fst_tag:
  "map fst (map (\<lambda>(k, x). (C (key x), h x)) m) = map C (map (\<lambda>(k, x). key x) m)"
  by (induction m) auto

lemma tag_distinct:
  "keyed_by key m \<Longrightarrow> inj C \<Longrightarrow> distinct (map fst (map (\<lambda>(k, x). (C (key x), h x)) m))"
  unfolding map_fst_tag by (subst distinct_map) (blast intro: keyed_by_distinct inj_on_subset)

lemma tag_keys:
  assumes "keyed_by key m"
  shows "set (map fst (map (\<lambda>(k, x). (C (key x), h x)) m)) = C ` set (hm_keys m)"
  unfolding map_fst_tag keyed_by_keys [OF assms] by (simp add: hm_keys_def image_image)

lemma composed_traces_Value: "(n, t) \<in> set (composed_traces flds) \<Longrightarrow> \<exists>c. n = Value c"
  by (auto simp: composed_traces_def map_filter_def split: CompiledFieldSource.splits)

lemma inj_NodeId: "inj Value" "inj Constraint" "inj Realization" "inj Resolution" "inj Compute"
  by (auto intro: injI)

lemma node_traces_distinct:
  assumes "wf_graph g flds" shows "distinct (map fst (node_traces g flds))"
proof -
  have w: "keyed_by vcn_id (value_cells g)" "keyed_by cnd_id (constraints g)"
    "keyed_by rnd_id (realizations g)" "keyed_by resd_id (resolutions g)"
    "distinct (map fst (composed_traces flds))"
    "\<And>c. c \<in> set (hm_keys (value_cells g)) \<Longrightarrow> Value c \<notin> set (map fst (composed_traces flds))"
    using assms by (simp_all add: wf_graph_def)
  show ?thesis
    unfolding node_traces_def Let_def
    apply (simp only: map_append distinct_append set_append w tag_distinct inj_NodeId tag_keys)
    using w(6) by (auto dest: composed_traces_Value)
qed


section \<open>Forward and reverse sides agree\<close>

lemma dependents_iff: "n \<in> set (dependents_of ri c) \<longleftrightarrow> (c, n) \<in> rev_edges ri"
  by (simp add: rev_edges_def)

lemma realization_dependents_iff:
  "n \<in> set (realization_dependents_of ri r) \<longleftrightarrow> (r, n) \<in> rev_realization_edges ri"
  by (simp add: rev_realization_edges_def)

lemma append_links_reads:
  "reads (append_links ls n t) = reads t"
  "r \<in> set (realization_reads (append_links ls n t)) \<longleftrightarrow>
     r \<in> set (realization_reads t) \<or> (\<exists>c. (r, c) \<in> set ls \<and> n = Value c)"
  by (auto simp: append_links_def image_iff)

lemma build_rev_edges:
  "rev_edges (build_from_graph_and_fields g flds)
     = (\<Union>(n, t) \<in> set (node_traces g flds). set (reads t) \<times> {n})
       \<union> (\<Union>(k, cn) \<in> set (compute_nodes g). set (value_inputs cn) \<times> {Compute (computation_id cn)})"
  unfolding build_from_graph_and_fields_def Let_def fold_links_edges fold_index_field_edges
  apply (subst fold_edges [where edges = rev_edges], simp add: case_prod_beta dep_edges)+
  by (auto simp: node_traces_def Let_def case_prod_beta resolution_trace_def)

lemma composed_traces_no_realizations: "(n, t) \<in> set (composed_traces flds) \<Longrightarrow> realization_reads t = []"
  by (auto simp: composed_traces_def map_filter_def extract_dependency_trace_def
      split: CompiledFieldSource.splits)

lemma build_rev_realization_edges:
  "rev_realization_edges (build_from_graph_and_fields g flds)
     = (\<Union>(n, t) \<in> set (node_traces g flds). set (realization_reads t) \<times> {n})
       \<union> (\<Union>(k, cn) \<in> set (compute_nodes g). set (realization_inputs cn) \<times> {Compute (computation_id cn)})
       \<union> (\<lambda>(r, c). (r, Value c)) ` set (geometry_cell_realization_links g)"
proof -
  have none: "rev_realization_edges (fold (\<lambda>(_, res). index_resolution res) xs s) = rev_realization_edges s"
    for xs :: "(ResolutionNodeId \<times> ResolutionNodeData) list" and s
    by (induction xs arbitrary: s) (auto simp: dep_edges)
  have res: "realization_reads (resolution_trace r) = []" for r
    by (simp add: resolution_trace_def)
  have "rev_realization_edges (build_from_graph_and_fields g flds) =
      (\<Union>(k, n) \<in> set (value_cells g). set (realization_reads (value_cell_trace (realization_by_cell g) n)) \<times> {Value (vcn_id n)})
      \<union> (\<Union>(k, n) \<in> set (constraints g). set (realization_reads (constraint_trace (realization_by_cell g) n)) \<times> {Constraint (cnd_id n)})
      \<union> (\<Union>(k, n) \<in> set (realizations g). set (realization_reads (realization_trace (member_realization_index g) n)) \<times> {Realization (rnd_id n)})
      \<union> (\<Union>(k, cn) \<in> set (compute_nodes g). set (realization_inputs cn) \<times> {Compute (computation_id cn)})
      \<union> (\<lambda>(r, c). (r, Value c)) ` set (geometry_cell_realization_links g)"
    unfolding build_from_graph_and_fields_def Let_def fold_links_edges fold_index_field_edges
    apply (subst fold_edges [where edges = rev_realization_edges], simp add: case_prod_beta dep_edges)
    apply (subst none)
    apply (subst fold_edges [where edges = rev_realization_edges], simp add: case_prod_beta dep_edges)+
    by (simp add: case_prod_beta)
  then show ?thesis
    by (auto simp: node_traces_def Let_def case_prod_beta res composed_traces_no_realizations)
qed

text \<open>
  On a well-formed graph the reverse index is exactly the converse of the
  forward traces: a node is a dependent of a cell (of a realization) iff its
  trace reads that cell (that realization), or it is a compute node that lists
  it among its inputs.  Compute nodes have no forward trace, so their edges
  exist on the reverse side only.
\<close>

theorem reverse_index_inverts_traces:
  assumes "wf_graph g flds"
  shows "(n \<in> set (dependents_of (build_from_graph_and_fields g flds) c) \<longleftrightarrow>
      (\<exists>t. hm_get (build_trace_map_and_fields g flds) n = Some t \<and> c \<in> set (reads t))
      \<or> (\<exists>cn d. n = Compute cn \<and> hm_get (compute_nodes g) cn = Some d \<and> c \<in> set (value_inputs d)))
    \<and> (n \<in> set (realization_dependents_of (build_from_graph_and_fields g flds) r) \<longleftrightarrow>
      (\<exists>t. hm_get (build_trace_map_and_fields g flds) n = Some t \<and> r \<in> set (realization_reads t))
      \<or> (\<exists>cn d. n = Compute cn \<and> hm_get (compute_nodes g) cn = Some d \<and> r \<in> set (realization_inputs d)))"
proof -
  let ?ls = "geometry_cell_realization_links g"
  have "hm_get (build_trace_map_and_fields g flds) n = Some t \<longleftrightarrow>
      (\<exists>t'. (n, t') \<in> set (node_traces g flds) \<and> t = append_links ?ls n t')" for t
    using node_traces_distinct [OF assms]
    by (auto simp: build_trace_map_get map_of_eq_Some_iff rev_map [symmetric])
  then have tr: "(\<exists>t. hm_get (build_trace_map_and_fields g flds) n = Some t \<and> P t) \<longleftrightarrow>
      (\<exists>t. (n, t) \<in> set (node_traces g flds) \<and> P (append_links ?ls n t))" for P
    by auto
  have cn: "(\<exists>k d. (k, d) \<in> set (compute_nodes g) \<and> P d \<and> n = Compute (computation_id d)) \<longleftrightarrow>
      (\<exists>cn d. n = Compute cn \<and> hm_get (compute_nodes g) cn = Some d \<and> P d)" for P
  proof -
    have k: "keyed_by computation_id (compute_nodes g)" using assms by (simp add: wf_graph_def)
    then have "\<And>k d. hm_get (compute_nodes g) k = Some d \<longleftrightarrow> (k, d) \<in> set (compute_nodes g)"
      and "\<And>k d. (k, d) \<in> set (compute_nodes g) \<Longrightarrow> computation_id d = k"
      by (auto simp: keyed_by_def hm_get_eq_in)
    then show ?thesis by metis
  qed
  have lk: "\<exists>t'. (Value c, t') \<in> set (node_traces g flds)" if "(r, c) \<in> set ?ls" for r c
    using that assms by (fastforce simp: wf_graph_def keyed_by_def hm_contains_def node_traces_def Let_def hm_get_eq_in)
  have f1: "n \<in> set (dependents_of (build_from_graph_and_fields g flds) c) \<longleftrightarrow>
      (\<exists>t. (n, t) \<in> set (node_traces g flds) \<and> c \<in> set (reads t))
      \<or> (\<exists>k d. (k, d) \<in> set (compute_nodes g) \<and> c \<in> set (value_inputs d) \<and> n = Compute (computation_id d))"
    by (simp add: dependents_iff build_rev_edges) blast
  have f2: "n \<in> set (realization_dependents_of (build_from_graph_and_fields g flds) r) \<longleftrightarrow>
      (\<exists>t. (n, t) \<in> set (node_traces g flds) \<and> r \<in> set (realization_reads t))
      \<or> (\<exists>c. (r, c) \<in> set ?ls \<and> n = Value c)
      \<or> (\<exists>k d. (k, d) \<in> set (compute_nodes g) \<and> r \<in> set (realization_inputs d) \<and> n = Compute (computation_id d))"
    by (simp add: realization_dependents_iff build_rev_realization_edges image_iff Bex_def) blast
  have f3: "(\<exists>t. (n, t) \<in> set (node_traces g flds) \<and> r \<in> set (realization_reads (append_links ?ls n t)))
      \<longleftrightarrow> (\<exists>t. (n, t) \<in> set (node_traces g flds) \<and> r \<in> set (realization_reads t))
        \<or> (\<exists>c. (r, c) \<in> set ?ls \<and> n = Value c)"
    unfolding append_links_reads using lk by blast
  show ?thesis
    unfolding tr cn [symmetric] append_links_reads(1) f3 using f1 f2 by simp
qed


section \<open>Resolution of geometry references is unambiguous\<close>

lemma hm_get_fold_group:
  "hm_get (fold (\<lambda>x. hm_upsert (key x) [] (\<lambda>v. v @ [val x])) xs m) k =
     (if filter (\<lambda>x. key x = k) xs = [] then hm_get m k
      else Some ((case hm_get m k of None \<Rightarrow> [] | Some v \<Rightarrow> v) @ map val (filter (\<lambda>x. key x = k) xs)))"
  by (induction xs arbitrary: m) (auto simp: hm_simps split: option.splits)

lemma unique_candidate_found:
  "unique_candidate accept xs (Some r) = (if filter accept xs = [] then Some r else None)"
  by (induction xs) auto

lemma unique_candidate_iff: "unique_candidate accept xs None = Some r \<longleftrightarrow> filter accept xs = [r]"
  by (induction xs) (auto simp: unique_candidate_found)

text \<open>The realizations that back a cell, and those that export a member name.\<close>

definition backing :: "('v, 't) EvaluationGraph \<Rightarrow> ValueCellId \<Rightarrow> RealizationNodeId list" where
  "backing g c = map fst (filter (\<lambda>(r, c'). c' = c) (geometry_cell_realization_links g))"

definition exporting :: "('v, 't) EvaluationGraph \<Rightarrow> string \<Rightarrow> RealizationNodeId list" where
  "exporting g m = map fst (filter (\<lambda>(r, c). vc_member c = m) (geometry_cell_realization_links g))"

lemma geometry_cell_realization_reads_get:
  "hm_get (geometry_cell_realization_reads g) c = (if backing g c = [] then None else Some (backing g c))"
  unfolding geometry_cell_realization_reads_def backing_def
  using hm_get_fold_group [of snd fst "geometry_cell_realization_links g" "[]" c]
  by (simp add: case_prod_unfold)

lemma member_index_as_group:
  "fold (\<lambda>(_, rnode) m.
       (case geometry_cell rnode of
          Some cell \<Rightarrow> hm_upsert (vc_member cell) [] (\<lambda>v. v @ [rnd_id rnode]) m
        | None \<Rightarrow> m)) rs m0
   = fold (\<lambda>x. hm_upsert (vc_member (snd x)) [] (\<lambda>v. v @ [fst x]))
       (List.map_filter (\<lambda>(_, rnode). map_option (\<lambda>cell. (rnd_id rnode, cell)) (geometry_cell rnode)) rs) m0"
  by (induction rs arbitrary: m0) (auto simp: map_filter_simps split: option.splits)

lemma member_realization_index_get:
  "hm_get (member_realization_index g) m = (if exporting g m = [] then None else Some (exporting g m))"
  unfolding member_realization_index_def member_index_as_group exporting_def
    geometry_cell_realization_links_def [symmetric]
  using hm_get_fold_group [of "\<lambda>x. vc_member (snd x)" fst "geometry_cell_realization_links g" "[]" m]
  by (simp add: case_prod_unfold)

text \<open>
  C15.  A geometry operand resolves to a realization only when that realization is
  the sole candidate: a dotted name \<open>sub.member\<close> to the only realization of
  another entity exporting \<open>member\<close>, a bare name to the only realization of the
  consuming entity exporting it.
\<close>

theorem resolve_geom_sub_edge_unique:
  "resolve_geom_sub_edge name entity (member_realization_index g) = Some r \<longleftrightarrow>
     (case split_once CHR ''.'' name of
        Some (_, member) \<Rightarrow> filter (\<lambda>rid. rn_entity rid \<noteq> entity) (exporting g member) = [r]
      | None \<Rightarrow> filter (\<lambda>rid. rn_entity rid = entity) (exporting g name) = [r])"
proof (cases "split_once CHR ''.'' name")
  case None
  then have "CHR ''.'' \<notin> set name" by simp
  with None show ?thesis
    by (auto simp: resolve_geom_sub_edge_def resolve_sibling_ref_def member_realization_index_get
        unique_candidate_iff simp del: split_once_None)
next
  case (Some p)
  then have "split_once CHR ''.'' name \<noteq> None" by simp
  then have "CHR ''.'' \<in> set name" unfolding split_once_None by simp
  with Some show ?thesis
    by (cases p) (auto simp: resolve_geom_sub_edge_def resolve_sub_ref_def member_realization_index_get
        unique_candidate_iff)
qed

text \<open>The two passes of \<open>realization_by_cell\<close>: one slot per cell, emptied by a second link.\<close>

definition slot_of :: "RealizationNodeId list \<Rightarrow> RealizationNodeId option option" where
  "slot_of rs = (case rs of [] \<Rightarrow> None | [r] \<Rightarrow> Some (Some r) | _ \<Rightarrow> Some None)"

definition claim_cell :: "RealizationNodeId \<times> ValueCellId \<Rightarrow>
  (ValueCellId, RealizationNodeId option) hash_map \<Rightarrow> (ValueCellId, RealizationNodeId option) hash_map" where
  "claim_cell = (\<lambda>(rid, cell) m.
     (case hm_get m cell of Some _ \<Rightarrow> hm_insert cell None m | None \<Rightarrow> hm_insert cell (Some rid) m))"

lemma hm_get_fold_claim:
  "hm_get (fold claim_cell ls m) c = (case hm_get m c of
       None \<Rightarrow> slot_of (map fst (filter (\<lambda>(r, c'). c' = c) ls))
     | Some s \<Rightarrow> if filter (\<lambda>(r, c'). c' = c) ls = [] then Some s else Some None)"
proof (induction ls arbitrary: m)
  case (Cons l ls)
  then show ?case
    by (cases l; cases "filter (\<lambda>(r, c'). c' = c) ls")
      (auto simp: claim_cell_def slot_of_def hm_simps split: option.splits)
qed (auto simp: slot_of_def split: option.splits)

lemma hm_wf_claim: "hm_wf m \<Longrightarrow> hm_wf (claim_cell l m)"
  by (auto simp: claim_cell_def case_prod_unfold intro: hm_inv split: option.splits)

lemma hm_wf_fold_claim: "hm_wf m \<Longrightarrow> hm_wf (fold claim_cell ls m)"
  by (induction ls arbitrary: m) (simp_all add: hm_wf_claim)

lemma hm_get_flatten:
  "hm_wf m \<Longrightarrow> hm_get (List.map_filter (\<lambda>(cell, rid). map_option (\<lambda>r. (cell, r)) rid) m) c
     = (case hm_get m c of Some (Some r) \<Rightarrow> Some r | _ \<Rightarrow> None)"
proof (induction m)
  case (Cons p m)
  then have "hm_wf m" "fst p \<notin> fst ` set m" by (auto simp: hm_wf_def)
  moreover from this(2) have "hm_get m (fst p) = None"
    by (simp add: hm_get_def map_of_eq_None_iff)
  ultimately show ?case using Cons.IH
    by (cases p) (auto simp: map_filter_simps hm_get_Cons split: option.splits)
qed (simp add: map_filter_simps)

text \<open>
  A cell is resolved to a backing realization exactly when it has one link;
  a cell with several (a geometry list) is dropped, never resolved to one of its
  elements, whereas the accumulating view keeps all of them.
\<close>

theorem realization_by_cell_unique:
  "(hm_get (realization_by_cell g) c = Some r \<longleftrightarrow> backing g c = [r])
   \<and> hm_get (geometry_cell_realization_reads g) c
       = (if backing g c = [] then None else Some (backing g c))"
proof -
  have "hm_get (realization_by_cell g) c
      = (case slot_of (backing g c) of Some (Some r) \<Rightarrow> Some r | _ \<Rightarrow> None)"
    unfolding realization_by_cell_def Let_def backing_def claim_cell_def [symmetric]
    by (simp add: hm_get_flatten hm_wf_fold_claim hm_get_fold_claim)
  then show ?thesis
    by (auto simp: slot_of_def geometry_cell_realization_reads_get split: list.splits)
qed

text \<open>A graph with a parameter, a let that reads it, a body realized from both and a query on it.\<close>

definition demo_cell :: "string \<Rightarrow> ValueCellId" where
  "demo_cell m = ValueCellId ''A'' m"

definition demo_ref :: "string \<Rightarrow> (unit, unit) CompiledExpr" where
  "demo_ref m = CompiledExpr (ValueRef (demo_cell m)) () 0"

definition demo_node :: "string \<Rightarrow> (unit, unit) CompiledExpr option \<Rightarrow> ValueCellId \<times> (unit, unit) ValueCellNode" where
  "demo_node m e = (demo_cell m, \<lparr>vcn_id = demo_cell m, vcn_kind = (if e = None then Param else Let),
      cell_type = (), default_expr = e\<rparr>)"

definition demo_graph :: "(unit, unit) EvaluationGraph" where
  "demo_graph = \<lparr>
     value_cells = [demo_node ''w'' None, demo_node ''h'' (Some (demo_ref ''w'')), demo_node ''body'' None,
       demo_node ''mass'' (Some (demo_ref ''fea''))],
     constraints = [(ConstraintNodeId ''A'' 0, \<lparr>cnd_id = ConstraintNodeId ''A'' 0,
        cnd_expr = CompiledExpr (FunctionCall (ResolvedFunction ''volume'' ''volume'') [demo_ref ''body'']) () 0\<rparr>)],
     realizations = [(RealizationNodeId ''A'' 0, \<lparr>rnd_id = RealizationNodeId ''A'' 0,
        operations = [Primitive ''box'' [(''width'', demo_ref ''w''), (''height'', demo_ref ''h'')]],
        geometry_cell = Some (demo_cell ''body'')\<rparr>)],
     resolutions = [],
     compute_nodes = [(ComputeNodeId ''A'' 0, \<lparr>computation_id = ComputeNodeId ''A'' 0, cn_target = ''fea'',
        value_inputs = [demo_cell ''h''], realization_inputs = [RealizationNodeId ''A'' 0],
        output_value_cells = [demo_cell ''fea'']\<rparr>)]\<rparr>"

lemma demo_graph_wf: "wf_graph demo_graph []"
  by code_simp

theorem reverse_index_inverts_traces_witness:
  "wf_graph demo_graph []
   \<and> Constraint (ConstraintNodeId ''A'' 0)
       \<in> set (realization_dependents_of (build_from_graph_and_fields demo_graph []) (RealizationNodeId ''A'' 0))"
proof -
  have "hm_get (build_trace_map_and_fields demo_graph []) (Constraint (ConstraintNodeId ''A'' 0))
      = Some \<lparr>reads = [demo_cell ''body''], realization_reads = [RealizationNodeId ''A'' 0]\<rparr>"
    by code_simp
  then show ?thesis
    using demo_graph_wf
      reverse_index_inverts_traces [OF demo_graph_wf, of "Constraint (ConstraintNodeId ''A'' 0)"
        "demo_cell ''w''" "RealizationNodeId ''A'' 0"]
    by simp
qed

end
