(* ===== verification/Worklist.thy ===== *)
theory Worklist
  imports Prelude
begin

text \<open>
  Worklist search, as the incremental engine uses it in four places: the two
  dirty cones, the demand cone and priority promotion.  The loops differ in when
  they mark a node (on discovery or on removal from the queue) and in how they
  split their queues, and all compute a closure of an edge relation.  The locale
  states the loop invariants over that relation once; each loop instantiates it
  with its own edges.
\<close>

section \<open>Closure of an edge relation\<close>

lemma trancl_Image_step:
  "E\<^sup>+ `` R = E `` R \<union> E `` (E\<^sup>+ `` R)"
  by (auto elim: tranclE intro: trancl_into_trancl)

lemma trancl_Image_least:
  assumes "E `` R \<subseteq> D" and "E `` D \<subseteq> D"
  shows "E\<^sup>+ `` R \<subseteq> D"
proof
  fix y assume "y \<in> E\<^sup>+ `` R"
  then obtain x where "x \<in> R" "(x, y) \<in> E\<^sup>+" by blast
  from this(2,1) show "y \<in> D"
    by (induction rule: trancl_induct) (use assms in auto)
qed

lemma rtrancl_Image_least:
  assumes "R \<subseteq> D" and "E `` D \<subseteq> D"
  shows "E\<^sup>* `` R \<subseteq> D"
  using Image_closed_trancl [OF assms(2)] assms(1) by (metis Image_mono order_refl)

section \<open>Loop invariants\<close>

locale graph_search =
  fixes E :: "('n \<times> 'n) set" and R :: "'n set"
begin

text \<open>
  Marking on discovery: \<open>D\<close> is what has been found, \<open>F\<close> what is still to be
  expanded, and every other root or found node has all its successors found.
\<close>

definition found_inv :: "'n set \<Rightarrow> 'n set \<Rightarrow> bool" where
  "found_inv D F \<longleftrightarrow> D \<subseteq> E\<^sup>+ `` R \<and> F \<subseteq> R \<union> D \<and> (\<forall>x \<in> (R \<union> D) - F. E `` {x} \<subseteq> D)"

lemma found_init: "found_inv {} R"
  by (simp add: found_inv_def)

lemma found_done: "found_inv D {} \<Longrightarrow> D = E\<^sup>+ `` R"
  unfolding found_inv_def by (intro equalityI trancl_Image_least) auto

lemma found_succ: "found_inv D F \<Longrightarrow> x \<in> R \<union> D \<Longrightarrow> E `` {x} \<subseteq> E\<^sup>+ `` R"
  unfolding found_inv_def by (blast intro: trancl_into_trancl)

text \<open>One successor of an expanded node is recorded, and queued if it is new.\<close>

lemma found_add:
  assumes "found_inv D F" and "x \<in> R \<union> D" and "(x, y) \<in> E"
  shows "found_inv (insert y D) (insert y F)"
  using assms found_succ [OF assms(1,2)] unfolding found_inv_def by auto

lemma found_known: "found_inv D F \<Longrightarrow> y \<in> D \<Longrightarrow> found_inv (insert y D) F"
  by (simp add: insert_absorb)

text \<open>A node leaves the queue once its successors are all found.\<close>

lemma found_drop: "found_inv D F \<Longrightarrow> E `` {x} \<subseteq> D \<Longrightarrow> found_inv D (F - {x})"
  unfolding found_inv_def by auto

lemma found_requeue: "found_inv D F \<Longrightarrow> x \<in> R \<union> D \<Longrightarrow> found_inv D (insert x F)"
  unfolding found_inv_def by auto

text \<open>
  Marking on removal: \<open>V\<close> is what has left the queue \<open>Q\<close>.  Every visited node
  has its successors visited or queued.
\<close>

definition visit_inv :: "'n set \<Rightarrow> 'n set \<Rightarrow> bool" where
  "visit_inv V Q \<longleftrightarrow> R \<subseteq> V \<union> Q \<and> V \<union> Q \<subseteq> E\<^sup>* `` R \<and> E `` V \<subseteq> V \<union> Q"

lemma visit_init: "visit_inv {} R"
  by (auto simp: visit_inv_def)

lemma visit_done: "visit_inv V {} \<Longrightarrow> V = E\<^sup>* `` R"
  unfolding visit_inv_def by (intro equalityI rtrancl_Image_least) auto

lemma visit_skip: "visit_inv V Q \<Longrightarrow> x \<in> V \<Longrightarrow> visit_inv V (Q - {x})"
  unfolding visit_inv_def by auto

lemma visit_expand:
  assumes "visit_inv V Q" and "x \<in> Q" and "N \<subseteq> E `` {x}" and "E `` {x} \<subseteq> N \<union> insert x V"
    and "Q - {x} \<union> N \<subseteq> Q'" and "Q' \<subseteq> Q \<union> N"
  shows "visit_inv (insert x V) Q'"
proof -
  have "N \<subseteq> E\<^sup>* `` R"
    using assms(1-3) unfolding visit_inv_def by (blast intro: rtrancl_into_rtrancl)
  with assms show ?thesis unfolding visit_inv_def by auto
qed

end

section \<open>Counting argument for termination\<close>

text \<open>
  Every loop queues a node at most once per newly marked node, so the number of
  unmarked candidates plus the length of the queue never grows inside a step and
  drops when an entry is taken off.
\<close>

definition potential :: "'n set \<Rightarrow> 'n list \<Rightarrow> nat \<Rightarrow> nat" where
  "potential T marked queued = card (T - set marked) + queued"

lemma potential_mark:
  assumes "finite T" "x \<in> T" "x \<notin> set marked"
  shows "potential T (hs_insert x marked) (Suc q) = potential T marked q"
proof -
  have "card (T - set marked) = Suc (card (T - set marked - {x}))"
    using assms by (intro card.remove) auto
  moreover have "T - insert x (set marked) = T - set marked - {x}" by auto
  ultimately show ?thesis by (simp add: potential_def)
qed

lemma potential_mark_le:
  assumes "finite T" "x \<in> T" "x \<notin> set marked" "q' \<le> Suc q"
  shows "potential T (hs_insert x marked) q' \<le> potential T marked q"
  using potential_mark [OF assms(1-3), of q] assms(4) by (simp add: potential_def)

end
