(* ===== verification/DirtyCone.thy ===== *)
theory DirtyCone
  imports Deps Worklist
begin

text \<open>
  The dirty cone: everything that transitively depends on a changed cell or a
  changed realization (\<open>reify-eval/src/dirty.rs\<close>).  The breadth-first loops
  are modelled with their queues; the theorems say which set they return.
\<close>

section \<open>Cone of changed cells\<close>

fun push_output :: "ValueCellId \<Rightarrow> NodeId hash_set \<times> ValueCellId list \<Rightarrow> NodeId hash_set \<times> ValueCellId list" where
  "push_output vc (dirty, frontier) =
     (if Value vc \<in> set dirty then (dirty, frontier) else (hs_insert (Value vc) dirty, frontier @ [vc]))"

definition compute_outputs :: "('v, 't) EvaluationGraph \<Rightarrow> ComputeNodeId \<Rightarrow> ValueCellId list" where
  "compute_outputs graph cn_id =
     (case hm_get (compute_nodes graph) cn_id of None \<Rightarrow> [] | Some cn_data \<Rightarrow> output_value_cells cn_data)"

text \<open>The body of the inner loop, for one dependent of the cell being expanded.\<close>

fun visit_dependent ::
  "('v, 't) EvaluationGraph \<Rightarrow> NodeId \<Rightarrow> NodeId hash_set \<times> ValueCellId list \<Rightarrow>
   NodeId hash_set \<times> ValueCellId list" where
  "visit_dependent graph dependent (dirty, frontier) =
     (if dependent \<in> set dirty then (dirty, frontier)
      else (let dirty = hs_insert dependent dirty in
        case dependent of
          Value vcid \<Rightarrow> (dirty, frontier @ [vcid])
        | Compute cn_id \<Rightarrow> fold push_output (compute_outputs graph cn_id) (dirty, frontier)
        | _ \<Rightarrow> (dirty, frontier)))"

text \<open>Every node a loop can ever mark: the dependents in the index and the compute outputs.\<close>

definition cone_targets :: "ReverseDependencyIndex \<Rightarrow> ('v, 't) EvaluationGraph \<Rightarrow> NodeId set" where
  "cone_targets ri graph =
     (\<Union>(c, s) \<in> set (rdi_index ri). set s) \<union> (\<Union>(r, s) \<in> set (rdi_realization_index ri). set s)
     \<union> (\<Union>(k, cn) \<in> set (compute_nodes graph). Value ` set (output_value_cells cn))"

lemma finite_cone_targets [simp]: "finite (cone_targets ri graph)"
  by (auto simp: cone_targets_def)

lemma dependents_targets: "set (dependents_of ri c) \<subseteq> cone_targets ri graph"
  unfolding cone_targets_def dependents_of_def
  by (cases "hm_get (rdi_index ri) c") (fastforce dest: hm_get_in)+

lemma realization_dependents_targets: "set (realization_dependents_of ri r) \<subseteq> cone_targets ri graph"
  unfolding cone_targets_def realization_dependents_of_def
  by (cases "hm_get (rdi_realization_index ri) r") (fastforce dest: hm_get_in)+

lemma outputs_targets: "Value ` set (compute_outputs graph cn) \<subseteq> cone_targets ri graph"
  unfolding cone_targets_def compute_outputs_def
  by (cases "hm_get (compute_nodes graph) cn") (fastforce dest: hm_get_in)+

definition cell_potential :: "NodeId set \<Rightarrow> NodeId hash_set \<times> ValueCellId list \<Rightarrow> nat" where
  "cell_potential T s = potential T (fst s) (length (snd s))"

lemma push_output_potential:
  "finite T \<Longrightarrow> Value vc \<in> T \<Longrightarrow> cell_potential T (push_output vc s) \<le> cell_potential T s"
  by (cases s) (auto simp: cell_potential_def intro: potential_mark_le)

lemma fold_potential:
  assumes "\<And>x s. x \<in> set xs \<Longrightarrow> pot (f x s) \<le> (pot s :: nat)"
  shows "pot (fold f xs s) \<le> pot s"
  using assms
proof (induction xs arbitrary: s)
  case (Cons x xs)
  have "pot (fold f xs (f x s)) \<le> pot (f x s)" using Cons by simp
  also have "\<dots> \<le> pot s" using Cons.prems by simp
  finally show ?case by simp
qed simp

lemma visit_dependent_potential:
  assumes "dep \<in> cone_targets ri g"
  shows "cell_potential (cone_targets ri g) (visit_dependent g dep s) \<le> cell_potential (cone_targets ri g) s"
proof (cases s)
  case (Pair d f)
  let ?T = "cone_targets ri g"
  have o: "cell_potential ?T (fold push_output (compute_outputs g cn) (hs_insert dep d, f))
      \<le> cell_potential ?T (hs_insert dep d, f)" for cn
    using outputs_targets [of g cn ri] by (intro fold_potential push_output_potential) auto
  have i: "cell_potential ?T (hs_insert dep d, f) \<le> cell_potential ?T (d, f)" if "dep \<notin> set d"
    using assms that by (auto simp: cell_potential_def intro: potential_mark_le)
  have "cell_potential ?T (hs_insert dep d, f @ [v]) \<le> cell_potential ?T (d, f)" if "dep \<notin> set d" for v
    using assms that by (auto simp: cell_potential_def intro: potential_mark_le)
  with i order_trans [OF o i] show ?thesis
    unfolding Pair by (cases dep) (simp_all add: Let_def)
qed

function dirty_loop ::
  "ReverseDependencyIndex \<Rightarrow> ('v, 't) EvaluationGraph \<Rightarrow> NodeId hash_set \<Rightarrow> ValueCellId list \<Rightarrow> NodeId hash_set" where
  "dirty_loop ri graph dirty [] = dirty"
| "dirty_loop ri graph dirty (cell # frontier) =
     (let s = fold (visit_dependent graph) (dependents_of ri cell) (dirty, frontier)
      in dirty_loop ri graph (fst s) (snd s))"
  by pat_completeness auto
termination
proof (relation "measure (\<lambda>(ri, g, d, f). cell_potential (cone_targets ri g) (d, f))", goal_cases)
  case (2 ri g d cell f s)
  have "cell_potential (cone_targets ri g) s \<le> cell_potential (cone_targets ri g) (d, f)"
    unfolding 2
    by (rule fold_potential, rule visit_dependent_potential) (use dependents_targets in blast)
  then show ?case by (simp add: cell_potential_def potential_def case_prod_beta)
qed simp

definition compute_dirty_cone ::
  "ValueCellId hash_set \<Rightarrow> ReverseDependencyIndex \<Rightarrow> ('v, 't) EvaluationGraph \<Rightarrow> NodeId hash_set" where
  "compute_dirty_cone changed ri graph = dirty_loop ri graph [] changed"

section \<open>Cone of changed cells and realizations\<close>

record cone_state =
  cs_dirty :: "NodeId hash_set"
  cs_frontier :: "ValueCellId list"
  cs_rfrontier :: "RealizationNodeId list"
  cs_seen :: "RealizationNodeId hash_set"

definition push_output_r :: "ValueCellId \<Rightarrow> cone_state \<Rightarrow> cone_state" where
  "push_output_r vc s =
     (if Value vc \<in> set (cs_dirty s) then s
      else s\<lparr>cs_dirty := hs_insert (Value vc) (cs_dirty s), cs_frontier := cs_frontier s @ [vc]\<rparr>)"

definition reseed :: "RealizationNodeId \<Rightarrow> cone_state \<Rightarrow> cone_state" where
  "reseed rid2 s =
     (if rid2 \<in> set (cs_seen s) then s
      else s\<lparr>cs_seen := hs_insert rid2 (cs_seen s), cs_rfrontier := cs_rfrontier s @ [rid2]\<rparr>)"

text \<open>The match of the realization-keyed loop and the conditionals of the cell-keyed loop.\<close>

definition visit_realization_dependent ::
  "('v, 't) EvaluationGraph \<Rightarrow> NodeId \<Rightarrow> cone_state \<Rightarrow> cone_state" where
  "visit_realization_dependent graph dependent s =
     (if dependent \<in> set (cs_dirty s) then s
      else (let s = s\<lparr>cs_dirty := hs_insert dependent (cs_dirty s)\<rparr> in
        case dependent of
          Compute cn_id \<Rightarrow> fold push_output_r (compute_outputs graph cn_id) s
        | Realization rid2 \<Rightarrow> reseed rid2 s
        | Value vcid \<Rightarrow> s\<lparr>cs_frontier := cs_frontier s @ [vcid]\<rparr>
        | Constraint _ \<Rightarrow> s
        | Resolution _ \<Rightarrow> s))"

definition visit_cell_dependent ::
  "('v, 't) EvaluationGraph \<Rightarrow> NodeId \<Rightarrow> cone_state \<Rightarrow> cone_state" where
  "visit_cell_dependent graph dependent s =
     (if dependent \<in> set (cs_dirty s) then s
      else (let s0 = s\<lparr>cs_dirty := hs_insert dependent (cs_dirty s)\<rparr>;
                s1 = (case dependent of Value vcid \<Rightarrow> s0\<lparr>cs_frontier := cs_frontier s0 @ [vcid]\<rparr> | _ \<Rightarrow> s0);
                s2 = (case dependent of
                        Compute cn_id \<Rightarrow> fold push_output_r (compute_outputs graph cn_id) s1 | _ \<Rightarrow> s1)
            in (case dependent of Realization rid2 \<Rightarrow> reseed rid2 s2 | _ \<Rightarrow> s2)))"

lemma visit_cell_dependent_eq: "visit_cell_dependent = visit_realization_dependent"
  by (intro ext) (auto simp: visit_cell_dependent_def visit_realization_dependent_def Let_def split: NodeId.splits)

definition cone_potential :: "NodeId set \<Rightarrow> cone_state \<Rightarrow> nat" where
  "cone_potential T s = potential T (cs_dirty s) (length (cs_frontier s) + length (cs_rfrontier s))"

lemma push_output_r_potential:
  "finite T \<Longrightarrow> Value vc \<in> T \<Longrightarrow> cone_potential T (push_output_r vc s) \<le> cone_potential T s"
  by (auto simp: cone_potential_def push_output_r_def intro: potential_mark_le)

lemma visit_realization_dependent_potential:
  assumes "dep \<in> cone_targets ri g"
  shows "cone_potential (cone_targets ri g) (visit_realization_dependent g dep s)
     \<le> cone_potential (cone_targets ri g) s"
proof -
  let ?T = "cone_targets ri g" and ?s = "s\<lparr>cs_dirty := hs_insert dep (cs_dirty s)\<rparr>"
  have o: "cone_potential ?T (fold push_output_r (compute_outputs g cn) ?s) \<le> cone_potential ?T ?s" for cn
    using outputs_targets [of g cn ri] by (intro fold_potential push_output_r_potential) auto
  have i: "cone_potential ?T ?s \<le> cone_potential ?T s" if "dep \<notin> set (cs_dirty s)"
    using assms that by (auto simp: cone_potential_def intro: potential_mark_le)
  have "cone_potential ?T (?s\<lparr>cs_frontier := cs_frontier ?s @ [v]\<rparr>) \<le> cone_potential ?T s"
    and "cone_potential ?T (reseed r ?s) \<le> cone_potential ?T s" if "dep \<notin> set (cs_dirty s)" for v r
    using assms that by (auto simp: cone_potential_def reseed_def intro: potential_mark_le)
  with i order_trans [OF o i] show ?thesis
    unfolding visit_realization_dependent_def Let_def by (cases dep) simp_all
qed

lemmas visit_potential = visit_realization_dependent_potential
  visit_realization_dependent_potential [folded visit_cell_dependent_eq]

function drain_realizations ::
  "ReverseDependencyIndex \<Rightarrow> ('v, 't) EvaluationGraph \<Rightarrow> cone_state \<Rightarrow> cone_state" where
  "drain_realizations ri graph s =
     (case cs_rfrontier s of
        [] \<Rightarrow> s
      | rid # rest \<Rightarrow>
          drain_realizations ri graph
            (fold (visit_realization_dependent graph) (realization_dependents_of ri rid)
              (s\<lparr>cs_rfrontier := rest\<rparr>)))"
  by pat_completeness auto
termination
proof (relation "measure (\<lambda>(ri, g, s). cone_potential (cone_targets ri g) s)", goal_cases)
  case (2 ri g s rid rest)
  have "cone_potential (cone_targets ri g) (fold (visit_realization_dependent g)
      (realization_dependents_of ri rid) (s\<lparr>cs_rfrontier := rest\<rparr>))
      \<le> cone_potential (cone_targets ri g) (s\<lparr>cs_rfrontier := rest\<rparr>)"
    by (rule fold_potential, rule visit_potential) (use realization_dependents_targets in blast)
  with 2 show ?case by (simp add: cone_potential_def potential_def)
qed simp

function drain_cells ::
  "ReverseDependencyIndex \<Rightarrow> ('v, 't) EvaluationGraph \<Rightarrow> cone_state \<Rightarrow> cone_state" where
  "drain_cells ri graph s =
     (case cs_frontier s of
        [] \<Rightarrow> s
      | cell # rest \<Rightarrow>
          drain_cells ri graph
            (fold (visit_cell_dependent graph) (dependents_of ri cell) (s\<lparr>cs_frontier := rest\<rparr>)))"
  by pat_completeness auto
termination
proof (relation "measure (\<lambda>(ri, g, s). cone_potential (cone_targets ri g) s)", goal_cases)
  case (2 ri g s cell rest)
  have "cone_potential (cone_targets ri g) (fold (visit_cell_dependent g)
      (dependents_of ri cell) (s\<lparr>cs_frontier := rest\<rparr>))
      \<le> cone_potential (cone_targets ri g) (s\<lparr>cs_frontier := rest\<rparr>)"
    by (rule fold_potential, rule visit_potential) (use dependents_targets in blast)
  with 2 show ?case by (simp add: cone_potential_def potential_def)
qed simp

declare drain_realizations.simps [simp del] drain_cells.simps [simp del]


lemma drain_realizations_potential:
  "cone_potential (cone_targets ri g) (drain_realizations ri g s) \<le> cone_potential (cone_targets ri g) s
   \<and> (cs_rfrontier s \<noteq> [] \<longrightarrow>
       cone_potential (cone_targets ri g) (drain_realizations ri g s) < cone_potential (cone_targets ri g) s)"
proof (induction ri g s rule: drain_realizations.induct)
  case (1 ri g s)
  show ?case
  proof (cases "cs_rfrontier s")
    case Nil
    then show ?thesis by (simp add: drain_realizations.simps [of ri g s])
  next
    case (Cons rid rest)
    let ?p = "cone_potential (cone_targets ri g)" and ?s = "s\<lparr>cs_rfrontier := rest\<rparr>"
    have "?p (fold (visit_realization_dependent g) (realization_dependents_of ri rid) ?s) \<le> ?p ?s"
      by (rule fold_potential, rule visit_potential) (use realization_dependents_targets in blast)
    moreover have "?p ?s < ?p s" using Cons by (simp add: cone_potential_def potential_def)
    ultimately show ?thesis using 1 [OF Cons] Cons by (simp add: drain_realizations.simps [of ri g s])
  qed
qed

lemma drain_cells_potential:
  "cone_potential (cone_targets ri g) (drain_cells ri g s) \<le> cone_potential (cone_targets ri g) s
   \<and> (cs_frontier s \<noteq> [] \<longrightarrow>
       cone_potential (cone_targets ri g) (drain_cells ri g s) < cone_potential (cone_targets ri g) s)"
proof (induction ri g s rule: drain_cells.induct)
  case (1 ri g s)
  show ?case
  proof (cases "cs_frontier s")
    case Nil
    then show ?thesis by (simp add: drain_cells.simps [of ri g s])
  next
    case (Cons c rest)
    let ?p = "cone_potential (cone_targets ri g)" and ?s = "s\<lparr>cs_frontier := rest\<rparr>"
    have "?p (fold (visit_cell_dependent g) (dependents_of ri c) ?s) \<le> ?p ?s"
      by (rule fold_potential, rule visit_potential) (use dependents_targets in blast)
    moreover have "?p ?s < ?p s" using Cons by (simp add: cone_potential_def potential_def)
    ultimately show ?thesis using 1 [OF Cons] Cons by (simp add: drain_cells.simps [of ri g s])
  qed
qed

function cone_fixpoint ::
  "ReverseDependencyIndex \<Rightarrow> ('v, 't) EvaluationGraph \<Rightarrow> cone_state \<Rightarrow> cone_state" where
  "cone_fixpoint ri graph s =
     (if cs_rfrontier s = [] \<and> cs_frontier s = [] then s
      else cone_fixpoint ri graph (drain_cells ri graph (drain_realizations ri graph s)))"
  by pat_completeness auto
termination
proof (relation "measure (\<lambda>(ri, g, s). cone_potential (cone_targets ri g) s)", goal_cases)
  case (2 ri g s)
  show ?case
  proof (cases "cs_rfrontier s = []")
    case True
    then have "drain_realizations ri g s = s" by (simp add: drain_realizations.simps [of ri g s])
    with 2 True show ?thesis using drain_cells_potential [of ri g s] by simp
  next
    case False
    then show ?thesis
      using drain_realizations_potential [of ri g s] drain_cells_potential [of ri g "drain_realizations ri g s"]
      by auto
  qed
qed simp

declare cone_fixpoint.simps [simp del]

definition compute_dirty_cone_with_realizations ::
  "ValueCellId hash_set \<Rightarrow> RealizationNodeId hash_set \<Rightarrow> ReverseDependencyIndex \<Rightarrow>
   ('v, 't) EvaluationGraph \<Rightarrow> NodeId hash_set" where
  "compute_dirty_cone_with_realizations changed_vcs changed_realizations ri graph =
     cs_dirty (cone_fixpoint ri graph
       \<lparr>cs_dirty = [], cs_frontier = changed_vcs, cs_rfrontier = changed_realizations,
        cs_seen = changed_realizations\<rparr>)"

section \<open>The edges the cones follow\<close>

definition cone_edges :: "ReverseDependencyIndex \<Rightarrow> ('v, 't) EvaluationGraph \<Rightarrow> (NodeId \<times> NodeId) set" where
  "cone_edges ri g = {(Value c, n) | c n. n \<in> set (dependents_of ri c)}
     \<union> {(Compute cn, Value v) | cn v. v \<in> set (compute_outputs g cn)}"

definition realization_cone_edges ::
  "ReverseDependencyIndex \<Rightarrow> ('v, 't) EvaluationGraph \<Rightarrow> (NodeId \<times> NodeId) set" where
  "realization_cone_edges ri g = cone_edges ri g
     \<union> {(Realization r, n) | r n. n \<in> set (realization_dependents_of ri r)}"

interpretation cone: graph_search "cone_edges ri g" "Value ` set changed"
  for ri g changed
  by unfold_locales

lemma cone_edges_Image:
  "cone_edges ri g `` {Value c} = set (dependents_of ri c)"
  "cone_edges ri g `` {Compute cn} = Value ` set (compute_outputs g cn)"
  "cone_edges ri g `` {Constraint x} = {}"
  "cone_edges ri g `` {Realization y} = {}"
  "cone_edges ri g `` {Resolution z} = {}"
  by (auto simp: cone_edges_def)

context graph_search
begin

text \<open>A queued node whose successors are all found may stay on or leave the queue.\<close>

lemma found_drop_to:
  assumes "found_inv D F" and "E `` {x} \<subseteq> D" and "F - {x} \<subseteq> F'" and "F' \<subseteq> F"
  shows "found_inv D F'"
proof (cases "x \<in> F'")
  case True
  then have "F' = F" using assms by auto
  with assms show ?thesis by simp
next
  case False
  then have "F' = F - {x}" using assms by auto
  with assms found_drop show ?thesis by blast
qed

text \<open>Recording a successor that is a root adds nothing to the queue.\<close>

lemma found_add_root:
  assumes "found_inv D F" and "x \<in> R \<union> D" and "(x, y) \<in> E" and "y \<in> R"
  shows "found_inv (insert y D) F"
  using assms found_succ [OF assms(1,2)] unfolding found_inv_def by auto

end

abbreviation cone_inv where
  "cone_inv ri g changed \<equiv> graph_search.found_inv (cone_edges ri g) (Value ` set changed)"

lemma push_output_found:
  assumes "cone_inv ri g changed (set d) (X \<union> Value ` set f)" and "Compute cn \<in> set d"
    and "v \<in> set (compute_outputs g cn)" and "push_output v (d, f) = (d', f')"
  shows "cone_inv ri g changed (set d') (X \<union> Value ` set f') \<and> set d' = insert (Value v) (set d)"
proof (cases "Value v \<in> set d")
  case False
  have "(Compute cn, Value v) \<in> cone_edges ri g" using assms(3) by (auto simp: cone_edges_def)
  with cone.found_add [OF assms(1) _ this] assms(2,4) False show ?thesis by auto
qed (use assms in auto)

lemma fold_push_output_found:
  assumes "cone_inv ri g changed (set d) (X \<union> Value ` set f)" and "Compute cn \<in> set d"
    and "set vs \<subseteq> set (compute_outputs g cn)" and "fold push_output vs (d, f) = (d', f')"
  shows "cone_inv ri g changed (set d') (X \<union> Value ` set f') \<and> set d' = Value ` set vs \<union> set d"
  using assms
proof (induction vs arbitrary: d f)
  case (Cons v vs)
  obtain d1 f1 where p: "push_output v (d, f) = (d1, f1)" by (cases "push_output v (d, f)")
  from push_output_found [OF Cons.prems(1,2) _ p] Cons.prems(3)
  have "cone_inv ri g changed (set d1) (X \<union> Value ` set f1)" "set d1 = insert (Value v) (set d)"
    by auto
  with Cons.IH [of d1 f1] Cons.prems p show ?case by auto
qed simp

lemma visit_dependent_found:
  assumes "cone_inv ri g changed (set d) (X \<union> Value ` set f)"
    and "Value c \<in> X" and "dep \<in> set (dependents_of ri c)"
    and "visit_dependent g dep (d, f) = (d', f')"
  shows "cone_inv ri g changed (set d') (X \<union> Value ` set f') \<and> insert dep (set d) \<subseteq> set d'"
proof (cases "dep \<in> set d")
  case True
  with assms show ?thesis by auto
next
  case False
  let ?inv = "cone_inv ri g changed"
  have e: "(Value c, dep) \<in> cone_edges ri g" using assms(3) by (auto simp: cone_edges_def)
  have "Value c \<in> Value ` set changed \<union> set d" using assms(1,2) by (auto simp: cone.found_inv_def)
  from cone.found_add [OF assms(1) this e]
  have a: "?inv (insert dep (set d)) (insert dep (X \<union> Value ` set f))" .
  have leaf: ?thesis if "cone_edges ri g `` {dep} = {}" "d' = hs_insert dep d" "f' = f"
    using cone.found_drop_to [OF a, of dep "X \<union> Value ` set f"] that by auto
  show ?thesis
  proof (cases dep)
    case (Value v)
    with a False assms(4) show ?thesis by auto
  next
    case (Compute cn)
    have "fold push_output (compute_outputs g cn) (hs_insert dep d, f) = (d', f')"
      using Compute False assms(4) by (simp add: Let_def)
    from fold_push_output_found [OF _ _ _ this, where X = "insert dep X" and ri = ri and g = g and changed = changed and cn = cn] a Compute
    have b: "?inv (set d') (insert dep X \<union> Value ` set f')"
      and d': "set d' = Value ` set (compute_outputs g cn) \<union> insert dep (set d)" by auto
    have "?inv (set d') (X \<union> Value ` set f')"
      by (rule cone.found_drop_to [OF b, of dep]) (auto simp: d' Compute cone_edges_Image)
    with d' show ?thesis by auto
  qed (use leaf False assms(4) in \<open>auto simp: cone_edges_Image Let_def\<close>)
qed

lemma fold_visit_dependent_found:
  assumes "cone_inv ri g changed (set d) (X \<union> Value ` set f)"
    and "Value c \<in> X" and "set deps \<subseteq> set (dependents_of ri c)"
    and "fold (visit_dependent g) deps (d, f) = (d', f')"
  shows "cone_inv ri g changed (set d') (X \<union> Value ` set f') \<and> set deps \<union> set d \<subseteq> set d'"
  using assms
proof (induction deps arbitrary: d f)
  case (Cons dep deps)
  obtain d1 f1 where p: "visit_dependent g dep (d, f) = (d1, f1)" by (cases "visit_dependent g dep (d, f)")
  from visit_dependent_found [OF Cons.prems(1,2) _ p] Cons.prems(3)
  have "cone_inv ri g changed (set d1) (X \<union> Value ` set f1)" "insert dep (set d) \<subseteq> set d1" by auto
  with Cons.IH [of d1 f1] Cons.prems p show ?case by auto
qed simp

lemma dirty_loop_found:
  assumes "cone_inv ri g changed (set d) (Value ` set f)"
  shows "cone_inv ri g changed (set (dirty_loop ri g d f)) {}"
  using assms
proof (induction ri g d f rule: dirty_loop.induct)
  case (2 ri g d c f)
  obtain d' f' where s: "fold (visit_dependent g) (dependents_of ri c) (d, f) = (d', f')"
    by (cases "fold (visit_dependent g) (dependents_of ri c) (d, f)")
  from fold_visit_dependent_found [OF _ _ _ s, where changed = changed and ri = ri and X = "{Value c}" and c = c] 2(2)
  have i: "cone_inv ri g changed (set d') ({Value c} \<union> Value ` set f')"
    and "set (dependents_of ri c) \<subseteq> set d'" by auto
  then have "cone_inv ri g changed (set d') (Value ` set f')"
    by (intro cone.found_drop_to [OF i, of "Value c"]) (auto simp: cone_edges_Image)
  with 2(1) s show ?case by simp
qed simp

lemma dirty_cone_set:
  "set (compute_dirty_cone changed ri g) = (cone_edges ri g)\<^sup>+ `` (Value ` set changed)"
  unfolding compute_dirty_cone_def
  by (intro cone.found_done dirty_loop_found) (simp add: cone.found_init)

text \<open>
  C4.  The dirty cone of a set of changed cells is exactly the set of nodes
  reachable from them in one or more steps, where a cell leads to its dependents
  and a compute node to its output cells.  In particular the result does not
  depend on the order in which the hash containers are iterated, and a changed
  cell is in it exactly when another changed cell leads to it or it lies on a
  cycle, where the documentation of the function excludes the changed cells.
\<close>

theorem compute_dirty_cone_reachable:
  "set (compute_dirty_cone changed ri g) = (cone_edges ri g)\<^sup>+ `` (Value ` set changed)"
  by (rule dirty_cone_set)


section \<open>Correctness of the two-frontier fixpoint\<close>

interpretation rcone: graph_search "realization_cone_edges ri g"
  "Value ` set vcs \<union> Realization ` set rs" for ri g vcs rs
  by unfold_locales

lemma realization_cone_edges_Image:
  "realization_cone_edges ri g `` {Value c} = set (dependents_of ri c)"
  "realization_cone_edges ri g `` {Realization r} = set (realization_dependents_of ri r)"
  "realization_cone_edges ri g `` {Compute cn} = Value ` set (compute_outputs g cn)"
  "realization_cone_edges ri g `` {Constraint x} = {}"
  "realization_cone_edges ri g `` {Resolution z} = {}"
  by (auto simp: realization_cone_edges_def cone_edges_def)

abbreviation seeds :: "ValueCellId list \<Rightarrow> RealizationNodeId list \<Rightarrow> NodeId set" where
  "seeds vcs rs \<equiv> Value ` set vcs \<union> Realization ` set rs"

definition queued :: "cone_state \<Rightarrow> NodeId set" where
  "queued s = Value ` set (cs_frontier s) \<union> Realization ` set (cs_rfrontier s)"

text \<open>
  The loop invariant while the nodes in \<open>X\<close> are being expanded.  The visit set
  only holds realizations that are seeds or already dirty, so a realization it
  suppresses is expanded anyway.
\<close>

definition rcone_inv ::
  "ReverseDependencyIndex \<Rightarrow> ('v, 't) EvaluationGraph \<Rightarrow> ValueCellId list \<Rightarrow> RealizationNodeId list \<Rightarrow>
   NodeId set \<Rightarrow> cone_state \<Rightarrow> bool" where
  "rcone_inv ri g vcs rs X s \<longleftrightarrow>
     graph_search.found_inv (realization_cone_edges ri g) (seeds vcs rs) (set (cs_dirty s)) (X \<union> queued s)
     \<and> Realization ` set (cs_seen s) \<subseteq> seeds vcs rs \<union> set (cs_dirty s)"

lemma queued_simps [simp]:
  "queued (s\<lparr>cs_dirty := d\<rparr>) = queued s"
  "queued (s\<lparr>cs_frontier := cs_frontier s @ [v]\<rparr>) = insert (Value v) (queued s)"
  "queued (s\<lparr>cs_dirty := d, cs_frontier := cs_frontier s @ [v]\<rparr>) = insert (Value v) (queued s)"
  "queued (s\<lparr>cs_dirty := d, cs_seen := q, cs_rfrontier := cs_rfrontier s @ [r]\<rparr>)
     = insert (Realization r) (queued s)"
  by (auto simp: queued_def)

text \<open>Marking a new successor of an expanded node, with and without queueing it.\<close>

lemma rcone_mark:
  assumes "rcone_inv ri g vcs rs X s" and "x \<in> X" and "(x, y) \<in> realization_cone_edges ri g"
  shows "graph_search.found_inv (realization_cone_edges ri g) (seeds vcs rs)
      (insert y (set (cs_dirty s))) (insert y (X \<union> queued s))"
proof -
  have i: "graph_search.found_inv (realization_cone_edges ri g) (seeds vcs rs)
      (set (cs_dirty s)) (X \<union> queued s)" using assms(1) by (simp add: rcone_inv_def)
  then have "x \<in> seeds vcs rs \<union> set (cs_dirty s)" using assms(2) by (auto simp: rcone.found_inv_def)
  from rcone.found_add [OF i this assms(3)] show ?thesis .
qed

lemma push_output_r_found:
  assumes "rcone_inv ri g vcs rs X s" and "Compute cn \<in> X" and "v \<in> set (compute_outputs g cn)"
  shows "rcone_inv ri g vcs rs X (push_output_r v s)
     \<and> set (cs_dirty (push_output_r v s)) = insert (Value v) (set (cs_dirty s))"
proof (cases "Value v \<in> set (cs_dirty s)")
  case False
  have "(Compute cn, Value v) \<in> realization_cone_edges ri g"
    using assms(3) by (auto simp: realization_cone_edges_def cone_edges_def)
  from rcone_mark [OF assms(1,2) this] False assms(1) show ?thesis
    by (auto simp: push_output_r_def rcone_inv_def)
qed (use assms in \<open>auto simp: push_output_r_def\<close>)

lemma fold_push_output_r_found:
  assumes "rcone_inv ri g vcs rs X s" and "Compute cn \<in> X" and "set vs \<subseteq> set (compute_outputs g cn)"
  shows "rcone_inv ri g vcs rs X (fold push_output_r vs s)
     \<and> set (cs_dirty (fold push_output_r vs s)) = Value ` set vs \<union> set (cs_dirty s)"
  using assms
proof (induction vs arbitrary: s)
  case (Cons v vs)
  then show ?case using push_output_r_found [OF Cons.prems(1,2), of v] by auto
qed simp

lemma visit_realization_dependent_found:
  assumes "rcone_inv ri g vcs rs X s" and "x \<in> X" and "(x, dep) \<in> realization_cone_edges ri g"
  shows "rcone_inv ri g vcs rs X (visit_realization_dependent g dep s)
     \<and> insert dep (set (cs_dirty s)) \<subseteq> set (cs_dirty (visit_realization_dependent g dep s))"
proof (cases "dep \<in> set (cs_dirty s)")
  case True
  with assms show ?thesis by (auto simp: visit_realization_dependent_def)
next
  case False
  let ?s = "s\<lparr>cs_dirty := hs_insert dep (cs_dirty s)\<rparr>"
  note a = rcone_mark [OF assms]
  have b: "rcone_inv ri g vcs rs (insert dep X) ?s"
    using a assms(1) by (auto simp: rcone_inv_def)
  have leaf: "rcone_inv ri g vcs rs X ?s" if "realization_cone_edges ri g `` {dep} = {}"
    using rcone.found_drop_to [OF a, of dep "X \<union> queued s"] that assms(1)
    by (auto simp: rcone_inv_def)
  show ?thesis
  proof (cases dep)
    case (Value v)
    with a assms(1) False show ?thesis
      by (auto simp: visit_realization_dependent_def rcone_inv_def)
  next
    case (Constraint c)
    with leaf False show ?thesis by (auto simp: visit_realization_dependent_def realization_cone_edges_Image)
  next
    case (Resolution c)
    with leaf False show ?thesis by (auto simp: visit_realization_dependent_def realization_cone_edges_Image)
  next
    case (Compute cn)
    let ?s' = "fold push_output_r (compute_outputs g cn) ?s"
    from fold_push_output_r_found [OF b, of cn "compute_outputs g cn"] Compute
    have i: "rcone_inv ri g vcs rs (insert dep X) ?s'"
      and d: "set (cs_dirty ?s') = Value ` set (compute_outputs g cn) \<union> insert dep (set (cs_dirty s))"
      by auto
    from i have "graph_search.found_inv (realization_cone_edges ri g) (seeds vcs rs)
        (set (cs_dirty ?s')) (insert dep X \<union> queued ?s')" by (simp add: rcone_inv_def)
    from rcone.found_drop_to [OF this, of dep "X \<union> queued ?s'"] i d
    have "rcone_inv ri g vcs rs X ?s'"
      by (auto simp: rcone_inv_def Compute realization_cone_edges_Image)
    with d Compute False show ?thesis by (auto simp: visit_realization_dependent_def)
  next
    case (Realization r)
    show ?thesis
    proof (cases "r \<in> set (cs_seen s)")
      case True
      then have root: "dep \<in> seeds vcs rs" using assms(1) False Realization by (auto simp: rcone_inv_def)
      have i: "graph_search.found_inv (realization_cone_edges ri g) (seeds vcs rs)
          (set (cs_dirty s)) (X \<union> queued s)" using assms(1) by (simp add: rcone_inv_def)
      then have "x \<in> seeds vcs rs \<union> set (cs_dirty s)" using assms(2) by (auto simp: rcone.found_inv_def)
      from rcone.found_add_root [OF i this assms(3) root] assms(1) True Realization False
      show ?thesis by (auto simp: visit_realization_dependent_def reseed_def rcone_inv_def)
    next
      case new: False
      with a assms(1) Realization False show ?thesis
        by (auto simp: visit_realization_dependent_def reseed_def rcone_inv_def)
    qed
  qed
qed


lemma fold_visit_realization_found:
  assumes "rcone_inv ri g vcs rs X s" and "x \<in> X" and "set deps \<subseteq> realization_cone_edges ri g `` {x}"
  shows "rcone_inv ri g vcs rs X (fold (visit_realization_dependent g) deps s)
     \<and> set deps \<union> set (cs_dirty s) \<subseteq> set (cs_dirty (fold (visit_realization_dependent g) deps s))"
  using assms
proof (induction deps arbitrary: s)
  case (Cons dep deps)
  let ?s = "visit_realization_dependent g dep s"
  have v: "rcone_inv ri g vcs rs X ?s" "insert dep (set (cs_dirty s)) \<subseteq> set (cs_dirty ?s)"
    using visit_realization_dependent_found [OF Cons.prems(1,2), of dep] Cons.prems(3) by auto
  from Cons.IH [OF v(1) Cons.prems(2)] Cons.prems(3) v(2) show ?case by (simp add: subset_trans) blast
qed simp

text \<open>One iteration: a node is taken off its queue, its dependents are visited, and it is done.\<close>

lemma rcone_expand:
  assumes "rcone_inv ri g vcs rs {} s" and "queued s = insert x (queued s0)" and "cs_dirty s0 = cs_dirty s"
    and "cs_seen s0 = cs_seen s" and "set deps = realization_cone_edges ri g `` {x}"
  shows "rcone_inv ri g vcs rs {} (fold (visit_realization_dependent g) deps s0)"
proof -
  let ?s = "fold (visit_realization_dependent g) deps s0"
  have "rcone_inv ri g vcs rs {x} s0" using assms(1-4) by (simp add: rcone_inv_def)
  from fold_visit_realization_found [OF this, of x deps] assms(5)
  have i: "rcone_inv ri g vcs rs {x} ?s" and "realization_cone_edges ri g `` {x} \<subseteq> set (cs_dirty ?s)"
    by auto
  moreover from i have f: "graph_search.found_inv (realization_cone_edges ri g) (seeds vcs rs)
      (set (cs_dirty ?s)) ({x} \<union> queued ?s)" by (simp add: rcone_inv_def)
  ultimately show ?thesis
    using rcone.found_drop_to [OF f, of x "queued ?s"] by (auto simp: rcone_inv_def)
qed

lemma drain_realizations_found:
  "rcone_inv ri g vcs rs {} s \<Longrightarrow>
   rcone_inv ri g vcs rs {} (drain_realizations ri g s) \<and> cs_rfrontier (drain_realizations ri g s) = []"
proof (induction ri g s rule: drain_realizations.induct)
  case (1 ri g s)
  show ?case
  proof (cases "cs_rfrontier s")
    case Nil
    then show ?thesis using 1(2) by (simp add: drain_realizations.simps [of ri g s])
  next
    case (Cons r rest)
    have "rcone_inv ri g vcs rs {}
        (fold (visit_realization_dependent g) (realization_dependents_of ri r) (s\<lparr>cs_rfrontier := rest\<rparr>))"
      by (rule rcone_expand [OF 1(2), where x = "Realization r"])
        (use Cons in \<open>auto simp: queued_def realization_cone_edges_Image\<close>)
    with 1(1) [OF Cons] Cons show ?thesis by (simp add: drain_realizations.simps [of ri g s])
  qed
qed

lemma drain_cells_found:
  "rcone_inv ri g vcs rs {} s \<Longrightarrow>
   rcone_inv ri g vcs rs {} (drain_cells ri g s) \<and> cs_frontier (drain_cells ri g s) = []"
proof (induction ri g s rule: drain_cells.induct)
  case (1 ri g s)
  show ?case
  proof (cases "cs_frontier s")
    case Nil
    then show ?thesis using 1(2) by (simp add: drain_cells.simps [of ri g s])
  next
    case (Cons c rest)
    have "rcone_inv ri g vcs rs {}
        (fold (visit_realization_dependent g) (dependents_of ri c) (s\<lparr>cs_frontier := rest\<rparr>))"
      by (rule rcone_expand [OF 1(2), where x = "Value c"])
        (use Cons in \<open>auto simp: queued_def realization_cone_edges_Image\<close>)
    with 1(1) [OF Cons] Cons show ?thesis
      by (simp add: drain_cells.simps [of ri g s] visit_cell_dependent_eq)
  qed
qed

lemma cone_fixpoint_found:
  "rcone_inv ri g vcs rs {} s \<Longrightarrow>
   rcone_inv ri g vcs rs {} (cone_fixpoint ri g s) \<and> queued (cone_fixpoint ri g s) = {}"
proof (induction ri g s rule: cone_fixpoint.induct)
  case (1 ri g s)
  show ?case
  proof (cases "cs_rfrontier s = [] \<and> cs_frontier s = []")
    case True
    then show ?thesis using 1(2) by (simp add: cone_fixpoint.simps [of ri g s] queued_def)
  next
    case False
    have "rcone_inv ri g vcs rs {} (drain_cells ri g (drain_realizations ri g s))"
      using drain_realizations_found [OF 1(2)] drain_cells_found by blast
    from 1(1) [OF False this] show ?thesis
      by (simp only: cone_fixpoint.simps [of ri g s] if_not_P [OF False])
  qed
qed

text \<open>
  C5.  Seeded with changed cells and changed realizations, the two-frontier
  fixpoint returns exactly what is reachable from either kind of seed in one or
  more steps, following dependents of cells, dependents of realizations and
  outputs of compute nodes, in any interleaving.
\<close>

theorem dirty_cone_with_realizations_reachable:
  "set (compute_dirty_cone_with_realizations vcs rs ri g)
     = (realization_cone_edges ri g)\<^sup>+ `` (Value ` set vcs \<union> Realization ` set rs)"
proof -
  let ?s = "\<lparr>cs_dirty = [], cs_frontier = vcs, cs_rfrontier = rs, cs_seen = rs\<rparr>"
  have "rcone_inv ri g vcs rs {} ?s"
    using rcone.found_init by (simp add: rcone_inv_def queued_def)
  from cone_fixpoint_found [OF this] have q: "rcone_inv ri g vcs rs {} (cone_fixpoint ri g ?s)"
    and "queued (cone_fixpoint ri g ?s) = {}" by blast+
  then have "graph_search.found_inv (realization_cone_edges ri g) (seeds vcs rs)
      (set (cs_dirty (cone_fixpoint ri g ?s))) {}" by (simp add: rcone_inv_def)
  then show ?thesis
    unfolding compute_dirty_cone_with_realizations_def by (rule rcone.found_done)
qed

end
