(* ===== verification/Demand.thy ===== *)
theory Demand
  imports Deps Worklist
begin

text \<open>
  The demand registry (\<open>reify-eval/src/demand.rs\<close>): which nodes' results are
  needed.  The cone is rebuilt by a backward breadth-first search that marks a
  node when it leaves the queue.
\<close>

record DemandRegistry =
  always_demanded :: "NodeId hash_set"
  demand_cone :: "NodeId hash_set"
  full_scope :: bool

definition demand_new :: DemandRegistry where
  "demand_new = \<lparr>always_demanded = [], demand_cone = [], full_scope = False\<rparr>"

definition add_demand :: "NodeId \<Rightarrow> DemandRegistry \<Rightarrow> DemandRegistry" where
  "add_demand node reg = reg\<lparr>always_demanded := hs_insert node (always_demanded reg)\<rparr>"

definition remove_demand :: "NodeId \<Rightarrow> DemandRegistry \<Rightarrow> DemandRegistry" where
  "remove_demand node reg = reg\<lparr>always_demanded := hs_remove node (always_demanded reg)\<rparr>"

definition is_demanded :: "DemandRegistry \<Rightarrow> NodeId \<Rightarrow> bool" where
  "is_demanded reg node \<longleftrightarrow> full_scope reg \<or> node \<in> set (demand_cone reg)"

definition set_full_scope :: "bool \<Rightarrow> DemandRegistry \<Rightarrow> DemandRegistry" where
  "set_full_scope b reg = reg\<lparr>full_scope := b\<rparr>"

definition is_full_scope :: "DemandRegistry \<Rightarrow> bool" where
  "is_full_scope reg = full_scope reg"

definition cone_size :: "DemandRegistry \<Rightarrow> nat" where
  "cone_size reg = length (demand_cone reg)"

section \<open>Rebuilding the cone\<close>

type_synonym cell_realizations = "(ValueCellId, RealizationNodeId list) hash_map"

text \<open>The realization or paired cell that a demanded node pulls in directly.\<close>

fun demand_paired ::
  "cell_realizations \<Rightarrow> ('v, 't) EvaluationGraph \<Rightarrow> NodeId \<Rightarrow> NodeId list" where
  "demand_paired by_cell graph (Value vcid) =
     (case hm_get by_cell vcid of None \<Rightarrow> [] | Some rids \<Rightarrow> map Realization rids)"
| "demand_paired by_cell graph (Realization rnid) =
     (case hm_get (realizations graph) rnid of
        None \<Rightarrow> []
      | Some rnode \<Rightarrow> (case geometry_cell rnode of None \<Rightarrow> [] | Some cell \<Rightarrow> [Value cell]))"
| "demand_paired by_cell graph (Compute cnid) =
     (case hm_get (compute_nodes graph) cnid of
        None \<Rightarrow> [] | Some cn \<Rightarrow> map Realization (realization_inputs cn))"
| "demand_paired by_cell graph _ = []"

text \<open>The cells it reads.\<close>

fun demand_reads :: "('v, 't) EvaluationGraph \<Rightarrow> NodeId \<Rightarrow> ValueCellId list" where
  "demand_reads graph (Value vcid) =
     (case hm_get (value_cells graph) vcid of
        None \<Rightarrow> []
      | Some cell_node \<Rightarrow>
          (case default_expr cell_node of None \<Rightarrow> [] | Some e \<Rightarrow> reads (extract_dependency_trace e)))"
| "demand_reads graph (Constraint cnid) =
     (case hm_get (constraints graph) cnid of
        None \<Rightarrow> [] | Some cnode \<Rightarrow> reads (extract_dependency_trace (cnd_expr cnode)))"
| "demand_reads graph (Realization rnid) =
     (case hm_get (realizations graph) rnid of
        None \<Rightarrow> [] | Some rnode \<Rightarrow> reads (extract_realization_dependencies (operations rnode)))"
| "demand_reads graph (Resolution res_id) =
     (case hm_get (resolutions graph) res_id of None \<Rightarrow> [] | Some res \<Rightarrow> auto_params res)"
| "demand_reads graph (Compute cnid) =
     (case hm_get (compute_nodes graph) cnid of None \<Rightarrow> [] | Some cn \<Rightarrow> value_inputs cn)"

definition demand_succs :: "cell_realizations \<Rightarrow> ('v, 't) EvaluationGraph \<Rightarrow> NodeId \<Rightarrow> NodeId list" where
  "demand_succs by_cell graph node = demand_paired by_cell graph node @ map Value (demand_reads graph node)"

text \<open>\<open>if !cone.contains(n) { queue.push_back(n) }\<close>\<close>

definition enqueue :: "NodeId hash_set \<Rightarrow> NodeId \<Rightarrow> NodeId list \<Rightarrow> NodeId list" where
  "enqueue cone n queue = (if n \<in> set cone then queue else queue @ [n])"

lemma set_fold_enqueue: "set (fold (enqueue cone) ns queue) = set queue \<union> (set ns - set cone)"
  by (induction ns arbitrary: queue) (auto simp: enqueue_def)

text \<open>Only nodes stored in the graph have successors, so finitely many nodes are ever queued.\<close>

definition demand_sources :: "cell_realizations \<Rightarrow> ('v, 't) EvaluationGraph \<Rightarrow> NodeId list" where
  "demand_sources by_cell g =
     map Value (hm_keys by_cell @ hm_keys (value_cells g)) @ map Constraint (hm_keys (constraints g))
     @ map Realization (hm_keys (realizations g)) @ map Resolution (hm_keys (resolutions g))
     @ map Compute (hm_keys (compute_nodes g))"

lemma demand_succs_source: "m \<in> set (demand_succs by_cell g n) \<Longrightarrow> n \<in> set (demand_sources by_cell g)"
  by (cases n) (auto simp: demand_succs_def demand_sources_def image_iff hm_keys_iff
      split: option.splits dest: sym)

definition demand_targets :: "cell_realizations \<Rightarrow> ('v, 't) EvaluationGraph \<Rightarrow> NodeId set" where
  "demand_targets by_cell g = (\<Union>n \<in> set (demand_sources by_cell g). set (demand_succs by_cell g n))"

lemma finite_demand_targets [simp]: "finite (demand_targets by_cell g)"
  by (simp add: demand_targets_def)

lemma demand_succs_targets: "set (demand_succs by_cell g n) \<subseteq> demand_targets by_cell g"
  by (auto simp: demand_targets_def dest: demand_succs_source)

function rebuild_loop ::
  "cell_realizations \<Rightarrow> ('v, 't) EvaluationGraph \<Rightarrow> NodeId hash_set \<Rightarrow> NodeId list \<Rightarrow> NodeId hash_set" where
  "rebuild_loop by_cell graph cone [] = cone"
| "rebuild_loop by_cell graph cone (node # queue) =
     (if node \<in> set cone then rebuild_loop by_cell graph cone queue
      else (let cone' = hs_insert node cone
            in rebuild_loop by_cell graph cone'
                 (fold (enqueue cone') (demand_succs by_cell graph node) queue)))"
  by pat_completeness auto
termination
proof (relation "measures [\<lambda>(b, g, cone, q). card ((set q \<union> demand_targets b g) - set cone),
      \<lambda>(b, g, cone, q). length q]", goal_cases)
  case (2 b g cone node queue)
  have "card ((set queue \<union> demand_targets b g) - set cone)
      \<le> card ((set (node # queue) \<union> demand_targets b g) - set cone)"
    by (rule card_mono) auto
  then show ?case by auto
next
  case (3 b g cone node queue cone')
  have "(set (fold (enqueue cone') (demand_succs b g node) queue) \<union> demand_targets b g) - set cone'
      \<subset> (set (node # queue) \<union> demand_targets b g) - set cone"
    using 3 demand_succs_targets [of b g node] by (auto simp: set_fold_enqueue)
  then have "card ((set (fold (enqueue cone') (demand_succs b g node) queue) \<union> demand_targets b g) - set cone')
      < card ((set (node # queue) \<union> demand_targets b g) - set cone)"
    by (intro psubset_card_mono) auto
  then show ?case by simp
qed simp

definition rebuild_cone :: "('v, 't) EvaluationGraph \<Rightarrow> DemandRegistry \<Rightarrow> DemandRegistry" where
  "rebuild_cone graph reg =
     reg\<lparr>demand_cone := rebuild_loop (geometry_cell_realization_reads graph) graph [] (always_demanded reg)\<rparr>"

section \<open>The cone is the backward closure\<close>

definition demand_edges :: "('v, 't) EvaluationGraph \<Rightarrow> (NodeId \<times> NodeId) set" where
  "demand_edges g = {(n, m). m \<in> set (demand_succs (geometry_cell_realization_reads g) g n)}"

interpretation demand: graph_search "demand_edges g" "set roots" for g roots
  by unfold_locales

lemma rebuild_loop_visit:
  assumes "graph_search.visit_inv (demand_edges g) R (set cone) (set queue)"
    and "by_cell = geometry_cell_realization_reads g"
  shows "graph_search.visit_inv (demand_edges g) R (set (rebuild_loop by_cell g cone queue)) {}"
  using assms
proof (induction by_cell g cone queue rule: rebuild_loop.induct)
  case (2 by_cell g cone node queue)
  show ?case
  proof (cases "node \<in> set cone")
    case True
    have "graph_search.visit_inv (demand_edges g) R (set cone) (set queue)"
      using 2(3) True by (auto simp: graph_search.visit_inv_def)
    with 2 True show ?thesis by simp
  next
    case False
    let ?cone = "hs_insert node cone"
    let ?N = "set (demand_succs by_cell g node) - set ?cone"
    have "graph_search.visit_inv (demand_edges g) R (insert node (set cone))
        (set (fold (enqueue ?cone) (demand_succs by_cell g node) queue))"
      by (rule graph_search.visit_expand [OF 2(3), where N = ?N])
        (auto simp: set_fold_enqueue demand_edges_def 2(4))
    with 2(2) [OF False refl] 2(4) False show ?thesis by (simp add: Let_def)
  qed
qed simp

lemma rebuild_cone_closure:
  "set (demand_cone (rebuild_cone g reg)) = (demand_edges g)\<^sup>* `` set (always_demanded reg)"
proof -
  have "graph_search.visit_inv (demand_edges g) (set (always_demanded reg)) (set []) (set (always_demanded reg))"
    using demand.visit_init by simp
  from rebuild_loop_visit [OF this refl] show ?thesis
    unfolding rebuild_cone_def by (simp add: demand.visit_done)
qed

text \<open>
  After a rebuild, a node is demanded exactly when the full-scope override
  is set or the node is reachable from an always-demanded node along the demand
  edges (cells read, paired geometry cells, producing realizations).  Switching
  the override leaves the roots and the cone alone.
\<close>

theorem rebuild_cone_demands_closure:
  "(is_demanded (rebuild_cone g reg) n \<longleftrightarrow>
      full_scope reg \<or> n \<in> (demand_edges g)\<^sup>* `` set (always_demanded reg))
   \<and> always_demanded (rebuild_cone g reg) = always_demanded reg
   \<and> is_demanded (set_full_scope True reg) n
   \<and> set_full_scope (full_scope reg) (set_full_scope b reg) = reg"
  using rebuild_cone_closure [of g reg]
  by (simp add: is_demanded_def set_full_scope_def rebuild_cone_def)

lemma demand_cone_step:
  "n \<in> set (demand_cone (rebuild_cone g reg)) \<Longrightarrow> (n, m) \<in> demand_edges g \<Longrightarrow>
   m \<in> set (demand_cone (rebuild_cone g reg))"
  unfolding rebuild_cone_closure by (blast intro: rtrancl_into_rtrancl)

lemma backing_edges:
  assumes "keyed_by rnd_id (realizations g)" and "r \<in> set (backing g c)"
  shows "(Realization r, Value c) \<in> demand_edges g" and "(Value c, Realization r) \<in> demand_edges g"
proof -
  from assms(2) obtain k rnode where "(k, rnode) \<in> set (realizations g)" "rnd_id rnode = r"
    "geometry_cell rnode = Some c"
    by (auto simp: backing_def geometry_cell_realization_links_def map_filter_def)
  with assms(1) have "hm_get (realizations g) r = Some rnode"
    by (auto simp: keyed_by_def hm_get_eq_in)
  then show "(Realization r, Value c) \<in> demand_edges g"
    using \<open>geometry_cell rnode = Some c\<close> by (simp add: demand_edges_def demand_succs_def)
  show "(Value c, Realization r) \<in> demand_edges g"
    using assms(2) by (auto simp: demand_edges_def demand_succs_def geometry_cell_realization_reads_get)
qed

text \<open>
  List-element atomicity: the realizations that back one cell are demanded
  all together or not at all, and together with the cell, so a cone never holds
  a strict subset of a geometry list.
\<close>

theorem demand_list_atomic:
  assumes "keyed_by rnd_id (realizations g)" and "r \<in> set (backing g c)"
  shows "is_demanded (rebuild_cone g reg) (Realization r) \<longleftrightarrow> is_demanded (rebuild_cone g reg) (Value c)"
  using backing_edges [OF assms] demand_cone_step [of _ g reg]
  by (auto simp: is_demanded_def)

text \<open>A consumer of another component's geometry, by a dotted operand.\<close>

definition sub_graph :: "(unit, unit) EvaluationGraph" where
  "sub_graph = \<lparr>value_cells = [], constraints = [],
     realizations = [
       (RealizationNodeId ''A'' 0, \<lparr>rnd_id = RealizationNodeId ''A'' 0, operations = [],
          geometry_cell = Some (ValueCellId ''A'' ''body'')\<rparr>),
       (RealizationNodeId ''B'' 0, \<lparr>rnd_id = RealizationNodeId ''B'' 0,
          operations = [Primitive ''box'' [], Boolean ''union'' (SubRef ''a.body'') (Step 0)],
          geometry_cell = None\<rparr>)],
     resolutions = [], compute_nodes = []\<rparr>"

theorem demand_list_atomic_witness:
  "is_demanded (rebuild_cone demo_graph (add_demand (Realization (RealizationNodeId ''A'' 0)) demand_new))
     (Value (demo_cell ''body''))"
proof -
  have "keyed_by rnd_id (realizations demo_graph)"
    and "RealizationNodeId ''A'' 0 \<in> set (backing demo_graph (demo_cell ''body''))"
    and "is_demanded (rebuild_cone demo_graph (add_demand (Realization (RealizationNodeId ''A'' 0)) demand_new))
      (Realization (RealizationNodeId ''A'' 0))"
    by code_simp+
  with demand_list_atomic show ?thesis by blast
qed

text \<open>
  Demand does not follow geometry operands: a demanded realization that
  consumes another component's geometry does not make the producing realization
  demanded, although the reverse index records that the producer feeds it.
\<close>

theorem demand_ignores_geometry_operands:
  "Realization (RealizationNodeId ''B'' 0)
     \<in> set (realization_dependents_of (build_from_graph sub_graph) (RealizationNodeId ''A'' 0))
   \<and> is_demanded (rebuild_cone sub_graph (add_demand (Realization (RealizationNodeId ''B'' 0)) demand_new))
       (Realization (RealizationNodeId ''B'' 0))
   \<and> \<not> is_demanded (rebuild_cone sub_graph (add_demand (Realization (RealizationNodeId ''B'' 0)) demand_new))
       (Realization (RealizationNodeId ''A'' 0))"
  by code_simp

end
