(* ===== verification/DebugOrder.thy ===== *)
theory DebugOrder
  imports Identity
begin

text \<open>
  The total order the scheduling core uses on nodes
  (\<open>DebugOrd\<close> in \<open>reify-eval/src/engine_fixpoint.rs\<close>): nodes are compared by
  their derived \<open>Debug\<close> text.  The order is only a total order on nodes, and a
  \<open>BTreeSet\<close> keyed by it only keeps every node, because that text determines
  the node, which is proved here.
\<close>

section \<open>Debug text\<close>

text \<open>
  \<open>Debug for str\<close>: quotes and backslashes are escaped, ASCII control characters
  are written \<open>\n\<close>, \<open>\r\<close>, \<open>\t\<close>, \<open>\0\<close> or \<open>\u{..}\<close>, printable text is kept.
  The bytes of every non-ASCII character are kept as they are.  Rust escapes the
  non-printable ones among them (such as U+200B) as \<open>\u{..}\<close> too, by tables of the
  Unicode database that are not modelled; the order of names that hold such a
  character may differ from the code's.
\<close>

definition hex_digit :: "nat \<Rightarrow> char" where
  "hex_digit n = char_of (if n < 10 then 48 + n else 87 + n)"

definition hex_short :: "nat \<Rightarrow> string" where
  "hex_short n = (if n < 16 then [hex_digit n] else [hex_digit (n div 16), hex_digit (n mod 16)])"

definition is_control :: "char \<Rightarrow> bool" where
  "is_control c \<longleftrightarrow> of_char c < (32 :: nat) \<or> of_char c = (127 :: nat)"

definition backslash :: char where
  "backslash = CHR 0x5C"

definition quote :: char where
  "quote = CHR 0x22"

text \<open>The character after the backslash for the short escapes.\<close>

definition short_escape :: "char \<Rightarrow> char option" where
  "short_escape c =
     (if c = quote \<or> c = backslash then Some c
      else if c = CHR 0x0A then Some (CHR ''n'')
      else if c = CHR 0x0D then Some (CHR ''r'')
      else if c = CHR 0x09 then Some (CHR ''t'')
      else if c = CHR 0x00 then Some (CHR ''0'')
      else None)"

definition escape_char :: "char \<Rightarrow> string" where
  "escape_char c =
     (case short_escape c of
        Some e \<Rightarrow> [backslash, e]
      | None \<Rightarrow> if is_control c then backslash # ''u{'' @ hex_short (of_char c) @ ''}'' else [c])"

definition debug_str :: "string \<Rightarrow> string" where
  "debug_str s = quote # concat (map escape_char s) @ [quote]"

definition debug_indexed :: "string \<Rightarrow> string \<Rightarrow> u32 \<Rightarrow> string" where
  "debug_indexed ty entity index =
     ty @ '' { entity: '' @ debug_str entity @ '', index: '' @ show_u32 index @ '' }''"

fun debug_repr :: "NodeId \<Rightarrow> string" where
  "debug_repr (Value v) =
     ''Value(ValueCellId { entity: '' @ debug_str (vc_entity v) @ '', member: ''
       @ debug_str (vc_member v) @ '' })''"
| "debug_repr (Constraint c) = ''Constraint('' @ debug_indexed ''ConstraintNodeId'' (cn_entity c) (cn_index c) @ '')''"
| "debug_repr (Realization r) = ''Realization('' @ debug_indexed ''RealizationNodeId'' (rn_entity r) (rn_index r) @ '')''"
| "debug_repr (Resolution r) = ''Resolution('' @ debug_indexed ''ResolutionNodeId'' (sn_entity r) (sn_index r) @ '')''"
| "debug_repr (Compute c) = ''Compute('' @ debug_indexed ''ComputeNodeId'' (pn_entity c) (pn_index c) @ '')''"

section \<open>The text determines the node\<close>

lemma of_char_hex_digit: "n < 16 \<Longrightarrow> of_char (hex_digit n) = (if n < 10 then 48 + n else 87 + n :: nat)"
  by (simp add: hex_digit_def)

lemma hex_digit_inject [simp]: "m < 16 \<Longrightarrow> n < 16 \<Longrightarrow> hex_digit m = hex_digit n \<longleftrightarrow> m = n"
proof
  assume "m < 16" "n < 16" "hex_digit m = hex_digit n"
  then have "(if m < 10 then 48 + m else 87 + m) = (if n < 10 then 48 + n else 87 + n)"
    by (simp flip: of_char_hex_digit)
  then show "m = n" by (auto split: if_splits)
qed simp

lemma hex_digit_brace [simp]: "n < 16 \<Longrightarrow> hex_digit n \<noteq> CHR ''}''"
proof
  assume "n < 16" "hex_digit n = CHR ''}''"
  then have "(of_char (hex_digit n) :: nat) = 125" by simp
  then show False using \<open>n < 16\<close> by (simp add: of_char_hex_digit split: if_splits)
qed

lemma hex_short_prefix:
  assumes "hex_short m @ CHR ''}'' # x = hex_short n @ CHR ''}'' # y" and "m < 256" "n < 256"
  shows "m = n \<and> x = y"
proof -
  have d: "m div 16 < 16" "n div 16 < 16" using assms by auto
  show ?thesis
  proof (cases "m < 16"; cases "n < 16")
    assume "\<not> m < 16" "\<not> n < 16"
    with assms d have "m div 16 = n div 16" "m mod 16 = n mod 16" "x = y"
      by (auto simp: hex_short_def)
    then show ?thesis by (metis div_mult_mod_eq)
  qed (use assms d in \<open>auto simp: hex_short_def dest: sym\<close>)
qed

lemma short_escape_inject: "short_escape a = Some e \<Longrightarrow> short_escape b = Some e \<Longrightarrow> a = b"
  by (auto simp: short_escape_def quote_def backslash_def split: if_splits)

lemma short_escape_not_u: "short_escape a \<noteq> Some (CHR ''u'')"
  by (auto simp: short_escape_def quote_def backslash_def)

lemma short_escape_special [simp]: "short_escape quote = Some quote" "short_escape backslash = Some backslash"
  by (simp_all add: short_escape_def)

lemma of_char_less_256: "of_char c < (256 :: nat)"
  by (cases c) (simp add: of_char_def)

text \<open>No escape is a prefix of another, and none starts with the closing quote.\<close>

lemma escape_char_prefix:
  assumes "escape_char a @ x = escape_char b @ y"
  shows "a = b \<and> x = y"
proof -
  have u: "escape_char c = backslash # ''u{'' @ hex_short (of_char c) @ ''}''"
    if "short_escape c = None" "is_control c" for c using that by (simp add: escape_char_def)
  have n: "escape_char c = [c]" if "short_escape c = None" "\<not> is_control c" for c
    using that by (simp add: escape_char_def)
  have e: "escape_char c = [backslash, d]" if "short_escape c = Some d" for c d
    using that by (simp add: escape_char_def)
  have nb: "c \<noteq> backslash" if "short_escape c = None" for c using that by auto
  show ?thesis
  proof (cases "short_escape a"; cases "short_escape b")
    fix d d' assume s: "short_escape a = Some d" "short_escape b = Some d'"
    with assms have "d = d'" "x = y" by (auto simp: e)
    with s short_escape_inject show ?thesis by blast
  next
    fix d assume s: "short_escape a = Some d" "short_escape b = None"
    then show ?thesis using assms short_escape_not_u [of a] nb [of b]
      by (cases "is_control b") (auto simp: e u n)
  next
    fix d assume s: "short_escape a = None" "short_escape b = Some d"
    then show ?thesis using assms short_escape_not_u [of b] nb [of a]
      by (cases "is_control a") (auto simp: e u n)
  next
    assume s: "short_escape a = None" "short_escape b = None"
    show ?thesis
    proof (cases "is_control a \<and> is_control b")
      case True
      with assms s have "hex_short (of_char a) @ CHR ''}'' # x = hex_short (of_char b) @ CHR ''}'' # y"
        by (simp add: u)
      from hex_short_prefix [OF this of_char_less_256 of_char_less_256] show ?thesis by simp
    next
      case False
      with assms s nb [of a] nb [of b] show ?thesis
        by (cases "is_control a"; cases "is_control b") (auto simp: u n)
    qed
  qed
qed

lemma escape_char_quote: "escape_char a @ x \<noteq> quote # y"
  by (auto simp: escape_char_def quote_def backslash_def short_escape_def split: option.splits if_splits)

lemma debug_str_prefix:
  "debug_str s @ x = debug_str t @ y \<longleftrightarrow> s = t \<and> x = y"
proof
  assume "debug_str s @ x = debug_str t @ y"
  then have "concat (map escape_char s) @ quote # x = concat (map escape_char t) @ quote # y"
    by (simp add: debug_str_def)
  then show "s = t \<and> x = y"
  proof (induction s arbitrary: t)
    case Nil
    then show ?case using escape_char_quote by (cases t) (auto, metis)
  next
    case (Cons a s)
    then obtain b t' where t: "t = b # t'"
      using escape_char_quote [of a] by (cases t) auto
    with Cons.prems escape_char_prefix [of a "concat (map escape_char s) @ quote # x" b] Cons.IH [of t']
    show ?case by auto
  qed
qed simp

lemma debug_str_inject [simp]: "debug_str s = debug_str t \<longleftrightarrow> s = t"
  using debug_str_prefix [of s "[]" t "[]"] by simp

lemma show_u32_stop:
  assumes "show_u32 i @ CHR '' '' # x = show_u32 j @ CHR '' '' # y" shows "i = j"
proof -
  have sp: "CHR '' '' \<notin> set (show_u32 k)" for k
    by (auto simp: show_u32_def is_ascii_digit_def dest: show_nat_digit_set)
  have "split_once CHR '' '' (show_u32 i @ CHR '' '' # x) = split_once CHR '' '' (show_u32 j @ CHR '' '' # y)"
    using assms by simp
  then have "show_u32 i = show_u32 j" by (simp only: split_once_append sp not_False_eq_True option.inject prod.inject)
  then show ?thesis by (metis parse_show_u32 option.inject)
qed

lemma debug_indexed_inject:
  "debug_indexed ty e i @ x = debug_indexed ty f j @ y \<Longrightarrow> e = f \<and> i = j"
proof -
  assume "debug_indexed ty e i @ x = debug_indexed ty f j @ y"
  then have "debug_str e @ '', index: '' @ show_u32 i @ '' }'' @ x
      = debug_str f @ '', index: '' @ show_u32 j @ '' }'' @ y"
    by (simp add: debug_indexed_def)
  then have "e = f" "'', index: '' @ show_u32 i @ '' }'' @ x = '', index: '' @ show_u32 j @ '' }'' @ y"
    unfolding debug_str_prefix by blast+
  then show ?thesis using show_u32_stop [of i "CHR ''}'' # x" j] by simp
qed

lemmas debug_indexed_inject' = debug_indexed_inject [where x = "[]" and y = "[]", simplified]

lemma debug_value_inject:
  "debug_repr (Value v) = debug_repr (Value w) \<Longrightarrow> v = w"
proof -
  assume "debug_repr (Value v) = debug_repr (Value w)"
  then have "debug_str (vc_entity v) @ '', member: '' @ debug_str (vc_member v) @ '' })''
      = debug_str (vc_entity w) @ '', member: '' @ debug_str (vc_member w) @ '' })''" by simp
  then have "vc_entity v = vc_entity w" "vc_member v = vc_member w"
    unfolding debug_str_prefix by simp_all
  then show ?thesis by (simp add: ValueCellId.expand)
qed

lemma debug_repr_inject [simp]: "debug_repr m = debug_repr n \<longleftrightarrow> m = n"
proof
  assume eq: "debug_repr m = debug_repr n"
  show "m = n"
  proof (cases m; cases n)
    fix v w assume "m = Value v" "n = Value w"
    with eq debug_value_inject show ?thesis by blast
  next
    fix v w assume "m = Constraint v" "n = Constraint w"
    with eq show ?thesis
      by (auto intro: ConstraintNodeId.expand dest: debug_indexed_inject')
  next
    fix v w assume "m = Realization v" "n = Realization w"
    with eq show ?thesis
      by (auto intro: RealizationNodeId.expand dest: debug_indexed_inject')
  next
    fix v w assume "m = Resolution v" "n = Resolution w"
    with eq show ?thesis
      by (auto intro: ResolutionNodeId.expand dest: debug_indexed_inject')
  next
    fix v w assume "m = Compute v" "n = Compute w"
    with eq show ?thesis
      by (auto intro: ComputeNodeId.expand dest: debug_indexed_inject')
  qed (use eq in simp_all)
qed simp


section \<open>Ordered sets\<close>

text \<open>
  \<open>BTreeSet<DebugOrd>\<close> as the ascending list of its elements: an element whose
  key compares equal to a stored one is not inserted, and \<open>pop_first\<close> takes the
  head.
\<close>

fun bt_insert :: "('a \<Rightarrow> 'k::linorder) \<Rightarrow> 'a \<Rightarrow> 'a list \<Rightarrow> 'a list" where
  "bt_insert key x [] = [x]"
| "bt_insert key x (y # ys) =
     (if key x < key y then x # y # ys
      else if key x = key y then y # ys
      else y # bt_insert key x ys)"

definition bt_collect :: "('a \<Rightarrow> 'k::linorder) \<Rightarrow> 'a list \<Rightarrow> 'a list" where
  "bt_collect key xs = fold (bt_insert key) xs []"

definition ascending :: "('a \<Rightarrow> 'k::linorder) \<Rightarrow> 'a list \<Rightarrow> bool" where
  "ascending key xs \<longleftrightarrow> sorted_wrt (\<lambda>x y. key x < key y) xs"

lemma length_bt_insert: "length (bt_insert key x xs) \<le> Suc (length xs)"
  by (induction xs) auto

lemma bt_insert_set_subset: "set (bt_insert key x xs) \<subseteq> insert x (set xs)"
  by (induction xs) auto

lemma ascending_bt_insert: "ascending key xs \<Longrightarrow> ascending key (bt_insert key x xs)"
  unfolding ascending_def
proof (induction xs)
  case (Cons y ys)
  then show ?case using bt_insert_set_subset [of key x ys] by auto
qed simp

lemma ascending_distinct: "ascending key xs \<Longrightarrow> distinct xs"
  unfolding ascending_def by (induction xs) auto

text \<open>What the clients rely on when keys determine elements.\<close>

locale key_order =
  fixes key :: "'a \<Rightarrow> 'k::linorder"
  assumes key_inject: "key x = key y \<longleftrightarrow> x = y"
begin

lemma set_insert_key [simp]: "set (bt_insert key x xs) = insert x (set xs)"
  by (induction xs) (auto simp: key_inject)

lemma set_collect [simp]: "set (bt_collect key xs) = set xs"
proof -
  have "set (fold (bt_insert key) xs acc) = set xs \<union> set acc" for acc
    by (induction xs arbitrary: acc) auto
  then show ?thesis by (simp add: bt_collect_def)
qed

lemma ascending_collect [simp]: "ascending key (bt_collect key xs)"
proof -
  have "ascending key acc \<Longrightarrow> ascending key (fold (bt_insert key) xs acc)" for acc
    by (induction xs arbitrary: acc) (auto intro: ascending_bt_insert)
  then show ?thesis by (simp add: bt_collect_def ascending_def)
qed

lemma ascending_head: "ascending key (x # xs) \<Longrightarrow> y \<in> set (x # xs) \<Longrightarrow> key x \<le> key y"
  by (auto simp: ascending_def intro: less_imp_le)

lemma ascending_unique:
  "ascending key xs \<Longrightarrow> ascending key ys \<Longrightarrow> set xs = set ys \<Longrightarrow> xs = ys"
proof (induction xs arbitrary: ys)
  case (Cons x xs)
  then obtain y ys' where ys: "ys = y # ys'" by (cases ys) auto
  have "key x \<le> key y" "key y \<le> key x"
    using ascending_head [OF Cons.prems(1), of y] ascending_head [of y ys' x] Cons.prems ys by auto
  then have "x = y" using key_inject by simp
  moreover have "set xs = set ys'"
    using Cons.prems ys \<open>x = y\<close> ascending_distinct [OF Cons.prems(1)] ascending_distinct [OF Cons.prems(2)]
    by auto
  ultimately show ?case using Cons ys by (simp add: ascending_def)
qed simp

end

interpretation debug_ord: key_order debug_repr
  by unfold_locales simp

definition debug_ord_sorted :: "NodeId list \<Rightarrow> NodeId list" where
  "debug_ord_sorted nodes = sort_key debug_repr nodes"

end
