(* ===== verification/Fixpoint.thy ===== *)
theory Fixpoint
  imports Deps Worklist DebugOrder
begin

text \<open>
  The scheduling core of the build and edit paths
  (\<open>reify-eval/src/engine_fixpoint.rs\<close>): Kahn's algorithm over the forward
  traces with a \<open>DebugOrd\<close>-ordered ready set, and the guard that finds the
  constraints whose geometry depends on an auto parameter.  An \<open>expect\<close> on a
  missing key and an in-degree underflow are \<open>None\<close>.
\<close>

section \<open>Scheduler selection\<close>

datatype BuildScheduler = LegacyMultiPass | UnifiedDag

definition from_env_value :: "string option \<Rightarrow> BuildScheduler" where
  "from_env_value value =
     (case map_option (\<lambda>v. to_ascii_lowercase (trim v)) value of
        Some s \<Rightarrow> if s = ''legacy'' then LegacyMultiPass else UnifiedDag
      | None \<Rightarrow> UnifiedDag)"

section \<open>In-degrees and adjacency\<close>

type_synonym in_degrees = "(NodeId, nat) hash_map"
type_synonym adjacency = "(NodeId, NodeId list) hash_map"

text \<open>The unique predecessors of a node that lie in the node set.\<close>

definition in_set_preds :: "traces \<Rightarrow> NodeId hash_set \<Rightarrow> NodeId \<Rightarrow> NodeId hash_set" where
  "in_set_preds traces seed node =
     (case hm_get traces node of
        None \<Rightarrow> []
      | Some tr \<Rightarrow>
          (let from_reads = fold (\<lambda>r preds. if Value r \<in> set seed then hs_insert (Value r) preds else preds)
                 (reads tr) []
           in fold (\<lambda>rr preds. if Realization rr \<in> set seed then hs_insert (Realization rr) preds else preds)
                (realization_reads tr) from_reads))"

definition add_edge :: "NodeId \<Rightarrow> NodeId \<Rightarrow> in_degrees \<times> adjacency \<Rightarrow> (in_degrees \<times> adjacency) option" where
  "add_edge node p s =
     (case hm_get (fst s) node of
        None \<Rightarrow> None
      | Some d \<Rightarrow> Some (hm_insert node (d + 1) (fst s), hm_upsert p [] (\<lambda>v. v @ [node]) (snd s)))"

fun try_fold :: "('x \<Rightarrow> 's \<Rightarrow> 's option) \<Rightarrow> 'x list \<Rightarrow> 's \<Rightarrow> 's option" where
  "try_fold f [] s = Some s"
| "try_fold f (x # xs) s = (case f x s of None \<Rightarrow> None | Some s' \<Rightarrow> try_fold f xs s')"

definition build_edges :: "traces \<Rightarrow> NodeId hash_set \<Rightarrow> (in_degrees \<times> adjacency) option" where
  "build_edges traces seed =
     try_fold (\<lambda>node. try_fold (add_edge node) (in_set_preds traces seed node)) seed
       (map (\<lambda>n. (n, 0)) seed, [])"

section \<open>The worklist\<close>

text \<open>\<open>*d -= 1; if *d == 0 { ready.insert(dep) }\<close>\<close>

definition release :: "NodeId \<Rightarrow> in_degrees \<times> NodeId list \<Rightarrow> (in_degrees \<times> NodeId list) option" where
  "release dep s =
     (case hm_get (fst s) dep of
        None \<Rightarrow> None
      | Some d \<Rightarrow>
          if d = 0 then None
          else Some (hm_insert dep (d - 1) (fst s),
            if d - 1 = 0 then bt_insert debug_repr dep (snd s) else snd s))"

definition positives :: "in_degrees \<Rightarrow> nat" where
  "positives ind = length (filter (\<lambda>(k, d). d > 0) ind)"

lemma positives_decrement:
  "hm_get ind k = Some d \<Longrightarrow> d > 0 \<Longrightarrow>
   positives (hm_insert k (d - 1) ind) + (if d = 1 then 1 else 0) = positives ind"
  unfolding positives_def hm_get_def hm_insert_def
  by (induction ind) (auto split: if_splits)

lemma release_measure:
  "release dep s = Some s' \<Longrightarrow>
   positives (fst s') + length (snd s') \<le> positives (fst s) + length (snd s)"
  using positives_decrement [of "fst s" dep] length_bt_insert [of debug_repr dep "snd s"]
  by (fastforce simp: release_def split: option.splits if_splits)

lemma try_fold_measure:
  assumes "\<And>x s s'. f x s = Some s' \<Longrightarrow> m s' \<le> (m s :: nat)"
  shows "try_fold f xs s = Some s' \<Longrightarrow> m s' \<le> m s"
proof (induction xs arbitrary: s)
  case (Cons x xs)
  then show ?case using assms by (fastforce split: option.splits intro: order_trans)
qed simp

function kahn_loop :: "adjacency \<Rightarrow> in_degrees \<Rightarrow> NodeId list \<Rightarrow> NodeId list \<Rightarrow> NodeId list option" where
  "kahn_loop adj ind [] schedule = Some schedule"
| "kahn_loop adj ind (node # ready) schedule =
     (case try_fold release (case hm_get adj node of None \<Rightarrow> [] | Some deps \<Rightarrow> deps) (ind, ready) of
        None \<Rightarrow> None
      | Some s \<Rightarrow> kahn_loop adj (fst s) (snd s) (schedule @ [node]))"
  by pat_completeness auto
termination
proof (relation "measure (\<lambda>(adj, ind, ready, sch). positives ind + length ready)", goal_cases)
  case (2 adj ind node ready sch s)
  have "positives (fst s) + length (snd s) \<le> positives (fst (ind, ready)) + length (snd (ind, ready))"
    by (rule try_fold_measure [where m = "\<lambda>s. positives (fst s) + length (snd s)" and f = release])
      (use 2 release_measure in blast)+
  then show ?case by simp
qed simp

definition run_unified_pass_seeded :: "traces \<Rightarrow> NodeId hash_set \<Rightarrow> NodeId list option" where
  "run_unified_pass_seeded traces seed =
     (case build_edges traces seed of
        None \<Rightarrow> None
      | Some (ind, adj) \<Rightarrow>
          kahn_loop adj ind
            (bt_collect debug_repr (map fst (filter (\<lambda>(n, d). d = 0) ind))) [])"


section \<open>What the construction of the edges yields\<close>

abbreviation preds_of :: "traces \<Rightarrow> NodeId hash_set \<Rightarrow> NodeId \<Rightarrow> NodeId set" where
  "preds_of traces seed n \<equiv> set (in_set_preds traces seed n)"

definition trace_preds :: "traces \<Rightarrow> NodeId \<Rightarrow> NodeId set" where
  "trace_preds traces n =
     (case hm_get traces n of
        None \<Rightarrow> {} | Some tr \<Rightarrow> Value ` set (reads tr) \<union> Realization ` set (realization_reads tr))"

lemma fold_insert_if:
  "set (fold (\<lambda>r acc. if C r \<in> S then hs_insert (C r) acc else acc) xs acc) = set acc \<union> (C ` set xs \<inter> S)"
  "distinct acc \<Longrightarrow> distinct (fold (\<lambda>r acc. if C r \<in> S then hs_insert (C r) acc else acc) xs acc)"
  by (induction xs arbitrary: acc) auto

lemma preds_of_eq: "preds_of traces seed n = trace_preds traces n \<inter> set seed"
  by (auto simp: in_set_preds_def trace_preds_def Let_def fold_insert_if split: option.splits)

lemma distinct_in_set_preds [simp]: "distinct (in_set_preds traces seed n)"
  by (simp add: in_set_preds_def Let_def fold_insert_if split: option.splits)

definition adj_list :: "adjacency \<Rightarrow> NodeId \<Rightarrow> NodeId list" where
  "adj_list adj p = (case hm_get adj p of None \<Rightarrow> [] | Some deps \<Rightarrow> deps)"

lemma try_fold_add_edge:
  assumes "hm_get ind node = Some d" and "distinct ps" and "hm_wf ind"
  shows "\<exists>ind' adj'. try_fold (add_edge node) ps (ind, adj) = Some (ind', adj') \<and> hm_wf ind'
     \<and> (\<forall>n. hm_get ind' n = (if n = node then Some (d + length ps) else hm_get ind n))
     \<and> (\<forall>p. adj_list adj' p = adj_list adj p @ (if p \<in> set ps then [node] else []))"
  using assms
proof (induction ps arbitrary: ind adj d)
  case (Cons p ps)
  let ?ind = "hm_insert node (d + 1) ind" and ?adj = "hm_upsert p [] (\<lambda>v. v @ [node]) adj"
  have "hm_get ?ind node = Some (d + 1)" "hm_wf ?ind" using Cons.prems by (auto simp: hm_simps intro: hm_inv)
  with Cons.IH [of ?ind "d + 1" ?adj] Cons.prems(2) obtain ind' adj' where
    "try_fold (add_edge node) ps (?ind, ?adj) = Some (ind', adj')" "hm_wf ind'"
    "\<forall>n. hm_get ind' n = (if n = node then Some (d + 1 + length ps) else hm_get ?ind n)"
    "\<forall>q. adj_list adj' q = adj_list ?adj q @ (if q \<in> set ps then [node] else [])" by auto
  moreover have "adj_list ?adj q = adj_list adj q @ (if q = p then [node] else [])" for q
    by (auto simp: adj_list_def hm_simps split: option.splits)
  moreover have "add_edge node p (ind, adj) = Some (?ind, ?adj)" using Cons.prems by (simp add: add_edge_def)
  ultimately show ?case using Cons.prems(2) by (auto simp: hm_simps)
qed auto

lemma try_fold_nodes:
  assumes "\<And>n. n \<in> set xs \<Longrightarrow> hm_get ind n = Some 0" and "distinct xs" and "hm_wf ind"
    and "\<And>n. distinct (ps n)"
  shows "\<exists>ind' adj'. try_fold (\<lambda>node. try_fold (add_edge node) (ps node)) xs (ind, adj) = Some (ind', adj')
     \<and> hm_wf ind' \<and> (\<forall>n. hm_get ind' n = (if n \<in> set xs then Some (length (ps n)) else hm_get ind n))
     \<and> (\<forall>p. adj_list adj' p = adj_list adj p @ filter (\<lambda>n. p \<in> set (ps n)) xs)"
  using assms
proof (induction xs arbitrary: ind adj)
  case (Cons x xs)
  then obtain ind1 adj1 where 1: "try_fold (add_edge x) (ps x) (ind, adj) = Some (ind1, adj1)" "hm_wf ind1"
    "\<And>n. hm_get ind1 n = (if n = x then Some (length (ps x)) else hm_get ind n)"
    "\<And>p. adj_list adj1 p = adj_list adj p @ (if p \<in> set (ps x) then [x] else [])"
    using try_fold_add_edge [of ind x 0 "ps x" adj] by auto
  have "hm_get ind1 n = Some 0" if "n \<in> set xs" for n using that Cons.prems 1(3) by auto
  with Cons.IH [of ind1 adj1] Cons.prems 1(2) obtain ind2 adj2 where
    "try_fold (\<lambda>node. try_fold (add_edge node) (ps node)) xs (ind1, adj1) = Some (ind2, adj2)" "hm_wf ind2"
    "\<forall>n. hm_get ind2 n = (if n \<in> set xs then Some (length (ps n)) else hm_get ind1 n)"
    "\<forall>p. adj_list adj2 p = adj_list adj1 p @ filter (\<lambda>n. p \<in> set (ps n)) xs" by auto
  with 1 show ?case by auto
qed auto

lemma hm_get_zero_map: "hm_get (map (\<lambda>n. (n, 0)) xs) n = (if n \<in> set xs then Some 0 else None)"
  by (induction xs) (auto simp: hm_get_def)

lemma build_edges_ok:
  assumes "distinct seed"
  shows "\<exists>ind adj. build_edges traces seed = Some (ind, adj) \<and> hm_wf ind
     \<and> (\<forall>n. hm_get ind n = (if n \<in> set seed then Some (card (preds_of traces seed n)) else None))
     \<and> (\<forall>p. adj_list adj p = filter (\<lambda>n. p \<in> preds_of traces seed n) seed)"
proof -
  have "hm_wf (map (\<lambda>n. (n, 0 :: nat)) seed)" using assms by (simp add: hm_wf_def comp_def)
  from try_fold_nodes [OF _ assms this, of "in_set_preds traces seed" "[]"]
  show ?thesis by (auto simp: build_edges_def hm_get_zero_map adj_list_def distinct_card)
qed

section \<open>One step of the worklist\<close>

lemma try_fold_release:
  assumes "\<And>n. n \<in> set ds \<Longrightarrow> hm_get ind n = Some (c n) \<and> c n > 0" and "distinct ds" and "ascending debug_repr r"
  shows "\<exists>ind' r'. try_fold release ds (ind, r) = Some (ind', r') \<and> ascending debug_repr r'
     \<and> (\<forall>n. hm_get ind' n = (if n \<in> set ds then Some (c n - 1) else hm_get ind n))
     \<and> set r' = set r \<union> {n \<in> set ds. c n = 1}"
  using assms
proof (induction ds arbitrary: ind r)
  case (Cons x ds)
  let ?ind = "hm_insert x (c x - 1) ind" and ?r = "if c x = 1 then bt_insert debug_repr x r else r"
  have "c x - 1 = 0 \<longleftrightarrow> c x = 1" using Cons.prems(1) [of x] by auto
  then have x: "release x (ind, r) = Some (?ind, ?r)"
    using Cons.prems(1) [of x] unfolding release_def by simp
  have "hm_get ?ind n = Some (c n) \<and> c n > 0" if "n \<in> set ds" for n
    using Cons.prems that by (auto simp: hm_simps)
  moreover have "ascending debug_repr ?r" using Cons.prems(3) by (simp add: ascending_bt_insert)
  ultimately obtain ind' r' where "try_fold release ds (?ind, ?r) = Some (ind', r')" "ascending debug_repr r'"
    "\<forall>n. hm_get ind' n = (if n \<in> set ds then Some (c n - 1) else hm_get ?ind n)"
    "set r' = set ?r \<union> {n \<in> set ds. c n = 1}"
    using Cons.IH [of ?ind ?r] Cons.prems(2) by auto
  then show ?case using x Cons.prems(2) by (auto simp: hm_simps)
qed auto


section \<open>Greedy schedules\<close>

text \<open>
  What a schedule has to be: at each point the node taken is the least, in the
  \<open>DebugOrd\<close> order, of the nodes whose predecessors are all scheduled, and at
  the end no such node is left.
\<close>

definition available :: "NodeId set \<Rightarrow> (NodeId \<Rightarrow> NodeId set) \<Rightarrow> NodeId list \<Rightarrow> NodeId set" where
  "available N P sch = {n \<in> N. n \<notin> set sch \<and> P n \<subseteq> set sch}"

definition greedy_prefix :: "NodeId set \<Rightarrow> (NodeId \<Rightarrow> NodeId set) \<Rightarrow> NodeId list \<Rightarrow> bool" where
  "greedy_prefix N P sch \<longleftrightarrow>
     (\<forall>i < length sch. sch ! i \<in> available N P (take i sch)
        \<and> (\<forall>m \<in> available N P (take i sch). debug_repr (sch ! i) \<le> debug_repr m))"

definition greedy_schedule :: "NodeId set \<Rightarrow> (NodeId \<Rightarrow> NodeId set) \<Rightarrow> NodeId list \<Rightarrow> bool" where
  "greedy_schedule N P sch \<longleftrightarrow> greedy_prefix N P sch \<and> available N P sch = {}"

lemma greedy_prefix_Nil [simp]: "greedy_prefix N P []"
  by (simp add: greedy_prefix_def)

lemma greedy_prefix_snoc:
  "greedy_prefix N P (sch @ [n]) \<longleftrightarrow> greedy_prefix N P sch \<and> n \<in> available N P sch
     \<and> (\<forall>m \<in> available N P sch. debug_repr n \<le> debug_repr m)"
  unfolding greedy_prefix_def
  by (auto simp: nth_append less_Suc_eq all_conj_distrib imp_conjR split: if_splits)

lemma greedy_prefix_sub: "greedy_prefix N P sch \<Longrightarrow> set sch \<subseteq> N"
  by (induction sch rule: rev_induct) (auto simp: greedy_prefix_snoc available_def)

lemma greedy_prefix_distinct: "greedy_prefix N P sch \<Longrightarrow> distinct sch"
  by (induction sch rule: rev_induct) (auto simp: greedy_prefix_snoc available_def)

lemma greedy_prefix_closed: "greedy_prefix N P sch \<Longrightarrow> n \<in> set sch \<Longrightarrow> P n \<subseteq> set sch"
  by (induction sch rule: rev_induct) (auto simp: greedy_prefix_snoc available_def)

lemma greedy_schedule_unique:
  assumes "greedy_schedule N P xs" and "greedy_schedule N P ys"
  shows "xs = ys"
proof -
  have pre: "take i xs = take i ys" if "i \<le> length xs" "i \<le> length ys" for i
    using that
  proof (induction i)
    case (Suc i)
    then have eq: "take i xs = take i ys" by simp
    from Suc have "i < length xs" "i < length ys" by auto
    with assms eq have "debug_repr (xs ! i) \<le> debug_repr (ys ! i)" "debug_repr (ys ! i) \<le> debug_repr (xs ! i)"
      unfolding greedy_schedule_def greedy_prefix_def by metis+
    then have "xs ! i = ys ! i" by (simp add: order_antisym flip: debug_repr_inject)
    with eq \<open>i < length xs\<close> \<open>i < length ys\<close> show ?case by (simp add: take_Suc_conv_app_nth)
  qed simp
  have len: "\<not> length us < length vs"
    if "greedy_schedule N P us" "greedy_schedule N P vs"
      "\<And>i. i \<le> length us \<Longrightarrow> i \<le> length vs \<Longrightarrow> take i us = take i vs" for us vs
  proof
    assume l: "length us < length vs"
    with that(3) [of "length us"] have "us = take (length us) vs" by simp
    moreover have "vs ! length us \<in> available N P (take (length us) vs)"
      using that(2) l unfolding greedy_schedule_def greedy_prefix_def by blast
    ultimately show False using that(1) by (simp add: greedy_schedule_def)
  qed
  have "length xs = length ys"
    using len [OF assms pre] len [OF assms(2,1), of] pre by (metis linorder_neqE_nat)
  with pre [of "length xs"] show ?thesis by simp
qed

section \<open>The worklist computes the greedy schedule\<close>

definition kahn_inv ::
  "NodeId list \<Rightarrow> (NodeId \<Rightarrow> NodeId set) \<Rightarrow> in_degrees \<Rightarrow> NodeId list \<Rightarrow> NodeId list \<Rightarrow> bool" where
  "kahn_inv seed P ind ready sch \<longleftrightarrow>
     (\<forall>n \<in> set seed. hm_get ind n = Some (card (P n - set sch)))
     \<and> ascending debug_repr ready \<and> set ready = available (set seed) P sch
     \<and> greedy_prefix (set seed) P sch"

lemma kahn_step:
  assumes inv: "kahn_inv seed P ind (node # ready) sch" and fin: "\<And>n. finite (P n)"
    and deps: "set deps = {n \<in> set seed. node \<in> P n}" and dist: "distinct deps"
  shows "\<exists>ind' ready'. try_fold release deps (ind, ready) = Some (ind', ready')
     \<and> kahn_inv seed P ind' ready' (sch @ [node])"
proof -
  let ?c = "\<lambda>n. card (P n - set sch)"
  have node: "node \<in> available (set seed) P sch" using inv by (auto simp: kahn_inv_def)
  then have n0: "node \<notin> set sch" "P node \<subseteq> set sch" by (auto simp: available_def)
  have gp: "greedy_prefix (set seed) P sch" using inv by (simp add: kahn_inv_def)
  have dec: "card (P n - set (sch @ [node])) = (if node \<in> P n then ?c n - 1 else ?c n)" for n
  proof -
    have "P n - set (sch @ [node]) = P n - set sch - {node}" by auto
    then show ?thesis using n0(1) fin [of n] by (simp add: card_Diff_singleton_if)
  qed
  have pos: "hm_get ind n = Some (?c n) \<and> ?c n > 0" if "n \<in> set deps" for n
    using that inv n0 fin [of n] by (auto simp: kahn_inv_def deps card_gt_0_iff)
  have asc: "ascending debug_repr ready" using inv by (simp add: kahn_inv_def ascending_def)
  from try_fold_release [OF pos dist asc] obtain ind' ready' where
    r: "try_fold release deps (ind, ready) = Some (ind', ready')" "ascending debug_repr ready'"
    "\<And>n. hm_get ind' n = (if n \<in> set deps then Some (?c n - 1) else hm_get ind n)"
    "set ready' = set ready \<union> {n \<in> set deps. ?c n = 1}" by blast
  have i1: "hm_get ind' n = Some (card (P n - set (sch @ [node])))" if "n \<in> set seed" for n
    using that inv dec [of n] r(3) [of n] by (auto simp: deps kahn_inv_def)
  have rd: "set ready = available (set seed) P sch - {node}"
    using inv ascending_distinct [of debug_repr "node # ready"] by (auto simp: kahn_inv_def)
  have "?c n = 1 \<longleftrightarrow> P n \<subseteq> insert node (set sch)" if "n \<in> set deps" for n
  proof -
    have "node \<in> P n - set sch" using that n0 by (simp add: deps)
    then have "?c n = 1 \<longleftrightarrow> P n - set sch = {node}"
      unfolding One_nat_def card_1_singleton_iff by (metis singletonD)
    with \<open>node \<in> P n - set sch\<close> show ?thesis by auto
  qed
  then have new: "{n \<in> set deps. ?c n = 1} = {n \<in> set seed. node \<in> P n \<and> P n \<subseteq> insert node (set sch)}"
    by (auto simp: deps)
  have i2: "set ready' = available (set seed) P (sch @ [node])"
  proof -
    have cl: "n \<in> insert node (set sch) \<Longrightarrow> node \<notin> P n" for n
      using n0 greedy_prefix_closed [OF gp, of n] by blast
    show ?thesis unfolding r(4) rd new available_def using cl by auto
  qed
  have "debug_repr node \<le> debug_repr m" if "m \<in> available (set seed) P sch" for m
    using inv that debug_ord.ascending_head [of node ready m] by (auto simp: kahn_inv_def)
  then have i3: "greedy_prefix (set seed) P (sch @ [node])" using gp node by (simp add: greedy_prefix_snoc)
  from r(1,2) i1 i2 i3 show ?thesis by (auto simp: kahn_inv_def)
qed

lemma kahn_loop_greedy:
  assumes "kahn_inv seed P ind ready sch" and "\<And>n. finite (P n)" and "distinct seed"
    and "\<And>p. adj_list adj p = filter (\<lambda>n. p \<in> P n) seed"
  shows "\<exists>sch'. kahn_loop adj ind ready sch = Some sch' \<and> greedy_schedule (set seed) P sch'"
  using assms
proof (induction adj ind ready sch rule: kahn_loop.induct)
  case (1 adj ind sch)
  then show ?case by (simp add: kahn_inv_def greedy_schedule_def)
next
  case (2 adj ind node ready sch)
  let ?deps = "case hm_get adj node of None \<Rightarrow> [] | Some deps \<Rightarrow> deps"
  have d: "?deps = filter (\<lambda>n. node \<in> P n) seed" using 2(5) [of node] by (simp add: adj_list_def)
  obtain ind' ready' where s: "try_fold release ?deps (ind, ready) = Some (ind', ready')"
    and i: "kahn_inv seed P ind' ready' (sch @ [node])"
    using kahn_step [OF 2(2,3), of ?deps] 2(4) unfolding d by auto
  from 2(1) [OF s] i 2(3-5) obtain sch' where
    "kahn_loop adj ind' ready' (sch @ [node]) = Some sch'" "greedy_schedule (set seed) P sch'" by auto
  with s show ?case by simp
qed

lemma run_seeded_greedy:
  assumes "distinct seed"
  shows "\<exists>sch. run_unified_pass_seeded traces seed = Some sch
     \<and> greedy_schedule (set seed) (preds_of traces seed) sch"
proof -
  from build_edges_ok [OF assms] obtain ind adj where b: "build_edges traces seed = Some (ind, adj)" "hm_wf ind"
    "\<And>n. hm_get ind n = (if n \<in> set seed then Some (card (preds_of traces seed n)) else None)"
    "\<And>p. adj_list adj p = filter (\<lambda>n. p \<in> preds_of traces seed n) seed" by blast
  have z: "set (map fst (filter (\<lambda>(n, d). d = 0) ind)) = {n. hm_get ind n = Some 0}"
    using b(2) by (force simp: hm_get_eq_in)
  have "kahn_inv seed (preds_of traces seed) ind (bt_collect debug_repr (map fst (filter (\<lambda>(n, d). d = 0) ind))) []"
    using b(3) unfolding kahn_inv_def debug_ord.set_collect z available_def by auto
  from kahn_loop_greedy [OF this _ assms b(4)] show ?thesis
    by (simp add: run_unified_pass_seeded_def b(1))
qed


section \<open>Schedules and cycles\<close>

definition dep_rel :: "NodeId set \<Rightarrow> (NodeId \<Rightarrow> NodeId set) \<Rightarrow> (NodeId \<times> NodeId) set" where
  "dep_rel N P = {(p, n). n \<in> N \<and> p \<in> P n}"

lemma greedy_prefix_topological:
  "greedy_prefix N P sch \<Longrightarrow> i < length sch \<Longrightarrow> P (sch ! i) \<subseteq> set (take i sch)"
  by (auto simp: greedy_prefix_def available_def)

lemma dep_rel_trancl_earlier:
  assumes "(m, n) \<in> (dep_rel N P)\<^sup>+" and "greedy_prefix N P sch"
  shows "i < length sch \<Longrightarrow> n = sch ! i \<Longrightarrow> \<exists>j < i. m = sch ! j"
  using assms(1)
proof (induction arbitrary: i rule: trancl_induct)
  case (base n)
  then have "m \<in> set (take i sch)"
    using greedy_prefix_topological [OF assms(2)] by (auto simp: dep_rel_def)
  with base show ?case by (auto simp: in_set_conv_nth)
next
  case (step y n)
  then have "y \<in> set (take i sch)"
    using greedy_prefix_topological [OF assms(2)] by (auto simp: dep_rel_def)
  then obtain j where "j < i" "y = sch ! j" "j < length sch" by (auto simp: in_set_conv_nth)
  with step.IH [of j] show ?case by (meson less_trans)
qed

text \<open>The nodes on a cycle of the node set or downstream of one.\<close>

definition stranded :: "NodeId set \<Rightarrow> (NodeId \<Rightarrow> NodeId set) \<Rightarrow> NodeId set" where
  "stranded N P = {n. \<exists>m. (m, m) \<in> (dep_rel N P)\<^sup>+ \<and> (m, n) \<in> (dep_rel N P)\<^sup>*}"

lemma scheduled_not_stranded:
  assumes "greedy_prefix N P sch" and "n \<in> set sch"
  shows "n \<notin> stranded N P"
proof
  assume "n \<in> stranded N P"
  then obtain m where m: "(m, m) \<in> (dep_rel N P)\<^sup>+" "(m, n) \<in> (dep_rel N P)\<^sup>*" by (auto simp: stranded_def)
  from m(2) have "m \<in> set sch"
  proof (induction rule: converse_rtrancl_induct)
    case (step y z)
    then show ?case using greedy_prefix_closed [OF assms(1)] by (auto simp: dep_rel_def)
  qed (rule assms(2))
  then obtain i where "i < length sch" "m = sch ! i" by (auto simp: in_set_conv_nth)
  with dep_rel_trancl_earlier [OF m(1) assms(1)] obtain j where "j < i" "sch ! i = sch ! j" by metis
  with greedy_prefix_distinct [OF assms(1)] \<open>i < length sch\<close> show False
    by (auto simp: nth_eq_iff_index_eq)
qed

text \<open>A finite set in which every element has a predecessor contains a cycle.\<close>

lemma predecessor_cycle:
  assumes "finite A" and "n \<in> A" and "\<And>m. m \<in> A \<Longrightarrow> \<exists>p. p \<in> A \<and> (p, m) \<in> E"
  shows "\<exists>m \<in> A. (m, m) \<in> E\<^sup>+"
proof -
  let ?r = "E \<inter> A \<times> A"
  have "\<not> acyclic ?r"
  proof
    assume "acyclic ?r"
    moreover have "finite ?r" using assms(1) by (intro finite_Int disjI2) simp
    ultimately have "wf ?r" by (simp add: finite_acyclic_wf)
    then obtain z where z: "z \<in> A" and min: "\<And>y. (y, z) \<in> ?r \<Longrightarrow> y \<notin> A"
      using wfE_min [OF _ assms(2), of ?r] by blast
    from assms(3) [OF z] obtain p where "p \<in> A" "(p, z) \<in> E" by blast
    with min [of p] z show False by simp
  qed
  then obtain m where m: "(m, m) \<in> ?r\<^sup>+" by (auto simp: acyclic_def)
  have "m \<in> A" using tranclD [OF m] by auto
  moreover have "(m, m) \<in> E\<^sup>+" using m by (rule trancl_mono) simp
  ultimately show ?thesis by blast
qed

lemma residue_pred:
  assumes "greedy_schedule N P sch" and "\<And>n. P n \<subseteq> N" and "m \<in> N - set sch"
  shows "\<exists>p \<in> N - set sch. (p, m) \<in> dep_rel N P"
proof -
  have "m \<notin> available N P sch" using assms(1) by (simp add: greedy_schedule_def)
  with assms(3) obtain p where "p \<in> P m" "p \<notin> set sch" by (auto simp: available_def)
  with assms(2) [of m] assms(3) show ?thesis by (auto simp: dep_rel_def)
qed

lemma residue_stranded:
  assumes "greedy_schedule N P sch" and "finite N" and "\<And>n. P n \<subseteq> N" and "n \<in> N - set sch"
  shows "n \<in> stranded N P"
proof -
  let ?A = "{m \<in> N - set sch. (m, n) \<in> (dep_rel N P)\<^sup>*}"
  have "\<exists>m \<in> ?A. (m, m) \<in> (dep_rel N P)\<^sup>+"
  proof (rule predecessor_cycle)
    show "finite ?A" using assms(2) by simp
    show "n \<in> ?A" using assms(4) by simp
    fix m assume "m \<in> ?A"
    then have "m \<in> N - set sch" and r: "(m, n) \<in> (dep_rel N P)\<^sup>*" by auto
    from residue_pred [OF assms(1,3) this(1)] obtain p where "p \<in> N - set sch" "(p, m) \<in> dep_rel N P" ..
    moreover from this(2) r have "(p, n) \<in> (dep_rel N P)\<^sup>*" by (rule converse_rtrancl_into_rtrancl)
    ultimately show "\<exists>p. p \<in> ?A \<and> (p, m) \<in> dep_rel N P" by blast
  qed
  then show ?thesis by (auto simp: stranded_def)
qed

lemma greedy_schedule_set:
  assumes "greedy_schedule N P sch" and "finite N" and "\<And>n. P n \<subseteq> N"
  shows "set sch = N - stranded N P"
  using assms(1) greedy_prefix_sub [of N P sch] scheduled_not_stranded [of N P sch]
    residue_stranded [OF assms] by (auto simp: greedy_schedule_def)

text \<open>
  C1.  Scheduling never panics and yields each schedulable node once: the nodes
  of the seed that lie neither on a dependency cycle within the seed nor
  downstream of one.  Every dependency of a scheduled node that is in the seed
  comes earlier in the schedule.
\<close>

theorem run_unified_pass_seeded_topological:
  assumes "distinct seed"
  shows "\<exists>sch. run_unified_pass_seeded traces seed = Some sch \<and> distinct sch
     \<and> set sch = set seed - stranded (set seed) (\<lambda>n. trace_preds traces n \<inter> set seed)
     \<and> (\<forall>i < length sch. trace_preds traces (sch ! i) \<inter> set seed \<subseteq> set (take i sch))"
proof -
  let ?P = "\<lambda>n. trace_preds traces n \<inter> set seed"
  from run_seeded_greedy [OF assms] obtain sch where
    r: "run_unified_pass_seeded traces seed = Some sch" "greedy_schedule (set seed) ?P sch"
    unfolding preds_of_eq by blast
  then have "set sch = set seed - stranded (set seed) ?P" by (intro greedy_schedule_set) auto
  moreover have "distinct sch" and "\<And>i. i < length sch \<Longrightarrow> ?P (sch ! i) \<subseteq> set (take i sch)"
    using r(2) greedy_prefix_distinct greedy_prefix_topological unfolding greedy_schedule_def by blast+
  ultimately show ?thesis using r(1) by blast
qed

text \<open>
  C7.  The schedule is a function of the traces as a map and the seed as a set:
  no iteration order of a hash container leaks into it.
\<close>

theorem run_unified_pass_seeded_deterministic:
  assumes "distinct seed" and "distinct seed'" and "set seed = set seed'"
    and "hm_get traces = hm_get traces'"
  shows "run_unified_pass_seeded traces seed = run_unified_pass_seeded traces' seed'"
proof -
  have "trace_preds traces = trace_preds traces'" using assms(4) by (simp add: trace_preds_def fun_eq_iff)
  then have "preds_of traces seed = preds_of traces' seed'"
    using assms(3) by (simp add: preds_of_eq fun_eq_iff)
  with run_seeded_greedy [OF assms(1), of traces] run_seeded_greedy [OF assms(2), of traces'] assms(3)
  show ?thesis using greedy_schedule_unique by metis
qed


section \<open>The full pass: schedule and residue\<close>

text \<open>
  The build path runs the same worklist over all trace keys and keeps what it
  could not schedule.
\<close>

definition unified_plan :: "traces \<Rightarrow> (NodeId list \<times> NodeId hash_set) option" where
  "unified_plan traces =
     (let node_set = hm_keys traces in
      case run_unified_pass_seeded traces node_set of
        None \<Rightarrow> None
      | Some schedule \<Rightarrow> Some (schedule, filter (\<lambda>n. n \<notin> set schedule) node_set))"

text \<open>
  The build pass always returns a plan that partitions the traced nodes:
  the schedule is topological, and the residue is exactly the nodes on a
  dependency cycle or downstream of one, so it is empty iff the dependencies
  are acyclic.
\<close>

theorem unified_plan_partition:
  assumes "hm_wf traces"
  shows "\<exists>sch res. unified_plan traces = Some (sch, res)
     \<and> set sch \<union> set res = set (hm_keys traces) \<and> set sch \<inter> set res = {} \<and> distinct sch \<and> distinct res
     \<and> set res = set (hm_keys traces) \<inter> stranded (set (hm_keys traces)) (\<lambda>n. trace_preds traces n \<inter> set (hm_keys traces))
     \<and> (res = [] \<longleftrightarrow> acyclic (dep_rel (set (hm_keys traces)) (\<lambda>n. trace_preds traces n \<inter> set (hm_keys traces))))"
proof -
  let ?N = "set (hm_keys traces)" and ?P = "\<lambda>n. trace_preds traces n \<inter> set (hm_keys traces)"
  have d: "distinct (hm_keys traces)" using assms by (simp add: hm_wf_def hm_keys_def)
  from run_seeded_greedy [OF d, of traces] obtain sch where
    r: "run_unified_pass_seeded traces (hm_keys traces) = Some sch" "greedy_schedule ?N ?P sch"
    unfolding preds_of_eq by blast
  let ?res = "filter (\<lambda>n. n \<notin> set sch) (hm_keys traces)"
  have s: "set sch = ?N - stranded ?N ?P" using r(2) by (intro greedy_schedule_set) auto
  have "distinct sch" using r(2) greedy_prefix_distinct by (auto simp: greedy_schedule_def)
  moreover have "?res = [] \<longleftrightarrow> acyclic (dep_rel ?N ?P)"
  proof -
    have "?res = [] \<longleftrightarrow> ?N \<inter> stranded ?N ?P = {}" using s by (auto simp: filter_empty_conv)
    also have "\<dots> \<longleftrightarrow> acyclic (dep_rel ?N ?P)"
    proof
      assume e: "?N \<inter> stranded ?N ?P = {}"
      show "acyclic (dep_rel ?N ?P)"
      proof (rule acyclicI, intro allI notI)
        fix x assume c: "(x, x) \<in> (dep_rel ?N ?P)\<^sup>+"
        then have "x \<in> ?N" by (induction rule: trancl_induct) (auto simp: dep_rel_def)
        with c e show False by (auto simp: stranded_def)
      qed
    qed (auto simp: acyclic_def stranded_def)
    finally show ?thesis .
  qed
  ultimately show ?thesis
    using r(1) s d by (auto simp: unified_plan_def Let_def)
qed

section \<open>Constraints on auto-dependent geometry\<close>

definition is_auto_cell :: "('v, 't) EvaluationGraph \<Rightarrow> ValueCellId \<Rightarrow> bool" where
  "is_auto_cell graph c = (case hm_get (value_cells graph) c of None \<Rightarrow> False | Some n \<Rightarrow> is_auto (vcn_kind n))"

record auto_state =
  readers :: "(RealizationNodeId, RealizationNodeId list) hash_map"
  reaches :: "RealizationNodeId hash_set"
  auto_stack :: "RealizationNodeId list"

text \<open>\<open>if reaches.insert(r) { stack.push(r) }\<close>, with the top of the stack first\<close>

definition mark_reaching :: "RealizationNodeId \<Rightarrow> auto_state \<Rightarrow> auto_state" where
  "mark_reaching r s =
     (if r \<in> set (reaches s) then s
      else s\<lparr>reaches := hs_insert r (reaches s), auto_stack := r # auto_stack s\<rparr>)"

definition scan_trace :: "('v, 't) EvaluationGraph \<Rightarrow> NodeId \<times> DependencyTrace \<Rightarrow> auto_state \<Rightarrow> auto_state" where
  "scan_trace graph nt s =
     (case nt of
        (Realization r, tr) \<Rightarrow>
          (let s = (if list_ex (is_auto_cell graph) (reads tr) then mark_reaching r s else s)
           in s\<lparr>readers := fold (\<lambda>rr. hm_upsert rr [] (\<lambda>v. v @ [r])) (realization_reads tr) (readers s)\<rparr>)
      | _ \<Rightarrow> s)"

definition reader_list :: "auto_state \<Rightarrow> RealizationNodeId \<Rightarrow> RealizationNodeId list" where
  "reader_list s r = (case hm_get (readers s) r of None \<Rightarrow> [] | Some rs \<Rightarrow> rs)"

definition reader_targets :: "auto_state \<Rightarrow> RealizationNodeId set" where
  "reader_targets s = (\<Union>(k, rs) \<in> set (readers s). set rs)"

lemma finite_reader_targets [simp]: "finite (reader_targets s)"
  by (auto simp: reader_targets_def)

lemma reader_list_targets: "set (reader_list s r) \<subseteq> reader_targets s"
  unfolding reader_targets_def reader_list_def
  by (cases "hm_get (readers s) r") (fastforce dest: hm_get_in)+

lemma mark_reaching_potential:
  "finite T \<Longrightarrow> r \<in> T \<Longrightarrow>
   potential T (reaches (mark_reaching r s)) (length (auto_stack (mark_reaching r s)))
     \<le> potential T (reaches s) (length (auto_stack s))"
  by (auto simp: mark_reaching_def intro: potential_mark_le)

lemma mark_reaching_readers [simp]:
  "readers (mark_reaching r s) = readers s" "readers (fold mark_reaching rs s) = readers s"
  by (simp add: mark_reaching_def) (induction rs arbitrary: s, simp_all add: mark_reaching_def)

function auto_loop :: "auto_state \<Rightarrow> auto_state" where
  "auto_loop s =
     (case auto_stack s of
        [] \<Rightarrow> s
      | r # rest \<Rightarrow> auto_loop (fold mark_reaching (reader_list s r) (s\<lparr>auto_stack := rest\<rparr>)))"
  by pat_completeness auto
termination
proof (relation "measure (\<lambda>s. potential (reader_targets s) (reaches s) (length (auto_stack s)))", goal_cases)
  case (2 s r rest)
  let ?f = "\<lambda>t. potential (reader_targets s) (reaches t) (length (auto_stack t))"
  have "?f (fold mark_reaching rs t) \<le> ?f t" if "set rs \<subseteq> reader_targets s" for rs t
    using that
  proof (induction rs arbitrary: t)
    case (Cons x rs)
    then show ?case
      using mark_reaching_potential [of "reader_targets s" x t] by (auto intro: order_trans)
  qed simp
  from this [OF reader_list_targets, of r "s\<lparr>auto_stack := rest\<rparr>"] 2 show ?case
    by (simp add: reader_targets_def potential_def)
qed simp

declare auto_loop.simps [simp del]

definition realizations_reaching_auto ::
  "('v, 't) EvaluationGraph \<Rightarrow> traces \<Rightarrow> RealizationNodeId hash_set" where
  "realizations_reaching_auto graph traces =
     reaches (auto_loop (fold (scan_trace graph) traces \<lparr>readers = [], reaches = [], auto_stack = []\<rparr>))"

definition constraints_reaching_auto ::
  "('v, 't) EvaluationGraph \<Rightarrow> traces \<Rightarrow> ConstraintNodeId hash_set" where
  "constraints_reaching_auto graph traces =
     (let reaches_auto = realizations_reaching_auto graph traces
      in hs_extend (List.map_filter (\<lambda>nt. case nt of
             (Constraint c, tr) \<Rightarrow>
               if list_ex (\<lambda>r. r \<in> set reaches_auto) (realization_reads tr) then Some c else None
           | _ \<Rightarrow> None) traces) [])"

text \<open>\<open>unresolved_diagnostics\<close>: the messages of the declined constraints, in \<open>DebugOrd\<close> order.\<close>

definition unresolved_diagnostics :: "('v, 't) EvaluationGraph \<Rightarrow> traces \<Rightarrow> string list" where
  "unresolved_diagnostics graph traces =
     map (\<lambda>c. ''unresolved constraint: '' @ describe c @
            '' transitively depends on auto parameter(s) through geometry-backed inputs'')
       (debug_ord_sorted (map Constraint (constraints_reaching_auto graph traces)))"


section \<open>The guard is a reachability test\<close>

definition reads_realization :: "traces \<Rightarrow> (RealizationNodeId \<times> RealizationNodeId) set" where
  "reads_realization traces =
     {(r, rr). \<exists>tr. (Realization r, tr) \<in> set traces \<and> rr \<in> set (realization_reads tr)}"

definition reads_auto :: "('v, 't) EvaluationGraph \<Rightarrow> traces \<Rightarrow> RealizationNodeId set" where
  "reads_auto graph traces =
     {r. \<exists>tr. (Realization r, tr) \<in> set traces \<and> (\<exists>c \<in> set (reads tr). is_auto_cell graph c)}"

lemma mark_reaching_sets:
  "set (reaches (mark_reaching r s)) = insert r (set (reaches s))"
  "set (auto_stack s) = set (reaches s) \<Longrightarrow> set (auto_stack (mark_reaching r s)) = insert r (set (reaches s))"
  by (auto simp: mark_reaching_def)

lemma reader_list_upserts:
  "set (case hm_get (fold (\<lambda>rr. hm_upsert rr [] (\<lambda>v. v @ [r])) rrs m) x of None \<Rightarrow> [] | Some rs \<Rightarrow> rs)
     = set (case hm_get m x of None \<Rightarrow> [] | Some rs \<Rightarrow> rs) \<union> (if x \<in> set rrs then {r} else {})"
  by (induction rrs arbitrary: m) (auto simp: hm_simps split: option.splits)

lemma reads_single:
  "reads_realization [(Realization r, tr)] = {r} \<times> set (realization_reads tr)"
  "reads_auto g [(Realization r, tr)] = (if list_ex (is_auto_cell g) (reads tr) then {r} else {})"
  "\<nexists>r. n = Realization r \<Longrightarrow> reads_realization [(n, tr)] = {}"
  "\<nexists>r. n = Realization r \<Longrightarrow> reads_auto g [(n, tr)] = {}"
  by (auto simp: reads_realization_def reads_auto_def list_ex_iff)

lemma converse_times_Image: "({r} \<times> A)\<inverse> `` {x} = (if x \<in> A then {r} else {})"
  by auto

lemma reader_list_readers [simp]:
  "reader_list (s\<lparr>readers := m\<rparr>) x = (case hm_get m x of None \<Rightarrow> [] | Some rs \<Rightarrow> rs)"
  by (simp add: reader_list_def)

lemma scan_trace_sets:
  assumes "set (auto_stack s) = set (reaches s)"
  shows "set (reader_list (scan_trace g nt s) x) = set (reader_list s x) \<union> (reads_realization [nt])\<inverse> `` {x}
    \<and> set (reaches (scan_trace g nt s)) = set (reaches s) \<union> reads_auto g [nt]
    \<and> set (auto_stack (scan_trace g nt s)) = set (reaches (scan_trace g nt s))"
proof (cases nt)
  case (Pair n tr)
  show ?thesis
  proof (cases "\<exists>r. n = Realization r")
    case True
    then obtain r where n: "n = Realization r" by blast
    define s' where "s' = (if list_ex (is_auto_cell g) (reads tr) then mark_reaching r s else s)"
    have s': "readers s' = readers s" "set (reaches s') = set (reaches s) \<union> reads_auto g [(n, tr)]"
      "set (auto_stack s') = set (reaches s')"
      using assms by (simp_all add: s'_def n reads_single mark_reaching_sets)
    have sc: "scan_trace g nt s
        = s'\<lparr>readers := fold (\<lambda>rr. hm_upsert rr [] (\<lambda>v. v @ [r])) (realization_reads tr) (readers s')\<rparr>"
      by (simp add: scan_trace_def Pair n s'_def Let_def)
    have "set (reader_list (scan_trace g nt s) x) = set (reader_list s x) \<union> (reads_realization [nt])\<inverse> `` {x}"
      unfolding sc reader_list_readers reader_list_upserts s'(1)
      by (simp only: reader_list_def Pair n reads_single converse_times_Image)
    moreover have "set (reaches (scan_trace g nt s)) = set (reaches s) \<union> reads_auto g [nt]"
      "set (auto_stack (scan_trace g nt s)) = set (reaches (scan_trace g nt s))"
      unfolding sc using s'(2,3) by (simp_all add: Pair)
    ultimately show ?thesis by blast
  next
    case False
    then have "scan_trace g nt s = s" by (cases n) (auto simp: scan_trace_def Pair)
    with False assms show ?thesis by (simp add: Pair reads_single)
  qed
qed

lemma fold_scan_sets:
  assumes "set (auto_stack s) = set (reaches s)"
  shows "set (reader_list (fold (scan_trace g) ts s) x) = set (reader_list s x) \<union> (reads_realization ts)\<inverse> `` {x}
    \<and> set (reaches (fold (scan_trace g) ts s)) = set (reaches s) \<union> reads_auto g ts
    \<and> set (auto_stack (fold (scan_trace g) ts s)) = set (reaches (fold (scan_trace g) ts s))"
  using assms
proof (induction ts arbitrary: s)
  case Nil
  then show ?case by (simp add: reads_realization_def reads_auto_def)
next
  case (Cons t ts)
  have "reads_realization (t # ts) = reads_realization [t] \<union> reads_realization ts"
    and "reads_auto g (t # ts) = reads_auto g [t] \<union> reads_auto g ts"
    by (auto simp: reads_realization_def reads_auto_def)
  with Cons.IH [of "scan_trace g t s"] scan_trace_sets [OF Cons.prems, of g t] show ?case by auto
qed

definition reach_inv :: "(RealizationNodeId \<times> RealizationNodeId) set \<Rightarrow> RealizationNodeId set \<Rightarrow> auto_state \<Rightarrow> bool" where
  "reach_inv E R s \<longleftrightarrow> R \<subseteq> set (reaches s) \<and> set (reaches s) \<subseteq> E\<^sup>* `` R
     \<and> (\<forall>x \<in> set (reaches s). x \<notin> set (auto_stack s) \<longrightarrow> E `` {x} \<subseteq> set (reaches s))"

lemma fold_mark_reaching_sets:
  "set (reaches (fold mark_reaching rs s)) = set rs \<union> set (reaches s)"
  "set (auto_stack (fold mark_reaching rs s)) = set (auto_stack s) \<union> (set rs - set (reaches s))"
proof -
  show "set (reaches (fold mark_reaching rs s)) = set rs \<union> set (reaches s)"
    by (induction rs arbitrary: s) (auto simp: mark_reaching_sets)
  show "set (auto_stack (fold mark_reaching rs s)) = set (auto_stack s) \<union> (set rs - set (reaches s))"
    by (induction rs arbitrary: s) (auto simp: mark_reaching_def)
qed

lemma auto_loop_inv:
  assumes "reach_inv E R s" and "\<And>r. set (reader_list s r) = E `` {r}" and "set (auto_stack s) \<subseteq> set (reaches s)"
  shows "set (reaches (auto_loop s)) = E\<^sup>* `` R"
  using assms
proof (induction s rule: auto_loop.induct)
  case (1 s)
  show ?case
  proof (cases "auto_stack s")
    case Nil
    with 1(2) have "R \<subseteq> set (reaches s)" "set (reaches s) \<subseteq> E\<^sup>* `` R" "E `` set (reaches s) \<subseteq> set (reaches s)"
      by (auto simp: reach_inv_def)
    then have "set (reaches s) = E\<^sup>* `` R" using rtrancl_Image_least [of R "set (reaches s)" E] by blast
    with Nil show ?thesis by (simp add: auto_loop.simps [of s])
  next
    case (Cons r rest)
    let ?s = "fold mark_reaching (reader_list s r) (s\<lparr>auto_stack := rest\<rparr>)"
    have r: "r \<in> set (reaches s)" using 1(4) Cons by simp
    have sets: "set (reaches ?s) = E `` {r} \<union> set (reaches s)"
      "set (auto_stack ?s) = set rest \<union> (E `` {r} - set (reaches s))"
      by (simp_all add: fold_mark_reaching_sets 1(3))
    have "E `` {r} \<subseteq> E\<^sup>* `` R"
      using 1(2) r unfolding reach_inv_def by (blast intro: rtrancl_into_rtrancl)
    then have inv: "reach_inv E R ?s"
      using 1(2) Cons unfolding reach_inv_def sets by auto
    have "set (reader_list ?s x) = E `` {x}" for x
      using 1(3) [of x] by (simp add: reader_list_def)
    moreover have "set (auto_stack ?s) \<subseteq> set (reaches ?s)" unfolding sets using 1(4) Cons by auto
    ultimately have "set (reaches (auto_loop ?s)) = E\<^sup>* `` R" by (intro 1(1) [OF Cons inv])
    then show ?thesis using Cons by (simp add: auto_loop.simps [of s])
  qed
qed

lemma realizations_reaching_auto_set:
  "set (realizations_reaching_auto g traces) = ((reads_realization traces)\<inverse>)\<^sup>* `` reads_auto g traces"
proof -
  let ?s = "fold (scan_trace g) traces \<lparr>readers = [], reaches = [], auto_stack = []\<rparr>"
  have 0: "set (reader_list ?s x) = (reads_realization traces)\<inverse> `` {x}"
    "set (reaches ?s) = reads_auto g traces" "set (auto_stack ?s) = set (reaches ?s)" for x
    using fold_scan_sets [of "\<lparr>readers = [], reaches = [], auto_stack = []\<rparr>" g traces x]
    by (simp_all add: reader_list_def)
  then have "reach_inv ((reads_realization traces)\<inverse>) (reads_auto g traces) ?s"
    by (auto simp: reach_inv_def)
  then show ?thesis
    unfolding realizations_reaching_auto_def by (intro auto_loop_inv) (auto simp: 0)
qed

lemma in_map_filter: "y \<in> set (List.map_filter f xs) \<longleftrightarrow> (\<exists>x \<in> set xs. f x = Some y)"
  by (induction xs) (auto simp: map_filter_simps split: option.splits)

lemma declined_iff:
  "(case nt of (Constraint c, tr) \<Rightarrow> if Q tr then Some c else None | _ \<Rightarrow> None) = Some d \<longleftrightarrow>
     (\<exists>tr. nt = (Constraint d, tr) \<and> Q tr)"
  by (cases nt; cases "fst nt") auto

text \<open>
  The guard declines exactly the constraints one of whose backing
  realizations reaches, over realization reads, a realization that directly
  reads an auto cell.
\<close>

theorem constraints_reaching_auto_reachable:
  "c \<in> set (constraints_reaching_auto g traces) \<longleftrightarrow>
     (\<exists>tr r r'. (Constraint c, tr) \<in> set traces \<and> r \<in> set (realization_reads tr)
        \<and> (r, r') \<in> (reads_realization traces)\<^sup>* \<and> r' \<in> reads_auto g traces)"
proof -
  have "c \<in> set (constraints_reaching_auto g traces) \<longleftrightarrow>
      (\<exists>tr. (Constraint c, tr) \<in> set traces
         \<and> (\<exists>r \<in> set (realization_reads tr). r \<in> set (realizations_reaching_auto g traces)))"
    by (simp add: constraints_reaching_auto_def Let_def in_map_filter list_ex_iff declined_iff Bex_def)
  also have "\<dots> \<longleftrightarrow> (\<exists>tr r r'. (Constraint c, tr) \<in> set traces \<and> r \<in> set (realization_reads tr)
        \<and> (r, r') \<in> (reads_realization traces)\<^sup>* \<and> r' \<in> reads_auto g traces)"
    unfolding realizations_reaching_auto_set rtrancl_converse by blast
  finally show ?thesis .
qed


section \<open>Instances\<close>

theorem run_unified_pass_seeded_topological_witness:
  "\<exists>sch. run_unified_pass_seeded (build_trace_map demo_graph)
       [Value (demo_cell ''h''), Value (demo_cell ''w'')] = Some sch \<and> distinct sch"
proof -
  have "distinct [Value (demo_cell ''h''), Value (demo_cell ''w'')]" by (simp add: demo_cell_def)
  from run_unified_pass_seeded_topological [OF this, of "build_trace_map demo_graph"] show ?thesis by blast
qed

theorem run_unified_pass_seeded_deterministic_witness:
  "run_unified_pass_seeded (build_trace_map demo_graph) [Value (demo_cell ''h''), Value (demo_cell ''w'')]
   = run_unified_pass_seeded (build_trace_map demo_graph) [Value (demo_cell ''w''), Value (demo_cell ''h'')]"
  by (rule run_unified_pass_seeded_deterministic) (auto simp: demo_cell_def)

theorem unified_plan_partition_witness:
  "\<exists>sch res. unified_plan (build_trace_map demo_graph) = Some (sch, res) \<and> set sch \<inter> set res = {}"
proof -
  have "hm_wf (build_trace_map demo_graph)" by code_simp
  from unified_plan_partition [OF this] show ?thesis by blast
qed

end
