(* ===== verification/EvalSet.thy ===== *)
theory EvalSet
  imports Fixpoint Demand DirtyCone
begin

text \<open>
  The evaluation set of an edit and the completeness check of an execution order
  (\<open>reify-eval/src/dirty.rs\<close>): the demanded part of the dirty cone in
  scheduling order, and the test that an order of realizations is a linear
  extension of the realization edges.
\<close>

section \<open>Evaluation set\<close>

definition topological_sort :: "NodeId hash_set \<Rightarrow> traces \<Rightarrow> NodeId list option" where
  "topological_sort nodes traces = run_unified_pass_seeded traces nodes"

definition compute_eval_set :: "NodeId hash_set \<Rightarrow> DemandRegistry \<Rightarrow> traces \<Rightarrow> NodeId list option" where
  "compute_eval_set dirty demand traces = topological_sort (filter (is_demanded demand) dirty) traces"

section \<open>Checking an execution order\<close>

datatype DagViolation =
    MissingProducer RealizationNodeId NodeId
  | BackwardEdge RealizationNodeId RealizationNodeId usize usize

text \<open>The position map; a repeated realization keeps its last index.\<close>

definition exec_positions :: "RealizationNodeId list \<Rightarrow> (RealizationNodeId, usize) hash_map" where
  "exec_positions exec_order = fold (\<lambda>p. hm_insert (fst p) (snd p)) (zip exec_order [0..<length exec_order]) []"

definition check_producer ::
  "traces \<Rightarrow> (RealizationNodeId, usize) hash_map \<Rightarrow> NodeId \<Rightarrow> RealizationNodeId \<Rightarrow> DagViolation option" where
  "check_producer traces pos node producer =
     (case hm_get pos producer of
        None \<Rightarrow>
          if hm_contains traces (Realization producer) then Some (MissingProducer producer node) else None
      | Some p_pos \<Rightarrow>
          (case node of
             Realization consumer \<Rightarrow>
               (case hm_get pos consumer of
                  Some c_pos \<Rightarrow>
                    if p_pos \<ge> c_pos then Some (BackwardEdge producer consumer p_pos c_pos) else None
                | None \<Rightarrow> None)
           | _ \<Rightarrow> None))"

fun first_violation :: "('x \<Rightarrow> 'e option) \<Rightarrow> 'x list \<Rightarrow> 'e option" where
  "first_violation f [] = None"
| "first_violation f (x # xs) = (case f x of Some e \<Rightarrow> Some e | None \<Rightarrow> first_violation f xs)"

definition check_dag_complete :: "traces \<Rightarrow> RealizationNodeId list \<Rightarrow> DagViolation + unit" where
  "check_dag_complete traces exec_order =
     (let pos = exec_positions exec_order in
      case first_violation (\<lambda>(node, trace).
          first_violation (check_producer traces pos node) (realization_reads trace)) traces of
        Some v \<Rightarrow> Inl v
      | None \<Rightarrow> Inr ())"

section \<open>What the check decides\<close>

lemma first_violation_None: "first_violation f xs = None \<longleftrightarrow> (\<forall>x \<in> set xs. f x = None)"
  by (induction xs) (auto split: option.splits)

lemma exec_positions_get:
  assumes "distinct exec_order"
  shows "hm_get (exec_positions exec_order) r = Some i \<longleftrightarrow> i < length exec_order \<and> exec_order ! i = r"
proof -
  have "map_of (rev (zip exec_order [0..<length exec_order])) r = Some i
      \<longleftrightarrow> (r, i) \<in> set (zip exec_order [0..<length exec_order])"
    using assms by (subst map_of_eq_Some_iff) (simp_all flip: rev_map)
  also have "\<dots> \<longleftrightarrow> i < length exec_order \<and> exec_order ! i = r"
    by (auto simp: set_zip)
  finally show ?thesis
    unfolding exec_positions_def hm.get_fold_ins by (simp split: option.split) auto
qed

lemma exec_positions_None:
  assumes "distinct exec_order"
  shows "hm_get (exec_positions exec_order) r = None \<longleftrightarrow> r \<notin> set exec_order"
  using exec_positions_get [OF assms, of r] by (auto simp: in_set_conv_nth not_Some_eq [symmetric] simp del: not_Some_eq)

text \<open>An order of realizations that extends the realization edges of the traces.\<close>

definition linear_extension :: "traces \<Rightarrow> RealizationNodeId list \<Rightarrow> bool" where
  "linear_extension traces exec_order \<longleftrightarrow>
     (\<forall>(node, tr) \<in> set traces. \<forall>p \<in> set (realization_reads tr).
        (hm_contains traces (Realization p) \<longrightarrow> p \<in> set exec_order)
        \<and> (\<forall>c i j. node = Realization c \<longrightarrow> i < length exec_order \<longrightarrow> j < length exec_order \<longrightarrow>
             exec_order ! i = p \<longrightarrow> exec_order ! j = c \<longrightarrow> i < j))"

lemma check_producer_None:
  assumes "distinct exec_order"
  shows "check_producer traces (exec_positions exec_order) node p = None \<longleftrightarrow>
     (hm_contains traces (Realization p) \<longrightarrow> p \<in> set exec_order)
     \<and> (\<forall>c i j. node = Realization c \<longrightarrow> i < length exec_order \<longrightarrow> j < length exec_order \<longrightarrow>
          exec_order ! i = p \<longrightarrow> exec_order ! j = c \<longrightarrow> i < j)"
proof (cases "hm_get (exec_positions exec_order) p")
  case None
  then have "p \<notin> set exec_order" using exec_positions_None [OF assms] by blast
  with None show ?thesis by (auto simp: check_producer_def)
next
  case (Some i)
  then have i: "i < length exec_order" "exec_order ! i = p" using exec_positions_get [OF assms] by blast+
  then have "p \<in> set exec_order" by auto
  show ?thesis
  proof (cases "\<exists>c j. node = Realization c \<and> hm_get (exec_positions exec_order) c = Some j")
    case True
    then obtain c j where cj: "node = Realization c" "hm_get (exec_positions exec_order) c = Some j" by blast
    then have j: "j < length exec_order" "exec_order ! j = c" using exec_positions_get [OF assms] by blast+
    have "check_producer traces (exec_positions exec_order) node p = None \<longleftrightarrow> i < j"
      using Some cj by (auto simp: check_producer_def)
    also have "\<dots> \<longleftrightarrow> (\<forall>i' j'. i' < length exec_order \<longrightarrow> j' < length exec_order \<longrightarrow>
        exec_order ! i' = p \<longrightarrow> exec_order ! j' = c \<longrightarrow> i' < j')"
      using i j assms by (metis nth_eq_iff_index_eq)
    finally show ?thesis using \<open>p \<in> set exec_order\<close> cj(1) by auto
  next
    case False
    then have "check_producer traces (exec_positions exec_order) node p = None"
      using Some by (auto simp: check_producer_def split: NodeId.splits option.splits)
    moreover have "exec_order ! j \<noteq> c" if "node = Realization c" "j < length exec_order" for c j
      using False that exec_positions_get [OF assms] by blast
    ultimately show ?thesis using \<open>p \<in> set exec_order\<close> by auto
  qed
qed

lemma check_dag_complete_iff:
  assumes "distinct exec_order"
  shows "check_dag_complete traces exec_order = Inr () \<longleftrightarrow> linear_extension traces exec_order"
proof -
  have "(case x of Some v \<Rightarrow> Inl v | None \<Rightarrow> Inr ()) = Inr () \<longleftrightarrow> x = None" for x :: "DagViolation option"
    by (cases x) auto
  then show ?thesis
    unfolding check_dag_complete_def Let_def linear_extension_def
    by (simp add: first_violation_None check_producer_None [OF assms] case_prod_beta)
qed


text \<open>The realizations of a schedule, in its order.\<close>

fun as_realization :: "NodeId \<Rightarrow> RealizationNodeId option" where
  "as_realization (Realization r) = Some r"
| "as_realization _ = None"

definition realization_order :: "NodeId list \<Rightarrow> RealizationNodeId list" where
  "realization_order sch = List.map_filter as_realization sch"

lemma as_realization_Some: "as_realization n = Some r \<longleftrightarrow> n = Realization r"
  by (cases n) auto

lemma realization_order_simps [simp]:
  "realization_order [] = []"
  "realization_order (xs @ ys) = realization_order xs @ realization_order ys"
  "realization_order (Realization r # xs) = r # realization_order xs"
  by (simp_all add: realization_order_def map_filter_def)

lemma set_realization_order: "r \<in> set (realization_order sch) \<longleftrightarrow> Realization r \<in> set sch"
  by (auto simp: realization_order_def in_map_filter as_realization_Some)

lemma distinct_realization_order: "distinct sch \<Longrightarrow> distinct (realization_order sch)"
proof (induction sch)
  case (Cons n sch)
  then show ?case
    using set_realization_order [of _ sch]
    by (cases n) (auto simp: realization_order_def map_filter_simps)
qed simp

lemma realization_order_before:
  assumes "distinct (xs @ Realization c # ys)" and "Realization p \<in> set xs"
    and "i < length (realization_order (xs @ Realization c # ys))"
    and "j < length (realization_order (xs @ Realization c # ys))"
    and "realization_order (xs @ Realization c # ys) ! i = p" and "realization_order (xs @ Realization c # ys) ! j = c"
  shows "i < j"
proof -
  let ?o = "realization_order (xs @ Realization c # ys)" and ?k = "length (realization_order xs)"
  have d: "distinct ?o" using assms(1) by (rule distinct_realization_order)
  have "p \<in> set (realization_order xs)" using assms(2) by (simp add: set_realization_order)
  then obtain i' where "i' < ?k" "realization_order xs ! i' = p" by (auto simp: in_set_conv_nth)
  then have "?o ! i' = p" "i' < length ?o" by (simp_all add: nth_append)
  then have "i = i'" using d assms(3,5) by (metis nth_eq_iff_index_eq)
  moreover have "?o ! ?k = c" "?k < length ?o" by simp_all
  then have "j = ?k" using d assms(4,6) by (metis nth_eq_iff_index_eq)
  ultimately show ?thesis using \<open>i' < ?k\<close> by simp
qed

lemma greedy_schedule_linear_extension:
  assumes "greedy_schedule N (\<lambda>n. trace_preds traces n \<inter> N) sch" and "N = set (hm_keys traces)"
    and "hm_wf traces" and "set sch = N"
  shows "linear_extension traces (realization_order sch)"
  unfolding linear_extension_def
proof (clarify, intro conjI allI impI)
  fix node tr p assume nt: "(node, tr) \<in> set traces" and p: "p \<in> set (realization_reads tr)"
  show "p \<in> set (realization_order sch)" if "hm_contains traces (Realization p)"
    using that assms(2,4) by (simp add: set_realization_order hm_keys_iff hm_contains_def)
  fix c i j
  assume c: "node = Realization c" and ij: "i < length (realization_order sch)" "j < length (realization_order sch)"
    "realization_order sch ! i = p" "realization_order sch ! j = c"
  have gp: "greedy_prefix N (\<lambda>n. trace_preds traces n \<inter> N) sch" using assms(1) by (simp add: greedy_schedule_def)
  have "Realization p \<in> N" using ij assms(4) set_realization_order nth_mem by metis
  moreover have "hm_get traces (Realization c) = Some tr" using nt c assms(3) by (simp add: hm_get_eq_in)
  ultimately have pred: "Realization p \<in> trace_preds traces (Realization c) \<inter> N"
    using p by (simp add: trace_preds_def)
  have "Realization c \<in> set sch" using ij set_realization_order nth_mem by metis
  then obtain k where k: "k < length sch" "sch ! k = Realization c" by (auto simp: in_set_conv_nth)
  then have split: "sch = take k sch @ Realization c # drop (Suc k) sch" by (metis id_take_nth_drop)
  have "Realization p \<in> set (take k sch)" using greedy_prefix_topological [OF gp k(1)] pred k(2) by auto
  with realization_order_before [of "take k sch" c "drop (Suc k) sch" p i j] ij greedy_prefix_distinct [OF gp]
  show "i < j" unfolding split [symmetric] by blast
qed


text \<open>
  C9.  The check accepts an order of distinct realizations exactly when the
  order is a linear extension of the recorded realization edges.
\<close>

theorem check_dag_complete_linear_extension:
  assumes "distinct exec_order"
  shows "check_dag_complete traces exec_order = Inr () \<longleftrightarrow> linear_extension traces exec_order"
  using assms by (rule check_dag_complete_iff)

text \<open>
  C8.  The realizations of a complete schedule pass the check: when the build
  pass leaves no residue, its schedule restricted to realizations is accepted.
\<close>

theorem unified_plan_dag_complete:
  assumes "hm_wf traces" and "unified_plan traces = Some (sch, [])"
  shows "check_dag_complete traces (realization_order sch) = Inr ()"
proof -
  let ?N = "set (hm_keys traces)"
  have d: "distinct (hm_keys traces)" using assms(1) by (simp add: hm_wf_def hm_keys_def)
  from run_seeded_greedy [OF d, of traces] assms(2)
  have g: "greedy_schedule ?N (\<lambda>n. trace_preds traces n \<inter> ?N) sch"
    unfolding preds_of_eq unified_plan_def Let_def by (auto split: option.splits)
  have "?N \<subseteq> set sch"
    using assms(2) by (auto simp: unified_plan_def Let_def filter_empty_conv split: option.splits)
  moreover have "set sch \<subseteq> ?N" "distinct sch"
    using g greedy_prefix_sub greedy_prefix_distinct unfolding greedy_schedule_def by blast+
  ultimately show ?thesis
    using greedy_schedule_linear_extension [OF g refl assms(1)]
    by (simp add: check_dag_complete_iff distinct_realization_order)
qed

section \<open>The evaluation set of an edit\<close>

lemma distinct_visit: "distinct (fst s) \<Longrightarrow> distinct (fst (visit_dependent g dep s))"
proof -
  have o: "distinct (fst s) \<Longrightarrow> distinct (fst (fold push_output vs s))" for vs s
  proof (induction vs arbitrary: s)
    case (Cons v vs)
    then show ?case by (cases s) auto
  qed simp
  assume "distinct (fst s)"
  then show ?thesis by (cases s; cases dep) (auto intro!: o)
qed

lemma distinct_dirty_loop: "distinct d \<Longrightarrow> distinct (dirty_loop ri g d f)"
proof (induction ri g d f rule: dirty_loop.induct)
  case (2 ri g d c f)
  have "distinct (fst s) \<Longrightarrow> distinct (fst (fold (visit_dependent g) deps s))" for deps s
    by (induction deps arbitrary: s) (simp_all add: distinct_visit)
  with 2 show ?case by (simp add: Let_def)
qed simp

lemma compute_dirty_cone_distinct: "distinct (compute_dirty_cone changed ri g)"
  by (simp add: compute_dirty_cone_def distinct_dirty_loop)

lemma compute_eval_set_greedy:
  assumes "distinct dirty"
  shows "\<exists>order. compute_eval_set dirty demand traces = Some order
     \<and> greedy_schedule {n \<in> set dirty. is_demanded demand n}
         (\<lambda>n. trace_preds traces n \<inter> {n \<in> set dirty. is_demanded demand n}) order"
  using run_seeded_greedy [of "filter (is_demanded demand) dirty" traces] assms
  unfolding compute_eval_set_def topological_sort_def preds_of_eq by simp

text \<open>
  Compute nodes carry no trace, so the evaluation set does not place them
  after the dirty cells they read: here the compute node and its output cell
  come before the cell the compute node takes as input.
\<close>

theorem eval_set_compute_before_input:
  "Compute (ComputeNodeId ''A'' 0) \<in> set (dependents_of (build_from_graph demo_graph) (demo_cell ''h''))
   \<and> compute_eval_set
       (compute_dirty_cone [demo_cell ''w''] (build_from_graph demo_graph) demo_graph)
       (set_full_scope True demand_new) (build_trace_map demo_graph)
     = Some [Compute (ComputeNodeId ''A'' 0), Value (demo_cell ''fea''), Value (demo_cell ''h''),
             Realization (RealizationNodeId ''A'' 0), Value (demo_cell ''mass'')]"
  by code_simp

text \<open>Instances on the sample graph.\<close>

theorem check_dag_complete_linear_extension_witness:
  "linear_extension (build_trace_map demo_graph) [RealizationNodeId ''A'' 0]"
proof -
  have "distinct [RealizationNodeId ''A'' 0]" by simp
  moreover have "check_dag_complete (build_trace_map demo_graph) [RealizationNodeId ''A'' 0] = Inr ()"
    by code_simp
  ultimately show ?thesis using check_dag_complete_linear_extension by blast
qed

theorem unified_plan_dag_complete_witness:
  "hm_wf (build_trace_map demo_graph)
   \<and> check_dag_complete (build_trace_map demo_graph) (realization_order
      [Value (demo_cell ''mass''), Value (demo_cell ''w''), Value (demo_cell ''h''),
       Realization (RealizationNodeId ''A'' 0), Value (demo_cell ''body''), Constraint (ConstraintNodeId ''A'' 0)]) = Inr ()"
proof -
  have w: "hm_wf (build_trace_map demo_graph)" by code_simp
  have "unified_plan (build_trace_map demo_graph)
      = Some ([Value (demo_cell ''mass''), Value (demo_cell ''w''), Value (demo_cell ''h''),
       Realization (RealizationNodeId ''A'' 0), Value (demo_cell ''body''), Constraint (ConstraintNodeId ''A'' 0)], [])"
    by code_simp
  with w unified_plan_dag_complete show ?thesis by blast
qed

end
