(* ===== verification/F64.thy ===== *)
theory F64
  imports Prelude
begin

unbundle bit_operations_syntax

text \<open>
  IEEE 754 binary64 values as their bit patterns, with the classifications and
  comparisons the sources use.  Comparison goes through the sign and magnitude
  of the pattern: the magnitudes of non-NaN values are ordered like their bit
  patterns without the sign bit, and the two zeros compare equal.
\<close>

type_synonym f64 = u64

definition f64_negative :: "f64 \<Rightarrow> bool" where
  "f64_negative x \<longleftrightarrow> bit x 63"

definition f64_magnitude :: "f64 \<Rightarrow> int" where
  "f64_magnitude x = uint (x AND mask 63)"

definition f64_infinity_magnitude :: int where
  "f64_infinity_magnitude = 2047 * 2 ^ 52"

definition is_nan :: "f64 \<Rightarrow> bool" where
  "is_nan x \<longleftrightarrow> f64_magnitude x > f64_infinity_magnitude"

definition is_finite :: "f64 \<Rightarrow> bool" where
  "is_finite x \<longleftrightarrow> f64_magnitude x < f64_infinity_magnitude"

definition f64_rank :: "f64 \<Rightarrow> int" where
  "f64_rank x = (if f64_negative x then - f64_magnitude x else f64_magnitude x)"

definition f64_lt :: "f64 \<Rightarrow> f64 \<Rightarrow> bool" where
  "f64_lt x y \<longleftrightarrow> \<not> is_nan x \<and> \<not> is_nan y \<and> f64_rank x < f64_rank y"

definition f64_le :: "f64 \<Rightarrow> f64 \<Rightarrow> bool" where
  "f64_le x y \<longleftrightarrow> \<not> is_nan x \<and> \<not> is_nan y \<and> f64_rank x \<le> f64_rank y"

definition f64_eq :: "f64 \<Rightarrow> f64 \<Rightarrow> bool" where
  "f64_eq x y \<longleftrightarrow> \<not> is_nan x \<and> \<not> is_nan y \<and> f64_rank x = f64_rank y"

definition f64_zero :: f64 where
  "f64_zero = 0"

lemma f64_magnitude_zero [simp]: "f64_magnitude 0 = 0"
  by (simp add: f64_magnitude_def)

lemma f64_rank_zero [simp]: "f64_rank 0 = 0"
  by (simp add: f64_rank_def)

lemma f64_zero_finite [simp]: "is_finite 0" "\<not> is_nan 0"
  by (simp_all add: is_finite_def is_nan_def f64_infinity_magnitude_def)

lemma finite_not_nan: "is_finite x \<Longrightarrow> \<not> is_nan x"
  by (simp add: is_finite_def is_nan_def)

lemma f64_lt_irrefl [simp]: "\<not> f64_lt x x"
  by (simp add: f64_lt_def)

lemma f64_lt_trans: "f64_lt x y \<Longrightarrow> f64_lt y z \<Longrightarrow> f64_lt x z"
  by (auto simp: f64_lt_def)

lemma f64_linear: "\<not> is_nan x \<Longrightarrow> \<not> is_nan y \<Longrightarrow> f64_lt x y \<or> f64_eq x y \<or> f64_lt y x"
  by (auto simp: f64_lt_def f64_eq_def)

text \<open>
  A donated cost per byte: anything that is not a finite non-negative number
  becomes zero.
\<close>

definition sanitise_cost :: "f64 \<Rightarrow> f64" where
  "sanitise_cost c = (if is_finite c \<and> f64_le f64_zero c then c else f64_zero)"

definition cost_ok :: "f64 \<Rightarrow> bool" where
  "cost_ok c \<longleftrightarrow> is_finite c \<and> f64_le f64_zero c"

lemma cost_ok_zero [simp]: "cost_ok f64_zero"
  by (simp add: cost_ok_def f64_zero_def f64_le_def)

lemma cost_ok_sanitise [simp]: "cost_ok (sanitise_cost c)"
  unfolding sanitise_cost_def using cost_ok_zero by (simp add: cost_ok_def)

lemma sanitise_cost_ok: "cost_ok c \<Longrightarrow> sanitise_cost c = c"
  by (simp add: sanitise_cost_def cost_ok_def)

end
