(* ===== verification/Cache.thy ===== *)
theory Cache
  imports Deps NodeTraits F64 DebugOrder
begin

text \<open>
  The node cache (\<open>reify-eval/src/cache.rs\<close>): early cutoff on re-evaluation,
  dirty reasons, the freshness lifecycle and compute dispatch.  The run-time
  \<open>Value\<close>, the opaque warm state and the error payload are type parameters;
  the content hash of a result is passed as \<open>H\<close>.  A failed assertion is
  \<open>None\<close>.
\<close>

section \<open>Results and freshness\<close>

datatype DeterminacyState = DetDetermined | DetUndetermined | DetProvisional | DetAuto

datatype Satisfaction = Satisfied | Violated | Indeterminate

datatype 'v CachedResult =
    CR_Value 'v DeterminacyState
  | CR_Satisfaction Satisfaction
  | CR_GeometryHandle u64
  | CR_Resolution "(ValueCellId, 'v) hash_map"

datatype ResultRef = ResultRef "ContentHash option"

definition resultref_none :: ResultRef where
  "resultref_none = ResultRef None"

definition of_hash :: "ContentHash \<Rightarrow> ResultRef" where
  "of_hash h = ResultRef (Some h)"

datatype 'err Freshness = Final | Intermediate u64 | Pending ResultRef | Failed 'err

fun is_final :: "'err Freshness \<Rightarrow> bool" where
  "is_final Final = True"
| "is_final _ = False"

text \<open>The tag bytes separate the four kinds of result; \<open>vh\<close> is the hash of a value.\<close>

fun determinacy_byte :: "DeterminacyState \<Rightarrow> u8" where
  "determinacy_byte DetDetermined = 0"
| "determinacy_byte DetUndetermined = 1"
| "determinacy_byte DetProvisional = 2"
| "determinacy_byte DetAuto = 3"

fun satisfaction_content_hash :: "(u8 list \<Rightarrow> ContentHash) \<Rightarrow> Satisfaction \<Rightarrow> ContentHash" where
  "satisfaction_content_hash xxh Satisfied = hash_of xxh [10, 0]"
| "satisfaction_content_hash xxh Violated = hash_of xxh [10, 1]"
| "satisfaction_content_hash xxh Indeterminate = hash_of xxh [10, 2]"

definition handle_content_hash :: "(u8 list \<Rightarrow> ContentHash) \<Rightarrow> u64 \<Rightarrow> ContentHash" where
  "handle_content_hash xxh handle = hash_of xxh (11 # le_bytes 8 handle)"

definition debug_vcid :: "ValueCellId \<Rightarrow> string" where
  "debug_vcid v = ''ValueCellId { entity: '' @ debug_str (vc_entity v) @ '', member: ''
     @ debug_str (vc_member v) @ '' }''"

fun content_hash :: "(u8 list \<Rightarrow> ContentHash) \<Rightarrow> ('v \<Rightarrow> ContentHash) \<Rightarrow> 'v CachedResult \<Rightarrow> ContentHash" where
  "content_hash xxh vh (CR_Value val det) =
     hash_combine xxh (hash_combine xxh (hash_of xxh [20]) (vh val)) (hash_of xxh [determinacy_byte det])"
| "content_hash xxh vh (CR_Satisfaction sat) =
     hash_combine xxh (hash_of xxh [21]) (satisfaction_content_hash xxh sat)"
| "content_hash xxh vh (CR_GeometryHandle handle) =
     hash_combine xxh (hash_of xxh [22]) (handle_content_hash xxh handle)"
| "content_hash xxh vh (CR_Resolution vals) =
     (let entries = sort_key (\<lambda>e. debug_vcid (fst e)) vals in
      hash_combine xxh (hash_of xxh [23])
        (hash_combine_all xxh
          (map (\<lambda>(k, v). hash_combine xxh (hash_of_str xxh (debug_vcid k)) (vh v)) entries)))"

datatype EvalOutcome = Changed | Unchanged

type_synonym VersionId = u64

text \<open>A diagnostic is carried by its text.\<close>

record ('v, 'err, 'w) NodeCache =
  nc_result :: "'v CachedResult"
  nc_result_hash :: ContentHash
  nc_freshness :: "'err Freshness"
  nc_dependency_trace :: DependencyTrace
  nc_basis_version :: VersionId
  nc_warm_state :: "'w option"
  nc_cost_per_byte :: f64
  nc_pending_cause :: "NodeId option"
  nc_diagnostics :: "string list"

definition nodecache_clone :: "('v, 'err, 'w) NodeCache \<Rightarrow> ('v, 'err, 'w) NodeCache" where
  "nodecache_clone e = e\<lparr>nc_warm_state := None, nc_cost_per_byte := f64_zero\<rparr>"

definition new_with_diagnostics ::
  "('v CachedResult \<Rightarrow> ContentHash) \<Rightarrow> 'v CachedResult \<Rightarrow> 'err Freshness \<Rightarrow> DependencyTrace \<Rightarrow> VersionId \<Rightarrow>
   string list \<Rightarrow> ('v, 'err, 'w) NodeCache" where
  "new_with_diagnostics H res fresh trace version diags =
     \<lparr>nc_result = res, nc_result_hash = H res, nc_freshness = fresh, nc_dependency_trace = trace,
      nc_basis_version = version, nc_warm_state = None, nc_cost_per_byte = f64_zero,
      nc_pending_cause = None, nc_diagnostics = diags\<rparr>"

definition nodecache_new ::
  "('v CachedResult \<Rightarrow> ContentHash) \<Rightarrow> 'v CachedResult \<Rightarrow> 'err Freshness \<Rightarrow> DependencyTrace \<Rightarrow> VersionId \<Rightarrow>
   ('v, 'err, 'w) NodeCache" where
  "nodecache_new H res fresh trace version = new_with_diagnostics H res fresh trace version []"

section \<open>The store\<close>

record ('v, 'err, 'w, 'p) CacheStore =
  caches :: "(NodeId, ('v, 'err, 'w) NodeCache) hash_map"
  dirty_reasons :: "(NodeId, ValueCellId hash_set) hash_map"
  imported_file_hashes :: "(string, ContentHash) hash_map"
  imported_field_provenance :: "(string, 'p) hash_map"
  pending_transition_count :: usize
  cs_version :: VersionId
  cs_node_traits :: NodeTraitsMap

definition cache_new :: "('v, 'err, 'w, 'p) CacheStore" where
  "cache_new = \<lparr>caches = [], dirty_reasons = [], imported_file_hashes = [], imported_field_provenance = [],
     pending_transition_count = 0, cs_version = 0, cs_node_traits = traitsmap_new\<rparr>"

definition is_fresh :: "('v, 'err, 'w, 'p) CacheStore \<Rightarrow> ValueCellId \<Rightarrow> bool" where
  "is_fresh st cell = (case hm_get (caches st) (Value cell) of
     Some entry \<Rightarrow> nc_basis_version entry = cs_version st | None \<Rightarrow> False)"

definition bump_version :: "('v, 'err, 'w, 'p) CacheStore \<Rightarrow> VersionId \<times> ('v, 'err, 'w, 'p) CacheStore" where
  "bump_version st = (let v = cs_version st + 1 in (v, st\<lparr>cs_version := v\<rparr>))"

definition put :: "NodeId \<Rightarrow> ('v, 'err, 'w) NodeCache \<Rightarrow> ('v, 'err, 'w, 'p) CacheStore \<Rightarrow> ('v, 'err, 'w, 'p) CacheStore" where
  "put node cache st = st\<lparr>caches := hm_insert node cache (caches st)\<rparr>"

definition set_node_diagnostics ::
  "NodeId \<Rightarrow> string list \<Rightarrow> ('v, 'err, 'w, 'p) CacheStore \<Rightarrow> ('v, 'err, 'w, 'p) CacheStore" where
  "set_node_diagnostics node diags st =
     st\<lparr>caches := hm_modify node (\<lambda>e. e\<lparr>nc_diagnostics := diags\<rparr>) (caches st)\<rparr>"

definition invalidate :: "NodeId \<Rightarrow> ('v, 'err, 'w, 'p) CacheStore \<Rightarrow> ('v, 'err, 'w, 'p) CacheStore" where
  "invalidate node st = st\<lparr>caches := hm_remove node (caches st), dirty_reasons := hm_remove node (dirty_reasons st)\<rparr>"

definition cache_clear :: "('v, 'err, 'w, 'p) CacheStore \<Rightarrow> ('v, 'err, 'w, 'p) CacheStore" where
  "cache_clear st = st\<lparr>caches := [], dirty_reasons := [], imported_file_hashes := [],
     imported_field_provenance := []\<rparr>"

text \<open>
  \<open>if let Some(entry) = caches.get_mut(node) { f(entry); true } else { false }\<close>
\<close>

definition update_entry ::
  "NodeId \<Rightarrow> (('v, 'err, 'w) NodeCache \<Rightarrow> ('v, 'err, 'w) NodeCache) \<Rightarrow> ('v, 'err, 'w, 'p) CacheStore \<Rightarrow>
   bool \<times> ('v, 'err, 'w, 'p) CacheStore" where
  "update_entry node f st =
     (case hm_get (caches st) node of
        Some entry \<Rightarrow> (True, st\<lparr>caches := hm_insert node (f entry) (caches st)\<rparr>)
      | None \<Rightarrow> (False, st))"

definition set_freshness ::
  "NodeId \<Rightarrow> 'err Freshness \<Rightarrow> ('v, 'err, 'w, 'p) CacheStore \<Rightarrow> (bool \<times> ('v, 'err, 'w, 'p) CacheStore) option" where
  "set_freshness node fresh st =
     (case fresh of
        Pending _ \<Rightarrow> None
      | Failed _ \<Rightarrow> None
      | _ \<Rightarrow> Some (update_entry node (\<lambda>e. e\<lparr>nc_freshness := fresh\<rparr>) st))"

text \<open>
  \<open>write_intermediate\<close> in a release build, where the debug assertion is absent:
  the write happens in any case, and a node without the progressive trait earns a
  warning.
\<close>

definition write_intermediate ::
  "NodeId \<Rightarrow> u64 \<Rightarrow> ('v, 'err, 'w, 'p) CacheStore \<Rightarrow> (string option \<times> ('v, 'err, 'w, 'p) CacheStore) option" where
  "write_intermediate node generation st =
     (let permitted = contains_traits (resolve_traits (cs_node_traits st) node) PROGRESSIVE in
      case set_freshness node (Intermediate generation) st of
        None \<Rightarrow> None
      | Some (found, st') \<Rightarrow>
          if \<not> found then Some (None, st')
          else if permitted then Some (None, st')
          else Some (Some (''node '' @ [CHR 0x27] @ nodeid_display node @ [CHR 0x27] @ '' wrote Freshness::Intermediate without the PROGRESSIVE trait''), st'))"

definition record_imported_file_hash ::
  "string \<Rightarrow> ContentHash \<Rightarrow> ('v, 'err, 'w, 'p) CacheStore \<Rightarrow> ('v, 'err, 'w, 'p) CacheStore" where
  "record_imported_file_hash path hash st =
     st\<lparr>imported_file_hashes := hm_insert path hash (imported_file_hashes st)\<rparr>"

definition get_imported_file_hash :: "('v, 'err, 'w, 'p) CacheStore \<Rightarrow> string \<Rightarrow> ContentHash option" where
  "get_imported_file_hash st path = hm_get (imported_file_hashes st) path"

definition imported_file_hash_changed :: "('v, 'err, 'w, 'p) CacheStore \<Rightarrow> string \<Rightarrow> ContentHash \<Rightarrow> bool" where
  "imported_file_hash_changed st path new_hash =
     (case hm_get (imported_file_hashes st) path of None \<Rightarrow> True | Some h \<Rightarrow> h \<noteq> new_hash)"

definition record_field_import_provenance ::
  "string \<Rightarrow> 'p \<Rightarrow> ('v, 'err, 'w, 'p) CacheStore \<Rightarrow> ('v, 'err, 'w, 'p) CacheStore" where
  "record_field_import_provenance path prov st =
     st\<lparr>imported_field_provenance := hm_insert path prov (imported_field_provenance st)\<rparr>"

section \<open>Recording evaluations\<close>

definition record_evaluation_with_freshness ::
  "('v CachedResult \<Rightarrow> ContentHash) \<Rightarrow> NodeId \<Rightarrow> 'v CachedResult \<Rightarrow> VersionId \<Rightarrow> DependencyTrace \<Rightarrow>
   'err Freshness \<Rightarrow> ('v, 'err, 'w, 'p) CacheStore \<Rightarrow> EvalOutcome \<times> ('v, 'err, 'w, 'p) CacheStore" where
  "record_evaluation_with_freshness H node new_result version trace fresh st =
     (let new_hash = H new_result;
          store = (\<lambda>e. st\<lparr>caches := hm_insert node e (caches st)\<rparr>);
          full = \<lparr>nc_result = new_result, nc_result_hash = new_hash, nc_freshness = fresh,
             nc_dependency_trace = trace, nc_basis_version = version, nc_warm_state = None,
             nc_cost_per_byte = f64_zero, nc_pending_cause = None, nc_diagnostics = []\<rparr> in
      case hm_get (caches st) node of
        Some existing \<Rightarrow>
          if nc_result_hash existing = new_hash
          then (Unchanged, store (existing\<lparr>nc_basis_version := version, nc_dependency_trace := trace,
                  nc_freshness := fresh, nc_warm_state := None, nc_cost_per_byte := f64_zero\<rparr>))
          else (Changed, store full)
      | None \<Rightarrow> (Changed, store full))"

definition record_evaluation ::
  "('v CachedResult \<Rightarrow> ContentHash) \<Rightarrow> NodeId \<Rightarrow> 'v CachedResult \<Rightarrow> VersionId \<Rightarrow> DependencyTrace \<Rightarrow>
   ('v, 'err, 'w, 'p) CacheStore \<Rightarrow> EvalOutcome \<times> ('v, 'err, 'w, 'p) CacheStore" where
  "record_evaluation H node new_result version trace st =
     record_evaluation_with_freshness H node new_result version trace Final st"

section \<open>Dirty reasons\<close>

definition invalidate_entry ::
  "ValueCellId list \<Rightarrow> NodeId \<times> ('v, 'err, 'w) NodeCache \<Rightarrow>
   (NodeId, ValueCellId hash_set) hash_map \<Rightarrow> (NodeId, ValueCellId hash_set) hash_map" where
  "invalidate_entry changed ne m =
     (let matching = filter (\<lambda>c. c \<in> set changed) (reads (nc_dependency_trace (snd ne)))
      in if matching = [] then m else hm_upsert (fst ne) [] (hs_extend matching) m)"

definition invalidate_dependents ::
  "ValueCellId list \<Rightarrow> ('v, 'err, 'w, 'p) CacheStore \<Rightarrow> ('v, 'err, 'w, 'p) CacheStore" where
  "invalidate_dependents changed st =
     st\<lparr>dirty_reasons := fold (invalidate_entry changed) (caches st) (dirty_reasons st)\<rparr>"

definition is_dirty :: "('v, 'err, 'w, 'p) CacheStore \<Rightarrow> NodeId \<Rightarrow> bool" where
  "is_dirty st node = hm_contains (dirty_reasons st) node"

definition clear_dirty :: "NodeId \<Rightarrow> ('v, 'err, 'w, 'p) CacheStore \<Rightarrow> ('v, 'err, 'w, 'p) CacheStore" where
  "clear_dirty node st = st\<lparr>dirty_reasons := hm_remove node (dirty_reasons st)\<rparr>"

definition reads_cell :: "('v, 'err, 'w, 'p) CacheStore \<Rightarrow> NodeId \<Rightarrow> ValueCellId \<Rightarrow> bool" where
  "reads_cell st node cell = (case hm_get (caches st) node of
     Some entry \<Rightarrow> cell \<in> set (reads (nc_dependency_trace entry)) | None \<Rightarrow> False)"

definition clear_dependents_dirty ::
  "ValueCellId \<Rightarrow> ('v, 'err, 'w, 'p) CacheStore \<Rightarrow> ('v, 'err, 'w, 'p) CacheStore" where
  "clear_dependents_dirty cell st =
     (let touched = map (\<lambda>(node, reasons).
            (node, if reads_cell st node cell then hs_remove cell reasons else reasons)) (dirty_reasons st);
          to_fully_clear = map fst (filter (\<lambda>(node, reasons). reads_cell st node cell \<and> reasons = []) touched)
      in st\<lparr>dirty_reasons := fold hm_remove to_fully_clear touched\<rparr>)"

definition get_dirty_reasons :: "('v, 'err, 'w, 'p) CacheStore \<Rightarrow> NodeId \<Rightarrow> ValueCellId hash_set option" where
  "get_dirty_reasons st node = hm_get (dirty_reasons st) node"

section \<open>The freshness lifecycle\<close>

definition freshness_of :: "('v, 'err, 'w, 'p) CacheStore \<Rightarrow> NodeId \<Rightarrow> 'err Freshness" where
  "freshness_of st node = (case hm_get (caches st) node of Some e \<Rightarrow> nc_freshness e | None \<Rightarrow> Final)"

definition pending_cause :: "('v, 'err, 'w, 'p) CacheStore \<Rightarrow> NodeId \<Rightarrow> NodeId option" where
  "pending_cause st node = (case hm_get (caches st) node of Some e \<Rightarrow> nc_pending_cause e | None \<Rightarrow> None)"

definition mark_pending ::
  "NodeId \<Rightarrow> ('v, 'err, 'w, 'p) CacheStore \<Rightarrow> bool \<times> ('v, 'err, 'w, 'p) CacheStore" where
  "mark_pending node st =
     (case hm_get (caches st) node of
        Some e \<Rightarrow>
          (True, st\<lparr>caches := hm_insert node (e\<lparr>nc_freshness := Pending (of_hash (nc_result_hash e)),
                       nc_pending_cause := None\<rparr>) (caches st),
                    pending_transition_count := pending_transition_count st + 1\<rparr>)
      | None \<Rightarrow> (False, st))"

definition prune_mark ::
  "NodeId \<Rightarrow> usize \<times> ('v, 'err, 'w, 'p) CacheStore \<Rightarrow> usize \<times> ('v, 'err, 'w, 'p) CacheStore" where
  "prune_mark node acc = (let (marked, st') = mark_pending node (snd acc)
     in (if marked then fst acc + 1 else fst acc, st'))"

definition mark_pruned_pending ::
  "(NodeId \<Rightarrow> bool) \<Rightarrow> ('v, 'err, 'w, 'p) CacheStore \<Rightarrow> usize \<times> ('v, 'err, 'w, 'p) CacheStore" where
  "mark_pruned_pending is_demanded st =
     (let to_mark = map fst (filter (\<lambda>(node, e). is_final (nc_freshness e) \<and> \<not> is_demanded node) (caches st))
      in fold prune_mark to_mark (0, st))"

definition mark_failed ::
  "NodeId \<Rightarrow> 'err \<Rightarrow> ('v, 'err, 'w, 'p) CacheStore \<Rightarrow> bool \<times> ('v, 'err, 'w, 'p) CacheStore" where
  "mark_failed node error st =
     update_entry node (\<lambda>e. e\<lparr>nc_freshness := Failed error, nc_pending_cause := None\<rparr>) st"

definition mark_pending_with_cause ::
  "NodeId \<Rightarrow> NodeId \<Rightarrow> ('v, 'err, 'w, 'p) CacheStore \<Rightarrow> bool \<times> ('v, 'err, 'w, 'p) CacheStore" where
  "mark_pending_with_cause node cause st =
     (case hm_get (caches st) node of
        Some e \<Rightarrow>
          (True, st\<lparr>caches := hm_insert node (e\<lparr>nc_freshness := Pending (of_hash (nc_result_hash e)),
                       nc_pending_cause := Some cause\<rparr>) (caches st),
                    pending_transition_count := pending_transition_count st + 1\<rparr>)
      | None \<Rightarrow> (False, st))"

definition set_realization_reads ::
  "NodeId \<Rightarrow> RealizationNodeId list \<Rightarrow> ('v, 'err, 'w, 'p) CacheStore \<Rightarrow> bool \<times> ('v, 'err, 'w, 'p) CacheStore" where
  "set_realization_reads node rreads st =
     update_entry node (\<lambda>e. e\<lparr>nc_dependency_trace := (nc_dependency_trace e)\<lparr>realization_reads := rreads\<rparr>\<rparr>) st"

definition restore_final ::
  "NodeId \<Rightarrow> ('v, 'err, 'w, 'p) CacheStore \<Rightarrow> bool \<times> ('v, 'err, 'w, 'p) CacheStore" where
  "restore_final node st = update_entry node (\<lambda>e. e\<lparr>nc_freshness := Final\<rparr>) st"

definition reset_pending_transition_count :: "('v, 'err, 'w, 'p) CacheStore \<Rightarrow> ('v, 'err, 'w, 'p) CacheStore" where
  "reset_pending_transition_count st = st\<lparr>pending_transition_count := 0\<rparr>"

definition try_fast_path :: "('v, 'err, 'w, 'p) CacheStore \<Rightarrow> NodeId \<Rightarrow> VersionId \<Rightarrow> 'v CachedResult option" where
  "try_fast_path st node current_version =
     (case hm_get (caches st) node of
        None \<Rightarrow> None
      | Some e \<Rightarrow> if nc_basis_version e = current_version then Some (nc_result e) else None)"

text \<open>\<open>undef\<close> is the value \<open>Value::Undef\<close>.\<close>

definition last_substantive_value :: "'v \<Rightarrow> ('v, 'err, 'w, 'p) CacheStore \<Rightarrow> NodeId \<Rightarrow> 'v option" where
  "last_substantive_value undef st node =
     (case map_option nc_result (hm_get (caches st) node) of
        Some (CR_Value v _) \<Rightarrow> if v = undef then None else Some v
      | _ \<Rightarrow> None)"

section \<open>Warm state\<close>

definition donate_warm_state_with_cost ::
  "NodeId \<Rightarrow> 'w \<Rightarrow> f64 \<Rightarrow> ('v, 'err, 'w, 'p) CacheStore \<Rightarrow> bool \<times> ('v, 'err, 'w, 'p) CacheStore" where
  "donate_warm_state_with_cost node state cost st =
     update_entry node (\<lambda>e. e\<lparr>nc_warm_state := Some state, nc_cost_per_byte := sanitise_cost cost\<rparr>) st"

definition donate_warm_state ::
  "NodeId \<Rightarrow> 'w \<Rightarrow> ('v, 'err, 'w, 'p) CacheStore \<Rightarrow> bool \<times> ('v, 'err, 'w, 'p) CacheStore" where
  "donate_warm_state node state st = donate_warm_state_with_cost node state f64_zero st"

definition cost_per_byte_of :: "('v, 'err, 'w, 'p) CacheStore \<Rightarrow> NodeId \<Rightarrow> f64 option" where
  "cost_per_byte_of st node = map_option nc_cost_per_byte (hm_get (caches st) node)"

definition get_warm_state ::
  "NodeId \<Rightarrow> ('v, 'err, 'w, 'p) CacheStore \<Rightarrow> 'w option \<times> ('v, 'err, 'w, 'p) CacheStore" where
  "get_warm_state node st =
     (case hm_get (caches st) node of
        None \<Rightarrow> (None, st)
      | Some e \<Rightarrow> (nc_warm_state e,
          st\<lparr>caches := hm_insert node (e\<lparr>nc_warm_state := None, nc_cost_per_byte := f64_zero\<rparr>) (caches st)\<rparr>))"

section \<open>Compute dispatch\<close>

definition dispatch_placeholder_result :: "'v \<Rightarrow> 'v CachedResult" where
  "dispatch_placeholder_result undef = CR_Value undef DetDetermined"

definition begin_output ::
  "('v CachedResult \<Rightarrow> ContentHash) \<Rightarrow> 'v \<Rightarrow> ComputeNodeId \<Rightarrow> ValueCellId \<Rightarrow>
   usize \<times> ('v, 'err, 'w, 'p) CacheStore \<Rightarrow> usize \<times> ('v, 'err, 'w, 'p) CacheStore" where
  "begin_output H undef c_id out acc =
     (let marked = fst acc; st = snd acc; node = Value out in
      if hm_contains (caches st) node
      then (let (ok, st') = mark_pending_with_cause node (Compute c_id) st
            in (if ok then marked + 1 else marked, st'))
      else (marked + 1,
        st\<lparr>caches := hm_insert node
              \<lparr>nc_result = dispatch_placeholder_result undef,
               nc_result_hash = H (dispatch_placeholder_result undef),
               nc_freshness = Pending resultref_none, nc_dependency_trace = trace_default,
               nc_basis_version = 0, nc_warm_state = None, nc_cost_per_byte = f64_zero,
               nc_pending_cause = Some (Compute c_id), nc_diagnostics = []\<rparr> (caches st),
           pending_transition_count := pending_transition_count st + 1\<rparr>))"

definition begin_compute_dispatch ::
  "('v CachedResult \<Rightarrow> ContentHash) \<Rightarrow> 'v \<Rightarrow> ComputeNodeId \<Rightarrow> ValueCellId list \<Rightarrow>
   ('v, 'err, 'w, 'p) CacheStore \<Rightarrow> usize \<times> ('v, 'err, 'w, 'p) CacheStore" where
  "begin_compute_dispatch H undef c_id outputs st = fold (begin_output H undef c_id) outputs (0, st)"

definition complete_output ::
  "('v CachedResult \<Rightarrow> ContentHash) \<Rightarrow> VersionId \<Rightarrow> ValueCellId \<times> 'v \<Rightarrow>
   usize \<times> ('v, 'err, 'w, 'p) CacheStore \<Rightarrow> usize \<times> ('v, 'err, 'w, 'p) CacheStore" where
  "complete_output H version ov acc =
     (let node = Value (fst ov);
          st1 = snd (record_evaluation_with_freshness H node (CR_Value (snd ov) DetDetermined) version
                       trace_default Final (snd acc));
          st2 = st1\<lparr>caches := hm_modify node (\<lambda>e. e\<lparr>nc_pending_cause := None\<rparr>) (caches st1)\<rparr>
      in (fst acc + 1, st2))"

definition seed_compute_entry_if_absent ::
  "('v CachedResult \<Rightarrow> ContentHash) \<Rightarrow> 'v \<Rightarrow> ComputeNodeId \<Rightarrow> VersionId \<Rightarrow>
   ('v, 'err, 'w, 'p) CacheStore \<Rightarrow> ('v, 'err, 'w, 'p) CacheStore" where
  "seed_compute_entry_if_absent H undef c_id version st =
     st\<lparr>caches := hm_upsert (Compute c_id)
          (nodecache_new H (dispatch_placeholder_result undef) Final trace_default version) (\<lambda>e. e) (caches st)\<rparr>"

definition complete_compute_dispatch_atomically ::
  "('v CachedResult \<Rightarrow> ContentHash) \<Rightarrow> 'v \<Rightarrow> ComputeNodeId \<Rightarrow> (ValueCellId \<times> 'v) list \<Rightarrow> VersionId \<Rightarrow>
   'w option \<Rightarrow> f64 \<Rightarrow> ('v, 'err, 'w, 'p) CacheStore \<Rightarrow> usize \<times> ('v, 'err, 'w, 'p) CacheStore" where
  "complete_compute_dispatch_atomically H undef c_id outputs version new_warm_state cost st =
     (let (updated, st1) = fold (complete_output H version) outputs (0, st) in
      case new_warm_state of
        None \<Rightarrow> (updated, st1)
      | Some state \<Rightarrow>
          (updated, snd (donate_warm_state_with_cost (Compute c_id) state cost
                           (seed_compute_entry_if_absent H undef c_id version st1))))"

section \<open>Deriving the freshness of an output\<close>

record freshness_scan =
  failed_cause :: "NodeId option"
  first_pending_cause :: "NodeId option"
  saw_pending :: bool
  saw_intermediate :: bool

fun scan_input :: "NodeId \<times> 'err Freshness \<times> NodeId option \<Rightarrow> freshness_scan \<Rightarrow> freshness_scan" where
  "scan_input (node, Final, upstream) s = s"
| "scan_input (node, Intermediate g, upstream) s = s\<lparr>saw_intermediate := True\<rparr>"
| "scan_input (node, Pending r, upstream) s = s\<lparr>saw_pending := True,
     first_pending_cause := (if first_pending_cause s = None then upstream else first_pending_cause s)\<rparr>"
| "scan_input (node, Failed e, upstream) s =
     s\<lparr>failed_cause := (if failed_cause s = None then Some node else failed_cause s)\<rparr>"

definition derive_output_freshness_with_cause ::
  "bool \<Rightarrow> (NodeId \<times> 'err Freshness \<times> NodeId option) list \<Rightarrow> u64 \<Rightarrow> 'err Freshness \<times> NodeId option" where
  "derive_output_freshness_with_cause still_refining inputs generation =
     (if still_refining then (Intermediate generation, None)
      else
        let s = fold scan_input inputs
              \<lparr>failed_cause = None, first_pending_cause = None, saw_pending = False, saw_intermediate = False\<rparr> in
        case failed_cause s of
          Some cause \<Rightarrow> (Pending resultref_none, Some cause)
        | None \<Rightarrow>
            if saw_pending s then (Pending resultref_none, first_pending_cause s)
            else if saw_intermediate s then (Intermediate generation, None)
            else (Final, None))"

definition input_triple ::
  "('v, 'err, 'w, 'p) CacheStore \<Rightarrow> NodeId \<Rightarrow> NodeId \<times> 'err Freshness \<times> NodeId option" where
  "input_triple st n = (n, freshness_of st n, pending_cause st n)"

definition derive_output_freshness_from_trace_with_cause ::
  "('v, 'err, 'w, 'p) CacheStore \<Rightarrow> DependencyTrace \<Rightarrow> bool \<Rightarrow> u64 \<Rightarrow> 'err Freshness \<times> NodeId option" where
  "derive_output_freshness_from_trace_with_cause st trace still_refining generation =
     derive_output_freshness_with_cause still_refining
       (map (\<lambda>read. input_triple st (Value read)) (reads trace)
        @ map (\<lambda>rid. input_triple st (Realization rid)) (realization_reads trace)) generation"

definition derive_output_freshness_for_node_with_cause ::
  "('v, 'err, 'w, 'p) CacheStore \<Rightarrow> NodeId \<Rightarrow> bool \<Rightarrow> u64 \<Rightarrow> 'err Freshness \<times> NodeId option" where
  "derive_output_freshness_for_node_with_cause st node still_refining generation =
     (case hm_get (caches st) node of
        None \<Rightarrow> derive_output_freshness_with_cause still_refining [] generation
      | Some e \<Rightarrow> derive_output_freshness_from_trace_with_cause st (nc_dependency_trace e) still_refining generation)"

definition derive_output_freshness_from_trace ::
  "('v, 'err, 'w, 'p) CacheStore \<Rightarrow> DependencyTrace \<Rightarrow> bool \<Rightarrow> u64 \<Rightarrow> 'err Freshness" where
  "derive_output_freshness_from_trace st trace still_refining generation =
     fst (derive_output_freshness_from_trace_with_cause st trace still_refining generation)"

definition derive_output_freshness_for_node ::
  "('v, 'err, 'w, 'p) CacheStore \<Rightarrow> NodeId \<Rightarrow> bool \<Rightarrow> u64 \<Rightarrow> 'err Freshness" where
  "derive_output_freshness_for_node st node still_refining generation =
     fst (derive_output_freshness_for_node_with_cause st node still_refining generation)"

definition record_evaluation_propagating_freshness ::
  "('v CachedResult \<Rightarrow> ContentHash) \<Rightarrow> NodeId \<Rightarrow> 'v CachedResult \<Rightarrow> VersionId \<Rightarrow> DependencyTrace \<Rightarrow> bool \<Rightarrow>
   ('v, 'err, 'w, 'p) CacheStore \<Rightarrow> EvalOutcome \<times> ('v, 'err, 'w, 'p) CacheStore" where
  "record_evaluation_propagating_freshness H node new_result version trace still_refining st =
     record_evaluation_with_freshness H node new_result version trace
       (derive_output_freshness_from_trace st trace still_refining version) st"

section \<open>The invariant of the store\<close>

named_theorems cache_simps \<open>what the operations of the store do to a lookup\<close>
named_theorems cache_keeps \<open>operations that keep the invariant of the store\<close>

definition entry_ok :: "('v CachedResult \<Rightarrow> ContentHash) \<Rightarrow> ('v, 'err, 'w) NodeCache \<Rightarrow> bool" where
  "entry_ok H e \<longleftrightarrow> nc_result_hash e = H (nc_result e) \<and> cost_ok (nc_cost_per_byte e)
     \<and> (nc_warm_state e = None \<longrightarrow> nc_cost_per_byte e = f64_zero)"

definition reasons_ok :: "('v, 'err, 'w, 'p) CacheStore \<Rightarrow> NodeId \<Rightarrow> ValueCellId hash_set \<Rightarrow> bool" where
  "reasons_ok st node reasons \<longleftrightarrow> reasons \<noteq> [] \<and> distinct reasons \<and> hm_contains (caches st) node"

definition cache_inv :: "('v CachedResult \<Rightarrow> ContentHash) \<Rightarrow> ('v, 'err, 'w, 'p) CacheStore \<Rightarrow> bool" where
  "cache_inv H st \<longleftrightarrow> hm_wf (caches st) \<and> hm_wf (dirty_reasons st)
     \<and> hm_all (\<lambda>_. entry_ok H) (caches st) \<and> hm_all (reasons_ok st) (dirty_reasons st)"

lemma cache_invI:
  assumes "hm_wf (caches st)" "hm_wf (dirty_reasons st)"
    and "hm_all (\<lambda>_. entry_ok H) (caches st)" "hm_all (reasons_ok st) (dirty_reasons st)"
  shows "cache_inv H st"
  using assms by (simp add: cache_inv_def)

lemma cache_inv_entry: "cache_inv H st \<Longrightarrow> hm_get (caches st) n = Some e \<Longrightarrow> entry_ok H e"
  by (auto simp: cache_inv_def dest: hm_all_get)

text \<open>
  Two ways an operation touches the store: it writes one entry, leaving the
  dirty reasons alone, or it leaves the entries and the reasons alone.
\<close>

lemma cache_inv_write:
  assumes "cache_inv H st" "entry_ok H e"
    and "caches st' = hm_insert n e (caches st)" "dirty_reasons st' = dirty_reasons st"
  shows "cache_inv H st'"
proof (rule cache_invI)
  show "hm_all (reasons_ok st') (dirty_reasons st')"
    using assms by (auto simp: cache_inv_def reasons_ok_def hm_simps elim!: hm_all_mono)
qed (use assms in \<open>auto simp: cache_inv_def intro: hm_inv\<close>)

lemma cache_inv_same:
  assumes "cache_inv H st" "caches st' = caches st" "dirty_reasons st' = dirty_reasons st"
  shows "cache_inv H st'"
  using assms by (simp add: cache_inv_def reasons_ok_def [abs_def])

lemma cache_inv_new [cache_keeps]: "cache_inv H cache_new"
  by (simp add: cache_inv_def cache_new_def)

lemma entry_ok_new [simp]: "entry_ok H (new_with_diagnostics H res f tr v ds)"
  by (simp add: entry_ok_def new_with_diagnostics_def)

lemma entry_ok_clone: "entry_ok H e \<Longrightarrow> entry_ok H (nodecache_clone e)"
  by (simp add: entry_ok_def nodecache_clone_def)

lemma cache_inv_put [cache_keeps]: "cache_inv H st \<Longrightarrow> entry_ok H e \<Longrightarrow> cache_inv H (put n e st)"
  by (erule cache_inv_write) (simp_all add: put_def)

lemma cache_inv_update_entry:
  assumes "cache_inv H st" "\<And>e. entry_ok H e \<Longrightarrow> entry_ok H (f e)"
  shows "cache_inv H (snd (update_entry n f st))"
proof (cases "hm_get (caches st) n")
  case None
  then show ?thesis using assms(1) by (simp add: update_entry_def)
next
  case (Some e)
  then show ?thesis
    using assms(1) assms(2) [OF cache_inv_entry [OF assms(1) Some]]
    by (auto simp: update_entry_def intro: cache_inv_write)
qed

lemma set_node_diagnostics_update: "set_node_diagnostics n ds st = snd (update_entry n (\<lambda>e. e\<lparr>nc_diagnostics := ds\<rparr>) st)"
  by (simp add: set_node_diagnostics_def update_entry_def hm_modify_def split: option.splits)

lemma cache_inv_set_node_diagnostics [cache_keeps]: "cache_inv H st \<Longrightarrow> cache_inv H (set_node_diagnostics n ds st)"
  unfolding set_node_diagnostics_update by (erule cache_inv_update_entry) (simp add: entry_ok_def)

lemma cache_inv_invalidate [cache_keeps]:
  assumes "cache_inv H st" shows "cache_inv H (invalidate n st)"
proof (rule cache_invI)
  have wf: "hm_wf (hm_remove n (dirty_reasons st))"
    using assms by (simp add: cache_inv_def hm_inv)
  show "hm_all (reasons_ok (invalidate n st)) (dirty_reasons (invalidate n st))"
    using assms by (auto simp: invalidate_def hm_all_iff [OF wf] reasons_ok_def cache_inv_def hm_simps
        dest: hm_all_get split: if_splits)
qed (use assms in \<open>auto simp: cache_inv_def invalidate_def intro: hm_inv\<close>)

lemma cache_inv_clear [cache_keeps]: "cache_inv H (cache_clear st)"
  by (simp add: cache_inv_def cache_clear_def)

lemma cache_inv_bump_version [cache_keeps]: "cache_inv H st \<Longrightarrow> cache_inv H (snd (bump_version st))"
  by (erule cache_inv_same) (simp_all add: bump_version_def Let_def)

lemma cache_inv_imported [cache_keeps]:
  assumes "cache_inv H st"
  shows "cache_inv H (record_imported_file_hash p h st)" "cache_inv H (record_field_import_provenance p q st)"
  by (rule cache_inv_same [OF assms]; simp add: record_imported_file_hash_def record_field_import_provenance_def)+

lemma cache_inv_set_freshness:
  "cache_inv H st \<Longrightarrow> set_freshness n f st = Some (b, st') \<Longrightarrow> cache_inv H st'"
  using cache_inv_update_entry [of H st "\<lambda>e. e\<lparr>nc_freshness := f\<rparr>" n]
  by (auto simp: set_freshness_def entry_ok_def split: Freshness.splits)

lemma cache_inv_write_intermediate:
  "cache_inv H st \<Longrightarrow> write_intermediate n g st = Some (d, st') \<Longrightarrow> cache_inv H st'"
  by (auto simp: write_intermediate_def Let_def split: option.splits if_splits intro: cache_inv_set_freshness)

lemma cache_inv_record [cache_keeps]:
  assumes "cache_inv H st"
  shows "cache_inv H (snd (record_evaluation_with_freshness H n res v tr f st))"
proof -
  have old: "entry_ok H (e\<lparr>nc_basis_version := v, nc_dependency_trace := tr, nc_freshness := f,
      nc_warm_state := None, nc_cost_per_byte := f64_zero\<rparr>)" if "hm_get (caches st) n = Some e" for e
    using cache_inv_entry [OF assms that] by (simp add: entry_ok_def)
  then show ?thesis
    by (auto simp: record_evaluation_with_freshness_def Let_def entry_ok_def
        split: option.splits intro!: cache_inv_write [OF assms])
qed

lemma cache_inv_reasons:
  assumes "cache_inv H st" "hm_wf m" "hm_all (reasons_ok st) m"
  shows "cache_inv H (st\<lparr>dirty_reasons := m\<rparr>)"
  using assms by (simp add: cache_inv_def reasons_ok_def [abs_def])

lemma invalidate_entry_keeps:
  assumes "hm_wf m" "hm_all (reasons_ok st) m" "hm_contains (caches st) (fst ne)"
  shows "hm_wf (invalidate_entry changed ne m) \<and> hm_all (reasons_ok st) (invalidate_entry changed ne m)"
proof -
  let ?hit = "filter (\<lambda>c. c \<in> set changed) (reads (nc_dependency_trace (snd ne)))"
  have "reasons_ok st (fst ne) (hs_extend ?hit (case hm_get m (fst ne) of None \<Rightarrow> [] | Some v \<Rightarrow> v))"
    if "?hit \<noteq> []"
  proof -
    have "set (hs_extend ?hit xs) \<noteq> {}" for xs using that by (auto simp: filter_empty_conv)
    then show ?thesis
      using assms(3) hm_all_get [OF assms(2)]
      by (auto simp: reasons_ok_def simp del: set_hs_extend split: option.splits)
  qed
  then show ?thesis
    using assms(1,2) by (auto simp: invalidate_entry_def Let_def hm_upsert_def intro: hm_inv)
qed

lemma cache_inv_invalidate_dependents [cache_keeps]:
  assumes "cache_inv H st" shows "cache_inv H (invalidate_dependents changed st)"
proof -
  have "hm_wf (fold (invalidate_entry changed) es m) \<and> hm_all (reasons_ok st) (fold (invalidate_entry changed) es m)"
    if "set es \<subseteq> set (caches st)" "hm_wf m" "hm_all (reasons_ok st) m" for es m
    using that
  proof (induction es arbitrary: m)
    case (Cons ne es)
    then have "hm_contains (caches st) (fst ne)"
      using hm_keys_iff [of "fst ne" "caches st"] by (simp add: hm_contains_def hm_keys_def)
    then have "hm_wf (invalidate_entry changed ne m) \<and> hm_all (reasons_ok st) (invalidate_entry changed ne m)"
      using Cons.prems by (intro invalidate_entry_keeps)
    then show ?case using Cons by simp
  qed simp
  from this [OF subset_refl] show ?thesis
    unfolding invalidate_dependents_def using assms by (intro cache_inv_reasons [OF assms]) (simp_all add: cache_inv_def)
qed

lemma cache_inv_clear_dirty [cache_keeps]: "cache_inv H st \<Longrightarrow> cache_inv H (clear_dirty n st)"
  unfolding clear_dirty_def by (rule cache_inv_reasons) (auto simp: cache_inv_def intro: hm_inv)

text \<open>Both passes of \<open>clear_dependents_dirty\<close> together: what it leaves at a node.\<close>

lemma hm_get_map_values: "hm_get (map (\<lambda>(n, r). (n, f n r)) m) j = map_option (f j) (hm_get m j)"
  unfolding hm_get_def by (induction m) auto

lemma hm_get_fold_remove: "hm_get (fold hm_remove ks m) j = (if j \<in> set ks then None else hm_get m j)"
  by (induction ks arbitrary: m) (auto simp: hm_simps)

lemma hm_wf_fold_remove: "hm_wf m \<Longrightarrow> hm_wf (fold hm_remove ks m)"
  by (induction ks arbitrary: m) (auto intro: hm_inv)

lemma hm_wf_map_values: "hm_wf (map (\<lambda>(n, r). (n, f n r)) m) = hm_wf m"
  by (simp add: hm_wf_def case_prod_beta' comp_def)

definition reasons_left :: "bool \<Rightarrow> ValueCellId \<Rightarrow> ValueCellId hash_set option \<Rightarrow> ValueCellId hash_set option" where
  "reasons_left touched cell rs =
     (case rs of
        None \<Rightarrow> None
      | Some reasons \<Rightarrow>
          if touched then (if hs_remove cell reasons = [] then None else Some (hs_remove cell reasons))
          else Some reasons)"

lemma get_dirty_reasons_clear:
  assumes "hm_wf (dirty_reasons st)"
  shows "get_dirty_reasons (clear_dependents_dirty cell st) node
    = reasons_left (reads_cell st node cell) cell (get_dirty_reasons st node)"
proof -
  define touch where "touch n r = (if reads_cell st n cell then hs_remove cell r else r)" for n r
  define touched where "touched = map (\<lambda>(n, r). (n, touch n r)) (dirty_reasons st)"
  define full where "full = map fst (filter (\<lambda>(n, r). reads_cell st n cell \<and> r = []) touched)"
  have wf: "hm_wf touched" using assms by (simp add: touched_def hm_wf_map_values)
  have get: "hm_get touched node = map_option (touch node) (hm_get (dirty_reasons st) node)"
    by (simp add: touched_def hm_get_map_values)
  have "node \<in> set full \<longleftrightarrow> reads_cell st node cell \<and> hm_get touched node = Some []"
    by (auto simp: full_def hm_get_eq_in [OF wf] image_iff)
  moreover have "clear_dependents_dirty cell st = st\<lparr>dirty_reasons := fold hm_remove full touched\<rparr>"
    by (simp add: clear_dependents_dirty_def full_def touched_def touch_def Let_def)
  ultimately show ?thesis
    by (auto simp: get_dirty_reasons_def hm_get_fold_remove get reasons_left_def touch_def split: option.splits)
qed

lemma cache_inv_clear_dependents_dirty [cache_keeps]:
  assumes "cache_inv H st" shows "cache_inv H (clear_dependents_dirty cell st)"
proof (rule cache_invI)
  let ?st = "clear_dependents_dirty cell st"
  have same: "caches ?st = caches st" by (simp add: clear_dependents_dirty_def Let_def)
  have wf: "hm_wf (dirty_reasons st)" using assms by (simp add: cache_inv_def)
  show wf': "hm_wf (dirty_reasons ?st)"
    using wf by (simp add: clear_dependents_dirty_def Let_def hm_wf_fold_remove
        hm_wf_map_values [of "\<lambda>n r. if reads_cell st n cell then hs_remove cell r else r"])
  show "hm_all (reasons_ok ?st) (dirty_reasons ?st)"
    unfolding hm_all_iff [OF wf']
  proof (intro allI impI)
    fix n r assume "hm_get (dirty_reasons ?st) n = Some r"
    then have "reasons_left (reads_cell st n cell) cell (hm_get (dirty_reasons st) n) = Some r"
      using get_dirty_reasons_clear [OF wf, of cell n] by (simp add: get_dirty_reasons_def)
    moreover have "reasons_ok st n rs" if "hm_get (dirty_reasons st) n = Some rs" for rs
      using assms that by (auto simp: cache_inv_def dest: hm_all_get)
    ultimately show "reasons_ok ?st n r"
      by (auto simp: reasons_left_def reasons_ok_def same split: option.splits if_splits)
  qed
qed (use assms in \<open>auto simp: cache_inv_def clear_dependents_dirty_def Let_def\<close>)

lemma entry_ok_mark: "entry_ok H e \<Longrightarrow> entry_ok H (e\<lparr>nc_freshness := f, nc_pending_cause := c\<rparr>)"
  by (simp add: entry_ok_def)

lemma entry_ok_take: "entry_ok H e \<Longrightarrow> entry_ok H (e\<lparr>nc_warm_state := None, nc_cost_per_byte := f64_zero\<rparr>)"
  by (simp add: entry_ok_def)

lemma fold_snd_inv:
  "(\<And>x acc. P (snd acc) \<Longrightarrow> P (snd (f x acc))) \<Longrightarrow> P (snd acc) \<Longrightarrow> P (snd (fold f xs acc))"
  by (induction xs arbitrary: acc) simp_all

lemma cache_inv_mark_pending [cache_keeps]:
  assumes "cache_inv H st"
  shows "cache_inv H (snd (mark_pending n st))" "cache_inv H (snd (mark_pending_with_cause n c st))"
  by (auto simp: assms mark_pending_def mark_pending_with_cause_def split: option.splits
      intro!: cache_inv_write [OF assms] entry_ok_mark [OF cache_inv_entry [OF assms]])

lemma cache_inv_mark_pruned_pending [cache_keeps]:
  assumes "cache_inv H st" shows "cache_inv H (snd (mark_pruned_pending dem st))"
  unfolding mark_pruned_pending_def Let_def
  by (rule fold_snd_inv) (simp_all add: assms prune_mark_def case_prod_beta' Let_def cache_inv_mark_pending)

lemma cache_inv_entry_updates [cache_keeps]:
  assumes "cache_inv H st"
  shows "cache_inv H (snd (mark_failed n err st))" "cache_inv H (snd (set_realization_reads n rr st))"
    "cache_inv H (snd (restore_final n st))" "cache_inv H (snd (donate_warm_state_with_cost n w c st))"
    "cache_inv H (snd (donate_warm_state n w st))"
  unfolding mark_failed_def set_realization_reads_def restore_final_def donate_warm_state_def donate_warm_state_with_cost_def
  by (rule cache_inv_update_entry [OF assms]; simp add: entry_ok_def)+

lemma cache_inv_reset_pending [cache_keeps]: "cache_inv H st \<Longrightarrow> cache_inv H (reset_pending_transition_count st)"
  by (erule cache_inv_same) (simp_all add: reset_pending_transition_count_def)

lemma cache_inv_get_warm_state [cache_keeps]:
  assumes "cache_inv H st" shows "cache_inv H (snd (get_warm_state n st))"
  by (auto simp: assms get_warm_state_def split: option.splits
      intro!: cache_inv_write [OF assms] entry_ok_take [OF cache_inv_entry [OF assms]])

lemma cache_inv_begin_output:
  "cache_inv H (snd acc) \<Longrightarrow> cache_inv H (snd (begin_output H u c out acc))"
  by (auto simp: begin_output_def Let_def case_prod_beta' cache_inv_mark_pending entry_ok_def
      elim!: cache_inv_write)

lemma cache_inv_begin [cache_keeps]:
  assumes "cache_inv H st" shows "cache_inv H (snd (begin_compute_dispatch H u c outs st))"
  unfolding begin_compute_dispatch_def by (rule fold_snd_inv) (simp_all add: assms cache_inv_begin_output)

lemma complete_output_update:
  "snd (complete_output H v ov acc) =
     snd (update_entry (Value (fst ov)) (\<lambda>e. e\<lparr>nc_pending_cause := None\<rparr>)
       (snd (record_evaluation_with_freshness H (Value (fst ov)) (CR_Value (snd ov) DetDetermined) v trace_default
         Final (snd acc))))"
  by (simp add: complete_output_def Let_def update_entry_def hm_modify_def split: option.splits)

lemma cache_inv_complete_output:
  "cache_inv H (snd acc) \<Longrightarrow> cache_inv H (snd (complete_output H v ov acc))"
  unfolding complete_output_update
  by (rule cache_inv_update_entry) (simp_all add: cache_inv_record entry_ok_def)

lemma cache_inv_seed [cache_keeps]:
  assumes "cache_inv H st" shows "cache_inv H (seed_compute_entry_if_absent H u c v st)"
  by (rule cache_inv_write [OF assms])
    (auto simp: seed_compute_entry_if_absent_def hm_upsert_def nodecache_new_def
      dest: cache_inv_entry [OF assms] split: option.splits)

lemma cache_inv_complete [cache_keeps]:
  assumes "cache_inv H st"
  shows "cache_inv H (snd (complete_compute_dispatch_atomically H u c outs v w cost st))"
proof -
  have "cache_inv H (snd (fold (complete_output H v) outs (0, st)))"
    by (rule fold_snd_inv) (simp_all add: assms cache_inv_complete_output)
  then show ?thesis
    by (simp add: complete_compute_dispatch_atomically_def case_prod_beta' Let_def cache_keeps split: option.split)
qed

lemma cache_inv_record_wrappers [cache_keeps]:
  assumes "cache_inv H st"
  shows "cache_inv H (snd (record_evaluation H n res v tr st))"
    "cache_inv H (snd (record_evaluation_propagating_freshness H n res v tr sr st))"
  by (simp_all add: record_evaluation_def record_evaluation_propagating_freshness_def cache_keeps assms)

end
