(* ===== verification/CacheLaws.thy ===== *)
theory CacheLaws
  imports Cache
begin

text \<open>
  The laws of the node cache: the invariant over every sequence of store
  operations, early cutoff, dirty reasons, the freshness of an output, pruning
  and the compute-dispatch lifecycle.
\<close>

section \<open>Reachable stores\<close>

text \<open>One rule per operation of \<open>CacheStore\<close> that writes; \<open>H\<close> hashes a result, \<open>u\<close> is \<open>Value::Undef\<close>.\<close>

inductive cache_step ::
  "('v CachedResult \<Rightarrow> ContentHash) \<Rightarrow> 'v \<Rightarrow> ('v, 'err, 'w, 'p) CacheStore \<Rightarrow> ('v, 'err, 'w, 'p) CacheStore \<Rightarrow> bool"
  for H u where
  step_put: "cache_step H u st (put n (new_with_diagnostics H res f tr v ds) st)"
| step_put_clone: "hm_get (caches st) m = Some e \<Longrightarrow> cache_step H u st (put n (nodecache_clone e) st)"
| step_bump: "cache_step H u st (snd (bump_version st))"
| step_diagnostics: "cache_step H u st (set_node_diagnostics n ds st)"
| step_invalidate: "cache_step H u st (invalidate n st)"
| step_clear: "cache_step H u st (cache_clear st)"
| step_traits: "cache_step H u st (st\<lparr>cs_node_traits := m\<rparr>)"
| step_file_hash: "cache_step H u st (record_imported_file_hash path h st)"
| step_provenance: "cache_step H u st (record_field_import_provenance path prov st)"
| step_set_freshness: "set_freshness n f st = Some (b, st') \<Longrightarrow> cache_step H u st st'"
| step_intermediate: "write_intermediate n g st = Some (d, st') \<Longrightarrow> cache_step H u st st'"
| step_record: "cache_step H u st (snd (record_evaluation_with_freshness H n res v tr f st))"
| step_record_final: "cache_step H u st (snd (record_evaluation H n res v tr st))"
| step_record_propagating: "cache_step H u st (snd (record_evaluation_propagating_freshness H n res v tr sr st))"
| step_invalidate_dependents: "cache_step H u st (invalidate_dependents changed st)"
| step_clear_dirty: "cache_step H u st (clear_dirty n st)"
| step_clear_dependents: "cache_step H u st (clear_dependents_dirty cell st)"
| step_mark_pending: "cache_step H u st (snd (mark_pending n st))"
| step_mark_pruned: "cache_step H u st (snd (mark_pruned_pending dem st))"
| step_mark_failed: "cache_step H u st (snd (mark_failed n err st))"
| step_mark_pending_cause: "cache_step H u st (snd (mark_pending_with_cause n c st))"
| step_begin: "cache_step H u st (snd (begin_compute_dispatch H u cid outs st))"
| step_complete: "cache_step H u st (snd (complete_compute_dispatch_atomically H u cid ovs v w cost st))"
| step_seed: "cache_step H u st (seed_compute_entry_if_absent H u cid v st)"
| step_realization_reads: "cache_step H u st (snd (set_realization_reads n rr st))"
| step_restore_final: "cache_step H u st (snd (restore_final n st))"
| step_reset_pending: "cache_step H u st (reset_pending_transition_count st)"
| step_donate: "cache_step H u st (snd (donate_warm_state_with_cost n w cost st))"
| step_donate_free: "cache_step H u st (snd (donate_warm_state n w st))"
| step_take_warm: "cache_step H u st (snd (get_warm_state n st))"

inductive cache_reachable ::
  "('v CachedResult \<Rightarrow> ContentHash) \<Rightarrow> 'v \<Rightarrow> ('v, 'err, 'w, 'p) CacheStore \<Rightarrow> bool"
  for H u where
  reach_new: "cache_reachable H u cache_new"
| reach_step: "cache_reachable H u st \<Longrightarrow> cache_step H u st st' \<Longrightarrow> cache_reachable H u st'"

lemma cache_step_keeps: "cache_step H u st st' \<Longrightarrow> cache_inv H st \<Longrightarrow> cache_inv H st'"
proof (induction rule: cache_step.induct)
  case (step_put_clone st m e n)
  then show ?case by (intro cache_inv_put entry_ok_clone cache_inv_entry)
next
  case (step_set_freshness n f st b st')
  then show ?case using cache_inv_set_freshness by blast
next
  case (step_intermediate n g st d st')
  then show ?case using cache_inv_write_intermediate by blast
next
  case (step_traits st m)
  then show ?case by (rule cache_inv_same) simp_all
qed (simp_all add: cache_keeps)

lemma cache_reachable_keeps: "cache_reachable H u st \<Longrightarrow> cache_inv H st"
  by (induction rule: cache_reachable.induct) (auto intro: cache_inv_new cache_step_keeps)

text \<open>
  C10.  In every store that the operations of \<open>CacheStore\<close> can produce from an
  empty one, in any order: each entry's stored hash is the content hash of its
  stored result, its cost per byte is a finite non-negative number and is zero
  when no warm state is held, and each dirty node is cached and has at least one
  reason.
\<close>

theorem cache_reachable_invariant:
  assumes "cache_reachable H u st"
  shows "(\<forall>n e. hm_get (caches st) n = Some e \<longrightarrow>
             nc_result_hash e = H (nc_result e) \<and> cost_ok (nc_cost_per_byte e)
             \<and> (nc_warm_state e = None \<longrightarrow> nc_cost_per_byte e = f64_zero))
       \<and> (\<forall>n reasons. get_dirty_reasons st n = Some reasons \<longrightarrow>
             reasons \<noteq> [] \<and> distinct reasons \<and> hm_contains (caches st) n)"
proof -
  have "entry_ok H e" if "hm_get (caches st) n = Some e" for n e
    using cache_reachable_keeps [OF assms] that by (rule cache_inv_entry)
  moreover have "reasons_ok st n r" if "get_dirty_reasons st n = Some r" for n r
    using cache_reachable_keeps [OF assms] that
    by (auto simp: cache_inv_def get_dirty_reasons_def dest: hm_all_get)
  ultimately show ?thesis by (simp add: entry_ok_def reasons_ok_def)
qed

definition demo_cell_x :: ValueCellId where
  "demo_cell_x = ValueCellId ''Part'' ''x''"

definition demo_cell_y :: ValueCellId where
  "demo_cell_y = ValueCellId ''Part'' ''y''"

text \<open>A small store: \<open>y\<close> reads \<open>x\<close>; both were evaluated at version 1.\<close>

definition demo_H :: "nat CachedResult \<Rightarrow> ContentHash" where
  "demo_H r = (case r of CR_Value v _ \<Rightarrow> of_nat v + 1 | _ \<Rightarrow> 0)"

definition demo_store :: "(nat, string, nat, unit) CacheStore" where
  "demo_store =
     snd (record_evaluation demo_H (Value demo_cell_y) (CR_Value 7 DetDetermined) 1 \<lparr>reads = [demo_cell_x], realization_reads = []\<rparr>
       (snd (record_evaluation demo_H (Value demo_cell_x) (CR_Value 3 DetDetermined) 1 trace_default cache_new)))"

lemma demo_store_reachable: "cache_reachable demo_H 0 demo_store"
  unfolding demo_store_def by (intro reach_step [OF _ step_record_final] reach_new)

theorem cache_reachable_invariant_witness:
  "nc_result_hash (the (hm_get (caches demo_store) (Value demo_cell_x))) = 4
   \<and> cache_reachable demo_H 0 demo_store"
proof -
  have "hm_get (caches demo_store) (Value demo_cell_x) \<noteq> None"
    "map_option nc_result (hm_get (caches demo_store) (Value demo_cell_x)) = Some (CR_Value 3 DetDetermined)"
    by code_simp+
  then show ?thesis
    using cache_reachable_invariant [OF demo_store_reachable] demo_store_reachable
    by (auto simp: demo_H_def)
qed

section \<open>Early cutoff\<close>

text \<open>
  C11.  Re-recording a node reports \<open>Unchanged\<close> exactly when a result with the same
  content hash is already stored.  Either way the entry then holds a result with
  the new hash at the given version, trace and freshness and no warm state; on a
  change it is the new result with no cause and no diagnostics, on a cutoff the
  stored result, cause and diagnostics stay.  No other node and no dirty reason
  is touched.
\<close>

theorem record_evaluation_early_cutoff:
  assumes "cache_inv H st" and "record_evaluation_with_freshness H n res v tr f st = (outcome, st')"
  shows "(outcome = Unchanged \<longleftrightarrow> (\<exists>e. hm_get (caches st) n = Some e \<and> H (nc_result e) = H res))
    \<and> (\<exists>e'. hm_get (caches st') n = Some e' \<and> H (nc_result e') = H res \<and> nc_result_hash e' = H res
          \<and> nc_basis_version e' = v \<and> nc_dependency_trace e' = tr \<and> nc_freshness e' = f \<and> nc_warm_state e' = None
          \<and> (outcome = Changed \<longrightarrow> nc_result e' = res \<and> nc_pending_cause e' = None \<and> nc_diagnostics e' = [])
          \<and> (outcome = Unchanged \<longrightarrow> (\<exists>e. hm_get (caches st) n = Some e \<and> nc_result e' = nc_result e
               \<and> nc_pending_cause e' = nc_pending_cause e \<and> nc_diagnostics e' = nc_diagnostics e)))
    \<and> (\<forall>m. m \<noteq> n \<longrightarrow> hm_get (caches st') m = hm_get (caches st) m)
    \<and> dirty_reasons st' = dirty_reasons st"
proof (cases "hm_get (caches st) n")
  case None
  then show ?thesis using assms(2) by (auto simp: record_evaluation_with_freshness_def Let_def hm_simps)
next
  case (Some e)
  then have "nc_result_hash e = H (nc_result e)"
    using cache_inv_entry [OF assms(1)] by (simp add: entry_ok_def)
  then show ?thesis
    using assms(2) Some by (auto simp: record_evaluation_with_freshness_def Let_def hm_simps split: if_splits)
qed

lemma demo_store_inv: "cache_inv demo_H demo_store"
  using demo_store_reachable by (rule cache_reachable_keeps)

theorem record_evaluation_early_cutoff_witness:
  "fst (record_evaluation_with_freshness demo_H (Value demo_cell_x) (CR_Value 3 DetProvisional) 2 trace_default Final demo_store)
     = Unchanged"
  using record_evaluation_early_cutoff [OF demo_store_inv prod.collapse [symmetric], where n = "Value demo_cell_x"
      and res = "CR_Value 3 DetProvisional" and v = 2 and tr = trace_default and f = Final]
  by (simp add: demo_H_def demo_store_def record_evaluation_def record_evaluation_with_freshness_def Let_def
      cache_new_def hm_simps demo_cell_x_def demo_cell_y_def)

section \<open>Dirty reasons\<close>

definition reason_set :: "(NodeId, ValueCellId hash_set) hash_map \<Rightarrow> NodeId \<Rightarrow> ValueCellId set" where
  "reason_set m n = (case hm_get m n of None \<Rightarrow> {} | Some r \<Rightarrow> set r)"

lemma reason_set_dirty: "cache_inv H st \<Longrightarrow> is_dirty st n \<longleftrightarrow> reason_set (dirty_reasons st) n \<noteq> {}"
  by (auto simp: is_dirty_def hm_contains_def reason_set_def cache_inv_def reasons_ok_def
      split: option.splits dest: hm_all_get)

lemma reason_set_entry:
  "reason_set (invalidate_entry changed ne m) n
     = reason_set m n \<union> (if n = fst ne then set changed \<inter> set (reads (nc_dependency_trace (snd ne))) else {})"
  by (auto simp: invalidate_entry_def Let_def reason_set_def hm_simps filter_empty_conv split: option.splits)

lemma reason_set_entries:
  "reason_set (fold (invalidate_entry changed) es m) n
     = reason_set m n \<union> {c \<in> set changed. \<exists>e. (n, e) \<in> set es \<and> c \<in> set (reads (nc_dependency_trace e))}"
proof (induction es arbitrary: m)
  case (Cons ne es)
  then show ?case by (cases ne) (auto simp: reason_set_entry)
qed simp

lemma reason_set_invalidate:
  assumes "cache_inv H st"
  shows "reason_set (dirty_reasons (invalidate_dependents changed st)) n
    = reason_set (dirty_reasons st) n \<union> {c \<in> set changed. reads_cell st n c}"
proof -
  have "(\<exists>e. (n, e) \<in> set (caches st) \<and> c \<in> set (reads (nc_dependency_trace e))) \<longleftrightarrow> reads_cell st n c" for c
    using assms by (auto simp: reads_cell_def cache_inv_def simp flip: hm_get_eq_in split: option.splits)
  then show ?thesis by (simp add: invalidate_dependents_def reason_set_entries)
qed

lemma reason_set_clear:
  assumes "cache_inv H st"
  shows "reason_set (dirty_reasons (clear_dependents_dirty c st)) n
    = (if reads_cell st n c then reason_set (dirty_reasons st) n - {c} else reason_set (dirty_reasons st) n)"
proof -
  have "set (hs_remove c r) = {} \<longleftrightarrow> hs_remove c r = []" for r by (simp only: set_empty)
  then show ?thesis
    using get_dirty_reasons_clear [of st c n] assms
    by (auto simp: cache_inv_def get_dirty_reasons_def reason_set_def reasons_left_def simp del: set_empty
        split: option.splits if_splits)
qed

lemma caches_clear_dependents [simp]: "caches (clear_dependents_dirty c st) = caches st"
  by (simp add: clear_dependents_dirty_def Let_def)

lemma reads_cell_cong: "caches st' = caches st \<Longrightarrow> reads_cell st' = reads_cell st"
  by (intro ext) (simp add: reads_cell_def)

lemma reason_set_clear_all:
  assumes "cache_inv H st"
  shows "cache_inv H (fold clear_dependents_dirty cs st)
    \<and> reason_set (dirty_reasons (fold clear_dependents_dirty cs st)) n
      = reason_set (dirty_reasons st) n - {c \<in> set cs. reads_cell st n c}"
  using assms
proof (induction cs arbitrary: st)
  case (Cons c cs)
  then show ?case
    using reads_cell_cong [OF caches_clear_dependents, of c st]
    by (auto simp: cache_keeps reason_set_clear)
qed simp

text \<open>
  C12.  A node becomes dirty exactly when it reads a changed cell, and stays dirty
  until every changed cell it reads has been resolved: after the cells \<open>changed\<close>
  invalidate a clean store and the cells \<open>resolved\<close> are cleared, in any order, a
  node is dirty if and only if it reads a changed cell that was not resolved.
\<close>

theorem dirty_until_every_reason_resolved:
  assumes "cache_inv H st" "dirty_reasons st = []"
  shows "is_dirty (fold clear_dependents_dirty resolved (invalidate_dependents changed st)) n
    \<longleftrightarrow> (\<exists>c. c \<in> set changed \<and> c \<notin> set resolved \<and> reads_cell st n c)"
proof -
  let ?st = "invalidate_dependents changed st"
  have inv: "cache_inv H ?st" using assms(1) by (rule cache_keeps)
  have reads: "reads_cell ?st = reads_cell st"
    by (rule reads_cell_cong) (simp add: invalidate_dependents_def)
  have "reason_set (dirty_reasons (fold clear_dependents_dirty resolved ?st)) n
      = {c \<in> set changed. reads_cell st n c} - {c \<in> set resolved. reads_cell st n c}"
    using reason_set_clear_all [OF inv, of resolved n] reason_set_invalidate [OF assms(1), of changed n] assms(2)
    by (simp add: reads reason_set_def)
  then show ?thesis
    using reason_set_dirty [of H "fold clear_dependents_dirty resolved ?st" n] reason_set_clear_all [OF inv, of resolved n]
    by auto
qed

theorem dirty_until_every_reason_resolved_witness:
  "is_dirty (fold clear_dependents_dirty [demo_cell_y] (invalidate_dependents [demo_cell_x] demo_store)) (Value demo_cell_y)
   \<and> \<not> is_dirty (fold clear_dependents_dirty [demo_cell_x] (invalidate_dependents [demo_cell_x] demo_store)) (Value demo_cell_y)"
proof -
  have clean: "dirty_reasons demo_store = []" "reads_cell demo_store (Value demo_cell_y) demo_cell_x"
    by code_simp+
  show ?thesis
    unfolding dirty_until_every_reason_resolved [OF demo_store_inv clean(1)] using clean(2)
    by (simp add: demo_cell_x_def demo_cell_y_def)
qed

section \<open>The freshness of an output\<close>

fun is_pending :: "'err Freshness \<Rightarrow> bool" where
  "is_pending (Pending r) = True"
| "is_pending _ = False"

fun is_failed :: "'err Freshness \<Rightarrow> bool" where
  "is_failed (Failed e) = True"
| "is_failed _ = False"

fun is_intermediate :: "'err Freshness \<Rightarrow> bool" where
  "is_intermediate (Intermediate g) = True"
| "is_intermediate _ = False"

text \<open>The first failed input, and the first pending input whose cause was recorded.\<close>

definition first_failed :: "(NodeId \<times> 'err Freshness \<times> NodeId option) list \<Rightarrow> NodeId option" where
  "first_failed inputs = map_option fst (find (\<lambda>(n, f, c). is_failed f) inputs)"

definition first_recorded_cause :: "(NodeId \<times> 'err Freshness \<times> NodeId option) list \<Rightarrow> NodeId option" where
  "first_recorded_cause inputs =
     Option.bind (find (\<lambda>(n, f, c). is_pending f \<and> c \<noteq> None) inputs) (\<lambda>(n, f, c). c)"

lemma scan_inputs:
  "fold scan_input inputs s =
     s\<lparr>failed_cause := (if failed_cause s = None then first_failed inputs else failed_cause s),
       first_pending_cause := (if first_pending_cause s = None then first_recorded_cause inputs else first_pending_cause s),
       saw_pending := (saw_pending s \<or> list_ex (\<lambda>(n, f, c). is_pending f) inputs),
       saw_intermediate := (saw_intermediate s \<or> list_ex (\<lambda>(n, f, c). is_intermediate f) inputs)\<rparr>"
proof (induction inputs arbitrary: s)
  case (Cons i inputs)
  obtain n f c where "i = (n, f, c)" by (cases i)
  then show ?case
    by (cases f) (auto simp: Cons.IH first_failed_def first_recorded_cause_def)
qed (simp add: first_failed_def first_recorded_cause_def)

text \<open>
  The derived freshness follows the truth table: a node that still refines is
  intermediate; otherwise a failed input makes it pending on the first failed
  input; otherwise a pending input makes it pending, with the first cause recorded
  on a pending input; otherwise an intermediate input makes it intermediate; and
  with final inputs only it is final.  Only a pending output carries a cause.
\<close>

theorem derive_output_freshness_truth_table:
  "derive_output_freshness_with_cause still_refining inputs generation =
     (if still_refining then (Intermediate generation, None)
      else if list_ex (\<lambda>(n, f, c). is_failed f) inputs then (Pending resultref_none, first_failed inputs)
      else if list_ex (\<lambda>(n, f, c). is_pending f) inputs then (Pending resultref_none, first_recorded_cause inputs)
      else if list_ex (\<lambda>(n, f, c). is_intermediate f) inputs then (Intermediate generation, None)
      else (Final, None))"
proof -
  have "first_failed inputs = None \<longleftrightarrow> \<not> list_ex (\<lambda>(n, f, c). is_failed f) inputs"
    by (auto simp: first_failed_def find_None_iff list_ex_iff)
  then show ?thesis
    by (auto simp: derive_output_freshness_with_cause_def Let_def scan_inputs split: option.split)
qed

text \<open>
  When the first pending input has no recorded cause, the cause of a later
  pending input is reported: the first pending input does not win.
\<close>

theorem first_pending_input_does_not_win:
  "derive_output_freshness_with_cause False
     [(Value demo_cell_x, Pending r, None), (Value demo_cell_y, Pending q, Some cause)] generation
   = (Pending resultref_none, Some cause)"
  by (simp add: derive_output_freshness_with_cause_def)

section \<open>Causes\<close>

text \<open>
  A node that was pending with a recorded cause and is then restored to final,
  or re-recorded with an equal result, keeps the cause although it is no longer
  pending.
\<close>

theorem final_entry_keeps_cause:
  "let st1 = snd (mark_pending_with_cause n cause (snd (record_evaluation H n res v tr cache_new)));
       restored = snd (restore_final n st1);
       rerecorded = snd (record_evaluation H n res v tr st1)
   in freshness_of restored n = Final \<and> pending_cause restored n = Some cause
      \<and> freshness_of rerecorded n = Final \<and> pending_cause rerecorded n = Some cause"
  by (simp add: record_evaluation_def record_evaluation_with_freshness_def mark_pending_with_cause_def restore_final_def
      update_entry_def cache_new_def freshness_of_def pending_cause_def hm_simps Let_def)

section \<open>Pruning\<close>

definition pruned_entry :: "bool \<Rightarrow> ('v, 'err, 'w) NodeCache \<Rightarrow> ('v, 'err, 'w) NodeCache" where
  "pruned_entry demanded e = (if is_final (nc_freshness e) \<and> \<not> demanded
     then e\<lparr>nc_freshness := Pending (of_hash (nc_result_hash e)), nc_pending_cause := None\<rparr> else e)"

lemma prune_marks:
  assumes "distinct ns" "set ns \<subseteq> set (hm_keys (caches st))"
  shows "fst (fold prune_mark ns (k, st)) = k + length ns
    \<and> hm_get (caches (snd (fold prune_mark ns (k, st)))) m
      = (if m \<in> set ns then map_option (\<lambda>e. e\<lparr>nc_freshness := Pending (of_hash (nc_result_hash e)),
           nc_pending_cause := None\<rparr>) (hm_get (caches st) m) else hm_get (caches st) m)"
  using assms
proof (induction ns arbitrary: k st)
  case (Cons n ns)
  then obtain e where e: "hm_get (caches st) n = Some e"
    by (auto simp: hm_keys_iff)
  define st1 where "st1 = snd (mark_pending n st)"
  have st1: "caches st1 = hm_insert n (e\<lparr>nc_freshness := Pending (of_hash (nc_result_hash e)), nc_pending_cause := None\<rparr>) (caches st)"
    and step: "prune_mark n (k, st) = (Suc k, st1)"
    by (simp_all add: st1_def mark_pending_def prune_mark_def e)
  have "set ns \<subseteq> set (hm_keys (caches st1))"
    using Cons.prems by (auto simp: hm_keys_iff st1 hm_simps)
  with Cons.IH [of st1 "Suc k"] Cons.prems show ?case
    by (auto simp: step st1 hm_simps e)
qed simp

lemma prune_targets:
  assumes "hm_wf m"
  shows "n \<in> set (map fst (filter (\<lambda>(k, e). P k e) m)) \<longleftrightarrow> (\<exists>e. hm_get m n = Some e \<and> P n e)"
  using assms by (auto simp: hm_get_eq_in image_iff)

text \<open>
  C13.  Demand pruning turns exactly the cached, final, undemanded nodes pending and
  counts them; each keeps its result and the hash of that result as last
  substantive result, so the last good value stays readable; every other entry
  is untouched.  Afterwards no undemanded entry is served as final.
\<close>

theorem mark_pruned_pending_exact:
  assumes "cache_inv H st" and "mark_pruned_pending demanded st = (count, st')"
  shows "hm_get (caches st') n = map_option (pruned_entry (demanded n)) (hm_get (caches st) n)
    \<and> count = length (filter (\<lambda>(n, e). is_final (nc_freshness e) \<and> \<not> demanded n) (caches st))
    \<and> last_substantive_value u st' n = last_substantive_value u st n
    \<and> (hm_contains (caches st') n \<and> \<not> demanded n \<longrightarrow> \<not> is_final (freshness_of st' n))"
proof -
  define ns where "ns = map fst (filter (\<lambda>(n, e). is_final (nc_freshness e) \<and> \<not> demanded n) (caches st))"
  have wf: "hm_wf (caches st)" using assms(1) by (simp add: cache_inv_def)
  have dist: "distinct ns" using wf by (simp add: ns_def hm_wf_def distinct_map_filter)
  have sub: "set ns \<subseteq> set (hm_keys (caches st))" by (auto simp: ns_def hm_keys_def)
  have st': "(count, st') = fold prune_mark ns (0, st)"
    using assms(2) by (simp add: mark_pruned_pending_def ns_def)
  have mem: "n \<in> set ns \<longleftrightarrow> (\<exists>e. hm_get (caches st) n = Some e \<and> is_final (nc_freshness e) \<and> \<not> demanded n)"
    unfolding ns_def by (rule prune_targets [OF wf])
  have get: "hm_get (caches st') n = map_option (pruned_entry (demanded n)) (hm_get (caches st) n)"
    using prune_marks [OF dist sub, of 0 n] st' [symmetric] mem
    by (cases "hm_get (caches st) n") (auto simp: pruned_entry_def)
  moreover have "count = length ns"
    using prune_marks [OF dist sub, of 0 n] st' [symmetric] by simp
  moreover have "last_substantive_value u st' n = last_substantive_value u st n"
    by (auto simp: last_substantive_value_def get pruned_entry_def split: option.splits)
  moreover have "\<not> is_final (freshness_of st' n)" if "hm_contains (caches st') n" "\<not> demanded n"
    using that by (auto simp: hm_contains_def freshness_of_def get pruned_entry_def split: option.splits)
  ultimately show ?thesis by (simp add: ns_def)
qed

theorem mark_pruned_pending_exact_witness:
  "fst (mark_pruned_pending (\<lambda>n. n = Value demo_cell_x) demo_store) = 1
   \<and> last_substantive_value 0 (snd (mark_pruned_pending (\<lambda>n. n = Value demo_cell_x) demo_store)) (Value demo_cell_y) = Some 7"
proof -
  have "length (filter (\<lambda>(n, e). is_final (nc_freshness e) \<and> \<not> n = Value demo_cell_x) (caches demo_store)) = 1"
    "last_substantive_value 0 demo_store (Value demo_cell_y) = Some 7"
    by code_simp+
  then show ?thesis
    using mark_pruned_pending_exact [OF demo_store_inv prod.collapse [symmetric],
        where demanded = "\<lambda>n. n = Value demo_cell_x" and n = "Value demo_cell_y" and u = 0]
    by simp
qed

section \<open>Compute dispatch\<close>

text \<open>What one output of a dispatch looks like after it began and after it completed.\<close>

definition begun_entry ::
  "('v CachedResult \<Rightarrow> ContentHash) \<Rightarrow> 'v \<Rightarrow> ComputeNodeId \<Rightarrow> ('v, 'err, 'w) NodeCache option \<Rightarrow> ('v, 'err, 'w) NodeCache" where
  "begun_entry H u c old = (case old of
     Some e \<Rightarrow> e\<lparr>nc_freshness := Pending (of_hash (nc_result_hash e)), nc_pending_cause := Some (Compute c)\<rparr>
   | None \<Rightarrow> \<lparr>nc_result = dispatch_placeholder_result u, nc_result_hash = H (dispatch_placeholder_result u),
       nc_freshness = Pending resultref_none, nc_dependency_trace = trace_default,
       nc_basis_version = 0, nc_warm_state = None, nc_cost_per_byte = f64_zero,
       nc_pending_cause = Some (Compute c), nc_diagnostics = []\<rparr>)"

lemma begin_output_get:
  "fst (begin_output H u c out acc) = Suc (fst acc)
   \<and> hm_get (caches (snd (begin_output H u c out acc))) m
     = (if m = Value out then Some (begun_entry H u c (hm_get (caches (snd acc)) m)) else hm_get (caches (snd acc)) m)"
  by (auto simp: begin_output_def Let_def begun_entry_def mark_pending_with_cause_def hm_contains_def hm_simps
      split: option.splits)

lemma begin_dispatch_get:
  assumes "distinct outs"
  shows "fst (fold (begin_output H u c) outs acc) = fst acc + length outs
   \<and> hm_get (caches (snd (fold (begin_output H u c) outs acc))) m
     = (if m \<in> Value ` set outs then Some (begun_entry H u c (hm_get (caches (snd acc)) m)) else hm_get (caches (snd acc)) m)"
  using assms
proof (induction outs arbitrary: acc)
  case (Cons o1 outs)
  then show ?case using begin_output_get [of H u c o1 acc] by (auto simp: image_iff)
qed simp

lemma complete_output_get:
  assumes "cache_inv H (snd acc)"
  shows "fst (complete_output H v (out, val) acc) = Suc (fst acc)
   \<and> (\<exists>e. hm_get (caches (snd (complete_output H v (out, val) acc))) (Value out) = Some e
        \<and> nc_freshness e = Final \<and> nc_pending_cause e = None \<and> nc_basis_version e = v
        \<and> H (nc_result e) = H (CR_Value val DetDetermined))
   \<and> (m \<noteq> Value out \<longrightarrow> hm_get (caches (snd (complete_output H v (out, val) acc))) m = hm_get (caches (snd acc)) m)"
proof -
  have "nc_result_hash e = H (nc_result e)" if "hm_get (caches (snd acc)) (Value out) = Some e" for e
    using cache_inv_entry [OF assms that] by (simp add: entry_ok_def)
  then show ?thesis
    by (auto simp: complete_output_def record_evaluation_with_freshness_def Let_def hm_simps split: option.splits)
qed

definition completed :: "('v CachedResult \<Rightarrow> ContentHash) \<Rightarrow> VersionId \<Rightarrow> 'v \<Rightarrow> ('v, 'err, 'w) NodeCache option \<Rightarrow> bool" where
  "completed H v val entry = (case entry of
     None \<Rightarrow> False
   | Some e \<Rightarrow> nc_freshness e = Final \<and> nc_pending_cause e = None \<and> nc_basis_version e = v
       \<and> H (nc_result e) = H (CR_Value val DetDetermined))"

lemma complete_outputs_get:
  assumes "distinct (map fst ovs)" "cache_inv H (snd acc)"
  shows "fst (fold (complete_output H v) ovs acc) = fst acc + length ovs
   \<and> (\<forall>(out, val) \<in> set ovs. completed H v val (hm_get (caches (snd (fold (complete_output H v) ovs acc))) (Value out)))
   \<and> (\<forall>m. m \<notin> Value ` fst ` set ovs \<longrightarrow>
        hm_get (caches (snd (fold (complete_output H v) ovs acc))) m = hm_get (caches (snd acc)) m)"
  using assms
proof (induction ovs arbitrary: acc)
  case (Cons ov ovs)
  obtain out val where ov: "ov = (out, val)" by (cases ov)
  note one = complete_output_get [OF Cons.prems(2), of v out val]
  have rest: "Value out \<notin> Value ` fst ` set ovs" using Cons.prems(1) by (force simp: ov)
  have "cache_inv H (snd (complete_output H v ov acc))"
    using Cons.prems(2) by (rule cache_inv_complete_output)
  note IH = Cons.IH [OF _ this]
  show ?case
    using IH one rest Cons.prems(1) by (auto simp: ov completed_def split: option.splits)
qed simp

lemma donate_seed_get:
  "hm_get (caches (snd (donate_warm_state_with_cost (Compute c) s cost (seed_compute_entry_if_absent H u c v st)))) m
    = (if m = Compute c
       then Some ((case hm_get (caches st) m of Some e \<Rightarrow> e
              | None \<Rightarrow> nodecache_new H (dispatch_placeholder_result u) Final trace_default v)
              \<lparr>nc_warm_state := Some s, nc_cost_per_byte := sanitise_cost cost\<rparr>)
       else hm_get (caches st) m)"
  by (simp add: donate_warm_state_with_cost_def seed_compute_entry_if_absent_def update_entry_def hm_simps)

text \<open>
  A dispatch for the output cells of a computation: from its begin until its
  completion every output is pending with that computation as cause; the
  completion makes every output final at the given version with the delivered
  value's hash and no cause, and leaves a donated warm state with the
  computation.  Both report the number of outputs, and no other entry changes.
\<close>

theorem compute_dispatch_lifecycle:
  assumes "cache_inv H st" and "distinct (map fst ovs)"
    and "begin_compute_dispatch H u c (map fst ovs) st = (marked, st1)"
    and "complete_compute_dispatch_atomically H u c ovs v warm cost st1 = (updated, st2)"
  shows "marked = length ovs \<and> updated = length ovs
    \<and> (\<forall>out \<in> set (map fst ovs). is_pending (freshness_of st1 (Value out)) \<and> pending_cause st1 (Value out) = Some (Compute c))
    \<and> (\<forall>(out, val) \<in> set ovs. completed H v val (hm_get (caches st2) (Value out)))
    \<and> (\<forall>m. m \<notin> Value ` set (map fst ovs) \<longrightarrow> hm_get (caches st1) m = hm_get (caches st) m)
    \<and> (\<forall>m. m \<notin> Value ` set (map fst ovs) \<and> m \<noteq> Compute c \<longrightarrow> hm_get (caches st2) m = hm_get (caches st) m)
    \<and> fst (get_warm_state (Compute c) st2)
        = (case warm of Some s \<Rightarrow> Some s | None \<Rightarrow> fst (get_warm_state (Compute c) st))"
proof -
  note begun = begin_dispatch_get [OF assms(2), of H u c "(0, st)"]
  have st1: "(marked, st1) = fold (begin_output H u c) (map fst ovs) (0, st)"
    using assms(3) by (simp add: begin_compute_dispatch_def)
  have get1: "hm_get (caches st1) m = (if m \<in> Value ` set (map fst ovs)
      then Some (begun_entry H u c (hm_get (caches st) m)) else hm_get (caches st) m)" for m
    using begun [of m] st1 [symmetric] by simp
  have inv1: "cache_inv H st1"
    using cache_inv_begin [OF assms(1), of u c "map fst ovs"] assms(3) by simp
  define st15 where "st15 = snd (fold (complete_output H v) ovs (0, st1))"
  note all = complete_outputs_get [OF assms(2), of H "(0, st1)" v, simplified, OF inv1, folded st15_def]
  have st2: "st2 = (case warm of None \<Rightarrow> st15 | Some s \<Rightarrow>
      snd (donate_warm_state_with_cost (Compute c) s cost (seed_compute_entry_if_absent H u c v st15)))"
    and updated: "updated = fst (fold (complete_output H v) ovs (0, st1))"
    using assms(4) by (auto simp: complete_compute_dispatch_atomically_def case_prod_beta' Let_def st15_def split: option.splits)
  have get2: "hm_get (caches st2) m = hm_get (caches st15) m" if "m \<noteq> Compute c" for m
    using that by (simp add: st2 donate_seed_get split: option.split)
  have warm: "fst (get_warm_state (Compute c) st2)
      = (case warm of Some s \<Rightarrow> Some s | None \<Rightarrow> fst (get_warm_state (Compute c) st15))"
    by (simp add: st2 get_warm_state_def donate_seed_get split: option.split)
  have out15: "hm_get (caches st15) m = hm_get (caches st) m" if "m \<notin> Value ` set (map fst ovs)" for m
    using all that by (simp add: get1)
  have keep: "fst (get_warm_state (Compute c) st15) = fst (get_warm_state (Compute c) st)"
  proof -
    have "Compute c \<notin> Value ` set (map fst ovs)" by auto
    from out15 [OF this] show ?thesis by (simp add: get_warm_state_def split: option.split)
  qed
  have pend: "is_pending (freshness_of st1 (Value out)) \<and> pending_cause st1 (Value out) = Some (Compute c)"
    if "out \<in> set (map fst ovs)" for out
    using that get1 [of "Value out"]
    by (auto simp: freshness_of_def pending_cause_def begun_entry_def split: option.splits)
  have fin: "completed H v val (hm_get (caches st2) (Value out))" if "(out, val) \<in> set ovs" for out val
    using that all by (auto simp: get2)
  have "marked = length ovs" "updated = length ovs"
    using begun [of "Compute c"] st1 [symmetric] updated all by simp_all
  moreover have "\<forall>(out, val) \<in> set ovs. completed H v val (hm_get (caches st2) (Value out))" using fin by blast
  ultimately show ?thesis
    using pend get1 out15 get2 warm [unfolded keep] by simp
qed

definition demo_compute :: ComputeNodeId where
  "demo_compute = ComputeNodeId ''Part'' 0"

definition demo_begun :: "(nat, string, nat, unit) CacheStore" where
  "demo_begun = snd (begin_compute_dispatch demo_H 0 demo_compute [demo_cell_y] demo_store)"

theorem compute_dispatch_lifecycle_witness:
  "is_pending (freshness_of demo_begun (Value demo_cell_y))
   \<and> completed demo_H 2 9 (hm_get (caches (snd (complete_compute_dispatch_atomically demo_H 0 demo_compute
        [(demo_cell_y, 9)] 2 (Some 5) f64_zero demo_begun))) (Value demo_cell_y))"
  using compute_dispatch_lifecycle [where ovs = "[(demo_cell_y, 9)]", OF demo_store_inv _ prod.collapse [symmetric] prod.collapse [symmetric],
      where v = 2 and warm = "Some 5" and cost = f64_zero and c = demo_compute and u = 0]
  by (simp add: demo_begun_def)

section \<open>Content hashes\<close>

lemma debug_vcid_inject: "debug_vcid v = debug_vcid w \<longleftrightarrow> v = w"
proof
  assume "debug_vcid v = debug_vcid w"
  then have "''Value('' @ debug_vcid v @ '')'' = ''Value('' @ debug_vcid w @ '')''" by simp
  then have "debug_repr (Value v) = debug_repr (Value w)" by (simp only: debug_vcid_def debug_repr.simps append.simps append_assoc)
  then show "v = w" by (simp only: debug_repr_inject NodeId.inject)
qed simp

lemma sort_key_unique:
  assumes "distinct (map fst xs)" "distinct (map fst ys)" "set xs = set ys" "inj k"
  shows "sort_key (k \<circ> fst) xs = sort_key (k \<circ> fst) ys"
proof (rule map_sorted_distinct_set_unique)
  have key: "distinct (map (k \<circ> fst) xs)" "distinct (map (k \<circ> fst) ys)"
    using assms(1,2,4) by (auto simp: distinct_map inj_on_def inj_def)
  show "distinct (map (k \<circ> fst) (sort_key (k \<circ> fst) xs))" "distinct (map (k \<circ> fst) (sort_key (k \<circ> fst) ys))"
    using key by (simp_all add: distinct_map)
  show "inj_on (k \<circ> fst) (set (sort_key (k \<circ> fst) xs) \<union> set (sort_key (k \<circ> fst) ys))"
    using key(1) assms(3) by (simp add: distinct_map)
qed (simp_all add: assms(3))

text \<open>
  The content hash of a resolution depends only on the map it holds, not on
  the order in which the hash map enumerates its entries.
\<close>

theorem content_hash_order_independent:
  assumes "hm_wf m" "hm_wf m'" "hm_get m = hm_get m'"
  shows "content_hash xxh vh (CR_Resolution m) = content_hash xxh vh (CR_Resolution m')"
proof -
  have "set m = set m'"
    using assms by (metis hm_get_eq_in set_eqI surj_pair)
  moreover have "inj debug_vcid" by (simp add: inj_def debug_vcid_inject)
  ultimately have "sort_key (debug_vcid \<circ> fst) m = sort_key (debug_vcid \<circ> fst) m'"
    using assms(1,2) by (intro sort_key_unique) (simp_all add: hm_wf_def)
  then show ?thesis by (simp add: comp_def)
qed

theorem content_hash_order_independent_witness:
  "content_hash (\<lambda>bs. of_nat (length bs)) of_nat (CR_Resolution [(demo_cell_x, 1), (demo_cell_y, 2)])
   = content_hash (\<lambda>bs. of_nat (length bs)) of_nat (CR_Resolution [(demo_cell_y, 2), (demo_cell_x, 1)])"
  by (rule content_hash_order_independent)
    (auto simp: hm_wf_def hm_get_def demo_cell_x_def demo_cell_y_def)

end
