(* ===== verification/WarmPool.thy ===== *)
theory WarmPool
  imports Identity F64
begin

text \<open>
  The warm-state pool (\<open>reify-eval/src/warm_pool.rs\<close>): opaque states keyed by
  node under a memory budget, evicted by cost per byte and then by age, with a
  bounded buffer of telemetry events.  An \<open>Instant\<close> is a natural number that the
  caller passes; the release build on a 64-bit target is modelled, where the debug
  assertions on the event buffer are absent and the additions of \<open>used_bytes\<close> and
  a size, which a caller provides, wrap around (\<open>usize_add\<close>); a build with overflow
  checks panics there.  The subtractions saturate in the code.
\<close>

named_theorems pool_keeps \<open>operations that keep the invariant of the pool\<close>

section \<open>State\<close>

definition usize_add :: "usize \<Rightarrow> usize \<Rightarrow> usize" where
  "usize_add a b = unat (of_nat a + of_nat b :: u64)"

lemma usize_add_mod: "usize_add a b = (a + b) mod 2 ^ 64"
  unfolding usize_add_def by (simp add: unat_of_nat flip: of_nat_add)

lemma usize_add_exact: "a + b < 2 ^ 64 \<Longrightarrow> usize_add a b = a + b"
  by (simp add: usize_add_mod)

lemma usize_add_le: "usize_add a b \<le> a + b"
  by (simp add: usize_add_mod)

datatype 'a OpaqueState = OpaqueState (opaque_inner: 'a) (estimated_size_bytes: usize)

definition DEFAULT_BUDGET_BYTES :: usize where
  "DEFAULT_BUDGET_BYTES = 2 * 1024 * 1024 * 1024"

definition MAX_BUFFERED_EVENTS :: usize where
  "MAX_BUFFERED_EVENTS = 65536"

datatype WarmPoolEvent = Donated NodeId usize | Evicted NodeId usize

type_synonym Instant = nat

record 'a PoolEntry =
  pe_state :: "'a OpaqueState"
  last_accessed :: Instant
  size_bytes :: usize
  cost_per_byte :: f64

record 'a WarmStatePool =
  pool :: "(NodeId, 'a PoolEntry) hash_map"
  budget_bytes :: "usize option"
  used_bytes :: usize
  events :: "WarmPoolEvent list"
  auto_trim_warned :: bool
  dropped_events :: u64
  events_cap :: usize

section \<open>Construction\<close>

text \<open>\<open>None\<close> is the panic of the assertion on the cap.\<close>

definition with_limits :: "usize option \<Rightarrow> usize \<Rightarrow> 'a WarmStatePool option" where
  "with_limits budget cap =
     (if cap \<ge> 2
      then Some \<lparr>pool = [], budget_bytes = budget, used_bytes = 0, events = [], auto_trim_warned = False,
                 dropped_events = 0, events_cap = cap\<rparr>
      else None)"

definition with_budget :: "usize option \<Rightarrow> 'a WarmStatePool option" where
  "with_budget budget = with_limits budget MAX_BUFFERED_EVENTS"

definition pool_new :: "usize \<Rightarrow> 'a WarmStatePool option" where
  "pool_new budget = with_budget (Some budget)"

definition unlimited :: "'a WarmStatePool option" where
  "unlimited = with_budget None"

definition eq_ignore_ascii_case :: "string \<Rightarrow> string \<Rightarrow> bool" where
  "eq_ignore_ascii_case s t \<longleftrightarrow> to_ascii_lowercase s = to_ascii_lowercase t"

definition pool_from_env_value :: "string option \<Rightarrow> 'a WarmStatePool option" where
  "pool_from_env_value value =
     with_budget
       (case value of
          None \<Rightarrow> Some DEFAULT_BUDGET_BYTES
        | Some s \<Rightarrow>
            if eq_ignore_ascii_case s ''unlimited'' then None
            else if s = [] then Some DEFAULT_BUDGET_BYTES
            else (case parse_unsigned 64 s of Some n \<Rightarrow> Some n | None \<Rightarrow> Some DEFAULT_BUDGET_BYTES))"

definition from_config_or_env_value :: "u64 option \<Rightarrow> string option \<Rightarrow> 'a WarmStatePool option" where
  "from_config_or_env_value config env =
     (let fallback = (case config of Some n \<Rightarrow> with_budget (Some (unat n)) | None \<Rightarrow> pool_from_env_value None) in
      case env of
        Some s \<Rightarrow> if s \<noteq> [] then pool_from_env_value (Some s) else fallback
      | None \<Rightarrow> fallback)"

section \<open>Events\<close>

definition push_event :: "WarmPoolEvent \<Rightarrow> 'a WarmStatePool \<Rightarrow> 'a WarmStatePool" where
  "push_event ev p =
     (let cap = events_cap p; evs = events p @ [ev] in
      if length evs > cap
      then p\<lparr>events := drop (cap div 2) evs, dropped_events := dropped_events p + of_nat (cap div 2),
             auto_trim_warned := True\<rparr>
      else p\<lparr>events := evs\<rparr>)"

definition drain_events :: "'a WarmStatePool \<Rightarrow> WarmPoolEvent list \<times> 'a WarmStatePool" where
  "drain_events p = (events p, p\<lparr>events := []\<rparr>)"

section \<open>Eviction\<close>

text \<open>
  \<open>partial_cmp(..).unwrap_or(Equal).then(..)\<close>: an entry goes before another when it
  is cheaper, or when neither is cheaper and it is older.
\<close>

definition goes_before :: "'a PoolEntry \<Rightarrow> 'a PoolEntry \<Rightarrow> bool" where
  "goes_before a b \<longleftrightarrow> f64_lt (cost_per_byte a) (cost_per_byte b)
     \<or> (\<not> f64_lt (cost_per_byte b) (cost_per_byte a) \<and> last_accessed a < last_accessed b)"

text \<open>\<open>Iterator::min_by\<close> keeps the earlier of two equal elements.\<close>

fun min_by :: "('a \<Rightarrow> 'a \<Rightarrow> bool) \<Rightarrow> 'a list \<Rightarrow> 'a option" where
  "min_by before [] = None"
| "min_by before (x # xs) = Some (foldl (\<lambda>m y. if before y m then y else m) x xs)"

definition evict_one :: "'a WarmStatePool \<Rightarrow> 'a WarmStatePool" where
  "evict_one p =
     (case map_option fst (min_by (\<lambda>a b. goes_before (snd a) (snd b)) (pool p)) of
        None \<Rightarrow> p
      | Some key \<Rightarrow>
          (case hm_get (pool p) key of
             None \<Rightarrow> p
           | Some entry \<Rightarrow>
               (let p1 = push_event (Evicted key (size_bytes entry)) (p\<lparr>pool := hm_remove key (pool p)\<rparr>)
                in p1\<lparr>used_bytes := used_bytes p1 - size_bytes entry\<rparr>)))"

lemma min_by_in: "min_by before xs = Some x \<Longrightarrow> x \<in> set xs"
proof (cases xs)
  case (Cons y ys)
  have "foldl (\<lambda>m y. if before y m then y else m) z ys \<in> insert z (set ys)" for z
    by (induction ys arbitrary: z) auto
  then show "min_by before xs = Some x \<Longrightarrow> x \<in> set xs" using Cons by auto
qed simp

lemma min_by_exists: "xs \<noteq> [] \<Longrightarrow> \<exists>x. min_by before xs = Some x"
  by (cases xs) auto

lemma pool_push_event [simp]:
  "pool (push_event ev p) = pool p" "used_bytes (push_event ev p) = used_bytes p"
  "budget_bytes (push_event ev p) = budget_bytes p" "events_cap (push_event ev p) = events_cap p"
  by (simp_all add: push_event_def Let_def)

lemma length_hm_remove: "hm_get m k \<noteq> None \<Longrightarrow> length (hm_remove k m) < length m"
  unfolding hm_get_def hm_remove_def
  by (induction m) (auto simp: less_Suc_eq_le length_delete_le split: if_splits)

lemma evict_one_shrinks: "pool p \<noteq> [] \<Longrightarrow> length (pool (evict_one p)) < length (pool p)"
proof -
  assume "pool p \<noteq> []"
  then obtain k e where "min_by (\<lambda>a b. goes_before (snd a) (snd b)) (pool p) = Some (k, e)"
    using min_by_exists by fastforce
  moreover from this have "hm_get (pool p) k \<noteq> None"
    using min_by_in hm_keys_iff [of k "pool p"] by (force simp: hm_keys_def)
  ultimately show ?thesis
    using length_hm_remove [of "pool p" k] by (auto simp: evict_one_def Let_def)
qed

function evict_until :: "usize \<Rightarrow> usize \<Rightarrow> 'a WarmStatePool \<Rightarrow> 'a WarmStatePool" where
  "evict_until budget sz p =
     (if usize_add (used_bytes p) sz > budget \<and> pool p \<noteq> [] then evict_until budget sz (evict_one p) else p)"
  by auto
termination
  by (relation "measure (\<lambda>(_, _, p). length (pool p))") (auto simp: evict_one_shrinks)

declare evict_until.simps [simp del]

section \<open>Donation and checkout\<close>

definition displace :: "NodeId \<Rightarrow> 'a WarmStatePool \<Rightarrow> 'a WarmStatePool" where
  "displace node_id p =
     (case hm_get (pool p) node_id of
        None \<Rightarrow> p
      | Some old \<Rightarrow>
          (let p1 = push_event (Evicted node_id (size_bytes old)) (p\<lparr>pool := hm_remove node_id (pool p)\<rparr>)
           in p1\<lparr>used_bytes := used_bytes p1 - size_bytes old\<rparr>))"

definition insert_entry :: "NodeId \<Rightarrow> 'a OpaqueState \<Rightarrow> Instant \<Rightarrow> f64 \<Rightarrow> 'a WarmStatePool \<Rightarrow> 'a WarmStatePool" where
  "insert_entry node_id state stamp cost p =
     (let sz = estimated_size_bytes state;
          p1 = displace node_id p;
          p2 = (case budget_bytes p1 of Some budget \<Rightarrow> evict_until budget sz p1 | None \<Rightarrow> p1);
          p3 = p2\<lparr>pool := hm_insert node_id \<lparr>pe_state = state, last_accessed = stamp, size_bytes = sz,
                                             cost_per_byte = sanitise_cost cost\<rparr> (pool p2),
                  used_bytes := usize_add (used_bytes p2) sz\<rparr>
      in push_event (Donated node_id sz) p3)"

definition donate_with_cost :: "Instant \<Rightarrow> NodeId \<Rightarrow> 'a OpaqueState \<Rightarrow> f64 \<Rightarrow> 'a WarmStatePool \<Rightarrow> 'a WarmStatePool" where
  "donate_with_cost now node_id state cost p = insert_entry node_id state now cost p"

definition donate :: "Instant \<Rightarrow> NodeId \<Rightarrow> 'a OpaqueState \<Rightarrow> 'a WarmStatePool \<Rightarrow> 'a WarmStatePool" where
  "donate now node_id state p = donate_with_cost now node_id state f64_zero p"

definition donate_preserving_lru_with_cost ::
  "NodeId \<Rightarrow> 'a OpaqueState \<Rightarrow> Instant \<Rightarrow> f64 \<Rightarrow> 'a WarmStatePool \<Rightarrow> 'a WarmStatePool" where
  "donate_preserving_lru_with_cost node_id state stamp cost p = insert_entry node_id state stamp cost p"

definition checkout_with_lru_stamp_and_cost ::
  "NodeId \<Rightarrow> 'a WarmStatePool \<Rightarrow> ('a OpaqueState \<times> Instant \<times> f64) option \<times> 'a WarmStatePool" where
  "checkout_with_lru_stamp_and_cost node_id p =
     (case hm_get (pool p) node_id of
        None \<Rightarrow> (None, p)
      | Some entry \<Rightarrow>
          (Some (pe_state entry, last_accessed entry, cost_per_byte entry),
           p\<lparr>pool := hm_remove node_id (pool p), used_bytes := used_bytes p - size_bytes entry\<rparr>))"

definition checkout :: "NodeId \<Rightarrow> 'a WarmStatePool \<Rightarrow> 'a OpaqueState option \<times> 'a WarmStatePool" where
  "checkout node_id p = (let (r, p') = checkout_with_lru_stamp_and_cost node_id p in (map_option fst r, p'))"

definition pool_cost_per_byte_of :: "'a WarmStatePool \<Rightarrow> NodeId \<Rightarrow> f64 option" where
  "pool_cost_per_byte_of p node_id = map_option cost_per_byte (hm_get (pool p) node_id)"

definition pool_clear :: "'a WarmStatePool \<Rightarrow> 'a WarmStatePool" where
  "pool_clear p = p\<lparr>pool := [], used_bytes := 0, events := []\<rparr>"

definition pool_contains :: "'a WarmStatePool \<Rightarrow> NodeId \<Rightarrow> bool" where
  "pool_contains p node_id = hm_contains (pool p) node_id"

section \<open>The invariant\<close>

definition pool_entry_ok :: "'a PoolEntry \<Rightarrow> bool" where
  "pool_entry_ok e \<longleftrightarrow> cost_ok (cost_per_byte e) \<and> size_bytes e = estimated_size_bytes (pe_state e)"

definition pool_inv :: "'a WarmStatePool \<Rightarrow> bool" where
  "pool_inv p \<longleftrightarrow> hm_wf (pool p) \<and> used_bytes p = hm_sum size_bytes (pool p)
     \<and> hm_all (\<lambda>_. pool_entry_ok) (pool p) \<and> length (events p) \<le> events_cap p \<and> 2 \<le> events_cap p"

lemma pool_inv_entry: "pool_inv p \<Longrightarrow> hm_get (pool p) n = Some e \<Longrightarrow> pool_entry_ok e"
  by (auto simp: pool_inv_def dest: hm_all_get)

lemma pool_inv_new: "with_limits b c = Some p \<Longrightarrow> pool_inv p"
  by (auto simp: with_limits_def pool_inv_def split: if_splits)

lemma pool_inv_push_event [pool_keeps]: "pool_inv p \<Longrightarrow> pool_inv (push_event ev p)"
  by (auto simp: pool_inv_def push_event_def Let_def)

lemma pool_inv_drop:
  assumes "pool_inv p" "hm_get (pool p) n = Some e" "pool q = hm_remove n (pool p)"
    "used_bytes q = used_bytes p - size_bytes e" "length (events q) \<le> events_cap q" "2 \<le> events_cap q"
  shows "pool_inv q"
  using assms hm_sum_remove [of "pool p" n e size_bytes]
  by (auto simp: pool_inv_def intro: hm_inv)

lemma pool_inv_evicted:
  assumes "pool_inv p" "hm_get (pool p) n = Some e"
  shows "pool_inv (let p1 = push_event ev (p\<lparr>pool := hm_remove n (pool p)\<rparr>) in p1\<lparr>used_bytes := used_bytes p1 - size_bytes e\<rparr>)"
  by (rule pool_inv_drop [OF assms]) (use assms(1) in \<open>auto simp: Let_def push_event_def pool_inv_def\<close>)

lemma used_displace: "used_bytes (displace n p) \<le> used_bytes p"
  by (simp add: displace_def Let_def split: option.split)

lemma used_evict_one: "used_bytes (evict_one p) \<le> used_bytes p"
  by (simp add: evict_one_def Let_def split: option.split)

lemma pool_inv_displace: "pool_inv p \<Longrightarrow> pool_inv (displace n p)"
  unfolding displace_def by (cases "hm_get (pool p) n") (auto simp only: option.case intro: pool_inv_evicted)

section \<open>The order of eviction\<close>

lemma goes_before_trans: "goes_before a b \<Longrightarrow> goes_before b c \<Longrightarrow> pool_entry_ok a \<Longrightarrow> pool_entry_ok b \<Longrightarrow> pool_entry_ok c
    \<Longrightarrow> goes_before a c"
  by (auto simp: goes_before_def f64_lt_def pool_entry_ok_def cost_ok_def dest: finite_not_nan)

lemma goes_before_irrefl [simp]: "\<not> goes_before a a"
  by (simp add: goes_before_def)

lemma not_goes_before:
  assumes "\<not> goes_before f e" "pool_entry_ok e" "pool_entry_ok f"
  shows "f64_lt (cost_per_byte e) (cost_per_byte f)
    \<or> f64_eq (cost_per_byte e) (cost_per_byte f) \<and> last_accessed e \<le> last_accessed f"
  using assms f64_linear [of "cost_per_byte e" "cost_per_byte f"]
  by (auto simp: goes_before_def pool_entry_ok_def cost_ok_def f64_eq_def f64_lt_def dest: finite_not_nan)

lemma min_by_least:
  assumes "min_by before xs = Some x" "y \<in> set xs"
    and "\<And>a. \<not> before a a"
    and "\<And>a b c. a \<in> set xs \<Longrightarrow> b \<in> set xs \<Longrightarrow> c \<in> set xs \<Longrightarrow> before a b \<Longrightarrow> before b c \<Longrightarrow> before a c"
  shows "\<not> before y x"
proof -
  obtain z zs where xs: "xs = z # zs" using assms(2) by (cases xs) auto
  let ?pick = "\<lambda>m y. if before y m then y else m"
  have "(\<forall>y \<in> insert z (set (take n zs)). \<not> before y (foldl ?pick z (take n zs)))
      \<and> foldl ?pick z (take n zs) \<in> set xs" for n
  proof (induction n)
    case 0
    then show ?case using assms(3) by (simp add: xs)
  next
    case (Suc n)
    show ?case
    proof (cases "n < length zs")
      case True
      then have "zs ! n \<in> set xs" "set (take n zs) \<subseteq> set xs" "z \<in> set xs"
        by (auto simp: xs dest: in_set_takeD)
      note mem = this
      define m where "m = foldl ?pick z (take n zs)"
      have m: "m \<in> set xs" "\<And>w. w \<in> insert z (set (take n zs)) \<Longrightarrow> \<not> before w m"
        using Suc by (auto simp: m_def)
      have "\<not> before w (zs ! n)" if "before (zs ! n) m" "w \<in> insert z (set (take n zs))" for w
        using that m mem assms(4) [of w "zs ! n" m] by auto
      then show ?thesis
        using m mem assms(3) True by (auto simp: take_Suc_conv_app_nth simp flip: m_def)
    qed (use Suc in simp)
  qed
  from this [of "length zs"] show ?thesis using assms(1,2) by (auto simp: xs)
qed

lemma evict_one_spec:
  assumes "pool_inv p" "pool p \<noteq> []"
  obtains n e where "hm_get (pool p) n = Some e" "pool (evict_one p) = hm_remove n (pool p)"
    "\<And>m f. hm_get (pool p) m = Some f \<Longrightarrow> \<not> goes_before f e"
    "pool_inv (evict_one p)" "budget_bytes (evict_one p) = budget_bytes p"
proof -
  let ?before = "\<lambda>a b. goes_before (snd a) (snd b)"
  obtain n e where min: "min_by ?before (pool p) = Some (n, e)"
    using min_by_exists [OF assms(2)] by fastforce
  have wf: "hm_wf (pool p)" using assms(1) by (simp add: pool_inv_def)
  have get: "hm_get (pool p) n = Some e"
    using min_by_in [OF min] by (simp add: hm_get_eq_in [OF wf])
  have ok: "pool_entry_ok (snd a)" if "a \<in> set (pool p)" for a
    using that assms(1) by (cases a) (auto simp: pool_inv_def hm_all_def list_all_iff)
  have least: "\<not> goes_before f e" if "hm_get (pool p) m = Some f" for m f
    using min_by_least [OF min, of "(m, f)"] that ok
    by (auto simp: hm_get_eq_in [OF wf] intro: goes_before_trans)
  have ev: "evict_one p = (let p1 = push_event (Evicted n (size_bytes e)) (p\<lparr>pool := hm_remove n (pool p)\<rparr>)
      in p1\<lparr>used_bytes := used_bytes p1 - size_bytes e\<rparr>)"
    by (simp add: evict_one_def min get)
  have "pool_inv (evict_one p)"
    unfolding ev by (rule pool_inv_evicted [OF assms(1) get])
  then show thesis using that [OF get] least by (simp add: ev Let_def)
qed

text \<open>
  One state of the pool follows from another by evictions: surviving entries are
  unchanged, and no evicted entry was preferable to a surviving one.
\<close>

definition evicted_from :: "'a WarmStatePool \<Rightarrow> 'a WarmStatePool \<Rightarrow> bool" where
  "evicted_from p q \<longleftrightarrow> (\<forall>n. hm_get (pool q) n = None \<or> hm_get (pool q) n = hm_get (pool p) n)
     \<and> (\<forall>n e m f. hm_get (pool p) n = Some e \<and> hm_get (pool q) n = None \<and> hm_get (pool q) m = Some f
          \<longrightarrow> \<not> goes_before f e)"

lemma evicted_from_step:
  assumes "hm_get (pool p) n = Some e" "\<And>m f. hm_get (pool p) m = Some f \<Longrightarrow> \<not> goes_before f e"
    and "pool p' = hm_remove n (pool p)" "evicted_from p' q"
  shows "evicted_from p q"
proof -
  have sub: "hm_get (pool q) m = None \<or> hm_get (pool q) m = hm_get (pool p) m" for m
    using assms(3,4) by (force simp: evicted_from_def hm_simps split: if_splits)
  have "\<not> goes_before f d" if "hm_get (pool p) j = Some d" "hm_get (pool q) j = None" "hm_get (pool q) m = Some f" for j d m f
  proof (cases "j = n")
    case True
    then show ?thesis using that assms(1,2) sub [of m] by auto
  next
    case False
    then have "hm_get (pool p') j = Some d" using that(1) by (simp add: assms(3) hm_simps)
    then show ?thesis using assms(4) that(2,3) unfolding evicted_from_def by blast
  qed
  then show ?thesis using sub unfolding evicted_from_def by blast
qed

lemma evict_until_spec:
  assumes "pool_inv p"
  shows "pool_inv (evict_until b sz p) \<and> evicted_from p (evict_until b sz p)
    \<and> budget_bytes (evict_until b sz p) = budget_bytes p
    \<and> used_bytes (evict_until b sz p) \<le> used_bytes p
    \<and> (usize_add (used_bytes (evict_until b sz p)) sz \<le> b \<or> pool (evict_until b sz p) = [])
    \<and> (usize_add (used_bytes p) sz \<le> b \<longrightarrow> evict_until b sz p = p)"
  using assms
proof (induction b sz p rule: evict_until.induct)
  case (1 b sz p)
  show ?case
  proof (cases "usize_add (used_bytes p) sz > b \<and> pool p \<noteq> []")
    case False
    then have "evict_until b sz p = p" by (subst evict_until.simps) (simp only: if_False)
    then show ?thesis using 1(2) False by (auto simp: evicted_from_def)
  next
    case True
    then obtain n e where v: "hm_get (pool p) n = Some e" "pool (evict_one p) = hm_remove n (pool p)"
      "\<And>m f. hm_get (pool p) m = Some f \<Longrightarrow> \<not> goes_before f e"
      "pool_inv (evict_one p)" "budget_bytes (evict_one p) = budget_bytes p"
      using evict_one_spec [OF 1(2)] by blast
    note IH = 1(1) [OF True v(4)]
    have q: "evict_until b sz p = evict_until b sz (evict_one p)"
      using True by (subst evict_until.simps) simp
    have "evicted_from p (evict_until b sz (evict_one p))"
      using IH by (intro evicted_from_step [OF v(1,3,2)]) blast+
    moreover have "\<not> usize_add (used_bytes p) sz \<le> b" using True by simp
    moreover have "used_bytes (evict_until b sz (evict_one p)) \<le> used_bytes p"
      using IH used_evict_one [of p] by (blast intro: order_trans)
    ultimately show ?thesis unfolding q using IH v(5) by metis
  qed
qed

section \<open>Donations\<close>

text \<open>The pool after the old entry of the node is gone and room was made.\<close>

definition make_room :: "NodeId \<Rightarrow> usize \<Rightarrow> 'a WarmStatePool \<Rightarrow> 'a WarmStatePool" where
  "make_room node_id sz p = (case budget_bytes p of
     Some budget \<Rightarrow> evict_until budget sz (displace node_id p) | None \<Rightarrow> displace node_id p)"

lemma displace_get:
  "hm_get (pool (displace n p)) m = (if m = n then None else hm_get (pool p) m)"
  "budget_bytes (displace n p) = budget_bytes p"
  by (auto simp: displace_def Let_def hm_simps split: option.split)

lemma make_room_spec:
  assumes "pool_inv p"
  shows "pool_inv (make_room n sz p) \<and> evicted_from (displace n p) (make_room n sz p)
    \<and> budget_bytes (make_room n sz p) = budget_bytes p \<and> used_bytes (make_room n sz p) \<le> used_bytes p
    \<and> (\<forall>b. budget_bytes p = Some b
         \<longrightarrow> usize_add (used_bytes (make_room n sz p)) sz \<le> b \<or> pool (make_room n sz p) = [])"
proof (cases "budget_bytes p")
  case None
  then show ?thesis
    by (auto simp: make_room_def displace_get(2) pool_inv_displace [OF assms] evicted_from_def used_displace)
next
  case (Some b)
  then show ?thesis
    using evict_until_spec [OF pool_inv_displace [OF assms], of b sz n] used_displace [of n p]
    by (auto simp: make_room_def displace_get(2))
qed

lemma make_room_gone:
  assumes "pool_inv p" shows "hm_get (pool (make_room n sz p)) n = None"
  using make_room_spec [OF assms, of n sz] displace_get(1) [of n p n]
  by (metis evicted_from_def)

lemma insert_entry_room:
  "insert_entry n st t c p = push_event (Donated n (estimated_size_bytes st))
     ((make_room n (estimated_size_bytes st) p)
       \<lparr>pool := hm_insert n \<lparr>pe_state = st, last_accessed = t, size_bytes = estimated_size_bytes st,
                           cost_per_byte = sanitise_cost c\<rparr> (pool (make_room n (estimated_size_bytes st) p)),
        used_bytes := usize_add (used_bytes (make_room n (estimated_size_bytes st) p)) (estimated_size_bytes st)\<rparr>)"
  by (simp add: insert_entry_def Let_def make_room_def displace_get split: option.split)

lemma make_room_add:
  assumes "pool_inv p" "used_bytes p + sz < 2 ^ 64"
  shows "usize_add (used_bytes (make_room n sz p)) sz = used_bytes (make_room n sz p) + sz"
  using make_room_spec [OF assms(1), of n sz] assms(2) by (auto intro: usize_add_exact)

lemma pool_inv_insert_entry [pool_keeps]:
  assumes "pool_inv p" "used_bytes p + estimated_size_bytes st < 2 ^ 64"
  shows "pool_inv (insert_entry n st t c p)"
proof -
  let ?q = "make_room n (estimated_size_bytes st) p"
  have "pool_inv ?q" using make_room_spec [OF assms(1)] by blast
  moreover note hm_sum_insert_fresh [OF make_room_gone [OF assms(1)], of size_bytes]
  ultimately show ?thesis
    unfolding insert_entry_room make_room_add [OF assms]
    by (intro pool_inv_push_event) (auto simp: pool_inv_def pool_entry_ok_def intro: hm_inv)
qed

lemma pool_inv_checkout [pool_keeps]:
  assumes "pool_inv p" shows "pool_inv (snd (checkout_with_lru_stamp_and_cost n p))"
proof (cases "hm_get (pool p) n")
  case (Some e)
  then show ?thesis
    using assms by (intro pool_inv_drop [OF assms Some]) (auto simp: checkout_with_lru_stamp_and_cost_def pool_inv_def)
qed (simp add: checkout_with_lru_stamp_and_cost_def assms)

inductive pool_reachable :: "'a WarmStatePool \<Rightarrow> bool" where
  pool_start: "with_limits budget cap = Some p \<Longrightarrow> pool_reachable p"
| pool_donate: "pool_reachable p \<Longrightarrow> used_bytes p + estimated_size_bytes st < 2 ^ 64
    \<Longrightarrow> pool_reachable (insert_entry n st t c p)"
| pool_checkout: "pool_reachable p \<Longrightarrow> pool_reachable (snd (checkout_with_lru_stamp_and_cost n p))"
| pool_drain: "pool_reachable p \<Longrightarrow> pool_reachable (snd (drain_events p))"
| pool_cleared: "pool_reachable p \<Longrightarrow> pool_reachable (pool_clear p)"

lemma pool_reachable_inv: "pool_reachable p \<Longrightarrow> pool_inv p"
proof (induction rule: pool_reachable.induct)
  case (pool_drain p)
  then show ?case by (simp add: drain_events_def pool_inv_def)
next
  case (pool_cleared p)
  then show ?case by (simp add: pool_clear_def pool_inv_def)
qed (auto intro: pool_keeps pool_inv_new)

text \<open>
  In every pool that donations whose sizes do not overflow the counter, checkouts,
  drains and clears can produce, the accounted bytes are the sum of the sizes of the stored states, every stored
  cost is a finite non-negative number, and the event buffer stays within its
  cap.
\<close>

theorem pool_reachable_accounting:
  assumes "pool_reachable p"
  shows "used_bytes p = sum_list (map (\<lambda>(n, e). estimated_size_bytes (pe_state e)) (pool p))
    \<and> list_all (\<lambda>(n, e). cost_ok (cost_per_byte e)) (pool p)
    \<and> length (events p) \<le> events_cap p \<and> distinct (hm_keys (pool p))"
proof -
  have inv: "pool_inv p" using assms by (rule pool_reachable_inv)
  then have "\<forall>x \<in> set (pool p). size_bytes (snd x) = estimated_size_bytes (pe_state (snd x))"
    by (auto simp: pool_inv_def hm_all_def list_all_iff pool_entry_ok_def)
  then have "map (size_bytes \<circ> snd) (pool p) = map (\<lambda>(n, e). estimated_size_bytes (pe_state e)) (pool p)"
    by (auto simp: case_prod_beta')
  then have "used_bytes p = sum_list (map (\<lambda>(n, e). estimated_size_bytes (pe_state e)) (pool p))"
    using inv by (simp only: pool_inv_def hm_sum_def)
  then show ?thesis
    using inv by (auto simp: pool_inv_def hm_all_def list_all_iff pool_entry_ok_def hm_wf_def hm_keys_def)
qed

definition demo_node :: "string \<Rightarrow> NodeId" where
  "demo_node s = Value (ValueCellId ''Part'' s)"

definition demo_pool :: "nat WarmStatePool" where
  "demo_pool = insert_entry (demo_node ''b'') (OpaqueState 2 6) 2 f64_zero
     (insert_entry (demo_node ''a'') (OpaqueState 1 5) 1 f64_zero (the (with_limits (Some 10) 4)))"

lemma demo_pool_reachable: "pool_reachable demo_pool"
proof -
  let ?start = "the (with_limits (Some 10) 4) :: nat WarmStatePool"
  let ?one = "insert_entry (demo_node ''a'') (OpaqueState 1 5) 1 f64_zero ?start"
  have "pool_reachable ?start" by (rule pool_start [of "Some 10" 4]) (simp add: with_limits_def)
  moreover have "used_bytes ?start = 0" by (simp add: with_limits_def)
  ultimately have one: "pool_reachable ?one" by (intro pool_donate) (assumption, simp)
  have "used_bytes ?one = 5" by code_simp
  then show ?thesis unfolding demo_pool_def by (intro pool_donate [OF one]) simp
qed

theorem pool_reachable_accounting_witness: "used_bytes demo_pool = 6"
proof -
  have "sum_list (map (\<lambda>(n, e). estimated_size_bytes (pe_state e)) (pool demo_pool)) = 6" by code_simp
  then show ?thesis using pool_reachable_accounting [OF demo_pool_reachable] by simp
qed

text \<open>
  C37.  A donation stores the state with the given stamp and a sanitised cost.
  When the used bytes and the donated size do not overflow \<open>usize\<close>, the accounted
  bytes are the sum of the stored sizes, and with a budget either they fit it or
  the donated state is the only one left.  Every other entry is kept unchanged or evicted, and an evicted entry is
  cheaper per byte than each kept one, or equally cheap and no younger.
\<close>

theorem insert_entry_cost_weighted:
  assumes "pool_inv p" and "q = insert_entry n st t c p"
  shows "hm_get (pool q) n = Some \<lparr>pe_state = st, last_accessed = t, size_bytes = estimated_size_bytes st,
            cost_per_byte = sanitise_cost c\<rparr>
    \<and> (used_bytes p + estimated_size_bytes st < 2 ^ 64 \<longrightarrow> used_bytes q = hm_sum size_bytes (pool q)
         \<and> (\<forall>b. budget_bytes p = Some b \<longrightarrow> used_bytes q \<le> b \<or> hm_keys (pool q) = [n]))
    \<and> (\<forall>m. m \<noteq> n \<longrightarrow> hm_get (pool q) m = None \<or> hm_get (pool q) m = hm_get (pool p) m)
    \<and> (\<forall>j e m f. j \<noteq> n \<and> m \<noteq> n \<and> hm_get (pool p) j = Some e \<and> hm_get (pool q) j = None \<and> hm_get (pool q) m = Some f
         \<longrightarrow> f64_lt (cost_per_byte e) (cost_per_byte f)
           \<or> f64_eq (cost_per_byte e) (cost_per_byte f) \<and> last_accessed e \<le> last_accessed f)"
proof -
  let ?sz = "estimated_size_bytes st"
  let ?r = "make_room n ?sz p"
  have get: "hm_get (pool q) m = (if m = n then Some \<lparr>pe_state = st, last_accessed = t, size_bytes = ?sz,
      cost_per_byte = sanitise_cost c\<rparr> else hm_get (pool ?r) m)" for m
    by (simp add: assms(2) insert_entry_room hm_simps)
  note room = make_room_spec [OF assms(1), of n ?sz]
  have "used_bytes q \<le> b \<or> hm_keys (pool q) = [n]" if "budget_bytes p = Some b" for b
    using room that by (auto simp: assms(2) insert_entry_room hm_keys_def hm_insert_def)
  moreover have "evicted_from (displace n p) ?r" using room by blast
  then have "hm_get (pool q) m = None \<or> hm_get (pool q) m = hm_get (pool p) m" if "m \<noteq> n" for m
    using that displace_get(1) [of n p m] by (auto simp: get evicted_from_def)
  moreover have "f64_lt (cost_per_byte e) (cost_per_byte f)
      \<or> f64_eq (cost_per_byte e) (cost_per_byte f) \<and> last_accessed e \<le> last_accessed f"
    if "j \<noteq> n" "m \<noteq> n" "hm_get (pool p) j = Some e" "hm_get (pool q) j = None" "hm_get (pool q) m = Some f" for j e m f
  proof -
    have r: "hm_get (pool (displace n p)) j = Some e" "hm_get (pool ?r) j = None" "hm_get (pool ?r) m = Some f"
      using that by (simp_all add: get displace_get)
    then have "\<not> goes_before f e" using room unfolding evicted_from_def by blast
    moreover have "pool_entry_ok e" "pool_entry_ok f"
      using pool_inv_entry [OF assms(1) that(3)] pool_inv_entry [of ?r m f] room r(3) by auto
    ultimately show ?thesis by (rule not_goes_before)
  qed
  moreover have "used_bytes p + ?sz < 2 ^ 64 \<longrightarrow> used_bytes q = hm_sum size_bytes (pool q)"
    using pool_inv_insert_entry [OF assms(1)] by (simp add: assms(2) pool_inv_def)
  moreover have "hm_get (pool q) n = Some \<lparr>pe_state = st, last_accessed = t, size_bytes = ?sz,
      cost_per_byte = sanitise_cost c\<rparr>" by (simp add: get)
  ultimately show ?thesis by blast
qed

lemma demo_pool_inv: "pool_inv demo_pool"
  using demo_pool_reachable by (rule pool_reachable_inv)

theorem insert_entry_cost_weighted_witness:
  "let q = insert_entry (demo_node ''c'') (OpaqueState 3 20) 3 f64_zero demo_pool
   in used_bytes q \<le> 10 \<or> hm_keys (pool q) = [demo_node ''c'']"
proof -
  have p: "budget_bytes demo_pool = Some 10" "used_bytes demo_pool = 6" by code_simp+
  then have "used_bytes demo_pool + estimated_size_bytes (OpaqueState (3 :: nat) 20) < 2 ^ 64" by simp
  with p(1) insert_entry_cost_weighted [OF demo_pool_inv refl, of "demo_node ''c''" "OpaqueState 3 20" 3 f64_zero]
  show ?thesis unfolding Let_def by blast
qed

section \<open>Checkout and return\<close>

text \<open>
  Checking a state out and returning it with its stamp and cost restores the
  pool when it was within its budget: every lookup and the accounted bytes are
  as before.  In between, the node is gone and a second checkout finds nothing.
\<close>

theorem checkout_return_roundtrip:
  assumes "pool_inv p" "\<forall>b. budget_bytes p = Some b \<longrightarrow> used_bytes p \<le> b" "used_bytes p < 2 ^ 64"
    and out: "checkout_with_lru_stamp_and_cost n p = (Some (st, t, c), p1)"
  shows "hm_get (pool (donate_preserving_lru_with_cost n st t c p1)) = hm_get (pool p)
    \<and> used_bytes (donate_preserving_lru_with_cost n st t c p1) = used_bytes p
    \<and> fst (checkout n p1) = None"
proof -
  obtain e where e: "hm_get (pool p) n = Some e" "st = pe_state e" "t = last_accessed e" "c = cost_per_byte e"
    and p1: "p1 = p\<lparr>pool := hm_remove n (pool p), used_bytes := used_bytes p - size_bytes e\<rparr>"
    using out by (auto simp: checkout_with_lru_stamp_and_cost_def split: option.splits)
  have ok: "pool_entry_ok e" using assms(1) e(1) by (rule pool_inv_entry)
  have sz: "size_bytes e = estimated_size_bytes st" using ok e(2) by (simp add: pool_entry_ok_def)
  have used: "size_bytes e \<le> used_bytes p"
    using assms(1) hm_sum_remove [of "pool p" n e size_bytes] e(1) by (simp add: pool_inv_def)
  have add: "usize_add (used_bytes p1) (estimated_size_bytes st) = used_bytes p"
    using used assms(3) sz by (subst usize_add_exact) (simp_all add: p1)
  have "displace n p1 = p1" by (simp add: displace_def p1 hm_simps)
  moreover have "evict_until b (estimated_size_bytes st) p1 = p1" if "budget_bytes p = Some b" for b
    using that assms(2) by (subst evict_until.simps) (simp add: add)
  ultimately have "make_room n (estimated_size_bytes st) p1 = p1"
    by (simp add: make_room_def p1 split: option.split)
  moreover have "\<lparr>pe_state = st, last_accessed = t, size_bytes = estimated_size_bytes st, cost_per_byte = sanitise_cost c\<rparr> = e"
    using ok by (simp add: e(2-4) sanitise_cost_ok pool_entry_ok_def)
  ultimately have "pool (donate_preserving_lru_with_cost n st t c p1) = hm_insert n e (pool p1)"
    "used_bytes (donate_preserving_lru_with_cost n st t c p1) = used_bytes p"
    by (simp_all add: donate_preserving_lru_with_cost_def insert_entry_room add)
  then show ?thesis
    using used by (auto simp: p1 hm_simps e(1) sz checkout_def checkout_with_lru_stamp_and_cost_def)
qed

theorem checkout_return_roundtrip_witness:
  "fst (checkout (demo_node ''b'') (snd (checkout_with_lru_stamp_and_cost (demo_node ''b'') demo_pool))) = None
   \<and> used_bytes (donate_preserving_lru_with_cost (demo_node ''b'') (OpaqueState 2 6) 2 f64_zero
        (snd (checkout_with_lru_stamp_and_cost (demo_node ''b'') demo_pool))) = used_bytes demo_pool"
proof -
  have out: "checkout_with_lru_stamp_and_cost (demo_node ''b'') demo_pool
      = (Some (OpaqueState 2 6, 2, f64_zero), snd (checkout_with_lru_stamp_and_cost (demo_node ''b'') demo_pool))"
    by code_simp
  have "budget_bytes demo_pool = Some 10" "used_bytes demo_pool = 6" by code_simp+
  then show ?thesis using checkout_return_roundtrip [OF demo_pool_inv _ _ out] by simp
qed

section \<open>The event ledger\<close>

fun event_delta :: "WarmPoolEvent \<Rightarrow> int" where
  "event_delta (Donated n sz) = int sz"
| "event_delta (Evicted n sz) = - int sz"

definition ledger :: "WarmPoolEvent list \<Rightarrow> int" where
  "ledger evs = sum_list (map event_delta evs)"

text \<open>The events appended between two states of the pool account for the change in used bytes.\<close>

definition accounts_for :: "'a WarmStatePool \<Rightarrow> 'a WarmStatePool \<Rightarrow> bool" where
  "accounts_for p q \<longleftrightarrow> (\<exists>evs. events q = events p @ evs \<and> int (used_bytes q) = int (used_bytes p) + ledger evs)"

lemma accounts_for_refl [simp]: "accounts_for p p"
  by (auto simp: accounts_for_def ledger_def)

lemma accounts_for_trans: "accounts_for p q \<Longrightarrow> accounts_for q r \<Longrightarrow> accounts_for p r"
  by (auto simp: accounts_for_def ledger_def)

lemma push_event_room: "length (events p) < events_cap p \<Longrightarrow> events (push_event ev p) = events p @ [ev]"
  by (simp add: push_event_def)

lemma accounts_for_removal:
  assumes "pool_inv p" "hm_get (pool p) n = Some e" "length (events p) < events_cap p"
    and "q = (let p1 = push_event (Evicted n (size_bytes e)) (p\<lparr>pool := hm_remove n (pool p)\<rparr>)
      in p1\<lparr>used_bytes := used_bytes p1 - size_bytes e\<rparr>)"
  shows "accounts_for p q \<and> events_cap q = events_cap p
    \<and> length (events q) + length (pool q) \<le> length (events p) + length (pool p)"
proof -
  have "size_bytes e \<le> used_bytes p"
    using assms(1) hm_sum_remove [of "pool p" n e size_bytes] assms(2) by (simp add: pool_inv_def)
  moreover have "length (hm_remove n (pool p)) < length (pool p)"
    by (rule length_hm_remove) (simp add: assms(2))
  ultimately show ?thesis
    using assms(3) by (simp add: assms(4) Let_def push_event_room accounts_for_def ledger_def of_nat_diff)
qed

lemma evict_one_accounts:
  assumes "pool_inv p" "pool p \<noteq> []" "length (events p) + length (pool p) \<le> events_cap p"
  shows "accounts_for p (evict_one p) \<and> events_cap (evict_one p) = events_cap p
    \<and> length (events (evict_one p)) + length (pool (evict_one p)) \<le> length (events p) + length (pool p)"
proof -
  obtain n e where min: "min_by (\<lambda>a b. goes_before (snd a) (snd b)) (pool p) = Some (n, e)"
    using min_by_exists [OF assms(2)] by fastforce
  have get: "hm_get (pool p) n = Some e"
    using min_by_in [OF min] assms(1) by (simp add: hm_get_eq_in pool_inv_def)
  have "length (events p) < events_cap p" using assms(2,3) by (cases "pool p") auto
  from accounts_for_removal [OF assms(1) get this refl] show ?thesis
    by (simp add: evict_one_def min get)
qed

lemma evict_until_accounts:
  assumes "pool_inv p" "length (events p) + length (pool p) \<le> events_cap p"
  shows "accounts_for p (evict_until b sz p) \<and> events_cap (evict_until b sz p) = events_cap p
    \<and> length (events (evict_until b sz p)) + length (pool (evict_until b sz p)) \<le> length (events p) + length (pool p)"
  using assms
proof (induction b sz p rule: evict_until.induct)
  case (1 b sz p)
  show ?case
  proof (cases "usize_add (used_bytes p) sz > b \<and> pool p \<noteq> []")
    case False
    then have "evict_until b sz p = p" by (subst evict_until.simps) (simp only: if_False)
    then show ?thesis by simp
  next
    case True
    note one = evict_one_accounts [OF 1(2) _ 1(3)]
    have inv: "pool_inv (evict_one p)" using evict_one_spec [OF 1(2)] True by blast
    have q: "evict_until b sz p = evict_until b sz (evict_one p)"
      using True by (subst evict_until.simps) simp
    have "length (events (evict_one p)) + length (pool (evict_one p)) \<le> events_cap (evict_one p)"
      using one True 1(3) by simp
    from 1(1) [OF True inv this] show ?thesis
      unfolding q using one True by (auto intro: accounts_for_trans)
  qed
qed

lemma displace_accounts:
  assumes "pool_inv p" "length (events p) + length (pool p) \<le> events_cap p"
  shows "accounts_for p (displace n p) \<and> events_cap (displace n p) = events_cap p
    \<and> length (events (displace n p)) + length (pool (displace n p)) \<le> length (events p) + length (pool p)"
proof (cases "hm_get (pool p) n")
  case (Some e)
  then have "pool p \<noteq> []" by auto
  then have "length (events p) < events_cap p" using assms(2) by (cases "pool p") auto
  from accounts_for_removal [OF assms(1) Some this refl] show ?thesis by (simp add: displace_def Some)
qed (simp add: displace_def)

text \<open>
  A donation's events are its ledger: while the buffer has room and the counter does not overflow, the events
  it appends, donations minus evictions, add up to the change in used bytes.
\<close>

theorem insert_entry_ledger:
  assumes "pool_inv p" and "length (events p) + length (pool p) < events_cap p"
    and fits: "used_bytes p + estimated_size_bytes st < 2 ^ 64"
  shows "\<exists>evs. events (insert_entry n st t c p) = events p @ evs
    \<and> int (used_bytes (insert_entry n st t c p)) = int (used_bytes p) + ledger evs"
proof -
  let ?sz = "estimated_size_bytes st"
  note dis = displace_accounts [OF assms(1) less_imp_le [OF assms(2)], of n]
  have inv: "pool_inv (displace n p)" using assms(1) by (rule pool_inv_displace)
  have "length (events (displace n p)) + length (pool (displace n p)) \<le> events_cap (displace n p)"
    using dis assms(2) by simp
  note ev = evict_until_accounts [OF inv this, where sz = ?sz]
  have room: "accounts_for p (make_room n ?sz p) \<and> events_cap (make_room n ?sz p) = events_cap p
      \<and> length (events (make_room n ?sz p)) < events_cap p"
  proof (cases "budget_bytes p")
    case None
    then show ?thesis using dis assms(2) by (simp add: make_room_def)
  next
    case (Some b)
    then show ?thesis
      using dis ev [of b] assms(2) by (auto simp: make_room_def intro: accounts_for_trans)
  qed
  have "accounts_for (make_room n ?sz p) (insert_entry n st t c p)"
    using room by (simp add: insert_entry_room push_event_room accounts_for_def ledger_def
        make_room_add [OF assms(1) fits])
  then have "accounts_for p (insert_entry n st t c p)" using room by (blast intro: accounts_for_trans)
  then show ?thesis by (simp add: accounts_for_def)
qed

theorem insert_entry_ledger_witness:
  "\<exists>evs. events (insert_entry (demo_node ''c'') (OpaqueState 3 1) 3 f64_zero (snd (drain_events demo_pool))) = evs
     \<and> int (used_bytes (insert_entry (demo_node ''c'') (OpaqueState 3 1) 3 f64_zero (snd (drain_events demo_pool))))
       = 6 + ledger evs"
proof -
  have inv: "pool_inv (snd (drain_events demo_pool))"
    using demo_pool_reachable by (blast intro: pool_reachable_inv pool_drain)
  have "length (events (snd (drain_events demo_pool))) + length (pool (snd (drain_events demo_pool)))
      < events_cap (snd (drain_events demo_pool))"
    "events (snd (drain_events demo_pool)) = []" "used_bytes (snd (drain_events demo_pool)) = 6"
    by code_simp+
  then show ?thesis using insert_entry_ledger [OF inv, where n = "demo_node ''c''" and st = "OpaqueState 3 1" and t = 3 and c = f64_zero] by simp
qed

text \<open>
  Without the bound on the donated size the counter wraps around: a state whose
  reported size is four bytes short of \<open>2 ^ 64\<close> evicts nothing from a pool of
  ten bytes that holds six, and the counter ends at two.
\<close>

lemma insert_entry_wraps:
  "let q = insert_entry (demo_node ''c'') (OpaqueState 3 (2 ^ 64 - 4)) 3 f64_zero demo_pool
   in used_bytes q = 2 \<and> hm_contains (pool q) (demo_node ''b'') \<and> hm_contains (pool q) (demo_node ''c'')"
proof -
  have p: "budget_bytes demo_pool = Some 10" "used_bytes demo_pool = 6"
    "hm_get (pool demo_pool) (demo_node ''c'') = None" "hm_contains (pool demo_pool) (demo_node ''b'')"
    by code_simp+
  have add: "usize_add 6 (2 ^ 64 - 4) = 2" by (simp add: usize_add_mod)
  then have "evict_until 10 (2 ^ 64 - 4) demo_pool = demo_pool"
    by (subst evict_until.simps) (simp add: p)
  then have "make_room (demo_node ''c'') (2 ^ 64 - 4) demo_pool = demo_pool"
    by (simp add: make_room_def displace_def p)
  then show ?thesis
    using p add by (simp add: insert_entry_room hm_contains_def hm_simps)
qed

text \<open>
  A checkout appends no event although it frees bytes: after a donation to an
  empty pool and a checkout, the ledger of all events still carries the size of
  the state while the pool uses none.
\<close>

theorem checkout_leaves_ledger:
  "let p = the (with_limits None 4);
       q = snd (checkout n (donate now n (OpaqueState x sz) p))
   in used_bytes q = 0 \<and> ledger (events q) = int sz"
  by (simp add: with_limits_def donate_def donate_with_cost_def insert_entry_def displace_def push_event_def
      checkout_def checkout_with_lru_stamp_and_cost_def ledger_def Let_def hm_simps
      usize_add_le [of 0 sz, simplified])

end
