(* ===== verification/Runtime.thy ===== *)
theory Runtime
  imports NodeTraits Worklist Cache
begin

text \<open>
  The task runtime (\<open>reify-runtime/src/lib.rs\<close>, \<open>priority_promotion.rs\<close>):
  scheduling priorities, the sequential scheduler and the promotion of in-flight
  dependencies.  The evaluator trait is a pair of functions over a state; the
  mutex around the shared promoter serialises the same operations and adds no
  state.
\<close>

section \<open>Priorities\<close>

datatype Priority = P0Interactive | P1Fast | P1Slow | P3Speculative

fun priority_rank :: "Priority \<Rightarrow> nat" where
  "priority_rank P0Interactive = 0"
| "priority_rank P1Fast = 1"
| "priority_rank P1Slow = 2"
| "priority_rank P3Speculative = 3"

lemma priority_rank_inject [simp]: "priority_rank a = priority_rank b \<longleftrightarrow> a = b"
  by (cases a; cases b) auto

text \<open>The derived order: a smaller value is a higher priority.\<close>

instantiation Priority :: linorder
begin

definition less_eq_Priority :: "Priority \<Rightarrow> Priority \<Rightarrow> bool" where
  "less_eq_Priority a b \<longleftrightarrow> priority_rank a \<le> priority_rank b"

definition less_Priority :: "Priority \<Rightarrow> Priority \<Rightarrow> bool" where
  "less_Priority a b \<longleftrightarrow> priority_rank a < priority_rank b"

instance
  by standard (auto simp: less_eq_Priority_def less_Priority_def)

end

definition traits_to_priority :: "NodeTraits \<Rightarrow> Priority" where
  "traits_to_priority traits =
     (if contains_traits traits IMMEDIATE then P1Fast
      else if contains_traits traits COMMITTABLE then P1Slow
      else P3Speculative)"

section \<open>The sequential scheduler\<close>

record Task =
  task_node_id :: ValueCellId
  task_priority :: Priority

fun execute_loop ::
  "('e \<Rightarrow> NodeId \<Rightarrow> bool) \<Rightarrow> (NodeId \<Rightarrow> 'e \<Rightarrow> EvalOutcome \<times> 'e) \<Rightarrow> NodeId list \<Rightarrow> NodeId hash_set \<Rightarrow> 'e \<Rightarrow>
   NodeId hash_set \<times> 'e" where
  "execute_loop dirty evaluate [] changed ev = (changed, ev)"
| "execute_loop dirty evaluate (node # rest) changed ev =
     (if \<not> dirty ev node then execute_loop dirty evaluate rest changed ev
      else (let (outcome, ev') = evaluate node ev
            in execute_loop dirty evaluate rest (if outcome = Changed then hs_insert node changed else changed) ev'))"

definition execute ::
  "('e \<Rightarrow> NodeId \<Rightarrow> bool) \<Rightarrow> (NodeId \<Rightarrow> 'e \<Rightarrow> EvalOutcome \<times> 'e) \<Rightarrow> NodeId list \<Rightarrow> 'e \<Rightarrow> NodeId hash_set \<times> 'e" where
  "execute dirty evaluate eval_set ev = execute_loop dirty evaluate eval_set [] ev"

section \<open>The promoter\<close>

record PriorityPromoter =
  effective :: "(NodeId, Priority) hash_map"

definition promoter_new :: PriorityPromoter where
  "promoter_new = \<lparr>effective = []\<rparr>"

definition register :: "NodeId \<Rightarrow> Priority \<Rightarrow> PriorityPromoter \<Rightarrow> PriorityPromoter" where
  "register node_id priority p = p\<lparr>effective := hm_insert node_id priority (effective p)\<rparr>"

definition effective_priority :: "PriorityPromoter \<Rightarrow> NodeId \<Rightarrow> Priority option" where
  "effective_priority p node_id = hm_get (effective p) node_id"

definition promote :: "NodeId \<Rightarrow> Priority \<Rightarrow> PriorityPromoter \<Rightarrow> PriorityPromoter" where
  "promote node_id new_priority p =
     p\<lparr>effective := hm_modify node_id (\<lambda>current. if new_priority < current then new_priority else current) (effective p)\<rparr>"

definition promoter_remove :: "NodeId \<Rightarrow> PriorityPromoter \<Rightarrow> PriorityPromoter" where
  "promoter_remove node_id p = p\<lparr>effective := hm_remove node_id (effective p)\<rparr>"

definition batch_remove :: "NodeId list \<Rightarrow> PriorityPromoter \<Rightarrow> PriorityPromoter" where
  "batch_remove nodes p = fold promoter_remove nodes p"

type_synonym dependency_map = "(NodeId, NodeId list) hash_map"

definition deps_of :: "dependency_map \<Rightarrow> NodeId \<Rightarrow> NodeId list" where
  "deps_of dm node = (case hm_get dm node of Some deps \<Rightarrow> deps | None \<Rightarrow> [])"

text \<open>The head of the list is the top of the stack.\<close>

function promote_loop ::
  "Priority \<Rightarrow> dependency_map \<Rightarrow> NodeId list \<Rightarrow> NodeId hash_set \<Rightarrow> PriorityPromoter \<Rightarrow> PriorityPromoter" where
  "promote_loop prio dm [] visited p = p"
| "promote_loop prio dm (node # stack) visited p =
     (if node \<in> set visited then promote_loop prio dm stack visited p
      else promote_loop prio dm (rev (deps_of dm node) @ stack) (hs_insert node visited) (promote node prio p))"
  by pat_completeness auto
termination
proof (relation "measures [\<lambda>(_, dm, _, visited, _). card (set (hm_keys dm) - set visited), \<lambda>(_, _, stack, _, _). length stack]",
    goal_cases)
  case (3 prio dm node stack visited p)
  let ?K = "set (hm_keys dm)"
  show ?case
  proof (cases "node \<in> ?K")
    case True
    then have "card (?K - insert node (set visited)) < card (?K - set visited)"
      using 3 by (intro psubset_card_mono) auto
    then show ?thesis by simp
  next
    case False
    then have "?K - insert node (set visited) = ?K - set visited" "deps_of dm node = []"
      by (auto simp: hm_keys_iff deps_of_def)
    then show ?thesis by simp
  qed
qed auto

definition promote_for_demand ::
  "NodeId \<Rightarrow> Priority \<Rightarrow> dependency_map \<Rightarrow> PriorityPromoter \<Rightarrow> PriorityPromoter" where
  "promote_for_demand demanded_node demand_priority dm p =
     promote_loop demand_priority dm (rev (deps_of dm demanded_node)) [] p"

section \<open>What promotion does\<close>

definition dep_edges_of :: "dependency_map \<Rightarrow> (NodeId \<times> NodeId) set" where
  "dep_edges_of dm = {(a, b). b \<in> set (deps_of dm a)}"

text \<open>The search of the promoter, for every map and every list of roots.\<close>

interpretation promo: graph_search "dep_edges_of dm" "set roots"
  for dm :: dependency_map and roots :: "NodeId list" .

lemma effective_promote:
  "effective_priority (promote n prio p) m
     = map_option (\<lambda>c. if m = n then min prio c else c) (effective_priority p m)"
  by (cases "hm_get (effective p) m") (auto simp: effective_priority_def promote_def hm_simps min_def)

lemma promote_loop_effective:
  assumes "promo.visit_inv dm roots (set visited) (set stack)"
    and "\<And>m. effective_priority p m = map_option (\<lambda>c. if m \<in> set visited then min prio c else c) (orig m)"
  shows "effective_priority (promote_loop prio dm stack visited p) m
    = map_option (\<lambda>c. if m \<in> (dep_edges_of dm)\<^sup>* `` set roots then min prio c else c) (orig m)"
  using assms
proof (induction prio dm stack visited p rule: promote_loop.induct)
  case (1 prio dm visited p)
  then show ?case using promo.visit_done [of dm roots "set visited"] by simp
next
  case (2 prio dm node stack visited p)
  have edges: "dep_edges_of dm `` {node} = set (deps_of dm node)" by (auto simp: dep_edges_of_def)
  show ?case
  proof (cases "node \<in> set visited")
    case True
    have "promo.visit_inv dm roots (set visited) (set (node # stack) - {node})"
      using 2(3) True by (rule promo.visit_skip)
    then have "promo.visit_inv dm roots (set visited) (set stack)"
      using True 2(3) by (auto simp: promo.visit_inv_def)
    then show ?thesis using 2(1) [OF True] 2(4) True by simp
  next
    case False
    have inv: "promo.visit_inv dm roots (set (hs_insert node visited)) (set (rev (deps_of dm node) @ stack))"
      unfolding set_hs_insert
      by (rule promo.visit_expand [OF 2(3), of node "set (deps_of dm node)"]) (auto simp: edges)
    have "effective_priority (promote node prio p) m
        = map_option (\<lambda>c. if m \<in> set (hs_insert node visited) then min prio c else c) (orig m)" for m
      using False by (cases "orig m") (auto simp: effective_promote 2(4))
    then show ?thesis using 2(2) [OF False inv] False by simp
  qed
qed

text \<open>
  Demanding a node raises exactly its in-flight dependencies, direct and
  transitive, to the demand's priority where that is higher: no priority is ever
  lowered, nothing else is touched, and cycles in the dependency map do no harm.
\<close>

theorem promote_for_demand_transitive:
  "effective_priority (promote_for_demand n prio dm p) m
     = map_option (\<lambda>c. if (n, m) \<in> (dep_edges_of dm)\<^sup>+ then min prio c else c) (effective_priority p m)"
proof -
  have "set (rev (deps_of dm n)) = dep_edges_of dm `` {n}" by (auto simp: dep_edges_of_def)
  then have "m \<in> (dep_edges_of dm)\<^sup>* `` set (rev (deps_of dm n)) \<longleftrightarrow> (n, m) \<in> (dep_edges_of dm)\<^sup>+"
    by (auto simp: trancl_unfold_left relcomp_unfold)
  moreover have "effective_priority (promote_for_demand n prio dm p) m
      = map_option (\<lambda>c. if m \<in> (dep_edges_of dm)\<^sup>* `` set (rev (deps_of dm n)) then min prio c else c)
          (effective_priority p m)"
    unfolding promote_for_demand_def
    by (rule promote_loop_effective) (simp_all add: promo.visit_init option.map_ident)
  ultimately show ?thesis by simp
qed

end
