(* ===== verification/Commitment.thy ===== *)
theory Commitment
  imports Runtime
begin

text \<open>
  Commitment of speculative evaluations (\<open>reify-runtime/src/commitment.rs\<close>): the
  per-node overrides with their precedence and configuration, the
  dual-threshold decision and the tracker of in-flight tasks.  A \<open>Duration\<close> is
  its number of nanoseconds; the quotient of two durations in seconds as a
  floating-point number is the argument \<open>ratio\<close>.
\<close>

section \<open>Overrides\<close>

type_synonym Duration = nat

record CommitmentPolicy =
  always_commit_after :: Duration
  commit_when_proportion_done :: f64

text \<open>120 seconds, and 0.5 as a bit pattern.\<close>

definition policy_default :: CommitmentPolicy where
  "policy_default = \<lparr>always_commit_after = 120 * 1000000000, commit_when_proportion_done = 0x3FE0000000000000\<rparr>"

datatype NodeCommitmentOverride = CommitIfSlow | AlwaysCancelWhenStale | OnlyRunOnFinalInputs

record NodePolicyOverrides =
  instance_overrides :: "(NodeId, NodeCommitmentOverride) hash_map"
  type_overrides :: "(NodeKind, NodeCommitmentOverride) hash_map"

definition overrides_new :: NodePolicyOverrides where
  "overrides_new = \<lparr>instance_overrides = [], type_overrides = []\<rparr>"

definition set_instance_override ::
  "NodeId \<Rightarrow> NodeCommitmentOverride \<Rightarrow> NodePolicyOverrides \<Rightarrow> NodePolicyOverrides" where
  "set_instance_override node_id ovr ovs = ovs\<lparr>instance_overrides := hm_insert node_id ovr (instance_overrides ovs)\<rparr>"

definition set_type_override ::
  "NodeKind \<Rightarrow> NodeCommitmentOverride \<Rightarrow> NodePolicyOverrides \<Rightarrow> NodePolicyOverrides" where
  "set_type_override kind ovr ovs = ovs\<lparr>type_overrides := hm_insert kind ovr (type_overrides ovs)\<rparr>"

definition default_overrides :: "NodeKind \<Rightarrow> NodeTraits \<Rightarrow> NodeCommitmentOverride" where
  "default_overrides kind traits =
     (if \<not> contains_traits traits COMMITTABLE then AlwaysCancelWhenStale else CommitIfSlow)"

definition resolve_with_traits :: "NodePolicyOverrides \<Rightarrow> NodeId \<Rightarrow> NodeTraits \<Rightarrow> NodeCommitmentOverride" where
  "resolve_with_traits ovs node_id traits =
     (case hm_get (instance_overrides ovs) node_id of
        Some ovr \<Rightarrow> ovr
      | None \<Rightarrow>
          (case hm_get (type_overrides ovs) (node_kind node_id) of
             Some ovr \<Rightarrow> ovr
           | None \<Rightarrow> default_overrides (node_kind node_id) traits))"

section \<open>Configuration\<close>

datatype NodeCommitmentPolicy = CfgCommitIfSlow | CfgAlwaysCancelWhenStale | CfgOnlyRunOnFinalInputs

record NodePolicyOverride =
  node_id_pattern :: string
  commitment_policy :: NodeCommitmentPolicy

datatype NodeOverrideConfigError = UnresolvableSelector string

fun config_policy_to_override :: "NodeCommitmentPolicy \<Rightarrow> NodeCommitmentOverride" where
  "config_policy_to_override CfgCommitIfSlow = CommitIfSlow"
| "config_policy_to_override CfgAlwaysCancelWhenStale = AlwaysCancelWhenStale"
| "config_policy_to_override CfgOnlyRunOnFinalInputs = OnlyRunOnFinalInputs"

definition kind_from_name :: "string \<Rightarrow> NodeKind option" where
  "kind_from_name pat =
     (let s = to_ascii_lowercase pat in
      if s = ''value'' then Some KValue
      else if s = ''constraint'' then Some KConstraint
      else if s = ''compute'' then Some KCompute
      else if s = ''realization'' then Some KRealization
      else if s = ''resolution'' then Some KResolution
      else None)"

definition apply_config_entry ::
  "NodePolicyOverride \<Rightarrow> NodePolicyOverrides \<Rightarrow> NodeOverrideConfigError + NodePolicyOverrides" where
  "apply_config_entry entry ovs =
     (let policy = config_policy_to_override (commitment_policy entry);
          pat = node_id_pattern entry in
      case kind_from_name pat of
        Some kind \<Rightarrow> Inr (set_type_override kind policy ovs)
      | None \<Rightarrow>
          if count_list pat CHR ''.'' = 1
          then (case split_once CHR ''.'' pat of
                  Some (entity_raw, member_raw) \<Rightarrow>
                    (let entity = trim entity_raw; member = trim member_raw in
                     if entity = [] \<or> member = [] then Inl (UnresolvableSelector pat)
                     else Inr (set_instance_override (Value (ValueCellId entity member)) policy ovs))
                | None \<Rightarrow> Inl (UnresolvableSelector pat))
          else Inl (UnresolvableSelector pat))"

fun apply_config_entries ::
  "NodePolicyOverride list \<Rightarrow> NodePolicyOverrides \<Rightarrow> NodeOverrideConfigError + NodePolicyOverrides" where
  "apply_config_entries [] ovs = Inr ovs"
| "apply_config_entries (e # es) ovs =
     (case apply_config_entry e ovs of Inl err \<Rightarrow> Inl err | Inr ovs' \<Rightarrow> apply_config_entries es ovs')"

definition from_config_overrides ::
  "NodePolicyOverride list \<Rightarrow> NodeOverrideConfigError + NodePolicyOverrides" where
  "from_config_overrides entries = apply_config_entries entries overrides_new"

section \<open>The decision\<close>

record TaskProgress =
  elapsed :: Duration
  reported_progress :: "f64 option"
  previous_runtime :: "Duration option"

definition progress_estimate :: "(Duration \<Rightarrow> Duration \<Rightarrow> f64) \<Rightarrow> TaskProgress \<Rightarrow> f64 option" where
  "progress_estimate ratio p =
     (case reported_progress p of
        Some reported \<Rightarrow> Some reported
      | None \<Rightarrow>
          (case previous_runtime p of
             Some prev \<Rightarrow> if prev > 0 then Some (ratio (elapsed p) prev) else None
           | None \<Rightarrow> None))"

datatype CommitmentDecision = NotYet | Committed | NeverCommit

definition check_commitment ::
  "(Duration \<Rightarrow> Duration \<Rightarrow> f64) \<Rightarrow> CommitmentPolicy \<Rightarrow> NodeCommitmentOverride \<Rightarrow> TaskProgress \<Rightarrow> bool \<Rightarrow> CommitmentDecision" where
  "check_commitment ratio policy ovr progress has_intermediate_inputs =
     (if ovr = AlwaysCancelWhenStale then NeverCommit
      else if ovr = OnlyRunOnFinalInputs \<and> has_intermediate_inputs then NeverCommit
      else if elapsed progress \<ge> always_commit_after policy then Committed
      else (case progress_estimate ratio progress of
              Some estimate \<Rightarrow>
                if f64_le (commit_when_proportion_done policy) estimate then Committed else NotYet
            | None \<Rightarrow> NotYet))"

section \<open>The tracker\<close>

datatype CommitmentTransition = TransitionUnchanged | BecameCommitted

record CommitmentState =
  cst_override :: NodeCommitmentOverride
  decision :: CommitmentDecision

record CommitmentTracker =
  tracker_policy :: CommitmentPolicy
  states :: "(NodeId, CommitmentState) hash_map"

definition tracker_new :: "CommitmentPolicy \<Rightarrow> CommitmentTracker" where
  "tracker_new policy = \<lparr>tracker_policy = policy, states = []\<rparr>"

definition register_task :: "NodeId \<Rightarrow> NodeCommitmentOverride \<Rightarrow> CommitmentTracker \<Rightarrow> CommitmentTracker" where
  "register_task node_id ovr t =
     t\<lparr>states := hm_insert node_id \<lparr>cst_override = ovr, decision = NotYet\<rparr> (states t)\<rparr>"

definition update_status ::
  "(Duration \<Rightarrow> Duration \<Rightarrow> f64) \<Rightarrow> NodeId \<Rightarrow> TaskProgress \<Rightarrow> bool \<Rightarrow> CommitmentTracker \<Rightarrow>
   CommitmentTransition option \<times> CommitmentTracker" where
  "update_status ratio node_id progress has_intermediate_inputs t =
     (case hm_get (states t) node_id of
        None \<Rightarrow> (None, t)
      | Some state \<Rightarrow>
          if decision state = NotYet
          then (let new_decision = check_commitment ratio (tracker_policy t) (cst_override state) progress has_intermediate_inputs;
                    t' = t\<lparr>states := hm_insert node_id (state\<lparr>decision := new_decision\<rparr>) (states t)\<rparr>
                in (Some (if new_decision = Committed then BecameCommitted else TransitionUnchanged), t'))
          else (Some TransitionUnchanged, t))"

definition is_committed :: "CommitmentTracker \<Rightarrow> NodeId \<Rightarrow> bool" where
  "is_committed t node_id =
     (case hm_get (states t) node_id of Some s \<Rightarrow> decision s = Committed | None \<Rightarrow> False)"

definition should_continue :: "CommitmentTracker \<Rightarrow> NodeId \<Rightarrow> bool \<Rightarrow> Priority \<Rightarrow> bool" where
  "should_continue t node_id in_dirty_cone priority =
     (if priority = P0Interactive \<or> priority = P1Fast then True
      else if \<not> in_dirty_cone then True
      else is_committed t node_id)"

definition remove_task :: "NodeId \<Rightarrow> CommitmentTracker \<Rightarrow> CommitmentTracker" where
  "remove_task node_id t = t\<lparr>states := hm_remove node_id (states t)\<rparr>"

section \<open>Configuration errors and precedence\<close>

text \<open>What a selector stands for: a kind of node, or one value cell.\<close>

definition selector :: "string \<Rightarrow> (NodeKind + NodeId) option" where
  "selector pat =
     (case kind_from_name pat of
        Some kind \<Rightarrow> Some (Inl kind)
      | None \<Rightarrow>
          (case split CHR ''.'' pat of
             [entity, member] \<Rightarrow>
               if trim entity = [] \<or> trim member = [] then None
               else Some (Inr (Value (ValueCellId (trim entity) (trim member))))
           | _ \<Rightarrow> None))"

definition entry_policy :: "NodePolicyOverride \<Rightarrow> NodeCommitmentOverride" where
  "entry_policy e = config_policy_to_override (commitment_policy e)"

definition instance_entries :: "NodePolicyOverride list \<Rightarrow> (NodeId \<times> NodeCommitmentOverride) list" where
  "instance_entries es = concat (map (\<lambda>e. case selector (node_id_pattern e) of
     Some (Inr n) \<Rightarrow> [(n, entry_policy e)] | _ \<Rightarrow> []) es)"

definition kind_entries :: "NodePolicyOverride list \<Rightarrow> (NodeKind \<times> NodeCommitmentOverride) list" where
  "kind_entries es = concat (map (\<lambda>e. case selector (node_id_pattern e) of
     Some (Inl k) \<Rightarrow> [(k, entry_policy e)] | _ \<Rightarrow> []) es)"

lemma length_split: "length (split c s) = Suc (count_list s c)"
  by (induction s) (auto split: list.splits)

lemma split_two_iff: "split c s = [a, b] \<longleftrightarrow> split_once c s = Some (a, b) \<and> count_list s c = 1"
proof
  assume "split c s = [a, b]"
  moreover from this have "s = a @ c # b" using join_split [of c s] by simp
  moreover have "c \<notin> set a" using calculation(1) split_pieces [of a c s] by simp
  ultimately show "split_once c s = Some (a, b) \<and> count_list s c = 1"
    using length_split [of c s] by simp
next
  assume a: "split_once c s = Some (a, b) \<and> count_list s c = 1"
  then have "s = a @ c # b" "c \<notin> set a" by (simp_all add: split_once_Some)
  moreover from this a have "c \<notin> set b" by (simp add: count_list_0_iff)
  ultimately show "split c s = [a, b]" by (simp add: split_append split_no_sep)
qed

lemma selector_instance:
  "kind_from_name pat = None \<Longrightarrow> selector pat =
     (if count_list pat CHR ''.'' = 1
      then (case split_once CHR ''.'' pat of
              Some (a, b) \<Rightarrow> if trim a = [] \<or> trim b = [] then None else Some (Inr (Value (ValueCellId (trim a) (trim b))))
            | None \<Rightarrow> None)
      else None)"
proof (cases "count_list pat CHR ''.'' = 1")
  case True
  then have "CHR ''.'' \<in> set pat" using count_list_0_iff [of pat "CHR ''.''"] by auto
  then obtain a b where ab: "split_once CHR ''.'' pat = Some (a, b)"
    by (cases "split_once CHR ''.'' pat") auto
  then have "split CHR ''.'' pat = [a, b]" using True split_two_iff by metis
  then show "kind_from_name pat = None \<Longrightarrow> ?thesis" using True ab by (simp add: selector_def)
next
  case False
  then have "length (split CHR ''.'' pat) \<noteq> 2" using length_split [of "CHR ''.''" pat] by simp
  then show "kind_from_name pat = None \<Longrightarrow> ?thesis"
    using False by (auto simp: selector_def split: list.split)
qed

lemma apply_config_entry_selector:
  "apply_config_entry e ovs =
     (case selector (node_id_pattern e) of
        None \<Rightarrow> Inl (UnresolvableSelector (node_id_pattern e))
      | Some (Inl kind) \<Rightarrow> Inr (set_type_override kind (entry_policy e) ovs)
      | Some (Inr node) \<Rightarrow> Inr (set_instance_override node (entry_policy e) ovs))"
proof (cases "kind_from_name (node_id_pattern e)")
  case None
  then show ?thesis
    by (simp add: apply_config_entry_def selector_instance entry_policy_def Let_def split: option.split)
qed (simp add: apply_config_entry_def selector_def entry_policy_def)

lemma apply_config_entries_spec:
  "apply_config_entries es ovs =
     (case find (\<lambda>e. selector (node_id_pattern e) = None) es of
        Some e \<Rightarrow> Inl (UnresolvableSelector (node_id_pattern e))
      | None \<Rightarrow> Inr (ovs\<lparr>instance_overrides := fold (\<lambda>p. hm_insert (fst p) (snd p)) (instance_entries es) (instance_overrides ovs),
                       type_overrides := fold (\<lambda>p. hm_insert (fst p) (snd p)) (kind_entries es) (type_overrides ovs)\<rparr>))"
proof (induction es arbitrary: ovs)
  case Nil
  show ?case by (simp add: instance_entries_def kind_entries_def)
next
  case (Cons e es)
  show ?case
    by (auto simp: apply_config_entry_selector Cons.IH set_type_override_def set_instance_override_def
        instance_entries_def kind_entries_def split: option.split sum.split)
qed

text \<open>
  C38.  Reading commitment overrides from a configuration fails exactly when some
  selector is neither the name of a node kind nor one dotted pair with two
  non-blank halves, and then names the first such selector.  Otherwise the last
  entry for a cell decides for it, before the last entry for its kind, before
  the default from its traits.
\<close>

theorem from_config_overrides_result:
  "case find (\<lambda>e. selector (node_id_pattern e) = None) entries of
     Some e \<Rightarrow> from_config_overrides entries = Inl (UnresolvableSelector (node_id_pattern e))
   | None \<Rightarrow> (\<exists>ovs. from_config_overrides entries = Inr ovs
       \<and> resolve_with_traits ovs n traits =
           (case map_of (rev (instance_entries entries)) n of
              Some ovr \<Rightarrow> ovr
            | None \<Rightarrow> (case map_of (rev (kind_entries entries)) (node_kind n) of
                Some ovr \<Rightarrow> ovr
              | None \<Rightarrow> if contains_traits traits COMMITTABLE then CommitIfSlow else AlwaysCancelWhenStale)))"
  by (auto simp: from_config_overrides_def apply_config_entries_spec overrides_new_def resolve_with_traits_def
      hm.get_fold_ins default_overrides_def split: option.splits)

section \<open>The tracker over time\<close>

text \<open>One step of the tracker that neither restarts nor ends the task \<open>n\<close>.\<close>

inductive tracker_step :: "(Duration \<Rightarrow> Duration \<Rightarrow> f64) \<Rightarrow> NodeId \<Rightarrow> CommitmentTracker \<Rightarrow> CommitmentTracker \<Rightarrow> bool"
  for ratio n where
  track_register: "m \<noteq> n \<Longrightarrow> tracker_step ratio n t (register_task m ovr t)"
| track_update: "tracker_step ratio n t (snd (update_status ratio m progress intermediate t))"
| track_remove: "m \<noteq> n \<Longrightarrow> tracker_step ratio n t (remove_task m t)"

definition decision_of :: "CommitmentTracker \<Rightarrow> NodeId \<Rightarrow> CommitmentDecision option" where
  "decision_of t n = map_option decision (hm_get (states t) n)"

lemma tracker_step_decided:
  assumes "tracker_step ratio n t t'" "decision_of t n = Some d" "d \<noteq> NotYet"
  shows "decision_of t' n = Some d"
  using assms
  by (induction rule: tracker_step.induct)
    (auto simp: decision_of_def register_task_def update_status_def remove_task_def Let_def hm_simps split: option.splits)

text \<open>
  C39.  A commitment decision is final until the task itself is removed or
  registered anew: once a task is committed, or ruled out for good, no sequence
  of status updates of any task and of registrations and removals of other
  tasks changes that, and a committed task is told to continue whatever the dirty
  cone and its priority.
\<close>

theorem commitment_decision_final:
  assumes "(tracker_step ratio n)\<^sup>*\<^sup>* t t'" "decision_of t n = Some d" "d \<noteq> NotYet"
  shows "decision_of t' n = Some d \<and> (d = Committed \<longrightarrow> should_continue t' n in_dirty_cone priority)"
proof -
  have "decision_of t' n = Some d"
    using assms by (induction rule: rtranclp_induct) (auto intro: tracker_step_decided)
  then show ?thesis
    by (auto simp: decision_of_def should_continue_def is_committed_def)
qed

definition demo_tracker :: CommitmentTracker where
  "demo_tracker = register_task (Compute (ComputeNodeId ''Part'' 0)) CommitIfSlow (tracker_new policy_default)"

definition demo_progress :: TaskProgress where
  "demo_progress = \<lparr>elapsed = 120 * 1000000000, reported_progress = None, previous_runtime = None\<rparr>"

definition demo_committed :: CommitmentTracker where
  "demo_committed = snd (update_status (\<lambda>_ _. f64_zero) (Compute (ComputeNodeId ''Part'' 0)) demo_progress False demo_tracker)"

lemma demo_committed_decision: "decision_of demo_committed (Compute (ComputeNodeId ''Part'' 0)) = Some Committed"
  by (simp add: demo_committed_def demo_tracker_def demo_progress_def update_status_def register_task_def tracker_new_def
      policy_default_def check_commitment_def decision_of_def hm_simps Let_def)

theorem commitment_decision_final_witness:
  "should_continue (remove_task (Value (ValueCellId ''Part'' ''x'')) demo_committed)
     (Compute (ComputeNodeId ''Part'' 0)) True P3Speculative"
proof -
  have "(tracker_step (\<lambda>_ _. f64_zero) (Compute (ComputeNodeId ''Part'' 0)))\<^sup>*\<^sup>* demo_committed
      (remove_task (Value (ValueCellId ''Part'' ''x'')) demo_committed)"
    by (intro r_into_rtranclp track_remove) simp
  from commitment_decision_final [OF this demo_committed_decision] show ?thesis by simp
qed

text \<open>
  Every undecided task is decided in time: the first status update at or after
  the time threshold commits it and reports so, unless its override forbids it,
  and then it is ruled out for good.
\<close>

theorem commitment_by_deadline:
  assumes "hm_get (states t) n = Some s" "decision s = NotYet" "elapsed progress \<ge> always_commit_after (tracker_policy t)"
    and "update_status ratio n progress intermediate t = (transition, t')"
  shows "if cst_override s = AlwaysCancelWhenStale \<or> (cst_override s = OnlyRunOnFinalInputs \<and> intermediate)
    then decision_of t' n = Some NeverCommit \<and> transition = Some TransitionUnchanged
    else decision_of t' n = Some Committed \<and> transition = Some BecameCommitted"
  using assms by (auto simp: update_status_def check_commitment_def decision_of_def hm_simps Let_def)

theorem commitment_by_deadline_witness:
  "decision_of demo_committed (Compute (ComputeNodeId ''Part'' 0)) = Some Committed"
proof -
  let ?s = "\<lparr>cst_override = CommitIfSlow, decision = NotYet\<rparr>"
  have "hm_get (states demo_tracker) (Compute (ComputeNodeId ''Part'' 0)) = Some ?s"
    "elapsed demo_progress \<ge> always_commit_after (tracker_policy demo_tracker)"
    by (simp_all add: demo_tracker_def demo_progress_def register_task_def tracker_new_def policy_default_def hm_simps)
  from commitment_by_deadline [OF this(1) _ this(2) prod.collapse [symmetric]] show ?thesis
    by (simp add: demo_committed_def)
qed

text \<open>
  Both thresholds are inclusive: a task exactly at the time threshold, or whose
  reported progress is exactly the proportion, is committed.
\<close>

theorem check_commitment_inclusive:
  "check_commitment ratio policy CommitIfSlow
     \<lparr>elapsed = always_commit_after policy, reported_progress = None, previous_runtime = None\<rparr> intermediate = Committed
   \<and> check_commitment ratio policy_default CommitIfSlow
     \<lparr>elapsed = 0, reported_progress = Some (commit_when_proportion_done policy_default), previous_runtime = None\<rparr> intermediate
     = Committed"
proof -
  have "\<not> is_nan 0x3FE0000000000000" by code_simp
  then show ?thesis
    by (simp add: check_commitment_def progress_estimate_def f64_le_def policy_default_def)
qed

end
