(* ===== verification/FreshnessWalk.thy ===== *)
theory FreshnessWalk
  imports CacheLaws DirtyCone
begin

text \<open>
  Freshness-only propagation (\<open>reify-eval/src/freshness_walk.rs\<close>): a
  breadth-first walk over the dependents of changed cells that re-derives
  freshness and never a value.  A failed assertion of a freshness writer is
  \<open>None\<close>.
\<close>

section \<open>The walk\<close>

record ('v, 'err, 'w, 'p) walk_state =
  wk_cache :: "('v, 'err, 'w, 'p) CacheStore"
  wk_frontier :: "ValueCellId list"
  wk_updated :: "NodeId hash_set"

definition push_value :: "NodeId \<Rightarrow> ('v, 'err, 'w, 'p) walk_state \<Rightarrow> ('v, 'err, 'w, 'p) walk_state" where
  "push_value dependent s =
     (case dependent of Value vcid \<Rightarrow> s\<lparr>wk_frontier := wk_frontier s @ [vcid]\<rparr> | _ \<Rightarrow> s)"

text \<open>The canonical writer for a derived freshness.\<close>

definition write_freshness ::
  "NodeId \<Rightarrow> 'err Freshness \<Rightarrow> NodeId option \<Rightarrow> ('v, 'err, 'w, 'p) CacheStore \<Rightarrow>
   (bool \<times> ('v, 'err, 'w, 'p) CacheStore) option" where
  "write_freshness dependent new cause cache =
     (case new of
        Pending _ \<Rightarrow>
          (case cause of
             Some c \<Rightarrow> Some (mark_pending_with_cause dependent c cache)
           | None \<Rightarrow> Some (mark_pending dependent cache))
      | _ \<Rightarrow> set_freshness dependent new cache)"

definition process_dependent_freshness ::
  "NodeId \<Rightarrow> u64 \<Rightarrow> bool \<Rightarrow> ('v, 'err, 'w, 'p) walk_state \<Rightarrow> (bool \<times> ('v, 'err, 'w, 'p) walk_state) option" where
  "process_dependent_freshness dependent generation push_value_on_all_branches s =
     (let cache = wk_cache s;
          current = freshness_of cache dependent in
      if is_failed current then Some (False, push_value dependent s)
      else
        let (new, cause) = derive_output_freshness_for_node_with_cause cache dependent False generation in
        if new = current \<or> is_pending new \<and> is_pending current \<and> pending_cause cache dependent = cause
        then Some (False, if push_value_on_all_branches then push_value dependent s else s)
        else
          (case write_freshness dependent new cause cache of
             None \<Rightarrow> None
           | Some (wrote, cache') \<Rightarrow>
               let s' = s\<lparr>wk_cache := cache'\<rparr> in
               if wrote
               then Some (True, push_value dependent (s'\<lparr>wk_updated := hs_insert dependent (wk_updated s')\<rparr>))
               else Some (True, if push_value_on_all_branches then push_value dependent s' else s')))"

fun process_outputs ::
  "u64 \<Rightarrow> NodeId list \<Rightarrow> ('v, 'err, 'w, 'p) walk_state \<Rightarrow> ('v, 'err, 'w, 'p) walk_state option" where
  "process_outputs generation [] s = Some s"
| "process_outputs generation (out # outs) s =
     (case process_dependent_freshness out generation True s of
        None \<Rightarrow> None
      | Some (_, s') \<Rightarrow> process_outputs generation outs s')"

text \<open>The nodes a freshness transition fans out to beyond the reverse index of cells.\<close>

definition fan_out :: "ReverseDependencyIndex \<Rightarrow> ('v, 't) EvaluationGraph \<Rightarrow> NodeId \<Rightarrow> NodeId list" where
  "fan_out ri graph dependent =
     (case dependent of
        Compute cn_id \<Rightarrow> map Value (compute_outputs graph cn_id)
      | Realization rid \<Rightarrow> filter (\<lambda>n. case n of Value _ \<Rightarrow> True | _ \<Rightarrow> False) (realization_dependents_of ri rid)
      | _ \<Rightarrow> [])"

fun process_dependents ::
  "ReverseDependencyIndex \<Rightarrow> ('g, 't) EvaluationGraph \<Rightarrow> u64 \<Rightarrow> NodeId list \<Rightarrow> ('v, 'err, 'w, 'p) walk_state \<Rightarrow>
   ('v, 'err, 'w, 'p) walk_state option" where
  "process_dependents ri graph generation [] s = Some s"
| "process_dependents ri graph generation (dependent # rest) s =
     (case process_dependent_freshness dependent generation False s of
        None \<Rightarrow> None
      | Some (cutoffs_passed, s1) \<Rightarrow>
          (case (if cutoffs_passed then process_outputs generation (fan_out ri graph dependent) s1 else Some s1) of
             None \<Rightarrow> None
           | Some s2 \<Rightarrow> process_dependents ri graph generation rest s2))"

function walk_loop ::
  "ReverseDependencyIndex \<Rightarrow> ('g, 't) EvaluationGraph \<Rightarrow> u64 \<Rightarrow> ValueCellId hash_set \<Rightarrow>
   ('v, 'err, 'w, 'p) walk_state \<Rightarrow> ('v, 'err, 'w, 'p) walk_state option" where
  "walk_loop ri graph generation visited s =
     (case wk_frontier s of
        [] \<Rightarrow> Some s
      | cell # frontier \<Rightarrow>
          let s1 = s\<lparr>wk_frontier := frontier\<rparr> in
          if cell \<in> set visited then walk_loop ri graph generation visited s1
          else (case process_dependents ri graph generation (dependents_of ri cell) s1 of
                  None \<Rightarrow> None
                | Some s2 \<Rightarrow> walk_loop ri graph generation (hs_insert cell visited) s2))"
  by pat_completeness auto
termination
proof (relation "measures [\<lambda>(ri, _, _, visited, _). card (set (hm_keys (rdi_index ri)) - set visited),
    \<lambda>(_, _, _, _, s). length (wk_frontier s)]", goal_cases)
  case (3 ri graph generation visited s cell frontier s1 s2)
  let ?K = "set (hm_keys (rdi_index ri))"
  show ?case
  proof (cases "cell \<in> ?K")
    case True
    then have "card (?K - insert cell (set visited)) < card (?K - set visited)"
      using 3 by (intro psubset_card_mono) auto
    then show ?thesis by simp
  next
    case False
    then have "?K - insert cell (set visited) = ?K - set visited" "dependents_of ri cell = []"
      by (auto simp: hm_keys_iff dependents_of_def)
    moreover from this 3 have "s2 = s1" by simp
    ultimately show ?thesis using 3(1,2) by simp
  qed
qed simp_all

declare walk_loop.simps [simp del]

definition propagate_freshness_only ::
  "ReverseDependencyIndex \<Rightarrow> ('g, 't) EvaluationGraph \<Rightarrow> ValueCellId list \<Rightarrow> u64 \<Rightarrow> ('v, 'err, 'w, 'p) CacheStore \<Rightarrow>
   (NodeId hash_set \<times> ('v, 'err, 'w, 'p) CacheStore) option" where
  "propagate_freshness_only ri graph changed generation cache =
     map_option (\<lambda>s. (wk_updated s, wk_cache s))
       (walk_loop ri graph generation [] \<lparr>wk_cache = cache, wk_frontier = changed, wk_updated = []\<rparr>)"

section \<open>What one step touches\<close>

text \<open>An entry up to its freshness and its cause, which is all the walk may write.\<close>

definition forget :: "('v, 'err, 'w) NodeCache \<Rightarrow> ('v, 'err, 'w) NodeCache" where
  "forget e = e\<lparr>nc_freshness := Final, nc_pending_cause := None\<rparr>"

definition walk_frame :: "('v, 'err, 'w, 'p) CacheStore \<Rightarrow> ('v, 'err, 'w, 'p) CacheStore \<Rightarrow> NodeId set \<Rightarrow> bool" where
  "walk_frame c c' T \<longleftrightarrow>
     (\<forall>n. map_option forget (hm_get (caches c') n) = map_option forget (hm_get (caches c) n))
     \<and> (\<forall>n. n \<notin> T \<or> is_failed (freshness_of c n) \<longrightarrow> hm_get (caches c') n = hm_get (caches c) n)
     \<and> dirty_reasons c' = dirty_reasons c \<and> cs_version c' = cs_version c
     \<and> imported_file_hashes c' = imported_file_hashes c
     \<and> imported_field_provenance c' = imported_field_provenance c \<and> cs_node_traits c' = cs_node_traits c"

lemma walk_frame_refl [simp]: "walk_frame c c T"
  by (simp add: walk_frame_def)

lemma walk_frame_failed: "walk_frame c c' T \<Longrightarrow> is_failed (freshness_of c n) \<Longrightarrow> is_failed (freshness_of c' n)"
  by (simp add: walk_frame_def freshness_of_def)

lemma walk_frame_trans: "walk_frame c c' T \<Longrightarrow> walk_frame c' c'' T \<Longrightarrow> walk_frame c c'' T"
  using walk_frame_failed [of c c' T] by (auto simp: walk_frame_def)

lemma walk_frame_write:
  assumes "hm_get (caches c) n = Some e" "\<not> is_failed (nc_freshness e)" "n \<in> T"
    and "caches c' = hm_insert n e' (caches c)" "forget e' = forget e"
    and "dirty_reasons c' = dirty_reasons c" "cs_version c' = cs_version c"
    "imported_file_hashes c' = imported_file_hashes c"
    "imported_field_provenance c' = imported_field_provenance c" "cs_node_traits c' = cs_node_traits c"
  shows "walk_frame c c' T"
  using assms by (auto simp: walk_frame_def hm_simps freshness_of_def)

text \<open>The derivation never yields \<open>Failed\<close>, so no writer's assertion fires.\<close>

lemma derived_not_failed:
  "derive_output_freshness_for_node_with_cause c n sr g = (new, cause) \<Longrightarrow> \<not> is_failed new"
  by (auto simp: derive_output_freshness_for_node_with_cause_def derive_output_freshness_from_trace_with_cause_def
      derive_output_freshness_with_cause_def Let_def split: option.splits if_splits)

lemma write_freshness_frame:
  assumes "\<not> is_failed new" "\<not> is_failed (freshness_of c n)" "n \<in> T"
  shows "\<exists>w c'. write_freshness n new cause c = Some (w, c') \<and> walk_frame c c' T
    \<and> (w \<longleftrightarrow> hm_contains (caches c) n)"
proof (cases "hm_get (caches c) n")
  case None
  then show ?thesis
    using assms(1) by (cases new; cases cause)
      (auto simp: write_freshness_def mark_pending_def mark_pending_with_cause_def set_freshness_def
        update_entry_def hm_contains_def)
next
  case (Some e)
  have nf: "\<not> is_failed (nc_freshness e)" using assms(2) Some by (simp add: freshness_of_def)
  have one: "walk_frame c (c\<lparr>caches := hm_insert n (e\<lparr>nc_freshness := f\<rparr>) (caches c)\<rparr>) T" for f
    by (rule walk_frame_write [OF Some nf assms(3), where e' = "e\<lparr>nc_freshness := f\<rparr>"]) (simp_all add: forget_def)
  have two: "walk_frame c (c\<lparr>caches := hm_insert n (e\<lparr>nc_freshness := f, nc_pending_cause := p\<rparr>) (caches c),
      pending_transition_count := k\<rparr>) T" for f p k
    by (rule walk_frame_write [OF Some nf assms(3), where e' = "e\<lparr>nc_freshness := f, nc_pending_cause := p\<rparr>"])
      (simp_all add: forget_def)
  show ?thesis
    using assms(1) Some by (cases new; cases cause)
      (auto simp: write_freshness_def mark_pending_def mark_pending_with_cause_def set_freshness_def
        update_entry_def hm_contains_def one two)
qed

section \<open>What the walk touches\<close>

text \<open>
  The state of the walk stays within a set of nodes: its queue holds cells of
  \<open>S\<close>, and it only wrote and reports nodes of \<open>T\<close>.
\<close>

definition walk_within ::
  "('v, 'err, 'w, 'p) CacheStore \<Rightarrow> NodeId set \<Rightarrow> NodeId set \<Rightarrow> ('v, 'err, 'w, 'p) walk_state \<Rightarrow> bool" where
  "walk_within c S T s \<longleftrightarrow> walk_frame c (wk_cache s) T \<and> Value ` set (wk_frontier s) \<subseteq> S
     \<and> set (wk_updated s) \<subseteq> T \<inter> {n. hm_contains (caches c) n}"

lemma walk_within_push: "walk_within c S T s \<Longrightarrow> n \<in> S \<Longrightarrow> walk_within c S T (push_value n s)"
  by (auto simp: walk_within_def push_value_def split: NodeId.split)

lemma walk_frame_contains: "walk_frame c c' T \<Longrightarrow> hm_contains (caches c') n = hm_contains (caches c) n"
  by (metis hm_contains_def map_option_is_None walk_frame_def)

lemma process_dependent_within:
  assumes "walk_within c S T s" "n \<in> T" "T \<subseteq> S"
  shows "\<exists>b s'. process_dependent_freshness n g pa s = Some (b, s') \<and> walk_within c S T s'"
proof -
  let ?c = "wk_cache s"
  obtain new cause where d: "derive_output_freshness_for_node_with_cause ?c n False g = (new, cause)"
    by (cases "derive_output_freshness_for_node_with_cause ?c n False g")
  have push: "walk_within c S T (push_value n t)" if "walk_within c S T t" for t
    using that assms(2,3) by (intro walk_within_push) auto
  show ?thesis
  proof (cases "is_failed (freshness_of ?c n) \<or> new = freshness_of ?c n
      \<or> is_pending new \<and> is_pending (freshness_of ?c n) \<and> pending_cause ?c n = cause")
    case True
    then show ?thesis
      using assms(1) push by (auto simp: process_dependent_freshness_def d Let_def)
  next
    case False
    then have cut: "\<not> is_failed (freshness_of ?c n)" "new \<noteq> freshness_of ?c n"
      "\<not> (is_pending new \<and> is_pending (freshness_of ?c n) \<and> pending_cause ?c n = cause)" by auto
    then obtain w c' where w: "write_freshness n new cause ?c = Some (w, c')" "walk_frame ?c c' T"
      "w \<longleftrightarrow> hm_contains (caches ?c) n"
      using write_freshness_frame [OF derived_not_failed [OF d], of ?c n T cause] assms(2) by auto
    have "walk_frame c c' T"
      using assms(1) w(2) unfolding walk_within_def by (blast intro: walk_frame_trans)
    then have "walk_within c S T (s\<lparr>wk_cache := c'\<rparr>)"
      "w \<Longrightarrow> walk_within c S T (s\<lparr>wk_cache := c', wk_updated := hs_insert n (wk_updated s)\<rparr>)"
      using assms w(3) walk_frame_contains [of c ?c T n] by (auto simp: walk_within_def)
    then show ?thesis
      using push by (cases w) (auto simp: process_dependent_freshness_def d w(1) Let_def cut if_not_P [OF cut(3)])
  qed
qed

lemma process_outputs_within:
  assumes "walk_within c S T s" "set outs \<subseteq> T" "T \<subseteq> S"
  shows "\<exists>s'. process_outputs g outs s = Some s' \<and> walk_within c S T s'"
  using assms
proof (induction outs arbitrary: s)
  case (Cons out outs)
  then obtain b s' where "process_dependent_freshness out g True s = Some (b, s')" "walk_within c S T s'"
    using process_dependent_within [of c S T s out g True] by auto
  then show ?case using Cons by simp
qed simp

lemma process_dependents_within:
  assumes "walk_within c S T s" "\<And>n. n \<in> set ns \<Longrightarrow> n \<in> T \<and> set (fan_out ri gr n) \<subseteq> T" "T \<subseteq> S"
  shows "\<exists>s'. process_dependents ri gr g ns s = Some s' \<and> walk_within c S T s'"
  using assms
proof (induction ns arbitrary: s)
  case (Cons n ns)
  then obtain b s1 where 1: "process_dependent_freshness n g False s = Some (b, s1)" "walk_within c S T s1"
    using process_dependent_within [of c S T s n g False] by auto
  obtain s2 where 2: "(if b then process_outputs g (fan_out ri gr n) s1 else Some s1) = Some s2" "walk_within c S T s2"
    using process_outputs_within [OF 1(2), of "fan_out ri gr n" g] Cons.prems 1(2) by (cases b) auto
  show ?case using Cons.IH [OF 2(2)] Cons.prems 1(1) 2(1) by simp
qed simp

lemma fan_out_edges: "set (fan_out ri g n) \<subseteq> realization_cone_edges ri g `` {n}"
  by (cases n) (auto simp: fan_out_def realization_cone_edges_def cone_edges_def)

lemma walk_loop_within:
  fixes g :: "('g, 't) EvaluationGraph"
  assumes "walk_within c (E\<^sup>* `` R) (E\<^sup>+ `` R) s" and "E = realization_cone_edges ri g"
  shows "\<exists>s'. walk_loop ri g gen visited s = Some s' \<and> walk_within c (E\<^sup>* `` R) (E\<^sup>+ `` R) s'"
  using assms
proof (induction ri g gen visited s rule: walk_loop.induct)
  case (1 ri g gen visited s)
  let ?S = "E\<^sup>* `` R" and ?T = "E\<^sup>+ `` R"
  show ?case
  proof (cases "wk_frontier s")
    case Nil
    then show ?thesis using 1(3) by (simp add: walk_loop.simps [of ri g gen visited s])
  next
    case (Cons cell rest)
    define s1 where "s1 = s\<lparr>wk_frontier := rest\<rparr>"
    have s1: "walk_within c ?S ?T s1" and cell: "Value cell \<in> ?S"
      using 1(3) Cons by (auto simp: walk_within_def s1_def)
    have dep: "n \<in> ?T \<and> set (fan_out ri g n) \<subseteq> ?T" if "n \<in> set (dependents_of ri cell)" for n
    proof -
      have "(Value cell, n) \<in> E"
        using that 1(4) by (auto simp: realization_cone_edges_def cone_edges_def)
      then have "n \<in> ?T" using cell by (auto intro: rtrancl_into_trancl1)
      then show ?thesis using fan_out_edges [of ri g n] 1(4) by (auto intro: trancl_into_trancl)
    qed
    show ?thesis
    proof (cases "cell \<in> set visited")
      case True
      then show ?thesis
        using 1(1) [OF Cons s1_def True s1 1(4)] Cons by (simp add: walk_loop.simps [of ri g gen visited s] s1_def)
    next
      case False
      obtain s2 where s2: "process_dependents ri g gen (dependents_of ri cell) s1 = Some s2" "walk_within c ?S ?T s2"
        using process_dependents_within [OF s1 dep, of "dependents_of ri cell" gen]
        by (auto dest: trancl_into_rtrancl)
      then show ?thesis
        using 1(2) [OF Cons s1_def False s2(1) s2(2) 1(4)] Cons False
        by (simp add: walk_loop.simps [of ri g gen visited s] s1_def)
    qed
  qed
qed

text \<open>
  C14.  The walk always ends without a failed assertion, and touches freshness only:
  every entry keeps its result, hash, trace, version, warm state and
  diagnostics; nodes outside what the changed cells reach, and failed nodes,
  keep their whole entry; and every node reported as updated is cached and
  reached from a changed cell.
\<close>

theorem propagate_freshness_only_touches:
  fixes g :: "('g, 't) EvaluationGraph"
  shows "\<exists>updated c'. propagate_freshness_only ri g changed gen c = Some (updated, c')
    \<and> walk_frame c c' ((realization_cone_edges ri g)\<^sup>+ `` (Value ` set changed))
    \<and> set updated \<subseteq> (realization_cone_edges ri g)\<^sup>+ `` (Value ` set changed) \<inter> {n. hm_contains (caches c) n}"
proof -
  let ?E = "realization_cone_edges ri g" and ?R = "Value ` set changed"
  have "walk_within c (?E\<^sup>* `` ?R) (?E\<^sup>+ `` ?R) \<lparr>wk_cache = c, wk_frontier = changed, wk_updated = []\<rparr>"
    by (auto simp: walk_within_def)
  from walk_loop_within [OF this refl, of gen "[]"] show ?thesis
    by (auto simp: propagate_freshness_only_def walk_within_def)
qed

section \<open>Settled stores\<close>

text \<open>Re-deriving the freshness of a node would change neither it nor its cause.\<close>

definition settled :: "u64 \<Rightarrow> ('v, 'err, 'w, 'p) CacheStore \<Rightarrow> NodeId \<Rightarrow> bool" where
  "settled generation c n \<longleftrightarrow> is_failed (freshness_of c n) \<or>
     (let (new, cause) = derive_output_freshness_for_node_with_cause c n False generation in
      new = freshness_of c n \<or> is_pending new \<and> is_pending (freshness_of c n) \<and> pending_cause c n = cause)"

definition walk_idle ::
  "('v, 'err, 'w, 'p) CacheStore \<Rightarrow> NodeId set \<Rightarrow> ('v, 'err, 'w, 'p) walk_state \<Rightarrow> bool" where
  "walk_idle c S s \<longleftrightarrow> wk_cache s = c \<and> wk_updated s = [] \<and> Value ` set (wk_frontier s) \<subseteq> S"

lemma process_dependent_idle:
  assumes "walk_idle c S s" "settled g c n" "n \<in> S"
  shows "\<exists>s'. process_dependent_freshness n g pa s = Some (False, s') \<and> walk_idle c S s'"
  using assms
  by (cases n) (auto simp: walk_idle_def settled_def process_dependent_freshness_def push_value_def Let_def split: prod.splits)

lemma process_dependents_idle:
  assumes "walk_idle c S s" "\<And>n. n \<in> set ns \<Longrightarrow> settled g c n \<and> n \<in> S"
  shows "\<exists>s'. process_dependents ri gr g ns s = Some s' \<and> walk_idle c S s'"
  using assms
proof (induction ns arbitrary: s)
  case (Cons n ns)
  then obtain s1 where "process_dependent_freshness n g False s = Some (False, s1)" "walk_idle c S s1"
    using process_dependent_idle [of c S s g n False] by auto
  then show ?case using Cons by simp
qed simp

lemma walk_loop_idle:
  fixes g :: "('g, 't) EvaluationGraph"
  assumes "walk_idle c (E\<^sup>* `` R) s" "E = realization_cone_edges ri g" "\<And>n. n \<in> E\<^sup>+ `` R \<Longrightarrow> settled gen c n"
  shows "\<exists>s'. walk_loop ri g gen visited s = Some s' \<and> walk_idle c (E\<^sup>* `` R) s'"
  using assms
proof (induction ri g gen visited s rule: walk_loop.induct)
  case (1 ri g gen visited s)
  show ?case
  proof (cases "wk_frontier s")
    case Nil
    then show ?thesis using 1(3) by (simp add: walk_loop.simps [of ri g gen visited s])
  next
    case (Cons cell rest)
    define s1 where "s1 = s\<lparr>wk_frontier := rest\<rparr>"
    have s1: "walk_idle c (E\<^sup>* `` R) s1" and cell: "Value cell \<in> E\<^sup>* `` R"
      using 1(3) Cons by (auto simp: walk_idle_def s1_def)
    have dep: "settled gen c n \<and> n \<in> E\<^sup>* `` R" if "n \<in> set (dependents_of ri cell)" for n
    proof -
      have "(Value cell, n) \<in> E" using that 1(4) by (auto simp: realization_cone_edges_def cone_edges_def)
      then have "n \<in> E\<^sup>+ `` R" using cell by (auto intro: rtrancl_into_trancl1)
      then show ?thesis using 1(5) by (auto dest: trancl_into_rtrancl)
    qed
    show ?thesis
    proof (cases "cell \<in> set visited")
      case True
      then show ?thesis
        using 1(1) [OF Cons s1_def True s1 1(4) 1(5)] Cons by (simp add: walk_loop.simps [of ri g gen visited s] s1_def)
    next
      case False
      obtain s2 where s2: "process_dependents ri g gen (dependents_of ri cell) s1 = Some s2" "walk_idle c (E\<^sup>* `` R) s2"
        using process_dependents_idle [OF s1 dep, of "dependents_of ri cell" ri g] by auto
      then show ?thesis
        using 1(2) [OF Cons s1_def False s2(1) s2(2) 1(4) 1(5)] Cons False
        by (simp add: walk_loop.simps [of ri g gen visited s] s1_def)
    qed
  qed
qed

text \<open>
  A walk over a store in which every node reached from the changed cells is
  settled changes nothing and reports nothing: settled stores are fixed points.
\<close>

theorem propagate_freshness_only_settled:
  fixes g :: "('g, 't) EvaluationGraph"
  assumes "\<forall>n \<in> (realization_cone_edges ri g)\<^sup>+ `` (Value ` set changed). settled gen c n"
  shows "propagate_freshness_only ri g changed gen c = Some ([], c)"
proof -
  let ?E = "realization_cone_edges ri g" and ?R = "Value ` set changed"
  have "walk_idle c (?E\<^sup>* `` ?R) \<lparr>wk_cache = c, wk_frontier = changed, wk_updated = []\<rparr>"
    by (auto simp: walk_idle_def)
  from walk_loop_idle [OF this refl, of gen "[]"] assms show ?thesis
    by (auto simp: propagate_freshness_only_def walk_idle_def)
qed

definition demo_index :: ReverseDependencyIndex where
  "demo_index = rdi_add demo_cell_x (Value demo_cell_y) rdi_new"

theorem propagate_freshness_only_settled_witness:
  "propagate_freshness_only demo_index demo_graph [demo_cell_x] 1 demo_store = Some ([], demo_store)"
proof (rule propagate_freshness_only_settled)
  let ?E = "realization_cone_edges demo_index demo_graph"
  have "dependents_of demo_index demo_cell_x = [Value demo_cell_y]" "dependents_of demo_index demo_cell_y = []"
    by code_simp+
  then have "?E `` {Value demo_cell_x} \<subseteq> {Value demo_cell_y}" "?E `` {Value demo_cell_y} \<subseteq> {Value demo_cell_y}"
    by (auto simp: realization_cone_edges_def cone_edges_def)
  then have "?E\<^sup>+ `` (Value ` set [demo_cell_x]) \<subseteq> {Value demo_cell_y}"
    by (intro trancl_Image_least) simp_all
  moreover have "settled 1 demo_store (Value demo_cell_y)" by code_simp
  ultimately show "\<forall>n \<in> ?E\<^sup>+ `` (Value ` set [demo_cell_x]). settled 1 demo_store n" by blast
qed

section \<open>A walk that leaves a node behind\<close>

text \<open>
  Cell \<open>d\<close> reads \<open>a\<close> and \<open>q\<close>, cell \<open>q\<close> reads \<open>p\<close>, and cell \<open>e\<close> reads \<open>d\<close>.  Cell \<open>a\<close> has become
  intermediate and cell \<open>p\<close> pending.
\<close>

definition late_cell :: "string \<Rightarrow> ValueCellId" where
  "late_cell s = ValueCellId ''Part'' s"

definition late_put :: "string \<Rightarrow> string list \<Rightarrow> (nat, string, nat, unit) CacheStore \<Rightarrow> (nat, string, nat, unit) CacheStore" where
  "late_put s ins = put (Value (late_cell s))
     (nodecache_new demo_H (CR_Value 1 DetDetermined) Final \<lparr>reads = map late_cell ins, realization_reads = []\<rparr> 1)"

definition late_store :: "(nat, string, nat, unit) CacheStore" where
  "late_store = snd (mark_pending_with_cause (Value (late_cell ''p'')) (Compute demo_compute)
     (snd (the (set_freshness (Value (late_cell ''a'')) (Intermediate 1)
       (late_put ''e'' [''d''] (late_put ''d'' [''a'', ''q''] (late_put ''q'' [''p'']
         (late_put ''p'' [] (late_put ''a'' [] cache_new)))))))))"

definition late_index :: ReverseDependencyIndex where
  "late_index = fold (\<lambda>(c, n). rdi_add (late_cell c) (Value (late_cell n)))
     [(''d'', ''e''), (''a'', ''d''), (''q'', ''d''), (''p'', ''q'')] rdi_new"

lemma late_walk:
  "map_option (\<lambda>(updated, c). (freshness_of c (Value (late_cell ''d'')), freshness_of c (Value (late_cell ''e'')),
       derive_output_freshness_for_node_with_cause c (Value (late_cell ''e'')) False 1))
     (propagate_freshness_only late_index demo_graph
        [late_cell ''a'', late_cell ''p''] 1 late_store)
   = Some (Pending (of_hash 2), Intermediate 1, (Pending resultref_none, Some (Compute demo_compute)))"
  by code_simp

text \<open>
  The walk does not always settle what it reaches.  When a cell is reached
  first along a short path and again along a longer one, the second change of
  its freshness is not passed on, because the cell was already expanded: here
  cell \<open>e\<close> is left intermediate although its only input is pending.
\<close>

theorem freshness_walk_leaves_unsettled:
  "\<exists>updated c. propagate_freshness_only late_index demo_graph
        [late_cell ''a'', late_cell ''p''] 1 late_store = Some (updated, c)
     \<and> is_pending (freshness_of c (Value (late_cell ''d'')))
     \<and> freshness_of c (Value (late_cell ''e'')) = Intermediate 1
     \<and> \<not> settled 1 c (Value (late_cell ''e''))"
  using late_walk by (auto simp: settled_def)

end
