(* ===== verification/Tarjan.thy ===== *)
theory Tarjan
  imports Prelude
begin

text \<open>
  Depth-first search for strongly connected components with low links, over an
  abstract successor function: the invariant of the search and the five
  transitions the iterative loop of \<open>engine_fixpoint.rs\<close> is made of.  The theory
  \<open>Cycles\<close> interprets the locale on the code's own adjacency.
\<close>

section \<open>Strongly connected components\<close>

definition scc_of :: "('a \<times> 'a) set \<Rightarrow> 'a \<Rightarrow> 'a set" where
  "scc_of E x = {y. (x, y) \<in> E\<^sup>* \<and> (y, x) \<in> E\<^sup>*}"

lemma scc_of_self [simp]: "x \<in> scc_of E x"
  by (simp add: scc_of_def)

lemma scc_of_eq: "y \<in> scc_of E x \<Longrightarrow> scc_of E y = scc_of E x"
  by (auto simp: scc_of_def intro: rtrancl_trans)

text \<open>A list of components that covers a set without repetition is its partition.\<close>

lemma scc_partition:
  assumes "\<forall>c \<in> set out. \<exists>x \<in> V. set c = scc_of E x" and "set (concat out) = V"
  shows "set ` set out = scc_of E ` V"
proof (intro equalityI subsetI)
  fix X assume "X \<in> scc_of E ` V"
  then obtain x where x: "x \<in> V" "X = scc_of E x" by auto
  with assms(2) obtain c where c: "c \<in> set out" "x \<in> set c" by auto
  with assms(1) obtain y where "set c = scc_of E y" by blast
  with c x scc_of_eq [of x E y] show "X \<in> set ` set out" by auto
qed (use assms(1) in auto)

section \<open>The invariant\<close>

text \<open>
  \<open>D\<close> is the set of nodes with an index, \<open>S\<close> the component stack and \<open>W\<close> the nodes
  of the work stack, both top first, \<open>P\<close> the successors already looked at.
  The owner of a stack node is the last work node entered before it; its low
  link bounds the indices that edges from its nodes lead to.
\<close>

locale dfs_low =
  fixes V :: "'a set" and succ :: "'a \<Rightarrow> 'a set"
  assumes succ_closed: "u \<in> V \<Longrightarrow> succ u \<subseteq> V"
begin

definition E :: "('a \<times> 'a) set" where
  "E = {(u, w). u \<in> V \<and> w \<in> succ u}"

definition owner :: "('a \<Rightarrow> nat) \<Rightarrow> 'a list \<Rightarrow> 'a \<Rightarrow> 'a \<Rightarrow> bool" where
  "owner ix W v u \<longleftrightarrow> v \<in> set W \<and> ix v \<le> ix u \<and> (\<forall>v' \<in> set W. ix v' \<le> ix u \<longrightarrow> ix v' \<le> ix v)"

definition indexed :: "nat \<Rightarrow> ('a \<Rightarrow> nat) \<Rightarrow> 'a set \<Rightarrow> 'a list \<Rightarrow> 'a list \<Rightarrow> ('a \<Rightarrow> 'a set) \<Rightarrow> bool" where
  "indexed ctr ix D S W P \<longleftrightarrow>
     D \<subseteq> V \<and> inj_on ix D \<and> (\<forall>u \<in> D. ix u < ctr)
     \<and> sorted_wrt (\<lambda>x y. ix y < ix x) S \<and> set S \<subseteq> D
     \<and> sorted_wrt (\<lambda>x y. ix y < ix x) W \<and> set W \<subseteq> set S
     \<and> (\<forall>u \<in> D. P u \<subseteq> D \<inter> succ u \<and> (u \<notin> set W \<longrightarrow> P u = succ u))"

definition linked :: "('a \<Rightarrow> nat) \<Rightarrow> 'a list \<Rightarrow> 'a list \<Rightarrow> bool" where
  "linked ix S W \<longleftrightarrow>
     (\<forall>x \<in> set S. \<forall>y \<in> set S. ix x \<le> ix y \<longrightarrow> (x, y) \<in> E\<^sup>*)
     \<and> (\<forall>x \<in> set S. \<exists>v \<in> set W. (x, v) \<in> E\<^sup>* \<and> ix v \<le> ix x)"

definition low_ok :: "('a \<Rightarrow> nat) \<Rightarrow> ('a \<Rightarrow> nat) \<Rightarrow> 'a list \<Rightarrow> 'a list \<Rightarrow> ('a \<Rightarrow> 'a set) \<Rightarrow> bool" where
  "low_ok ix lo S W P \<longleftrightarrow>
     (\<forall>v \<in> set W. lo v \<le> ix v \<and> (\<exists>x \<in> set S. ix x = lo v \<and> (v, x) \<in> E\<^sup>*))
     \<and> (\<forall>u \<in> set S. \<forall>v. owner ix W v u \<longrightarrow> (\<forall>x \<in> P u \<inter> set S. lo v \<le> ix x))"

definition emitted :: "'a set \<Rightarrow> 'a list \<Rightarrow> 'a list list \<Rightarrow> bool" where
  "emitted D S out \<longleftrightarrow>
     (\<forall>u \<in> D - set S. succ u \<subseteq> D - set S)
     \<and> (\<forall>c \<in> set out. \<exists>x \<in> V. set c = scc_of E x) \<and> distinct (concat out) \<and> set (concat out) = D - set S"

definition inv ::
  "nat \<Rightarrow> ('a \<Rightarrow> nat) \<Rightarrow> ('a \<Rightarrow> nat) \<Rightarrow> 'a set \<Rightarrow> 'a list \<Rightarrow> 'a list \<Rightarrow> ('a \<Rightarrow> 'a set) \<Rightarrow> 'a list list \<Rightarrow> bool" where
  "inv ctr ix lo D S W P out \<longleftrightarrow> indexed ctr ix D S W P \<and> linked ix S W \<and> low_ok ix lo S W P \<and> emitted D S out"

lemma low_bound: "low_ok ix lo S W P \<Longrightarrow> owner ix W v u \<Longrightarrow> u \<in> set S \<Longrightarrow> x \<in> P u \<Longrightarrow> x \<in> set S \<Longrightarrow> lo v \<le> ix x"
  by (simp add: low_ok_def)

lemma linked_path: "linked ix S W \<Longrightarrow> x \<in> set S \<Longrightarrow> y \<in> set S \<Longrightarrow> ix x \<le> ix y \<Longrightarrow> (x, y) \<in> E\<^sup>*"
  by (simp add: linked_def)

lemma E_iff: "u \<in> V \<Longrightarrow> (u, w) \<in> E \<longleftrightarrow> w \<in> succ u"
  by (simp add: E_def)

lemma inv_init: "inv 0 ix lo {} [] [] P []"
  by (simp add: inv_def indexed_def linked_def low_ok_def emitted_def)

section \<open>Entering a node\<close>

lemma sorted_wrt_upd:
  "w \<notin> set xs \<Longrightarrow> sorted_wrt (\<lambda>x y. (ix(w := n)) y < (ix(w := n)) x) xs \<longleftrightarrow> sorted_wrt (\<lambda>x y. ix y < ix x) xs"
  by (induction xs) auto

lemma indexed_enter:
  assumes "indexed ctr ix D S W P" "w \<in> V" "w \<notin> D"
  shows "indexed (Suc ctr) (ix(w := ctr)) (insert w D) (w # S) (w # W) (P(w := {}))"
proof -
  have sub: "set S \<subseteq> D" "set W \<subseteq> set S" "\<And>u. u \<in> D \<Longrightarrow> ix u < ctr" using assms by (auto simp: indexed_def)
  then have w: "w \<notin> set S" "w \<notin> set W" using assms(3) by auto
  have inj: "inj_on (ix(w := ctr)) (insert w D)"
  proof (rule inj_onI)
    fix x y assume "x \<in> insert w D" "y \<in> insert w D" "(ix(w := ctr)) x = (ix(w := ctr)) y"
    then show "x = y"
      using assms(1) sub(3) [of x] sub(3) [of y] by (auto simp: indexed_def dest: inj_onD split: if_splits)
  qed
  have below: "(ix(w := ctr)) y < (ix(w := ctr)) w" if "y \<in> set S" for y
    using that sub(1) sub(3) [of y] w(1) by auto
  have "sorted_wrt (\<lambda>x y. (ix(w := ctr)) y < (ix(w := ctr)) x) S" "sorted_wrt (\<lambda>x y. (ix(w := ctr)) y < (ix(w := ctr)) x) W"
    using assms(1) unfolding sorted_wrt_upd [OF w(1)] sorted_wrt_upd [OF w(2)] by (simp_all add: indexed_def)
  then have srt: "sorted_wrt (\<lambda>x y. (ix(w := ctr)) y < (ix(w := ctr)) x) (w # S)"
    "sorted_wrt (\<lambda>x y. (ix(w := ctr)) y < (ix(w := ctr)) x) (w # W)"
    using below sub(2) by (auto simp del: fun_upd_apply)
  have "\<forall>u \<in> insert w D. (P(w := {})) u \<subseteq> insert w D \<inter> succ u \<and> (u \<notin> set (w # W) \<longrightarrow> (P(w := {})) u = succ u)"
    using assms(1) by (auto simp: indexed_def)
  with inj srt assms(1,2) sub show ?thesis unfolding indexed_def by (auto simp: less_SucI)
qed

lemma linked_enter:
  assumes "linked ix S W" "w \<notin> set S" "set W \<subseteq> set S" "\<And>u. u \<in> set S \<Longrightarrow> ix u < ctr"
    and "\<And>x. x \<in> set S \<Longrightarrow> (x, w) \<in> E\<^sup>*"
  shows "linked (ix(w := ctr)) (w # S) (w # W)"
  unfolding linked_def
proof (intro conjI ballI impI)
  fix x y assume a: "x \<in> set (w # S)" "y \<in> set (w # S)" "(ix(w := ctr)) x \<le> (ix(w := ctr)) y"
  show "(x, y) \<in> E\<^sup>*"
  proof (cases "y = w")
    case True
    then show ?thesis using a(1) assms(5) by auto
  next
    case False
    with a assms(4) [of y] have "x \<noteq> w" "x \<in> set S" "y \<in> set S" "ix x \<le> ix y" by (auto split: if_splits)
    then show ?thesis using assms(1) by (simp add: linked_def)
  qed
next
  fix x assume x: "x \<in> set (w # S)"
  show "\<exists>v \<in> set (w # W). (x, v) \<in> E\<^sup>* \<and> (ix(w := ctr)) v \<le> (ix(w := ctr)) x"
  proof (cases "x = w")
    case False
    with x assms(1) obtain v where "v \<in> set W" "(x, v) \<in> E\<^sup>*" "ix v \<le> ix x" by (auto simp: linked_def)
    moreover from this assms(2,3) have "v \<noteq> w" by auto
    ultimately show ?thesis using False by (intro bexI [of _ v]) auto
  qed auto
qed

lemma low_ok_enter:
  assumes "low_ok ix lo S W P" "w \<notin> set S" "set W \<subseteq> set S" "\<And>u. u \<in> set S \<Longrightarrow> ix u < ctr"
    and "\<And>u. u \<in> set S \<Longrightarrow> w \<notin> P u"
  shows "low_ok (ix(w := ctr)) (lo(w := ctr)) (w # S) (w # W) (P(w := {}))"
proof -
  have vw: "v \<noteq> w" if "owner (ix(w := ctr)) (w # W) v u" "u \<in> set S" for u v
    using that assms(2) assms(4) [of u] by (auto simp: owner_def split: if_splits)
  have own: "owner ix W v u" if o: "owner (ix(w := ctr)) (w # W) v u" and u: "u \<in> set S" for u v
  proof -
    have "u \<noteq> w" "w \<notin> set W" using u assms(2,3) by auto
    then show ?thesis using o vw [OF o u] by (auto simp: owner_def split: if_splits)
  qed
  show ?thesis
    unfolding low_ok_def
  proof (intro conjI ballI allI impI)
    fix v assume "v \<in> set (w # W)"
    then show "(lo(w := ctr)) v \<le> (ix(w := ctr)) v"
      using assms(1) by (auto simp: low_ok_def)
  next
    fix v assume "v \<in> set (w # W)"
    then show "\<exists>x \<in> set (w # S). (ix(w := ctr)) x = (lo(w := ctr)) v \<and> (v, x) \<in> E\<^sup>*"
      using assms(1-3) by (cases "v = w") (fastforce simp: low_ok_def)+
  next
    fix u v x assume a: "u \<in> set (w # S)" "owner (ix(w := ctr)) (w # W) v u" "x \<in> (P(w := {})) u \<inter> set (w # S)"
    then have "u \<in> set S" "x \<in> set S" "x \<in> P u" "x \<noteq> w" using assms(2,5) by (auto split: if_splits)
    with own [OF a(2)] vw [OF a(2)] assms(1) show "(lo(w := ctr)) v \<le> (ix(w := ctr)) x"
      by (auto simp: low_ok_def)
  qed
qed

lemma enter:
  assumes "inv ctr ix lo D S W P out" "w \<in> V" "w \<notin> D" "\<And>x. x \<in> set S \<Longrightarrow> (x, w) \<in> E\<^sup>*"
  shows "inv (Suc ctr) (ix(w := ctr)) (lo(w := ctr)) (insert w D) (w # S) (w # W) (P(w := {})) out"
proof -
  have i: "indexed ctr ix D S W P" using assms(1) by (simp add: inv_def)
  then have s: "w \<notin> set S" "set W \<subseteq> set S" "\<And>u. u \<in> set S \<Longrightarrow> ix u < ctr \<and> w \<notin> P u"
    using assms(3) by (auto simp: indexed_def)
  have "emitted (insert w D) (w # S) out" using assms(1,3) s(1) by (auto simp: inv_def emitted_def)
  with indexed_enter [OF i assms(2,3)] linked_enter [OF _ s(1,2), of ix ctr] low_ok_enter [OF _ s(1,2), of ix lo P ctr]
    s(3) assms(1,4) show ?thesis by (simp add: inv_def)
qed

section \<open>Looking at an edge\<close>

lemma owner_self: "sorted_wrt (\<lambda>x y. ix y < ix x) W \<Longrightarrow> v \<in> set W \<Longrightarrow> owner ix W v v"
  by (simp add: owner_def)

lemma owner_unique:
  assumes "inj_on ix D" "set W \<subseteq> D" "owner ix W v u" "owner ix W v' u"
  shows "v = v'"
  using assms by (intro inj_onD [OF assms(1)]) (auto simp: owner_def intro: order_antisym)

lemma see:
  assumes i: "inv ctr ix lo D S W P out" and v: "v \<in> set W" and w: "w \<in> succ v" "w \<in> D"
    and l: "l = lo v \<or> w \<in> set S \<and> l = min (lo v) (ix w)" "w \<in> set S \<Longrightarrow> l \<le> ix w"
  shows "inv ctr ix (lo(v := l)) D S W (P(v := insert w (P v))) out"
proof -
  have x: "indexed ctr ix D S W P" and low: "low_ok ix lo S W P" using i by (simp_all add: inv_def)
  have sub: "set S \<subseteq> D" "set W \<subseteq> set S" "D \<subseteq> V" "inj_on ix D" using x by (auto simp: indexed_def)
  have ix: "indexed ctr ix D S W (P(v := insert w (P v)))"
    using x v w by (auto simp: indexed_def)
  have le: "l \<le> lo v" using l(1) by auto
  have edge: "(v, w) \<in> E\<^sup>*" using v w(1) sub by (auto simp: E_def)
  have "low_ok ix (lo(v := l)) S W (P(v := insert w (P v)))"
    unfolding low_ok_def
  proof (intro conjI ballI allI impI)
    fix u assume u: "u \<in> set W"
    then show "(lo(v := l)) u \<le> ix u" using low le by (fastforce simp: low_ok_def)
    show "\<exists>x \<in> set S. ix x = (lo(v := l)) u \<and> (u, x) \<in> E\<^sup>*"
    proof (cases "u = v \<and> l \<noteq> lo v")
      case True
      then have "w \<in> set S" "ix w = l" using l(1) by (auto simp: min_def split: if_splits)
      then show ?thesis using edge True by auto
    next
      case False
      then show ?thesis using low u by (auto simp: low_ok_def)
    qed
  next
    fix u b x assume a: "u \<in> set S" "owner ix W b u" "x \<in> (P(v := insert w (P v))) u \<inter> set S"
    have b: "(lo(v := l)) b \<le> lo b" using le by simp
    show "(lo(v := l)) b \<le> ix x"
    proof (cases "x \<in> P u")
      case True
      with low a have "lo b \<le> ix x" by (simp add: low_ok_def)
      with b show ?thesis by (rule order_trans)
    next
      case False
      with a have "u = v" "x = w" "w \<in> set S" by (auto split: if_splits)
      moreover have "b = v"
        using owner_unique [OF sub(4), of W b v v] a(2) \<open>u = v\<close> owner_self [of ix W v] v sub x
        by (auto simp: indexed_def)
      ultimately show ?thesis using l(2) by simp
    qed
  qed
  with i ix show ?thesis by (simp add: inv_def)
qed

section \<open>Leaving a node\<close>

lemma reach_top:
  assumes "inv ctr ix lo D S (v # W) P out" "x \<in> set S"
  shows "(x, v) \<in> E\<^sup>*"
proof -
  have l: "linked ix S (v # W)" and i: "indexed ctr ix D S (v # W) P" using assms(1) by (simp_all add: inv_def)
  with assms(2) obtain v' where v': "v' \<in> set (v # W)" "(x, v') \<in> E\<^sup>*" unfolding linked_def by blast
  moreover have "ix v' \<le> ix v" "v' \<in> set S" "v \<in> set S" using i v'(1) by (auto simp: indexed_def)
  ultimately show ?thesis using l by (meson linked_def rtrancl_trans)
qed

lemma owner_pop:
  assumes "owner ix W b u" "\<not> ix v \<le> ix u"
  shows "owner ix (v # W) b u"
  using assms by (auto simp: owner_def)

lemma finish_up:
  assumes i: "inv ctr ix lo D S (v # W) P out" and p: "P v = succ v" and nr: "lo v \<noteq> ix v"
  shows "\<exists>q W'. W = q # W' \<and> inv ctr ix (lo(q := min (lo q) (lo v))) D S W P out"
proof -
  have x: "indexed ctr ix D S (v # W) P" and lk: "linked ix S (v # W)" and low: "low_ok ix lo S (v # W) P"
    using i by (simp_all add: inv_def)
  have sub: "set S \<subseteq> D" "set W \<subseteq> set S" "v \<in> set S" "inj_on ix D" "\<forall>u \<in> set W. ix u < ix v"
    using x by (auto simp: indexed_def)
  from low nr obtain y where y: "y \<in> set S" "ix y = lo v" "ix y < ix v" "(v, y) \<in> E\<^sup>*"
    by (fastforce simp: low_ok_def)
  have up: "\<exists>b \<in> set W. (z, b) \<in> E\<^sup>* \<and> ix b \<le> ix z" if z: "z \<in> set S" for z
  proof -
    from lk y(1) obtain b where b: "b \<in> set (v # W)" "(y, b) \<in> E\<^sup>*" "ix b \<le> ix y" unfolding linked_def by blast
    with y have b': "b \<in> set W" "(v, b) \<in> E\<^sup>*" "ix b \<le> ix v" by auto
    from lk z obtain a where "a \<in> set (v # W)" "(z, a) \<in> E\<^sup>*" "ix a \<le> ix z" unfolding linked_def by blast
    then show ?thesis using b' by (cases "a = v") (auto intro: rtrancl_trans order_trans)
  qed
  from up [OF y(1)] obtain q W' where W: "W = q # W'" by (cases W) auto
  have qmax: "\<forall>u \<in> set W. ix u \<le> ix q" using x W by (auto simp: indexed_def)
  let ?lo = "lo(q := min (lo q) (lo v))"
  have "indexed ctr ix D S W P" using x p by (auto simp: indexed_def)
  moreover have "linked ix S W" using lk up by (simp add: linked_def)
  moreover have "low_ok ix ?lo S W P"
    unfolding low_ok_def
  proof (intro conjI ballI allI impI)
    fix u assume u: "u \<in> set W"
    then have lu: "lo u \<le> ix u" "\<exists>x \<in> set S. ix x = lo u \<and> (u, x) \<in> E\<^sup>*" using low by (auto simp: low_ok_def)
    then show "?lo u \<le> ix u" by auto
    have "(q, v) \<in> E\<^sup>*" using lk sub W by (auto simp: linked_def)
    then have "(q, y) \<in> E\<^sup>*" using y(4) by (rule rtrancl_trans)
    then show "\<exists>x \<in> set S. ix x = ?lo u \<and> (u, x) \<in> E\<^sup>*"
      using lu(2) y(1,2) by (cases "u = q") (auto simp: min_def)
  next
    fix u b z assume a: "u \<in> set S" "owner ix W b u" "z \<in> P u \<inter> set S"
    show "?lo b \<le> ix z"
    proof (cases "ix v \<le> ix u")
      case False
      then have "lo b \<le> ix z" using low a owner_pop [OF a(2)] by (auto simp: low_ok_def)
      then show ?thesis by (auto simp: min_le_iff_disj)
    next
      case True
      then have "owner ix (v # W) v u" using sub(5) by (auto simp: owner_def)
      then have lv: "lo v \<le> ix z" using low a by (auto simp: low_ok_def)
      have "owner ix W q u" using True qmax sub(5) W by (auto simp: owner_def)
      then have "b = q" using owner_unique [OF sub(4), of W b u q] a(2) sub by blast
      then show ?thesis using lv by (simp add: min_le_iff_disj)
    qed
  qed
  ultimately show ?thesis using W i by (auto simp: inv_def)
qed

lemma closed_reach:
  assumes "\<forall>u \<in> X. succ u \<subseteq> X" "x \<in> X" "(x, y) \<in> E\<^sup>*"
  shows "y \<in> X"
  using assms(3,2)
proof (induction rule: rtrancl_induct)
  case (step y z)
  then show ?case using assms(1) by (auto simp: E_def)
qed

lemma descending_distinct: "sorted_wrt (\<lambda>x y. ix y < (ix x :: nat)) xs \<Longrightarrow> distinct xs"
  by (induction xs) auto

text \<open>The stack around the current work node: what lies above was entered later.\<close>

lemma stack_split:
  assumes "indexed ctr ix D S (v # W) P" "S = A @ v # B"
  shows "\<forall>y \<in> set A. ix v < ix y" "\<forall>y \<in> set B. ix y < ix v" "\<forall>y \<in> set W. ix y < ix v" "distinct S" "set W \<subseteq> set B"
proof -
  show A: "\<forall>y \<in> set A. ix v < ix y" and "\<forall>y \<in> set B. ix y < ix v" and W: "\<forall>y \<in> set W. ix y < ix v"
    using assms by (auto simp: indexed_def sorted_wrt_append)
  show "distinct S" using assms(1) descending_distinct [of ix S] by (simp add: indexed_def)
  show "set W \<subseteq> set B"
  proof
    fix y assume y: "y \<in> set W"
    then have "y \<in> set S" "ix y < ix v" using assms(1) W by (auto simp: indexed_def)
    then show "y \<in> set B" using assms(2) A by fastforce
  qed
qed

text \<open>At the root of a component no edge leaves the nodes above it for a deeper stack node.\<close>

lemma root_closed:
  assumes i: "inv ctr ix lo D S (v # W) P out" and p: "P v = succ v" and r: "lo v = ix v" and S: "S = A @ v # B"
  shows "\<forall>u \<in> D - set B. succ u \<subseteq> D - set B"
proof
  fix u assume u: "u \<in> D - set B"
  have x: "indexed ctr ix D S (v # W) P" and low: "low_ok ix lo S (v # W) P" and em: "emitted D S out"
    using i by (simp_all add: inv_def)
  note A = stack_split(1) [OF x S] and B = stack_split(2) [OF x S] and W = stack_split(3) [OF x S]
  show "succ u \<subseteq> D - set B"
  proof (cases "u \<in> set S")
    case False
    then show ?thesis using em u S by (auto simp: emitted_def)
  next
    case True
    then have uv: "u = v \<or> u \<in> set A" using u S by auto
    then have "u = v \<or> u \<notin> set (v # W)" using A W by (auto dest: bspec less_asym)
    then have P: "P u = succ u" using x p u by (auto simp: indexed_def)
    moreover have "P u \<subseteq> D" using x u by (simp add: indexed_def)
    ultimately have uD: "succ u \<subseteq> D" by simp
    have "owner ix (v # W) v u" using uv A W by (auto simp: owner_def)
    then have "\<forall>y \<in> succ u \<inter> set S. ix v \<le> ix y" using low_bound [OF low, of v u] True P r by auto
    then have "y \<in> succ u \<Longrightarrow> y \<notin> set B" for y using B S by (auto simp: not_less dest!: bspec [of _ _ y])
    then show ?thesis using uD by blast
  qed
qed

lemma root_component:
  assumes i: "inv ctr ix lo D S (v # W) P out" and p: "P v = succ v" and r: "lo v = ix v" and S: "S = A @ v # B"
  shows "scc_of E v = set (A @ [v])"
proof (intro equalityI subsetI)
  have x: "indexed ctr ix D S (v # W) P" and lk: "linked ix S (v # W)" and em: "emitted D S out"
    using i by (simp_all add: inv_def)
  note B = stack_split(2) [OF x S]
  have vD: "v \<in> D - set B" using B x by (auto simp: indexed_def)
  {
    fix y assume "y \<in> scc_of E v"
    then have y: "(v, y) \<in> E\<^sup>*" "(y, v) \<in> E\<^sup>*" by (auto simp: scc_of_def)
    have "y \<in> D - set B" by (rule closed_reach [OF root_closed [OF i p r S] vD y(1)])
    moreover have "y \<in> set S"
    proof (rule ccontr)
      assume "y \<notin> set S"
      with \<open>y \<in> D - set B\<close> em have "\<forall>u \<in> D - set S. succ u \<subseteq> D - set S" "y \<in> D - set S"
        by (auto simp: emitted_def)
      then have "v \<in> D - set S" using y(2) by (rule closed_reach)
      then show False using S by simp
    qed
    ultimately show "y \<in> set (A @ [v])" using S by auto
  }
  fix y assume y: "y \<in> set (A @ [v])"
  then have "ix v \<le> ix y" "y \<in> set S" using stack_split(1) [OF x S] S by auto
  then have "(v, y) \<in> E\<^sup>*" using linked_path [OF lk, of v y] S by simp
  then show "y \<in> scc_of E v" using reach_top [OF i, of y] \<open>y \<in> set S\<close> by (simp add: scc_of_def)
qed

lemma finish_root:
  assumes i: "inv ctr ix lo D S (v # W) P out" and p: "P v = succ v" and r: "lo v = ix v" and S: "S = A @ v # B"
  shows "inv ctr ix lo D B W P (out @ [A @ [v]]) \<and> (\<forall>q \<in> set W. lo q < lo v)"
proof -
  have x: "indexed ctr ix D S (v # W) P" and lk: "linked ix S (v # W)" and low: "low_ok ix lo S (v # W) P"
    and em: "emitted D S out" using i by (simp_all add: inv_def)
  note A = stack_split(1) [OF x S] and B = stack_split(2) [OF x S] and W = stack_split(3) [OF x S]
    and d = stack_split(4) [OF x S] and WB = stack_split(5) [OF x S]
  have v: "v \<in> V" "set S \<subseteq> D" using x by (auto simp: indexed_def)
  have "indexed ctr ix D B W P"
    using x S WB p by (auto simp: indexed_def sorted_wrt_append)
  moreover have "linked ix B W"
    unfolding linked_def
  proof (intro conjI ballI impI)
    fix a b assume "a \<in> set B" "b \<in> set B" "ix a \<le> ix b"
    then show "(a, b) \<in> E\<^sup>*" using lk S by (simp add: linked_def)
  next
    fix a assume a: "a \<in> set B"
    then obtain w where "w \<in> set (v # W)" "(a, w) \<in> E\<^sup>*" "ix w \<le> ix a" using lk S unfolding linked_def by fastforce
    then show "\<exists>w \<in> set W. (a, w) \<in> E\<^sup>* \<and> ix w \<le> ix a" using B a by (intro bexI [of _ w]) auto
  qed
  moreover have low': "lo q \<le> ix q" "\<exists>y \<in> set B. ix y = lo q \<and> (q, y) \<in> E\<^sup>*" if q: "q \<in> set W" for q
  proof -
    from low q obtain y where y: "lo q \<le> ix q" "y \<in> set S" "ix y = lo q" "(q, y) \<in> E\<^sup>*" by (auto simp: low_ok_def)
    then show "lo q \<le> ix q" by simp
    have "ix y < ix v" using y W q by auto
    then have "y \<in> set B" using y(2) S A by fastforce
    then show "\<exists>y \<in> set B. ix y = lo q \<and> (q, y) \<in> E\<^sup>*" using y by blast
  qed
  moreover have "lo b \<le> ix z" if "u \<in> set B" "owner ix W b u" "z \<in> P u \<inter> set B" for u b z
  proof -
    have "owner ix (v # W) b u" using that(1,2) B by (intro owner_pop) auto
    then show ?thesis using low_bound [OF low, of b u z] that S by simp
  qed
  moreover have "emitted D B (out @ [A @ [v]])"
  proof -
    have "D - set B = (D - set S) \<union> set (A @ [v])" "distinct (A @ [v])" "set (concat out) \<inter> set (A @ [v]) = {}"
      using d S v em by (auto simp: emitted_def)
    then show ?thesis
      using root_closed [OF i p r S] root_component [OF i p r S] em v(1) unfolding emitted_def by auto
  qed
  ultimately show ?thesis using W r by (fastforce simp: inv_def low_ok_def)
qed

end

end
