(* ===== verification/Cycles.thy ===== *)
theory Cycles
  imports Fixpoint Tarjan "HOL-Library.Option_ord" "HOL-Library.Multiset"
begin

text \<open>
  The cycle search of the build pass (\<open>reify-eval/src/engine_fixpoint.rs\<close>): Tarjan's
  algorithm with an explicit work stack over the residue of the schedule, the
  ordered path that names the members of a component, and the whole pass with
  its diagnostics.  A lookup of a missing key and a pop from an empty stack are
  \<open>None\<close>.  Stacks are lists with the top first.
\<close>

section \<open>Successors\<close>

definition has_self_edge :: "NodeId \<Rightarrow> adjacency \<Rightarrow> bool" where
  "has_self_edge node adjacency = (case hm_get adjacency node of None \<Rightarrow> False | Some succs \<Rightarrow> node \<in> set succs)"

definition ordered_successors_within :: "NodeId \<Rightarrow> adjacency \<Rightarrow> NodeId hash_set \<Rightarrow> NodeId list" where
  "ordered_successors_within node adjacency within =
     debug_ord_sorted (filter (\<lambda>s. s \<in> set within) (case hm_get adjacency node of None \<Rightarrow> [] | Some succs \<Rightarrow> succs))"

section \<open>The component search\<close>

record Frame =
  fr_node :: NodeId
  fr_succs :: "NodeId list"
  fr_next :: nat

record tarjan_state =
  index_counter :: nat
  indices :: "(NodeId, nat) hash_map"
  lowlinks :: "(NodeId, nat) hash_map"
  on_stack :: "NodeId hash_set"
  tstack :: "NodeId list"
  sccs :: "NodeId list list"

definition register_node :: "NodeId \<Rightarrow> tarjan_state \<Rightarrow> tarjan_state" where
  "register_node w st = st\<lparr>
     indices := hm_insert w (index_counter st) (indices st),
     lowlinks := hm_insert w (index_counter st) (lowlinks st),
     index_counter := index_counter st + 1,
     tstack := w # tstack st,
     on_stack := hs_insert w (on_stack st)\<rparr>"

definition open_frame :: "adjacency \<Rightarrow> NodeId hash_set \<Rightarrow> NodeId \<Rightarrow> Frame" where
  "open_frame adjacency residue w =
     \<lparr>fr_node = w, fr_succs = ordered_successors_within w adjacency residue, fr_next = 0\<rparr>"

fun pop_component ::
  "NodeId \<Rightarrow> NodeId list \<Rightarrow> NodeId hash_set \<Rightarrow> NodeId list \<Rightarrow> (NodeId list \<times> NodeId hash_set \<times> NodeId list) option" where
  "pop_component node [] on scc = None"
| "pop_component node (w # stack) on scc =
     (if w = node then Some (stack, hs_remove w on, scc @ [w])
      else pop_component node stack (hs_remove w on) (scc @ [w]))"

definition emit_component :: "NodeId \<Rightarrow> tarjan_state \<Rightarrow> tarjan_state option" where
  "emit_component node st =
     (case pop_component node (tstack st) (on_stack st) [] of
        None \<Rightarrow> None
      | Some (stack, on, scc) \<Rightarrow> Some (st\<lparr>tstack := stack, on_stack := on, sccs := sccs st @ [scc]\<rparr>))"

text \<open>The body of the \<open>while\<close> loop for the frame on top of the work stack.\<close>

definition tarjan_step ::
  "adjacency \<Rightarrow> NodeId hash_set \<Rightarrow> Frame \<Rightarrow> Frame list \<Rightarrow> tarjan_state \<Rightarrow> (Frame list \<times> tarjan_state) option" where
  "tarjan_step adjacency residue frame rest st =
     (let node = fr_node frame in
      if fr_next frame < length (fr_succs frame) then
        let w = fr_succs frame ! fr_next frame;
            work = frame\<lparr>fr_next := fr_next frame + 1\<rparr> # rest in
        if \<not> hm_contains (indices st) w then
          Some (open_frame adjacency residue w # work, register_node w st)
        else if w \<in> set (on_stack st) then
          (case (hm_get (indices st) w, hm_get (lowlinks st) node) of
             (Some wi, Some cur) \<Rightarrow> Some (work, st\<lparr>lowlinks := hm_insert node (min cur wi) (lowlinks st)\<rparr>)
           | _ \<Rightarrow> None)
        else Some (work, st)
      else
        (case (hm_get (lowlinks st) node, hm_get (indices st) node) of
           (Some low, Some i) \<Rightarrow>
             (case (if low = i then emit_component node st else Some st) of
                None \<Rightarrow> None
              | Some st' \<Rightarrow>
                  (case rest of
                     [] \<Rightarrow> Some (rest, st')
                   | parent # _ \<Rightarrow>
                       (case hm_get (lowlinks st') (fr_node parent) of
                          None \<Rightarrow> None
                        | Some pcur \<Rightarrow>
                            Some (rest, st'\<lparr>lowlinks := hm_insert (fr_node parent) (min pcur low) (lowlinks st')\<rparr>))))
         | _ \<Rightarrow> None))"

text \<open>
  Each step indexes a node that a frame names or the residue holds, or it
  advances or removes a frame.
\<close>

definition unindexed :: "NodeId hash_set \<Rightarrow> Frame list \<Rightarrow> tarjan_state \<Rightarrow> NodeId set" where
  "unindexed residue work st =
     (set residue \<union> (\<Union>f \<in> set work. set (fr_succs f))) - set (hm_keys (indices st))"

definition pending_work :: "Frame list \<Rightarrow> nat" where
  "pending_work work = (\<Sum>f \<leftarrow> work. Suc (length (fr_succs f) - fr_next f))"

lemma finite_unindexed [simp]: "finite (unindexed residue work st)"
  by (simp add: unindexed_def)

lemma set_successors: "set (ordered_successors_within w adj within) = set (adj_list adj w) \<inter> set within"
  by (auto simp: ordered_successors_within_def adj_list_def debug_ord_sorted_def split: option.splits)

lemma emit_component_indices: "emit_component node st = Some st' \<Longrightarrow> indices st' = indices st"
  by (auto simp: emit_component_def split: option.splits)

lemma tarjan_step_measure:
  assumes "tarjan_step adj residue f rest st = Some (work, st')"
  shows "card (unindexed residue work st') < card (unindexed residue (f # rest) st)
    \<or> unindexed residue work st' \<subseteq> unindexed residue (f # rest) st \<and> pending_work work < pending_work (f # rest)"
proof (cases "fr_next f < length (fr_succs f)")
  case True
  let ?w = "fr_succs f ! fr_next f"
  have w: "?w \<in> set (fr_succs f)" using True by simp
  show ?thesis
  proof (cases "hm_contains (indices st) ?w")
    case False
    then have "?w \<in> unindexed residue (f # rest) st" using w by (auto simp: unindexed_def hm_keys_iff hm_contains_def)
    moreover have "unindexed residue work st' \<subseteq> unindexed residue (f # rest) st - {?w}"
      using assms True False
      by (auto simp: tarjan_step_def Let_def unindexed_def hm_keys_iff register_node_def hm_simps open_frame_def set_successors
          split: if_splits)
    ultimately have "unindexed residue work st' \<subset> unindexed residue (f # rest) st" by blast
    then show ?thesis by (intro disjI1 psubset_card_mono) simp_all
  next
    case t: True
    then show ?thesis using assms True
      by (auto simp: tarjan_step_def Let_def unindexed_def pending_work_def split: if_splits option.splits)
  qed
next
  case False
  then show ?thesis using assms
    by (auto simp: tarjan_step_def Let_def unindexed_def pending_work_def
        dest: emit_component_indices split: if_splits option.splits list.splits)
qed

function tarjan_loop ::
  "adjacency \<Rightarrow> NodeId hash_set \<Rightarrow> Frame list \<Rightarrow> tarjan_state \<Rightarrow> tarjan_state option" where
  "tarjan_loop adjacency residue [] st = Some st"
| "tarjan_loop adjacency residue (frame # rest) st =
     (case tarjan_step adjacency residue frame rest st of
        None \<Rightarrow> None
      | Some s \<Rightarrow> tarjan_loop adjacency residue (fst s) (snd s))"
  by pat_completeness auto
termination
proof (relation "measures [\<lambda>(adj, residue, work, st). card (unindexed residue work st), \<lambda>(_, _, work, _). pending_work work]",
    goal_cases)
  case (2 adj residue f rest st s)
  then have "tarjan_step adj residue f rest st = Some (fst s, snd s)" by simp
  from tarjan_step_measure [OF this]
  have "card (unindexed residue (fst s) (snd s)) < card (unindexed residue (f # rest) st)
    \<or> card (unindexed residue (fst s) (snd s)) \<le> card (unindexed residue (f # rest) st)
      \<and> pending_work (fst s) < pending_work (f # rest)"
    using card_mono [OF finite_unindexed [of residue "f # rest" st], of "unindexed residue (fst s) (snd s)"] by blast
  then show ?case by (cases s) (simp, linarith)
qed simp

fun search_roots :: "adjacency \<Rightarrow> NodeId hash_set \<Rightarrow> NodeId list \<Rightarrow> tarjan_state \<Rightarrow> tarjan_state option" where
  "search_roots adjacency residue [] st = Some st"
| "search_roots adjacency residue (root # roots) st =
     (if hm_contains (indices st) root then search_roots adjacency residue roots st
      else case tarjan_loop adjacency residue [open_frame adjacency residue root] (register_node root st) of
             None \<Rightarrow> None
           | Some st' \<Rightarrow> search_roots adjacency residue roots st')"

definition tarjan_init :: tarjan_state where
  "tarjan_init = \<lparr>index_counter = 0, indices = [], lowlinks = [], on_stack = [], tstack = [], sccs = []\<rparr>"

text \<open>\<open>scc.iter().cloned().map(DebugOrd).min()\<close>\<close>

definition scc_min :: "NodeId list \<Rightarrow> string option" where
  "scc_min scc = (case scc of [] \<Rightarrow> None | _ \<Rightarrow> Some (min_list (map debug_repr scc)))"

definition residue_sccs :: "NodeId hash_set \<Rightarrow> adjacency \<Rightarrow> NodeId list list option" where
  "residue_sccs residue adjacency =
     map_option (\<lambda>st. sort_key scc_min (sccs st))
       (search_roots adjacency residue (debug_ord_sorted residue) tarjan_init)"

section \<open>Naming a cycle\<close>

function path_loop ::
  "NodeId hash_set \<Rightarrow> adjacency \<Rightarrow> NodeId list \<Rightarrow> NodeId hash_set \<Rightarrow> NodeId list \<Rightarrow> NodeId list" where
  "path_loop scc_set adjacency [] visited path = path"
| "path_loop scc_set adjacency (node # stack) visited path =
     (if node \<in> set visited then path_loop scc_set adjacency stack visited path
      else
        let visited' = hs_insert node visited;
            succ = rev (ordered_successors_within node adjacency scc_set);
            stack' = fold (\<lambda>s stk. if s \<notin> set visited' then s # stk else stk) succ stack in
        path_loop scc_set adjacency stack' visited' (path @ [node]))"
  by pat_completeness auto

lemma set_fold_push:
  "set (fold (\<lambda>s stk. if s \<notin> V then s # stk else stk) xs stk) = (set xs - V) \<union> set stk"
  by (induction xs arbitrary: stk) auto

termination path_loop
proof (relation "measures [\<lambda>(scc, _, stack, visited, _). card ((set scc \<union> set stack) - set visited),
    \<lambda>(_, _, stack, _, _). length stack]", goal_cases)
  case (2 scc adj node stack visited path)
  have "(set scc \<union> set stack) - set visited = (set scc \<union> set (node # stack)) - set visited" using 2 by auto
  then show ?case by simp
next
  case (3 scc adj node stack visited path v succ st)
  have "set st = (set succ - set v) \<union> set stack" unfolding 3(4) by (rule set_fold_push)
  then have "(set scc \<union> set st) - set v \<subset> (set scc \<union> set (node # stack)) - set visited"
    using 3(1-3) by (auto simp: set_successors)
  then show ?case by (simp add: psubset_card_mono)
qed simp

definition scc_ordered_path :: "NodeId list \<Rightarrow> adjacency \<Rightarrow> NodeId list" where
  "scc_ordered_path scc adjacency =
     (case debug_ord_sorted scc of
        [] \<Rightarrow> []
      | start # _ \<Rightarrow> path_loop (hs_extend scc []) adjacency [start] [] [])"

text \<open>The two diagnostic codes of the pass; every diagnostic is an error.\<close>

datatype pass_code = EvalCycle | EvalUnresolved

type_synonym Diagnostic = "pass_code \<times> string"

fun join_comma :: "string list \<Rightarrow> string" where
  "join_comma [] = []"
| "join_comma [x] = x"
| "join_comma (x # y # xs) = x @ '', '' @ join_comma (y # xs)"

definition cycle_message :: "NodeId list \<Rightarrow> string" where
  "cycle_message path = ''evaluation cycle detected: ['' @ join_comma (map describe path) @ '']''"

definition eval_cycle_diagnostic :: "NodeId list \<Rightarrow> adjacency \<Rightarrow> Diagnostic" where
  "eval_cycle_diagnostic scc adjacency = (EvalCycle, cycle_message (scc_ordered_path scc adjacency))"

section \<open>The whole pass\<close>

record UnifiedPassResult =
  upr_schedule :: "NodeId list"
  upr_residue :: "NodeId hash_set"
  upr_diagnostics :: "Diagnostic list"

definition is_cycle :: "NodeId list \<Rightarrow> adjacency \<Rightarrow> bool" where
  "is_cycle scc adjacency \<longleftrightarrow> length scc > 1 \<or> length scc = 1 \<and> has_self_edge (scc ! 0) adjacency"

text \<open>
  The schedule and the residue are those of \<open>unified_plan\<close>; the adjacency is the
  one the worklist ran on.
\<close>

definition run_unified_pass :: "('v, 't) EvaluationGraph \<Rightarrow> traces \<Rightarrow> UnifiedPassResult option" where
  "run_unified_pass graph traces =
     (case (unified_plan traces, build_edges traces (hm_keys traces)) of
        (Some (sch, res), Some (in_degree, adjacency)) \<Rightarrow>
          (case residue_sccs res adjacency of
             None \<Rightarrow> None
           | Some components \<Rightarrow>
               Some \<lparr>upr_schedule = sch, upr_residue = res,
                 upr_diagnostics = map (\<lambda>scc. eval_cycle_diagnostic scc adjacency)
                     (filter (\<lambda>scc. is_cycle scc adjacency) components)
                   @ map (\<lambda>m. (EvalUnresolved, m)) (unresolved_diagnostics graph traces)\<rparr>)
      | _ \<Rightarrow> None)"

section \<open>The search keeps the invariant\<close>

abbreviation succs_in :: "adjacency \<Rightarrow> NodeId hash_set \<Rightarrow> NodeId \<Rightarrow> NodeId set" where
  "succs_in adj residue u \<equiv> set (ordered_successors_within u adj residue)"

definition residue_edges :: "adjacency \<Rightarrow> NodeId hash_set \<Rightarrow> (NodeId \<times> NodeId) set" where
  "residue_edges adj residue = {(u, w). u \<in> set residue \<and> w \<in> succs_in adj residue u}"

interpretation td: dfs_low "set residue" "succs_in adj residue" for adj residue
  by unfold_locales (simp add: set_successors)

lemma td_edges: "td.E residue adj = residue_edges adj residue"
  by (simp add: td.E_def residue_edges_def)

text \<open>The successors a work stack has already looked at.\<close>

fun seen :: "(NodeId \<Rightarrow> NodeId set) \<Rightarrow> Frame list \<Rightarrow> NodeId \<Rightarrow> NodeId set" where
  "seen succ [] = succ"
| "seen succ (f # work) = (seen succ work)(fr_node f := set (take (fr_next f) (fr_succs f)))"

definition value_at :: "(NodeId, nat) hash_map \<Rightarrow> NodeId \<Rightarrow> nat" where
  "value_at m u = the (hm_get m u)"

definition tarjan_inv :: "adjacency \<Rightarrow> NodeId hash_set \<Rightarrow> Frame list \<Rightarrow> tarjan_state \<Rightarrow> bool" where
  "tarjan_inv adj residue work st \<longleftrightarrow>
     td.inv residue adj (index_counter st) (value_at (indices st)) (value_at (lowlinks st)) (set (hm_keys (indices st)))
       (tstack st) (map fr_node work) (seen (succs_in adj residue) work) (sccs st)
     \<and> set (hm_keys (lowlinks st)) = set (hm_keys (indices st)) \<and> set (on_stack st) = set (tstack st)
     \<and> (\<forall>f \<in> set work. fr_succs f = ordered_successors_within (fr_node f) adj residue)"

lemma value_at_insert [simp]: "value_at (hm_insert k v m) = (value_at m)(k := v)"
  by (rule ext) (simp add: value_at_def hm_simps)

lemma keys_insert [simp]: "set (hm_keys (hm_insert k v m)) = insert k (set (hm_keys m))"
  by (auto simp: hm_keys_iff hm_simps split: if_splits)

lemma get_value_at: "k \<in> set (hm_keys m) \<Longrightarrow> hm_get m k = Some (value_at m k)"
  by (auto simp: hm_keys_iff value_at_def)

lemma contains_keys: "hm_contains m k \<longleftrightarrow> k \<in> set (hm_keys m)"
  by (simp add: hm_contains_def hm_keys_iff)

lemma pop_component_split:
  "node \<notin> set A \<Longrightarrow> pop_component node (A @ node # B) on scc
     = Some (B, fold hs_remove (A @ [node]) on, scc @ A @ [node])"
  by (induction A arbitrary: on scc) auto

lemma set_fold_hs_remove [simp]: "set (fold hs_remove xs ys) = set ys - set xs"
  by (induction xs arbitrary: ys) auto

lemma enter_inv:
  assumes "tarjan_inv adj residue work st" "w \<in> set residue" "w \<notin> set (hm_keys (indices st))"
    and "\<And>x. x \<in> set (tstack st) \<Longrightarrow> (x, w) \<in> (td.E residue adj)\<^sup>*"
  shows "tarjan_inv adj residue (open_frame adj residue w # work) (register_node w st)"
  using assms td.enter [OF _ assms(2,3,4)]
  by (auto simp: tarjan_inv_def register_node_def open_frame_def)

text \<open>The frame on top advances past the edge to \<open>w\<close>.\<close>

lemma advance_inv:
  assumes i: "tarjan_inv adj residue (f # rest) st" and n: "fr_next f < length (fr_succs f)"
    and w: "w = fr_succs f ! fr_next f" "w \<in> set (hm_keys (indices st))"
    and l: "l = value_at (lowlinks st) (fr_node f) \<or>
        w \<in> set (tstack st) \<and> l = min (value_at (lowlinks st) (fr_node f)) (value_at (indices st) w)"
      "w \<in> set (tstack st) \<Longrightarrow> l \<le> value_at (indices st) w"
    and st': "index_counter st' = index_counter st" "indices st' = indices st" "tstack st' = tstack st"
      "sccs st' = sccs st" "on_stack st' = on_stack st" "set (hm_keys (lowlinks st')) = set (hm_keys (lowlinks st))"
      "value_at (lowlinks st') = (value_at (lowlinks st))(fr_node f := l)"
  shows "tarjan_inv adj residue (f\<lparr>fr_next := fr_next f + 1\<rparr> # rest) st'"
proof -
  let ?v = "fr_node f" and ?P = "seen (succs_in adj residue) (f # rest)"
  have "w \<in> succs_in adj residue ?v" using i n w(1) by (auto simp: tarjan_inv_def simp flip: in_set_conv_nth)
  moreover have "td.inv residue adj (index_counter st) (value_at (indices st)) (value_at (lowlinks st))
      (set (hm_keys (indices st))) (tstack st) (map fr_node (f # rest)) ?P (sccs st)"
    using i unfolding tarjan_inv_def by blast
  ultimately have "td.inv residue adj (index_counter st) (value_at (indices st)) ((value_at (lowlinks st))(?v := l))
      (set (hm_keys (indices st))) (tstack st) (map fr_node (f # rest)) (?P(?v := insert w (?P ?v))) (sccs st)"
    using w(2) l by (intro td.see) auto
  moreover have "?P(?v := insert w (?P ?v)) = seen (succs_in adj residue) (f\<lparr>fr_next := fr_next f + 1\<rparr> # rest)"
    using n w(1) by (simp add: take_Suc_conv_app_nth)
  ultimately show ?thesis using i st' by (simp add: tarjan_inv_def)
qed

text \<open>The frame on top advances past the edge to a new node, whose frame is opened.\<close>

lemma descend_inv:
  assumes i: "tarjan_inv adj residue (f # rest) st" and n: "fr_next f < length (fr_succs f)"
    and w: "w = fr_succs f ! fr_next f" "w \<notin> set (hm_keys (indices st))" "w \<in> set residue"
  shows "tarjan_inv adj residue (open_frame adj residue w # f\<lparr>fr_next := fr_next f + 1\<rparr> # rest) (register_node w st)"
proof -
  let ?v = "fr_node f" and ?P = "seen (succs_in adj residue) (f # rest)" and ?K = "set (hm_keys (indices st))"
  let ?ix = "(value_at (indices st))(w := index_counter st)" and ?lo = "(value_at (lowlinks st))(w := index_counter st)"
  have inv: "td.inv residue adj (index_counter st) (value_at (indices st)) (value_at (lowlinks st)) ?K
      (tstack st) (?v # map fr_node rest) ?P (sccs st)"
    using i unfolding tarjan_inv_def list.map by blast
  then have v: "?v \<in> ?K" "value_at (lowlinks st) ?v \<le> value_at (indices st) ?v"
      "value_at (indices st) ?v < index_counter st" "?v \<in> set residue"
    by (auto simp: td.inv_def td.indexed_def td.low_ok_def)
  then have vw: "?v \<noteq> w" using w(2) by auto
  have ws: "w \<in> succs_in adj residue ?v" using i n w(1) by (auto simp: tarjan_inv_def simp flip: in_set_conv_nth)
  then have "(x, w) \<in> (td.E residue adj)\<^sup>*" if "x \<in> set (tstack st)" for x
    using td.reach_top [OF inv that] v(4) by (auto simp: td.E_def intro: rtrancl_into_rtrancl)
  from td.enter [OF inv w(3,2) this]
  have "td.inv residue adj (Suc (index_counter st)) ?ix ?lo (insert w ?K) (w # tstack st) (w # ?v # map fr_node rest)
      (?P(w := {})) (sccs st)" .
  from td.see [OF this, of ?v w "?lo ?v", unfolded fun_upd_triv] ws v vw
  have "td.inv residue adj (Suc (index_counter st)) ?ix ?lo (insert w ?K) (w # tstack st)
      (w # ?v # map fr_node rest) ((?P(w := {}))(?v := insert w (?P ?v))) (sccs st)" by simp
  moreover have "(?P(w := {}))(?v := insert w (?P ?v))
      = seen (succs_in adj residue) (open_frame adj residue w # f\<lparr>fr_next := fr_next f + 1\<rparr> # rest)"
    using n w(1) vw by (simp add: open_frame_def take_Suc_conv_app_nth fun_upd_twist)
  ultimately show ?thesis
    using i by (simp add: tarjan_inv_def register_node_def open_frame_def)
qed

text \<open>The frame on top is exhausted.\<close>

lemma finished_seen:
  assumes "tarjan_inv adj residue (f # rest) st" "\<not> fr_next f < length (fr_succs f)"
  shows "seen (succs_in adj residue) (f # rest) (fr_node f) = succs_in adj residue (fr_node f)"
    and "seen (succs_in adj residue) rest = seen (succs_in adj residue) (f # rest)"
proof -
  show 1: "seen (succs_in adj residue) (f # rest) (fr_node f) = succs_in adj residue (fr_node f)"
    using assms by (simp add: tarjan_inv_def)
  have "td.indexed residue adj (index_counter st) (value_at (indices st)) (set (hm_keys (indices st)))
      (tstack st) (map fr_node (f # rest)) (seen (succs_in adj residue) (f # rest))"
    using assms(1) unfolding tarjan_inv_def td.inv_def by blast
  then have "fr_node f \<notin> set (map fr_node rest)" by (auto simp: td.indexed_def)
  then have "seen (succs_in adj residue) rest (fr_node f) = succs_in adj residue (fr_node f)"
    by (induction rest) auto
  with 1 show "seen (succs_in adj residue) rest = seen (succs_in adj residue) (f # rest)"
    by (metis fun_upd_triv seen.simps(2) fun_upd_same)
qed

lemma step_edge:
  assumes i: "tarjan_inv adj residue (f # rest) st" and n: "fr_next f < length (fr_succs f)"
  shows "\<exists>work st'. tarjan_step adj residue f rest st = Some (work, st') \<and> tarjan_inv adj residue work st'"
proof -
  let ?v = "fr_node f" and ?w = "fr_succs f ! fr_next f" and ?K = "set (hm_keys (indices st))"
  let ?f = "f\<lparr>fr_next := fr_next f + 1\<rparr>"
  have "td.indexed residue adj (index_counter st) (value_at (indices st)) ?K
      (tstack st) (map fr_node (f # rest)) (seen (succs_in adj residue) (f # rest))"
    using i unfolding tarjan_inv_def td.inv_def by blast
  then have vK: "?v \<in> ?K" by (auto simp: td.indexed_def)
  have keys: "set (hm_keys (lowlinks st)) = ?K" "set (on_stack st) = set (tstack st)"
    using i by (auto simp: tarjan_inv_def)
  have "?w \<in> succs_in adj residue ?v" using i n by (auto simp: tarjan_inv_def simp flip: in_set_conv_nth)
  then have wr: "?w \<in> set residue" by (simp add: set_successors)
  show ?thesis
  proof (cases "?w \<in> ?K")
    case False
    with descend_inv [OF i n refl] wr
    have "tarjan_inv adj residue (open_frame adj residue ?w # ?f # rest) (register_node ?w st)" by blast
    then show ?thesis using n False by (simp add: tarjan_step_def Let_def contains_keys)
  next
    case True
    show ?thesis
    proof (cases "?w \<in> set (tstack st)")
      case w: True
      have "tarjan_inv adj residue (?f # rest) (st\<lparr>lowlinks := hm_insert ?v (min (value_at (lowlinks st) ?v) (value_at (indices st) ?w)) (lowlinks st)\<rparr>)"
        using w keys vK by (intro advance_inv [OF i n refl True]) auto
      then show ?thesis
        using n True w vK by (simp add: tarjan_step_def Let_def contains_keys keys get_value_at)
    next
      case w: False
      have "tarjan_inv adj residue (?f # rest) st"
        using w by (intro advance_inv [OF i n refl True]) auto
      then show ?thesis using n True w by (simp add: tarjan_step_def Let_def contains_keys keys)
    qed
  qed
qed

lemma tarjan_step_exhausted:
  assumes "\<not> fr_next f < length (fr_succs f)"
    and "fr_node f \<in> set (hm_keys (lowlinks st))" "fr_node f \<in> set (hm_keys (indices st))"
    and "(if value_at (lowlinks st) (fr_node f) = value_at (indices st) (fr_node f)
      then emit_component (fr_node f) st else Some st) = Some st'"
    and "lowlinks st' = lowlinks st"
    and "\<And>p ps. rest = p # ps \<Longrightarrow> fr_node p \<in> set (hm_keys (lowlinks st))"
  shows "tarjan_step adj residue f rest st = Some (rest,
    (case rest of [] \<Rightarrow> st' | p # _ \<Rightarrow> st'\<lparr>lowlinks := hm_insert (fr_node p)
       (min (value_at (lowlinks st) (fr_node p)) (value_at (lowlinks st) (fr_node f))) (lowlinks st)\<rparr>))"
  unfolding tarjan_step_def Let_def get_value_at [OF assms(2)] get_value_at [OF assms(3)]
  using assms(1,4-6) by (simp add: get_value_at split: list.split)

lemma step_finish:
  assumes i: "tarjan_inv adj residue (f # rest) st" and n: "\<not> fr_next f < length (fr_succs f)"
  shows "\<exists>st'. tarjan_step adj residue f rest st = Some (rest, st') \<and> tarjan_inv adj residue rest st'"
proof -
  let ?v = "fr_node f" and ?K = "set (hm_keys (indices st))" and ?P = "seen (succs_in adj residue) rest"
  let ?ix = "value_at (indices st)" and ?lo = "value_at (lowlinks st)"
  have inv: "td.inv residue adj (index_counter st) ?ix ?lo ?K (tstack st) (?v # map fr_node rest) ?P (sccs st)"
    using i unfolding tarjan_inv_def list.map finished_seen(2) [OF i n] by blast
  have P: "?P ?v = succs_in adj residue ?v" by (simp only: finished_seen [OF i n])
  have keys: "set (hm_keys (lowlinks st)) = ?K" "set (on_stack st) = set (tstack st)"
    "\<forall>f \<in> set rest. fr_succs f = ordered_successors_within (fr_node f) adj residue"
    using i by (auto simp: tarjan_inv_def)
  have x: "td.indexed residue adj (index_counter st) ?ix ?K (tstack st) (?v # map fr_node rest) ?P"
    using inv by (simp only: td.inv_def)
  have sub: "?v \<in> set (tstack st)" "set (tstack st) \<subseteq> ?K" "set (map fr_node rest) \<subseteq> set (tstack st)"
    "distinct (tstack st)"
    using x td.descending_distinct [of ?ix "tstack st"] by (simp_all add: td.indexed_def)
  then have vK: "?v \<in> ?K" and rK: "set (map fr_node rest) \<subseteq> ?K" by blast+
  show ?thesis
  proof (cases "?lo ?v = ?ix ?v")
    case r: True
    obtain A B where S: "tstack st = A @ ?v # B" using sub(1) by (auto simp: in_set_conv_decomp)
    define st1 where "st1 = st\<lparr>tstack := B, on_stack := fold hs_remove (A @ [?v]) (on_stack st), sccs := sccs st @ [A @ [?v]]\<rparr>"
    have e: "emit_component ?v st = Some st1"
      using sub(4) S by (simp add: emit_component_def pop_component_split st1_def)
    have st1: "(if ?lo ?v = ?ix ?v then emit_component ?v st else Some st) = Some st1" "lowlinks st1 = lowlinks st"
      using e r by (simp_all add: st1_def)
    from td.finish_root [OF inv P r S]
    have inv1: "td.inv residue adj (index_counter st) ?ix ?lo ?K B (map fr_node rest) ?P (sccs st @ [A @ [?v]])"
      and lo: "\<forall>q \<in> set (map fr_node rest). ?lo q < ?lo ?v" by auto
    have "set (fold hs_remove (A @ [?v]) (on_stack st)) = set B"
      using keys(2) sub(4) S by auto
    then have t: "tarjan_inv adj residue rest (st1\<lparr>lowlinks := m\<rparr>)"
      if "value_at m = ?lo" "set (hm_keys m) = ?K" for m
      using inv1 keys that by (simp add: tarjan_inv_def st1_def)
    show ?thesis
    proof (cases rest)
      case Nil
      have "st1\<lparr>lowlinks := lowlinks st\<rparr> = st1" by (simp add: st1_def)
      with t [of "lowlinks st"] keys(1) have "tarjan_inv adj residue rest st1" by simp
      then show ?thesis
        using tarjan_step_exhausted [OF n _ vK st1(1), of rest adj residue] st1(2) vK keys(1) Nil by simp
    next
      case (Cons p ps)
      let ?m = "hm_insert (fr_node p) (min (?lo (fr_node p)) (?lo ?v)) (lowlinks st)"
      have "min (?lo (fr_node p)) (?lo ?v) = ?lo (fr_node p)" using lo Cons by simp
      then have m: "value_at ?m = ?lo" by simp
      have p: "fr_node p \<in> ?K" using rK Cons by simp
      then have "tarjan_inv adj residue rest (st1\<lparr>lowlinks := ?m\<rparr>)" using keys(1) by (intro t m) auto
      then show ?thesis
        using tarjan_step_exhausted [OF n _ vK st1(1), of rest adj residue] st1(2) vK p keys(1) Cons by simp
    qed
  next
    case r: False
    from td.finish_up [OF inv P r] obtain q W where W: "map fr_node rest = q # W"
      and inv1: "td.inv residue adj (index_counter st) ?ix (?lo(q := min (?lo q) (?lo ?v))) ?K (tstack st)
        (map fr_node rest) ?P (sccs st)" by (elim exE conjE)
    then obtain p ps where rest: "rest = p # ps" "fr_node p = q" by (cases rest) auto
    have q: "q \<in> ?K" using rK W by simp
    let ?st = "st\<lparr>lowlinks := hm_insert q (min (?lo q) (?lo ?v)) (lowlinks st)\<rparr>"
    have "(if ?lo ?v = ?ix ?v then emit_component ?v st else Some st) = Some st" using r by simp
    from tarjan_step_exhausted [OF n _ vK this, of rest adj residue] q vK keys(1) rest
    have "tarjan_step adj residue f rest st = Some (rest, ?st)" by simp
    moreover have "tarjan_inv adj residue rest ?st"
      using inv1 keys q by (simp add: tarjan_inv_def insert_absorb)
    ultimately show ?thesis by blast
  qed
qed

lemma tarjan_loop_inv:
  "tarjan_inv adj residue work st \<Longrightarrow> \<exists>st'. tarjan_loop adj residue work st = Some st' \<and> tarjan_inv adj residue [] st'
     \<and> set (hm_keys (indices st)) \<subseteq> set (hm_keys (indices st'))"
proof (induction adj residue work st rule: tarjan_loop.induct)
  case (2 adj residue f rest st)
  obtain work st' where s: "tarjan_step adj residue f rest st = Some (work, st')" "tarjan_inv adj residue work st'"
    using step_edge [OF 2(2)] step_finish [OF 2(2)] by blast
  have "set (hm_keys (indices st)) \<subseteq> set (hm_keys (indices st'))"
    using s(1) by (auto simp: tarjan_step_def Let_def register_node_def dest: emit_component_indices
        split: if_splits option.splits list.splits)
  then show ?case using 2(1) [OF s(1)] s by fastforce
qed simp

lemma tarjan_idle: "tarjan_inv adj residue [] st \<Longrightarrow> tstack st = []"
  by (auto simp: tarjan_inv_def td.inv_def td.linked_def)

lemma search_roots_inv:
  assumes "tarjan_inv adj residue [] st" "set roots \<subseteq> set residue"
  shows "\<exists>st'. search_roots adj residue roots st = Some st' \<and> tarjan_inv adj residue [] st'
     \<and> set roots \<union> set (hm_keys (indices st)) \<subseteq> set (hm_keys (indices st'))"
  using assms
proof (induction roots arbitrary: st)
  case (Cons r roots)
  show ?case
  proof (cases "hm_contains (indices st) r")
    case True
    with Cons.IH [OF Cons.prems(1)] Cons.prems(2) show ?thesis by (auto simp: contains_keys)
  next
    case False
    have "tarjan_inv adj residue [open_frame adj residue r] (register_node r st)"
      using Cons.prems False tarjan_idle [OF Cons.prems(1)] by (intro enter_inv) (auto simp: contains_keys)
    from tarjan_loop_inv [OF this] obtain st1 where
      l: "tarjan_loop adj residue [open_frame adj residue r] (register_node r st) = Some st1" "tarjan_inv adj residue [] st1"
        "insert r (set (hm_keys (indices st))) \<subseteq> set (hm_keys (indices st1))"
      by (auto simp: register_node_def)
    from Cons.IH [OF l(2)] Cons.prems(2) l False show ?thesis by fastforce
  qed
qed simp

lemma residue_sccs_ok:
  "\<exists>cs. residue_sccs residue adj = Some cs \<and> distinct (concat cs) \<and> set (concat cs) = set residue
     \<and> (\<forall>c \<in> set cs. \<exists>x \<in> set residue. set c = scc_of (residue_edges adj residue) x)
     \<and> sorted (map scc_min cs)"
proof -
  have "tarjan_inv adj residue [] tarjan_init"
    by (simp add: tarjan_inv_def tarjan_init_def td.inv_init hm_keys_def)
  from search_roots_inv [OF this, of "debug_ord_sorted residue"] obtain st where
    r: "search_roots adj residue (debug_ord_sorted residue) tarjan_init = Some st" "tarjan_inv adj residue [] st"
      "set residue \<subseteq> set (hm_keys (indices st))" by (auto simp: debug_ord_sorted_def)
  have "set (hm_keys (indices st)) \<subseteq> set residue" "td.emitted residue adj (set (hm_keys (indices st))) [] (sccs st)"
    using r(2) tarjan_idle [OF r(2)] by (auto simp: tarjan_inv_def td.inv_def td.indexed_def)
  then have e: "td.emitted residue adj (set residue) [] (sccs st)" using r(3) by (simp add: subset_antisym)
  have p: "mset (concat (sort_key scc_min (sccs st))) = mset (concat (sccs st))"
    by (simp add: mset_concat flip: sum_mset_sum_list)
  have "distinct (concat (sort_key scc_min (sccs st)))" "set (concat (sort_key scc_min (sccs st))) = set residue"
    using e mset_eq_imp_distinct_iff [OF p] mset_eq_setD [OF p] by (auto simp: td.emitted_def)
  then show ?thesis using e by (simp add: residue_sccs_def r(1) td.emitted_def td_edges)
qed

text \<open>
  C3.  The component search never panics, for any adjacency, and returns exactly
  the strongly connected components of the subgraph induced on the residue,
  each once, with no node listed twice, ordered by their least member.
\<close>

theorem residue_sccs_components:
  "\<exists>cs. residue_sccs res adj = Some cs \<and> distinct (concat cs) \<and> set (concat cs) = set res
     \<and> set ` set cs = scc_of (residue_edges adj res) ` set res \<and> sorted (map scc_min cs)"
  using residue_sccs_ok [of res adj] scc_partition by metis

section \<open>The path through a component\<close>

lemma path_loop_reach:
  assumes "graph_search.visit_inv E R (set visited) (set stack)" "distinct visited" "path = visited"
    and "\<And>u. E `` {u} = succs_in adj scc u"
  shows "distinct (path_loop scc adj stack visited path) \<and> set (path_loop scc adj stack visited path) = E\<^sup>* `` R"
  using assms
proof (induction scc adj stack visited path rule: path_loop.induct)
  case (1 scc adj visited path)
  then show ?case using graph_search.visit_done [of E R "set visited"] by simp
next
  case (2 scc adj node stack visited path)
  show ?case
  proof (cases "node \<in> set visited")
    case True
    have "graph_search.visit_inv E R (set visited) (set stack)"
      using 2(3) True by (auto simp: graph_search.visit_inv_def)
    then show ?thesis using 2(1) 2(4-6) True by simp
  next
    case False
    let ?v = "hs_insert node visited" and ?succ = "rev (ordered_successors_within node adj scc)"
    let ?st = "fold (\<lambda>s stk. if s \<notin> set ?v then s # stk else stk) ?succ stack"
    have "graph_search.visit_inv E R (set ?v) (set ?st)"
      unfolding set_fold_push set_hs_insert
      by (rule graph_search.visit_expand [OF 2(3), of _ "E `` {node} - insert node (set visited)"])
        (use False 2(6) in auto)
    from 2(2) [OF False refl refl refl this] 2(4-6) False show ?thesis
      by (simp add: hs_insert_def Let_def)
  qed
qed

text \<open>Inside a component every member reaches every other without leaving it.\<close>

lemma scc_internal_path:
  assumes "(u, w) \<in> E\<^sup>*" "u \<in> scc_of E x" "w \<in> scc_of E x"
  shows "(u, w) \<in> (E \<inter> scc_of E x \<times> scc_of E x)\<^sup>*"
  using assms(1,2)
proof (induction rule: converse_rtrancl_induct)
  case (step u z)
  have "(x, u) \<in> E\<^sup>*" "(w, x) \<in> E\<^sup>*" using step(4) assms(3) by (auto simp: scc_of_def)
  then have "(x, z) \<in> E\<^sup>*" "(z, x) \<in> E\<^sup>*" using step(1,2) by (auto intro: rtrancl_trans rtrancl_into_rtrancl)
  then have "z \<in> scc_of E x" by (simp add: scc_of_def)
  with step show ?case by (auto intro: converse_rtrancl_into_rtrancl)
qed simp

lemma scc_ordered_path_names:
  assumes "set c = scc_of (residue_edges adj res) x" "x \<in> set res"
  shows "distinct (scc_ordered_path c adj) \<and> set (scc_ordered_path c adj) = set c"
proof -
  let ?E = "residue_edges adj res" and ?C = "hs_extend c []"
  let ?F = "?E \<inter> set c \<times> set c"
  have "set c \<noteq> {}" using assms(1) by (metis empty_iff scc_of_self)
  then obtain s xs where s: "debug_ord_sorted c = s # xs"
    by (cases "debug_ord_sorted c") (auto simp: debug_ord_sorted_def dest: arg_cong [of _ _ set])
  then have "s \<in> set (debug_ord_sorted c)" by simp
  then have sc: "s \<in> set c" by (simp add: debug_ord_sorted_def)
  let ?G = "{(u, w). w \<in> succs_in adj ?C u}"
  have "graph_search.visit_inv ?G {s} (set []) (set [s])" by (auto simp: graph_search.visit_inv_def)
  from path_loop_reach [OF this] have p: "distinct (scc_ordered_path c adj)" "set (scc_ordered_path c adj) = ?G\<^sup>* `` {s}"
    by (auto simp: scc_ordered_path_def s)
  have "?G\<^sup>* `` {s} \<subseteq> set c"
    by (rule rtrancl_Image_least) (use sc in \<open>auto simp: set_successors\<close>)
  moreover have "(s, w) \<in> ?G\<^sup>*" if "w \<in> set c" for w
  proof -
    have "(s, w) \<in> ?E\<^sup>*" using sc that assms(1) by (auto simp: scc_of_def intro: rtrancl_trans)
    then have "(s, w) \<in> ?F\<^sup>*" using scc_internal_path [of s w ?E x] sc that assms(1) by simp
    moreover have "?F \<subseteq> ?G" by (auto simp: residue_edges_def set_successors)
    ultimately show ?thesis using rtrancl_mono by blast
  qed
  ultimately show ?thesis using p by auto
qed

section \<open>The diagnostics of the pass\<close>

text \<open>A component is a cycle iff its members depend on themselves.\<close>

lemma component_cyclic:
  assumes "set c = scc_of E x" "distinct c"
  shows "length c > 1 \<or> length c = 1 \<and> (c ! 0, c ! 0) \<in> E \<longleftrightarrow> (x, x) \<in> E\<^sup>+"
proof
  have x: "x \<in> set c" using assms(1) by simp
  assume l: "length c > 1 \<or> length c = 1 \<and> (c ! 0, c ! 0) \<in> E"
  show "(x, x) \<in> E\<^sup>+"
  proof (cases "length c = 1")
    case True
    then have "c = [x]" using x by (cases c) auto
    then show ?thesis using l by auto
  next
    case False
    then have "card (set c) > 1" using l assms(2) by (simp add: distinct_card)
    then obtain y where "y \<in> set c" "y \<noteq> x" using x by (metis One_nat_def card_le_Suc0_iff_eq List.finite_set not_le)
    then show ?thesis using assms(1) by (auto simp: scc_of_def rtrancl_eq_or_trancl intro: trancl_trans)
  qed
next
  assume "(x, x) \<in> E\<^sup>+"
  then obtain z where z: "(x, z) \<in> E" "(z, x) \<in> E\<^sup>*" by (meson tranclD)
  then have zc: "z \<in> set c" "x \<in> set c" using assms(1) by (auto simp: scc_of_def)
  show "length c > 1 \<or> length c = 1 \<and> (c ! 0, c ! 0) \<in> E"
  proof (cases c)
    case (Cons a xs)
    then show ?thesis using z(1) zc by (cases xs) auto
  qed (use zc in simp)
qed

text \<open>The residue is closed downstream, so its components are those of the whole dependency relation.\<close>

lemma scc_of_closed:
  assumes "x \<in> R" "E `` R \<subseteq> R"
  shows "scc_of (E \<inter> R \<times> R) x = scc_of E x" "(x, x) \<in> (E \<inter> R \<times> R)\<^sup>+ \<longleftrightarrow> (x, x) \<in> E\<^sup>+"
proof -
  have r: "y \<in> R \<and> (u, y) \<in> (E \<inter> R \<times> R)\<^sup>*" if "(u, y) \<in> E\<^sup>*" "u \<in> R" for u y
    using that by (induction rule: rtrancl_induct) (use assms(2) in \<open>auto intro: rtrancl_into_rtrancl\<close>)
  have m: "(u, y) \<in> E\<^sup>*" if "(u, y) \<in> (E \<inter> R \<times> R)\<^sup>*" for u y
    using that by (rule rtrancl_mono [THEN subsetD, rotated]) simp
  show "scc_of (E \<inter> R \<times> R) x = scc_of E x"
    using assms(1) r m unfolding scc_of_def by blast
  show "(x, x) \<in> (E \<inter> R \<times> R)\<^sup>+ \<longleftrightarrow> (x, x) \<in> E\<^sup>+"
  proof
    assume "(x, x) \<in> E\<^sup>+"
    then obtain z where z: "(x, z) \<in> E" "(z, x) \<in> E\<^sup>*" by (meson tranclD)
    then have "(x, z) \<in> E \<inter> R \<times> R" using assms by auto
    then show "(x, x) \<in> (E \<inter> R \<times> R)\<^sup>+" using r [OF z(2)] assms z(1) by (auto intro: rtrancl_into_trancl2)
  qed (auto intro: trancl_mono)
qed

definition node_deps :: "traces \<Rightarrow> (NodeId \<times> NodeId) set" where
  "node_deps traces = dep_rel (set (hm_keys traces)) (\<lambda>n. trace_preds traces n \<inter> set (hm_keys traces))"

lemma residue_edges_deps:
  assumes "hm_wf traces" "build_edges traces (hm_keys traces) = Some (ind, adj)" "set res \<subseteq> set (hm_keys traces)"
  shows "residue_edges adj res = node_deps traces \<inter> set res \<times> set res"
proof -
  have "distinct (hm_keys traces)" using assms(1) by (simp add: hm_wf_def hm_keys_def)
  from build_edges_ok [OF this, of traces] assms(2)
  have "\<forall>p. adj_list adj p = filter (\<lambda>n. p \<in> trace_preds traces n \<inter> set (hm_keys traces)) (hm_keys traces)"
    unfolding preds_of_eq by auto
  then show ?thesis
    using assms(3) by (auto simp: residue_edges_def node_deps_def dep_rel_def set_successors)
qed

lemma self_edge_iff: "has_self_edge n adj \<longleftrightarrow> n \<in> set (adj_list adj n)"
  by (simp add: has_self_edge_def adj_list_def split: option.split)

lemma is_cycle_iff:
  assumes "set c = scc_of (residue_edges adj res) x" "x \<in> set res" "distinct c"
  shows "is_cycle c adj \<longleftrightarrow> (x, x) \<in> (residue_edges adj res)\<^sup>+"
proof -
  have "x \<in> set c" using assms(1) by simp
  then have "length c = 1 \<Longrightarrow> c ! 0 = x" by (cases c) auto
  then have "length c = 1 \<Longrightarrow> has_self_edge (c ! 0) adj \<longleftrightarrow> (c ! 0, c ! 0) \<in> residue_edges adj res"
    using assms(2) by (auto simp: self_edge_iff residue_edges_def set_successors)
  then show ?thesis using component_cyclic [OF assms(1,3)] unfolding is_cycle_def by blast
qed

lemma stranded_closed: "dep_rel N P `` (N \<inter> stranded N P) \<subseteq> N \<inter> stranded N P"
  by (auto simp: stranded_def dep_rel_def intro: rtrancl_into_rtrancl)

lemma distinct_concat_map:
  assumes "distinct (concat cs)" "\<And>c. c \<in> set cs \<Longrightarrow> distinct (f c) \<and> set (f c) = set c"
  shows "distinct (concat (map f (filter P cs)))"
  using assms by (induction cs) auto

lemma plan_residue:
  assumes "hm_wf traces" "unified_plan traces = Some (sch, res)"
  shows "set res \<subseteq> set (hm_keys traces)" "node_deps traces `` set res \<subseteq> set res"
    "(x, x) \<in> (node_deps traces)\<^sup>+ \<Longrightarrow> x \<in> set res" "res = [] \<longleftrightarrow> acyclic (node_deps traces)"
proof -
  let ?N = "set (hm_keys traces)" and ?P = "\<lambda>n. trace_preds traces n \<inter> set (hm_keys traces)"
  have d: "distinct (hm_keys traces)" using assms(1) by (simp add: hm_wf_def hm_keys_def)
  from run_seeded_greedy [OF d, of traces] assms(2)
  have r: "greedy_schedule ?N ?P sch" "set res = ?N - set sch"
    unfolding preds_of_eq by (auto simp: unified_plan_def Let_def)
  then have s: "set res = ?N \<inter> stranded ?N ?P" using greedy_schedule_set [OF r(1)] by auto
  then show "set res \<subseteq> ?N" by simp
  show "node_deps traces `` set res \<subseteq> set res" unfolding s node_deps_def by (rule stranded_closed)
  have cyc: "y \<in> set res" if y: "(y, y) \<in> (node_deps traces)\<^sup>+" for y
  proof -
    obtain z where "(z, y) \<in> node_deps traces" using y by (meson tranclD2)
    then show ?thesis using y by (auto simp: s stranded_def node_deps_def dep_rel_def)
  qed
  then show "(x, x) \<in> (node_deps traces)\<^sup>+ \<Longrightarrow> x \<in> set res" .
  have "acyclic (node_deps traces) \<Longrightarrow> set res = {}" by (auto simp: s stranded_def acyclic_def node_deps_def)
  then show "res = [] \<longleftrightarrow> acyclic (node_deps traces)" using cyc by (auto simp: acyclic_def)
qed

text \<open>The paths of the cyclic components name the components of the whole dependency relation.\<close>

lemma cycle_components:
  assumes wf: "hm_wf traces" and p: "unified_plan traces = Some (sch, res)"
    and b: "build_edges traces (hm_keys traces) = Some (ind, adj)"
    and cs: "distinct (concat cs)" "set (concat cs) = set res"
      "\<forall>c \<in> set cs. \<exists>x \<in> set res. set c = scc_of (residue_edges adj res) x"
  shows "set ` set (map (\<lambda>c. scc_ordered_path c adj) (filter (\<lambda>c. is_cycle c adj) cs))
    = scc_of (node_deps traces) ` {x. (x, x) \<in> (node_deps traces)\<^sup>+}"
proof -
  let ?D = "node_deps traces"
  note res = plan_residue [OF wf p]
  note E = residue_edges_deps [OF wf b res(1)]
  let ?path = "\<lambda>c. scc_ordered_path c adj" and ?cyc = "filter (\<lambda>c. is_cycle c adj) cs"
  have comp: "distinct (?path c) \<and> set (?path c) = set c" if "c \<in> set cs" for c
    using scc_ordered_path_names cs(3) that by blast
  have cyc: "\<exists>x \<in> set res. set c = scc_of ?D x \<and> (is_cycle c adj \<longleftrightarrow> (x, x) \<in> ?D\<^sup>+)" if c: "c \<in> set cs" for c
  proof -
    obtain x where x: "x \<in> set res" "set c = scc_of (residue_edges adj res) x" using cs(3) c by blast
    have "distinct c" using cs(1) c by (meson distinct_concat_iff)
    from is_cycle_iff [OF x(2,1) this] x scc_of_closed [OF x(1) res(2)] show ?thesis unfolding E by metis
  qed
  show "set ` set (map ?path ?cyc) = scc_of ?D ` {x. (x, x) \<in> ?D\<^sup>+}"
  proof (intro equalityI subsetI)
    fix X assume "X \<in> set ` set (map ?path ?cyc)"
    then obtain c where "c \<in> set cs" "is_cycle c adj" "X = set (?path c)" by auto
    with cyc [of c] comp [of c] show "X \<in> scc_of ?D ` {x. (x, x) \<in> ?D\<^sup>+}" by auto
  next
    fix X assume "X \<in> scc_of ?D ` {x. (x, x) \<in> ?D\<^sup>+}"
    then obtain x where x: "X = scc_of ?D x" "(x, x) \<in> ?D\<^sup>+" by auto
    with res(3) cs(2) obtain c where c: "c \<in> set cs" "x \<in> set c" by fastforce
    from cyc [OF c(1)] obtain y where y: "set c = scc_of ?D y" "is_cycle c adj \<longleftrightarrow> (y, y) \<in> ?D\<^sup>+" by blast
    have "(y, x) \<in> ?D\<^sup>*" "(x, y) \<in> ?D\<^sup>*" using c(2) y(1) by (auto simp: scc_of_def)
    then have "(y, y) \<in> ?D\<^sup>+" using x(2) by (meson rtrancl_trancl_trancl trancl_rtrancl_trancl)
    then have "c \<in> set ?cyc" using c(1) y(2) by simp
    moreover have "set (?path c) = X" using comp [OF c(1)] y(1) x(1) scc_of_eq [of x ?D y] c(2) by simp
    ultimately show "X \<in> set ` set (map ?path ?cyc)" by auto
  qed
qed

text \<open>
  C2.  The build pass always returns, and reports its cycles exactly: it emits one
  cycle error for each strongly connected component of nodes that depend on
  themselves, naming every member of the component once, then the unresolved
  constraints; it reports a cycle iff some node was left unscheduled.
\<close>

theorem run_unified_pass_cycles:
  assumes wf: "hm_wf traces"
  shows "\<exists>sch res paths. unified_plan traces = Some (sch, res)
    \<and> run_unified_pass g traces = Some \<lparr>upr_schedule = sch, upr_residue = res,
        upr_diagnostics = map (\<lambda>p. (EvalCycle, cycle_message p)) paths
          @ map (\<lambda>m. (EvalUnresolved, m)) (unresolved_diagnostics g traces)\<rparr>
    \<and> set ` set paths = scc_of (node_deps traces) ` {x. (x, x) \<in> (node_deps traces)\<^sup>+}
    \<and> distinct (concat paths) \<and> (paths = [] \<longleftrightarrow> res = [])"
proof -
  let ?D = "node_deps traces"
  have d: "distinct (hm_keys traces)" using wf by (simp add: hm_wf_def hm_keys_def)
  from run_seeded_greedy [OF d, of traces] obtain sch res where p: "unified_plan traces = Some (sch, res)"
    by (auto simp: unified_plan_def Let_def)
  from build_edges_ok [OF d, of traces] obtain ind adj where b: "build_edges traces (hm_keys traces) = Some (ind, adj)"
    by blast
  note res = plan_residue [OF wf p]
  from residue_sccs_ok [of res adj] obtain cs where cs: "residue_sccs res adj = Some cs" "distinct (concat cs)"
    "set (concat cs) = set res" "\<forall>c \<in> set cs. \<exists>x \<in> set res. set c = scc_of (residue_edges adj res) x" by blast
  let ?path = "\<lambda>c. scc_ordered_path c adj" and ?cyc = "filter (\<lambda>c. is_cycle c adj) cs"
  have comp: "distinct (?path c) \<and> set (?path c) = set c" if "c \<in> set cs" for c
    using scc_ordered_path_names cs(4) that by blast
  have "set ` set (map ?path ?cyc) = scc_of ?D ` {x. (x, x) \<in> ?D\<^sup>+}"
    by (rule cycle_components [OF wf p b cs(2-4)])
  moreover from this have "map ?path ?cyc = [] \<longleftrightarrow> res = []"
    unfolding res(4) acyclic_def by (metis (no_types, lifting) Collect_empty_eq image_is_empty set_empty)
  moreover have "distinct (concat (map ?path ?cyc))" using cs(2) comp by (rule distinct_concat_map)
  moreover have "run_unified_pass g traces = Some \<lparr>upr_schedule = sch, upr_residue = res,
      upr_diagnostics = map (\<lambda>p. (EvalCycle, cycle_message p)) (map ?path ?cyc)
        @ map (\<lambda>m. (EvalUnresolved, m)) (unresolved_diagnostics g traces)\<rparr>"
    by (simp add: run_unified_pass_def p b cs(1) eval_cycle_diagnostic_def comp_def)
  ultimately show ?thesis using p by blast
qed

section \<open>An instance\<close>

text \<open>Cells \<open>a\<close> and \<open>b\<close> read each other, \<open>s\<close> reads itself and \<open>d\<close> reads \<open>a\<close>.\<close>

definition cyclic_traces :: traces where
  "cyclic_traces = map (\<lambda>(n, rs). (Value (demo_cell n), \<lparr>reads = map demo_cell rs, realization_reads = []\<rparr>))
     [(''a'', [''b'']), (''b'', [''a'']), (''d'', [''a'']), (''s'', [''s'']), (''t'', [])]"

theorem run_unified_pass_cycles_witness:
  "\<exists>r. run_unified_pass demo_graph cyclic_traces = Some r
     \<and> set (upr_residue r) = (\<lambda>n. Value (demo_cell n)) ` {''a'', ''b'', ''d'', ''s''}
     \<and> EvalCycle \<in> fst ` set (upr_diagnostics r)"
proof -
  have wf: "hm_wf cyclic_traces" by code_simp
  have plan: "unified_plan cyclic_traces = Some ([Value (demo_cell ''t'')],
      map (\<lambda>n. Value (demo_cell n)) [''a'', ''b'', ''d'', ''s''])" by code_simp
  from run_unified_pass_cycles [OF wf, of demo_graph] obtain res paths r where
    "unified_plan cyclic_traces = Some ([Value (demo_cell ''t'')], res)" "run_unified_pass demo_graph cyclic_traces = Some r"
    "upr_residue r = res" "upr_diagnostics r = map (\<lambda>p. (EvalCycle, cycle_message p)) paths
      @ map (\<lambda>m. (EvalUnresolved, m)) (unresolved_diagnostics demo_graph cyclic_traces)" "paths = [] \<longleftrightarrow> res = []"
    using plan by auto
  with plan show ?thesis by (cases paths) auto
qed

text \<open>The two cycles are reported in order, the stranded cell \<open>d\<close> is not named.\<close>

lemma cyclic_traces_messages:
  "map_option upr_diagnostics (run_unified_pass demo_graph cyclic_traces) =
     Some [(EvalCycle, ''evaluation cycle detected: [value cell A.a, value cell A.b]''),
           (EvalCycle, ''evaluation cycle detected: [value cell A.s]'')]"
  by code_simp

end
