(* ===== verification/Dimension.thy ===== *)
theory Dimension
  imports Complex_Main Text "HOL-Library.Signed_Division"
begin

text \<open>
  Physical dimensions (\<open>reify-core/src/dimension.rs\<close>): rational exponents over
  \<open>i16\<close>, vectors of ten of them, their algebra, names and rendering.

  Arithmetic on \<open>i16\<close> depends on the build: the development profile panics on
  overflow, the release profile wraps around.  The operations take the build as
  their first argument (\<open>True\<close> for checked arithmetic); a panic is \<open>None\<close>.
\<close>

section \<open>Sixteen-bit integers\<close>

definition in_i16 :: "int \<Rightarrow> bool" where
  "in_i16 n \<longleftrightarrow> - 32768 \<le> n \<and> n \<le> 32767"

definition wrap16 :: "int \<Rightarrow> int" where
  "wrap16 n = (n + 32768) mod 65536 - 32768"

text \<open>The result of an arithmetic operation whose mathematical value is \<open>n\<close>.\<close>

definition arith16 :: "bool \<Rightarrow> int \<Rightarrow> int option" where
  "arith16 checked n = (if in_i16 n then Some n else if checked then None else Some (wrap16 n))"

text \<open>Division truncates, and panics in every build when the quotient does not fit.\<close>

definition div16 :: "int \<Rightarrow> int \<Rightarrow> int option" where
  "div16 a b = (if b = 0 \<or> a = - 32768 \<and> b = - 1 then None else Some (a sdiv b))"

definition rem16 :: "int \<Rightarrow> int \<Rightarrow> int option" where
  "rem16 a b = (if b = 0 \<or> a = - 32768 \<and> b = - 1 then None else Some (a smod b))"

lemma arith16_exact [simp]: "in_i16 n \<Longrightarrow> arith16 checked n = Some n"
  by (simp add: arith16_def)

lemma in_wrap16 [simp]: "in_i16 (wrap16 n)"
  using pos_mod_bound [of 65536 "n + 32768"] pos_mod_sign [of 65536 "n + 32768"]
  by (simp add: in_i16_def wrap16_def)

lemma wrap16_id: "in_i16 n \<Longrightarrow> wrap16 n = n"
  by (simp add: in_i16_def wrap16_def)

section \<open>Rational exponents\<close>

record Rational =
  num :: int
  den :: int

function gcd16 :: "int \<Rightarrow> int \<Rightarrow> int" where
  "gcd16 a b = (if b = 0 then a else gcd16 b (a mod b))"
  by pat_completeness auto
termination by (relation "measure (\<lambda>(a, b). nat \<bar>b\<bar>)") (auto simp: abs_mod_less)

declare gcd16.simps [simp del]

definition rational_new :: "bool \<Rightarrow> int \<Rightarrow> int \<Rightarrow> Rational option" where
  "rational_new checked n d =
     (if d = 0 then None
      else
        let g = wrap16 (gcd16 \<bar>n\<bar> \<bar>d\<bar>);
            s = (if d < 0 then - 1 else 1) in
        Option.bind (arith16 checked (s * n)) (\<lambda>n'. Option.bind (div16 n' g) (\<lambda>n''.
        Option.bind (arith16 checked (s * d)) (\<lambda>d'. Option.bind (div16 d' g) (\<lambda>d''.
          Some \<lparr>num = n'', den = d''\<rparr>)))))"

definition rational_zero :: Rational where
  "rational_zero = \<lparr>num = 0, den = 1\<rparr>"

definition rational_one :: Rational where
  "rational_one = \<lparr>num = 1, den = 1\<rparr>"

definition is_zero :: "Rational \<Rightarrow> bool" where
  "is_zero r \<longleftrightarrow> num r = 0"

definition is_integer :: "Rational \<Rightarrow> bool option" where
  "is_integer r = (if den r = 1 then Some True else map_option (\<lambda>m. m = 0) (rem16 (num r) (den r)))"

definition as_i8 :: "Rational \<Rightarrow> int option option" where
  "as_i8 r =
     (let fit = (\<lambda>v. if - 128 \<le> v \<and> v \<le> 127 then Some v else None) in
      if den r = 1 then Some (fit (num r))
      else Option.bind (rem16 (num r) (den r)) (\<lambda>m.
        if m = 0 then map_option fit (div16 (num r) (den r)) else Some None))"

text \<open>\<open>a.num * b.den OP b.num * a.den\<close>, each operation at sixteen bits.\<close>

definition cross :: "bool \<Rightarrow> (int \<Rightarrow> int \<Rightarrow> int) \<Rightarrow> Rational \<Rightarrow> Rational \<Rightarrow> Rational option" where
  "cross checked oper a b =
     Option.bind (arith16 checked (num a * den b)) (\<lambda>x.
     Option.bind (arith16 checked (num b * den a)) (\<lambda>y.
     Option.bind (arith16 checked (oper x y)) (\<lambda>n.
     Option.bind (arith16 checked (den a * den b)) (\<lambda>d.
       rational_new checked n d))))"

definition rational_add :: "bool \<Rightarrow> Rational \<Rightarrow> Rational \<Rightarrow> Rational option" where
  "rational_add checked = cross checked (+)"

definition rational_sub :: "bool \<Rightarrow> Rational \<Rightarrow> Rational \<Rightarrow> Rational option" where
  "rational_sub checked = cross checked (-)"

definition rational_neg :: "bool \<Rightarrow> Rational \<Rightarrow> Rational option" where
  "rational_neg checked a = Option.bind (arith16 checked (- num a)) (\<lambda>n. rational_new checked n (den a))"

section \<open>Dimension vectors\<close>

datatype DimensionVector = DimensionVector (slots: "Rational list")

definition DIMENSIONLESS :: DimensionVector where
  "DIMENSIONLESS = DimensionVector (replicate 10 rational_zero)"

fun set_exps :: "(nat \<times> int \<times> int) list \<Rightarrow> Rational list \<Rightarrow> Rational list option" where
  "set_exps [] v = Some v"
| "set_exps ((idx, n, d) # entries) v =
     (if idx < length v
      then Option.bind (rational_new True n d) (\<lambda>r. set_exps entries (v[idx := r]))
      else None)"

text \<open>The constructors run at compile time, where arithmetic is checked.\<close>

definition from_rational_exps :: "(nat \<times> int \<times> int) list \<Rightarrow> DimensionVector option" where
  "from_rational_exps entries = map_option DimensionVector (set_exps entries (replicate 10 rational_zero))"

definition from_exps :: "(nat \<times> int) list \<Rightarrow> DimensionVector option" where
  "from_exps entries = from_rational_exps (map (\<lambda>(idx, e). (idx, e, 1)) entries)"

definition basis_n :: "nat \<Rightarrow> int \<Rightarrow> DimensionVector option" where
  "basis_n index n = from_exps [(index, n)]"

definition basis :: "nat \<Rightarrow> DimensionVector option" where
  "basis index = (if index < 10 then Some (DimensionVector ((replicate 10 rational_zero)[index := rational_one])) else None)"

definition is_dimensionless :: "DimensionVector \<Rightarrow> bool" where
  "is_dimensionless d \<longleftrightarrow> list_all is_zero (slots d)"

definition dim_mul :: "bool \<Rightarrow> DimensionVector \<Rightarrow> DimensionVector \<Rightarrow> DimensionVector option" where
  "dim_mul checked a b = map_option DimensionVector (those (map2 (rational_add checked) (slots a) (slots b)))"

definition dim_div :: "bool \<Rightarrow> DimensionVector \<Rightarrow> DimensionVector \<Rightarrow> DimensionVector option" where
  "dim_div checked a b = map_option DimensionVector (those (map2 (rational_sub checked) (slots a) (slots b)))"

definition root_slot :: "bool \<Rightarrow> int \<Rightarrow> Rational \<Rightarrow> Rational option" where
  "root_slot checked n r = Option.bind (arith16 checked (den r * n)) (rational_new checked (num r))"

text \<open>The degree and the power are \<open>i8\<close>.\<close>

definition dim_root :: "bool \<Rightarrow> int \<Rightarrow> DimensionVector \<Rightarrow> DimensionVector option" where
  "dim_root checked n d =
     (if n = 0 then None else map_option DimensionVector (those (map (root_slot checked n) (slots d))))"

definition pow_slot :: "bool \<Rightarrow> Rational \<Rightarrow> Rational \<Rightarrow> Rational option" where
  "pow_slot checked nr r =
     Option.bind (arith16 checked (num r * num nr)) (\<lambda>n.
     Option.bind (arith16 checked (den r * den nr)) (\<lambda>d. rational_new checked n d))"

definition dim_pow :: "bool \<Rightarrow> int \<Rightarrow> DimensionVector \<Rightarrow> DimensionVector option" where
  "dim_pow checked n d =
     Option.bind (rational_new checked n 1) (\<lambda>nr.
       map_option DimensionVector (those (map (pow_slot checked nr) (slots d))))"

section \<open>Names\<close>

definition NAMED_EXPONENTS :: "((nat \<times> int \<times> int) list \<times> string) list" where
  "NAMED_EXPONENTS = [
    ([(0, 1, 1)], ''Length''), ([(1, 1, 1)], ''Mass''), ([(2, 1, 1)], ''Time''), ([(3, 1, 1)], ''Current''),
    ([(4, 1, 1)], ''Temperature''), ([(5, 1, 1)], ''AmountOfSubstance''), ([(6, 1, 1)], ''LuminousIntensity''),
    ([(7, 1, 1)], ''Angle''), ([(8, 1, 1)], ''SolidAngle''), ([(9, 1, 1)], ''Money''),
    ([(0, 2, 1)], ''Area''), ([(0, 3, 1)], ''Volume''), ([(2, - 1, 1)], ''Frequency''),
    ([(0, 1, 1), (1, 1, 1), (2, - 2, 1)], ''Force''),
    ([(0, 2, 1), (1, 1, 1), (2, - 2, 1)], ''Energy''),
    ([(0, 2, 1), (1, 1, 1), (2, - 3, 1)], ''Power''),
    ([(0, - 1, 1), (1, 1, 1), (2, - 2, 1)], ''Pressure''),
    ([(0, 2, 1), (1, 1, 1), (2, - 3, 1), (3, - 1, 1)], ''Voltage''),
    ([(2, 1, 1), (3, 1, 1)], ''Charge''),
    ([(0, - 2, 1), (1, - 1, 1), (2, 4, 1), (3, 2, 1)], ''Capacitance''),
    ([(0, 2, 1), (1, 1, 1), (2, - 3, 1), (3, - 2, 1)], ''Resistance''),
    ([(0, - 2, 1), (1, - 1, 1), (2, 3, 1), (3, 2, 1)], ''Conductance''),
    ([(0, 2, 1), (1, 1, 1), (2, - 2, 1), (3, - 2, 1)], ''Inductance''),
    ([(0, 2, 1), (1, 1, 1), (2, - 2, 1), (3, - 1, 1)], ''MagneticFlux''),
    ([(1, 1, 1), (2, - 2, 1), (3, - 1, 1)], ''MagneticFluxDensity''),
    ([(6, 1, 1), (8, 1, 1)], ''LuminousFlux''),
    ([(0, - 2, 1), (6, 1, 1), (8, 1, 1)], ''Illuminance''),
    ([(0, 2, 1), (2, - 2, 1)], ''AbsorbedDose''),
    ([(2, - 1, 1), (7, 1, 1)], ''AngularVelocity''),
    ([(0, - 1, 1), (1, 1, 1), (2, - 1, 1)], ''DynamicViscosity''),
    ([(0, 2, 1), (1, 1, 1)], ''MomentOfInertia''),
    ([(0, - 3, 1), (1, 1, 1)], ''Density''),
    ([(0, 1, 1), (2, - 1, 1)], ''Velocity''),
    ([(0, 1, 1), (2, - 2, 1)], ''Acceleration''),
    ([(0, - 2, 1), (1, 1, 1), (2, - 2, 1)], ''ForceDensity''),
    ([(0, 1, 1), (1, 1, 1), (2, - 3, 1), (4, - 1, 1)], ''ThermalConductivity''),
    ([(0, 2, 1), (2, - 2, 1), (4, - 1, 1)], ''SpecificHeat''),
    ([(4, - 1, 1)], ''ThermalExpansion''),
    ([(0, 3, 1), (1, 1, 1), (2, - 3, 1), (3, - 2, 1)], ''ElectricResistivity''),
    ([(0, - 3, 1), (1, - 1, 1), (2, 3, 1), (3, 2, 1)], ''ElectricalConductivity''),
    ([(0, 1, 1), (1, 1, 1), (2, - 3, 1), (3, - 1, 1)], ''DielectricStrength''),
    ([(1, 1, 1), (2, - 2, 1)], ''Stiffness''),
    ([(1, 1, 1), (2, - 2, 1)], ''TranslationalStiffness''),
    ([(0, 2, 1), (1, 1, 1), (2, - 2, 1), (7, - 2, 1)], ''RotationalStiffness''),
    ([(0, 2, 1), (1, 1, 1), (2, - 2, 1), (7, - 1, 1)], ''Torque''),
    ([(0, 2, 1), (1, 1, 1), (2, - 1, 1), (7, - 2, 1)], ''RotationalDamping''),
    ([(1, 1, 1), (2, - 1, 1)], ''TranslationalDamping''),
    ([(0, - 1, 1)], ''AbsorptionCoeff''),
    ([(0, - 1, 1), (7, 1, 1)], ''Curvature''),
    ([(0, - 1, 2), (1, 1, 1), (2, - 2, 1)], ''FractureToughness''),
    ([(0, 1, 1), (1, 1, 1), (2, - 1, 1)], ''Impulse''),
    ([(0, 1, 1), (1, 1, 1), (2, - 1, 1)], ''Momentum'')]"

text \<open>A constant whose evaluation fails is a compile error, so the table only has the others.\<close>

definition NAMED_DIMENSIONS :: "(DimensionVector \<times> string) list" where
  "NAMED_DIMENSIONS = List.map_filter (\<lambda>(es, name). map_option (\<lambda>d. (d, name)) (from_rational_exps es)) NAMED_EXPONENTS"

definition canonical_name :: "DimensionVector \<Rightarrow> string option" where
  "canonical_name d = map_option snd (find (\<lambda>(dv, _). dv = d) NAMED_DIMENSIONS)"

text \<open>The arm of \<open>resolve_dimension_type\<close> for a named type; \<open>None\<close> is its diagnostic.\<close>

definition resolve_dimension_name :: "string \<Rightarrow> DimensionVector option" where
  "resolve_dimension_name name =
     (case find (\<lambda>(_, n). n = name) NAMED_DIMENSIONS of
        Some (dv, _) \<Rightarrow> Some dv
      | None \<Rightarrow> if name = ''Dimensionless'' \<or> name = ''Real'' then Some DIMENSIONLESS else None)"

section \<open>Rendering\<close>

definition show_int :: "int \<Rightarrow> string" where
  "show_int n = (if n < 0 then CHR ''-'' # show_nat (nat (- n)) else show_nat (nat n))"

definition show_rational :: "Rational \<Rightarrow> string" where
  "show_rational r = (if den r = 1 then show_int (num r) else show_int (num r) @ ''/'' @ show_int (den r))"

definition BASE_UNIT_SYMBOLS :: "string list" where
  "BASE_UNIT_SYMBOLS = [''m'', ''kg'', ''s'', ''A'', ''K'', ''mol'', ''cd'', ''rad'', ''sr'', ''USD'']"

text \<open>The middle dot, in UTF-8.\<close>

definition dot :: string where
  "dot = [CHR 0xC2, CHR 0xB7]"

fun join_with :: "string \<Rightarrow> string list \<Rightarrow> string" where
  "join_with sep [] = []"
| "join_with sep [x] = x"
| "join_with sep (x # y # xs) = x @ sep @ join_with sep (y # xs)"

definition slot_part :: "string \<times> Rational \<Rightarrow> string" where
  "slot_part p = (case p of (name, r) \<Rightarrow> if r = rational_one then name else name @ ''^'' @ show_rational r)"

definition show_dimension :: "DimensionVector \<Rightarrow> string" where
  "show_dimension d =
     (let entries = filter (\<lambda>(_, r). \<not> is_zero r) (zip BASE_UNIT_SYMBOLS (slots d));
          parts = map slot_part (filter (\<lambda>(_, r). num r > 0) entries)
            @ map slot_part (filter (\<lambda>(_, r). \<not> num r > 0) entries) in
      if parts = [] then ''dimensionless'' else join_with dot parts)"

definition diagnostic_dimension_label :: "DimensionVector \<Rightarrow> string" where
  "diagnostic_dimension_label d =
     (if is_dimensionless d then ''dimensionless''
      else case canonical_name d of Some n \<Rightarrow> n | None \<Rightarrow> show_dimension d)"

definition diagnostic_scalar_label :: "DimensionVector \<Rightarrow> string" where
  "diagnostic_scalar_label d =
     (if is_dimensionless d then ''dimensionless''
      else case canonical_name d of Some n \<Rightarrow> n | None \<Rightarrow> ''dimensioned'') @ '' Scalar''"

text \<open>The unit label of \<open>to_display_units\<close>; the scaling of the value is floating point.\<close>

definition display_unit :: "DimensionVector \<Rightarrow> string" where
  "display_unit d =
     (if Some d = basis 0 then ''mm''
      else if Some d = basis 7 then ''deg''
      else if Some d = basis_n 0 2 then ''mm^2''
      else if Some d = basis_n 0 3 then ''mm^3''
      else if Some d = basis 9 then ''USD''
      else if is_dimensionless d then []
      else show_dimension d)"

text \<open>\<open>content_hash\<close> hashes the parts of each exponent in little-endian order.\<close>

definition le_bytes16 :: "int \<Rightarrow> u8 list" where
  "le_bytes16 n = [word_of_int n, word_of_int (n div 256)]"

definition hash_buffer :: "DimensionVector \<Rightarrow> u8 list" where
  "hash_buffer d = concat (map (\<lambda>r. le_bytes16 (num r) @ le_bytes16 (den r)) (slots d))"

definition dim_content_hash :: "(u8 list \<Rightarrow> 'h) \<Rightarrow> DimensionVector \<Rightarrow> 'h" where
  "dim_content_hash H d = H (hash_buffer d)"

section \<open>What a rational means\<close>

definition rat_of :: "Rational \<Rightarrow> rat" where
  "rat_of r = Fract (num r) (den r)"

text \<open>Lowest terms with a positive denominator, and both parts in range.\<close>

definition rational_wf :: "Rational \<Rightarrow> bool" where
  "rational_wf r \<longleftrightarrow> den r > 0 \<and> coprime (num r) (den r) \<and> in_i16 (num r) \<and> in_i16 (den r)"

lemma gcd16_gcd: "a \<ge> 0 \<Longrightarrow> b \<ge> 0 \<Longrightarrow> gcd16 a b = gcd a b"
proof (induction a b rule: gcd16.induct)
  case (1 a b)
  then show ?case by (simp add: gcd16.simps [of a b] gcd_red_int [of a b] split: if_splits)
qed

lemma rat_of_inject: "rational_wf a \<Longrightarrow> rational_wf b \<Longrightarrow> rat_of a = rat_of b \<longleftrightarrow> a = b"
proof -
  assume wf: "rational_wf a" "rational_wf b"
  have "quotient_of (rat_of a) = (num a, den a)" "quotient_of (rat_of b) = (num b, den b)"
    using wf by (simp_all add: rat_of_def rational_wf_def quotient_of_Fract normalize_stable)
  then show ?thesis by (metis old.unit.exhaust Rational.surjective prod.inject)
qed

text \<open>
  Away from the least \<open>i16\<close> no intermediate value of the constructor overflows.
\<close>

definition small16 :: "int \<Rightarrow> bool" where
  "small16 n \<longleftrightarrow> \<bar>n\<bar> \<le> 32767"

lemma small16_in: "small16 n \<Longrightarrow> in_i16 n \<and> in_i16 (- n)"
  by (auto simp: small16_def in_i16_def)

lemma sdiv_exact: "(g :: int) > 0 \<Longrightarrow> g dvd n \<Longrightarrow> n sdiv g = n div g"
  by (auto simp: signed_divide_int_def sgn_if dvd_neg_div elim!: dvdE)

lemma rational_new_ok:
  assumes "small16 n" "small16 d" "d \<noteq> 0"
  shows "\<exists>r. rational_new checked n d = Some r \<and> rational_wf r \<and> rat_of r = Fract n d
    \<and> \<bar>num r\<bar> \<le> \<bar>n\<bar> \<and> den r \<le> \<bar>d\<bar>"
proof -
  define g s where "g = gcd n d" and "s = (if d < 0 then - 1 else (1 :: int))"
  have "gcd n d \<noteq> 0" using assms(3) by simp
  from gcd_coprime_exists [OF this] obtain a b where "n = a * g" "d = b * g" and ab3: "coprime a b"
    unfolding g_def by blast
  then have ab: "n = g * a" "d = g * b" by (simp_all only: mult.commute)
  have "g > 0" using assms(3) by (simp add: g_def)
  moreover have "b \<noteq> 0" using assms(3) ab(2) by auto
  ultimately have g: "g > 0" "b \<noteq> 0" by simp_all
  have le: "\<bar>a\<bar> \<le> \<bar>n\<bar>" "\<bar>b\<bar> \<le> \<bar>d\<bar>" "g \<le> \<bar>d\<bar>"
    using g unfolding ab(1,2) abs_mult by (auto simp: mult_le_cancel_right1 mult_le_cancel_left1)
  have "gcd16 \<bar>n\<bar> \<bar>d\<bar> = g" by (simp add: gcd16_gcd g_def)
  moreover have "in_i16 g" using g le(3) assms(2) by (simp add: small16_def in_i16_def)
  ultimately have w: "wrap16 (gcd16 \<bar>n\<bar> \<bar>d\<bar>) = g" by (simp add: wrap16_id)
  have i: "in_i16 (s * n)" "in_i16 (s * d)" using assms by (auto simp: small16_in s_def)
  have "s * n = g * (s * a)" "s * d = g * (s * b)" by (simp_all add: ab)
  moreover have "div16 (g * m) g = Some m" for m using g(1) by (simp add: div16_def sdiv_exact)
  ultimately have "div16 (s * n) g = Some (s * a)" "div16 (s * d) g = Some (s * b)" by (simp_all only:)
  then have new: "rational_new checked n d = Some \<lparr>num = s * a, den = s * b\<rparr>"
    using assms(3) i by (simp add: rational_new_def w flip: s_def)
  have neg: "d < 0 \<longleftrightarrow> b < 0" using g by (simp add: ab mult_less_0_iff)
  have sb: "s * b > 0" "\<bar>s * a\<bar> = \<bar>a\<bar>" "\<bar>s * b\<bar> = \<bar>b\<bar>" "coprime (s * a) (s * b)"
    using g(2) ab3 by (simp_all add: s_def neg)
  have "in_i16 (s * a)" "in_i16 (s * b)"
    using le assms(1,2) sb(2,3) unfolding small16_def in_i16_def by linarith+
  then have "rational_wf \<lparr>num = s * a, den = s * b\<rparr>"
    using sb by (simp add: rational_wf_def)
  moreover have "Fract (s * a) (s * b) = Fract n d"
    using g assms(3) by (simp add: eq_rat ab s_def)
  moreover have "s * b \<le> \<bar>d\<bar>" using sb(3) le(2) by linarith
  ultimately show ?thesis using new sb(2) le(1) by (simp add: rat_of_def)
qed

section \<open>Exact arithmetic\<close>

text \<open>Both products, their combination and the common denominator stay in range.\<close>

definition fits :: "Rational \<Rightarrow> Rational \<Rightarrow> bool" where
  "fits a b \<longleftrightarrow> \<bar>num a * den b\<bar> + \<bar>num b * den a\<bar> \<le> 32767 \<and> den a * den b \<le> 32767"

lemma cross_ok:
  assumes "rational_wf a" "rational_wf b" "fits a b" "\<bar>oper (num a * den b) (num b * den a)\<bar> \<le> 32767"
  shows "\<exists>r. cross checked oper a b = Some r \<and> rational_wf r
    \<and> rat_of r = Fract (oper (num a * den b) (num b * den a)) (den a * den b)"
proof -
  have p: "den a * den b > 0" using assms(1,2) by (simp add: rational_wf_def)
  have i: "in_i16 (num a * den b)" "in_i16 (num b * den a)" "in_i16 (den a * den b)"
      "in_i16 (oper (num a * den b) (num b * den a))"
    using assms(3,4) p unfolding fits_def in_i16_def by linarith+
  have "small16 (oper (num a * den b) (num b * den a))" "small16 (den a * den b)" "den a * den b \<noteq> 0"
    using assms(3,4) p by (auto simp: fits_def small16_def)
  from rational_new_ok [OF this, of checked] i show ?thesis by (auto simp: cross_def)
qed

lemma rational_add_ok:
  assumes "rational_wf a" "rational_wf b" "fits a b"
  shows "\<exists>r. rational_add checked a b = Some r \<and> rational_wf r \<and> rat_of r = rat_of a + rat_of b"
proof -
  have "\<bar>num a * den b + num b * den a\<bar> \<le> 32767" using assms(3) unfolding fits_def by linarith
  from cross_ok [OF assms, where oper = "(+)", OF this, of checked] show ?thesis
    using assms(1,2) by (auto simp: rational_add_def rat_of_def rational_wf_def)
qed

lemma rational_sub_ok:
  assumes "rational_wf a" "rational_wf b" "fits a b"
  shows "\<exists>r. rational_sub checked a b = Some r \<and> rational_wf r \<and> rat_of r = rat_of a - rat_of b"
proof -
  have "\<bar>num a * den b - num b * den a\<bar> \<le> 32767" using assms(3) unfolding fits_def by linarith
  from cross_ok [OF assms, where oper = "(-)", OF this, of checked] show ?thesis
    using assms(1,2) by (auto simp: rational_sub_def rat_of_def rational_wf_def)
qed

text \<open>Exponents that fit in eight bits can always be added and subtracted.\<close>

definition fits8 :: "Rational \<Rightarrow> bool" where
  "fits8 r \<longleftrightarrow> \<bar>num r\<bar> \<le> 127 \<and> den r \<le> 127"

lemma fits8_fits:
  assumes "rational_wf a" "rational_wf b" "fits8 a" "fits8 b"
  shows "fits a b"
proof -
  have p: "den a > 0" "den b > 0" using assms by (simp_all add: rational_wf_def)
  have b: "\<bar>num a\<bar> \<le> 127" "\<bar>num b\<bar> \<le> 127" "\<bar>den a\<bar> \<le> 127" "\<bar>den b\<bar> \<le> 127"
    using assms p by (auto simp: fits8_def)
  have "\<bar>x * y\<bar> \<le> 127 * 127" if "\<bar>x\<bar> \<le> 127" "\<bar>y\<bar> \<le> 127" for x y :: int
    using mult_mono [OF that] by (simp add: abs_mult)
  from this [OF b(1,4)] this [OF b(2,3)] this [OF b(3,4)]
  have "\<bar>num a * den b\<bar> \<le> 16129" "\<bar>num b * den a\<bar> \<le> 16129" "\<bar>den a * den b\<bar> \<le> 16129" by simp_all
  then show ?thesis unfolding fits_def by linarith
qed

section \<open>The algebra of dimensions\<close>

definition dim_wf :: "DimensionVector \<Rightarrow> bool" where
  "dim_wf d \<longleftrightarrow> length (slots d) = 10 \<and> list_all rational_wf (slots d)"

definition exps :: "DimensionVector \<Rightarrow> rat list" where
  "exps d = map rat_of (slots d)"

definition dim_fits :: "DimensionVector \<Rightarrow> DimensionVector \<Rightarrow> bool" where
  "dim_fits a b \<longleftrightarrow> list_all2 fits (slots a) (slots b)"

lemma exps_inject: "dim_wf a \<Longrightarrow> dim_wf b \<Longrightarrow> exps a = exps b \<longleftrightarrow> a = b"
proof -
  assume wf: "dim_wf a" "dim_wf b"
  have "map rat_of xs = map rat_of ys \<longleftrightarrow> xs = ys"
    if "list_all rational_wf xs" "list_all rational_wf ys" for xs ys
    using that by (intro inj_on_map_eq_map inj_onI) (auto simp: list_all_iff rat_of_inject)
  with wf show ?thesis by (cases a; cases b) (simp add: exps_def dim_wf_def)
qed

lemma those_map_ok:
  assumes "\<And>x. x \<in> set xs \<Longrightarrow> \<exists>y. f x = Some y \<and> rational_wf y \<and> rat_of y = g x"
  shows "\<exists>ys. those (map f xs) = Some ys \<and> list_all rational_wf ys \<and> map rat_of ys = map g xs \<and> length ys = length xs"
  using assms
proof (induction xs)
  case (Cons x xs)
  from Cons.prems [of x] obtain y where "f x = Some y" "rational_wf y" "rat_of y = g x" by auto
  moreover from Cons.IH Cons.prems obtain ys where
    "those (map f xs) = Some ys" "list_all rational_wf ys" "map rat_of ys = map g xs" "length ys = length xs" by auto
  ultimately show ?case by simp
qed simp

lemma slotwise_ok:
  assumes "dim_wf a" "dim_wf b" "dim_fits a b"
    and "\<And>x y. rational_wf x \<Longrightarrow> rational_wf y \<Longrightarrow> fits x y \<Longrightarrow>
      \<exists>r. f x y = Some r \<and> rational_wf r \<and> rat_of r = oper (rat_of x) (rat_of y)"
  shows "\<exists>c. map_option DimensionVector (those (map2 f (slots a) (slots b))) = Some c \<and> dim_wf c
    \<and> exps c = map2 oper (exps a) (exps b)"
proof -
  have "\<exists>r. case_prod f p = Some r \<and> rational_wf r \<and> rat_of r = (case p of (x, y) \<Rightarrow> oper (rat_of x) (rat_of y))"
    if p: "p \<in> set (zip (slots a) (slots b))" for p
  proof -
    obtain x y where xy: "p = (x, y)" by (cases p)
    then have "x \<in> set (slots a)" "y \<in> set (slots b)" using p by (auto dest: set_zip_leftD set_zip_rightD)
    then have "rational_wf x" "rational_wf y" using assms(1,2) by (auto simp: dim_wf_def list_all_iff)
    moreover have "fits x y" using assms(3) p xy by (auto simp: dim_fits_def list_all2_iff)
    ultimately show ?thesis using assms(4) xy by simp
  qed
  from those_map_ok [of "zip (slots a) (slots b)" "case_prod f" "\<lambda>(x, y). oper (rat_of x) (rat_of y)", OF this]
  obtain ys where "those (map2 f (slots a) (slots b)) = Some ys" "list_all rational_wf ys"
    "map rat_of ys = map (\<lambda>(x, y). oper (rat_of x) (rat_of y)) (zip (slots a) (slots b))" "length ys = 10"
    using assms(1,2) by (auto simp: dim_wf_def)
  then show ?thesis by (auto simp: dim_wf_def exps_def zip_map_map)
qed

lemma dim_mul_ok:
  assumes "dim_wf a" "dim_wf b" "dim_fits a b"
  shows "\<exists>c. dim_mul checked a b = Some c \<and> dim_wf c \<and> exps c = map2 (+) (exps a) (exps b)"
  unfolding dim_mul_def by (rule slotwise_ok [OF assms]) (rule rational_add_ok)

lemma dim_div_ok:
  assumes "dim_wf a" "dim_wf b" "dim_fits a b"
  shows "\<exists>c. dim_div checked a b = Some c \<and> dim_wf c \<and> exps c = map2 (-) (exps a) (exps b)"
  unfolding dim_div_def by (rule slotwise_ok [OF assms]) (rule rational_sub_ok)

definition dim_fits8 :: "DimensionVector \<Rightarrow> bool" where
  "dim_fits8 d \<longleftrightarrow> list_all fits8 (slots d)"

lemma dim_fits8_fits:
  "dim_wf a \<Longrightarrow> dim_wf b \<Longrightarrow> dim_fits8 a \<Longrightarrow> dim_fits8 b \<Longrightarrow> dim_fits a b"
  by (auto simp: dim_wf_def dim_fits_def dim_fits8_def list_all_iff list_all2_conv_all_nth intro: fits8_fits)

text \<open>
  C35.  On dimensions in lowest terms whose exponents fit in eight bits,
  multiplication and division never overflow, in either build profile: they add
  and subtract the exponents exactly and return dimensions in lowest terms.
\<close>

theorem dim_mul_div_exact:
  assumes "dim_wf a" "dim_wf b" "dim_fits8 a" "dim_fits8 b"
  shows "\<exists>p q. dim_mul checked a b = Some p \<and> dim_wf p \<and> exps p = map2 (+) (exps a) (exps b)
    \<and> dim_div checked a b = Some q \<and> dim_wf q \<and> exps q = map2 (-) (exps a) (exps b)"
  using dim_mul_ok [OF assms(1,2) dim_fits8_fits [OF assms], of checked]
    dim_div_ok [OF assms(1,2) dim_fits8_fits [OF assms], of checked] by blast

text \<open>
  The constructor returns lowest terms with a positive denominator that
  denote the given quotient, and equal quotients give equal values, so the
  derived equality of dimensions is equality of exponents.
\<close>

theorem rational_new_canonical:
  assumes "small16 n" "small16 d" "d \<noteq> 0" and "small16 n'" "small16 d'" "d' \<noteq> 0"
  shows "\<exists>r r'. rational_new checked n d = Some r \<and> rational_new checked' n' d' = Some r'
    \<and> rational_wf r \<and> rat_of r = Fract n d \<and> (r = r' \<longleftrightarrow> n * d' = n' * d)"
proof -
  obtain r r' where r: "rational_new checked n d = Some r" "rational_wf r" "rat_of r = Fract n d"
    "rational_new checked' n' d' = Some r'" "rational_wf r'" "rat_of r' = Fract n' d'"
    using rational_new_ok [OF assms(1-3), of checked] rational_new_ok [OF assms(4-6), of checked'] by auto
  moreover have "r = r' \<longleftrightarrow> n * d' = n' * d"
    using r assms(3,6) by (simp add: eq_rat flip: rat_of_inject)
  ultimately show ?thesis by blast
qed

section \<open>Powers and roots\<close>

lemma pow_slot_ok:
  assumes "rational_wf r" "small16 (num r * n)"
  shows "\<exists>q. pow_slot checked \<lparr>num = n, den = 1\<rparr> r = Some q \<and> rational_wf q \<and> rat_of q = rat_of r * of_int n
    \<and> den q \<le> den r \<and> small16 (num q)"
proof -
  have "small16 (den r)" "den r \<noteq> 0" "den r > 0" "in_i16 (den r)"
    using assms(1) by (auto simp: rational_wf_def small16_def in_i16_def)
  with rational_new_ok [OF assms(2) this(1,2), of checked] small16_in [OF assms(2)]
  show ?thesis using assms(2) by (auto simp: pow_slot_def rat_of_def Fract_of_int_quotient small16_def)
qed

lemma root_slot_ok:
  assumes "rational_wf r" "small16 (den r * n)" "n \<noteq> 0" "num r \<noteq> - 32768"
  shows "\<exists>q. root_slot checked n r = Some q \<and> rational_wf q \<and> rat_of q = rat_of r / of_int n"
proof -
  have "small16 (num r)" "den r * n \<noteq> 0"
    using assms by (auto simp: rational_wf_def small16_def in_i16_def)
  with rational_new_ok [OF this(1) assms(2), of checked] small16_in [OF assms(2)]
  show ?thesis by (auto simp: root_slot_def rat_of_def Fract_of_int_quotient)
qed

lemma dim_pow_ok:
  assumes "dim_wf d" "\<And>r. r \<in> set (slots d) \<Longrightarrow> small16 (num r * n)" "small16 n"
  shows "\<exists>p. dim_pow checked n d = Some p \<and> dim_wf p \<and> exps p = map (\<lambda>e. e * of_int n) (exps d)
    \<and> list_all2 (\<lambda>q r. den q \<le> den r \<and> small16 (num q)) (slots p) (slots d)"
proof -
  have nr: "rational_new checked n 1 = Some \<lparr>num = n, den = 1\<rparr>"
  proof -
    obtain r where r: "rational_new checked n 1 = Some r" "rational_wf r" "rat_of r = Fract n 1"
      using rational_new_ok [OF assms(3), of 1 checked] by (auto simp: small16_def)
    moreover have "rational_wf \<lparr>num = n, den = 1\<rparr>" using small16_in [OF assms(3)] by (simp add: rational_wf_def in_i16_def)
    ultimately show ?thesis using rat_of_inject [of r "\<lparr>num = n, den = 1\<rparr>"] by (simp add: rat_of_def)
  qed
  let ?f = "pow_slot checked \<lparr>num = n, den = 1\<rparr>"
  have slot: "\<exists>q. ?f r = Some q \<and> rational_wf q \<and> rat_of q = rat_of r * of_int n \<and> den q \<le> den r \<and> small16 (num q)"
    if "r \<in> set (slots d)" for r
    using pow_slot_ok [of r n checked] assms(1,2) that by (auto simp: dim_wf_def list_all_iff)
  then obtain qs where qs: "those (map ?f (slots d)) = Some qs" "list_all rational_wf qs"
    "map rat_of qs = map (\<lambda>r. rat_of r * of_int n) (slots d)" "length qs = length (slots d)"
    using those_map_ok [of "slots d" ?f "\<lambda>r. rat_of r * of_int n"] by blast
  have "list_all2 (\<lambda>q r. den q \<le> den r \<and> small16 (num q)) qs (slots d)"
  proof -
    have "those (map ?f xs) = Some ys \<Longrightarrow> set xs \<subseteq> set (slots d) \<Longrightarrow> list_all2 (\<lambda>q r. den q \<le> den r \<and> small16 (num q)) ys xs" for xs ys
      by (induction xs arbitrary: ys) (use slot in \<open>fastforce split: option.splits\<close>)+
    then show ?thesis using qs(1) by simp
  qed
  with qs nr assms(1) show ?thesis by (simp add: dim_pow_def dim_wf_def exps_def)
qed

lemma dim_root_ok:
  assumes "dim_wf d" "\<And>r. r \<in> set (slots d) \<Longrightarrow> small16 (den r * n) \<and> num r \<noteq> - 32768" "n \<noteq> 0"
  shows "\<exists>p. dim_root checked n d = Some p \<and> dim_wf p \<and> exps p = map (\<lambda>e. e / of_int n) (exps d)"
proof -
  have "\<exists>q. root_slot checked n r = Some q \<and> rational_wf q \<and> rat_of q = rat_of r / of_int n"
    if "r \<in> set (slots d)" for r
    using root_slot_ok [of r n checked] assms that by (auto simp: dim_wf_def list_all_iff)
  from those_map_ok [of "slots d" "root_slot checked n" "\<lambda>r. rat_of r / of_int n", OF this] show ?thesis
    using assms(1,3) by (auto simp: dim_root_def dim_wf_def exps_def)
qed

lemma fits8_mult:
  assumes "fits8 r" "rational_wf r" "\<bar>n\<bar> \<le> 128"
  shows "small16 (num r * n)" "small16 (den r * n)"
proof -
  have "\<bar>x * n\<bar> \<le> 127 * 128" if "\<bar>x\<bar> \<le> 127" for x
    using mult_mono [OF that assms(3)] by (simp add: abs_mult)
  moreover have "\<bar>num r\<bar> \<le> 127" "\<bar>den r\<bar> \<le> 127" using assms(1,2) by (auto simp: fits8_def rational_wf_def)
  ultimately show "small16 (num r * n)" "small16 (den r * n)" unfolding small16_def by fastforce+
qed

text \<open>
  C27.  For a dimension whose exponents fit in eight bits and any nonzero \<open>i8\<close>,
  raising to a power multiplies the exponents exactly and taking the root of
  the same degree gives the dimension back, in either build profile.
\<close>

theorem root_of_pow:
  assumes "dim_wf d" "dim_fits8 d" "n \<noteq> 0" "- 128 \<le> n" "n \<le> 127"
  shows "\<exists>p. dim_pow checked n d = Some p \<and> exps p = map (\<lambda>e. e * of_int n) (exps d)
    \<and> dim_root checked n p = Some d"
proof -
  have n: "\<bar>n\<bar> \<le> 128" "small16 n" using assms(4,5) by (auto simp: small16_def)
  have r: "rational_wf r" "small16 (num r * n)" "small16 (den r * n)" if "r \<in> set (slots d)" for r
    using fits8_mult [OF _ _ n(1), of r] assms(1,2) that by (auto simp: dim_wf_def dim_fits8_def list_all_iff)
  from dim_pow_ok [OF assms(1) r(2) n(2)] obtain p where p: "dim_pow checked n d = Some p" "dim_wf p"
    "exps p = map (\<lambda>e. e * of_int n) (exps d)"
    "list_all2 (\<lambda>q r. den q \<le> den r \<and> small16 (num q)) (slots p) (slots d)" by blast
  have "small16 (den q * n) \<and> num q \<noteq> - 32768" if q: "q \<in> set (slots p)" for q
  proof -
    obtain i where "i < length (slots d)" "q = slots p ! i"
      using p(4) q by (auto simp: list_all2_conv_all_nth in_set_conv_nth)
    then obtain r where r': "r \<in> set (slots d)" "den q \<le> den r" "small16 (num q)"
      using p(4) that [of "slots d ! i"] by (simp add: list_all2_conv_all_nth)
    moreover have "den q > 0" using p(2) q by (auto simp: dim_wf_def list_all_iff rational_wf_def)
    ultimately have "\<bar>den q * n\<bar> \<le> \<bar>den r * n\<bar>" unfolding abs_mult by (intro mult_right_mono) auto
    then show ?thesis using r(3) [OF r'(1)] r'(3) by (auto simp: small16_def)
  qed
  from dim_root_ok [OF p(2) this assms(3)] obtain c where
    c: "dim_root checked n p = Some c" "dim_wf c" "exps c = map (\<lambda>e. e / of_int n) (exps p)" by blast
  then have "exps c = exps d" using assms(3) by (simp add: p(3) comp_def)
  then show ?thesis using p c exps_inject [OF c(2) assms(1)] by blast
qed

section \<open>Names\<close>

definition first_name :: "(DimensionVector \<times> string) list \<Rightarrow> DimensionVector \<Rightarrow> string option" where
  "first_name T d = map_option snd (find (\<lambda>(dv, _). dv = d) T)"

lemma named_rows: "map snd NAMED_DIMENSIONS = map snd NAMED_EXPONENTS" "distinct (map snd NAMED_EXPONENTS)"
  by code_simp+

lemma named_aliases:
  "let T = NAMED_DIMENSIONS in
   filter (\<lambda>(d, n). first_name T d \<noteq> Some n) T
     = [(the (from_exps [(1, 1), (2, - 2)]), ''TranslationalStiffness''),
        (the (from_exps [(0, 1), (1, 1), (2, - 1)]), ''Momentum'')]"
  by code_simp

lemma canonical_first: "canonical_name = first_name NAMED_DIMENSIONS"
  by (simp add: fun_eq_iff canonical_name_def first_name_def)

lemma find_name_row: "(d, n) \<in> set T \<Longrightarrow> distinct (map snd T) \<Longrightarrow> find (\<lambda>(_, n'). n' = n) T = Some (d, n)"
  by (induction T) (auto split: if_splits simp: rev_image_eqI)

lemma resolve_row: "(d, n) \<in> set NAMED_DIMENSIONS \<Longrightarrow> resolve_dimension_name n = Some d"
  using find_name_row [of d n NAMED_DIMENSIONS] named_rows by (simp add: resolve_dimension_name_def)

lemma find_first_row: "(d, n) \<in> set T \<Longrightarrow> \<exists>n'. find (\<lambda>(dv, _). dv = d) T = Some (d, n')"
  by (induction T) auto

lemma canonical_row: "(d, n) \<in> set NAMED_DIMENSIONS \<Longrightarrow> Option.bind (canonical_name d) resolve_dimension_name = Some d"
proof -
  assume "(d, n) \<in> set NAMED_DIMENSIONS"
  from find_first_row [OF this] obtain n' where "find (\<lambda>(dv, _). dv = d) NAMED_DIMENSIONS = Some (d, n')" ..
  moreover from this have "(d, n') \<in> set NAMED_DIMENSIONS" by (auto simp: find_Some_iff in_set_conv_nth)
  ultimately show ?thesis by (simp add: canonical_name_def resolve_row)
qed

text \<open>
  Every row of the table of named dimensions is a well-formed constant; the
  names are distinct and each resolves to the dimension of its row; the
  canonical name of every named dimension resolves back to it; and no two rows
  share a dimension except the two documented alias pairs.
\<close>

theorem named_dimensions_roundtrip:
  "map snd NAMED_DIMENSIONS = map snd NAMED_EXPONENTS \<and> distinct (map snd NAMED_DIMENSIONS)
   \<and> map (\<lambda>(_, n). resolve_dimension_name n) NAMED_DIMENSIONS = map (\<lambda>(d, _). Some d) NAMED_DIMENSIONS
   \<and> map (\<lambda>(d, _). Option.bind (canonical_name d) resolve_dimension_name) NAMED_DIMENSIONS = map (\<lambda>(d, _). Some d) NAMED_DIMENSIONS
   \<and> filter (\<lambda>(d, n). canonical_name d \<noteq> Some n) NAMED_DIMENSIONS
     = [(the (from_exps [(1, 1), (2, - 2)]), ''TranslationalStiffness''),
        (the (from_exps [(0, 1), (1, 1), (2, - 1)]), ''Momentum'')]"
  using named_rows named_aliases by (auto simp: resolve_row canonical_row [unfolded canonical_first] canonical_first Let_def)

section \<open>Overflow\<close>

text \<open>
  Exponents beyond eight bits are not protected: the third of these powers panics
  in a checked build and silently turns the exponent negative in a release
  build.
\<close>

definition length_power :: "bool \<Rightarrow> DimensionVector option" where
  "length_power c = Option.bind (basis 0) (\<lambda>l. Option.bind (dim_pow c 127 l) (\<lambda>a. Option.bind (dim_pow c 127 a) (dim_pow c 3)))"

lemma pow_wraps:
  "length_power True = None"
  "length_power False = Some (DimensionVector ((replicate 10 rational_zero)[0 := \<lparr>num = - 17149, den = 1\<rparr>]))"
  by code_simp+

section \<open>Instances\<close>

definition demo_force :: DimensionVector where
  "demo_force = the (from_exps [(0, 1), (1, 1), (2, - 2)])"

lemma slots_force:
  "slots demo_force = [rational_one, rational_one, \<lparr>num = - 2, den = 1\<rparr>] @ replicate 7 rational_zero"
  by code_simp

lemma demo_force_ok: "dim_wf demo_force" "dim_fits8 demo_force"
  by (simp_all add: dim_wf_def dim_fits8_def slots_force rational_wf_def fits8_def rational_one_def rational_zero_def
      in_i16_def numeral_nat)

theorem dim_mul_div_exact_witness:
  "\<exists>p. dim_mul False demo_force demo_force = Some p \<and> dim_wf p \<and> exps p = map2 (+) (exps demo_force) (exps demo_force)"
  using dim_mul_div_exact [OF demo_force_ok(1) demo_force_ok(1) demo_force_ok(2) demo_force_ok(2), of False] by blast

theorem rational_new_canonical_witness:
  "\<exists>r. rational_new True 6 (- 4) = Some r \<and> rational_new True (- 3) 2 = Some r \<and> rational_wf r"
  using rational_new_canonical [of 6 "- 4" "- 3" 2 True True] by (auto simp: small16_def)

theorem root_of_pow_witness:
  "\<exists>p. dim_pow True (- 3) demo_force = Some p \<and> dim_root True (- 3) p = Some demo_force"
  using root_of_pow [OF demo_force_ok, of "- 3" True] by auto

end
