(* ===== verification/Kleene.thy ===== *)
theory Kleene
  imports Prelude
begin

text \<open>
  Three-valued logic (\<open>reify-expr/src/kleene.rs\<close>) and the evaluation of the
  logical operators and of quantifiers over it (\<open>reify-expr/src/lib.rs\<close>).  Of a
  value only what these functions distinguish is kept: a boolean, \<open>Undef\<close>, or
  any other variant, which is a type error.  The operands are given by their
  values.
\<close>

section \<open>Truth values\<close>

datatype KBool = KTrue | KFalse | KUndef

fun kleene_and :: "KBool \<Rightarrow> KBool \<Rightarrow> KBool" where
  "kleene_and KFalse _ = KFalse"
| "kleene_and _ KFalse = KFalse"
| "kleene_and KTrue KTrue = KTrue"
| "kleene_and _ _ = KUndef"

fun kleene_or :: "KBool \<Rightarrow> KBool \<Rightarrow> KBool" where
  "kleene_or KTrue _ = KTrue"
| "kleene_or _ KTrue = KTrue"
| "kleene_or KFalse KFalse = KFalse"
| "kleene_or _ _ = KUndef"

fun kleene_not :: "KBool \<Rightarrow> KBool" where
  "kleene_not KTrue = KFalse"
| "kleene_not KFalse = KTrue"
| "kleene_not KUndef = KUndef"

definition kleene_implies :: "KBool \<Rightarrow> KBool \<Rightarrow> KBool" where
  "kleene_implies a b = kleene_or (kleene_not a) b"

section \<open>Values\<close>

datatype 'v logic_value = VBool bool | VUndef | VOther 'v

fun kbool_try_from :: "'v logic_value \<Rightarrow> KBool option" where
  "kbool_try_from (VBool True) = Some KTrue"
| "kbool_try_from (VBool False) = Some KFalse"
| "kbool_try_from VUndef = Some KUndef"
| "kbool_try_from (VOther _) = None"

fun value_from_kbool :: "KBool \<Rightarrow> 'v logic_value" where
  "value_from_kbool KTrue = VBool True"
| "value_from_kbool KFalse = VBool False"
| "value_from_kbool KUndef = VUndef"

definition eval_and :: "'v logic_value \<Rightarrow> 'v logic_value \<Rightarrow> 'v logic_value" where
  "eval_and lv rv =
     (case kbool_try_from lv of
        None \<Rightarrow> VUndef
      | Some lk \<Rightarrow>
          if lk = KFalse then VBool False
          else case kbool_try_from rv of None \<Rightarrow> VUndef | Some rk \<Rightarrow> value_from_kbool (kleene_and lk rk))"

definition eval_or :: "'v logic_value \<Rightarrow> 'v logic_value \<Rightarrow> 'v logic_value" where
  "eval_or lv rv =
     (case kbool_try_from lv of
        None \<Rightarrow> VUndef
      | Some lk \<Rightarrow>
          if lk = KTrue then VBool True
          else case kbool_try_from rv of None \<Rightarrow> VUndef | Some rk \<Rightarrow> value_from_kbool (kleene_or lk rk))"

definition eval_implies :: "'v logic_value \<Rightarrow> 'v logic_value \<Rightarrow> 'v logic_value" where
  "eval_implies lv rv =
     (case kbool_try_from lv of
        None \<Rightarrow> VUndef
      | Some lk \<Rightarrow>
          if lk = KFalse then VBool True
          else case kbool_try_from rv of None \<Rightarrow> VUndef | Some rk \<Rightarrow> value_from_kbool (kleene_implies lk rk))"

definition eval_not :: "'v logic_value \<Rightarrow> 'v logic_value" where
  "eval_not v =
     (if v = VUndef then VUndef
      else case kbool_try_from v of None \<Rightarrow> VUndef | Some k \<Rightarrow> value_from_kbool (kleene_not k))"

section \<open>Quantifiers\<close>

datatype QuantifierKind = ForAll | Exists

text \<open>The loop over the predicate's values, with the flag for an undefined one seen.\<close>

fun quantify :: "QuantifierKind \<Rightarrow> bool \<Rightarrow> 'v logic_value list \<Rightarrow> 'v logic_value" where
  "quantify kind has_undef [] = (if has_undef then VUndef else VBool (kind = ForAll))"
| "quantify kind has_undef (p # ps) =
     (case p of
        VBool b \<Rightarrow>
          (if b = (kind = ForAll) then quantify kind has_undef ps else VBool b)
      | VUndef \<Rightarrow> quantify kind True ps
      | VOther _ \<Rightarrow> VUndef)"

text \<open>The value-iteration branch: a collection that is undefined or no list or set gives \<open>VUndef\<close>.\<close>

definition eval_quantifier :: "QuantifierKind \<Rightarrow> ('e \<Rightarrow> 'v logic_value) \<Rightarrow> 'e list option \<Rightarrow> 'v logic_value" where
  "eval_quantifier kind predicate collection =
     (case collection of None \<Rightarrow> VUndef | Some elements \<Rightarrow> quantify kind False (map predicate elements))"

section \<open>Laws\<close>

text \<open>The information order: an unknown may become anything, a decided value stays.\<close>

definition refines :: "KBool \<Rightarrow> KBool \<Rightarrow> bool" where
  "refines a b \<longleftrightarrow> a = KUndef \<or> a = b"

lemma kleene_laws:
  "kleene_and a b = kleene_and b a" "kleene_or a b = kleene_or b a"
  "kleene_and (kleene_and a b) c = kleene_and a (kleene_and b c)"
  "kleene_or (kleene_or a b) c = kleene_or a (kleene_or b c)"
  "kleene_and a (kleene_or b c) = kleene_or (kleene_and a b) (kleene_and a c)"
  "kleene_not (kleene_and a b) = kleene_or (kleene_not a) (kleene_not b)"
  "kleene_not (kleene_not a) = a" "kleene_and a a = a" "kleene_or a a = a"
  "kleene_and KTrue a = a" "kleene_or KFalse a = a"
  by (cases a; cases b; cases c; simp)+

lemma kbool_roundtrip [simp]: "kbool_try_from (value_from_kbool k) = Some k"
  by (cases k) simp_all

lemma value_roundtrip: "kbool_try_from v = Some k \<Longrightarrow> value_from_kbool k = v"
  by (cases v) (auto split: bool.splits elim: kbool_try_from.elims)

text \<open>The evaluators agree with the tables on operands that are truth values.\<close>

lemma eval_tables:
  assumes "kbool_try_from l = Some a" "kbool_try_from r = Some b"
  shows "eval_and l r = value_from_kbool (kleene_and a b)" "eval_or l r = value_from_kbool (kleene_or a b)"
    "eval_implies l r = value_from_kbool (kleene_implies a b)" "eval_not l = value_from_kbool (kleene_not a)"
  using assms value_roundtrip [OF assms(1)]
  by (cases a; cases b; auto simp: eval_and_def eval_or_def eval_implies_def eval_not_def kleene_implies_def)+

definition kleene_fold :: "QuantifierKind \<Rightarrow> KBool list \<Rightarrow> KBool" where
  "kleene_fold kind ks = (case kind of ForAll \<Rightarrow> foldr kleene_and ks KTrue | Exists \<Rightarrow> foldr kleene_or ks KFalse)"

text \<open>What the loop computes, as a condition on the values it meets.\<close>

lemma quantify_decided:
  assumes "list_all (\<lambda>p. kbool_try_from p \<noteq> None) ps"
  shows "quantify kind u ps =
    (if VBool (kind \<noteq> ForAll) \<in> set ps then VBool (kind \<noteq> ForAll)
     else if u \<or> VUndef \<in> set ps then VUndef else VBool (kind = ForAll))"
  using assms
proof (induction ps arbitrary: u)
  case (Cons p ps)
  then show ?case by (cases p) auto
qed simp

lemma kleene_fold_decided:
  "kleene_fold ForAll ks = (if KFalse \<in> set ks then KFalse else if KUndef \<in> set ks then KUndef else KTrue)"
  "kleene_fold Exists ks = (if KTrue \<in> set ks then KTrue else if KUndef \<in> set ks then KUndef else KFalse)"
  unfolding kleene_fold_def QuantifierKind.case
proof (induction ks)
  case (Cons k ks)
  {
    case 1
    show ?case using Cons by (cases k) auto
  next
    case 2
    show ?case using Cons by (cases k) auto
  }
qed simp_all

text \<open>
  C36.  Where the predicate yields truth values, a quantifier with its early
  returns equals the fold of the Kleene tables, and it depends only on the set
  of values it meets, so the iteration order of a set does not matter.
\<close>

theorem eval_quantifier_kleene:
  assumes "\<forall>e \<in> set es. kbool_try_from (P e) \<noteq> None" and "set es = set es'"
  shows "eval_quantifier kind P (Some es) = value_from_kbool (kleene_fold kind (map (the \<circ> kbool_try_from \<circ> P) es))
    \<and> eval_quantifier kind P (Some es') = eval_quantifier kind P (Some es)"
proof -
  let ?k = "the \<circ> kbool_try_from \<circ> P"
  have la: "list_all (\<lambda>p. kbool_try_from p \<noteq> None) (map P es)" "list_all (\<lambda>p. kbool_try_from p \<noteq> None) (map P es')"
    using assms by (auto simp: list_all_iff)
  have v: "(v \<in> P ` set es) = (k \<in> ?k ` set es)" if vk: "kbool_try_from v = Some k" for v k
  proof -
    have "v = P e \<longleftrightarrow> k = ?k e" if e: "e \<in> set es" for e
    proof -
      obtain k' where "kbool_try_from (P e) = Some k'" using assms(1) e by auto
      then show ?thesis using vk value_roundtrip by (metis comp_apply option.sel)
    qed
    then show ?thesis by (auto simp: image_iff)
  qed
  have "(VBool True \<in> P ` set es) = (KTrue \<in> ?k ` set es)" "(VBool False \<in> P ` set es) = (KFalse \<in> ?k ` set es)"
    "(VUndef \<in> P ` set es) = (KUndef \<in> ?k ` set es)"
    by (rule v, simp)+
  then show ?thesis
    using quantify_decided [OF la(1)] quantify_decided [OF la(2)] assms(2)
    by (cases kind) (auto simp: eval_quantifier_def kleene_fold_decided)
qed

theorem eval_quantifier_kleene_witness:
  "eval_quantifier ForAll (\<lambda>n. if n = (0 :: nat) then VUndef else VBool (n < 5) :: unit logic_value) (Some [0, 3, 7]) = VBool False"
  using eval_quantifier_kleene [of "[0, 3, 7]" "\<lambda>n. if n = (0 :: nat) then VUndef else VBool (n < 5) :: unit logic_value" "[0, 3, 7]" ForAll]
  by (auto simp: kleene_fold_def)

text \<open>
  Deciding an unknown operand never changes a decided result: every operator
  and every quantifier is monotone in the information order.
\<close>

theorem kleene_monotone:
  assumes "refines a a'" "refines b b'" "list_all2 refines ks ks'"
  shows "refines (kleene_and a b) (kleene_and a' b') \<and> refines (kleene_or a b) (kleene_or a' b')
    \<and> refines (kleene_implies a b) (kleene_implies a' b') \<and> refines (kleene_not a) (kleene_not a')
    \<and> refines (kleene_fold kind ks) (kleene_fold kind ks')"
proof -
  have ops: "refines (kleene_and x y) (kleene_and x' y')" "refines (kleene_or x y) (kleene_or x' y')"
    if "refines x x'" "refines y y'" for x x' y y'
    using that by (cases x; cases y; cases x'; cases y'; simp add: refines_def)+
  have "refines (foldr kleene_and ks KTrue) (foldr kleene_and ks' KTrue)"
    "refines (foldr kleene_or ks KFalse) (foldr kleene_or ks' KFalse)"
    using assms(3) by (induction rule: list_all2_induct) (auto intro: ops, simp_all add: refines_def)
  then have "refines (kleene_fold kind ks) (kleene_fold kind ks')"
    by (cases kind) (simp_all add: kleene_fold_def)
  moreover have n: "refines (kleene_not a) (kleene_not a')" using assms(1) by (auto simp: refines_def)
  ultimately show ?thesis using ops [OF assms(1,2)] ops [OF n assms(2)] by (simp add: kleene_implies_def)
qed

theorem kleene_monotone_witness:
  "refines (kleene_and KUndef KFalse) (kleene_and KTrue KFalse)"
  using kleene_monotone [of KUndef KTrue KFalse KFalse "[]" "[]" ForAll] by (simp add: refines_def)

end
