(* ===== verification/Dispatch.thy ===== *)
theory Dispatch
  imports Text Worklist
begin

text \<open>
  Multi-kernel dispatch (\<open>reify-eval/src/dispatcher.rs\<close>) over the kernel and
  operation types of \<open>reify-core/src/kernel.rs\<close> and \<open>reify-ir/src/geometry.rs\<close>: a
  breadth-first search for the shortest chain of representation conversions,
  and the diagnostics around it.  The registry, a \<open>BTreeMap\<close>, is its list of
  entries in ascending name order.  A failed \<open>expect\<close> is \<open>None\<close>.
\<close>

section \<open>Kernels, representations, operations\<close>

datatype KernelId = Fidget | Gmsh | Manifold | Occt | OpenVdb

definition KERNEL_ALL :: "KernelId list" where
  "KERNEL_ALL = [Fidget, Gmsh, Manifold, Occt, OpenVdb]"

fun as_registry_name :: "KernelId \<Rightarrow> string" where
  "as_registry_name Fidget = ''fidget''"
| "as_registry_name Gmsh = ''gmsh''"
| "as_registry_name Manifold = ''manifold''"
| "as_registry_name Occt = ''occt''"
| "as_registry_name OpenVdb = ''openvdb''"

definition from_registry_name :: "string \<Rightarrow> KernelId option" where
  "from_registry_name name =
     (if name = ''fidget'' then Some Fidget
      else if name = ''gmsh'' then Some Gmsh
      else if name = ''manifold'' then Some Manifold
      else if name = ''occt'' then Some Occt
      else if name = ''openvdb'' then Some OpenVdb
      else None)"

lemma from_registry_name_iff: "from_registry_name name = Some k \<longleftrightarrow> as_registry_name k = name"
  by (cases k) (auto simp: from_registry_name_def split: if_splits)

datatype ReprKind = BRep | Mesh | Sdf | Voxel | VolumeMesh

primrec repr_rank :: "ReprKind \<Rightarrow> nat" where
  "repr_rank BRep = 0"
| "repr_rank Mesh = 1"
| "repr_rank Sdf = 2"
| "repr_rank Voxel = 3"
| "repr_rank VolumeMesh = 4"

lemma repr_rank_inject [simp]: "repr_rank a = repr_rank b \<longleftrightarrow> a = b"
  by (cases a; cases b) simp_all

text \<open>The derived order is the declaration order.\<close>

instantiation ReprKind :: linorder
begin

definition less_eq_ReprKind :: "ReprKind \<Rightarrow> ReprKind \<Rightarrow> bool" where
  "less_eq_ReprKind a b \<longleftrightarrow> repr_rank a \<le> repr_rank b"

definition less_ReprKind :: "ReprKind \<Rightarrow> ReprKind \<Rightarrow> bool" where
  "less_ReprKind a b \<longleftrightarrow> repr_rank a < repr_rank b"

instance
  by standard (auto simp: less_eq_ReprKind_def less_ReprKind_def)

end

lemma UNIV_ReprKind: "(UNIV :: ReprKind set) = {BRep, Mesh, Sdf, Voxel, VolumeMesh}"
proof (intro equalityI subsetI)
  fix r :: ReprKind
  show "r \<in> {BRep, Mesh, Sdf, Voxel, VolumeMesh}" by (cases r) simp_all
qed simp

lemma finite_ReprKind [simp]: "finite (A :: ReprKind set)"
proof -
  have "finite (UNIV :: ReprKind set)" by (simp add: UNIV_ReprKind)
  then show ?thesis by (rule finite_subset [OF subset_UNIV])
qed

datatype Operation =
    OpBooleanUnion | OpBooleanDifference | OpBooleanIntersection | OpPrimitiveBox | OpPrimitiveCylinder
  | OpPrimitiveSphere | OpPrimitiveTube | OpPrimitiveCone | OpPrimitiveWedge | OpPrimitiveTorus
  | OpPrimitiveHalfSpace | OpModifyFillet | OpModifyChamfer | OpModifyShell | OpModifyDraft
  | OpModifyThicken | OpModifyZoneSlab | OpModifyOffsetSolid | OpModifyOffsetSurface
  | OpModifyOffsetCurve | OpTransformTranslate | OpTransformRotate | OpTransformScale
  | OpTransformRotateAround | OpTransformApplyTransform | OpTransformAffineApply | OpPatternLinear
  | OpPatternCircular | OpPatternMirror | OpPatternLinear2D | OpPatternArbitrary | OpSweepLoft
  | OpSweepExtrude | OpSweepRevolve | OpSweepSweep | OpSweepExtrudeSymmetric | OpSweepExtrudeInfinite
  | OpSweepSweepGuided | OpSweepLoftGuided | OpSweepPipe | OpCurveLineSegment | OpCurveArc
  | OpCurveHelix | OpCurveInterpCurve | OpCurveBezierCurve | OpCurveNurbsCurve | OpProfileRectangle
  | OpProfileCircle | OpProfilePolygon | OpProfileEllipse | OpSurfaceNurbs | OpSurface
  | Convert (convert_from: ReprKind)

record CapabilityDescriptor =
  supports_table :: "(Operation \<times> ReprKind) list"

definition supports :: "CapabilityDescriptor \<Rightarrow> Operation \<Rightarrow> ReprKind \<Rightarrow> bool" where
  "supports d op repr \<longleftrightarrow> (op, repr) \<in> set (supports_table d)"

definition supports_any_repr :: "CapabilityDescriptor \<Rightarrow> ReprKind \<Rightarrow> bool" where
  "supports_any_repr d repr \<longleftrightarrow> repr \<in> snd ` set (supports_table d)"

type_synonym registry = "(string \<times> CapabilityDescriptor) list"

section \<open>The search\<close>

type_synonym ConversionChain = "(KernelId \<times> ReprKind \<times> ReprKind) list"

record DispatchPlan =
  plan_kernel :: string
  plan_conversions :: ConversionChain

definition kernel_pragma_satisfiable :: "registry \<Rightarrow> string \<Rightarrow> Operation \<Rightarrow> ReprKind \<Rightarrow> bool" where
  "kernel_pragma_satisfiable registry pragma_kernel op demanded =
     (case map_of registry pragma_kernel of None \<Rightarrow> False | Some d \<Rightarrow> supports d op demanded)"

text \<open>The kernel for the operation: the preferred one if it can serve, else the first that can.\<close>

definition serving_kernel :: "registry \<Rightarrow> Operation \<Rightarrow> ReprKind \<Rightarrow> string option \<Rightarrow> string option" where
  "serving_kernel registry op demanded prefer_kernel =
     (let first = map_option fst (find (\<lambda>(_, d). supports d op demanded) registry) in
      case prefer_kernel of
        Some name \<Rightarrow> if kernel_pragma_satisfiable registry name op demanded then Some name else first
      | None \<Rightarrow> first)"

type_synonym bfs_state = "ReprKind hash_set \<times> (ReprKind \<times> ConversionChain) list"

definition try_convert ::
  "ReprKind \<Rightarrow> ConversionChain \<Rightarrow> string \<Rightarrow> Operation \<times> ReprKind \<Rightarrow> bfs_state \<Rightarrow> bfs_state option" where
  "try_convert current chain kernel_name decl s =
     (case decl of
        (Convert from, to) \<Rightarrow>
          if from = current \<and> to \<notin> set (fst s)
          then (case from_registry_name kernel_name of
                  None \<Rightarrow> None
                | Some k \<Rightarrow> Some (hs_insert to (fst s), snd s @ [(to, chain @ [(k, current, to)])]))
          else Some s
      | _ \<Rightarrow> Some s)"

fun expand_kernel ::
  "ReprKind \<Rightarrow> ConversionChain \<Rightarrow> string \<Rightarrow> (Operation \<times> ReprKind) list \<Rightarrow> bfs_state \<Rightarrow> bfs_state option" where
  "expand_kernel current chain kernel_name [] s = Some s"
| "expand_kernel current chain kernel_name (decl # decls) s =
     Option.bind (try_convert current chain kernel_name decl s) (expand_kernel current chain kernel_name decls)"

fun expand :: "ReprKind \<Rightarrow> ConversionChain \<Rightarrow> registry \<Rightarrow> bfs_state \<Rightarrow> bfs_state option" where
  "expand current chain [] s = Some s"
| "expand current chain ((name, d) # registry) s =
     Option.bind (expand_kernel current chain name (supports_table d) s) (expand current chain registry)"

lemma try_convert_measure:
  "try_convert c ch n decl s = Some s' \<Longrightarrow>
   potential UNIV (fst s') (length (snd s')) \<le> potential UNIV (fst s) (length (snd s))"
  by (auto simp: try_convert_def intro!: potential_mark_le split: prod.splits Operation.splits if_splits option.splits)

lemma expand_kernel_measure:
  "expand_kernel c ch n ds s = Some s' \<Longrightarrow>
   potential UNIV (fst s') (length (snd s')) \<le> potential UNIV (fst s) (length (snd s))"
proof (induction ds arbitrary: s)
  case (Cons decl ds)
  then obtain t where "try_convert c ch n decl s = Some t" "expand_kernel c ch n ds t = Some s'"
    by (auto simp: Option.bind_eq_Some_conv)
  with Cons.IH try_convert_measure show ?case by (meson order_trans)
qed simp

lemma expand_measure:
  "expand c ch reg s = Some s' \<Longrightarrow>
   potential UNIV (fst s') (length (snd s')) \<le> potential UNIV (fst s) (length (snd s))"
proof (induction c ch reg s rule: expand.induct)
  case (2 c ch name d reg s)
  then obtain t where "expand_kernel c ch name (supports_table d) s = Some t" "expand c ch reg t = Some s'"
    by (auto simp: Option.bind_eq_Some_conv)
  with 2(1) expand_kernel_measure show ?case by (meson order_trans)
qed simp

function dispatch_loop ::
  "registry \<Rightarrow> Operation \<Rightarrow> ReprKind \<Rightarrow> string option \<Rightarrow> ReprKind hash_set \<Rightarrow>
   (ReprKind \<times> ConversionChain) list \<Rightarrow> DispatchPlan option option" where
  "dispatch_loop registry op demanded prefer_kernel visited [] = Some None"
| "dispatch_loop registry op demanded prefer_kernel visited ((current, chain) # frontier) =
     (case (if current = demanded then serving_kernel registry op demanded prefer_kernel else None) of
        Some name \<Rightarrow> Some (Some \<lparr>plan_kernel = name, plan_conversions = chain\<rparr>)
      | None \<Rightarrow>
          (case expand current chain registry (visited, frontier) of
             None \<Rightarrow> None
           | Some s \<Rightarrow> dispatch_loop registry op demanded prefer_kernel (fst s) (snd s)))"
  by pat_completeness auto
termination
  by (relation "measure (\<lambda>(_, _, _, _, visited, frontier). potential UNIV visited (length frontier))")
    (auto dest!: expand_measure simp: potential_def)

text \<open>Seeds are taken in the order of a \<open>BTreeSet\<close>.\<close>

definition dispatch ::
  "registry \<Rightarrow> Operation \<Rightarrow> ReprKind \<Rightarrow> ReprKind hash_set \<Rightarrow> string option \<Rightarrow> DispatchPlan option option" where
  "dispatch registry op demanded available prefer_kernel =
     (let seeds = sort (remdups available) in
      dispatch_loop registry op demanded prefer_kernel seeds (map (\<lambda>r. (r, [])) seeds))"

section \<open>Around the search\<close>

text \<open>A \<open>Duration\<close> is its number of nanoseconds.\<close>

definition LONG_CHAIN_MIN_STAGES :: nat where
  "LONG_CHAIN_MIN_STAGES = 2"

definition LONG_CHAIN_DEFAULT_THRESHOLD_MS :: nat where
  "LONG_CHAIN_DEFAULT_THRESHOLD_MS = 500"

definition is_long_chain_realization :: "DispatchPlan \<Rightarrow> nat \<Rightarrow> nat \<Rightarrow> bool" where
  "is_long_chain_realization plan elapsed threshold \<longleftrightarrow>
     length (plan_conversions plan) > LONG_CHAIN_MIN_STAGES \<and> elapsed > threshold"

definition long_chain_threshold_from_env_value :: "string option \<Rightarrow> nat" where
  "long_chain_threshold_from_env_value value =
     (let parsed_ms = (case value of
          None \<Rightarrow> LONG_CHAIN_DEFAULT_THRESHOLD_MS
        | Some s \<Rightarrow>
            if s = [] then LONG_CHAIN_DEFAULT_THRESHOLD_MS
            else (case parse_unsigned 64 s of Some n \<Rightarrow> n | None \<Rightarrow> LONG_CHAIN_DEFAULT_THRESHOLD_MS))
      in parsed_ms * 1000000)"

datatype ConversionProjection = Tessellate | Voxelize | MarchingCubes

fun v03_conversion_projection :: "ReprKind \<Rightarrow> ReprKind \<Rightarrow> ConversionProjection option" where
  "v03_conversion_projection BRep Mesh = Some Tessellate"
| "v03_conversion_projection Mesh Voxel = Some Voxelize"
| "v03_conversion_projection Voxel Mesh = Some MarchingCubes"
| "v03_conversion_projection _ _ = None"

section \<open>Chains\<close>

definition converts :: "registry \<Rightarrow> KernelId \<Rightarrow> ReprKind \<Rightarrow> ReprKind \<Rightarrow> bool" where
  "converts reg k from to \<longleftrightarrow>
     (\<exists>name d. (name, d) \<in> set reg \<and> from_registry_name name = Some k \<and> (Convert from, to) \<in> set (supports_table d))"

text \<open>A chain that leads from one representation to another by declared conversions.\<close>

fun is_chain :: "registry \<Rightarrow> ReprKind \<Rightarrow> ConversionChain \<Rightarrow> ReprKind \<Rightarrow> bool" where
  "is_chain reg r [] s \<longleftrightarrow> r = s"
| "is_chain reg r ((k, from, to) # ch) s \<longleftrightarrow> from = r \<and> converts reg k from to \<and> is_chain reg to ch s"

definition conv_rel :: "registry \<Rightarrow> (ReprKind \<times> ReprKind) set" where
  "conv_rel reg = {(from, to). \<exists>name d. (name, d) \<in> set reg \<and> (Convert from, to) \<in> set (supports_table d)}"

text \<open>What a set of representations reaches in at most \<open>n\<close> conversions.\<close>

definition within :: "registry \<Rightarrow> ReprKind set \<Rightarrow> nat \<Rightarrow> ReprKind set" where
  "within reg A n = {r. \<exists>m \<le> n. \<exists>s \<in> A. (s, r) \<in> conv_rel reg ^^ m}"

lemma is_chain_snoc: "is_chain reg r (ch @ [(k, from, to)]) s \<longleftrightarrow> is_chain reg r ch from \<and> converts reg k from to \<and> to = s"
  by (induction ch arbitrary: r) auto

lemma is_chain_power: "is_chain reg r ch s \<Longrightarrow> (r, s) \<in> conv_rel reg ^^ length ch"
proof (induction ch arbitrary: r)
  case (Cons c ch)
  then obtain k t where "c = (k, r, t)" "converts reg k r t" "is_chain reg t ch s" by (cases c) auto
  moreover from this(2) have "(r, t) \<in> conv_rel reg" by (auto simp: converts_def conv_rel_def)
  ultimately show ?case using Cons.IH [of t] by (simp add: relpow_Suc_I2 del: relpow.simps)
qed simp

lemma within_0 [simp]: "within reg A 0 = A"
  by (auto simp: within_def)

lemma within_Suc: "within reg A (Suc n) = within reg A n \<union> conv_rel reg `` within reg A n"
proof (intro equalityI subsetI)
  fix r assume "r \<in> within reg A (Suc n)"
  then obtain m s where m: "m \<le> Suc n" "s \<in> A" "(s, r) \<in> conv_rel reg ^^ m" by (auto simp: within_def)
  show "r \<in> within reg A n \<union> conv_rel reg `` within reg A n"
  proof (cases m)
    case (Suc k)
    with m obtain t where t: "(s, t) \<in> conv_rel reg ^^ k" "(t, r) \<in> conv_rel reg" by auto
    have "t \<in> within reg A n" using t(1) m Suc by (auto simp: within_def)
    with t(2) show ?thesis by blast
  qed (use m in \<open>auto simp: within_def\<close>)
next
  fix r assume "r \<in> within reg A n \<union> conv_rel reg `` within reg A n"
  then show "r \<in> within reg A (Suc n)"
    by (auto simp: within_def le_Suc_eq) (metis Suc_le_mono relpow_Suc_I le_Suc_eq)
qed

lemma within_mono: "m \<le> n \<Longrightarrow> within reg A m \<subseteq> within reg A n"
  by (auto simp: within_def intro: le_trans)

section \<open>One expansion\<close>

definition names_ok :: "registry \<Rightarrow> bool" where
  "names_ok reg \<longleftrightarrow> list_all (\<lambda>(n, _). from_registry_name n \<noteq> None) reg"

text \<open>
  Expanding a node appends the new representations it converts to, with chains
  one longer, and marks them.
\<close>

definition grown :: "registry \<Rightarrow> ReprKind \<Rightarrow> ConversionChain \<Rightarrow> bfs_state \<Rightarrow> bfs_state \<Rightarrow> ReprKind set \<Rightarrow> bool" where
  "grown reg current chain s s' T \<longleftrightarrow>
     (\<exists>new. snd s' = snd s @ new \<and> distinct (map fst new) \<and> set (fst s') = set (fst s) \<union> fst ` set new
       \<and> fst ` set new \<inter> set (fst s) = {} \<and> T \<subseteq> set (fst s')
       \<and> (\<forall>(to, ch) \<in> set new. \<exists>k. ch = chain @ [(k, current, to)] \<and> converts reg k current to))"

lemma grown_refl: "T \<subseteq> set (fst s) \<Longrightarrow> grown reg c ch s s T"
  by (auto simp: grown_def)

lemma grown_trans:
  assumes "grown reg c ch s s' T" "grown reg c ch s' s'' U"
  shows "grown reg c ch s s'' (T \<union> U)"
proof -
  obtain n1 where 1: "snd s' = snd s @ n1" "set (fst s') = set (fst s) \<union> fst ` set n1" "fst ` set n1 \<inter> set (fst s) = {}"
    "distinct (map fst n1)" "T \<subseteq> set (fst s')" "\<forall>(to, c') \<in> set n1. \<exists>k. c' = ch @ [(k, c, to)] \<and> converts reg k c to"
    using assms(1) by (auto simp: grown_def)
  obtain n2 where 2: "snd s'' = snd s' @ n2" "set (fst s'') = set (fst s') \<union> fst ` set n2" "fst ` set n2 \<inter> set (fst s') = {}"
    "distinct (map fst n2)" "U \<subseteq> set (fst s'')" "\<forall>(to, c') \<in> set n2. \<exists>k. c' = ch @ [(k, c, to)] \<and> converts reg k c to"
    using assms(2) by (auto simp: grown_def)
  have "snd s'' = snd s @ (n1 @ n2)" using 1(1) 2(1) by simp
  moreover have "set (fst s'') = set (fst s) \<union> fst ` set (n1 @ n2)" using 1(2) 2(2) by auto
  moreover have "fst ` set (n1 @ n2) \<inter> set (fst s) = {}" using 1(2,3) 2(3) by auto
  moreover have "T \<union> U \<subseteq> set (fst s'')" using 1(5) 2(2,5) by auto
  moreover have "distinct (map fst (n1 @ n2))" using 1(2,4) 2(3,4) by auto
  moreover have "\<forall>(to, c') \<in> set (n1 @ n2). \<exists>k. c' = ch @ [(k, c, to)] \<and> converts reg k c to"
    using 1(6) 2(6) by (simp add: ball_Un)
  ultimately show ?thesis unfolding grown_def by blast
qed

definition targets :: "ReprKind \<Rightarrow> (Operation \<times> ReprKind) list \<Rightarrow> ReprKind set" where
  "targets c ds = {to. (Convert c, to) \<in> set ds}"

lemma try_convert_grown:
  assumes "(name, d) \<in> set reg" "from_registry_name name \<noteq> None" "decl \<in> set (supports_table d)"
  shows "\<exists>s'. try_convert c ch name decl s = Some s' \<and> grown reg c ch s s' (targets c [decl])"
proof (cases "fst decl = Convert c \<and> snd decl \<notin> set (fst s)")
  case True
  obtain k where k: "from_registry_name name = Some k" using assms(2) by auto
  let ?to = "snd decl"
  let ?s = "(hs_insert ?to (fst s), snd s @ [(?to, ch @ [(k, c, ?to)])])"
  have "converts reg k c ?to" using assms k True by (cases decl) (auto simp: converts_def)
  then have "grown reg c ch s ?s (targets c [decl])"
    using True unfolding grown_def by (intro exI [of _ "[(?to, ch @ [(k, c, ?to)])]"]) (auto simp: targets_def)
  then show ?thesis using True k by (cases decl) (auto simp: try_convert_def)
next
  case False
  then have "try_convert c ch name decl s = Some s"
    by (cases decl) (auto simp: try_convert_def split: Operation.splits)
  moreover have "targets c [decl] \<subseteq> set (fst s)" using False by (cases decl) (auto simp: targets_def)
  ultimately show ?thesis by (simp add: grown_refl)
qed

lemma expand_kernel_grown:
  assumes "(name, d) \<in> set reg" "from_registry_name name \<noteq> None" "set ds \<subseteq> set (supports_table d)"
  shows "\<exists>s'. expand_kernel c ch name ds s = Some s' \<and> grown reg c ch s s' (targets c ds)"
  using assms(3)
proof (induction ds arbitrary: s)
  case Nil
  then show ?case by (simp add: grown_refl targets_def)
next
  case (Cons decl ds)
  from try_convert_grown [OF assms(1,2), of decl c ch s] Cons.prems obtain s1 where
    1: "try_convert c ch name decl s = Some s1" "grown reg c ch s s1 (targets c [decl])" by auto
  from Cons.IH [of s1] Cons.prems obtain s2 where
    2: "expand_kernel c ch name ds s1 = Some s2" "grown reg c ch s1 s2 (targets c ds)" by auto
  have "targets c (decl # ds) = targets c [decl] \<union> targets c ds" by (auto simp: targets_def)
  then show ?case using 1 2 grown_trans [OF 1(2) 2(2)] by simp
qed

lemma expand_grown:
  assumes "names_ok reg" "set rs \<subseteq> set reg"
  shows "\<exists>s'. expand c ch rs s = Some s' \<and> grown reg c ch s s' (conv_rel rs `` {c})"
  using assms(2)
proof (induction rs arbitrary: s)
  case Nil
  then show ?case by (simp add: grown_refl conv_rel_def)
next
  case (Cons e rs)
  obtain name d where e: "e = (name, d)" by (cases e)
  have nd: "(name, d) \<in> set reg" "from_registry_name name \<noteq> None"
    using assms(1) Cons.prems e by (auto simp: names_ok_def list_all_iff)
  from expand_kernel_grown [OF nd subset_refl, of c ch s] obtain s1 where
    1: "expand_kernel c ch name (supports_table d) s = Some s1" "grown reg c ch s s1 (targets c (supports_table d))" by auto
  from Cons.IH [of s1] Cons.prems obtain s2 where
    2: "expand c ch rs s1 = Some s2" "grown reg c ch s1 s2 (conv_rel rs `` {c})" by auto
  have "conv_rel (e # rs) `` {c} = targets c (supports_table d) \<union> conv_rel rs `` {c}"
    by (auto simp: targets_def conv_rel_def e)
  then show ?case using 1 2 grown_trans [OF 1(2) 2(2)] e by simp
qed

section \<open>The search is breadth first\<close>

text \<open>
  \<open>n\<close> is the length of the chain at the head of the queue.  Entries carry
  shortest chains of length \<open>n\<close>, then \<open>n + 1\<close>; everything within \<open>n\<close> conversions
  is marked, and a marked representation outside the queue has its conversions
  marked.
\<close>

definition bfs_inv :: "registry \<Rightarrow> ReprKind set \<Rightarrow> nat \<Rightarrow> ReprKind set \<Rightarrow> (ReprKind \<times> ConversionChain) list \<Rightarrow> bool" where
  "bfs_inv reg A n V Q \<longleftrightarrow>
     (\<forall>(r, ch) \<in> set Q. r \<in> V \<and> (\<exists>s \<in> A. is_chain reg s ch r)
        \<and> (length ch = n \<or> length ch = Suc n \<and> r \<notin> within reg A n)
        \<and> (n = 0 \<or> r \<notin> within reg A (n - 1)))
     \<and> sorted (map (length \<circ> snd) Q) \<and> distinct (map fst Q)
     \<and> within reg A n \<subseteq> V \<and> V \<subseteq> within reg A (Suc n)
     \<and> (\<forall>x \<in> V - fst ` set Q. conv_rel reg `` {x} \<subseteq> V \<and> x \<in> within reg A n)"

lemma bfs_init:
  assumes "distinct seeds"
  shows "bfs_inv reg (set seeds) 0 (set seeds) (map (\<lambda>r. (r, [])) seeds)"
proof -
  have "fst ` set (map (\<lambda>r. (r, [])) seeds) = set seeds" by force
  then show ?thesis using assms unfolding bfs_inv_def
    by (auto simp: within_Suc comp_def sorted_iff_nth_mono)
qed

lemma bfs_entry:
  assumes "bfs_inv reg A n V Q" "(r, ch) \<in> set Q"
  shows "r \<in> V" "\<exists>s \<in> A. is_chain reg s ch r" "length ch = n \<or> length ch = Suc n \<and> r \<notin> within reg A n"
    "n = 0 \<or> r \<notin> within reg A (n - 1)"
proof -
  have "\<forall>p \<in> set Q. case p of (r, ch) \<Rightarrow> r \<in> V \<and> (\<exists>s \<in> A. is_chain reg s ch r)
        \<and> (length ch = n \<or> length ch = Suc n \<and> r \<notin> within reg A n)
        \<and> (n = 0 \<or> r \<notin> within reg A (n - 1))"
    using assms(1) unfolding bfs_inv_def by (elim conjE)
  from bspec [OF this assms(2)]
  show "r \<in> V" "\<exists>s \<in> A. is_chain reg s ch r" "length ch = n \<or> length ch = Suc n \<and> r \<notin> within reg A n"
    "n = 0 \<or> r \<notin> within reg A (n - 1)" by simp_all
qed

lemma bfs_queue:
  assumes "bfs_inv reg A n V Q"
  shows "sorted (map (length \<circ> snd) Q)" "distinct (map fst Q)" "within reg A n \<subseteq> V" "V \<subseteq> within reg A (Suc n)"
    and bfs_closed: "\<And>x. x \<in> V \<Longrightarrow> x \<notin> fst ` set Q \<Longrightarrow> conv_rel reg `` {x} \<subseteq> V \<and> x \<in> within reg A n"
  using assms unfolding bfs_inv_def by (elim conjE; simp)+

text \<open>When only longer chains are left the level rises.\<close>

lemma bfs_level:
  assumes i: "bfs_inv reg A n V ((r, ch) # Q)" and l: "length ch \<noteq> n"
  shows "bfs_inv reg A (Suc n) V ((r, ch) # Q)"
proof -
  let ?Q = "(r, ch) # Q"
  have "length ch = Suc n" using bfs_entry(3) [OF i, of r ch] l by simp
  then have lens: "length c = Suc n \<and> x \<notin> within reg A n" if "(x, c) \<in> set ?Q" for x c
    using bfs_entry(3) [OF i that] bfs_queue(1) [OF i] that by auto
  have "within reg A (Suc n) \<subseteq> V"
  proof
    fix x assume "x \<in> within reg A (Suc n)"
    then consider "x \<in> within reg A n" | y where "y \<in> within reg A n" "(y, x) \<in> conv_rel reg"
      by (auto simp: within_Suc)
    then show "x \<in> V"
    proof cases
      case 1
      then show ?thesis using bfs_queue(3) [OF i] by blast
    next
      case 2
      have "y \<in> V" using 2(1) bfs_queue(3) [OF i] by blast
      moreover have "y \<notin> fst ` set ?Q" using 2(1) lens by (metis imageE prod.collapse)
      ultimately show ?thesis using bfs_closed [OF i, of y] 2(2) by blast
    qed
  qed
  moreover have "V \<subseteq> within reg A (Suc (Suc n))"
    using bfs_queue(4) [OF i] within_mono [of "Suc n" "Suc (Suc n)" reg A] by auto
  moreover have "\<forall>p \<in> set ?Q. case p of (x, c) \<Rightarrow> x \<in> V \<and> (\<exists>s \<in> A. is_chain reg s c x)
      \<and> (length c = Suc n \<or> length c = Suc (Suc n) \<and> x \<notin> within reg A (Suc n))
      \<and> (Suc n = 0 \<or> x \<notin> within reg A (Suc n - 1))"
  proof (intro ballI, unfold split_paired_all prod.case)
    fix x c assume xc: "(x, c) \<in> set ?Q"
    show "x \<in> V \<and> (\<exists>s \<in> A. is_chain reg s c x)
      \<and> (length c = Suc n \<or> length c = Suc (Suc n) \<and> x \<notin> within reg A (Suc n))
      \<and> (Suc n = 0 \<or> x \<notin> within reg A (Suc n - 1))"
      using bfs_entry(1,2) [OF i xc] lens [OF xc] by simp
  qed
  moreover have "\<forall>x \<in> V - fst ` set ?Q. conv_rel reg `` {x} \<subseteq> V \<and> x \<in> within reg A (Suc n)"
    using bfs_closed [OF i] within_mono [of n "Suc n" reg A] by (metis DiffE le_add2 plus_1_eq_Suc subsetD)
  ultimately show ?thesis using bfs_queue(1,2) [OF i] unfolding bfs_inv_def by (intro conjI)
qed

lemma bfs_expand:
  assumes i: "bfs_inv reg A n V ((r, ch) # Q)" and l: "length ch = n"
    and g: "grown reg r ch (vs, Q) s' (conv_rel reg `` {r})" and V: "V = set vs"
  shows "bfs_inv reg A n (set (fst s')) (snd s')"
proof -
  obtain new where new: "snd s' = Q @ new" "set (fst s') = V \<union> fst ` set new" "fst ` set new \<inter> V = {}"
    "conv_rel reg `` {r} \<subseteq> set (fst s')" "\<forall>(to, c) \<in> set new. \<exists>k. c = ch @ [(k, r, to)] \<and> converts reg k r to"
    "distinct (map fst new)"
    using g V by (auto simp: grown_def)
  note hd = bfs_entry [OF i, of r ch, simplified]
  obtain s where s: "s \<in> A" "is_chain reg s ch r" using hd(2) by blast
  have rn: "r \<in> within reg A n"
    using is_chain_power [OF s(2)] s(1) l unfolding within_def by blast
  have ent: "to \<notin> within reg A n \<and> (\<exists>s \<in> A. is_chain reg s c to) \<and> length c = Suc n \<and> (r, to) \<in> conv_rel reg"
    if tc: "(to, c) \<in> set new" for to c
  proof -
    obtain k where k: "c = ch @ [(k, r, to)]" "converts reg k r to" using bspec [OF new(5) tc] by auto
    have "to \<notin> within reg A n" using bfs_queue(3) [OF i] new(3) tc by force
    moreover have "is_chain reg s c to" using k s by (simp add: is_chain_snoc)
    moreover have "(r, to) \<in> conv_rel reg" using k(2) by (auto simp: converts_def conv_rel_def)
    ultimately show ?thesis using k(1) s(1) l by auto
  qed
  have old: "(x, c) \<in> set ((r, ch) # Q)" if "(x, c) \<in> set Q" for x c using that by simp
  have 1: "\<forall>p \<in> set (Q @ new). case p of (x, c) \<Rightarrow> x \<in> V \<union> fst ` set new \<and> (\<exists>s \<in> A. is_chain reg s c x)
        \<and> (length c = n \<or> length c = Suc n \<and> x \<notin> within reg A n) \<and> (n = 0 \<or> x \<notin> within reg A (n - 1))"
  proof (intro ballI, unfold split_paired_all prod.case)
    fix x c assume "(x, c) \<in> set (Q @ new)"
    then consider "(x, c) \<in> set Q" | "(x, c) \<in> set new" by auto
    then show "x \<in> V \<union> fst ` set new \<and> (\<exists>s \<in> A. is_chain reg s c x)
        \<and> (length c = n \<or> length c = Suc n \<and> x \<notin> within reg A n) \<and> (n = 0 \<or> x \<notin> within reg A (n - 1))"
    proof cases
      case 1
      then show ?thesis using bfs_entry [OF i old [OF 1]] by simp
    next
      case 2
      then have "x \<in> fst ` set new" by force
      then show ?thesis using ent [OF 2] within_mono [of "n - 1" n reg A] by auto
    qed
  qed
  have q: "length c \<le> Suc n" if "(x, c) \<in> set Q" for x c using bfs_entry(3) [OF i old [OF that]] by auto
  have "sorted (map (length \<circ> snd) Q)" using bfs_queue(1) [OF i] by simp
  moreover have len: "map (length \<circ> snd) new = map (\<lambda>_. Suc n) new" using ent by (intro map_cong) auto
  moreover have "\<forall>x \<in> set (map (length \<circ> snd) Q). x \<le> Suc n" using q by auto
  ultimately have 2: "sorted (map (length \<circ> snd) (Q @ new))"
    unfolding map_append len map_replicate_const sorted_append by auto
  have "fst ` set Q \<subseteq> V" using bfs_entry(1) [OF i old] by fastforce
  moreover have "distinct (map fst Q)" using bfs_queue(2) [OF i] by simp
  ultimately have 3: "distinct (map fst (Q @ new))" using new(3,6) by auto
  have 4: "within reg A n \<subseteq> V \<union> fst ` set new" using bfs_queue(3) [OF i] by blast
  have "fst ` set new \<subseteq> conv_rel reg `` within reg A n" using ent rn by fastforce
  then have 5: "V \<union> fst ` set new \<subseteq> within reg A (Suc n)"
    using bfs_queue(4) [OF i] unfolding within_Suc by blast
  have 6: "\<forall>x \<in> (V \<union> fst ` set new) - fst ` set (Q @ new).
      conv_rel reg `` {x} \<subseteq> V \<union> fst ` set new \<and> x \<in> within reg A n"
  proof
    fix x assume "x \<in> (V \<union> fst ` set new) - fst ` set (Q @ new)"
    then have x: "x \<in> V" "x \<notin> fst ` set Q" by auto
    show "conv_rel reg `` {x} \<subseteq> V \<union> fst ` set new \<and> x \<in> within reg A n"
    proof (cases "x = r")
      case True
      then show ?thesis using rn new(2,4) by simp
    next
      case False
      then show ?thesis using bfs_closed [OF i x(1)] x(2) by auto
    qed
  qed
  show ?thesis unfolding bfs_inv_def new(1) new(2) using 1 2 3 4 5 6 by (intro conjI)
qed

lemma bfs_done:
  assumes "bfs_inv reg A n V []"
  shows "(conv_rel reg)\<^sup>* `` A \<subseteq> V"
proof -
  have "A \<subseteq> V" using bfs_queue(3) [OF assms] within_mono [of 0 n reg A] by simp
  moreover have "conv_rel reg `` V \<subseteq> V" using bfs_closed [OF assms] by fastforce
  ultimately show ?thesis by (metis Image_closed_trancl Image_mono order_refl)
qed

definition shortest_chain :: "registry \<Rightarrow> ReprKind set \<Rightarrow> ConversionChain \<Rightarrow> ReprKind \<Rightarrow> bool" where
  "shortest_chain reg A ch r \<longleftrightarrow>
     (\<exists>s \<in> A. is_chain reg s ch r) \<and> (\<forall>ch'. \<forall>s \<in> A. is_chain reg s ch' r \<longrightarrow> length ch \<le> length ch')"

lemma bfs_shortest:
  assumes i: "bfs_inv reg A n V Q" and q: "(r, ch) \<in> set Q" and l: "length ch = n"
  shows "shortest_chain reg A ch r"
proof -
  have "length ch \<le> length ch'" if "s \<in> A" "is_chain reg s ch' r" for s ch'
  proof (rule ccontr)
    assume "\<not> ?thesis"
    then have "length ch' \<le> n - 1" "n \<noteq> 0" using l by auto
    then have "r \<in> within reg A (n - 1)" "n \<noteq> 0"
      using that is_chain_power [OF that(2)] unfolding within_def by blast+
    then show False using bfs_entry(4) [OF i q] by simp
  qed
  then show ?thesis using bfs_entry(2) [OF i q] by (auto simp: shortest_chain_def)
qed

lemma dispatch_loop_search:
  assumes "names_ok reg" "serving_kernel reg opn dem prefer_kernel = Some k"
    "bfs_inv reg A n (set vs) Q" "dem \<in> set vs \<Longrightarrow> dem \<in> fst ` set Q"
  shows "if dem \<in> (conv_rel reg)\<^sup>* `` A
         then \<exists>ch. dispatch_loop reg opn dem prefer_kernel vs Q = Some (Some \<lparr>plan_kernel = k, plan_conversions = ch\<rparr>)
                 \<and> shortest_chain reg A ch dem
         else dispatch_loop reg opn dem prefer_kernel vs Q = Some None"
  using assms
proof (induction reg opn dem prefer_kernel vs Q arbitrary: n rule: dispatch_loop.induct)
  case (1 reg opn dem prefer_kernel vs)
  then have "dem \<notin> (conv_rel reg)\<^sup>* `` A" using bfs_done [OF 1(3)] by auto
  then show ?case by simp
next
  case (2 reg opn dem prefer_kernel vs r ch Q)
  obtain m where i: "bfs_inv reg A m (set vs) ((r, ch) # Q)" and m: "length ch = m"
    using 2(4) bfs_level [OF 2(4)] bfs_entry(3) [OF 2(4), of r ch] by (cases "length ch = n") auto
  show ?case
  proof (cases "r = dem")
    case True
    then have s: "shortest_chain reg A ch dem" using bfs_shortest [OF i _ m] by simp
    then have "dem \<in> (conv_rel reg)\<^sup>* `` A"
      using is_chain_power relpow_imp_rtrancl by (fastforce simp: shortest_chain_def)
    then show ?thesis using s True 2(3) by simp
  next
    case False
    obtain s' where s': "expand r ch reg (vs, Q) = Some s'" "grown reg r ch (vs, Q) s' (conv_rel reg `` {r})"
      using expand_grown [OF 2(2) subset_refl] by blast
    have "bfs_inv reg A m (set (fst s')) (snd s')" by (rule bfs_expand [OF i m s'(2) refl])
    moreover have "dem \<in> fst ` set (snd s')" if "dem \<in> set (fst s')"
      using that 2(5) False s'(2) by (auto simp: grown_def image_Un)
    ultimately show ?thesis using 2(1) [of s' m] 2(2,3) s'(1) False by simp
  qed
qed

lemma dispatch_loop_unserved:
  assumes "names_ok reg" "serving_kernel reg opn dem prefer_kernel = None"
  shows "dispatch_loop reg opn dem prefer_kernel vs Q = Some None"
  using assms
proof (induction reg opn dem prefer_kernel vs Q rule: dispatch_loop.induct)
  case (2 reg opn dem prefer_kernel vs r ch Q)
  obtain s' where "expand r ch reg (vs, Q) = Some s'" using expand_grown [OF 2(2) subset_refl] by blast
  with 2 show ?case by (cases "r = dem") simp_all
qed simp

text \<open>
  C15. Over a registry of canonical names, a plan is found exactly when some kernel
  serves the operation at the demanded representation and conversions lead there
  from an available one; the plan names the preferred or first serving kernel
  and its chain is valid and of least length.  The search never panics.
\<close>

theorem dispatch_shortest:
  assumes "names_ok registry"
  shows "case serving_kernel registry op demanded prefer_kernel of
      None \<Rightarrow> dispatch registry op demanded available prefer_kernel = Some None
    | Some k \<Rightarrow>
        if demanded \<in> (conv_rel registry)\<^sup>* `` set available
        then \<exists>ch. dispatch registry op demanded available prefer_kernel
                     = Some (Some \<lparr>plan_kernel = k, plan_conversions = ch\<rparr>)
                 \<and> shortest_chain registry (set available) ch demanded
        else dispatch registry op demanded available prefer_kernel = Some None"
proof (cases "serving_kernel registry op demanded prefer_kernel")
  case None
  then show ?thesis using dispatch_loop_unserved [OF assms] by (simp add: dispatch_def Let_def)
next
  case (Some k)
  let ?s = "sort (remdups available)"
  have "bfs_inv registry (set ?s) 0 (set ?s) (map (\<lambda>r. (r, [])) ?s)" by (rule bfs_init) simp
  from dispatch_loop_search [OF assms Some this] show ?thesis
    unfolding dispatch_def Let_def Some option.case set_sort set_remdups by (simp add: image_iff)
qed

text \<open>
  With OCCT tessellating and OpenVDB voxelising, a voxel union over boundary
  representations needs two conversions, whatever kernel the pragma asks for.
\<close>

definition example_registry :: registry where
  "example_registry =
     [(''occt'', \<lparr>supports_table = [(OpBooleanUnion, BRep), (Convert BRep, Mesh)]\<rparr>),
      (''openvdb'', \<lparr>supports_table = [(OpBooleanUnion, Voxel), (Convert Mesh, Voxel), (Convert Voxel, Mesh)]\<rparr>)]"

theorem dispatch_shortest_witness:
  "names_ok example_registry
   \<and> dispatch example_registry OpBooleanUnion Voxel [BRep] (Some ''occt'')
       = Some (Some \<lparr>plan_kernel = ''openvdb'', plan_conversions = [(Occt, BRep, Mesh), (OpenVdb, Mesh, Voxel)]\<rparr>)
   \<and> shortest_chain example_registry {BRep} [(Occt, BRep, Mesh), (OpenVdb, Mesh, Voxel)] Voxel"
proof -
  have n: "names_ok example_registry" by code_simp
  have k: "serving_kernel example_registry OpBooleanUnion Voxel (Some ''occt'') = Some ''openvdb''" by code_simp
  have d: "dispatch example_registry OpBooleanUnion Voxel [BRep] (Some ''occt'')
       = Some (Some \<lparr>plan_kernel = ''openvdb'', plan_conversions = [(Occt, BRep, Mesh), (OpenVdb, Mesh, Voxel)]\<rparr>)"
    by code_simp
  show ?thesis
    using dispatch_shortest [OF n, where op = OpBooleanUnion and demanded = Voxel and prefer_kernel = "Some ''occt''" and available = "[BRep]"] n d
    unfolding k option.case by (auto split: if_splits)
qed

end
