(* ===== verification/RealizationCache.thy ===== *)
theory RealizationCache
  imports Dispatch F64 Expr
begin

text \<open>
  The cache of realized geometry (\<open>reify-eval/src/realization_cache.rs\<close>) with its
  tolerance buckets (\<open>tolerance_bucket.rs\<close>).  The checked build is modelled: a
  failed debug assertion is \<open>None\<close>.  Cached values are a type parameter, and a
  \<open>get_mut\<close> fast path that only saves an allocation is its slow path.
\<close>

section \<open>Tolerance buckets\<close>

definition is_valid_tolerance_si :: "f64 \<Rightarrow> bool" where
  "is_valid_tolerance_si v \<longleftrightarrow> is_finite v \<and> f64_le f64_zero v"

definition SOFT_CAPACITY :: nat where
  "SOFT_CAPACITY = 5"

type_synonym 'v tolerance_bucket = "(f64 \<times> 'v) list"

fun ascending_entries :: "'v tolerance_bucket \<Rightarrow> bool" where
  "ascending_entries (a # b # es) \<longleftrightarrow> f64_le (fst a) (fst b) \<and> ascending_entries (b # es)"
| "ascending_entries _ \<longleftrightarrow> True"

definition bucket_insert :: "f64 \<Rightarrow> 'v \<Rightarrow> 'v tolerance_bucket \<Rightarrow> ('v tolerance_bucket \<times> bool) option" where
  "bucket_insert tol v entries =
     (if \<not> is_valid_tolerance_si tol then None
      else if list_ex (\<lambda>(cached_tol, _). f64_le cached_tol tol) entries then Some (entries, False)
      else (let entries1 = (tol, v) # entries in
        if \<not> ascending_entries entries1 then None
        else Some (if length entries1 > SOFT_CAPACITY then butlast entries1 else entries1, True)))"

definition bucket_lookup :: "f64 \<Rightarrow> 'v tolerance_bucket \<Rightarrow> 'v option option" where
  "bucket_lookup requested_tol entries =
     (if \<not> is_valid_tolerance_si requested_tol \<or> \<not> ascending_entries entries then None
      else Some (map_option snd (find (\<lambda>(t, _). f64_le t requested_tol) (rev entries))))"

fun remove_at_tol :: "f64 \<Rightarrow> 'v tolerance_bucket \<Rightarrow> ('v \<times> 'v tolerance_bucket) option" where
  "remove_at_tol tol [] = None"
| "remove_at_tol tol ((cached_tol, v) # es) =
     (if f64_eq cached_tol tol then Some (v, es)
      else map_option (\<lambda>(w, es'). (w, (cached_tol, v) # es')) (remove_at_tol tol es))"

definition bucket_remove :: "f64 \<Rightarrow> 'v tolerance_bucket \<Rightarrow> ('v option \<times> 'v tolerance_bucket) option" where
  "bucket_remove tol entries =
     (if \<not> is_valid_tolerance_si tol then None
      else (case remove_at_tol tol entries of
              None \<Rightarrow> Some (None, entries)
            | Some (v, es) \<Rightarrow> Some (Some v, es)))"

section \<open>The cache\<close>

definition NO_OPTIONS :: ContentHash where
  "NO_OPTIONS = 0"

datatype ConversionSlot = Step usize | External u64

type_synonym 'v by_options = "(ContentHash, 'v tolerance_bucket) hash_map"

record 'v RealizationCache =
  buckets :: "(ReprKind, (string, 'v by_options) hash_map) hash_map"
  terminal_entries :: usize
  intermediates_by_owner :: "(string, string hash_set) hash_map"

definition rc_new :: "'v RealizationCache" where
  "rc_new = \<lparr>buckets = [], terminal_entries = 0, intermediates_by_owner = []\<rparr>"

definition realization_entries :: "'v RealizationCache \<Rightarrow> usize" where
  "realization_entries st = terminal_entries st"

definition rc_clear :: "'v RealizationCache \<Rightarrow> 'v RealizationCache" where
  "rc_clear st = st\<lparr>buckets := [], intermediates_by_owner := []\<rparr>"

definition or_default :: "'a list option \<Rightarrow> 'a list" where
  "or_default m = (case m of None \<Rightarrow> [] | Some xs \<Rightarrow> xs)"

definition rc_insert ::
  "string \<Rightarrow> ReprKind \<Rightarrow> f64 \<Rightarrow> ContentHash \<Rightarrow> 'v \<Rightarrow> 'v RealizationCache \<Rightarrow> (bool \<times> 'v RealizationCache) option" where
  "rc_insert entity repr_kind tol options_hash v st =
     (let inner = or_default (hm_get (buckets st) repr_kind);
          by_options = or_default (hm_get inner entity);
          bucket = or_default (hm_get by_options options_hash) in
      case bucket_insert tol v bucket of
        None \<Rightarrow> None
      | Some (bucket', inserted) \<Rightarrow>
          Some (inserted, st\<lparr>buckets := hm_insert repr_kind
            (hm_insert entity (hm_insert options_hash bucket' by_options) inner) (buckets st)\<rparr>))"

definition insert_terminal ::
  "string \<Rightarrow> ReprKind \<Rightarrow> f64 \<Rightarrow> ContentHash \<Rightarrow> 'v \<Rightarrow> 'v RealizationCache \<Rightarrow> (bool \<times> 'v RealizationCache) option" where
  "insert_terminal entity repr_kind tol options_hash v st =
     (case rc_insert entity repr_kind tol options_hash v st of
        None \<Rightarrow> None
      | Some (inserted, st1) \<Rightarrow>
          Some (inserted, if inserted then st1\<lparr>terminal_entries := terminal_entries st1 + 1\<rparr> else st1))"

definition rc_lookup :: "string \<Rightarrow> ReprKind \<Rightarrow> f64 \<Rightarrow> ContentHash \<Rightarrow> 'v RealizationCache \<Rightarrow> 'v option option" where
  "rc_lookup entity repr_kind tol options_hash st =
     (case Option.bind (Option.bind (hm_get (buckets st) repr_kind) (\<lambda>inner. hm_get inner entity))
             (\<lambda>by_options. hm_get by_options options_hash) of
        None \<Rightarrow> Some None
      | Some b \<Rightarrow> bucket_lookup tol b)"

definition remove_exact ::
  "string \<Rightarrow> ReprKind \<Rightarrow> f64 \<Rightarrow> ContentHash \<Rightarrow> 'v RealizationCache \<Rightarrow> ('v option \<times> 'v RealizationCache) option" where
  "remove_exact key repr_kind tol options_hash st =
     (case hm_get (buckets st) repr_kind of
        None \<Rightarrow> Some (None, st)
      | Some inner \<Rightarrow>
          (case hm_get inner key of
             None \<Rightarrow> Some (None, st)
           | Some by_options \<Rightarrow>
               (case hm_get by_options options_hash of
                  None \<Rightarrow> Some (None, st)
                | Some b \<Rightarrow>
                    (case bucket_remove tol b of
                       None \<Rightarrow> None
                     | Some (removed, b') \<Rightarrow>
                         Some (removed, st\<lparr>buckets := hm_insert repr_kind
                           (hm_insert key (hm_insert options_hash b' by_options) inner) (buckets st)\<rparr>)))))"

definition holds_any_entry :: "'v RealizationCache \<Rightarrow> string \<Rightarrow> bool" where
  "holds_any_entry st key =
     list_ex (\<lambda>(_, inner). case hm_get inner key of
                None \<Rightarrow> False
              | Some by_options \<Rightarrow> list_ex (\<lambda>(_, b). b \<noteq> []) by_options) (buckets st)"

definition owned_keys_hold_entries :: "'v RealizationCache \<Rightarrow> bool" where
  "owned_keys_hold_entries st =
     list_all (\<lambda>(owner, keys). keys \<noteq> [] \<and> list_all (holds_any_entry st) keys) (intermediates_by_owner st)"

definition rc_remove ::
  "string \<Rightarrow> ReprKind \<Rightarrow> f64 \<Rightarrow> ContentHash \<Rightarrow> 'v RealizationCache \<Rightarrow> ('v option \<times> 'v RealizationCache) option" where
  "rc_remove entity repr_kind tol options_hash st =
     (case remove_exact entity repr_kind tol options_hash st of
        None \<Rightarrow> None
      | Some (removed, st1) \<Rightarrow> if owned_keys_hold_entries st1 then Some (removed, st1) else None)"

fun intermediate_key :: "string \<Rightarrow> ConversionSlot \<Rightarrow> string" where
  "intermediate_key owner (Step idx) = owner @ ''#conv-step'' @ show_nat idx"
| "intermediate_key owner (External handle) = owner @ ''#conv-ext'' @ show_nat (unat handle)"

definition insert_intermediate ::
  "string \<Rightarrow> ConversionSlot \<Rightarrow> ReprKind \<Rightarrow> f64 \<Rightarrow> ContentHash \<Rightarrow> 'v \<Rightarrow> 'v RealizationCache \<Rightarrow>
   (bool \<times> 'v RealizationCache) option" where
  "insert_intermediate owner slot repr_kind tol options_hash v st =
     (let key = intermediate_key owner slot in
      case rc_insert key repr_kind tol options_hash v st of
        None \<Rightarrow> None
      | Some (inserted, st1) \<Rightarrow>
          Some (inserted, st1\<lparr>intermediates_by_owner :=
            (case hm_get (intermediates_by_owner st1) owner of
               Some keys \<Rightarrow> hm_insert owner (hs_insert key keys) (intermediates_by_owner st1)
             | None \<Rightarrow> hm_insert owner [key] (intermediates_by_owner st1))\<rparr>))"

definition forget_key :: "string \<Rightarrow> string \<Rightarrow> (string, string hash_set) hash_map \<Rightarrow> (string, string hash_set) hash_map" where
  "forget_key owner key m =
     (case hm_get m owner of
        None \<Rightarrow> m
      | Some keys \<Rightarrow>
          (let keys1 = hs_remove key keys in
           if keys1 = [] then hm_remove owner m else hm_insert owner keys1 m))"

definition remove_intermediate ::
  "string \<Rightarrow> ConversionSlot \<Rightarrow> ReprKind \<Rightarrow> f64 \<Rightarrow> ContentHash \<Rightarrow> 'v RealizationCache \<Rightarrow>
   ('v option \<times> 'v RealizationCache) option" where
  "remove_intermediate owner slot repr_kind tol options_hash st =
     (let key = intermediate_key owner slot in
      case remove_exact key repr_kind tol options_hash st of
        None \<Rightarrow> None
      | Some (removed, st1) \<Rightarrow>
          (let st2 = (if \<not> holds_any_entry st1 key
                      then st1\<lparr>intermediates_by_owner := forget_key owner key (intermediates_by_owner st1)\<rparr>
                      else st1) in
           if owned_keys_hold_entries st2 then Some (removed, st2) else None))"

definition evict_family :: "string \<Rightarrow> 'v RealizationCache \<Rightarrow> 'v RealizationCache" where
  "evict_family entity st =
     (let owned = or_default (hm_get (intermediates_by_owner st) entity) in
      st\<lparr>intermediates_by_owner := hm_remove entity (intermediates_by_owner st),
         buckets := map (\<lambda>(r, by_entity). (r, fold hm_remove owned (hm_remove entity by_entity))) (buckets st)\<rparr>)"

definition bucket_len :: "string \<Rightarrow> ReprKind \<Rightarrow> ContentHash \<Rightarrow> 'v RealizationCache \<Rightarrow> nat" where
  "bucket_len entity repr_kind options_hash st =
     (case Option.bind (Option.bind (hm_get (buckets st) repr_kind) (\<lambda>inner. hm_get inner entity))
             (\<lambda>by_options. hm_get by_options options_hash) of
        None \<Rightarrow> 0
      | Some b \<Rightarrow> length b)"

definition rc_is_empty :: "'v RealizationCache \<Rightarrow> bool" where
  "rc_is_empty st =
     list_all (\<lambda>(_, inner). list_all (\<lambda>(_, by_options). list_all (\<lambda>(_, b). b = []) by_options) inner) (buckets st)"

definition rc_len :: "'v RealizationCache \<Rightarrow> nat" where
  "rc_len st =
     sum_list (map (\<lambda>(_, b). length b) (concat (map snd (concat (map snd (buckets st))))))"

lemma rc_is_empty_iff: "rc_is_empty st \<longleftrightarrow> rc_len st = 0"
  unfolding rc_is_empty_def rc_len_def list_all_iff by (auto simp: sum_list_eq_0_iff split_beta)

section \<open>What a bucket promises\<close>

definition bucket_ok :: "'v tolerance_bucket \<Rightarrow> bool" where
  "bucket_ok es \<longleftrightarrow> sorted_wrt (\<lambda>a b. f64_lt (fst a) (fst b)) es
     \<and> (\<forall>e \<in> set es. is_valid_tolerance_si (fst e)) \<and> length es \<le> SOFT_CAPACITY"

text \<open>Some entry is at least as tight as the request.\<close>

definition satisfies :: "'v tolerance_bucket \<Rightarrow> f64 \<Rightarrow> bool" where
  "satisfies es tol \<longleftrightarrow> (\<exists>e \<in> set es. f64_le (fst e) tol)"

text \<open>The value of the loosest entry that satisfies the request.\<close>

definition loosest :: "'v tolerance_bucket \<Rightarrow> f64 \<Rightarrow> 'v \<Rightarrow> bool" where
  "loosest es tol v \<longleftrightarrow> (\<exists>t. (t, v) \<in> set es \<and> f64_le t tol \<and> (\<forall>e \<in> set es. f64_le (fst e) tol \<longrightarrow> f64_le (fst e) t))"

lemma f64_lt_le: "f64_lt x y \<Longrightarrow> f64_le x y"
  by (simp add: f64_lt_def f64_le_def)

lemma f64_le_trans: "f64_le x y \<Longrightarrow> f64_le y z \<Longrightarrow> f64_le x z"
  by (simp add: f64_le_def)

lemma valid_not_nan: "is_valid_tolerance_si t \<Longrightarrow> \<not> is_nan t"
  by (simp add: is_valid_tolerance_si_def finite_not_nan)

lemma f64_not_le: "is_valid_tolerance_si x \<Longrightarrow> is_valid_tolerance_si y \<Longrightarrow> \<not> f64_le x y \<longleftrightarrow> f64_lt y x"
  by (auto simp: f64_le_def f64_lt_def dest!: valid_not_nan)

lemma f64_le_refl: "is_valid_tolerance_si x \<Longrightarrow> f64_le x x"
  by (auto simp: f64_le_def dest!: valid_not_nan)

lemma bucket_ok_Nil [simp]: "bucket_ok []"
  by (simp add: bucket_ok_def)

lemma ascending_sorted: "sorted_wrt (\<lambda>a b. f64_lt (fst a) (fst b)) es \<Longrightarrow> ascending_entries es"
  by (induction es rule: ascending_entries.induct) (auto intro: f64_lt_le)

lemma butlast_sorted_wrt: "sorted_wrt P xs \<Longrightarrow> sorted_wrt P (butlast xs)"
  by (metis append_butlast_last_id butlast.simps(1) sorted_wrt_append)

text \<open>
  Dropping the loosest of more than \<open>SOFT_CAPACITY\<close> entries leaves the tightest
  one, so it satisfies the same requests.
\<close>

lemma satisfies_front:
  "sorted_wrt (\<lambda>a b. f64_lt (fst a) (fst b)) ((t, v) # es) \<Longrightarrow> satisfies ((t, v) # es) req \<longleftrightarrow> f64_le t req"
  by (auto simp: satisfies_def intro: f64_le_trans [OF f64_lt_le])

lemma bucket_insert_spec:
  assumes ok: "bucket_ok es" and t: "is_valid_tolerance_si tol"
  shows "\<exists>es' inserted. bucket_insert tol v es = Some (es', inserted) \<and> bucket_ok es' \<and> es' \<noteq> []
    \<and> set es' \<subseteq> insert (tol, v) (set es) \<and> (inserted \<longrightarrow> (tol, v) \<in> set es')
    \<and> (\<not> inserted \<longrightarrow> es' = es \<and> satisfies es tol)
    \<and> (\<forall>req. satisfies es' req \<longleftrightarrow> satisfies es req \<or> f64_le tol req)"
proof (cases "satisfies es tol")
  case True
  then have "list_ex (\<lambda>(c, _). f64_le c tol) es" by (auto simp: satisfies_def list_ex_iff)
  moreover have "satisfies es req" if "f64_le tol req" for req
    using True that unfolding satisfies_def by (meson f64_le_trans)
  moreover have "es \<noteq> []" using True by (auto simp: satisfies_def)
  moreover have "bucket_insert tol v es = Some (es, False)" using t calculation(1) by (simp add: bucket_insert_def)
  ultimately show ?thesis using ok True by blast
next
  case False
  let ?n = "(tol, v) # es"
  have "f64_lt tol (fst e)" if "e \<in> set es" for e
    using False that ok t f64_not_le [of "fst e" tol] by (auto simp: satisfies_def bucket_ok_def)
  then have s: "sorted_wrt (\<lambda>a b. f64_lt (fst a) (fst b)) ?n" using ok by (simp add: bucket_ok_def)
  define m where "m = (if length ?n > SOFT_CAPACITY then butlast ?n else ?n)"
  obtain rest where m: "m = (tol, v) # rest" "set rest \<subseteq> set es"
  proof
    show "m = (tol, v) # (if length ?n > SOFT_CAPACITY then butlast es else es)"
      by (auto simp: m_def SOFT_CAPACITY_def)
    show "set (if length ?n > SOFT_CAPACITY then butlast es else es) \<subseteq> set es"
      by (auto dest: in_set_butlastD)
  qed
  have sm: "sorted_wrt (\<lambda>a b. f64_lt (fst a) (fst b)) m" by (metis m_def s butlast_sorted_wrt)
  have "length m \<le> SOFT_CAPACITY" using ok by (auto simp: bucket_ok_def m_def)
  moreover have "\<forall>e \<in> set m. is_valid_tolerance_si (fst e)" using ok t m(2) unfolding m(1) bucket_ok_def by auto
  ultimately have "bucket_ok m" using sm by (simp add: bucket_ok_def)
  moreover have "\<not> list_ex (\<lambda>(c, _). f64_le c tol) es" using False by (auto simp: satisfies_def list_ex_iff)
  then have "bucket_insert tol v es = Some (m, True)"
    using t ascending_sorted [OF s] unfolding bucket_insert_def Let_def m_def by (simp only: not_True_eq_False if_False if_True refl)
  moreover have "satisfies m req \<longleftrightarrow> satisfies es req \<or> f64_le tol req" for req
  proof -
    have "satisfies m req \<longleftrightarrow> f64_le tol req" using satisfies_front [of tol v rest] sm by (simp only: m(1))
    moreover have "satisfies ?n req \<longleftrightarrow> f64_le tol req" by (rule satisfies_front [OF s])
    moreover have "satisfies ?n req \<longleftrightarrow> f64_le tol req \<or> satisfies es req" by (simp add: satisfies_def)
    ultimately show ?thesis by blast
  qed
  moreover have "m \<noteq> []" "set m \<subseteq> insert (tol, v) (set es)" "(tol, v) \<in> set m" using m by auto
  ultimately show ?thesis by blast
qed

lemma bucket_lookup_spec:
  assumes ok: "bucket_ok es" and t: "is_valid_tolerance_si req"
  shows "\<exists>r. bucket_lookup req es = Some r \<and> (r = None \<longleftrightarrow> \<not> satisfies es req) \<and> (\<forall>v. r = Some v \<longrightarrow> loosest es req v)"
proof -
  have asc: "ascending_entries es" using ok by (simp add: bucket_ok_def ascending_sorted)
  show ?thesis
  proof (cases "find (\<lambda>(t, _). f64_le t req) (rev es)")
    case None
    then have "\<not> satisfies es req" by (auto simp: satisfies_def find_None_iff_all)
    then show ?thesis using asc t None by (simp add: bucket_lookup_def)
  next
    case (Some p)
    then obtain ys zs where p: "rev es = ys @ p # zs" "f64_le (fst p) req" "\<forall>y \<in> set ys. \<not> f64_le (fst y) req"
      by (auto simp: find_Some_iff_first split_beta)
    then have es: "es = rev zs @ p # rev ys" by (metis append.assoc append_Cons append_Nil rev_append rev_rev_ident rev.simps(2))
    have "f64_le (fst e) (fst p)" if "e \<in> set es" "f64_le (fst e) req" for e
    proof -
      have "e = p \<or> e \<in> set zs" using that p(3) es by auto
      then show ?thesis using ok es by (auto simp: bucket_ok_def sorted_wrt_append intro: f64_le_refl f64_lt_le)
    qed
    then have "loosest es req (snd p)" unfolding loosest_def using p(2) es by (intro exI [of _ "fst p"]) auto
    moreover have "satisfies es req" using p(2) es by (auto simp: satisfies_def)
    ultimately show ?thesis using asc t Some by (simp add: bucket_lookup_def)
  qed
qed

lemma remove_at_tol_spec:
  "sorted_wrt (\<lambda>a b. f64_lt (fst a) (fst b)) es \<Longrightarrow>
   (case remove_at_tol tol es of None \<Rightarrow> (\<forall>e \<in> set es. \<not> f64_eq (fst e) tol)
      | Some (v, es') \<Rightarrow> es' = filter (\<lambda>e. \<not> f64_eq (fst e) tol) es \<and> (\<exists>t. (t, v) \<in> set es \<and> f64_eq t tol))"
proof (induction tol es rule: remove_at_tol.induct)
  case (2 tol c v es)
  show ?case
  proof (cases "f64_eq c tol")
    case True
    then have "\<not> f64_eq (fst e) tol" if "e \<in> set es" for e
      using 2(2) that by (auto simp: f64_eq_def f64_lt_def)
    then have "filter (\<lambda>e. \<not> f64_eq (fst e) tol) es = es" by simp
    then show ?thesis using True by auto
  next
    case False
    then show ?thesis using 2 by (auto split: option.splits)
  qed
qed simp

lemma bucket_remove_spec:
  assumes ok: "bucket_ok es" and t: "is_valid_tolerance_si tol"
  shows "\<exists>r. bucket_remove tol es = Some (r, filter (\<lambda>e. \<not> f64_eq (fst e) tol) es)
    \<and> (case r of None \<Rightarrow> \<forall>e \<in> set es. \<not> f64_eq (fst e) tol | Some v \<Rightarrow> \<exists>t. (t, v) \<in> set es \<and> f64_eq t tol)"
proof -
  have s: "sorted_wrt (\<lambda>a b. f64_lt (fst a) (fst b)) es" using ok by (simp add: bucket_ok_def)
  show ?thesis
    using remove_at_tol_spec [OF s, of tol] t
    by (auto simp: bucket_remove_def split: option.splits)
qed

lemma bucket_ok_filter: "bucket_ok es \<Longrightarrow> bucket_ok (filter P es)"
  unfolding bucket_ok_def by (auto simp: sorted_wrt_filter intro: order_trans [OF length_filter_le])

section \<open>What the cache stores\<close>

text \<open>The bucket under a key, empty when there is none.\<close>

definition bucket_at :: "'v RealizationCache \<Rightarrow> ReprKind \<Rightarrow> string \<Rightarrow> ContentHash \<Rightarrow> 'v tolerance_bucket" where
  "bucket_at st r k h = or_default (hm_get (or_default (hm_get (or_default (hm_get (buckets st) r)) k)) h)"

definition put_bucket ::
  "ReprKind \<Rightarrow> string \<Rightarrow> ContentHash \<Rightarrow> 'v tolerance_bucket \<Rightarrow> 'v RealizationCache \<Rightarrow> 'v RealizationCache" where
  "put_bucket r k h b st =
     (let inner = or_default (hm_get (buckets st) r); by_options = or_default (hm_get inner k) in
      st\<lparr>buckets := hm_insert r (hm_insert k (hm_insert h b by_options) inner) (buckets st)\<rparr>)"

definition maps_ok :: "'v RealizationCache \<Rightarrow> bool" where
  "maps_ok st \<longleftrightarrow> hm_wf (buckets st) \<and> hm_all (\<lambda>_ inner. hm_wf inner \<and> hm_all (\<lambda>_ m. hm_wf m) inner) (buckets st)"

lemma or_default_simps [simp]: "or_default None = []" "or_default (Some xs) = xs"
  by (simp_all add: or_default_def)

lemma bucket_at_put: "bucket_at (put_bucket r k h b st) r' k' h' = (if r' = r \<and> k' = k \<and> h' = h then b else bucket_at st r' k' h')"
  by (auto simp: bucket_at_def put_bucket_def Let_def hm_simps)

lemma maps_ok_get:
  assumes "maps_ok st"
  shows "hm_wf (or_default (hm_get (buckets st) r))" "hm_wf (or_default (hm_get (or_default (hm_get (buckets st) r)) k))"
    "hm_all (\<lambda>_ m. hm_wf m) (or_default (hm_get (buckets st) r))"
proof -
  show i: "hm_wf (or_default (hm_get (buckets st) r))" "hm_all (\<lambda>_ m. hm_wf m) (or_default (hm_get (buckets st) r))"
    using assms by (cases "hm_get (buckets st) r"; fastforce simp: maps_ok_def dest: hm_all_get)+
  show "hm_wf (or_default (hm_get (or_default (hm_get (buckets st) r)) k))"
    using hm_all_get [OF i(2), of k] by (cases "hm_get (or_default (hm_get (buckets st) r)) k") auto
qed

lemma maps_ok_put [simp]:
  assumes "maps_ok st"
  shows "maps_ok (put_bucket r k h b st)"
  unfolding put_bucket_def Let_def maps_ok_def using maps_ok_get [OF assms] assms
  by (simp add: maps_ok_def hm_inv)

lemma put_bucket_rest [simp]:
  "terminal_entries (put_bucket r k h b st) = terminal_entries st"
  "intermediates_by_owner (put_bucket r k h b st) = intermediates_by_owner st"
  by (simp_all add: put_bucket_def Let_def)

lemma bucket_at_update [simp]:
  "bucket_at (st\<lparr>intermediates_by_owner := m\<rparr>) r k h = bucket_at st r k h"
  "bucket_at (st\<lparr>terminal_entries := n\<rparr>) r k h = bucket_at st r k h"
  "maps_ok (st\<lparr>intermediates_by_owner := m\<rparr>) = maps_ok st"
  "maps_ok (st\<lparr>terminal_entries := n\<rparr>) = maps_ok st"
  by (simp_all add: bucket_at_def maps_ok_def)

lemma rc_insert_put:
  "rc_insert e r tol h v st =
     (case bucket_insert tol v (bucket_at st r e h) of None \<Rightarrow> None | Some (b, i) \<Rightarrow> Some (i, put_bucket r e h b st))"
  by (simp add: rc_insert_def bucket_at_def put_bucket_def Let_def split: option.split prod.split)

lemma rc_lookup_bucket:
  assumes "is_valid_tolerance_si tol"
  shows "rc_lookup e r tol h st = bucket_lookup tol (bucket_at st r e h)"
  using assms by (auto simp: rc_lookup_def bucket_at_def bucket_lookup_def split: Option.bind_splits option.splits)

lemma bucket_len_at: "bucket_len e r h st = length (bucket_at st r e h)"
  by (auto simp: bucket_len_def bucket_at_def split: Option.bind_splits option.splits)

definition live :: "'v RealizationCache \<Rightarrow> string \<Rightarrow> bool" where
  "live st k \<longleftrightarrow> (\<exists>r h. bucket_at st r k h \<noteq> [])"

lemma holds_any_entry_live:
  assumes "maps_ok st"
  shows "holds_any_entry st k \<longleftrightarrow> live st k"
proof
  assume "holds_any_entry st k"
  then obtain r inner m h b where 1: "(r, inner) \<in> set (buckets st)" "hm_get inner k = Some m" "(h, b) \<in> set m" "b \<noteq> []"
    by (auto simp: holds_any_entry_def list_ex_iff split: option.splits)
  have "hm_get (buckets st) r = Some inner" using 1(1) assms by (simp add: maps_ok_def hm_get_eq_in)
  moreover from this have "hm_wf m" using maps_ok_get(2) [OF assms, of r k] 1(2) by simp
  then have "hm_get m h = Some b" using 1(3) by (simp add: hm_get_eq_in)
  ultimately have "bucket_at st r k h = b" using 1(2) by (simp add: bucket_at_def)
  then show "live st k" using 1(4) by (auto simp: live_def)
next
  assume "live st k"
  then obtain r h where b: "bucket_at st r k h \<noteq> []" by (auto simp: live_def)
  then obtain inner m where "hm_get (buckets st) r = Some inner" "hm_get inner k = Some m" "hm_get m h = Some (bucket_at st r k h)"
    by (auto simp: bucket_at_def or_default_def split: option.splits)
  then have g: "(r, inner) \<in> set (buckets st)" "hm_get inner k = Some m" "(h, bucket_at st r k h) \<in> set m"
    by (simp_all add: hm_get_in)
  show "holds_any_entry st k" unfolding holds_any_entry_def list_ex_iff
    by (rule bexI [OF _ g(1)]) (use g b in \<open>auto simp: list_ex_iff intro!: bexI [OF _ g(3)]\<close>)
qed

text \<open>Removal filters the bucket it reaches and leaves every other one.\<close>

definition filtered_bucket :: "'v RealizationCache \<Rightarrow> ReprKind \<Rightarrow> string \<Rightarrow> ContentHash \<Rightarrow> f64 \<Rightarrow> 'v tolerance_bucket" where
  "filtered_bucket st r k h tol = filter (\<lambda>e. \<not> f64_eq (fst e) tol) (bucket_at st r k h)"

lemma remove_exact_spec:
  assumes ok: "bucket_ok (bucket_at st r k h)" and m: "maps_ok st" and t: "is_valid_tolerance_si tol"
  shows "\<exists>removed st'. remove_exact k r tol h st = Some (removed, st') \<and> maps_ok st'
    \<and> terminal_entries st' = terminal_entries st \<and> intermediates_by_owner st' = intermediates_by_owner st
    \<and> (\<forall>r' k' h'. bucket_at st' r' k' h' = (if r' = r \<and> k' = k \<and> h' = h then filtered_bucket st r k h tol else bucket_at st r' k' h'))"
proof (cases "\<exists>inner m. hm_get (buckets st) r = Some inner \<and> hm_get inner k = Some m \<and> hm_get m h \<noteq> None")
  case True
  then obtain inner m b where g: "hm_get (buckets st) r = Some inner" "hm_get inner k = Some m" "hm_get m h = Some b"
    by auto
  then have b: "b = bucket_at st r k h" by (simp add: bucket_at_def)
  obtain x where "bucket_remove tol b = Some (x, filtered_bucket st r k h tol)"
    using bucket_remove_spec [OF ok t] by (auto simp: b filtered_bucket_def)
  then have "remove_exact k r tol h st = Some (x, put_bucket r k h (filtered_bucket st r k h tol) st)"
    using g by (simp add: remove_exact_def put_bucket_def)
  then show ?thesis using m by (simp add: bucket_at_put)
next
  case False
  then have "remove_exact k r tol h st = Some (None, st)" "bucket_at st r k h = []"
    by (auto simp: remove_exact_def bucket_at_def or_default_def split: option.splits)
  then show ?thesis using m by (simp add: filtered_bucket_def)
qed

section \<open>Families\<close>

text \<open>An entity identifier of the language has no hash sign.\<close>

definition plain :: "string \<Rightarrow> bool" where
  "plain e \<longleftrightarrow> CHR ''#'' \<notin> set e"

lemma takeWhile_plain: "plain e \<Longrightarrow> takeWhile (\<lambda>c. c \<noteq> CHR ''#'') (e @ CHR ''#'' # s) = e"
  unfolding plain_def by (induction e) auto

lemma intermediate_key_form: "\<exists>s. intermediate_key e slot = e @ CHR ''#'' # s"
  by (cases slot) simp_all

lemma intermediate_key_not_plain [simp]: "\<not> plain (intermediate_key e slot)"
  using intermediate_key_form [of e slot] by (auto simp: plain_def)

lemma intermediate_key_inject:
  assumes "plain e" "plain e'"
  shows "intermediate_key e slot = intermediate_key e' slot' \<longleftrightarrow> e = e' \<and> slot = slot'"
proof
  assume eq: "intermediate_key e slot = intermediate_key e' slot'"
  then have "e = e'"
    using intermediate_key_form [of e slot] intermediate_key_form [of e' slot'] takeWhile_plain assms by metis
  then show "e = e' \<and> slot = slot'" using eq by (cases slot; cases slot') (auto intro: unsigned_word_eqI)
qed simp

text \<open>The intermediate keys recorded for an owner.\<close>

definition family :: "'v RealizationCache \<Rightarrow> string \<Rightarrow> string set" where
  "family st e = set (or_default (hm_get (intermediates_by_owner st) e))"

definition rc_inv :: "'v RealizationCache \<Rightarrow> bool" where
  "rc_inv st \<longleftrightarrow> maps_ok st \<and> (\<forall>r k h. bucket_ok (bucket_at st r k h))
     \<and> hm_wf (intermediates_by_owner st)
     \<and> (\<forall>e keys. hm_get (intermediates_by_owner st) e = Some keys \<longrightarrow> keys \<noteq> [] \<and> distinct keys \<and> plain e)
     \<and> (\<forall>e. \<forall>k \<in> family st e. live st k \<and> (\<exists>slot. k = intermediate_key e slot))
     \<and> (\<forall>k. live st k \<longrightarrow> plain k \<or> (\<exists>e slot. plain e \<and> k = intermediate_key e slot \<and> k \<in> family st e))"

lemma rc_invD:
  assumes "rc_inv st"
  shows "maps_ok st" "bucket_ok (bucket_at st r k h)" "hm_wf (intermediates_by_owner st)"
    "hm_get (intermediates_by_owner st) e = Some keys \<Longrightarrow> keys \<noteq> [] \<and> distinct keys \<and> plain e"
    "k \<in> family st e \<Longrightarrow> live st k" "k \<in> family st e \<Longrightarrow> \<exists>slot. k = intermediate_key e slot"
    "live st k \<Longrightarrow> plain k \<or> (\<exists>e slot. plain e \<and> k = intermediate_key e slot \<and> k \<in> family st e)"
  using assms unfolding rc_inv_def by blast+

lemma rc_inv_owned:
  assumes "rc_inv st"
  shows "owned_keys_hold_entries st"
proof -
  have "keys \<noteq> [] \<and> (\<forall>k \<in> set keys. holds_any_entry st k)" if "(e, keys) \<in> set (intermediates_by_owner st)" for e keys
  proof -
    have g: "hm_get (intermediates_by_owner st) e = Some keys"
      using that rc_invD(3) [OF assms] by (simp add: hm_get_eq_in)
    then have "family st e = set keys" by (simp add: family_def)
    then show ?thesis
      using rc_invD(4) [OF assms g] holds_any_entry_live [OF rc_invD(1) [OF assms]] rc_invD(5) [OF assms, of _ e] by auto
  qed
  then show ?thesis by (auto simp: owned_keys_hold_entries_def list_all_iff)
qed

lemma family_plain: "rc_inv st \<Longrightarrow> k \<in> family st e \<Longrightarrow> plain e"
  using rc_invD(4) [of st e] by (cases "hm_get (intermediates_by_owner st) e") (simp_all add: family_def)

text \<open>A key belongs to one family only, that of the entity in its name.\<close>

lemma family_owner:
  assumes "rc_inv st" "k \<in> family st e" "k \<in> family st e'"
  shows "e = e'"
proof -
  obtain s s' where "k = intermediate_key e s" "k = intermediate_key e' s'" using rc_invD(6) assms by metis
  then show ?thesis using intermediate_key_inject family_plain assms by metis
qed

text \<open>Rewriting the buckets of one key, whose entries stay accounted for.\<close>

lemma rc_inv_rewrite:
  assumes i: "rc_inv st" and m: "maps_ok st'" "\<forall>r k h. bucket_ok (bucket_at st' r k h)"
    and o: "hm_wf (intermediates_by_owner st')"
      "\<forall>e keys. hm_get (intermediates_by_owner st') e = Some keys \<longrightarrow> keys \<noteq> [] \<and> distinct keys \<and> plain e"
    and f: "\<forall>e. \<forall>k \<in> family st' e. \<exists>slot. k = intermediate_key e slot"
    and l: "\<forall>e. \<forall>k \<in> family st' e. live st' k"
    and c: "\<forall>k. live st' k \<longrightarrow> plain k \<or> live st k \<and> (\<forall>e. k \<in> family st e \<longrightarrow> k \<in> family st' e)
              \<or> (\<exists>e slot. plain e \<and> k = intermediate_key e slot \<and> k \<in> family st' e)"
  shows "rc_inv st'"
  unfolding rc_inv_def
proof (intro conjI m o allI impI)
  fix k assume "live st' k"
  then show "plain k \<or> (\<exists>e slot. plain e \<and> k = intermediate_key e slot \<and> k \<in> family st' e)"
    using c rc_invD(7) [OF i, of k] by metis
qed (use f l in auto)

lemma family_simps [simp]:
  "family (put_bucket r k h b st) = family st"
  "family (st\<lparr>terminal_entries := n\<rparr>) = family st"
  by (simp_all add: family_def fun_eq_iff)

lemma live_put: "b \<noteq> [] \<Longrightarrow> live (put_bucket r e h b st) k \<longleftrightarrow> k = e \<or> live st k"
  by (auto simp: live_def bucket_at_put)

lemma live_update [simp]:
  "live (st\<lparr>intermediates_by_owner := m\<rparr>) = live st"
  "live (st\<lparr>terminal_entries := n\<rparr>) = live st"
  by (simp_all add: live_def fun_eq_iff)

lemma rc_insert_spec:
  assumes i: "rc_inv st" and t: "is_valid_tolerance_si tol"
  shows "\<exists>inserted b. rc_insert e r tol h v st = Some (inserted, put_bucket r e h b st) \<and> bucket_ok b \<and> b \<noteq> []
    \<and> set b \<subseteq> insert (tol, v) (set (bucket_at st r e h))
    \<and> (inserted \<longleftrightarrow> \<not> satisfies (bucket_at st r e h) tol)
    \<and> (\<forall>req. satisfies b req \<longleftrightarrow> satisfies (bucket_at st r e h) req \<or> f64_le tol req)"
proof -
  obtain b ins where b: "bucket_insert tol v (bucket_at st r e h) = Some (b, ins)" "bucket_ok b" "b \<noteq> []"
    "set b \<subseteq> insert (tol, v) (set (bucket_at st r e h))" "\<not> ins \<longrightarrow> satisfies (bucket_at st r e h) tol"
    "\<forall>req. satisfies b req \<longleftrightarrow> satisfies (bucket_at st r e h) req \<or> f64_le tol req"
    using bucket_insert_spec [OF rc_invD(2) [OF i] t] by blast
  moreover have "\<not> ins" if "satisfies (bucket_at st r e h) tol"
    using that b(1) t by (auto simp: bucket_insert_def satisfies_def list_ex_iff split_beta split: if_splits)
  ultimately show ?thesis by (auto simp: rc_insert_put)
qed

lemma rc_inv_put:
  assumes i: "rc_inv st" and b: "bucket_ok b" "b \<noteq> []" and e: "plain e"
  shows "rc_inv (put_bucket r e h b st)"
proof (rule rc_inv_rewrite [OF i])
  show "\<forall>r' k h'. bucket_ok (bucket_at (put_bucket r e h b st) r' k h')"
    using b rc_invD(2) [OF i] by (simp add: bucket_at_put)
qed (use rc_invD [OF i] b e in \<open>auto simp: live_put\<close>)

lemma rc_inv_count: "rc_inv st \<Longrightarrow> rc_inv (st\<lparr>terminal_entries := n\<rparr>)"
  by (simp add: rc_inv_def)

definition add_key :: "string \<Rightarrow> string \<Rightarrow> (string, string hash_set) hash_map \<Rightarrow> (string, string hash_set) hash_map" where
  "add_key e k m = (case hm_get m e of Some keys \<Rightarrow> hm_insert e (hs_insert k keys) m | None \<Rightarrow> hm_insert e [k] m)"

lemma family_add_key:
  "family (st\<lparr>intermediates_by_owner := add_key e k (intermediates_by_owner st)\<rparr>) e'
     = (if e' = e then insert k (family st e) else family st e')"
  by (auto simp: family_def add_key_def hm_simps split: option.splits)

lemma rc_inv_put_intermediate:
  assumes i: "rc_inv st" and b: "bucket_ok b" "b \<noteq> []" and e: "plain e"
  shows "rc_inv (put_bucket r (intermediate_key e slot) h b st
    \<lparr>intermediates_by_owner := add_key e (intermediate_key e slot) (intermediates_by_owner st)\<rparr>)"
    (is "rc_inv (?p\<lparr>intermediates_by_owner := ?m\<rparr>)")
proof (rule rc_inv_rewrite [OF i])
  let ?k = "intermediate_key e slot"
  have fam: "family (?p\<lparr>intermediates_by_owner := ?m\<rparr>) e' = (if e' = e then insert ?k (family st e) else family st e')" for e'
    using family_add_key [where st = ?p and e = e and k = ?k and e' = e'] by simp
  show "\<forall>r' k h'. bucket_ok (bucket_at (?p\<lparr>intermediates_by_owner := ?m\<rparr>) r' k h')"
    using b rc_invD(2) [OF i] by (simp add: bucket_at_put)
  show "hm_wf (intermediates_by_owner (?p\<lparr>intermediates_by_owner := ?m\<rparr>))"
    using rc_invD(3) [OF i] by (simp add: add_key_def hm_inv split: option.split)
  show "\<forall>e keys. hm_get (intermediates_by_owner (?p\<lparr>intermediates_by_owner := ?m\<rparr>)) e = Some keys
      \<longrightarrow> keys \<noteq> [] \<and> distinct keys \<and> plain e"
    using rc_invD(4) [OF i] e by (auto simp: add_key_def hm_simps hs_insert_def split: option.splits)
  show "\<forall>e. \<forall>k \<in> family (?p\<lparr>intermediates_by_owner := ?m\<rparr>) e. \<exists>slot. k = intermediate_key e slot"
    using rc_invD(6) [OF i] by (auto simp: fam)
  show "\<forall>e. \<forall>k \<in> family (?p\<lparr>intermediates_by_owner := ?m\<rparr>) e. live (?p\<lparr>intermediates_by_owner := ?m\<rparr>) k"
    using rc_invD(5) [OF i] b by (auto simp: fam live_put split: if_splits)
  show "\<forall>k. live (?p\<lparr>intermediates_by_owner := ?m\<rparr>) k \<longrightarrow> plain k
        \<or> live st k \<and> (\<forall>e'. k \<in> family st e' \<longrightarrow> k \<in> family (?p\<lparr>intermediates_by_owner := ?m\<rparr>) e')
        \<or> (\<exists>e' slot. plain e' \<and> k = intermediate_key e' slot \<and> k \<in> family (?p\<lparr>intermediates_by_owner := ?m\<rparr>) e')"
    using b e by (auto simp: fam live_put)
qed (use rc_invD(1) [OF i] in simp)

text \<open>The buckets of one key may shrink; a key that holds nothing leaves its family.\<close>

lemma rc_inv_shrink_plain:
  assumes i: "rc_inv st" and e: "plain e" and m: "maps_ok st'" and o: "intermediates_by_owner st' = intermediates_by_owner st"
    and b: "\<forall>r k h. bucket_at st' r k h = (if r = r0 \<and> k = e \<and> h = h0 then filter P (bucket_at st r0 e h0) else bucket_at st r k h)"
  shows "rc_inv st'"
proof -
  have fam: "family st' = family st" by (simp add: family_def o fun_eq_iff)
  have liv: "live st' k \<longleftrightarrow> live st k" if "k \<noteq> e" for k using that by (simp add: live_def b)
  have sub: "live st k" if "live st' k" for k
  proof -
    obtain r h where "bucket_at st' r k h \<noteq> []" using \<open>live st' k\<close> by (auto simp: live_def)
    then have "bucket_at st r k h \<noteq> []" by (auto simp: b split: if_splits)
    then show ?thesis by (auto simp: live_def)
  qed
  have not_e: "k \<noteq> e" if "k \<in> family st e'" for k e'
    using rc_invD(6) [OF i that] e by auto
  show ?thesis
  proof (rule rc_inv_rewrite [OF i m])
    show "\<forall>r k h. bucket_ok (bucket_at st' r k h)" using rc_invD(2) [OF i] by (simp add: b bucket_ok_filter)
    show "\<forall>e. \<forall>k \<in> family st' e. live st' k" using rc_invD(5) [OF i] liv not_e unfolding fam by blast
    show "\<forall>e. \<forall>k \<in> family st' e. \<exists>slot. k = intermediate_key e slot" using rc_invD(6) [OF i] by (simp add: fam)
    show "\<forall>k. live st' k \<longrightarrow> plain k \<or> live st k \<and> (\<forall>e. k \<in> family st e \<longrightarrow> k \<in> family st' e)
        \<or> (\<exists>e slot. plain e \<and> k = intermediate_key e slot \<and> k \<in> family st' e)"
      using sub by (simp add: fam)
  qed (use rc_invD(3,4) [OF i] o in auto)
qed

lemma hm_get_forget:
  "hm_wf m \<Longrightarrow> hm_get (forget_key e k m) e' =
     (if e' = e then (case hm_get m e of None \<Rightarrow> None
                        | Some keys \<Rightarrow> if hs_remove k keys = [] then None else Some (hs_remove k keys))
      else hm_get m e')"
  by (auto simp: forget_key_def hm_simps Let_def split: option.splits)

lemma hs_remove_empty: "hs_remove k xs = [] \<longleftrightarrow> set xs \<subseteq> {k}"
  by (auto simp: hs_remove_def filter_empty_conv)

lemma family_forget:
  "hm_wf (intermediates_by_owner st) \<Longrightarrow>
   family (st\<lparr>intermediates_by_owner := forget_key e k (intermediates_by_owner st)\<rparr>) e'
     = (if e' = e then family st e - {k} else family st e')"
  by (auto simp: family_def hm_get_forget hs_remove_empty split: option.splits)

lemma rc_inv_shrink_intermediate:
  assumes i: "rc_inv st" and e: "plain e" and k0: "k0 = intermediate_key e slot" and m: "maps_ok st'"
    and o: "intermediates_by_owner st' = (if live st' k0 then intermediates_by_owner st else forget_key e k0 (intermediates_by_owner st))"
    and b: "\<forall>r k h. bucket_at st' r k h = (if r = r0 \<and> k = k0 \<and> h = h0 then filter P (bucket_at st r0 k0 h0) else bucket_at st r k h)"
  shows "rc_inv st'"
proof -
  note wf = rc_invD(3) [OF i]
  have liv: "live st' k \<longleftrightarrow> live st k" if "k \<noteq> k0" for k using that by (simp add: live_def b)
  have only: "e' = e" if "k0 \<in> family st e'" for e'
    using rc_invD(6) [OF i that] intermediate_key_inject family_plain [OF i that] e k0 by metis
  have fam: "family st' e' = (if live st' k0 then family st e' else family st e' - {k0})" for e'
  proof (cases "live st' k0")
    case True
    then show ?thesis by (simp add: family_def o)
  next
    case False
    then have "family st' e' = family (st\<lparr>intermediates_by_owner := forget_key e k0 (intermediates_by_owner st)\<rparr>) e'"
      by (simp add: family_def o)
    then show ?thesis using False only [of e'] by (auto simp: family_forget [OF wf])
  qed
  have sub: "live st k" if "live st' k" for k
  proof -
    obtain r h where "bucket_at st' r k h \<noteq> []" using \<open>live st' k\<close> by (auto simp: live_def)
    then have "bucket_at st r k h \<noteq> []" by (auto simp: b split: if_splits)
    then show ?thesis by (auto simp: live_def)
  qed
  show ?thesis
  proof (rule rc_inv_rewrite [OF i m])
    show "\<forall>r k h. bucket_ok (bucket_at st' r k h)" using rc_invD(2) [OF i] by (simp add: b bucket_ok_filter)
    show "\<forall>e. \<forall>k \<in> family st' e. live st' k"
      using rc_invD(5) [OF i] liv by (metis DiffE fam insertI1)
    show "\<forall>e. \<forall>k \<in> family st' e. \<exists>slot. k = intermediate_key e slot"
      using rc_invD(6) [OF i] by (metis DiffE fam)
    show "\<forall>k. live st' k \<longrightarrow> plain k \<or> live st k \<and> (\<forall>e. k \<in> family st e \<longrightarrow> k \<in> family st' e)
        \<or> (\<exists>e slot. plain e \<and> k = intermediate_key e slot \<and> k \<in> family st' e)"
      using sub by (auto simp: fam)
    show "hm_wf (intermediates_by_owner st')"
      using wf by (auto simp: o forget_key_def Let_def hm_inv split: option.split)
    show "\<forall>e keys. hm_get (intermediates_by_owner st') e = Some keys \<longrightarrow> keys \<noteq> [] \<and> distinct keys \<and> plain e"
      using rc_invD(4) [OF i] by (auto simp: o hm_get_forget [OF wf] split: option.splits if_splits)
  qed
qed

lemma hm_get_map_snd: "hm_get (map (\<lambda>(r, x). (r, f x)) m) k = map_option f (hm_get m k)"
  unfolding hm_get_def by (induction m) auto

lemma hm_get_fold_removes:
  "hm_wf m \<Longrightarrow> hm_get (fold hm_remove ks m) k = (if k \<in> set ks then None else hm_get m k)"
  by (induction ks arbitrary: m) (auto simp: hm_simps hm_inv)

lemma bucket_at_evict:
  assumes "rc_inv st"
  shows "bucket_at (evict_family e st) r k h = (if k = e \<or> k \<in> family st e then [] else bucket_at st r k h)"
proof (cases "hm_get (buckets st) r")
  case None
  then show ?thesis by (simp add: bucket_at_def evict_family_def Let_def hm_get_map_snd)
next
  case (Some inner)
  then have "hm_wf inner" using maps_ok_get(1) [OF rc_invD(1) [OF assms], of r] by simp
  then show ?thesis using Some
    by (simp add: bucket_at_def evict_family_def Let_def hm_get_map_snd hm_get_fold_removes hm_inv hm_simps family_def)
qed

lemma family_evict: "rc_inv st \<Longrightarrow> family (evict_family e st) e' = (if e' = e then {} else family st e')"
  by (simp add: family_def evict_family_def Let_def hm_simps rc_invD(3))

lemma hm_all_fold_remove: "hm_all P m \<Longrightarrow> hm_all P (fold hm_remove ks m)"
  by (induction ks arbitrary: m) (simp_all add: hm_inv)

lemma hm_wf_fold_removes: "hm_wf m \<Longrightarrow> hm_wf (fold hm_remove ks m)"
  by (induction ks arbitrary: m) (simp_all add: hm_inv)

lemma rc_inv_evict:
  assumes i: "rc_inv st" and e: "plain e"
  shows "rc_inv (evict_family e st)"
proof (rule rc_inv_rewrite [OF i])
  have "hm_wf (buckets (evict_family e st))"
    using rc_invD(1) [OF i] by (simp add: maps_ok_def hm_wf_def evict_family_def Let_def comp_def case_prod_unfold)
  moreover have "hm_all (\<lambda>_ inner. hm_wf inner \<and> hm_all (\<lambda>_ m. hm_wf m) inner) (buckets (evict_family e st))"
    using rc_invD(1) [OF i] unfolding maps_ok_def hm_all_def list_all_iff evict_family_def Let_def
    by (auto simp: hm_wf_fold_removes hm_inv intro!: hm_all_fold_remove [unfolded hm_all_def list_all_iff]
        hm_all_remove [unfolded hm_all_def list_all_iff])
  ultimately show "maps_ok (evict_family e st)" by (simp add: maps_ok_def)
  show "\<forall>r k h. bucket_ok (bucket_at (evict_family e st) r k h)"
    using rc_invD(2) [OF i] by (simp add: bucket_at_evict [OF i])
  show "hm_wf (intermediates_by_owner (evict_family e st))"
    using rc_invD(3) [OF i] by (simp add: evict_family_def Let_def hm_inv)
  show "\<forall>e' keys. hm_get (intermediates_by_owner (evict_family e st)) e' = Some keys \<longrightarrow> keys \<noteq> [] \<and> distinct keys \<and> plain e'"
    using rc_invD(3,4) [OF i] by (simp add: evict_family_def Let_def hm_simps)
  show "\<forall>e'. \<forall>k \<in> family (evict_family e st) e'. \<exists>slot. k = intermediate_key e' slot"
    using rc_invD(6) [OF i] by (simp add: family_evict [OF i])
  have other: "k \<noteq> e \<and> k \<notin> family st e" if "k \<in> family st e'" "e' \<noteq> e" for k e'
    using family_owner [OF i that(1)] rc_invD(6) [OF i that(1)] that(2) e by auto
  then have "live (evict_family e st) k" if "k \<in> family st e'" "e' \<noteq> e" for k e'
    using rc_invD(5) [OF i that(1)] that by (simp add: live_def bucket_at_evict [OF i])
  then show "\<forall>e'. \<forall>k \<in> family (evict_family e st) e'. live (evict_family e st) k"
    by (simp add: family_evict [OF i])
  show "\<forall>k. live (evict_family e st) k \<longrightarrow> plain k
        \<or> live st k \<and> (\<forall>e'. k \<in> family st e' \<longrightarrow> k \<in> family (evict_family e st) e')
        \<or> (\<exists>e' slot. plain e' \<and> k = intermediate_key e' slot \<and> k \<in> family (evict_family e st) e')"
    by (auto simp: live_def bucket_at_evict [OF i] family_evict [OF i] split: if_splits)
qed

lemma remove_exact_any:
  assumes i: "rc_inv st" and r: "remove_exact k r tol h st = Some (removed, st')"
  shows "\<exists>P. maps_ok st' \<and> terminal_entries st' = terminal_entries st \<and> intermediates_by_owner st' = intermediates_by_owner st
    \<and> (\<forall>r' k' h'. bucket_at st' r' k' h' = (if r' = r \<and> k' = k \<and> h' = h then filter P (bucket_at st r k h) else bucket_at st r' k' h'))"
proof (cases "is_valid_tolerance_si tol")
  case True
  then show ?thesis
    using remove_exact_spec [where st = st and r = r and k = k and h = h, OF rc_invD(2) [OF i] rc_invD(1) [OF i] True] r
    by (intro exI [of _ "\<lambda>e. \<not> f64_eq (fst e) tol"]) (auto simp: filtered_bucket_def)
next
  case False
  then have "st' = st" using r by (auto simp: remove_exact_def bucket_remove_def split: option.splits)
  then show ?thesis using rc_invD(1) [OF i] by (intro exI [of _ "\<lambda>_. True"]) simp
qed

lemma remove_exact_returns:
  "rc_inv st \<Longrightarrow> is_valid_tolerance_si tol \<Longrightarrow> \<exists>removed st'. remove_exact k r tol h st = Some (removed, st')"
  using remove_exact_spec [OF rc_invD(2) rc_invD(1)] by blast

lemma rc_remove_inv:
  assumes i: "rc_inv st" and e: "plain e" and r: "remove_exact e r tol h st = Some (removed, st')"
  shows "rc_inv st'"
proof -
  obtain P where P: "maps_ok st'" "intermediates_by_owner st' = intermediates_by_owner st"
    "\<forall>r' k' h'. bucket_at st' r' k' h' = (if r' = r \<and> k' = e \<and> h' = h then filter P (bucket_at st r e h) else bucket_at st r' k' h')"
    using remove_exact_any [OF i r] by blast
  show ?thesis by (rule rc_inv_shrink_plain [OF i e P])
qed

lemma remove_intermediate_inv:
  assumes i: "rc_inv st" and e: "plain e"
    and r: "remove_exact (intermediate_key e slot) r tol h st = Some (removed, st1)"
  shows "rc_inv (if \<not> holds_any_entry st1 (intermediate_key e slot)
     then st1\<lparr>intermediates_by_owner := forget_key e (intermediate_key e slot) (intermediates_by_owner st1)\<rparr> else st1)"
    (is "rc_inv ?st")
proof -
  let ?k = "intermediate_key e slot"
  obtain P where P: "maps_ok st1" "intermediates_by_owner st1 = intermediates_by_owner st"
    "\<forall>r' k' h'. bucket_at st1 r' k' h' = (if r' = r \<and> k' = ?k \<and> h' = h then filter P (bucket_at st r ?k h) else bucket_at st r' k' h')"
    using remove_exact_any [OF i r] by blast
  have l: "live ?st ?k = holds_any_entry st1 ?k" using holds_any_entry_live [OF P(1)] by simp
  show ?thesis
  proof (rule rc_inv_shrink_intermediate [OF i e refl])
    show "maps_ok ?st" using P(1) by simp
    show "intermediates_by_owner ?st = (if live ?st ?k then intermediates_by_owner st else forget_key e ?k (intermediates_by_owner st))"
      unfolding l using P(2) by simp
    show "\<forall>r' k' h'. bucket_at ?st r' k' h' = (if r' = r \<and> k' = ?k \<and> h' = h then filter P (bucket_at st r ?k h) else bucket_at st r' k' h')"
      using P(3) by simp
  qed
qed

lemma rc_inv_new: "rc_inv rc_new"
  by (simp add: rc_inv_def rc_new_def maps_ok_def bucket_at_def family_def live_def)

lemma rc_inv_clear: "rc_inv (rc_clear st)"
  by (simp add: rc_inv_def rc_clear_def maps_ok_def bucket_at_def family_def live_def)

section \<open>Reachable caches\<close>

type_synonym 'v insertion = "string \<times> ReprKind \<times> ContentHash \<times> f64 \<times> 'v"

text \<open>
  Caches that the operations produce from an empty one, with the insertions
  asked for so far.  Entities are identifiers of the language; intermediates are
  written and removed through their owner only.
\<close>

inductive rc_reachable :: "'v insertion set \<Rightarrow> 'v RealizationCache \<Rightarrow> bool" where
  new: "rc_reachable {} rc_new"
| clear: "rc_reachable L st \<Longrightarrow> rc_reachable L (rc_clear st)"
| insert: "rc_reachable L st \<Longrightarrow> plain e \<Longrightarrow> rc_insert e r tol h v st = Some (inserted, st') \<Longrightarrow>
    rc_reachable (Set.insert (e, r, h, tol, v) L) st'"
| terminal: "rc_reachable L st \<Longrightarrow> plain e \<Longrightarrow> insert_terminal e r tol h v st = Some (inserted, st') \<Longrightarrow>
    rc_reachable (Set.insert (e, r, h, tol, v) L) st'"
| intermediate: "rc_reachable L st \<Longrightarrow> plain e \<Longrightarrow> insert_intermediate e slot r tol h v st = Some (inserted, st') \<Longrightarrow>
    rc_reachable (Set.insert (intermediate_key e slot, r, h, tol, v) L) st'"
| remove: "rc_reachable L st \<Longrightarrow> plain e \<Longrightarrow> rc_remove e r tol h st = Some (removed, st') \<Longrightarrow> rc_reachable L st'"
| remove_intermediate: "rc_reachable L st \<Longrightarrow> plain e \<Longrightarrow>
    remove_intermediate e slot r tol h st = Some (removed, st') \<Longrightarrow> rc_reachable L st'"
| evict: "rc_reachable L st \<Longrightarrow> plain e \<Longrightarrow> rc_reachable L (evict_family e st)"

definition logged :: "'v insertion set \<Rightarrow> 'v RealizationCache \<Rightarrow> bool" where
  "logged L st \<longleftrightarrow> (\<forall>r k h t v. (t, v) \<in> set (bucket_at st r k h) \<longrightarrow> (k, r, h, t, v) \<in> L)"

lemma rc_insert_valid: "rc_insert e r tol h v st = Some (inserted, st') \<Longrightarrow> is_valid_tolerance_si tol"
  by (auto simp: rc_insert_put bucket_insert_def split: if_splits)

lemma insert_cases:
  assumes i: "rc_inv st" and r: "rc_insert e r tol h v st = Some (inserted, st')"
  shows "\<exists>b. st' = put_bucket r e h b st \<and> bucket_ok b \<and> b \<noteq> [] \<and> set b \<subseteq> insert (tol, v) (set (bucket_at st r e h))
    \<and> (inserted \<longleftrightarrow> \<not> satisfies (bucket_at st r e h) tol)
    \<and> (\<forall>req. satisfies b req \<longleftrightarrow> satisfies (bucket_at st r e h) req \<or> f64_le tol req)"
  using rc_insert_spec [OF i rc_insert_valid [OF r], of e r h v] r by auto

lemma logged_put:
  "logged L st \<Longrightarrow> set b \<subseteq> insert (tol, v) (set (bucket_at st r e h)) \<Longrightarrow>
   logged (Set.insert (e, r, h, tol, v) L) (put_bucket r e h b st)"
  unfolding logged_def bucket_at_put by (auto split: if_splits)

lemma logged_shrink:
  "logged L st \<Longrightarrow> (\<And>r k h. set (bucket_at st' r k h) \<subseteq> set (bucket_at st r k h)) \<Longrightarrow> logged L st'"
  unfolding logged_def by blast

lemma logged_update [simp]:
  "logged L (st\<lparr>intermediates_by_owner := m\<rparr>) = logged L st"
  "logged L (st\<lparr>terminal_entries := n\<rparr>) = logged L st"
  by (simp_all add: logged_def)

lemma logged_remove:
  assumes "rc_inv st" "logged L st" "remove_exact k r tol h st = Some (removed, st')"
  shows "logged L st'"
proof -
  obtain P where "\<forall>r' k' h'. bucket_at st' r' k' h' = (if r' = r \<and> k' = k \<and> h' = h then filter P (bucket_at st r k h) else bucket_at st r' k' h')"
    using remove_exact_any [OF assms(1,3)] by blast
  then show ?thesis by (intro logged_shrink [OF assms(2)]) auto
qed

lemma insert_intermediate_add:
  "insert_intermediate e slot r tol h v st =
     map_option (\<lambda>(inserted, st1). (inserted, st1\<lparr>intermediates_by_owner :=
        add_key e (intermediate_key e slot) (intermediates_by_owner st1)\<rparr>))
       (rc_insert (intermediate_key e slot) r tol h v st)"
  by (auto simp: insert_intermediate_def add_key_def Let_def split: option.splits)

lemma insert_step:
  assumes "rc_inv st" "logged L st" "rc_insert e r tol h v st = Some (inserted, st')"
  shows "\<exists>b. st' = put_bucket r e h b st \<and> bucket_ok b \<and> b \<noteq> [] \<and> logged (Set.insert (e, r, h, tol, v) L) st'"
  using insert_cases [OF assms(1,3)] logged_put [OF assms(2)] by metis

lemma rc_reachable_inv: "rc_reachable L st \<Longrightarrow> rc_inv st \<and> logged L st"
proof (induction rule: rc_reachable.induct)
  case new
  show ?case by (simp add: rc_inv_new logged_def) (simp add: rc_new_def bucket_at_def)
next
  case (clear L st)
  show ?case by (simp add: rc_inv_clear logged_def) (simp add: rc_clear_def bucket_at_def)
next
  case (insert L st e r tol h v inserted st')
  then have i: "rc_inv st" "logged L st" by simp_all
  from insert_step [OF i insert.hyps(3)] show ?case using rc_inv_put [OF i(1) _ _ insert.hyps(2)] by auto
next
  case (terminal L st e r tol h v inserted st')
  then obtain st1 where st1: "rc_insert e r tol h v st = Some (inserted, st1)"
    "st' = (if inserted then st1\<lparr>terminal_entries := terminal_entries st1 + 1\<rparr> else st1)"
    by (auto simp: insert_terminal_def split: option.splits)
  have i: "rc_inv st" "logged L st" using terminal.IH by simp_all
  from insert_step [OF i st1(1)] have "rc_inv st1 \<and> logged (Set.insert (e, r, h, tol, v) L) st1"
    using rc_inv_put [OF i(1) _ _ terminal.hyps(2)] by auto
  then show ?case using st1(2) by (simp add: rc_inv_count)
next
  case (intermediate L st e slot r tol h v inserted st')
  then obtain st1 where st1: "rc_insert (intermediate_key e slot) r tol h v st = Some (inserted, st1)"
    "st' = st1\<lparr>intermediates_by_owner := add_key e (intermediate_key e slot) (intermediates_by_owner st1)\<rparr>"
    by (auto simp: insert_intermediate_add)
  have i: "rc_inv st" "logged L st" using intermediate.IH by simp_all
  from insert_step [OF i st1(1)] show ?case
    using rc_inv_put_intermediate [OF i(1) _ _ intermediate.hyps(2)] st1(2) by auto
next
  case (remove L st e r tol h removed st')
  then have "remove_exact e r tol h st = Some (removed, st')"
    by (auto simp: rc_remove_def split: option.splits if_splits)
  then show ?case using rc_remove_inv [OF _ remove.hyps(2)] logged_remove remove.IH by metis
next
  case (remove_intermediate L st e slot r tol h removed st')
  then obtain st1 where st1: "remove_exact (intermediate_key e slot) r tol h st = Some (removed, st1)"
    "st' = (if \<not> holds_any_entry st1 (intermediate_key e slot)
     then st1\<lparr>intermediates_by_owner := forget_key e (intermediate_key e slot) (intermediates_by_owner st1)\<rparr> else st1)"
    by (auto simp: remove_intermediate_def Let_def split: option.splits if_splits)
  then show ?case using remove_intermediate remove_intermediate_inv [OF _ _ st1(1)] logged_remove [OF _ _ st1(1)] by simp
next
  case (evict L st e)
  then show ?case using rc_inv_evict logged_shrink [of L st] by (simp add: bucket_at_evict)
qed

lemma realization_step_returns:
  assumes "rc_reachable L st" "is_valid_tolerance_si tol"
  shows "\<exists>i st'. insert_terminal e r tol h v st = Some (i, st')"
    and "\<exists>i st'. insert_intermediate e slot r tol h v st = Some (i, st')"
    and "\<exists>i st'. rc_insert e r tol h v st = Some (i, st')"
proof -
  have i: "rc_inv st" using rc_reachable_inv [OF assms(1)] by simp
  have r: "\<exists>i st'. rc_insert k r tol h v st = Some (i, st')" for k using rc_insert_spec [OF i assms(2)] by blast
  from r [of e] show "\<exists>i st'. rc_insert e r tol h v st = Some (i, st')" "\<exists>i st'. insert_terminal e r tol h v st = Some (i, st')"
    by (auto simp: insert_terminal_def)
  from r [of "intermediate_key e slot"] show "\<exists>i st'. insert_intermediate e slot r tol h v st = Some (i, st')"
    by (auto simp: insert_intermediate_add)
qed

section \<open>Main properties\<close>

definition hit :: "'v RealizationCache \<Rightarrow> string \<Rightarrow> ReprKind \<Rightarrow> ContentHash \<Rightarrow> f64 \<Rightarrow> bool" where
  "hit st e r h req \<longleftrightarrow> (\<exists>v. rc_lookup e r req h st = Some (Some v))"

lemma lookup_spec:
  assumes "rc_inv st" "is_valid_tolerance_si req"
  shows "\<exists>res. rc_lookup e r req h st = Some res \<and> (res = None \<longleftrightarrow> \<not> satisfies (bucket_at st r e h) req)
    \<and> (\<forall>v. res = Some v \<longrightarrow> loosest (bucket_at st r e h) req v)"
  using bucket_lookup_spec [OF rc_invD(2) [OF assms(1)] assms(2)] rc_lookup_bucket [OF assms(2)] by metis

lemma hit_iff:
  "rc_inv st \<Longrightarrow> is_valid_tolerance_si req \<Longrightarrow> hit st e r h req \<longleftrightarrow> satisfies (bucket_at st r e h) req"
  using lookup_spec [of st req e r h] by (auto simp: hit_def)

text \<open>
  No debug assertion of the cache can fail: from any reachable cache, every
  operation with a valid tolerance returns, and the index of intermediates lists
  only keys that hold an entry.
\<close>

theorem realization_cache_total:
  assumes "rc_reachable L st" "plain e" "is_valid_tolerance_si tol"
  shows "owned_keys_hold_entries st
    \<and> rc_insert e r tol h v st \<noteq> None \<and> insert_terminal e r tol h v st \<noteq> None
    \<and> insert_intermediate e slot r tol h v st \<noteq> None \<and> rc_lookup e r tol h st \<noteq> None
    \<and> rc_remove e r tol h st \<noteq> None \<and> remove_intermediate e slot r tol h st \<noteq> None"
proof -
  have i: "rc_inv st" using rc_reachable_inv [OF assms(1)] by simp
  obtain x st1 where x: "remove_exact e r tol h st = Some (x, st1)"
    using remove_exact_returns [OF i assms(3)] by blast
  obtain y st2 where y: "remove_exact (intermediate_key e slot) r tol h st = Some (y, st2)"
    using remove_exact_returns [OF i assms(3)] by blast
  have "\<exists>p. rc_insert k r tol h v st = Some p" for k using rc_insert_spec [OF i assms(3)] by blast
  then have "rc_insert k r tol h v st \<noteq> None" for k by blast
  then have "rc_insert e r tol h v st \<noteq> None \<and> insert_terminal e r tol h v st \<noteq> None
      \<and> insert_intermediate e slot r tol h v st \<noteq> None"
    by (simp add: insert_terminal_def insert_intermediate_add split: option.split)
  moreover have "rc_lookup e r tol h st \<noteq> None" using lookup_spec [OF i assms(3), of e r h] by fastforce
  moreover have "rc_remove e r tol h st \<noteq> None"
    using x rc_inv_owned [OF rc_remove_inv [OF i assms(2) x]] by (simp add: rc_remove_def)
  moreover have "remove_intermediate e slot r tol h st \<noteq> None"
    using rc_inv_owned [OF remove_intermediate_inv [OF i assms(2) y]] y by (simp add: remove_intermediate_def Let_def)
  ultimately show ?thesis using rc_inv_owned [OF i] by simp
qed

text \<open>
  C34. An insertion is refused exactly when the request is already served.
  Afterwards a request is served exactly when it was before or is for the same
  key at the same or a looser tolerance: eviction loses no hit.
\<close>

theorem realization_insert_hits:
  assumes "rc_reachable L st" "rc_insert e r tol h v st = Some (inserted, st')" "plain e" "is_valid_tolerance_si req"
  shows "(inserted \<longleftrightarrow> \<not> hit st e r h tol)
    \<and> (hit st' e' r' h' req \<longleftrightarrow> hit st e' r' h' req \<or> e' = e \<and> r' = r \<and> h' = h \<and> f64_le tol req)"
proof -
  have i: "rc_inv st" using rc_reachable_inv [OF assms(1)] by simp
  have i': "rc_inv st'" using rc_reachable_inv [OF rc_reachable.insert [OF assms(1,3,2)]] by simp
  obtain b where b: "st' = put_bucket r e h b st" "inserted \<longleftrightarrow> \<not> satisfies (bucket_at st r e h) tol"
    "\<forall>req. satisfies b req \<longleftrightarrow> satisfies (bucket_at st r e h) req \<or> f64_le tol req"
    using insert_cases [OF i assms(2)] by metis
  have "inserted \<longleftrightarrow> \<not> hit st e r h tol" using b(2) hit_iff [OF i rc_insert_valid [OF assms(2)]] by simp
  moreover have "hit st' e' r' h' req \<longleftrightarrow> satisfies (if r' = r \<and> e' = e \<and> h' = h then b else bucket_at st r' e' h') req"
    using hit_iff [OF i' assms(4)] b(1) by (simp add: bucket_at_put)
  then have "hit st' e' r' h' req \<longleftrightarrow> hit st e' r' h' req \<or> e' = e \<and> r' = r \<and> h' = h \<and> f64_le tol req"
    using hit_iff [OF i assms(4)] b(3) by auto
  ultimately show ?thesis by blast
qed

text \<open>
  A value served for a request was inserted under exactly that key at a
  tolerance that meets the request, and no entry of the key that meets it is looser.
\<close>

theorem realization_lookup_sound:
  assumes "rc_reachable L st" "rc_lookup k r req h st = Some (Some v)"
  shows "\<exists>t. (k, r, h, t, v) \<in> L \<and> f64_le t req
    \<and> (\<forall>(t', v') \<in> set (bucket_at st r k h). f64_le t' req \<longrightarrow> f64_le t' t)"
proof -
  have i: "rc_inv st" "logged L st" using rc_reachable_inv [OF assms(1)] by simp_all
  have "is_valid_tolerance_si req"
    using assms(2) by (auto simp: rc_lookup_def bucket_lookup_def split: option.splits if_splits)
  then have "loosest (bucket_at st r k h) req v" using lookup_spec [OF i(1), of req k r h] assms(2) by auto
  then obtain t where t: "(t, v) \<in> set (bucket_at st r k h)" "f64_le t req"
    "\<forall>e \<in> set (bucket_at st r k h). f64_le (fst e) req \<longrightarrow> f64_le (fst e) t"
    by (auto simp: loosest_def)
  then show ?thesis using i(2) by (intro exI [of _ t]) (auto simp: logged_def)
qed

text \<open>
  Evicting an entity removes its entries and its conversion intermediates for
  every representation, option hash and tolerance; every other lookup and the
  lifetime counter stay as they were.
\<close>

theorem evict_family_exact:
  assumes "rc_reachable L st" "plain e" "is_valid_tolerance_si req"
  shows "rc_lookup k r req h (evict_family e st)
      = (if k = e \<or> (\<exists>slot. k = intermediate_key e slot) then Some None else rc_lookup k r req h st)
    \<and> realization_entries (evict_family e st) = realization_entries st"
proof -
  have i: "rc_inv st" using rc_reachable_inv [OF assms(1)] by simp
  have "bucket_at st r (intermediate_key e slot) h = []" if "intermediate_key e slot \<notin> family st e" for slot
  proof (rule ccontr)
    assume "\<not> ?thesis"
    then have "live st (intermediate_key e slot)" by (auto simp: live_def)
    then show False using rc_invD(7) [OF i] intermediate_key_inject [OF assms(2)] that by force
  qed
  then have "bucket_at (evict_family e st) r k h = (if k = e \<or> (\<exists>slot. k = intermediate_key e slot) then [] else bucket_at st r k h)"
    using rc_invD(6) [OF i, of k e] by (auto simp: bucket_at_evict [OF i])
  then show ?thesis
    using assms(3) by (auto simp: rc_lookup_bucket bucket_lookup_def realization_entries_def evict_family_def Let_def)
qed

section \<open>An example\<close>

text \<open>A part realized at tolerance one, with one intermediate, and a tighter entry.\<close>

definition f64_half :: f64 where
  "f64_half = 4602678819172646912"

definition f64_one :: f64 where
  "f64_one = 4607182418800017408"

definition demo_terminal :: "int RealizationCache" where
  "demo_terminal = snd (the (insert_terminal ''part'' BRep f64_one NO_OPTIONS 10 rc_new))"

definition demo_cache :: "int RealizationCache" where
  "demo_cache = snd (the (insert_intermediate ''part'' (Step 0) Mesh f64_one NO_OPTIONS 20 demo_terminal))"

lemma demo_cache_reachable:
  "rc_reachable {(intermediate_key ''part'' (Step 0), Mesh, NO_OPTIONS, f64_one, 20), (''part'', BRep, NO_OPTIONS, f64_one, 10)} demo_cache"
proof -
  have p: "plain ''part''" by (simp add: plain_def)
  have t: "is_valid_tolerance_si f64_one" by code_simp
  obtain i st where st: "insert_terminal ''part'' BRep f64_one NO_OPTIONS 10 rc_new = Some (i, st :: int RealizationCache)"
    using realization_step_returns(1) [OF rc_reachable.new t, of "''part''" BRep NO_OPTIONS "10 :: int"] by blast
  from rc_reachable.terminal [OF rc_reachable.new p st]
  have r: "rc_reachable {(''part'', BRep, NO_OPTIONS, f64_one, 10)} demo_terminal" by (simp add: demo_terminal_def st)
  obtain j st2 where st2: "insert_intermediate ''part'' (Step 0) Mesh f64_one NO_OPTIONS 20 demo_terminal = Some (j, st2)"
    using realization_step_returns(2) [OF r t] by blast
  from rc_reachable.intermediate [OF r p st2] show ?thesis by (simp add: demo_cache_def st2)
qed

theorem realization_cache_total_witness:
  "owned_keys_hold_entries demo_cache \<and> rc_remove ''part'' BRep f64_one NO_OPTIONS demo_cache \<noteq> None"
proof -
  have t: "is_valid_tolerance_si f64_one" "plain ''part''" by code_simp+
  from realization_cache_total [OF demo_cache_reachable t(2,1)] show ?thesis by blast
qed

theorem realization_insert_hits_witness:
  "\<exists>st'. rc_insert ''part'' BRep f64_half NO_OPTIONS 30 demo_cache = Some (True, st')
     \<and> hit st' ''part'' BRep NO_OPTIONS f64_half \<and> \<not> hit demo_cache ''part'' BRep NO_OPTIONS f64_half"
proof -
  have n: "rc_lookup ''part'' BRep f64_half NO_OPTIONS demo_cache = Some None" by code_simp
  have t: "is_valid_tolerance_si f64_half" "plain ''part''" "f64_le f64_half f64_half" by code_simp+
  obtain i st' where st': "rc_insert ''part'' BRep f64_half NO_OPTIONS 30 demo_cache = Some (i, st')"
    using realization_step_returns(3) [OF demo_cache_reachable t(1)] by blast
  from realization_insert_hits [OF demo_cache_reachable st' t(2,1), of "''part''" BRep NO_OPTIONS]
  show ?thesis using st' n t(3) by (auto simp: hit_def)
qed

theorem realization_lookup_sound_witness:
  "rc_lookup ''part'' BRep f64_one NO_OPTIONS demo_cache = Some (Some 10)
   \<and> (\<exists>t. t = f64_one \<and> f64_le t f64_one)"
proof -
  have l: "rc_lookup ''part'' BRep f64_one NO_OPTIONS demo_cache = Some (Some 10)" by code_simp
  from realization_lookup_sound [OF demo_cache_reachable l] show ?thesis using l by auto
qed

theorem evict_family_exact_witness:
  "rc_lookup ''part#conv-step0'' Mesh f64_one NO_OPTIONS demo_cache = Some (Some 20)
   \<and> rc_lookup ''part#conv-step0'' Mesh f64_one NO_OPTIONS (evict_family ''part'' demo_cache) = Some None"
proof -
  have l: "rc_lookup ''part#conv-step0'' Mesh f64_one NO_OPTIONS demo_cache = Some (Some 20)" by code_simp
  have t: "is_valid_tolerance_si f64_one" "plain ''part''" by code_simp+
  have k: "''part#conv-step0'' = intermediate_key ''part'' (Step 0)" by code_simp
  from evict_family_exact [OF demo_cache_reachable t(2,1), of "''part#conv-step0''"] show ?thesis using l k by metis
qed

end
