(* ===== verification/Types.thy ===== *)
theory Types
  imports Dimension Text
begin

text \<open>
  The type language (\<open>reify-core/src/ty.rs\<close>) and the per-slot predicates of the
  overload ladder (\<open>reify-core/src/overload.rs\<close>).  A constructor of \<open>Type\<close> has
  the source's name with a \<open>T\<close> in front.
\<close>

section \<open>Types\<close>

text \<open>\<open>ty::SelectorKind\<close>; the syntax tree has another enum of that name.\<close>

datatype RegionKind = FaceKind | EdgeKind | BodyKind | VertexKind

fun dimensionality :: "RegionKind \<Rightarrow> usize" where
  "dimensionality VertexKind = 0"
| "dimensionality FaceKind = 2"
| "dimensionality EdgeKind = 1"
| "dimensionality BodyKind = 3"

fun show_region_kind :: "RegionKind \<Rightarrow> string" where
  "show_region_kind VertexKind = ''VertexSelector''"
| "show_region_kind FaceKind = ''FaceSelector''"
| "show_region_kind EdgeKind = ''EdgeSelector''"
| "show_region_kind BodyKind = ''BodySelector''"

datatype Type =
    TBool
  | TInt
  | TString
  | TScalar DimensionVector
  | TEnum string
  | TList Type
  | TSet Type
  | TMap Type Type
  | TKeyed Type
  | TOption Type
  | TFunction "Type list" Type
  | TTypeParam string
  | TStructureRef string
  | TTraitObject string
  | TField Type Type
  | TGeometry
  | TFeature
  | TPoint usize Type
  | TVector usize Type
  | TTensor usize usize Type
  | TComplex Type
  | TOrientation usize
  | TFrame usize
  | TTransform usize
  | TAffineMap usize
  | TRange Type
  | TPlane
  | TAxis
  | TDirection
  | TBoundingBox
  | TScalarParam string
  | TMatrix usize usize Type
  | TError
  | TSelector RegionKind
  | TAnySelector
  | TUnion "Type list"
  | TRelation
  | TApplied string "Type list"
  | TProjection Type string

definition UNBOUND_TYPE_ARG_PREFIX :: string where
  "UNBOUND_TYPE_ARG_PREFIX = ''__unbound_''"

definition ty_scalar :: "DimensionVector option \<Rightarrow> Type option" where
  "ty_scalar d = map_option TScalar d"

definition dimensionless_scalar :: Type where
  "dimensionless_scalar = TScalar DIMENSIONLESS"

definition unbound_placeholder :: "string \<Rightarrow> Type" where
  "unbound_placeholder param = TTypeParam (UNBOUND_TYPE_ARG_PREFIX @ param)"

fun is_numeric :: "Type \<Rightarrow> bool" where
  "is_numeric TInt \<longleftrightarrow> True"
| "is_numeric (TScalar d) \<longleftrightarrow> True"
| "is_numeric _ \<longleftrightarrow> False"

definition is_error :: "Type \<Rightarrow> bool" where
  "is_error t \<longleftrightarrow> t = TError"

definition is_unbound_placeholder :: "Type \<Rightarrow> bool" where
  "is_unbound_placeholder t \<longleftrightarrow>
     (case t of TTypeParam name \<Rightarrow> take (length UNBOUND_TYPE_ARG_PREFIX) name = UNBOUND_TYPE_ARG_PREFIX | _ \<Rightarrow> False)"

fun as_name :: "Type \<Rightarrow> string option" where
  "as_name (TTypeParam name) = Some name"
| "as_name (TStructureRef name) = Some name"
| "as_name (TTraitObject name) = Some name"
| "as_name (TEnum name) = Some name"
| "as_name _ = None"

fun show_type :: "Type \<Rightarrow> string" where
  "show_type TBool = ''Bool''"
| "show_type TInt = ''Int''"
| "show_type TString = ''String''"
| "show_type (TScalar d) = (if is_dimensionless d then ''Real'' else ''Scalar['' @ show_dimension d @ '']'')"
| "show_type (TEnum name) = ''Enum('' @ name @ '')''"
| "show_type (TList t) = ''List<'' @ show_type t @ ''>''"
| "show_type (TSet t) = ''Set<'' @ show_type t @ ''>''"
| "show_type (TMap k v) = ''Map<'' @ show_type k @ '', '' @ show_type v @ ''>''"
| "show_type (TKeyed t) = ''Keyed<'' @ show_type t @ ''>''"
| "show_type (TOption t) = ''Option<'' @ show_type t @ ''>''"
| "show_type (TFunction ps r) = ''Function('' @ join '', '' (map show_type ps) @ '') -> '' @ show_type r"
| "show_type (TTypeParam name) = name"
| "show_type (TStructureRef name) = name"
| "show_type (TTraitObject name) = name"
| "show_type (TField d c) = ''Field<'' @ show_type d @ '', '' @ show_type c @ ''>''"
| "show_type TGeometry = ''Geometry''"
| "show_type TFeature = ''Feature''"
| "show_type (TPoint n q) = ''Point'' @ show_nat n @ ''<'' @ show_type q @ ''>''"
| "show_type (TVector n q) = ''Vector'' @ show_nat n @ ''<'' @ show_type q @ ''>''"
| "show_type (TTensor r n q) = ''Tensor'' @ show_nat r @ ''x'' @ show_nat n @ ''<'' @ show_type q @ ''>''"
| "show_type (TComplex t) = ''Complex<'' @ show_type t @ ''>''"
| "show_type (TOrientation n) = ''Orientation'' @ show_nat n"
| "show_type (TFrame n) = ''Frame'' @ show_nat n"
| "show_type (TTransform n) = ''Transform'' @ show_nat n"
| "show_type (TAffineMap n) = ''AffineMap'' @ show_nat n"
| "show_type (TRange t) = ''Range<'' @ show_type t @ ''>''"
| "show_type TPlane = ''Plane''"
| "show_type TAxis = ''Axis''"
| "show_type TDirection = ''Direction''"
| "show_type TRelation = ''Relation''"
| "show_type TBoundingBox = ''BoundingBox''"
| "show_type (TScalarParam name) = ''Scalar<'' @ name @ ''>''"
| "show_type (TMatrix m n q) = ''Matrix'' @ show_nat m @ ''x'' @ show_nat n @ ''<'' @ show_type q @ ''>''"
| "show_type (TSelector k) = show_region_kind k"
| "show_type TAnySelector = ''Selector''"
| "show_type TError = ''<error>''"
| "show_type (TUnion arms) = ''Union<'' @ join '' | '' (map show_type arms) @ ''>''"
| "show_type (TApplied name args) = name @ ''<'' @ join '', '' (map show_type args) @ ''>''"
| "show_type (TProjection b m) = show_type b @ ''::'' @ m"

section \<open>What a type carries\<close>

fun type_carries_trait_object :: "Type \<Rightarrow> bool" where
  "type_carries_trait_object (TTraitObject name) \<longleftrightarrow> True"
| "type_carries_trait_object (TOption t) \<longleftrightarrow> type_carries_trait_object t"
| "type_carries_trait_object (TList t) \<longleftrightarrow> type_carries_trait_object t"
| "type_carries_trait_object (TSet t) \<longleftrightarrow> type_carries_trait_object t"
| "type_carries_trait_object (TMap k v) \<longleftrightarrow> type_carries_trait_object k \<or> type_carries_trait_object v"
| "type_carries_trait_object (TApplied name args) \<longleftrightarrow> list_ex type_carries_trait_object args"
| "type_carries_trait_object (TProjection b m) \<longleftrightarrow> type_carries_trait_object b"
| "type_carries_trait_object _ \<longleftrightarrow> False"

fun type_carries_type_param :: "Type \<Rightarrow> bool" where
  "type_carries_type_param (TTypeParam p) \<longleftrightarrow> True"
| "type_carries_type_param (TList t) \<longleftrightarrow> type_carries_type_param t"
| "type_carries_type_param (TSet t) \<longleftrightarrow> type_carries_type_param t"
| "type_carries_type_param (TKeyed t) \<longleftrightarrow> type_carries_type_param t"
| "type_carries_type_param (TOption t) \<longleftrightarrow> type_carries_type_param t"
| "type_carries_type_param (TComplex t) \<longleftrightarrow> type_carries_type_param t"
| "type_carries_type_param (TRange t) \<longleftrightarrow> type_carries_type_param t"
| "type_carries_type_param (TPoint n q) \<longleftrightarrow> type_carries_type_param q"
| "type_carries_type_param (TVector n q) \<longleftrightarrow> type_carries_type_param q"
| "type_carries_type_param (TTensor r n q) \<longleftrightarrow> type_carries_type_param q"
| "type_carries_type_param (TMatrix m n q) \<longleftrightarrow> type_carries_type_param q"
| "type_carries_type_param (TMap k v) \<longleftrightarrow> type_carries_type_param k \<or> type_carries_type_param v"
| "type_carries_type_param (TField d c) \<longleftrightarrow> type_carries_type_param d \<or> type_carries_type_param c"
| "type_carries_type_param (TFunction ps t) \<longleftrightarrow> list_ex type_carries_type_param ps \<or> type_carries_type_param t"
| "type_carries_type_param (TUnion arms) \<longleftrightarrow> list_ex type_carries_type_param arms"
| "type_carries_type_param (TApplied s args) \<longleftrightarrow> list_ex type_carries_type_param args"
| "type_carries_type_param (TProjection b m) \<longleftrightarrow> type_carries_type_param b"
| "type_carries_type_param _ \<longleftrightarrow> False"

fun type_carries_dim_param :: "Type \<Rightarrow> bool" where
  "type_carries_dim_param (TScalarParam p) \<longleftrightarrow> True"
| "type_carries_dim_param (TList t) \<longleftrightarrow> type_carries_dim_param t"
| "type_carries_dim_param (TSet t) \<longleftrightarrow> type_carries_dim_param t"
| "type_carries_dim_param (TKeyed t) \<longleftrightarrow> type_carries_dim_param t"
| "type_carries_dim_param (TOption t) \<longleftrightarrow> type_carries_dim_param t"
| "type_carries_dim_param (TComplex t) \<longleftrightarrow> type_carries_dim_param t"
| "type_carries_dim_param (TRange t) \<longleftrightarrow> type_carries_dim_param t"
| "type_carries_dim_param (TPoint n q) \<longleftrightarrow> type_carries_dim_param q"
| "type_carries_dim_param (TVector n q) \<longleftrightarrow> type_carries_dim_param q"
| "type_carries_dim_param (TTensor r n q) \<longleftrightarrow> type_carries_dim_param q"
| "type_carries_dim_param (TMatrix m n q) \<longleftrightarrow> type_carries_dim_param q"
| "type_carries_dim_param (TMap k v) \<longleftrightarrow> type_carries_dim_param k \<or> type_carries_dim_param v"
| "type_carries_dim_param (TField d c) \<longleftrightarrow> type_carries_dim_param d \<or> type_carries_dim_param c"
| "type_carries_dim_param (TFunction ps t) \<longleftrightarrow> list_ex type_carries_dim_param ps \<or> type_carries_dim_param t"
| "type_carries_dim_param (TUnion arms) \<longleftrightarrow> list_ex type_carries_dim_param arms"
| "type_carries_dim_param (TApplied s args) \<longleftrightarrow> list_ex type_carries_dim_param args"
| "type_carries_dim_param (TProjection b m) \<longleftrightarrow> type_carries_dim_param b"
| "type_carries_dim_param _ \<longleftrightarrow> False"

section \<open>Slots\<close>

text \<open>The head of a parameter against an argument, by the constructor of the parameter.\<close>

lemma zip_size [termination_simp]:
  "(d, a) \<in> set (zip ds as) \<Longrightarrow> size d < Suc (size_list size ds)"
  "(d, a) \<in> set (zip ds as) \<Longrightarrow> size d < Suc (size_list size ds + n)"
  using size_list_estimation' [of d ds "size d" size] by (auto dest: set_zip_leftD)

fun heads_unifiable :: "Type \<Rightarrow> Type \<Rightarrow> bool" where
  "heads_unifiable (TTypeParam p) arg \<longleftrightarrow> True"
| "heads_unifiable (TScalarParam q) arg \<longleftrightarrow> is_unbound_placeholder arg \<or>
     (case arg of TScalar d \<Rightarrow> True | _ \<Rightarrow> TScalarParam q = arg)"
| "heads_unifiable (TList d) arg \<longleftrightarrow> is_unbound_placeholder arg \<or>
     (case arg of TList a \<Rightarrow> heads_unifiable d a | _ \<Rightarrow> TList d = arg)"
| "heads_unifiable (TSet d) arg \<longleftrightarrow> is_unbound_placeholder arg \<or>
     (case arg of TSet a \<Rightarrow> heads_unifiable d a | _ \<Rightarrow> TSet d = arg)"
| "heads_unifiable (TKeyed d) arg \<longleftrightarrow> is_unbound_placeholder arg \<or>
     (case arg of TKeyed a \<Rightarrow> heads_unifiable d a | _ \<Rightarrow> TKeyed d = arg)"
| "heads_unifiable (TOption d) arg \<longleftrightarrow> is_unbound_placeholder arg \<or>
     (case arg of TOption a \<Rightarrow> heads_unifiable d a | _ \<Rightarrow> TOption d = arg)"
| "heads_unifiable (TComplex d) arg \<longleftrightarrow> is_unbound_placeholder arg \<or>
     (case arg of TComplex a \<Rightarrow> heads_unifiable d a | _ \<Rightarrow> TComplex d = arg)"
| "heads_unifiable (TRange d) arg \<longleftrightarrow> is_unbound_placeholder arg \<or>
     (case arg of TRange a \<Rightarrow> heads_unifiable d a | _ \<Rightarrow> TRange d = arg)"
| "heads_unifiable (TMap d d') arg \<longleftrightarrow> is_unbound_placeholder arg \<or>
     (case arg of TMap a a' \<Rightarrow> heads_unifiable d a \<and> heads_unifiable d' a' | _ \<Rightarrow> TMap d d' = arg)"
| "heads_unifiable (TField d d') arg \<longleftrightarrow> is_unbound_placeholder arg \<or>
     (case arg of TField a a' \<Rightarrow> heads_unifiable d a \<and> heads_unifiable d' a' | _ \<Rightarrow> TField d d' = arg)"
| "heads_unifiable (TFunction dp dr) arg \<longleftrightarrow> is_unbound_placeholder arg \<or>
     (case arg of
        TFunction ap ar \<Rightarrow>
          if length dp = length ap
          then list_all (\<lambda>(d, a). heads_unifiable d a) (zip dp ap) \<and> heads_unifiable dr ar
          else TFunction dp dr = arg
      | _ \<Rightarrow> TFunction dp dr = arg)"
| "heads_unifiable (TPoint dn dq) arg \<longleftrightarrow> is_unbound_placeholder arg \<or>
     (case arg of TPoint an aq \<Rightarrow> if dn = an then heads_unifiable dq aq else TPoint dn dq = arg
      | _ \<Rightarrow> TPoint dn dq = arg)"
| "heads_unifiable (TVector dn dq) arg \<longleftrightarrow> is_unbound_placeholder arg \<or>
     (case arg of TVector an aq \<Rightarrow> if dn = an then heads_unifiable dq aq else TVector dn dq = arg
      | _ \<Rightarrow> TVector dn dq = arg)"
| "heads_unifiable (TTensor dr dn dq) arg \<longleftrightarrow> is_unbound_placeholder arg \<or>
     (case arg of
        TTensor ar an aq \<Rightarrow> if dr = ar \<and> dn = an then heads_unifiable dq aq else TTensor dr dn dq = arg
      | _ \<Rightarrow> TTensor dr dn dq = arg)"
| "heads_unifiable (TMatrix dr dn dq) arg \<longleftrightarrow> is_unbound_placeholder arg \<or>
     (case arg of
        TMatrix ar an aq \<Rightarrow> if dr = ar \<and> dn = an then heads_unifiable dq aq else TMatrix dr dn dq = arg
      | _ \<Rightarrow> TMatrix dr dn dq = arg)"
| "heads_unifiable (TUnion da) arg \<longleftrightarrow> is_unbound_placeholder arg \<or>
     (case arg of
        TUnion aa \<Rightarrow>
          if length da = length aa then list_all (\<lambda>(d, a). heads_unifiable d a) (zip da aa) else TUnion da = arg
      | _ \<Rightarrow> TUnion da = arg)"
| "heads_unifiable (TApplied dn da) arg \<longleftrightarrow> is_unbound_placeholder arg \<or>
     (case arg of
        TApplied an aa \<Rightarrow>
          if dn = an \<and> length da = length aa
          then list_all (\<lambda>(d, a). heads_unifiable d a) (zip da aa) else TApplied dn da = arg
      | TEnum en \<Rightarrow> if dn = en then True else TApplied dn da = arg
      | _ \<Rightarrow> TApplied dn da = arg)"
| "heads_unifiable (TProjection db dm) arg \<longleftrightarrow> is_unbound_placeholder arg \<or>
     (case arg of
        TProjection ab am \<Rightarrow> if dm = am then heads_unifiable db ab else TProjection db dm = arg
      | _ \<Rightarrow> TProjection db dm = arg)"
| "heads_unifiable param arg \<longleftrightarrow> is_unbound_placeholder arg \<or> param = arg"

definition is_bare_user_type_param :: "Type \<Rightarrow> bool" where
  "is_bare_user_type_param t \<longleftrightarrow>
     (case t of TTypeParam p \<Rightarrow> True | _ \<Rightarrow> False) \<and> \<not> is_unbound_placeholder t"

definition arg_side_admits :: "Type \<Rightarrow> Type \<Rightarrow> bool" where
  "arg_side_admits param_ty arg_ty =
     (case arg_ty of
        TTypeParam p \<Rightarrow> \<not> is_unbound_placeholder arg_ty
      | _ \<Rightarrow> type_carries_type_param arg_ty \<and> heads_unifiable param_ty arg_ty)"

definition slot_matches_wildcard_tier :: "Type \<Rightarrow> Type \<Rightarrow> bool \<Rightarrow> bool" where
  "slot_matches_wildcard_tier param_ty arg_ty is_generic \<longleftrightarrow>
     type_carries_trait_object param_ty
     \<or> (is_generic \<and> (type_carries_type_param param_ty \<or> type_carries_dim_param param_ty))
     \<or> param_ty = arg_ty
     \<or> arg_side_admits param_ty arg_ty"

definition slot_matches_head_tier :: "Type \<Rightarrow> Type \<Rightarrow> bool \<Rightarrow> bool" where
  "slot_matches_head_tier param_ty arg_ty is_generic \<longleftrightarrow>
     type_carries_trait_object param_ty
     \<or> (is_generic \<and> (heads_unifiable param_ty arg_ty \<or> type_carries_dim_param param_ty))
     \<or> is_bare_user_type_param arg_ty
     \<or> param_ty = arg_ty"

end
