(* ===== verification/TypeCompat.thy ===== *)
theory TypeCompat
  imports Types Expr
begin

text \<open>
  The type checks of the compiler (\<open>reify-compiler/src/type_compat.rs\<close>):
  implicit conversion, compatibility, unification of a declared type with an
  argument type, and the result types of the operators.  The debug assertions
  that a target is never the error type are hypotheses where they matter.  A
  panic (overflow of an exponent in a build with overflow checks,
  \<open>unreachable!\<close>) is the outer \<open>None\<close>.
\<close>

section \<open>Conversions\<close>

fun is_scalar_like_leaf :: "Type \<Rightarrow> bool" where
  "is_scalar_like_leaf TBool \<longleftrightarrow> True"
| "is_scalar_like_leaf TInt \<longleftrightarrow> True"
| "is_scalar_like_leaf TString \<longleftrightarrow> True"
| "is_scalar_like_leaf (TScalar d) \<longleftrightarrow> True"
| "is_scalar_like_leaf (TEnum e) \<longleftrightarrow> True"
| "is_scalar_like_leaf (TTypeParam p) \<longleftrightarrow> True"
| "is_scalar_like_leaf (TStructureRef s) \<longleftrightarrow> True"
| "is_scalar_like_leaf (TTraitObject t) \<longleftrightarrow> True"
| "is_scalar_like_leaf TGeometry \<longleftrightarrow> True"
| "is_scalar_like_leaf _ \<longleftrightarrow> False"

text \<open>The arms for rank-0 tensors, in their order, when neither side is a vector or a matrix.\<close>

definition rank0_converts :: "Type \<Rightarrow> Type \<Rightarrow> bool" where
  "rank0_converts from_ty to_ty \<longleftrightarrow>
     (case (from_ty, to_ty) of
        (TTensor r1 n1 q1, TTensor r2 n2 q2) \<Rightarrow> r1 = 0 \<and> r2 = 0 \<and> is_scalar_like_leaf q1 \<and> q1 = q2
      | (_, TTensor r2 n2 q2) \<Rightarrow> r2 = 0 \<and> is_scalar_like_leaf from_ty \<and> from_ty = q2
      | (TTensor r1 n1 q1, _) \<Rightarrow> r1 = 0 \<and> is_scalar_like_leaf to_ty \<and> q1 = to_ty
      | _ \<Rightarrow> False)"

definition implicitly_converts_to :: "Type \<Rightarrow> Type \<Rightarrow> bool" where
  "implicitly_converts_to from_ty to_ty \<longleftrightarrow>
     is_error from_ty \<or> is_error to_ty \<or> from_ty = to_ty
     \<or> (case (from_ty, to_ty) of
          (TVector vn vq, TTensor r tn tq) \<Rightarrow> r = 1 \<and> vn = tn \<and> vq = tq
        | (TTensor r tn tq, TVector vn vq) \<Rightarrow> r = 1 \<and> tn = vn \<and> tq = vq
        | (TTensor r tn tq, TMatrix m mn mq) \<Rightarrow> r = 2 \<and> tn = m \<and> tn = mn \<and> tq = mq
        | _ \<Rightarrow> rank0_converts from_ty to_ty)"

definition type_compatible :: "Type \<Rightarrow> Type \<Rightarrow> bool" where
  "type_compatible param_ty arg_ty \<longleftrightarrow>
     is_error param_ty \<or> is_error arg_ty
     \<or> (case (param_ty, arg_ty) of
          (TScalar d, TInt) \<Rightarrow> is_dimensionless d
        | (TList inner, TSelector k) \<Rightarrow> inner = TGeometry
        | (TAnySelector, TSelector k) \<Rightarrow> True
        | _ \<Rightarrow> False)
     \<or> implicitly_converts_to param_ty arg_ty
     \<or> implicitly_converts_to arg_ty param_ty"

text \<open>An enum definition enters only by its name.\<close>

definition base_enum_name :: "Type \<Rightarrow> string list \<Rightarrow> string option" where
  "base_enum_name ty enum_defs =
     (case ty of
        TEnum name \<Rightarrow> Some name
      | TApplied name args \<Rightarrow> if name \<in> set enum_defs then Some name else None
      | _ \<Rightarrow> None)"

definition enum_payload_compatible :: "Type \<Rightarrow> Type \<Rightarrow> string list \<Rightarrow> bool" where
  "enum_payload_compatible declared supplied enum_defs \<longleftrightarrow>
     (case (base_enum_name declared enum_defs, supplied) of
        (Some dn, TEnum sn) \<Rightarrow> dn = sn
      | _ \<Rightarrow> False)"

definition fn_param_default_compatible :: "Type \<Rightarrow> Type \<Rightarrow> bool" where
  "fn_param_default_compatible param_ty default_ty \<longleftrightarrow>
     is_error param_ty \<or> is_error default_ty \<or> param_ty = default_ty"

definition constraint_arg_type_conforms :: "Type \<Rightarrow> Type \<Rightarrow> bool" where
  "constraint_arg_type_conforms param_ty arg_ty \<longleftrightarrow>
     (let numeric = (\<lambda>t. case t of TInt \<Rightarrow> True | TScalar d \<Rightarrow> True | TScalarParam p \<Rightarrow> True | _ \<Rightarrow> False) in
      is_error param_ty \<or> is_error arg_ty
      \<or> type_carries_type_param param_ty \<or> type_carries_trait_object param_ty
      \<or> type_compatible param_ty arg_ty
      \<or> (numeric param_ty \<and> numeric arg_ty))"

section \<open>Unification\<close>

fun type_mentions_conflicted_param :: "string set \<Rightarrow> Type \<Rightarrow> bool" where
  "type_mentions_conflicted_param conflicted (TTypeParam p) \<longleftrightarrow> p \<in> conflicted"
| "type_mentions_conflicted_param conflicted (TList t) \<longleftrightarrow> type_mentions_conflicted_param conflicted t"
| "type_mentions_conflicted_param conflicted (TSet t) \<longleftrightarrow> type_mentions_conflicted_param conflicted t"
| "type_mentions_conflicted_param conflicted (TKeyed t) \<longleftrightarrow> type_mentions_conflicted_param conflicted t"
| "type_mentions_conflicted_param conflicted (TOption t) \<longleftrightarrow> type_mentions_conflicted_param conflicted t"
| "type_mentions_conflicted_param conflicted (TComplex t) \<longleftrightarrow> type_mentions_conflicted_param conflicted t"
| "type_mentions_conflicted_param conflicted (TRange t) \<longleftrightarrow> type_mentions_conflicted_param conflicted t"
| "type_mentions_conflicted_param conflicted (TPoint n t) \<longleftrightarrow> type_mentions_conflicted_param conflicted t"
| "type_mentions_conflicted_param conflicted (TVector n t) \<longleftrightarrow> type_mentions_conflicted_param conflicted t"
| "type_mentions_conflicted_param conflicted (TTensor r n t) \<longleftrightarrow> type_mentions_conflicted_param conflicted t"
| "type_mentions_conflicted_param conflicted (TMatrix m n t) \<longleftrightarrow> type_mentions_conflicted_param conflicted t"
| "type_mentions_conflicted_param conflicted (TMap k v) \<longleftrightarrow>
     type_mentions_conflicted_param conflicted k \<or> type_mentions_conflicted_param conflicted v"
| "type_mentions_conflicted_param conflicted (TField k v) \<longleftrightarrow>
     type_mentions_conflicted_param conflicted k \<or> type_mentions_conflicted_param conflicted v"
| "type_mentions_conflicted_param conflicted (TFunction ps t) \<longleftrightarrow>
     list_ex (type_mentions_conflicted_param conflicted) ps \<or> type_mentions_conflicted_param conflicted t"
| "type_mentions_conflicted_param conflicted (TUnion ts) \<longleftrightarrow> list_ex (type_mentions_conflicted_param conflicted) ts"
| "type_mentions_conflicted_param conflicted (TApplied s ts) \<longleftrightarrow> list_ex (type_mentions_conflicted_param conflicted) ts"
| "type_mentions_conflicted_param conflicted (TProjection t s) \<longleftrightarrow> type_mentions_conflicted_param conflicted t"
| "type_mentions_conflicted_param conflicted _ \<longleftrightarrow> False"

type_synonym TypeSubst = "string \<rightharpoonup> Type"

datatype TypeArgConflict = TypeArgConflict (conflict_param: string) (existing: Type) (incoming: Type)

fun is_type_param :: "Type \<Rightarrow> bool" where
  "is_type_param (TTypeParam p) \<longleftrightarrow> True"
| "is_type_param _ \<longleftrightarrow> False"

text \<open>The arms for a type parameter and for a dimension parameter against a scalar.\<close>

definition bind_type_param :: "string \<Rightarrow> Type \<Rightarrow> TypeSubst \<Rightarrow> (TypeArgConflict + unit) \<times> TypeSubst" where
  "bind_type_param p arg subst =
     (case subst p of
        None \<Rightarrow> (Inr (), subst(p \<mapsto> arg))
      | Some ex \<Rightarrow>
          if ex = arg then (Inr (), subst)
          else if is_type_param ex \<and> \<not> is_type_param arg then (Inr (), subst(p \<mapsto> arg))
          else if \<not> is_type_param ex \<and> is_type_param arg then (Inr (), subst)
          else (Inl (TypeArgConflict p ex arg), subst))"

definition bind_dim_param :: "string \<Rightarrow> Type \<Rightarrow> TypeSubst \<Rightarrow> (TypeArgConflict + unit) \<times> TypeSubst" where
  "bind_dim_param p arg subst =
     (case subst p of
        None \<Rightarrow> (Inr (), subst(p \<mapsto> arg))
      | Some ex \<Rightarrow> if ex = arg then (Inr (), subst) else (Inl (TypeArgConflict p ex arg), subst))"

text \<open>The \<open>?\<close> operator: the substitution keeps what was bound before the conflict.\<close>

definition and_then ::
  "('e + unit) \<times> 's \<Rightarrow> ('s \<Rightarrow> ('e + unit) \<times> 's) \<Rightarrow> ('e + unit) \<times> 's" where
  "and_then r k = (case r of (Inl e, s) \<Rightarrow> (Inl e, s) | (Inr u, s) \<Rightarrow> k s)"

lemma and_then_simps [simp]:
  "and_then (Inr u, s) k = k s" "and_then (Inl e, s) k = (Inl e, s)"
  by (simp_all add: and_then_def)

lemma and_then_Ok: "and_then r k = (Inr u, t) \<longleftrightarrow> (\<exists>s. r = (Inr (), s) \<and> k s = (Inr u, t))"
  by (cases r; cases "fst r") auto

text \<open>\<open>unify_list\<close> is the \<open>for\<close> loop over the zipped arguments.\<close>

fun unify :: "Type \<Rightarrow> Type \<Rightarrow> TypeSubst \<Rightarrow> (TypeArgConflict + unit) \<times> TypeSubst"
and unify_list :: "Type list \<Rightarrow> Type list \<Rightarrow> TypeSubst \<Rightarrow> (TypeArgConflict + unit) \<times> TypeSubst" where
  "unify (TTypeParam p) arg subst = bind_type_param p arg subst"
| "unify (TScalarParam p) arg subst =
     (case arg of TScalar d \<Rightarrow> bind_dim_param p arg subst | _ \<Rightarrow> (Inr (), subst))"
| "unify (TList d) arg subst = (case arg of TList a \<Rightarrow> unify d a subst | _ \<Rightarrow> (Inr (), subst))"
| "unify (TSet d) arg subst = (case arg of TSet a \<Rightarrow> unify d a subst | _ \<Rightarrow> (Inr (), subst))"
| "unify (TKeyed d) arg subst = (case arg of TKeyed a \<Rightarrow> unify d a subst | _ \<Rightarrow> (Inr (), subst))"
| "unify (TOption d) arg subst = (case arg of TOption a \<Rightarrow> unify d a subst | _ \<Rightarrow> (Inr (), subst))"
| "unify (TComplex d) arg subst = (case arg of TComplex a \<Rightarrow> unify d a subst | _ \<Rightarrow> (Inr (), subst))"
| "unify (TRange d) arg subst = (case arg of TRange a \<Rightarrow> unify d a subst | _ \<Rightarrow> (Inr (), subst))"
| "unify (TMap d d') arg subst =
     (case arg of TMap a a' \<Rightarrow> and_then (unify d a subst) (unify d' a') | _ \<Rightarrow> (Inr (), subst))"
| "unify (TField d d') arg subst =
     (case arg of TField a a' \<Rightarrow> and_then (unify d a subst) (unify d' a') | _ \<Rightarrow> (Inr (), subst))"
| "unify (TFunction dp dr) arg subst =
     (case arg of
        TFunction ap ar \<Rightarrow>
          if length dp = length ap then and_then (unify_list dp ap subst) (unify dr ar) else (Inr (), subst)
      | _ \<Rightarrow> (Inr (), subst))"
| "unify (TPoint dn dq) arg subst =
     (case arg of TPoint an aq \<Rightarrow> if dn = an then unify dq aq subst else (Inr (), subst) | _ \<Rightarrow> (Inr (), subst))"
| "unify (TVector dn dq) arg subst =
     (case arg of TVector an aq \<Rightarrow> if dn = an then unify dq aq subst else (Inr (), subst) | _ \<Rightarrow> (Inr (), subst))"
| "unify (TTensor dr dn dq) arg subst =
     (case arg of
        TTensor ar an aq \<Rightarrow> if dr = ar \<and> dn = an then unify dq aq subst else (Inr (), subst)
      | _ \<Rightarrow> (Inr (), subst))"
| "unify (TMatrix dr dn dq) arg subst =
     (case arg of
        TMatrix ar an aq \<Rightarrow> if dr = ar \<and> dn = an then unify dq aq subst else (Inr (), subst)
      | _ \<Rightarrow> (Inr (), subst))"
| "unify (TUnion da) arg subst =
     (case arg of
        TUnion aa \<Rightarrow> if length da = length aa then unify_list da aa subst else (Inr (), subst)
      | _ \<Rightarrow> (Inr (), subst))"
| "unify (TApplied dn da) arg subst =
     (case arg of
        TApplied an aa \<Rightarrow> if dn = an \<and> length da = length aa then unify_list da aa subst else (Inr (), subst)
      | _ \<Rightarrow> (Inr (), subst))"
| "unify (TProjection db dm) arg subst =
     (case arg of
        TProjection ab am \<Rightarrow> if dm = am then unify db ab subst else (Inr (), subst)
      | _ \<Rightarrow> (Inr (), subst))"
| "unify TBool arg subst = (Inr (), subst)"
| "unify TInt arg subst = (Inr (), subst)"
| "unify TString arg subst = (Inr (), subst)"
| "unify (TScalar d) arg subst = (Inr (), subst)"
| "unify (TEnum e) arg subst = (Inr (), subst)"
| "unify (TStructureRef s) arg subst = (Inr (), subst)"
| "unify (TTraitObject s) arg subst = (Inr (), subst)"
| "unify TGeometry arg subst = (Inr (), subst)"
| "unify TFeature arg subst = (Inr (), subst)"
| "unify (TOrientation n) arg subst = (Inr (), subst)"
| "unify (TFrame n) arg subst = (Inr (), subst)"
| "unify (TTransform n) arg subst = (Inr (), subst)"
| "unify (TAffineMap n) arg subst = (Inr (), subst)"
| "unify TPlane arg subst = (Inr (), subst)"
| "unify TAxis arg subst = (Inr (), subst)"
| "unify TDirection arg subst = (Inr (), subst)"
| "unify TRelation arg subst = (Inr (), subst)"
| "unify TBoundingBox arg subst = (Inr (), subst)"
| "unify (TSelector k) arg subst = (Inr (), subst)"
| "unify TAnySelector arg subst = (Inr (), subst)"
| "unify TError arg subst = (Inr (), subst)"
| "unify_list (d # ds) (a # args) subst = and_then (unify d a subst) (unify_list ds args)"
| "unify_list ds args subst = (Inr (), subst)"

text \<open>\<open>type_resolution::substitute_type_params\<close>\<close>

fun substitute_type_params :: "TypeSubst \<Rightarrow> Type \<Rightarrow> Type" where
  "substitute_type_params subst (TTypeParam name) = (case subst name of Some t \<Rightarrow> t | None \<Rightarrow> TTypeParam name)"
| "substitute_type_params subst (TScalarParam name) = (case subst name of Some t \<Rightarrow> t | None \<Rightarrow> TScalarParam name)"
| "substitute_type_params subst (TList t) = TList (substitute_type_params subst t)"
| "substitute_type_params subst (TSet t) = TSet (substitute_type_params subst t)"
| "substitute_type_params subst (TKeyed t) = TKeyed (substitute_type_params subst t)"
| "substitute_type_params subst (TOption t) = TOption (substitute_type_params subst t)"
| "substitute_type_params subst (TComplex t) = TComplex (substitute_type_params subst t)"
| "substitute_type_params subst (TRange t) = TRange (substitute_type_params subst t)"
| "substitute_type_params subst (TPoint n t) = TPoint n (substitute_type_params subst t)"
| "substitute_type_params subst (TVector n t) = TVector n (substitute_type_params subst t)"
| "substitute_type_params subst (TTensor r n t) = TTensor r n (substitute_type_params subst t)"
| "substitute_type_params subst (TMatrix m n t) = TMatrix m n (substitute_type_params subst t)"
| "substitute_type_params subst (TMap k v) = TMap (substitute_type_params subst k) (substitute_type_params subst v)"
| "substitute_type_params subst (TField k v) = TField (substitute_type_params subst k) (substitute_type_params subst v)"
| "substitute_type_params subst (TFunction ps t) =
     TFunction (map (substitute_type_params subst) ps) (substitute_type_params subst t)"
| "substitute_type_params subst (TUnion ts) = TUnion (map (substitute_type_params subst) ts)"
| "substitute_type_params subst (TApplied name ts) = TApplied name (map (substitute_type_params subst) ts)"
| "substitute_type_params subst (TProjection t m) = TProjection (substitute_type_params subst t) m"
| "substitute_type_params subst ty = ty"

section \<open>Operators\<close>

definition is_comparison_op :: "string \<Rightarrow> bool" where
  "is_comparison_op s \<longleftrightarrow> s \<in> {''<'', ''<='', ''>'', ''>='', ''=='', ''!=''}"

definition BINOPS :: "(string \<times> BinOp) list" where
  "BINOPS =
     [(''+'', Add), (''-'', Sub), (''*'', Mul), (''/'', Div), (''%'', Mod), (''**'', Pow), (''^'', Pow),
      (''=='', Eq), (''!='', Ne), (''<'', Lt), (''<='', Le), (''>'', Gt), (''>='', Ge),
      (''&&'', And), (''and'', And), (''||'', Or), (''or'', Or), (''implies'', Implies)]"

definition resolve_binop :: "string \<Rightarrow> BinOp option" where
  "resolve_binop s = map_of BINOPS s"

definition resolve_unop :: "string \<Rightarrow> UnOp option" where
  "resolve_unop s = (if s = ''-'' then Some Neg else if s = ''!'' \<or> s = ''not'' then Some Not else None)"

definition modulo_operands_are_int :: "Type \<Rightarrow> Type \<Rightarrow> bool" where
  "modulo_operands_are_int left right \<longleftrightarrow> left = TInt \<and> right = TInt"

fun is_orderable_scalar :: "Type \<Rightarrow> bool" where
  "is_orderable_scalar TInt \<longleftrightarrow> True"
| "is_orderable_scalar (TScalar d) \<longleftrightarrow> True"
| "is_orderable_scalar (TScalarParam p) \<longleftrightarrow> True"
| "is_orderable_scalar _ \<longleftrightarrow> False"

fun is_equatable_kind :: "Type \<Rightarrow> bool" where
  "is_equatable_kind TBool \<longleftrightarrow> True"
| "is_equatable_kind TInt \<longleftrightarrow> True"
| "is_equatable_kind TString \<longleftrightarrow> True"
| "is_equatable_kind (TScalar d) \<longleftrightarrow> True"
| "is_equatable_kind (TScalarParam p) \<longleftrightarrow> True"
| "is_equatable_kind (TEnum e) \<longleftrightarrow> True"
| "is_equatable_kind (TFrame n) \<longleftrightarrow> True"
| "is_equatable_kind _ \<longleftrightarrow> False"

fun is_mul_div_scalar_like :: "Type \<Rightarrow> bool" where
  "is_mul_div_scalar_like TInt \<longleftrightarrow> True"
| "is_mul_div_scalar_like (TScalar d) \<longleftrightarrow> True"
| "is_mul_div_scalar_like _ \<longleftrightarrow> False"

definition is_dimensionless_numeric :: "Type \<Rightarrow> bool" where
  "is_dimensionless_numeric ty \<longleftrightarrow>
     ty = TInt \<or> (case ty of TScalar d \<Rightarrow> is_dimensionless d | _ \<Rightarrow> False)"

definition is_dimensionless_complex :: "Type \<Rightarrow> bool" where
  "is_dimensionless_complex ty \<longleftrightarrow>
     (case ty of TComplex q \<Rightarrow> (case q of TScalar d \<Rightarrow> is_dimensionless d | _ \<Rightarrow> False) | _ \<Rightarrow> False)"

definition is_dimensioned_complex :: "Type \<Rightarrow> bool" where
  "is_dimensioned_complex ty \<longleftrightarrow>
     (case ty of TComplex q \<Rightarrow> (case q of TScalar d \<Rightarrow> \<not> is_dimensionless d | _ \<Rightarrow> False) | _ \<Rightarrow> False)"

definition is_dimensioned_scalar :: "Type \<Rightarrow> bool" where
  "is_dimensioned_scalar ty \<longleftrightarrow> (case ty of TScalar d \<Rightarrow> \<not> is_dimensionless d | _ \<Rightarrow> False)"

definition complex_complex_dimension_mismatch :: "Type \<Rightarrow> Type \<Rightarrow> bool" where
  "complex_complex_dimension_mismatch left right \<longleftrightarrow>
     (case (left, right) of
        (TComplex lq, TComplex rq) \<Rightarrow>
          (case (lq, rq) of (TScalar ld, TScalar rd) \<Rightarrow> ld \<noteq> rd | _ \<Rightarrow> False)
      | _ \<Rightarrow> False)"

definition add_sub_dimensioned_complex_reject :: "Type \<Rightarrow> Type \<Rightarrow> bool" where
  "add_sub_dimensioned_complex_reject left right \<longleftrightarrow>
     (is_dimensioned_complex left \<and> is_dimensionless_numeric right)
     \<or> (is_dimensionless_numeric left \<and> is_dimensioned_complex right)
     \<or> (is_dimensioned_complex left \<and> is_dimensioned_scalar right)
     \<or> (is_dimensioned_scalar left \<and> is_dimensioned_complex right)
     \<or> complex_complex_dimension_mismatch left right"

text \<open>The \<open>match op\<close> on dimensions, whose other arm is unreachable.\<close>

definition mul_div_dim :: "bool \<Rightarrow> BinOp \<Rightarrow> DimensionVector \<Rightarrow> DimensionVector \<Rightarrow> DimensionVector option" where
  "mul_div_dim checked bop a b =
     (case bop of Mul \<Rightarrow> dim_mul checked a b | Div \<Rightarrow> dim_div checked a b | _ \<Rightarrow> None)"

definition some_scalar :: "DimensionVector option \<Rightarrow> Type option option" where
  "some_scalar d = map_option (\<lambda>d. Some (TScalar d)) d"

definition some_complex :: "DimensionVector option \<Rightarrow> Type option option" where
  "some_complex d = map_option (\<lambda>d. Some (TComplex (TScalar d))) d"

definition wrap_quantity :: "(Type \<Rightarrow> Type) \<Rightarrow> Type option option \<Rightarrow> Type option option" where
  "wrap_quantity f r = map_option (map_option f) r"

text \<open>By the constructor of the left operand; the arms are disjoint.\<close>

fun infer_mul_div_result :: "bool \<Rightarrow> BinOp \<Rightarrow> Type \<Rightarrow> Type \<Rightarrow> Type option option" where
  "infer_mul_div_result checked bop TInt right =
     (case right of
        TInt \<Rightarrow> Some (Some TInt)
      | TScalar d \<Rightarrow>
          some_scalar (case bop of Mul \<Rightarrow> Some d | Div \<Rightarrow> dim_div checked DIMENSIONLESS d | _ \<Rightarrow> None)
      | TScalarParam name \<Rightarrow> Some (if bop = Mul then Some (TScalarParam name) else None)
      | TVector n q \<Rightarrow>
          if bop = Mul then wrap_quantity (TVector n) (infer_mul_div_result checked bop q TInt) else Some None
      | TPoint n q \<Rightarrow>
          if bop = Mul then wrap_quantity (TPoint n) (infer_mul_div_result checked bop q TInt) else Some None
      | TTensor r n q \<Rightarrow>
          if bop = Mul then wrap_quantity (TTensor r n) (infer_mul_div_result checked bop q TInt) else Some None
      | TComplex q \<Rightarrow> Some (if bop = Mul then Some (TComplex q) else None)
      | _ \<Rightarrow> Some None)"
| "infer_mul_div_result checked bop (TScalar ld) right =
     (case right of
        TInt \<Rightarrow> Some (Some (TScalar ld))
      | TScalar rd \<Rightarrow> some_scalar (mul_div_dim checked bop ld rd)
      | TScalarParam name \<Rightarrow>
          Some (if bop = Mul \<and> is_dimensionless ld then Some (TScalarParam name) else None)
      | TVector n q \<Rightarrow>
          if bop = Mul then wrap_quantity (TVector n) (infer_mul_div_result checked bop q (TScalar ld)) else Some None
      | TPoint n q \<Rightarrow>
          if bop = Mul then wrap_quantity (TPoint n) (infer_mul_div_result checked bop q (TScalar ld)) else Some None
      | TTensor r n q \<Rightarrow>
          if bop = Mul then wrap_quantity (TTensor r n) (infer_mul_div_result checked bop q (TScalar ld)) else Some None
      | TComplex q \<Rightarrow>
          if bop = Mul then (case q of TScalar cd \<Rightarrow> some_complex (dim_mul checked cd ld) | _ \<Rightarrow> Some None)
          else Some None
      | _ \<Rightarrow> Some None)"
| "infer_mul_div_result checked bop (TScalarParam name) right =
     (case right of
        TInt \<Rightarrow> Some (Some (TScalarParam name))
      | TScalar d \<Rightarrow> Some (if is_dimensionless d then Some (TScalarParam name) else None)
      | _ \<Rightarrow> Some None)"
| "infer_mul_div_result checked bop (TVector n q) right =
     (if is_mul_div_scalar_like right
      then wrap_quantity (TVector n) (infer_mul_div_result checked bop q right) else Some None)"
| "infer_mul_div_result checked bop (TPoint n q) right =
     (if is_mul_div_scalar_like right
      then wrap_quantity (TPoint n) (infer_mul_div_result checked bop q right) else Some None)"
| "infer_mul_div_result checked bop (TTensor r n q) right =
     (if is_mul_div_scalar_like right
      then wrap_quantity (TTensor r n) (infer_mul_div_result checked bop q right) else Some None)"
| "infer_mul_div_result checked bop (TComplex lq) right =
     (case right of
        TComplex rq \<Rightarrow>
          (case (lq, rq) of
             (TScalar ld, TScalar rd) \<Rightarrow> some_complex (mul_div_dim checked bop ld rd)
           | _ \<Rightarrow> Some None)
      | TScalar sd \<Rightarrow>
          (case lq of TScalar cd \<Rightarrow> some_complex (mul_div_dim checked bop cd sd) | _ \<Rightarrow> Some None)
      | TInt \<Rightarrow> Some (Some (TComplex lq))
      | _ \<Rightarrow> Some None)"
| "infer_mul_div_result checked bop (TTransform n1) right =
     (case right of
        TVector n2 q \<Rightarrow> Some (if bop = Mul \<and> n1 = n2 then Some (TVector n2 q) else None)
      | TPoint n2 q \<Rightarrow> Some (if bop = Mul \<and> n1 = n2 then Some (TPoint n2 q) else None)
      | TTransform n2 \<Rightarrow> Some (if bop = Mul \<and> n1 = n2 then Some (TTransform n1) else None)
      | _ \<Rightarrow> Some None)"
| "infer_mul_div_result checked bop _ right = Some None"

fun is_mul_div_gradualism_skip :: "Type \<Rightarrow> bool" where
  "is_mul_div_gradualism_skip TError \<longleftrightarrow> True"
| "is_mul_div_gradualism_skip (TTypeParam p) \<longleftrightarrow> True"
| "is_mul_div_gradualism_skip (TProjection b m) \<longleftrightarrow> True"
| "is_mul_div_gradualism_skip (TScalarParam p) \<longleftrightarrow> True"
| "is_mul_div_gradualism_skip _ \<longleftrightarrow> False"

definition mul_div_result_or_placeholder :: "Type option \<Rightarrow> Type \<Rightarrow> Type \<Rightarrow> Type" where
  "mul_div_result_or_placeholder inferred left right =
     (case inferred of
        Some t \<Rightarrow> t
      | None \<Rightarrow>
          if is_error left \<or> is_error right then TError
          else if is_mul_div_gradualism_skip left then left
          else if is_mul_div_gradualism_skip right then right
          else TInt)"

definition is_arithmetic :: "BinOp \<Rightarrow> bool" where
  "is_arithmetic bop \<longleftrightarrow> bop \<in> {Add, Sub, Mul, Div, Mod, Pow}"

definition infer_binop_type :: "bool \<Rightarrow> BinOp \<Rightarrow> Type \<Rightarrow> Type \<Rightarrow> Type option" where
  "infer_binop_type checked bop left right =
     (if is_error left \<or> is_error right then Some TError
      else if is_arithmetic bop \<and> is_type_param left then Some left
      else if is_arithmetic bop \<and> is_type_param right then Some right
      else if bop \<in> {Add, Sub} then
        Some (if is_dimensionless_complex left \<and> is_dimensionless_numeric right then left
              else if is_dimensionless_numeric left \<and> is_dimensionless_complex right then right
              else left)
      else if bop \<in> {Mul, Div} then
        map_option (\<lambda>r. mul_div_result_or_placeholder r left right) (infer_mul_div_result checked bop left right)
      else if bop = Mod \<or> bop = Pow then Some left
      else Some TBool)"

end
