(* ===== verification/Overload.thy ===== *)
theory Overload
  imports TypeCompat
begin

text \<open>
  Overload resolution, once at compile time
  (\<open>resolve_function_overload\<close> and \<open>try_default_padding\<close> of \<open>type_compat.rs\<close>,
  \<open>coerce.rs\<close>, the call arm of \<open>compile_expr\<close>) and again at evaluation
  (\<open>reify-expr::find_matching_compiled_function\<close>).  Annotations are opaque.
\<close>

section \<open>Functions\<close>

datatype TraitRef = TraitRef (trait_name: string) (type_args: "Type list")

datatype TraitBound = TraitBound (trait_ref: TraitRef)

datatype TypeParam = TypeParam (tp_name: string) (bounds: "TraitBound list") (tp_default: "Type option")

record 'v CompiledFnBody =
  let_bindings :: "(string \<times> ('v, Type) CompiledExpr) list"
  result_expr :: "('v, Type) CompiledExpr"

record ('v, 'a) CompiledFunction =
  name :: string
  doc :: "string option"
  is_pub :: bool
  params :: "(string \<times> Type) list"
  param_defaults :: "('v, Type) CompiledExpr option list"
  return_type :: Type
  body :: "'v CompiledFnBody"
  content_hash :: ContentHash
  annotations :: "'a list"
  optimized_target :: "string option"
  type_params :: "TypeParam list"

definition no_defaults_for :: "(string \<times> Type) list \<Rightarrow> ('v, Type) CompiledExpr option list" where
  "no_defaults_for ps = replicate (length ps) None"

definition format_fn_signature :: "('v, 'a) CompiledFunction \<Rightarrow> string" where
  "format_fn_signature f =
     name f @ ''('' @ join '', '' (map (\<lambda>(x, t). show_type t) (params f)) @ '') -> '' @ show_type (return_type f)"

section \<open>Resolution at compile time\<close>

datatype ('v, 'a) OverloadResolution =
    Resolved "('v, 'a) CompiledFunction"
  | NoUserFunctions
  | NoMatch "('v, 'a) CompiledFunction list"
  | Ambiguous "('v, 'a) CompiledFunction list"

definition is_generic :: "('v, 'a) CompiledFunction \<Rightarrow> bool" where
  "is_generic f \<longleftrightarrow> type_params f \<noteq> []"

text \<open>\<open>f.params.iter().zip(arg_types).all(..)\<close>\<close>

definition all_slots :: "(Type \<Rightarrow> Type \<Rightarrow> bool) \<Rightarrow> ('v, 'a) CompiledFunction \<Rightarrow> Type list \<Rightarrow> bool" where
  "all_slots slot f arg_types = list_all (\<lambda>((x, param_ty), arg_ty). slot param_ty arg_ty) (zip (params f) arg_types)"

definition exact :: "('v, 'a) CompiledFunction \<Rightarrow> Type list \<Rightarrow> bool" where
  "exact f arg_types = all_slots (\<lambda>p a. p = a) f arg_types"

definition wildcard :: "('v, 'a) CompiledFunction \<Rightarrow> Type list \<Rightarrow> bool" where
  "wildcard f arg_types = all_slots (\<lambda>p a. slot_matches_wildcard_tier p a (is_generic f)) f arg_types"

definition head :: "('v, 'a) CompiledFunction \<Rightarrow> Type list \<Rightarrow> bool" where
  "head f arg_types = all_slots (\<lambda>p a. slot_matches_head_tier p a (is_generic f)) f arg_types"

definition resolve_function_overload ::
  "string \<Rightarrow> Type list \<Rightarrow> ('v, 'a) CompiledFunction list \<Rightarrow> ('v, 'a) OverloadResolution" where
  "resolve_function_overload nm arg_types functions =
     (let named = filter (\<lambda>f. name f = nm) functions in
      if named = [] then NoUserFunctions
      else
        let matching = filter (\<lambda>f. length (params f) = length arg_types \<and> wildcard f arg_types) named;
          exact_matches = filter (\<lambda>f. exact f arg_types) matching;
          head_matches = filter (\<lambda>f. head f arg_types) matching;
          resolved = (if exact_matches \<noteq> [] then exact_matches
                      else if head_matches \<noteq> [] then head_matches else matching)
        in (case resolved of
              [] \<Rightarrow> NoMatch named
            | [f] \<Rightarrow> Resolved f
            | _ \<Rightarrow> Ambiguous resolved))"

section \<open>Resolution at evaluation\<close>

text \<open>The single scan over the functions of the name and arity.\<close>

fun scan_candidates ::
  "Type list \<Rightarrow> ('v, 'a) CompiledFunction option \<Rightarrow> ('v, 'a) CompiledFunction option
     \<Rightarrow> ('v, 'a) CompiledFunction list \<Rightarrow> ('v, 'a) CompiledFunction option" where
  "scan_candidates tys first_head first_wildcard [] =
     (case first_head of Some f \<Rightarrow> Some f | None \<Rightarrow> first_wildcard)"
| "scan_candidates tys first_head first_wildcard (f # fs) =
     (if exact f tys then Some f
      else if first_head = None \<and> wildcard f tys then
        if head f tys then scan_candidates tys (Some f) first_wildcard fs
        else if first_wildcard = None then scan_candidates tys first_head (Some f) fs
        else scan_candidates tys first_head first_wildcard fs
      else scan_candidates tys first_head first_wildcard fs)"

definition find_matching_compiled_function ::
  "('v, 'a) CompiledFunction list \<Rightarrow> string \<Rightarrow> ('v, Type) CompiledExpr list \<Rightarrow> ('v, 'a) CompiledFunction option" where
  "find_matching_compiled_function fns nm args =
     scan_candidates (map expr_type args) None None
       (filter (\<lambda>f. name f = nm \<and> length (params f) = length args) fns)"

section \<open>Defaults\<close>

text \<open>
  The candidates that the trailing defaults complete.  A candidate whose list of
  defaults is not as long as its parameters is skipped.
\<close>

definition satisfiable ::
  "('v, 'a) CompiledFunction list \<Rightarrow> Type list
     \<Rightarrow> (('v, 'a) CompiledFunction \<times> ('v, Type) CompiledExpr list) list" where
  "satisfiable named arg_types =
     concat (map (\<lambda>cand.
       if length (params cand) \<le> length arg_types then []
       else if length (param_defaults cand) \<noteq> length (params cand) then []
       else if \<not> wildcard cand arg_types then []
       else case those (drop (length arg_types) (param_defaults cand)) of
              Some defaults \<Rightarrow> [(cand, defaults)]
            | None \<Rightarrow> []) named)"

definition exact_slots :: "Type list \<Rightarrow> ('v, 'a) CompiledFunction \<Rightarrow> nat" where
  "exact_slots arg_types cand =
     sum_list (map (\<lambda>((x, param_ty), arg_ty). if param_ty = arg_ty then 1 else 0) (zip (params cand) arg_types))"

definition try_default_padding ::
  "('v, 'a) CompiledFunction list \<Rightarrow> Type list
     \<Rightarrow> (('v, 'a) CompiledFunction \<times> ('v, Type) CompiledExpr list) option" where
  "try_default_padding named arg_types =
     (case satisfiable named arg_types of
        [] \<Rightarrow> None
      | [entry] \<Rightarrow> Some entry
      | entries \<Rightarrow>
          let scored = map (\<lambda>(cand, defaults). (exact_slots arg_types cand, (cand, defaults))) entries;
            max_score = fold max (map fst scored) 0;
            winners = map snd (filter (\<lambda>(s, e). s = max_score) scored)
          in (case winners of [w] \<Rightarrow> Some w | _ \<Rightarrow> None))"

section \<open>Selectors as lists of geometry\<close>

definition is_list_geometry :: "Type \<Rightarrow> bool" where
  "is_list_geometry ty \<longleftrightarrow> ty = TList TGeometry"

fun is_selector :: "Type \<Rightarrow> bool" where
  "is_selector (TSelector k) \<longleftrightarrow> True"
| "is_selector _ \<longleftrightarrow> False"

definition selector_coerces_to_param :: "Type \<Rightarrow> Type \<Rightarrow> bool" where
  "selector_coerces_to_param param_ty arg_ty \<longleftrightarrow>
     is_list_geometry param_ty \<and> is_selector arg_ty \<and> type_compatible param_ty arg_ty"

definition resolve_selector ::
  "(u8 list \<Rightarrow> ContentHash) \<Rightarrow> ('v, Type) CompiledExpr \<Rightarrow> ('v, Type) CompiledExpr" where
  "resolve_selector xxh selector =
     CompiledExpr (ResolveSelector selector) (TList TGeometry)
       (hash_combine xxh (hash_of xxh [28]) (expr_hash selector))"

definition coerce_selector_arg ::
  "(u8 list \<Rightarrow> ContentHash) \<Rightarrow> ('v, Type) CompiledExpr \<Rightarrow> Type \<Rightarrow> ('v, Type) CompiledExpr" where
  "coerce_selector_arg xxh arg param_ty =
     (if selector_coerces_to_param param_ty (expr_type arg) then resolve_selector xxh arg else arg)"

definition COERCING_LIST_HELPERS :: "string list" where
  "COERCING_LIST_HELPERS = [''single'']"

definition coerce_list_helper_args ::
  "(u8 list \<Rightarrow> ContentHash) \<Rightarrow> string \<Rightarrow> ('v, Type) CompiledExpr list \<Rightarrow> ('v, Type) CompiledExpr list" where
  "coerce_list_helper_args xxh nm args =
     (if nm \<notin> set COERCING_LIST_HELPERS then args
      else map (\<lambda>(i, arg). if i = 0 then coerce_selector_arg xxh arg (TList TGeometry) else arg)
        (enumerate 0 args))"

text \<open>
  The flag is set on the slots that \<open>all\<close> visits; when all of them match it has
  visited every one.
\<close>

definition is_selector_kind_mismatch_nomatch :: "('v, 'a) CompiledFunction list \<Rightarrow> Type list \<Rightarrow> bool" where
  "is_selector_kind_mismatch_nomatch named arg_types \<longleftrightarrow>
     (let mismatch = (\<lambda>p a. is_selector p \<and> is_selector a \<and> p \<noteq> a) in
      list_ex (\<lambda>f.
        \<not> is_generic f \<and> length (params f) = length arg_types
        \<and> all_slots (\<lambda>p a. mismatch p a \<or> p = a) f arg_types
        \<and> \<not> all_slots (\<lambda>p a. \<not> mismatch p a) f arg_types) named)"

definition try_selector_coerced_overload ::
  "('v, 'a) CompiledFunction list \<Rightarrow> Type list \<Rightarrow> ('v, 'a) CompiledFunction option" where
  "try_selector_coerced_overload named arg_types =
     (if \<not> list_ex is_selector arg_types then None
      else case filter (\<lambda>f. \<not> is_generic f \<and> length (params f) = length arg_types
               \<and> all_slots (\<lambda>p a. p = a \<or> selector_coerces_to_param p a) f arg_types) named of
             [f] \<Rightarrow> Some f
           | _ \<Rightarrow> None)"

section \<open>The call\<close>

text \<open>The diagnostics of a call, with the code and the parts of the message.\<close>

datatype CallError =
    ConflictingTypeArguments bool TypeArgConflict
  | FnTypeArgUnresolved string
  | AmbiguousCall "string list"
  | SelectorKindMismatch "string list"
  | NoMatchingOverload "string list"

definition is_fallback_combinator :: "string \<Rightarrow> bool" where
  "is_fallback_combinator nm \<longleftrightarrow> nm \<in> {''unwrap_or'', ''or_default'', ''fallback'', ''get_or''}"

definition instantiate_return_type ::
  "bool \<Rightarrow> Type list \<Rightarrow> Type \<Rightarrow> string \<Rightarrow> Type list \<Rightarrow> CallError + Type" where
  "instantiate_return_type generic declared_params declared_return call_name arg_types =
     (if \<not> generic then Inr declared_return
      else case unify_list declared_params arg_types Map.empty of
             (Inl conflict, subst) \<Rightarrow>
               Inl (ConflictingTypeArguments (is_fallback_combinator call_name) conflict)
           | (Inr u, subst) \<Rightarrow>
               (case substitute_type_params subst declared_return of
                  TTypeParam p \<Rightarrow> Inl (FnTypeArgUnresolved call_name)
                | TScalarParam p \<Rightarrow> Inl (FnTypeArgUnresolved call_name)
                | substituted \<Rightarrow> Inr substituted))"

definition instantiate_call_return_type ::
  "('v, 'a) CompiledFunction \<Rightarrow> string \<Rightarrow> Type list \<Rightarrow> CallError + Type" where
  "instantiate_call_return_type callee call_name arg_types =
     instantiate_return_type (is_generic callee) (map snd (params callee)) (return_type callee) call_name arg_types"

definition build_user_function_call_expr ::
  "(u8 list \<Rightarrow> ContentHash) \<Rightarrow> string \<Rightarrow> ('v, Type) CompiledExpr list \<Rightarrow> Type \<Rightarrow> ('v, Type) CompiledExpr" where
  "build_user_function_call_expr xxh nm args ret =
     CompiledExpr (UserFunctionCall nm args) ret
       (foldl (\<lambda>h arg. hash_combine xxh h (expr_hash arg))
         (hash_combine xxh (hash_of xxh [6]) (hash_of_str xxh nm)) args)"

text \<open>
  The arms of a call to a named function, without the deprecation warnings.
  \<open>None\<close> is the arm for a name no user function has, which tries the
  intrinsics and the built-in functions.
\<close>

definition compile_user_call ::
  "(u8 list \<Rightarrow> ContentHash) \<Rightarrow> string \<Rightarrow> ('v, Type) CompiledExpr list \<Rightarrow> ('v, 'a) CompiledFunction list
     \<Rightarrow> (CallError + ('v, Type) CompiledExpr) option" where
  "compile_user_call xxh nm compiled_args functions =
     (let arg_types = map expr_type compiled_args;
        finish = (\<lambda>f args. map_sum id (build_user_function_call_expr xxh nm args)
          (instantiate_call_return_type f nm arg_types))
      in case resolve_function_overload nm arg_types functions of
        Resolved matched_fn \<Rightarrow> Some (finish matched_fn compiled_args)
      | Ambiguous candidates \<Rightarrow> Some (Inl (AmbiguousCall (map format_fn_signature candidates)))
      | NoMatch named \<Rightarrow> Some
          (case try_default_padding named arg_types of
             Some (padded_fn, default_exprs) \<Rightarrow> finish padded_fn (compiled_args @ default_exprs)
           | None \<Rightarrow>
               (case try_selector_coerced_overload named arg_types of
                  Some matched_fn \<Rightarrow>
                    finish matched_fn
                      (map (\<lambda>(arg, x, param_ty). coerce_selector_arg xxh arg param_ty)
                        (zip compiled_args (params matched_fn)))
                | None \<Rightarrow>
                    Inl ((if is_selector_kind_mismatch_nomatch named arg_types
                          then SelectorKindMismatch else NoMatchingOverload)
                      (map format_fn_signature named))))
      | NoUserFunctions \<Rightarrow> None)"

end
