(* ===== verification/TypeLaws.thy ===== *)
theory TypeLaws
  imports TypeCompat
begin

text \<open>
  What the type checks guarantee: unification finds the matching substitution,
  implicit conversion is equality of canonical forms, multiplication of
  types commutes.
\<close>

section \<open>Unification\<close>

text \<open>
  The parameters of a declared type, and the substitutions that instantiate it:
  every type parameter is bound, every dimension parameter to a scalar.
\<close>

fun type_vars :: "Type \<Rightarrow> string set" where
  "type_vars (TTypeParam p) = {p}"
| "type_vars (TScalarParam p) = {p}"
| "type_vars (TList t) = type_vars t"
| "type_vars (TSet t) = type_vars t"
| "type_vars (TKeyed t) = type_vars t"
| "type_vars (TOption t) = type_vars t"
| "type_vars (TComplex t) = type_vars t"
| "type_vars (TRange t) = type_vars t"
| "type_vars (TPoint n t) = type_vars t"
| "type_vars (TVector n t) = type_vars t"
| "type_vars (TTensor r n t) = type_vars t"
| "type_vars (TMatrix m n t) = type_vars t"
| "type_vars (TProjection t m) = type_vars t"
| "type_vars (TMap k v) = type_vars k \<union> type_vars v"
| "type_vars (TField k v) = type_vars k \<union> type_vars v"
| "type_vars (TFunction ts t) = (\<Union>t\<in>set ts. type_vars t) \<union> type_vars t"
| "type_vars (TUnion ts) = (\<Union>t\<in>set ts. type_vars t)"
| "type_vars (TApplied s ts) = (\<Union>t\<in>set ts. type_vars t)"
| "type_vars _ = {}"

fun instantiates :: "TypeSubst \<Rightarrow> Type \<Rightarrow> bool" where
  "instantiates subst (TTypeParam p) \<longleftrightarrow> p \<in> dom subst"
| "instantiates subst (TScalarParam p) \<longleftrightarrow> (\<exists>d. subst p = Some (TScalar d))"
| "instantiates subst (TList t) \<longleftrightarrow> instantiates subst t"
| "instantiates subst (TSet t) \<longleftrightarrow> instantiates subst t"
| "instantiates subst (TKeyed t) \<longleftrightarrow> instantiates subst t"
| "instantiates subst (TOption t) \<longleftrightarrow> instantiates subst t"
| "instantiates subst (TComplex t) \<longleftrightarrow> instantiates subst t"
| "instantiates subst (TRange t) \<longleftrightarrow> instantiates subst t"
| "instantiates subst (TPoint n t) \<longleftrightarrow> instantiates subst t"
| "instantiates subst (TVector n t) \<longleftrightarrow> instantiates subst t"
| "instantiates subst (TTensor r n t) \<longleftrightarrow> instantiates subst t"
| "instantiates subst (TMatrix m n t) \<longleftrightarrow> instantiates subst t"
| "instantiates subst (TProjection t m) \<longleftrightarrow> instantiates subst t"
| "instantiates subst (TMap k v) \<longleftrightarrow> instantiates subst k \<and> instantiates subst v"
| "instantiates subst (TField k v) \<longleftrightarrow> instantiates subst k \<and> instantiates subst v"
| "instantiates subst (TFunction ts t) \<longleftrightarrow> (\<forall>t\<in>set ts. instantiates subst t) \<and> instantiates subst t"
| "instantiates subst (TUnion ts) \<longleftrightarrow> (\<forall>t\<in>set ts. instantiates subst t)"
| "instantiates subst (TApplied s ts) \<longleftrightarrow> (\<forall>t\<in>set ts. instantiates subst t)"
| "instantiates subst _ \<longleftrightarrow> True"

lemma restrict_le [simp]: "\<sigma> \<subseteq>\<^sub>m \<theta> \<Longrightarrow> \<sigma> ++ \<theta> |` A \<subseteq>\<^sub>m \<theta>"
  by (auto simp: map_le_def map_add_def restrict_map_def dom_def split: option.splits)

lemma restrict_union [simp]: "(\<sigma> ++ \<theta> |` A) ++ \<theta> |` B = \<sigma> ++ \<theta> |` (A \<union> B)"
  by (rule ext) (auto simp: map_add_def restrict_map_def split: option.splits)

lemma agrees: "\<sigma> \<subseteq>\<^sub>m \<theta> \<Longrightarrow> \<sigma> p = Some ex \<Longrightarrow> \<theta> p = Some ex"
  by (auto simp: map_le_def dom_def)

lemma restrict_single:
  assumes "\<sigma> \<subseteq>\<^sub>m \<theta>" "\<theta> p = Some t"
  shows "(case \<sigma> p of None \<Rightarrow> \<sigma>(p \<mapsto> t) | Some ex \<Rightarrow> \<sigma>) = \<sigma> ++ \<theta> |` {p}"
  using assms agrees [OF assms(1), of p]
  by (intro ext) (auto simp: map_add_def restrict_map_def split: option.splits)

lemma bind_type_param_agrees:
  "\<sigma> \<subseteq>\<^sub>m \<theta> \<Longrightarrow> \<theta> p = Some t \<Longrightarrow> bind_type_param p t \<sigma> = (Inr (), \<sigma> ++ \<theta> |` {p})"
  using restrict_single [of \<sigma> \<theta> p t] agrees [of \<sigma> \<theta> p] by (auto simp: bind_type_param_def split: option.split)

lemma bind_dim_param_agrees:
  "\<sigma> \<subseteq>\<^sub>m \<theta> \<Longrightarrow> \<theta> p = Some t \<Longrightarrow> bind_dim_param p t \<sigma> = (Inr (), \<sigma> ++ \<theta> |` {p})"
  using restrict_single [of \<sigma> \<theta> p t] agrees [of \<sigma> \<theta> p] by (auto simp: bind_dim_param_def split: option.split)

definition matches_own_instance :: "TypeSubst \<Rightarrow> Type \<Rightarrow> bool" where
  "matches_own_instance \<theta> d \<longleftrightarrow>
     (\<forall>\<sigma>. instantiates \<theta> d \<longrightarrow> \<sigma> \<subseteq>\<^sub>m \<theta> \<longrightarrow>
        unify d (substitute_type_params \<theta> d) \<sigma> = (Inr (), \<sigma> ++ \<theta> |` type_vars d))"

lemma unify_list_agrees:
  "\<forall>d\<in>set ds. matches_own_instance \<theta> d \<Longrightarrow> \<forall>d\<in>set ds. instantiates \<theta> d \<Longrightarrow> \<sigma> \<subseteq>\<^sub>m \<theta> \<Longrightarrow>
     unify_list ds (map (substitute_type_params \<theta>) ds) \<sigma> = (Inr (), \<sigma> ++ \<theta> |` (\<Union>d\<in>set ds. type_vars d))"
proof (induction ds arbitrary: \<sigma>)
  case (Cons d ds)
  then have "unify d (substitute_type_params \<theta> d) \<sigma> = (Inr (), \<sigma> ++ \<theta> |` type_vars d)"
    by (simp add: matches_own_instance_def)
  with Cons.IH [of "\<sigma> ++ \<theta> |` type_vars d"] Cons.prems show ?case by simp
qed simp

lemma unify_agrees: "matches_own_instance \<theta> d"
proof (induction d)
  case (TTypeParam p)
  show ?case by (auto simp: matches_own_instance_def bind_type_param_agrees)
next
  case (TScalarParam p)
  show ?case by (auto simp: matches_own_instance_def bind_dim_param_agrees)
next
  case (TFunction ps t)
  then show ?case using unify_list_agrees [of ps \<theta>] by (simp add: matches_own_instance_def)
next
  case (TUnion ts)
  then show ?case using unify_list_agrees [of ts \<theta>] by (simp add: matches_own_instance_def)
next
  case (TApplied s ts)
  then show ?case using unify_list_agrees [of ts \<theta>] by (simp add: matches_own_instance_def)
qed (simp_all add: matches_own_instance_def)

text \<open>
  C30.  Unification is complete and most general: against an instance of the declared
  type it succeeds whenever the bindings it starts from agree with the
  instance, and it adds exactly the bindings of the parameters of that type.
\<close>

theorem unify_finds_matcher:
  assumes "instantiates \<theta> declared" "\<sigma> \<subseteq>\<^sub>m \<theta>" "arg = substitute_type_params \<theta> declared"
  shows "unify declared arg \<sigma> = (Inr (), \<sigma> ++ \<theta> |` type_vars declared)"
  using unify_agrees [of \<theta> declared] assms by (simp add: matches_own_instance_def)

theorem unify_finds_matcher_witness:
  "unify (TMap (TTypeParam ''K'') (TVector 3 (TScalarParam ''Q'')))
       (TMap TInt (TVector 3 (TScalar DIMENSIONLESS))) [''K'' \<mapsto> TInt]
   = (Inr (), [''K'' \<mapsto> TInt] ++ [''K'' \<mapsto> TInt, ''Q'' \<mapsto> TScalar DIMENSIONLESS] |` {''K'', ''Q''})"
  using unify_finds_matcher [where \<theta> = "[''K'' \<mapsto> TInt, ''Q'' \<mapsto> TScalar DIMENSIONLESS]"
      and declared = "TMap (TTypeParam ''K'') (TVector 3 (TScalarParam ''Q''))" and \<sigma> = "[''K'' \<mapsto> TInt]"]
  by (simp add: map_le_def)

section \<open>Conversion\<close>

text \<open>A rank-1 tensor is a vector, a rank-0 tensor of a leaf type is that type.\<close>

definition canonical_type :: "Type \<Rightarrow> Type" where
  "canonical_type t =
     (case t of
        TTensor r n q \<Rightarrow>
          if r = 1 then TVector n q else if r = 0 \<and> is_scalar_like_leaf q then q else t
      | _ \<Rightarrow> t)"

definition square_matrix_of :: "Type \<Rightarrow> Type \<Rightarrow> bool" where
  "square_matrix_of a b \<longleftrightarrow> (\<exists>n q. a = TTensor 2 n q \<and> b = TMatrix n n q)"

lemma converts_canonical:
  assumes "\<not> is_error a" "\<not> is_error b"
  shows "implicitly_converts_to a b \<longleftrightarrow> canonical_type a = canonical_type b \<or> square_matrix_of a b"
proof (cases "\<exists>r n q. a = TTensor r n q")
  case True
  then obtain r n q where a: "a = TTensor r n q" by blast
  show ?thesis using assms
    by (cases b) (auto simp: a implicitly_converts_to_def rank0_converts_def canonical_type_def
        square_matrix_of_def is_error_def split: if_splits)
next
  case False
  then have a: "canonical_type a = a" "\<not> square_matrix_of a b"
    by (auto simp: canonical_type_def square_matrix_of_def split: Type.split)
  show ?thesis
  proof (cases "\<exists>r n q. b = TTensor r n q")
    case True
    then obtain r n q where b: "b = TTensor r n q" by blast
    show ?thesis using assms False a
      by (cases a) (auto simp: b implicitly_converts_to_def rank0_converts_def canonical_type_def
          is_error_def split: if_splits)
  next
    case nb: False
    then have "canonical_type b = b" by (auto simp: canonical_type_def split: Type.split)
    moreover have "implicitly_converts_to a b \<longleftrightarrow> a = b"
      using assms False nb by (cases a; cases b) (simp_all add: implicitly_converts_to_def rank0_converts_def is_error_def)
    ultimately show ?thesis using a by simp
  qed
qed

section \<open>Unification keeps what is known\<close>

definition refines_subst :: "TypeSubst \<Rightarrow> TypeSubst \<Rightarrow> bool" where
  "refines_subst \<sigma> \<sigma>' \<longleftrightarrow>
     (\<forall>p t. \<sigma> p = Some t \<longrightarrow> (\<exists>t'. \<sigma>' p = Some t' \<and> (t' = t \<or> is_type_param t \<and> \<not> is_type_param t')))"

lemma refines_refl [simp]: "refines_subst \<sigma> \<sigma>"
  by (simp add: refines_subst_def)

lemma refines_trans: "refines_subst \<sigma> \<sigma>' \<Longrightarrow> refines_subst \<sigma>' \<sigma>'' \<Longrightarrow> refines_subst \<sigma> \<sigma>''"
  unfolding refines_subst_def by metis

lemma bind_refines:
  "refines_subst \<sigma> (snd (bind_type_param p arg \<sigma>))" "refines_subst \<sigma> (snd (bind_dim_param p arg \<sigma>))"
  by (auto simp: bind_type_param_def bind_dim_param_def refines_subst_def split: option.split)

lemma and_then_refines:
  "refines_subst \<sigma> (snd r) \<Longrightarrow> (\<And>s. refines_subst s (snd (k s))) \<Longrightarrow> refines_subst \<sigma> (snd (and_then r k))"
  by (cases r; cases "fst r") (auto intro: refines_trans)

lemma unify_list_refines:
  "(\<And>d a \<sigma>. d \<in> set ds \<Longrightarrow> refines_subst \<sigma> (snd (unify d a \<sigma>))) \<Longrightarrow> refines_subst \<sigma> (snd (unify_list ds args \<sigma>))"
proof (induction ds arbitrary: args \<sigma>)
  case (Cons d ds)
  then show ?case by (cases args) (auto intro!: and_then_refines)
qed simp

lemma unify_refines: "refines_subst \<sigma> (snd (unify d a \<sigma>))"
proof (induction d arbitrary: a \<sigma>)
  case (TMap k v)
  then show ?case by (cases a) (auto intro!: and_then_refines)
next
  case (TField k v)
  then show ?case by (cases a) (auto intro!: and_then_refines)
next
  case (TFunction ps t)
  then show ?case by (cases a) (auto intro!: and_then_refines unify_list_refines)
next
  case (TUnion ts)
  then show ?case by (cases a) (auto intro!: unify_list_refines)
next
  case (TApplied s ts)
  then show ?case by (cases a) (auto intro!: unify_list_refines)
next
  case (TTypeParam p)
  show ?case by (simp add: bind_refines)
next
  case (TScalarParam p)
  show ?case by (cases a) (simp_all add: bind_refines)
next
  case (TList d) then show ?case by (cases a) simp_all
next
  case (TSet d) then show ?case by (cases a) simp_all
next
  case (TKeyed d) then show ?case by (cases a) simp_all
next
  case (TOption d) then show ?case by (cases a) simp_all
next
  case (TComplex d) then show ?case by (cases a) simp_all
next
  case (TRange d) then show ?case by (cases a) simp_all
next
  case (TPoint n d) then show ?case by (cases a) simp_all
next
  case (TVector n d) then show ?case by (cases a) simp_all
next
  case (TTensor r n d) then show ?case by (cases a) simp_all
next
  case (TMatrix m n d) then show ?case by (cases a) simp_all
next
  case (TProjection d m) then show ?case by (cases a) simp_all
qed simp_all

text \<open>
  Unification never loses a binding, whether it ends in a conflict or not:
  a parameter keeps its type, except that a type parameter bound to another
  parameter may be refined to a concrete type.
\<close>

theorem unify_never_unbinds:
  assumes "unify declared arg \<sigma> = (r, \<sigma>')" "\<sigma> p = Some t"
  shows "\<exists>t'. \<sigma>' p = Some t' \<and> (t' = t \<or> is_type_param t \<and> \<not> is_type_param t')"
  using unify_refines [of \<sigma> declared arg] assms by (simp add: refines_subst_def)

theorem unify_never_unbinds_witness:
  "\<exists>t'. [''T'' \<mapsto> TInt] ''T'' = Some t' \<and>
     (t' = TTypeParam ''U'' \<or> is_type_param (TTypeParam ''U'') \<and> \<not> is_type_param t')"
  using unify_never_unbinds [where declared = "TTypeParam ''T''" and arg = TInt
      and \<sigma> = "[''T'' \<mapsto> TTypeParam ''U'']" and r = "Inr ()" and \<sigma>' = "[''T'' \<mapsto> TInt]"
      and p = "''T''" and t = "TTypeParam ''U''"]
  by (simp add: bind_type_param_def)

section \<open>The product of types\<close>

lemma bind_swap: "Option.bind (m :: 'a option) (\<lambda>x. Option.bind n (f x)) = Option.bind n (\<lambda>y. Option.bind m (\<lambda>x. f x y))"
  by (cases m; cases n) simp_all

lemma rational_add_commute: "rational_add checked a b = rational_add checked b a"
  unfolding rational_add_def cross_def
  by (subst bind_swap) (simp add: ac_simps)

lemma dim_mul_commute: "dim_mul checked a b = dim_mul checked b a"
proof -
  have "map2 (rational_add checked) xs ys = map2 (rational_add checked) ys xs" for xs ys
    by (induction xs ys rule: list_induct2') (simp_all add: rational_add_commute)
  then show ?thesis by (simp add: dim_mul_def)
qed

fun is_transform :: "Type \<Rightarrow> bool" where
  "is_transform (TTransform n) \<longleftrightarrow> True"
| "is_transform _ \<longleftrightarrow> False"

lemma infer_mul_commutes:
  "\<not> is_transform l \<Longrightarrow> \<not> is_transform r \<Longrightarrow> infer_mul_div_result checked Mul l r = infer_mul_div_result checked Mul r l"
  by (cases l; cases r) (auto simp: mul_div_dim_def dim_mul_commute some_scalar_def split: Type.split)

text \<open>The dimension of the quantity in a scalar, complex, vector, point or tensor type.\<close>

fun quantity_dim :: "Type \<Rightarrow> DimensionVector option" where
  "quantity_dim TInt = Some DIMENSIONLESS"
| "quantity_dim (TScalar d) = Some d"
| "quantity_dim (TComplex (TScalar d)) = Some d"
| "quantity_dim (TVector n q) = quantity_dim q"
| "quantity_dim (TPoint n q) = quantity_dim q"
| "quantity_dim (TTensor r n q) = quantity_dim q"
| "quantity_dim _ = None"

definition small_dim :: "DimensionVector \<Rightarrow> bool" where
  "small_dim d \<longleftrightarrow> dim_wf d \<and> dim_fits8 d"

lemma small_DIMENSIONLESS [simp]: "small_dim DIMENSIONLESS" "dim_wf DIMENSIONLESS"
  by code_simp+

lemma exps_DIMENSIONLESS: "exps DIMENSIONLESS = replicate 10 0"
  by (simp add: exps_def DIMENSIONLESS_def rational_zero_def rat_of_def numeral_eq_Suc map_replicate Zero_rat_def)

lemma add_no_exps: "length xs = 10 \<Longrightarrow> map2 (+) (replicate 10 0) xs = (xs :: rat list)"
  "length xs = 10 \<Longrightarrow> map2 (+) xs (replicate 10 0) = xs"
  "length xs = 10 \<Longrightarrow> map2 (-) xs (replicate 10 0) = xs"
  by (auto intro: nth_equalityI)

lemma length_exps [simp]: "dim_wf d \<Longrightarrow> length (exps d) = 10"
  by (simp add: exps_def dim_wf_def)

definition homogeneous :: "(rat \<Rightarrow> rat \<Rightarrow> rat) \<Rightarrow> DimensionVector \<Rightarrow> DimensionVector \<Rightarrow> Type option option \<Rightarrow> bool" where
  "homogeneous oper a b res \<longleftrightarrow>
     (\<exists>t c. res = Some (Some t) \<and> quantity_dim t = Some c \<and> dim_wf c \<and> exps c = map2 oper (exps a) (exps b))"

definition exponent_op :: "BinOp \<Rightarrow> rat \<Rightarrow> rat \<Rightarrow> rat" where
  "exponent_op bop = (if bop = Mul then (+) else (-))"

lemma dim_op_ok:
  assumes "small_dim a" "small_dim b" "bop \<in> {Mul, Div}"
  shows "\<exists>c. mul_div_dim checked bop a b = Some c \<and> dim_wf c \<and> exps c = map2 (exponent_op bop) (exps a) (exps b)"
  using assms dim_mul_ok [of a b checked] dim_div_ok [of a b checked] dim_fits8_fits [of a b]
  by (auto simp: small_dim_def mul_div_dim_def exponent_op_def)

lemma exponent_op_DIMENSIONLESS: "dim_wf d \<Longrightarrow> map2 (exponent_op bop) (exps d) (exps DIMENSIONLESS) = exps d"
  by (simp add: exponent_op_def exps_DIMENSIONLESS add_no_exps)

lemma infer_homogeneous:
  assumes "small_dim a" "small_dim b" "bop \<in> {Mul, Div}"
    and "quantity_dim r = Some b" "is_mul_div_scalar_like r"
  shows "quantity_dim l = Some a \<Longrightarrow> homogeneous (exponent_op bop) a b (infer_mul_div_result checked bop l r)"
proof (induction l)
  case TInt
  then have a: "a = DIMENSIONLESS" by simp
  show ?case
  proof (cases r)
    case TInt
    then have "b = DIMENSIONLESS" using assms by simp
    with TInt show ?thesis using exponent_op_DIMENSIONLESS [of DIMENSIONLESS bop] by (simp add: homogeneous_def a)
  next
    case (TScalar d)
    then have d: "d = b" using assms by simp
    show ?thesis using assms dim_op_ok [OF small_DIMENSIONLESS(1) assms(2,3), of checked]
      by (auto simp: TScalar d a homogeneous_def some_scalar_def exponent_op_def exps_DIMENSIONLESS add_no_exps
          mul_div_dim_def small_dim_def)
  qed (use assms in auto)
next
  case (TScalar d)
  then have d: "d = a" by simp
  show ?case
  proof (cases r)
    case TInt
    then have "b = DIMENSIONLESS" using assms by simp
    with TInt show ?thesis using assms exponent_op_DIMENSIONLESS [of a bop] by (simp add: homogeneous_def d small_dim_def)
  next
    case (TScalar d')
    then have "d' = b" using assms by simp
    then show ?thesis using dim_op_ok [OF assms(1-3), of checked]
      by (auto simp: TScalar d homogeneous_def some_scalar_def)
  qed (use assms in auto)
next
  case (TComplex q)
  then have q: "q = TScalar a" by (cases q) auto
  show ?case
  proof (cases r)
    case TInt
    then have "b = DIMENSIONLESS" using assms by simp
    with TInt show ?thesis using assms exponent_op_DIMENSIONLESS [of a bop] by (simp add: homogeneous_def q small_dim_def)
  next
    case (TScalar d')
    then have "d' = b" using assms by simp
    then show ?thesis using dim_op_ok [OF assms(1-3), of checked]
      by (auto simp: TScalar q homogeneous_def some_complex_def)
  qed (use assms in auto)
qed (use assms(5) in \<open>auto simp: homogeneous_def wrap_quantity_def\<close>)

text \<open>
  Which pairs of types with a quantity the operators accept: a number on the
  right, two complex numbers, and for products a number on the left.
\<close>

fun is_complex :: "Type \<Rightarrow> bool" where
  "is_complex (TComplex q) \<longleftrightarrow> True"
| "is_complex _ \<longleftrightarrow> False"

definition mul_div_supported :: "BinOp \<Rightarrow> Type \<Rightarrow> Type \<Rightarrow> bool" where
  "mul_div_supported bop l r \<longleftrightarrow> is_mul_div_scalar_like r \<or> (is_complex l \<and> is_complex r)
     \<or> (bop = Mul \<and> is_mul_div_scalar_like l)"

lemma complex_homogeneous:
  assumes "small_dim a" "small_dim b" "bop \<in> {Mul, Div}"
    and "quantity_dim (TComplex p) = Some a" "quantity_dim (TComplex q) = Some b"
  shows "homogeneous (exponent_op bop) a b (infer_mul_div_result checked bop (TComplex p) (TComplex q))"
proof -
  have "p = TScalar a" "q = TScalar b" using assms(4,5) by (cases p; cases q; auto)+
  then show ?thesis
    using dim_op_ok [OF assms(1-3), of checked] by (auto simp: homogeneous_def some_complex_def)
qed

lemma homogeneous_swap: "homogeneous (+) b a res \<Longrightarrow> homogeneous (+) a b res"
proof -
  have "map2 (+) xs ys = map2 (+) ys xs" for xs ys :: "rat list"
    by (induction xs ys rule: list_induct2') (simp_all add: add.commute)
  then show "homogeneous (+) b a res \<Longrightarrow> homogeneous (+) a b res" by (simp add: homogeneous_def)
qed

lemma supported_homogeneous:
  assumes "small_dim a" "small_dim b" "bop \<in> {Mul, Div}"
    and "quantity_dim l = Some a" "quantity_dim r = Some b" "mul_div_supported bop l r"
  shows "homogeneous (exponent_op bop) a b (infer_mul_div_result checked bop l r)"
proof -
  consider "is_mul_div_scalar_like r" | "is_complex l" "is_complex r" | "bop = Mul" "is_mul_div_scalar_like l"
    using assms(6) unfolding mul_div_supported_def by blast
  then show ?thesis
  proof cases
    case 1
    then show ?thesis using infer_homogeneous [OF assms(1-3,5)] assms(4) by blast
  next
    case 2
    then obtain p q where "l = TComplex p" "r = TComplex q" by (cases l; cases r) auto
    then show ?thesis using complex_homogeneous [OF assms(1-3)] assms(4,5) by blast
  next
    case 3
    have "\<not> is_transform l" "\<not> is_transform r" using assms(4,5) by (cases l; cases r; auto)+
    moreover have "homogeneous (exponent_op Mul) b a (infer_mul_div_result checked Mul r l)"
      using infer_homogeneous [OF assms(2,1) _ assms(4) 3(2)] assms(5) by blast
    ultimately show ?thesis
      using 3(1) homogeneous_swap infer_mul_commutes [of l r checked] by (simp add: exponent_op_def)
  qed
qed

lemma unsupported_refused:
  assumes "bop \<in> {Mul, Div}" "quantity_dim l = Some a" "quantity_dim r = Some b" "\<not> mul_div_supported bop l r"
  shows "infer_mul_div_result checked bop l r = Some None"
  using assms by (cases l; cases r) (auto simp: mul_div_supported_def)

lemma transform_never_right: "\<not> is_transform x \<Longrightarrow> infer_mul_div_result checked bop x (TTransform n) = Some None"
  by (cases x) auto

text \<open>
  C32.  The operators are dimensionally sound.  Take two types that carry a quantity
  (numbers, complex numbers, and vectors, points and tensors of such) whose
  dimensions have eight-bit exponents.  When the right one is a number, or both
  are complex, or in a product the left one is a number, the result is a type,
  without overflow or panic, whose quantity has the sum or the difference of the
  exponents; every other pair is refused.  Apart from rigid transforms, which
  only ever stand on the left, the type of a product does not depend on the
  order of its factors.
\<close>

theorem mul_div_homogeneous:
  assumes "small_dim a" "small_dim b" "bop \<in> {Mul, Div}"
    and "quantity_dim l = Some a" "quantity_dim r = Some b"
    and "\<not> is_transform x" "\<not> is_transform y"
  shows "(if mul_div_supported bop l r
      then \<exists>t c. infer_mul_div_result checked bop l r = Some (Some t) \<and> quantity_dim t = Some c
        \<and> exps c = map2 (if bop = Mul then (+) else (-)) (exps a) (exps b)
      else infer_mul_div_result checked bop l r = Some None)
    \<and> infer_mul_div_result checked Mul x y = infer_mul_div_result checked Mul y x
    \<and> infer_mul_div_result checked bop x (TTransform n) = Some None"
proof -
  have "\<exists>t c. infer_mul_div_result checked bop l r = Some (Some t) \<and> quantity_dim t = Some c
      \<and> exps c = map2 (if bop = Mul then (+) else (-)) (exps a) (exps b)" if "mul_div_supported bop l r"
    using supported_homogeneous [OF assms(1-5) that, of checked] unfolding homogeneous_def exponent_op_def by blast
  then show ?thesis
    using unsupported_refused [OF assms(3-5)] infer_mul_commutes [OF assms(6,7)] transform_never_right [OF assms(6)]
    by auto
qed

theorem mul_div_homogeneous_witness:
  "(\<exists>t c. infer_mul_div_result True Div (TComplex (TScalar DIMENSIONLESS)) (TComplex (TScalar DIMENSIONLESS)) = Some (Some t)
     \<and> quantity_dim t = Some c \<and> exps c = map2 (-) (exps DIMENSIONLESS) (exps DIMENSIONLESS))
   \<and> infer_mul_div_result True Div TInt (TVector 3 TInt) = Some None"
  using mul_div_homogeneous [where a = DIMENSIONLESS and b = DIMENSIONLESS and bop = Div and checked = True
      and l = "TComplex (TScalar DIMENSIONLESS)" and r = "TComplex (TScalar DIMENSIONLESS)" and x = TInt and y = TInt]
    mul_div_homogeneous [where a = DIMENSIONLESS and b = DIMENSIONLESS and bop = Div and checked = True
      and l = TInt and r = "TVector 3 TInt" and x = TInt and y = TInt]
  by (simp add: mul_div_supported_def)

text \<open>
  C31.  Implicit conversion between types other than the error type is equality
  of canonical forms, plus the one-way conversion of a rank-2 tensor to a
  square matrix; it is reflexive and transitive.
\<close>

theorem implicit_conversion_canonical:
  assumes "\<not> is_error a" "\<not> is_error b" "\<not> is_error c"
  shows "(implicitly_converts_to a b \<longleftrightarrow> canonical_type a = canonical_type b \<or> square_matrix_of a b)
    \<and> implicitly_converts_to a a
    \<and> (implicitly_converts_to a b \<longrightarrow> implicitly_converts_to b c \<longrightarrow> implicitly_converts_to a c)"
proof -
  have sq: "square_matrix_of a c" if "square_matrix_of a b" "canonical_type b = canonical_type c"
    using that by (cases c) (auto simp: square_matrix_of_def canonical_type_def split: if_splits)
  have qs: "square_matrix_of a c" if "canonical_type a = canonical_type b" "square_matrix_of b c"
    using that by (cases a) (auto simp: square_matrix_of_def canonical_type_def split: if_splits)
  have no: "\<not> (square_matrix_of a b \<and> square_matrix_of b c)" by (auto simp: square_matrix_of_def)
  from converts_canonical assms sq qs no show ?thesis by (metis converts_canonical)
qed

theorem implicit_conversion_canonical_witness:
  "implicitly_converts_to (TTensor 1 3 TInt) (TVector 3 TInt)
   \<and> \<not> implicitly_converts_to (TMatrix 2 2 TInt) (TTensor 2 2 TInt)"
  using implicit_conversion_canonical [where a = "TTensor 1 3 TInt" and b = "TVector 3 TInt" and c = TInt]
    implicit_conversion_canonical [where a = "TMatrix 2 2 TInt" and b = "TTensor 2 2 TInt" and c = TInt]
  by (simp add: is_error_def canonical_type_def square_matrix_of_def)
end
