(* ===== verification/OverloadLaws.thy ===== *)
theory OverloadLaws
  imports Overload TypeLaws
begin

text \<open>What compile-time and evaluation-time overload resolution agree on.\<close>

section \<open>The two resolvers\<close>

definition first_of :: "'a list \<Rightarrow> 'a option" where
  "first_of xs = (case xs of [] \<Rightarrow> None | x # _ \<Rightarrow> Some x)"

lemma first_of_simps [simp]: "first_of [] = None" "first_of (x # xs) = Some x"
  by (simp_all add: first_of_def)

definition or_else :: "'a option \<Rightarrow> 'a option \<Rightarrow> 'a option" where
  "or_else a b = (case a of Some x \<Rightarrow> Some x | None \<Rightarrow> b)"

lemma or_else_simps [simp]: "or_else (Some x) b = Some x" "or_else None b = b" "or_else a None = a"
  by (simp_all add: or_else_def split: option.split)

lemma all_slots_mono:
  "(\<And>p a. P p a \<Longrightarrow> Q p a) \<Longrightarrow> all_slots P f tys \<Longrightarrow> all_slots Q f tys"
  by (auto simp: all_slots_def list_all_iff)

lemma exact_wildcard: "exact f tys \<Longrightarrow> wildcard f tys"
  unfolding exact_def wildcard_def by (erule all_slots_mono [rotated]) (simp add: slot_matches_wildcard_tier_def)

lemma scan_candidates_tiers:
  "scan_candidates tys h w fs =
     or_else (first_of (filter (\<lambda>f. exact f tys) fs))
       (or_else h (or_else (first_of (filter (\<lambda>f. wildcard f tys \<and> head f tys) fs))
         (or_else w (first_of (filter (\<lambda>f. wildcard f tys) fs)))))"
proof (induction fs arbitrary: h w)
  case (Cons f fs)
  show ?case
    by (cases h; cases w; cases "exact f tys"; cases "wildcard f tys"; cases "head f tys") (simp_all add: Cons.IH)
next
  case Nil
  show ?case by (cases h; cases w) simp_all
qed

lemma filter_tiers:
  "filter (\<lambda>f. exact f tys) (filter (\<lambda>f. name f = nm \<and> length (params f) = length tys) fs)
     = filter (\<lambda>f. exact f tys) (filter (\<lambda>f. length (params f) = length tys \<and> wildcard f tys) (filter (\<lambda>f. name f = nm) fs))"
  by (induction fs) (auto dest: exact_wildcard)

text \<open>
  C16.  The two resolvers agree on every call: evaluation finds the function the
  compiler resolved; where the compiler found none it finds none; where the
  compiler reports an ambiguity it would take the first of the candidates.
\<close>

theorem overload_stages_agree:
  "find_matching_compiled_function fns nm args =
     (case resolve_function_overload nm (map expr_type args) fns of
        Resolved f \<Rightarrow> Some f
      | Ambiguous candidates \<Rightarrow> first_of candidates
      | NoMatch named \<Rightarrow> None
      | NoUserFunctions \<Rightarrow> None)"
proof -
  define tys where "tys = map expr_type args"
  define named where "named = filter (\<lambda>f. name f = nm) fns"
  define m where "m = filter (\<lambda>f. length (params f) = length tys \<and> wildcard f tys) named"
  define e where "e = filter (\<lambda>f. exact f tys) m"
  define h where "h = filter (\<lambda>f. head f tys) m"
  define r where "r = (if e \<noteq> [] then e else if h \<noteq> [] then h else m)"
  have "find_matching_compiled_function fns nm args = or_else (first_of e) (or_else (first_of h) (first_of m))"
    using filter_tiers [of tys nm fns]
    by (simp add: find_matching_compiled_function_def scan_candidates_tiers conj_ac
        e_def h_def m_def named_def tys_def)
  also have "\<dots> = first_of r" by (cases e; cases h) (simp_all add: r_def)
  finally have "find_matching_compiled_function fns nm args = first_of r" .
  moreover have "resolve_function_overload nm tys fns =
      (if named = [] then NoUserFunctions
       else case r of [] \<Rightarrow> NoMatch named | [f] \<Rightarrow> Resolved f | _ \<Rightarrow> Ambiguous r)"
    by (simp only: resolve_function_overload_def Let_def r_def e_def h_def m_def named_def)
  moreover have "named = [] \<Longrightarrow> r = []" by (simp add: r_def e_def h_def m_def)
  ultimately show ?thesis by (auto simp: tys_def split: list.split)
qed

section \<open>Selector arguments\<close>

lemma expr_type_coerce: "expr_type (coerce_selector_arg xxh arg p) = (if selector_coerces_to_param p (expr_type arg) then p else expr_type arg)"
  by (auto simp: coerce_selector_arg_def resolve_selector_def selector_coerces_to_param_def is_list_geometry_def)

lemma coerced_types:
  assumes "length ps = length args" "all_slots (\<lambda>p a. p = a \<or> selector_coerces_to_param p a) f (map expr_type args)"
    and "ps = params f"
  shows "map expr_type (map (\<lambda>(arg, x, p). coerce_selector_arg xxh arg p) (zip args ps)) = map snd ps"
proof (rule nth_equalityI)
  fix i assume "i < length (map expr_type (map (\<lambda>(arg, x, p). coerce_selector_arg xxh arg p) (zip args ps)))"
  then have i: "i < length args" "i < length ps" using assms(1) by auto
  with assms(2,3) have "snd (ps ! i) = expr_type (args ! i) \<or> selector_coerces_to_param (snd (ps ! i)) (expr_type (args ! i))"
    by (auto simp: all_slots_def list_all_length case_prod_beta)
  with i show "map expr_type (map (\<lambda>(arg, x, p). coerce_selector_arg xxh arg p) (zip args ps)) ! i = map snd ps ! i"
    by (auto simp: case_prod_beta expr_type_coerce)
qed (use assms(1) in simp)

lemma exact_iff: "length (params f) = length tys \<Longrightarrow> exact f tys \<longleftrightarrow> map snd (params f) = tys"
  by (auto simp: exact_def all_slots_def list_all_length case_prod_beta list_eq_iff_nth_eq)

lemma filter_singleton: "filter P xs = [x] \<Longrightarrow> y \<in> set xs \<Longrightarrow> P y \<Longrightarrow> y = x"
  using filter_set [of P xs] by auto

lemma first_of_filter:
  assumes "x \<in> set xs" "P x" and unique: "\<And>y. y \<in> set xs \<Longrightarrow> P y \<Longrightarrow> y = x"
  shows "first_of (filter P xs) = Some x"
proof (cases "filter P xs")
  case Nil
  with assms(1,2) show ?thesis by (auto simp: filter_empty_conv)
next
  case (Cons y ys)
  then have "y \<in> set xs" "P y" using filter_set [of P xs] by auto
  from unique [OF this] Cons show ?thesis by simp
qed

text \<open>
  A call the compiler resolves by turning selectors into lists of geometry
  runs the function it chose, when no function of that name is generic: the
  rewritten arguments have exactly its parameter types.
\<close>

theorem selector_coercion_agrees:
  assumes "try_selector_coerced_overload (filter (\<lambda>f. name f = nm) fns) (map expr_type args) = Some f"
    and "\<forall>g \<in> set fns. name g = nm \<longrightarrow> \<not> is_generic g"
  shows "find_matching_compiled_function fns nm
      (map (\<lambda>(arg, x, p). coerce_selector_arg xxh arg p) (zip args (params f))) = Some f"
proof -
  let ?named = "filter (\<lambda>f. name f = nm) fns" and ?tys = "map expr_type args"
  let ?slots = "all_slots (\<lambda>p a. p = a \<or> selector_coerces_to_param p a)"
  let ?args = "map (\<lambda>(arg, x, p). coerce_selector_arg xxh arg p) (zip args (params f))"
  let ?ok = "\<lambda>f. \<not> is_generic f \<and> length (params f) = length ?tys \<and> ?slots f ?tys"
  have single: "filter ?ok ?named = [f]"
    using assms(1) unfolding try_selector_coerced_overload_def by (simp split: if_splits list.splits)
  then have f: "f \<in> set ?named" "?ok f" using filter_set [of ?ok ?named] by auto
  then have types: "map expr_type ?args = map snd (params f)"
    by (intro coerced_types [where f = f]) simp_all
  have len: "length ?args = length args" using f(2) by simp
  have same: "g = f" if g: "g \<in> set fns" "name g = nm" "length (params g) = length args" "exact g (map snd (params f))" for g
  proof -
    have "map snd (params g) = map snd (params f)" using g(3,4) f(2) by (subst (asm) exact_iff) auto
    then have "?slots g ?tys" using f(2) g(3)
      by (auto simp: all_slots_def list_all_length case_prod_beta list_eq_iff_nth_eq)
    with g assms(2) show ?thesis by (intro filter_singleton [OF single]) auto
  qed
  have "first_of (filter (\<lambda>g. exact g (map snd (params f)))
      (filter (\<lambda>g. name g = nm \<and> length (params g) = length ?args) fns)) = Some f"
    using f len same by (intro first_of_filter) (auto simp: exact_iff)
  then show ?thesis
    unfolding find_matching_compiled_function_def types scan_candidates_tiers by simp
qed

section \<open>Default arguments\<close>

lemma those_map_Some: "those xs = Some ys \<longleftrightarrow> xs = map Some ys" "Some ys = those xs \<longleftrightarrow> xs = map Some ys"
proof -
  show "those xs = Some ys \<longleftrightarrow> xs = map Some ys"
  proof (induction xs arbitrary: ys)
    case (Cons x xs)
    then show ?case by (cases x; cases ys) auto
  qed auto
  then show "Some ys = those xs \<longleftrightarrow> xs = map Some ys" by auto
qed

definition completes :: "Type list \<Rightarrow> ('v, 'a) CompiledFunction \<Rightarrow> ('v, Type) CompiledExpr list \<Rightarrow> bool" where
  "completes arg_types cand defaults \<longleftrightarrow>
     length arg_types < length (params cand) \<and> length (param_defaults cand) = length (params cand)
     \<and> wildcard cand arg_types \<and> drop (length arg_types) (param_defaults cand) = map Some defaults"

lemma satisfiable_iff:
  "(cand, defaults) \<in> set (satisfiable named tys) \<longleftrightarrow> cand \<in> set named \<and> completes tys cand defaults"
  by (auto simp: satisfiable_def completes_def not_le those_map_Some split: option.splits)

lemma fold_max_ge: "x \<in> set xs \<Longrightarrow> x \<le> fold max xs (a :: nat)"
  unfolding Max.set_eq_fold [symmetric] by simp

lemma best_mem:
  "set (map snd (filter (\<lambda>(s, e). s = m) (map (\<lambda>(c, d). (f c, (c, d))) xs))) = {e \<in> set xs. f (fst e) = m}"
  by (induction xs) auto

lemma best_entry:
  assumes "try_default_padding named tys = Some (cand, defaults)"
  shows "(cand, defaults) \<in> set (satisfiable named tys)
    \<and> (\<forall>e \<in> set (satisfiable named tys). exact_slots tys (fst e) < exact_slots tys cand \<or> e = (cand, defaults))"
proof (cases "\<exists>e. satisfiable named tys = [e]")
  case True
  then show ?thesis using assms by (auto simp: try_default_padding_def)
next
  case False
  let ?s = "map (\<lambda>(c, d). (exact_slots tys c, (c, d))) (satisfiable named tys)"
  let ?m = "fold max (map fst ?s) 0"
  let ?best = "map snd (filter (\<lambda>(s, e). s = ?m) ?s)"
  from False assms have "?best = [(cand, defaults)]"
    by (auto simp: try_default_padding_def Let_def split: list.splits)
  then have "set ?best = {(cand, defaults)}" by simp
  then have best: "{e \<in> set (satisfiable named tys). exact_slots tys (fst e) = ?m} = {(cand, defaults)}"
    unfolding best_mem .
  have chosen: "(cand, defaults) \<in> {e \<in> set (satisfiable named tys). exact_slots tys (fst e) = ?m}"
    unfolding best by simp
  have "exact_slots tys (fst e) < ?m \<or> e = (cand, defaults)" if e: "e \<in> set (satisfiable named tys)" for e
  proof -
    have "exact_slots tys (fst e) \<le> ?m"
      by (rule fold_max_ge) (use e in \<open>force simp: case_prod_beta image_iff\<close>)
    moreover have "e \<in> {(cand, defaults)}" if "exact_slots tys (fst e) = ?m"
      unfolding best [symmetric] using e that by blast
    ultimately show ?thesis by fastforce
  qed
  with chosen show ?thesis by simp
qed

text \<open>
  C17.  A call completed by default arguments goes to a function of that name that
  accepts the arguments given, all of whose further parameters have the
  defaults supplied; any other function that could be so completed matches
  strictly fewer of the arguments exactly.
\<close>

theorem default_padding_best:
  assumes "try_default_padding named arg_types = Some (cand, defaults)"
  shows "cand \<in> set named \<and> length arg_types + length defaults = length (params cand) \<and> defaults \<noteq> []
    \<and> wildcard cand arg_types \<and> map Some defaults = drop (length arg_types) (param_defaults cand)
    \<and> (\<forall>g d. g \<in> set named \<longrightarrow> completes arg_types g d \<longrightarrow> g \<noteq> cand \<longrightarrow>
         exact_slots arg_types g < exact_slots arg_types cand)"
proof -
  from best_entry [OF assms] have c: "cand \<in> set named" "completes arg_types cand defaults"
    and b: "\<forall>e \<in> set (satisfiable named arg_types). exact_slots arg_types (fst e) < exact_slots arg_types cand \<or> e = (cand, defaults)"
    by (auto simp: satisfiable_iff)
  have "length (drop (length arg_types) (param_defaults cand)) = length defaults"
    using c(2) by (simp add: completes_def)
  then have "length arg_types + length defaults = length (params cand)" "defaults \<noteq> []"
    using c(2) by (auto simp: completes_def)
  moreover have "exact_slots arg_types g < exact_slots arg_types cand"
    if "g \<in> set named" "completes arg_types g d" "g \<noteq> cand" for g d
    using b [rule_format, of "(g, d)"] that by (auto simp: satisfiable_iff)
  ultimately show ?thesis using c by (auto simp: completes_def)
qed

section \<open>The type of a call\<close>

lemma unify_list_own:
  "\<forall>d\<in>set ds. instantiates \<theta> d \<Longrightarrow>
     unify_list ds (map (substitute_type_params \<theta>) ds) Map.empty = (Inr (), \<theta> |` (\<Union>d\<in>set ds. type_vars d))"
  using unify_list_agrees [of ds \<theta> Map.empty] by (simp add: unify_agrees)

lemma substitute_restrict:
  "type_vars t \<subseteq> V \<Longrightarrow> substitute_type_params (\<theta> |` V) t = substitute_type_params \<theta> t"
  by (induction t) (auto simp: restrict_map_def UN_subset_iff split: option.split)

text \<open>
  The type of a generic call is the instance of the declared return type, when
  the arguments are an instance of the declared parameters and determine
  every parameter of the return type; when what it returns is still a bare
  parameter, the call is rejected.
\<close>

theorem call_type_instantiates:
  assumes "\<forall>t\<in>set declared. instantiates \<theta> t"
    and "type_vars ret \<subseteq> (\<Union>t\<in>set declared. type_vars t)"
    and "substitute_type_params \<theta> ret = result"
  shows "instantiate_return_type True declared ret nm (map (substitute_type_params \<theta>) declared) =
    (if (\<exists>p. result = TTypeParam p \<or> result = TScalarParam p) then Inl (FnTypeArgUnresolved nm) else Inr result)"
proof -
  have sub: "substitute_type_params (\<theta> |` (\<Union>t\<in>set declared. type_vars t)) ret = result"
    using substitute_restrict [OF assms(2)] assms(3) by simp
  show ?thesis unfolding instantiate_return_type_def unify_list_own [OF assms(1)]
    by (simp add: sub split: Type.split)
qed

section \<open>Concrete functions\<close>

definition plain_fn ::
  "string \<Rightarrow> (string \<times> Type) list \<Rightarrow> (unit, Type) CompiledExpr option list \<Rightarrow> (unit, unit) CompiledFunction" where
  "plain_fn nm ps ds =
     \<lparr> name = nm, doc = None, is_pub = True, params = ps, param_defaults = ds, return_type = TInt,
       body = \<lparr> let_bindings = [], result_expr = CompiledExpr OptionNone TInt 0 \<rparr>,
       content_hash = 0, annotations = [], optimized_target = None, type_params = [] \<rparr>"

definition expr_of_type :: "Type \<Rightarrow> (unit, Type) CompiledExpr" where
  "expr_of_type t = CompiledExpr OptionNone t 0"

lemma plain_fn_simps [simp]:
  "name (plain_fn nm ps ds) = nm" "params (plain_fn nm ps ds) = ps" "param_defaults (plain_fn nm ps ds) = ds"
  "\<not> is_generic (plain_fn nm ps ds)" "expr_type (expr_of_type t) = t"
  by (simp_all add: plain_fn_def is_generic_def expr_of_type_def)

lemmas tiers = wildcard_def exact_def head_def all_slots_def slot_matches_wildcard_tier_def
  slot_matches_head_tier_def arg_side_admits_def is_bare_user_type_param_def

theorem selector_coercion_agrees_witness:
  "find_matching_compiled_function [plain_fn ''f'' [(''x'', TList TGeometry)] [None]] ''f''
     [resolve_selector (\<lambda>b. 0) (expr_of_type (TSelector FaceKind))]
   = Some (plain_fn ''f'' [(''x'', TList TGeometry)] [None])"
  using selector_coercion_agrees [where fns = "[plain_fn ''f'' [(''x'', TList TGeometry)] [None]]" and nm = "''f''"
      and args = "[expr_of_type (TSelector FaceKind)]" and f = "plain_fn ''f'' [(''x'', TList TGeometry)] [None]"
      and xxh = "\<lambda>b. 0"]
  by (simp add: try_selector_coerced_overload_def all_slots_def selector_coerces_to_param_def is_list_geometry_def
      type_compatible_def coerce_selector_arg_def)

theorem default_padding_best_witness:
  "exact_slots [TInt] (plain_fn ''f'' [(''x'', TTraitObject ''T''), (''y'', TInt)] [None, Some (expr_of_type TInt)])
     < exact_slots [TInt] (plain_fn ''f'' [(''x'', TInt), (''y'', TInt)] [None, Some (expr_of_type TInt)])"
  using default_padding_best [where arg_types = "[TInt]" and defaults = "[expr_of_type TInt]"
      and cand = "plain_fn ''f'' [(''x'', TInt), (''y'', TInt)] [None, Some (expr_of_type TInt)]"
      and named = "[plain_fn ''f'' [(''x'', TTraitObject ''T''), (''y'', TInt)] [None, Some (expr_of_type TInt)],
        plain_fn ''f'' [(''x'', TInt), (''y'', TInt)] [None, Some (expr_of_type TInt)]]"]
  by (simp add: try_default_padding_def satisfiable_def tiers exact_slots_def completes_def)

theorem call_type_instantiates_witness:
  "instantiate_return_type True [TList (TTypeParam ''T'')] (TTypeParam ''T'') ''first'' [TList TInt] = Inr TInt"
  using call_type_instantiates [where declared = "[TList (TTypeParam ''T'')]" and \<theta> = "[''T'' \<mapsto> TInt]"
      and ret = "TTypeParam ''T''" and result = TInt and nm = "''first''"]
  by simp

text \<open>
  A call completed with defaults is resolved again at evaluation, with the
  defaults in place, and may then run another function than the one it was
  compiled for.
\<close>

lemma padded_call_runs_another:
  fixes f g
  defines "f \<equiv> plain_fn ''f'' [(''x'', TTraitObject ''Load''), (''y'', TInt)] [None, Some (expr_of_type TInt)]"
    and "g \<equiv> plain_fn ''f'' [(''x'', TStructureRef ''Beam''), (''y'', TInt)] [None, None]"
  shows "try_default_padding [f, g] [TStructureRef ''Beam''] = Some (f, [expr_of_type TInt])"
    "find_matching_compiled_function [f, g] ''f'' [expr_of_type (TStructureRef ''Beam''), expr_of_type TInt] = Some g"
    "f \<noteq> g"
  unfolding f_def g_def
  by (simp_all add: try_default_padding_def satisfiable_def tiers find_matching_compiled_function_def plain_fn_def)

end
