(* ===== verification/Normalize.thy ===== *)
theory Normalize
  imports Overload
begin

text \<open>
  Reduction of associated types (\<open>normalize_type\<close> of
  \<open>reify-compiler/src/type_resolution.rs\<close>).  The diagnostics are returned in
  the order they are pushed.  The set of visited keys is the same after a call as
  before it (a key is inserted, the binding is normalized, the key is
  removed), so it is passed down as an argument.
\<close>

text \<open>The two fields of a \<open>TopologyTemplate\<close> that reduction reads.\<close>

record TopologyTemplate =
  template_params :: "TypeParam list"
  assoc_types :: "(string \<times> Type) list"

type_synonym Registry = "string \<rightharpoonup> TopologyTemplate"

datatype NormalizeDiagnostic =
    ReductionTooDeep
  | RecursiveAssocType string string
  | TypeArgCountMismatch string usize usize

definition MAX_PROJECTION_REDUCTION_DEPTH :: nat where
  "MAX_PROJECTION_REDUCTION_DEPTH = 64"

definition lookup_assoc_type_binding :: "TopologyTemplate \<Rightarrow> string \<Rightarrow> Type" where
  "lookup_assoc_type_binding template member =
     (case map_of (assoc_types template) member of Some t \<Rightarrow> t | None \<Rightarrow> TError)"

text \<open>Collected into a hash map, in which the last of two parameters of a name wins.\<close>

definition param_bindings :: "TopologyTemplate \<Rightarrow> Type list \<Rightarrow> TypeSubst" where
  "param_bindings template args = map_of (rev (zip (map tp_name (template_params template)) args))"

definition reporting ::
  "NormalizeDiagnostic list \<Rightarrow> 'a \<times> NormalizeDiagnostic list \<Rightarrow> 'a \<times> NormalizeDiagnostic list" where
  "reporting ds r = (fst r, ds @ snd r)"

function (sequential) normalize_type_guarded ::
  "Registry \<Rightarrow> (string \<times> Type list \<times> string) set \<Rightarrow> nat \<Rightarrow> Type \<Rightarrow> Type \<times> NormalizeDiagnostic list"
and normalize_types ::
  "Registry \<Rightarrow> (string \<times> Type list \<times> string) set \<Rightarrow> nat \<Rightarrow> Type list \<Rightarrow> Type list \<times> NormalizeDiagnostic list" where
  "normalize_type_guarded reg visited depth ty =
     (if depth > MAX_PROJECTION_REDUCTION_DEPTH then (TError, [ReductionTooDeep])
      else case ty of
        TProjection base member \<Rightarrow>
          (case normalize_type_guarded reg visited depth base of
             (reduced_base, ds) \<Rightarrow>
               (case reduced_base of
                  TStructureRef nm \<Rightarrow>
                    if (nm, [], member) \<in> visited then (TError, ds @ [RecursiveAssocType nm member])
                    else
                      (case reg nm of
                         Some template \<Rightarrow>
                           reporting ds (normalize_type_guarded reg (insert (nm, [], member) visited) (depth + 1)
                             (lookup_assoc_type_binding template member))
                       | None \<Rightarrow> (TError, ds))
                | TApplied nm args \<Rightarrow>
                    if (nm, args, member) \<in> visited then (TError, ds @ [RecursiveAssocType nm member])
                    else
                      (case reg nm of
                         Some template \<Rightarrow>
                           if length args \<noteq> length (template_params template) then
                             (TError, ds @ [TypeArgCountMismatch nm (length (template_params template)) (length args)])
                           else
                             reporting ds (normalize_type_guarded reg (insert (nm, args, member) visited) (depth + 1)
                               (substitute_type_params (param_bindings template args)
                                 (lookup_assoc_type_binding template member)))
                       | None \<Rightarrow> (TError, ds))
                | TTypeParam p \<Rightarrow> (TProjection reduced_base member, ds)
                | _ \<Rightarrow> (TError, ds)))
      | TList t \<Rightarrow> map_prod TList id (normalize_type_guarded reg visited depth t)
      | TSet t \<Rightarrow> map_prod TSet id (normalize_type_guarded reg visited depth t)
      | TKeyed t \<Rightarrow> map_prod TKeyed id (normalize_type_guarded reg visited depth t)
      | TOption t \<Rightarrow> map_prod TOption id (normalize_type_guarded reg visited depth t)
      | TComplex t \<Rightarrow> map_prod TComplex id (normalize_type_guarded reg visited depth t)
      | TRange t \<Rightarrow> map_prod TRange id (normalize_type_guarded reg visited depth t)
      | TPoint n t \<Rightarrow> map_prod (TPoint n) id (normalize_type_guarded reg visited depth t)
      | TVector n t \<Rightarrow> map_prod (TVector n) id (normalize_type_guarded reg visited depth t)
      | TTensor r n t \<Rightarrow> map_prod (TTensor r n) id (normalize_type_guarded reg visited depth t)
      | TMatrix m n t \<Rightarrow> map_prod (TMatrix m n) id (normalize_type_guarded reg visited depth t)
      | TMap k v \<Rightarrow>
          (case normalize_type_guarded reg visited depth k of (k', ds) \<Rightarrow> reporting ds (map_prod (TMap k') id (normalize_type_guarded reg visited depth v)))
      | TField k v \<Rightarrow>
          (case normalize_type_guarded reg visited depth k of (k', ds) \<Rightarrow> reporting ds (map_prod (TField k') id (normalize_type_guarded reg visited depth v)))
      | TFunction ps t \<Rightarrow>
          (case normalize_types reg visited depth ps of (ps', ds) \<Rightarrow>
             reporting ds (map_prod (TFunction ps') id (normalize_type_guarded reg visited depth t)))
      | TUnion ts \<Rightarrow> map_prod TUnion id (normalize_types reg visited depth ts)
      | TApplied nm ts \<Rightarrow> map_prod (TApplied nm) id (normalize_types reg visited depth ts)
      | _ \<Rightarrow> (ty, []))"
| "normalize_types reg visited depth [] = ([], [])"
| "normalize_types reg visited depth (t # ts) =
     (case normalize_type_guarded reg visited depth t of (t', ds) \<Rightarrow> reporting ds (map_prod ((#) t') id (normalize_types reg visited depth ts)))"
  by pat_completeness auto

termination
  by (relation "measures [\<lambda>x. case x of Inl (reg, visited, depth, ty) \<Rightarrow> 66 - depth | Inr (reg, visited, depth, tys) \<Rightarrow> 66 - depth,
      \<lambda>x. case x of Inl (reg, visited, depth, ty) \<Rightarrow> size ty | Inr (reg, visited, depth, tys) \<Rightarrow> size_list size tys]")
    (auto simp: MAX_PROJECTION_REDUCTION_DEPTH_def)

definition normalize_type :: "Registry \<Rightarrow> Type \<Rightarrow> Type \<times> NormalizeDiagnostic list" where
  "normalize_type template_registry ty = normalize_type_guarded template_registry {} 0 ty"

section \<open>Normal forms\<close>

text \<open>Every projection that is left has a type parameter for base.\<close>

fun normal_type :: "Type \<Rightarrow> bool" where
  "normal_type (TProjection b m) \<longleftrightarrow> is_type_param b"
| "normal_type (TList t) \<longleftrightarrow> normal_type t"
| "normal_type (TSet t) \<longleftrightarrow> normal_type t"
| "normal_type (TKeyed t) \<longleftrightarrow> normal_type t"
| "normal_type (TOption t) \<longleftrightarrow> normal_type t"
| "normal_type (TComplex t) \<longleftrightarrow> normal_type t"
| "normal_type (TRange t) \<longleftrightarrow> normal_type t"
| "normal_type (TPoint n t) \<longleftrightarrow> normal_type t"
| "normal_type (TVector n t) \<longleftrightarrow> normal_type t"
| "normal_type (TTensor r n t) \<longleftrightarrow> normal_type t"
| "normal_type (TMatrix m n t) \<longleftrightarrow> normal_type t"
| "normal_type (TMap k v) \<longleftrightarrow> normal_type k \<and> normal_type v"
| "normal_type (TField k v) \<longleftrightarrow> normal_type k \<and> normal_type v"
| "normal_type (TFunction ts t) \<longleftrightarrow> list_all normal_type ts \<and> normal_type t"
| "normal_type (TUnion ts) \<longleftrightarrow> list_all normal_type ts"
| "normal_type (TApplied s ts) \<longleftrightarrow> list_all normal_type ts"
| "normal_type _ \<longleftrightarrow> True"

declare normalize_type_guarded.simps [simp del]

lemma reporting_simps [simp]: "fst (reporting ds r) = fst r" "snd (reporting ds r) = ds @ snd r"
  by (simp_all add: reporting_def)

lemma type_param_cases: "is_type_param t \<longleftrightarrow> (\<exists>p. t = TTypeParam p)"
  by (cases t) auto

lemma normalized_normal:
  "normal_type (fst (normalize_type_guarded reg visited depth ty))"
  "list_all normal_type (fst (normalize_types reg visited depth tys))"
proof (induction reg visited depth ty and reg visited depth tys
    rule: normalize_type_guarded_normalize_types.induct)
  case (1 reg visited depth ty)
  show ?case
  proof (cases "depth > MAX_PROJECTION_REDUCTION_DEPTH")
    case True
    then show ?thesis by (simp add: normalize_type_guarded.simps [of reg visited depth ty])
  next
    case False
    show ?thesis
    proof (cases ty)
      case (TProjection base member)
      obtain rb ds where rb: "normalize_type_guarded reg visited depth base = (rb, ds)" by fastforce
      have s: "normal_type (fst (normalize_type_guarded reg (insert (nm, [], member) visited) (Suc depth)
          (lookup_assoc_type_binding template member)))"
        if "rb = TStructureRef nm" "(nm, [], member) \<notin> visited" "reg nm = Some template" for nm template
        unfolding Suc_eq_plus1 by (rule 1(20) [OF False TProjection rb [symmetric] that])
      have a: "normal_type (fst (normalize_type_guarded reg (insert (nm, args, member) visited) (Suc depth)
          (substitute_type_params (param_bindings template args) (lookup_assoc_type_binding template member))))"
        if "rb = TApplied nm args" "(nm, args, member) \<notin> visited" "reg nm = Some template"
          "\<not> length args \<noteq> length (template_params template)" for nm args template
        unfolding Suc_eq_plus1 by (rule 1(21) [OF False TProjection rb [symmetric] that])
      show ?thesis unfolding TProjection normalize_type_guarded.simps [of reg visited depth "TProjection base member"]
        by (cases rb; simp add: rb False split: option.split; use s a in blast)
    next
      case (TList t)
      with 1(1) [OF False this] False show ?thesis
        by (simp add: normalize_type_guarded.simps [of reg visited depth "TList t"])
    next
      case (TSet t)
      with 1(2) [OF False this] False show ?thesis
        by (simp add: normalize_type_guarded.simps [of reg visited depth "TSet t"])
    next
      case (TMap k v)
      note ih = 1(3) [OF False TMap] 1(4) [OF False TMap prod.collapse]
      show ?thesis using ih by (simp add: TMap False normalize_type_guarded.simps [of reg visited depth "TMap k v"] case_prod_beta)
    next
      case (TKeyed t)
      with 1(5) [OF False this] False show ?thesis
        by (simp add: normalize_type_guarded.simps [of reg visited depth "TKeyed t"])
    next
      case (TOption t)
      with 1(6) [OF False this] False show ?thesis
        by (simp add: normalize_type_guarded.simps [of reg visited depth "TOption t"])
    next
      case (TFunction ts t)
      note ih = 1(7) [OF False TFunction] 1(8) [OF False TFunction prod.collapse]
      show ?thesis using ih by (simp add: TFunction False normalize_type_guarded.simps [of reg visited depth "TFunction ts t"] case_prod_beta)
    next
      case (TField k v)
      note ih = 1(9) [OF False TField] 1(10) [OF False TField prod.collapse]
      show ?thesis using ih by (simp add: TField False normalize_type_guarded.simps [of reg visited depth "TField k v"] case_prod_beta)
    next
      case (TPoint n t)
      with 1(11) [OF False this] False show ?thesis
        by (simp add: normalize_type_guarded.simps [of reg visited depth "TPoint n t"])
    next
      case (TVector n t)
      with 1(12) [OF False this] False show ?thesis
        by (simp add: normalize_type_guarded.simps [of reg visited depth "TVector n t"])
    next
      case (TTensor r n t)
      with 1(13) [OF False this] False show ?thesis
        by (simp add: normalize_type_guarded.simps [of reg visited depth "TTensor r n t"])
    next
      case (TComplex t)
      with 1(14) [OF False this] False show ?thesis
        by (simp add: normalize_type_guarded.simps [of reg visited depth "TComplex t"])
    next
      case (TRange t)
      with 1(15) [OF False this] False show ?thesis
        by (simp add: normalize_type_guarded.simps [of reg visited depth "TRange t"])
    next
      case (TMatrix m n t)
      with 1(16) [OF False this] False show ?thesis
        by (simp add: normalize_type_guarded.simps [of reg visited depth "TMatrix m n t"])
    next
      case (TUnion ts)
      with 1(17) [OF False this] False show ?thesis
        by (simp add: normalize_type_guarded.simps [of reg visited depth "TUnion ts"])
    next
      case (TApplied nm ts)
      with 1(18) [OF False this] False show ?thesis
        by (simp add: normalize_type_guarded.simps [of reg visited depth "TApplied nm ts"])
    qed (simp_all add: False normalize_type_guarded.simps [of reg visited depth])
  qed
next
  case (3 reg visited depth t ts)
  from 3(1) 3(2) [OF prod.collapse] show ?case by (simp add: case_prod_beta)
qed simp

lemma normal_list_unchanged:
  "(\<And>t. t \<in> set ts \<Longrightarrow> normal_type t \<Longrightarrow> normalize_type_guarded reg visited depth t = (t, [])) \<Longrightarrow>
     list_all normal_type ts \<Longrightarrow> normalize_types reg visited depth ts = (ts, [])"
  by (induction ts) (simp_all add: reporting_def)

lemma normal_unchanged:
  "normal_type ty \<Longrightarrow> depth \<le> MAX_PROJECTION_REDUCTION_DEPTH \<Longrightarrow> normalize_type_guarded reg visited depth ty = (ty, [])"
proof (induction ty)
  case (TProjection base member)
  then obtain p where "base = TTypeParam p" by (cases base) auto
  with TProjection show ?case
    by (simp add: normalize_type_guarded.simps [of reg visited depth "TProjection (TTypeParam p) member"]
        normalize_type_guarded.simps [of reg visited depth "TTypeParam p"])
qed (simp_all add: normalize_type_guarded.simps [of reg visited depth] normal_list_unchanged reporting_def)

text \<open>
  C33.  Reduction of associated types returns for every type and every registry,
  recursive or not: the result has no projection left except on a type
  parameter, and reducing it again changes nothing and reports nothing.
\<close>

theorem normalize_type_normal_form:
  "normal_type (fst (normalize_type reg ty))
   \<and> normalize_type reg (fst (normalize_type reg ty)) = (fst (normalize_type reg ty), [])"
  using normalized_normal(1) [of reg "{}" 0 ty] normal_unchanged [of "fst (normalize_type reg ty)" 0 reg "{}"]
  by (simp add: normalize_type_def)

end
