(* ===== verification/Reads.thy ===== *)
theory Reads
  imports Expr Worklist Types
begin

text \<open>
  Which auto parameters each dependent cell reads, through other cells
  (\<open>reify-constraints/src/dependent_reads.rs\<close>): an iterative depth-first search
  with a memo, and an exact walk for the cells whose memo is partial.  An index
  out of range is \<open>None\<close>; stacks have their top first.
\<close>

section \<open>The analysis\<close>

record AutoParam =
  ap_id :: ValueCellId
  param_type :: Type
  ap_bounds :: "(u64 \<times> u64) option"
  free :: bool

definition insert_value_ref :: "('v, 't) CompiledExpr \<Rightarrow> ValueCellId hash_set \<Rightarrow> ValueCellId hash_set" where
  "insert_value_ref node out = (case expr_kind node of ValueRef c \<Rightarrow> hs_insert c out | _ \<Rightarrow> out)"

text \<open>The free function \<open>collect_value_refs\<close> of this module, over bare references only.\<close>

definition bare_value_refs :: "('v, 't) CompiledExpr \<Rightarrow> ValueCellId hash_set \<Rightarrow> ValueCellId hash_set" where
  "bare_value_refs expr out = fold insert_value_ref (walk expr) out"

record CellEntry =
  autos :: "ValueCellId hash_set"
  foldable :: bool

type_synonym DependentCellReads = "(ValueCellId, CellEntry) hash_map"

datatype CellReads = NotACell | Foldable "ValueCellId hash_set" | Unfoldable "ValueCellId hash_set"

definition lookup_reads :: "DependentCellReads \<Rightarrow> ValueCellId \<Rightarrow> CellReads" where
  "lookup_reads reads c =
     (case hm_get reads c of
        None \<Rightarrow> NotACell
      | Some entry \<Rightarrow> if foldable entry then Foldable (autos entry) else Unfoldable (autos entry))"

text \<open>Every index of an identifier, by \<open>entry(id).or_default().push(i)\<close>.\<close>

definition build_cell_index ::
  "(ValueCellId \<times> ('v, 't) CompiledExpr) list \<Rightarrow> (ValueCellId, nat list) hash_map" where
  "build_cell_index cells =
     fold (\<lambda>(i, c, expr). hm_upsert c [] (\<lambda>is. is @ [i])) (enumerate 0 cells) []"

definition split_refs ::
  "ValueCellId hash_set \<Rightarrow> (ValueCellId, nat list) hash_map \<Rightarrow> ('v, 't) CompiledExpr
     \<Rightarrow> ValueCellId hash_set \<times> nat list" where
  "split_refs auto_ids cell_index expr =
     (let refs = bare_value_refs expr [] in
      (filter (\<lambda>r. r \<in> set auto_ids) refs,
       concat (map (\<lambda>r. if r \<in> set auto_ids then [] else
         case hm_get cell_index r of Some is \<Rightarrow> is | None \<Rightarrow> []) refs)))"

text \<open>\<open>state\<close>: 0 is unvisited, 1 on the stack, 2 resolved.\<close>

record dfs_state =
  memo :: "ValueCellId hash_set option list"
  incomplete :: "bool list"
  state :: "nat list"
  stack :: "nat list"

definition absorb_child ::
  "dfs_state \<Rightarrow> nat \<Rightarrow> ValueCellId hash_set \<times> bool \<Rightarrow> ValueCellId hash_set \<times> bool" where
  "absorb_child st child acc =
     (case memo st ! child of
        Some child_set \<Rightarrow> (fold hs_insert child_set (fst acc), snd acc \<or> incomplete st ! child)
      | None \<Rightarrow> (fst acc, True))"

definition dfs_enter :: "nat list list \<Rightarrow> nat \<Rightarrow> dfs_state \<Rightarrow> dfs_state" where
  "dfs_enter child_cells cur st =
     (let state1 = (state st)[cur := 1] in
      st\<lparr>state := state1,
         stack := rev (filter (\<lambda>child. state1 ! child = 0) (child_cells ! cur)) @ stack st\<rparr>)"

definition dfs_resolve :: "ValueCellId hash_set list \<Rightarrow> nat list list \<Rightarrow> nat \<Rightarrow> dfs_state \<Rightarrow> dfs_state" where
  "dfs_resolve direct_autos child_cells cur st =
     (let (autos_read, partial) = fold (absorb_child st) (child_cells ! cur) (direct_autos ! cur, False) in
      st\<lparr>memo := (memo st)[cur := Some autos_read], incomplete := (incomplete st)[cur := partial],
         state := (state st)[cur := 2], stack := tl (stack st)\<rparr>)"

lemma count_update:
  "i < length xs \<Longrightarrow> xs ! i = a \<Longrightarrow> b \<noteq> a \<Longrightarrow> Suc (count_list (xs[i := b]) a) = count_list xs a"
  "i < length xs \<Longrightarrow> xs ! i \<noteq> c \<Longrightarrow> b \<noteq> c \<Longrightarrow> count_list (xs[i := b]) c = count_list xs c"
  by (induction xs arbitrary: i) (auto simp: less_Suc_eq_0_disj)

lemma count_less: "i < length xs \<Longrightarrow> xs ! i = a \<Longrightarrow> b \<noteq> a \<Longrightarrow> count_list (xs[i := b]) a < count_list xs a"
  using count_update(1) [of i xs a b] by simp

function dfs_loop ::
  "ValueCellId hash_set list \<Rightarrow> nat list list \<Rightarrow> dfs_state \<Rightarrow> dfs_state option" where
  "dfs_loop direct_autos child_cells st =
     (case stack st of
        [] \<Rightarrow> Some st
      | cur # rest \<Rightarrow>
          if cur \<ge> length (state st) \<or> list_ex (\<lambda>child. child \<ge> length (state st)) (child_cells ! cur) then None
          else if state st ! cur = 0 then dfs_loop direct_autos child_cells (dfs_enter child_cells cur st)
          else if state st ! cur = 1 then
            dfs_loop direct_autos child_cells (dfs_resolve direct_autos child_cells cur st)
          else dfs_loop direct_autos child_cells (st\<lparr>stack := rest\<rparr>))"
  by pat_completeness auto

termination
  by (relation "measures [\<lambda>(d, c, st). count_list (state st) 0, \<lambda>(d, c, st). count_list (state st) 1,
      \<lambda>(d, c, st). length (stack st)]")
    (auto simp: dfs_enter_def dfs_resolve_def Let_def case_prod_beta count_update(2) count_less)

declare dfs_loop.simps [simp del]

fun dfs_starts ::
  "ValueCellId hash_set list \<Rightarrow> nat list list \<Rightarrow> nat list \<Rightarrow> dfs_state \<Rightarrow> dfs_state option" where
  "dfs_starts direct_autos child_cells [] st = Some st"
| "dfs_starts direct_autos child_cells (start # starts) st =
     (if state st ! start = 2 then dfs_starts direct_autos child_cells starts st
      else Option.bind (dfs_loop direct_autos child_cells (st\<lparr>stack := start # stack st\<rparr>))
        (dfs_starts direct_autos child_cells starts))"

text \<open>The walk of \<open>exact_reach\<close>: the nodes are marked when they are pushed.\<close>

definition push_unvisited :: "nat \<Rightarrow> bool list \<times> nat list \<Rightarrow> bool list \<times> nat list" where
  "push_unvisited child acc =
     (if \<not> fst acc ! child then ((fst acc)[child := True], child # snd acc) else acc)"

lemma push_unvisited_count:
  "list_all (\<lambda>child. child < length (fst acc)) cs \<Longrightarrow>
     count_list (fst (fold push_unvisited cs acc)) False + length (snd (fold push_unvisited cs acc))
       = count_list (fst acc) False + length (snd acc)
     \<and> length (fst (fold push_unvisited cs acc)) = length (fst acc)"
proof (induction cs arbitrary: acc)
  case (Cons c cs)
  have count: "count_list (xs[i := True]) False + 1 = count_list xs False" if "i < length xs" "\<not> xs ! i" for xs i
    using that by (induction xs arbitrary: i) (auto split: nat.split simp: less_Suc_eq_0_disj)
  from Cons count [of c "fst acc"] show ?case by (auto simp: push_unvisited_def)
qed simp

lemma push_count:
  "\<forall>c \<in> set cs. c < length v \<Longrightarrow>
     (case fold push_unvisited cs (v, r) of (v1, s1) \<Rightarrow> count_list v1 False + length s1) = count_list v False + length r"
  using push_unvisited_count [of "(v, r)" cs] by (simp add: list_all_iff case_prod_beta)

function reach_loop ::
  "ValueCellId hash_set list \<Rightarrow> nat list list \<Rightarrow> dfs_state \<Rightarrow> ValueCellId hash_set \<Rightarrow> bool list \<Rightarrow> nat list
     \<Rightarrow> ValueCellId hash_set option" where
  "reach_loop direct_autos child_cells st reach visited [] = Some reach"
| "reach_loop direct_autos child_cells st reach visited (node # rest) =
     (if node \<ge> length (incomplete st) \<or> list_ex (\<lambda>child. child \<ge> length visited) (child_cells ! node) then None
      else if \<not> incomplete st ! node then
        reach_loop direct_autos child_cells st
          (fold hs_insert (case memo st ! node of Some s \<Rightarrow> s | None \<Rightarrow> []) reach) visited rest
      else (case fold push_unvisited (child_cells ! node) (visited, rest) of
              (visited1, stack1) \<Rightarrow>
                reach_loop direct_autos child_cells st (fold hs_insert (direct_autos ! node) reach) visited1 stack1))"
  by pat_completeness auto

termination
  by (relation "measure (\<lambda>(d, c, st, reach, visited, stack). count_list visited False + length stack)")
    (auto simp: list_ex_iff not_le push_count)

definition exact_reach ::
  "nat \<Rightarrow> ValueCellId hash_set list \<Rightarrow> nat list list \<Rightarrow> dfs_state \<Rightarrow> ValueCellId hash_set option" where
  "exact_reach start direct_autos child_cells st =
     reach_loop direct_autos child_cells st [] ((replicate (length direct_autos) False)[start := True]) [start]"

definition dfs_init :: "nat \<Rightarrow> dfs_state" where
  "dfs_init n = \<lparr>memo = replicate n None, incomplete = replicate n False, state = replicate n 0, stack = []\<rparr>"

definition materialise_entry ::
  "ValueCellId hash_set list \<Rightarrow> bool list \<Rightarrow> nat \<times> ValueCellId \<times> ('v, 't) CompiledExpr \<Rightarrow> DependentCellReads \<Rightarrow> DependentCellReads" where
  "materialise_entry memos incs = (\<lambda>(i, c, expr).
     hm_upsert c \<lparr>autos = [], foldable = True\<rparr>
       (\<lambda>entry. entry\<lparr>autos := fold hs_insert (memos ! i) (autos entry),
          foldable := foldable entry \<and> \<not> incs ! i\<rparr>))"

definition materialise ::
  "(ValueCellId \<times> ('v, 't) CompiledExpr) list \<Rightarrow> ValueCellId hash_set list \<Rightarrow> bool list \<Rightarrow> DependentCellReads" where
  "materialise cells memos incs = fold (materialise_entry memos incs) (enumerate 0 cells) []"

definition dependent_cell_auto_reads ::
  "(ValueCellId \<times> ('v, 't) CompiledExpr) list \<Rightarrow> AutoParam list \<Rightarrow> DependentCellReads option" where
  "dependent_cell_auto_reads dependent_cells auto_params =
     (let n = length dependent_cells;
        auto_ids = fold hs_insert (map ap_id auto_params) [];
        splits = map (\<lambda>(c, expr). split_refs auto_ids (build_cell_index dependent_cells) expr) dependent_cells;
        direct_autos = map fst splits;
        child_cells = map snd splits
      in if n = 0 then Some []
         else Option.bind (dfs_starts direct_autos child_cells [0..<n] (dfs_init n)) (\<lambda>st.
           Option.bind (those (map (\<lambda>i. if incomplete st ! i then exact_reach i direct_autos child_cells st
               else Some (case memo st ! i of Some s \<Rightarrow> s | None \<Rightarrow> [])) [0..<n])) (\<lambda>memos.
             Some (materialise dependent_cells memos (incomplete st)))))"

record Reach =
  reach_foldable :: "ValueCellId list"
  reach_unfoldable :: "ValueCellId list"
  reads_unfoldable_cell :: bool

definition reach_all :: "Reach \<Rightarrow> ValueCellId list" where
  "reach_all r = reach_foldable r @ reach_unfoldable r"

definition reach_of :: "ValueCellId hash_set \<Rightarrow> DependentCellReads \<Rightarrow> Reach" where
  "reach_of refs reads =
     (let none = \<lparr>reach_foldable = [], reach_unfoldable = [], reads_unfoldable_cell = False\<rparr> in
      if reads = [] then none
      else fold (\<lambda>c reach.
        case lookup_reads reads c of
          NotACell \<Rightarrow> reach
        | Foldable as \<Rightarrow> reach\<lparr>reach_foldable := reach_foldable reach @ as\<rparr>
        | Unfoldable as \<Rightarrow> reach\<lparr>reads_unfoldable_cell := True, reach_unfoldable := reach_unfoldable reach @ as\<rparr>)
        refs none)"

section \<open>The search\<close>

definition edges :: "nat list list \<Rightarrow> (nat \<times> nat) set" where
  "edges C = {(i, j). i < length C \<and> j \<in> set (C ! i)}"

definition graph_ok :: "nat list list \<Rightarrow> bool" where
  "graph_ok C \<longleftrightarrow> (\<forall>i < length C. \<forall>j \<in> set (C ! i). j < length C)"

definition cyclic :: "nat list list \<Rightarrow> nat \<Rightarrow> bool" where
  "cyclic C i \<longleftrightarrow> (\<exists>j. (i, j) \<in> (edges C)\<^sup>* \<and> (j, j) \<in> (edges C)\<^sup>+)"

definition reached :: "ValueCellId hash_set list \<Rightarrow> nat list list \<Rightarrow> nat \<Rightarrow> ValueCellId set" where
  "reached D C i = (\<Union>j \<in> (edges C)\<^sup>* `` {i}. set (D ! j))"

lemma cyclic_step: "(i, j) \<in> edges C \<Longrightarrow> cyclic C j \<Longrightarrow> cyclic C i"
  unfolding cyclic_def by (meson converse_rtrancl_into_rtrancl)

lemma cyclic_self: "(i, i) \<in> (edges C)\<^sup>+ \<Longrightarrow> cyclic C i"
  unfolding cyclic_def by blast

text \<open>
  The invariant: shape; the nodes in progress reach what is above them on the
  stack, where their unvisited children are; resolved nodes are exact, with a
  rank that falls along edges, or reach a cycle.
\<close>

definition dfs_shape :: "nat list list \<Rightarrow> dfs_state \<Rightarrow> bool" where
  "dfs_shape C st \<longleftrightarrow>
     length (memo st) = length C \<and> length (incomplete st) = length C \<and> length (state st) = length C
     \<and> set (stack st) \<subseteq> {..<length C}
     \<and> (\<forall>i < length C. state st ! i \<in> {0, 1, 2} \<and> (memo st ! i \<noteq> None \<longleftrightarrow> state st ! i = 2))"

definition above :: "dfs_state \<Rightarrow> nat \<Rightarrow> nat set" where
  "above st v = set (takeWhile (\<lambda>x. x \<noteq> v) (stack st))"

definition dfs_paths :: "nat list list \<Rightarrow> dfs_state \<Rightarrow> bool" where
  "dfs_paths C st \<longleftrightarrow>
     (\<forall>v < length C. state st ! v = 1 \<longrightarrow>
        v \<in> set (stack st) \<and> (\<forall>w \<in> above st v. (v, w) \<in> (edges C)\<^sup>+)
        \<and> (\<forall>c \<in> set (C ! v). state st ! c \<noteq> 0 \<or> c \<in> above st v))"

definition resolved_ok :: "ValueCellId hash_set list \<Rightarrow> nat list list \<Rightarrow> dfs_state \<Rightarrow> (nat \<Rightarrow> nat) \<Rightarrow> nat \<Rightarrow> bool" where
  "resolved_ok D C st rk i \<longleftrightarrow>
     (if incomplete st ! i then cyclic C i
      else set (the (memo st ! i)) = set (D ! i) \<union> (\<Union>c \<in> set (C ! i). set (the (memo st ! c)))
        \<and> (\<forall>c \<in> set (C ! i). state st ! c = 2 \<and> \<not> incomplete st ! c \<and> rk c < rk i))"

definition dfs_done :: "ValueCellId hash_set list \<Rightarrow> nat list list \<Rightarrow> dfs_state \<Rightarrow> (nat \<Rightarrow> nat) \<Rightarrow> bool" where
  "dfs_done D C st rk \<longleftrightarrow> (\<forall>i < length C. state st ! i = 2 \<longrightarrow> resolved_ok D C st rk i)"

definition dfs_inv :: "ValueCellId hash_set list \<Rightarrow> nat list list \<Rightarrow> nat set \<Rightarrow> dfs_state \<Rightarrow> bool" where
  "dfs_inv D C X st \<longleftrightarrow>
     dfs_shape C st \<and> dfs_paths C st \<and> (\<exists>rk. dfs_done D C st rk)
     \<and> (\<forall>x \<in> X. x < length C \<and> (state st ! x = 2 \<or> x \<in> set (stack st)))"

lemma dfs_shapeD:
  "dfs_shape C st \<Longrightarrow> i < length C \<Longrightarrow> state st ! i \<in> {0, 1, 2}"
  "dfs_shape C st \<Longrightarrow> i < length C \<Longrightarrow> memo st ! i \<noteq> None \<longleftrightarrow> state st ! i = 2"
  "dfs_shape C st \<Longrightarrow> length (state st) = length C"
  "dfs_shape C st \<Longrightarrow> stack st = cur # rest \<Longrightarrow> cur < length C"
  unfolding dfs_shape_def by (blast, blast, blast, simp)

lemma set_fold_insert [simp]: "set (fold hs_insert xs s) = set xs \<union> set s"
  by (induction xs arbitrary: s) auto

lemma absorb_children:
  "set (fst (fold (absorb_child st) cs acc))
     = set (fst acc) \<union> (\<Union>c \<in> {c \<in> set cs. memo st ! c \<noteq> None}. set (the (memo st ! c)))"
  "snd (fold (absorb_child st) cs acc)
     \<longleftrightarrow> snd acc \<or> (\<exists>c \<in> set cs. memo st ! c = None \<or> incomplete st ! c)"
  by (induction cs arbitrary: acc) (auto simp: absorb_child_def split: option.split)

lemma dfs_enter_inv:
  assumes inv: "dfs_inv D C X st" and ok: "graph_ok C"
    and cur: "stack st = cur # rest" "state st ! cur = 0"
  shows "dfs_inv D C X (dfs_enter C cur st)"
proof -
  let ?st = "dfs_enter C cur st"
  let ?new = "rev (filter (\<lambda>c. (state st)[cur := 1] ! c = 0) (C ! cur))"
  have sh: "dfs_shape C st" and pa: "dfs_paths C st" using inv by (auto simp: dfs_inv_def)
  have t: "cur < length C" "cur < length (state st)" using sh cur(1) by (auto simp: dfs_shape_def)
  have st: "state ?st = (state st)[cur := 1]" "stack ?st = ?new @ stack st" "memo ?st = memo st"
    "incomplete ?st = incomplete st" by (simp_all add: dfs_enter_def Let_def)
  have new: "set ?new \<subseteq> set (C ! cur)" "\<forall>c \<in> set ?new. (state st)[cur := 1] ! c = 0" by auto
  have cur_new: "cur \<notin> set ?new" using t by simp
  have "dfs_shape C ?st"
    using sh ok t new(1) cur unfolding dfs_shape_def st graph_ok_def by (auto simp: nth_list_update)
  moreover have "dfs_paths C ?st"
  proof (unfold dfs_paths_def, intro allI impI)
    fix v assume v: "v < length C" "state ?st ! v = 1"
    show "v \<in> set (stack ?st) \<and> (\<forall>w \<in> above ?st v. (v, w) \<in> (edges C)\<^sup>+)
        \<and> (\<forall>c \<in> set (C ! v). state ?st ! c \<noteq> 0 \<or> c \<in> above ?st v)"
    proof (cases "v = cur")
      case True
      have "above ?st v = set ?new"
        using cur_new unfolding above_def st cur True by (subst takeWhile_append2) auto
      then show ?thesis using t True cur(1) unfolding st by (auto simp: edges_def intro!: r_into_trancl)
    next
      case False
      have v1: "state st ! v = 1" "v \<notin> set ?new" using v(2) False new(2) unfolding st by auto
      have "above ?st v = set ?new \<union> above st v"
        using v1(2) unfolding above_def st by (subst takeWhile_append2) auto
      moreover have "cur \<in> above st v" using False cur(1) by (simp add: above_def)
      moreover have old: "v \<in> set (stack st) \<and> (\<forall>w \<in> above st v. (v, w) \<in> (edges C)\<^sup>+)
          \<and> (\<forall>c \<in> set (C ! v). state st ! c \<noteq> 0 \<or> c \<in> above st v)"
        using pa v(1) v1(1) by (simp add: dfs_paths_def)
      ultimately show ?thesis using new(1) t unfolding st
        by (auto simp: edges_def nth_list_update intro: trancl_into_trancl)
    qed
  qed
  moreover have "dfs_done D C ?st rk" if "dfs_done D C st rk" for rk
    using that t cur(2) unfolding dfs_done_def resolved_ok_def st
    by (auto simp: nth_list_update split: if_splits)
  moreover have "\<forall>x \<in> X. x < length C \<and> (state ?st ! x = 2 \<or> x \<in> set (stack ?st))"
    using inv cur t unfolding dfs_inv_def st by (auto simp: nth_list_update)
  ultimately show ?thesis using inv by (auto simp: dfs_inv_def)
qed

lemma nth_update_mem: "c \<in> S \<Longrightarrow> i \<notin> S \<Longrightarrow> xs[i := y] ! c = xs ! c"
  by (metis nth_list_update_neq)

lemma resolve_inv:
  assumes inv: "dfs_inv D C X st" and ok: "graph_ok C"
    and cur: "stack st = cur # rest" "state st ! cur = 1"
  shows "dfs_inv D C X (dfs_resolve D C cur st)"
proof -
  let ?st = "dfs_resolve D C cur st"
  let ?r = "fold (absorb_child st) (C ! cur) (D ! cur, False)"
  have sh: "dfs_shape C st" and pa: "dfs_paths C st" using inv by (auto simp: dfs_inv_def)
  obtain rk where rk: "dfs_done D C st rk" using inv by (auto simp: dfs_inv_def)
  have t: "cur < length C" "cur < length (state st)" "cur < length (memo st)" "cur < length (incomplete st)"
    using sh cur(1) by (auto simp: dfs_shape_def)
  have st: "state ?st = (state st)[cur := 2]" "stack ?st = rest" "memo ?st = (memo st)[cur := Some (fst ?r)]"
    "incomplete ?st = (incomplete st)[cur := snd ?r]"
    by (simp_all add: dfs_resolve_def Let_def case_prod_beta cur)
  have kids: "state st ! c \<noteq> 0" "c < length C" if "c \<in> set (C ! cur)" for c
    using pa t(1) cur that ok by (auto simp: dfs_paths_def above_def graph_ok_def)
  have "dfs_shape C ?st"
    using sh t cur unfolding dfs_shape_def st by (auto simp: nth_list_update)
  moreover have "dfs_paths C ?st"
  proof (unfold dfs_paths_def, intro allI impI)
    fix v assume v: "v < length C" "state ?st ! v = 1"
    then have v1: "v \<noteq> cur" "state st ! v = 1" using t unfolding st by (auto simp: nth_list_update split: if_splits)
    have "above st v = insert cur (above ?st v)" using v1(1) cur(1) unfolding above_def st by simp
    moreover have "v \<in> set (stack st) \<and> (\<forall>w \<in> above st v. (v, w) \<in> (edges C)\<^sup>+)
        \<and> (\<forall>c \<in> set (C ! v). state st ! c \<noteq> 0 \<or> c \<in> above st v)"
      using pa v(1) v1(2) by (simp add: dfs_paths_def)
    ultimately show "v \<in> set (stack ?st) \<and> (\<forall>w \<in> above ?st v. (v, w) \<in> (edges C)\<^sup>+)
        \<and> (\<forall>c \<in> set (C ! v). state ?st ! c \<noteq> 0 \<or> c \<in> above ?st v)"
      using v1(1) cur(1) t unfolding st by (auto simp: nth_list_update)
  qed
  moreover have "\<exists>rk. dfs_done D C ?st rk"
  proof -
    define rk' where "rk' = rk(cur := Suc (sum_list (map rk (C ! cur))))"
    have below: "rk c < Suc (sum_list (map rk (C ! cur)))" if "c \<in> set (C ! cur)" for c
      using member_le_sum_list [of "rk c" "map rk (C ! cur)"] that by simp
    have "resolved_ok D C ?st rk' i" if i: "i < length C" "state ?st ! i = 2" for i
    proof (cases "i = cur")
      case False
      then have "state st ! i = 2" using i(2) t unfolding st by (simp add: nth_list_update split: if_splits)
      then have "resolved_ok D C st rk i" using rk i(1) by (simp add: dfs_done_def)
      then have ok: "if incomplete st ! i then cyclic C i
          else cur \<notin> set (C ! i)
            \<and> set (the (memo st ! i)) = set (D ! i) \<union> (\<Union>c \<in> set (C ! i). set (the (memo st ! c)))
            \<and> (\<forall>c \<in> set (C ! i). state st ! c = 2 \<and> \<not> incomplete st ! c \<and> rk c < rk i)"
        using cur(2) by (auto simp: resolved_ok_def)
      show ?thesis
      proof (cases "incomplete st ! i")
        case True
        then show ?thesis using ok False unfolding resolved_ok_def st by simp
      next
        case whole: False
        then have "cur \<notin> set (C ! i)" using ok by simp
        note [simp] = nth_update_mem [OF _ this]
        have "rk' c = rk c" if "c \<in> set (C ! i)" for c using that \<open>cur \<notin> set (C ! i)\<close> by (auto simp: rk'_def)
        then show ?thesis using ok whole False unfolding resolved_ok_def st by (simp add: rk'_def)
      qed
    next
      case True
      have memo_state: "memo st ! c \<noteq> None \<longleftrightarrow> state st ! c = 2" if "c \<in> set (C ! cur)" for c
        using sh kids [OF that] by (simp add: dfs_shape_def)
      show ?thesis
      proof (cases "snd ?r")
        case partial: True
        then obtain c where c: "c \<in> set (C ! cur)" "memo st ! c = None \<or> incomplete st ! c"
          by (auto simp: absorb_children)
        have e: "(cur, c) \<in> edges C" using c(1) t by (simp add: edges_def)
        have "cyclic C cur"
        proof (cases "state st ! c = 2")
          case True
          then have "memo st ! c \<noteq> None" using memo_state [OF c(1)] by simp
          with c(2) have "incomplete st ! c" by (elim disjE; simp)
          moreover have "resolved_ok D C st rk c" using rk True kids [OF c(1)] by (simp add: dfs_done_def)
          ultimately have "cyclic C c" by (simp add: resolved_ok_def)
          then show ?thesis using cyclic_step e by blast
        next
          case False
          have "state st ! c \<in> {0, 1, 2}" using sh kids(2) [OF c(1)] unfolding dfs_shape_def by blast
          with False have c1: "state st ! c = 1" using kids(1) [OF c(1)] by simp
          have "c = cur \<or> (c, cur) \<in> (edges C)\<^sup>+"
            using pa c1 kids [OF c(1)] cur(1) by (auto simp: dfs_paths_def above_def)
          then have "(cur, cur) \<in> (edges C)\<^sup>+" using e by (metis r_into_trancl trancl_into_trancl2)
          then show ?thesis by (rule cyclic_self)
        qed
        then show ?thesis using partial t True unfolding resolved_ok_def st by simp
      next
        case full: False
        then have c: "memo st ! c \<noteq> None" "\<not> incomplete st ! c" "state st ! c = 2" "c \<noteq> cur" if "c \<in> set (C ! cur)" for c
          using that memo_state cur(2) by (auto simp: absorb_children)
        have "set (fst ?r) = set (D ! cur) \<union> (\<Union>c \<in> set (C ! cur). set (the (memo st ! c)))"
          using c(1) by (auto simp: absorb_children)
        moreover have "cur \<notin> set (C ! cur)" using c(4) by blast
        note [simp] = nth_update_mem [OF _ this]
        have "rk' c < rk' cur" if "c \<in> set (C ! cur)" for c
          using that below c(4) by (auto simp: rk'_def)
        ultimately show ?thesis using full t c(2,3) True unfolding resolved_ok_def st by simp
      qed
    qed
    then show ?thesis by (auto simp: dfs_done_def)
  qed
  moreover have "\<forall>x \<in> X. x < length C \<and> (state ?st ! x = 2 \<or> x \<in> set (stack ?st))"
    using inv cur t unfolding dfs_inv_def st by (auto simp: nth_list_update)
  ultimately show ?thesis by (simp add: dfs_inv_def)
qed

lemma pop_inv:
  assumes inv: "dfs_inv D C X st" and cur: "stack st = cur # rest" "state st ! cur = 2"
  shows "dfs_inv D C X (st\<lparr>stack := rest\<rparr>)"
proof -
  have "dfs_paths C (st\<lparr>stack := rest\<rparr>)"
  proof (unfold dfs_paths_def, intro allI impI)
    fix v assume v: "v < length C" "state (st\<lparr>stack := rest\<rparr>) ! v = 1"
    then have "v \<noteq> cur" using cur(2) by auto
    then have "above st v = insert cur (above (st\<lparr>stack := rest\<rparr>) v)" using cur(1) by (simp add: above_def)
    moreover have "v \<in> set (stack st) \<and> (\<forall>w \<in> above st v. (v, w) \<in> (edges C)\<^sup>+)
        \<and> (\<forall>c \<in> set (C ! v). state st ! c \<noteq> 0 \<or> c \<in> above st v)"
      using inv v by (simp add: dfs_inv_def dfs_paths_def)
    ultimately show "v \<in> set (stack (st\<lparr>stack := rest\<rparr>)) \<and> (\<forall>w \<in> above (st\<lparr>stack := rest\<rparr>) v. (v, w) \<in> (edges C)\<^sup>+)
        \<and> (\<forall>c \<in> set (C ! v). state (st\<lparr>stack := rest\<rparr>) ! c \<noteq> 0 \<or> c \<in> above (st\<lparr>stack := rest\<rparr>) v)"
      using cur \<open>v \<noteq> cur\<close> by auto
  qed
  moreover have "dfs_done D C (st\<lparr>stack := rest\<rparr>) rk = dfs_done D C st rk" for rk
    by (simp add: dfs_done_def resolved_ok_def)
  moreover have "dfs_shape C (st\<lparr>stack := rest\<rparr>)" using inv cur(1) by (simp add: dfs_inv_def dfs_shape_def)
  moreover have "\<forall>x \<in> X. x < length C \<and> (state st ! x = 2 \<or> x \<in> set rest)"
    using inv cur by (auto simp: dfs_inv_def)
  ultimately show ?thesis using inv by (simp add: dfs_inv_def)
qed

lemma dfs_loop_inv:
  "graph_ok C \<Longrightarrow> dfs_inv D C X st \<Longrightarrow> \<exists>st'. dfs_loop D C st = Some st' \<and> dfs_inv D C X st' \<and> stack st' = []"
proof (induction D C st rule: dfs_loop.induct)
  case (1 D C st)
  show ?case
  proof (cases "stack st")
    case Nil
    then show ?thesis using 1(5) by (simp add: dfs_loop.simps [of D C st])
  next
    case (Cons cur rest)
    have sh: "dfs_shape C st" using 1(5) by (simp add: dfs_inv_def)
    have t: "cur < length C" "length (state st) = length C" "state st ! cur \<in> {0, 1, 2}"
      using dfs_shapeD(4) [OF sh Cons] dfs_shapeD(3) [OF sh] dfs_shapeD(1) [OF sh] by blast+
    then have ok: "\<not> (cur \<ge> length (state st) \<or> list_ex (\<lambda>c. c \<ge> length (state st)) (C ! cur))"
      using 1(4) by (simp add: graph_ok_def list_ex_iff not_le)
    note unfold = dfs_loop.simps [of D C st, unfolded Cons list.case if_not_P [OF ok]]
    consider "state st ! cur = 0" | "state st ! cur = 1" | "state st ! cur = 2" using t(3) by auto
    then show ?thesis
    proof cases
      case a: 1
      then have eq: "dfs_loop D C st = dfs_loop D C (dfs_enter C cur st)" by (subst unfold) (rule if_P)
      show ?thesis unfolding eq by (rule "1.IH"(1) [OF Cons ok a 1(4) dfs_enter_inv [OF 1(5,4) Cons a]])
    next
      case a: 2
      then have ne: "state st ! cur \<noteq> 0" by simp
      have eq: "dfs_loop D C st = dfs_loop D C (dfs_resolve D C cur st)"
        unfolding unfold if_not_P [OF ne] by (rule if_P) (rule a)
      show ?thesis unfolding eq by (rule "1.IH"(2) [OF Cons ok ne a 1(4) resolve_inv [OF 1(5,4) Cons a]])
    next
      case a: 3
      then have ne: "state st ! cur \<noteq> 0" "state st ! cur \<noteq> 1" by simp_all
      have eq: "dfs_loop D C st = dfs_loop D C (st\<lparr>stack := rest\<rparr>)"
        unfolding unfold if_not_P [OF ne(1)] by (rule if_not_P) (rule ne(2))
      show ?thesis unfolding eq by (rule "1.IH"(3) [OF Cons ok ne 1(4) pop_inv [OF 1(5) Cons a]])
    qed
  qed
qed

lemma dfs_inv_start:
  assumes inv: "dfs_inv D C X st" and st: "stack st = []" and s: "s < length C"
  shows "dfs_inv D C (insert s X) (st\<lparr>stack := [s]\<rparr>)"
proof -
  have "state st ! v \<noteq> 1" if "v < length C" for v
    using inv st that unfolding dfs_inv_def dfs_paths_def by fastforce
  then have "dfs_paths C (st\<lparr>stack := [s]\<rparr>)" by (simp add: dfs_paths_def)
  moreover have "dfs_done D C (st\<lparr>stack := [s]\<rparr>) rk = dfs_done D C st rk" for rk
    by (simp add: dfs_done_def resolved_ok_def)
  moreover have "dfs_shape C (st\<lparr>stack := [s]\<rparr>)" using inv s by (simp add: dfs_inv_def dfs_shape_def)
  moreover have "\<forall>x \<in> insert s X. x < length C \<and> (state st ! x = 2 \<or> x \<in> {s})"
    using inv st s unfolding dfs_inv_def by auto
  ultimately show ?thesis using inv by (simp add: dfs_inv_def)
qed

lemma dfs_starts_inv:
  "graph_ok C \<Longrightarrow> dfs_inv D C X st \<Longrightarrow> stack st = [] \<Longrightarrow> \<forall>s \<in> set starts. s < length C \<Longrightarrow>
     \<exists>st'. dfs_starts D C starts st = Some st' \<and> dfs_inv D C (X \<union> set starts) st' \<and> stack st' = []"
proof (induction starts arbitrary: st X)
  case (Cons s starts)
  have "\<exists>st1. (if state st ! s = 2 then Some st else dfs_loop D C (st\<lparr>stack := [s]\<rparr>)) = Some st1
      \<and> dfs_inv D C (insert s X) st1 \<and> stack st1 = []"
  proof (cases "state st ! s = 2")
    case True
    then have "dfs_inv D C (insert s X) st" using Cons.prems(2,4) by (simp add: dfs_inv_def)
    with True Cons.prems(3) show ?thesis by simp
  next
    case False
    have "dfs_inv D C (insert s X) (st\<lparr>stack := [s]\<rparr>)" using Cons.prems by (intro dfs_inv_start) simp_all
    from dfs_loop_inv [OF Cons.prems(1) this] False show ?thesis by simp
  qed
  then obtain st1 where st1: "(if state st ! s = 2 then Some st else dfs_loop D C (st\<lparr>stack := [s]\<rparr>)) = Some st1"
    "dfs_inv D C (insert s X) st1" "stack st1 = []" by blast
  have "dfs_starts D C (s # starts) st = dfs_starts D C starts st1"
    using st1(1) Cons.prems(3) by (simp split: if_splits)
  moreover have "insert s X \<union> set starts = X \<union> set (s # starts)" by auto
  ultimately show ?case using Cons.IH [OF Cons.prems(1) st1(2,3)] Cons.prems(4) by simp
qed simp

lemma dfs_init_inv: "dfs_inv D C {} (dfs_init (length C))"
  by (auto simp: dfs_inv_def dfs_init_def dfs_shape_def dfs_paths_def dfs_done_def)

definition dfs_final :: "ValueCellId hash_set list \<Rightarrow> nat list list \<Rightarrow> dfs_state \<Rightarrow> bool" where
  "dfs_final D C st \<longleftrightarrow>
     length (incomplete st) = length C \<and> length (memo st) = length C
     \<and> (\<forall>i < length C. (incomplete st ! i \<longleftrightarrow> cyclic C i)
          \<and> (\<exists>s. memo st ! i = Some s \<and> (\<not> incomplete st ! i \<longrightarrow> set s = reached D C i)))"

lemma edges_closed:
  assumes "graph_ok C" "(i, j) \<in> (edges C)\<^sup>*" "i < length C"
  shows "j < length C"
  using assms(2,1,3) by (induction rule: rtrancl_induct) (auto simp: edges_def graph_ok_def)

lemma reached_step:
  assumes "i < length C"
  shows "reached D C i = set (D ! i) \<union> (\<Union>c \<in> set (C ! i). reached D C c)"
proof -
  have "(edges C)\<^sup>* `` {i} = insert i (\<Union>c \<in> set (C ! i). (edges C)\<^sup>* `` {c})"
    using assms by (auto simp: edges_def elim: converse_rtranclE intro: converse_rtrancl_into_rtrancl)
  then show ?thesis by (auto simp: reached_def)
qed

lemma dfs_inv_final:
  assumes ok: "graph_ok C" and inv: "dfs_inv D C {..<length C} st" and "stack st = []"
  shows "dfs_final D C st"
proof -
  obtain rk where rk: "dfs_done D C st rk" using inv by (auto simp: dfs_inv_def)
  have all: "state st ! i = 2" if "i < length C" for i using inv assms(3) that by (auto simp: dfs_inv_def)
  have shape: "dfs_shape C st" using inv by (simp add: dfs_inv_def)
  have res: "resolved_ok D C st rk i" if "i < length C" for i using rk all [OF that] that by (simp add: dfs_done_def)
  have step: "\<not> incomplete st ! j \<and> rk j < rk i \<and> j < length C"
    if "(i, j) \<in> edges C" "\<not> incomplete st ! i" for i j
    using res [of i] that ok by (auto simp: edges_def resolved_ok_def graph_ok_def)
  have down: "\<not> incomplete st ! j \<and> rk j < rk i" if "(i, j) \<in> (edges C)\<^sup>+" "\<not> incomplete st ! i" for i j
    using that by (induction rule: trancl_induct) (auto dest: step)
  have acyclic: "\<not> cyclic C i" if "\<not> incomplete st ! i" for i
  proof
    assume "cyclic C i"
    then obtain j where j: "(i, j) \<in> (edges C)\<^sup>*" "(j, j) \<in> (edges C)\<^sup>+" by (auto simp: cyclic_def)
    then have "\<not> incomplete st ! j" using down [of i j] that by (auto simp: rtrancl_eq_or_trancl)
    with down [OF j(2)] show False by simp
  qed
  have exact: "set (the (memo st ! i)) = reached D C i" if "i < length C" "\<not> incomplete st ! i" for i
    using that
  proof (induction "rk i" arbitrary: i rule: less_induct)
    case less
    then have r: "set (the (memo st ! i)) = set (D ! i) \<union> (\<Union>c \<in> set (C ! i). set (the (memo st ! c)))"
      "\<forall>c \<in> set (C ! i). \<not> incomplete st ! c \<and> rk c < rk i"
      using res [of i] by (auto simp: resolved_ok_def)
    have "set (the (memo st ! c)) = reached D C c" if "c \<in> set (C ! i)" for c
      using less.hyps r(2) that less.prems(1) ok by (simp add: graph_ok_def)
    then show ?case using r(1) reached_step [OF less.prems(1)] by simp
  qed
  have "incomplete st ! i \<longleftrightarrow> cyclic C i" if "i < length C" for i
    using acyclic res [OF that] by (auto simp: resolved_ok_def)
  moreover have "\<exists>s. memo st ! i = Some s" if "i < length C" for i
    using shape all [OF that] that by (auto simp: dfs_shape_def)
  ultimately show ?thesis using exact shape by (fastforce simp: dfs_final_def dfs_shape_def)
qed

section \<open>The exact walk\<close>

definition marked :: "bool list \<Rightarrow> nat set" where
  "marked visited = {i. i < length visited \<and> visited ! i}"

lemma push_unvisited_marks:
  "list_all (\<lambda>c. c < length (fst acc)) cs \<Longrightarrow> distinct (snd acc) \<Longrightarrow> set (snd acc) \<subseteq> marked (fst acc) \<Longrightarrow>
     marked (fst (fold push_unvisited cs acc)) = marked (fst acc) \<union> set cs
     \<and> distinct (snd (fold push_unvisited cs acc))
     \<and> set (snd (fold push_unvisited cs acc)) = set (snd acc) \<union> (set cs - marked (fst acc))
     \<and> length (fst (fold push_unvisited cs acc)) = length (fst acc)"
proof (induction cs arbitrary: acc)
  case (Cons c cs)
  show ?case
  proof (cases "fst acc ! c")
    case True
    then have "c \<in> marked (fst acc)" using Cons.prems(1) by (simp add: marked_def)
    with True Cons show ?thesis by (auto simp: push_unvisited_def)
  next
    case False
    let ?acc = "((fst acc)[c := True], c # snd acc)"
    have m: "marked (fst ?acc) = insert c (marked (fst acc))"
      using Cons.prems(1) by (auto simp: marked_def nth_list_update)
    have "c \<notin> marked (fst acc)" using False by (simp add: marked_def)
    with Cons.prems m have "distinct (snd ?acc)" "set (snd ?acc) \<subseteq> marked (fst ?acc)"
      "list_all (\<lambda>c. c < length (fst ?acc)) cs" by auto
    from Cons.IH [OF this(3,1,2)] m False \<open>c \<notin> marked (fst acc)\<close> show ?thesis
      by (auto simp: push_unvisited_def)
  qed
qed simp

definition open_edges :: "nat list list \<Rightarrow> dfs_state \<Rightarrow> (nat \<times> nat) set" where
  "open_edges C st = {(i, j) \<in> edges C. incomplete st ! i}"

definition part :: "ValueCellId hash_set list \<Rightarrow> dfs_state \<Rightarrow> nat \<Rightarrow> ValueCellId set" where
  "part D st i = (if incomplete st ! i then set (D ! i) else set (the (memo st ! i)))"

definition reach_inv ::
  "ValueCellId hash_set list \<Rightarrow> nat list list \<Rightarrow> dfs_state \<Rightarrow> nat \<Rightarrow> ValueCellId hash_set \<Rightarrow> bool list \<Rightarrow> nat list \<Rightarrow> bool" where
  "reach_inv D C st s reach visited todo \<longleftrightarrow>
     length visited = length C \<and> distinct todo \<and> set todo \<subseteq> marked visited
     \<and> s \<in> marked visited \<and> marked visited \<subseteq> (open_edges C st)\<^sup>* `` {s}
     \<and> (\<forall>x \<in> marked visited - set todo. open_edges C st `` {x} \<subseteq> marked visited)
     \<and> set reach = (\<Union>x \<in> marked visited - set todo. part D st x)"

lemma open_edges_at: "i < length C \<Longrightarrow> open_edges C st `` {i} = (if incomplete st ! i then set (C ! i) else {})"
  by (auto simp: open_edges_def edges_def)

lemma reach_loop_spec:
  "graph_ok C \<Longrightarrow> dfs_final D C st \<Longrightarrow> reach_inv D C st s reach visited todo \<Longrightarrow>
    \<exists>r. reach_loop D C st reach visited todo = Some r \<and> set r = (\<Union>x \<in> (open_edges C st)\<^sup>* `` {s}. part D st x)"
proof (induction D C st reach visited todo rule: reach_loop.induct)
  case (1 D C st reach visited)
  then have "(open_edges C st)\<^sup>* `` {s} \<subseteq> marked visited"
    by (intro rtrancl_Image_least) (auto simp: reach_inv_def)
  with 1 show ?case by (auto simp: reach_inv_def)
next
  case (2 D C st reach visited node rest)
  note inv = 2(5) [unfolded reach_inv_def]
  have n: "node < length C" "node \<in> marked visited" "node \<notin> set rest" "length visited = length C"
    using inv by (auto simp: marked_def)
  have len: "length (incomplete st) = length C" using 2(4) by (simp add: dfs_final_def)
  have kids: "list_all (\<lambda>c. c < length visited) (C ! node)"
    using 2(3) n by (auto simp: graph_ok_def list_all_iff)
  then have guard: "\<not> (node \<ge> length (incomplete st) \<or> list_ex (\<lambda>c. c \<ge> length visited) (C ! node))"
    using n len by (auto simp: list_all_iff list_ex_iff not_le)
  have leave: "marked visited - set rest = insert node (marked visited - set (node # rest))" using n by auto
  show ?case
  proof (cases "incomplete st ! node")
    case False
    obtain m where m: "memo st ! node = Some m" using 2(4) n(1) by (auto simp: dfs_final_def)
    have "reach_inv D C st s (fold hs_insert m reach) visited rest"
      using inv False m open_edges_at [OF n(1), of st] unfolding reach_inv_def leave by (auto simp: part_def)
    with 2(1) [OF guard False 2(3,4)] guard False m show ?thesis by simp
  next
    case True
    obtain v1 s1 where push: "fold push_unvisited (C ! node) (visited, rest) = (v1, s1)" by fastforce
    have "distinct rest" "set rest \<subseteq> marked visited" using inv by auto
    with push_unvisited_marks [of "(visited, rest)" "C ! node"] kids push
    have v1: "marked v1 = marked visited \<union> set (C ! node)" "distinct s1"
      "set s1 = set rest \<union> (set (C ! node) - marked visited)" "length v1 = length C"
      using n by auto
    have left: "marked v1 - set s1 = insert node (marked visited - set (node # rest))"
      using v1 n by auto
    have path: "(s, node) \<in> (open_edges C st)\<^sup>*" using inv n by auto
    have out: "open_edges C st `` {node} = set (C ! node)" using open_edges_at [OF n(1), of st] True by simp
    have "reach_inv D C st s (fold hs_insert (D ! node) reach) v1 s1"
      unfolding reach_inv_def left
    proof (intro conjI)
      show "marked v1 \<subseteq> (open_edges C st)\<^sup>* `` {s}"
        using inv v1(1) out path by (auto intro: rtrancl_into_rtrancl)
      show "\<forall>x \<in> insert node (marked visited - set (node # rest)). open_edges C st `` {x} \<subseteq> marked v1"
        using inv v1(1) out by auto
      show "set (fold hs_insert (D ! node) reach) = (\<Union>x \<in> insert node (marked visited - set (node # rest)). part D st x)"
        using inv True by (auto simp: part_def)
    qed (use v1 inv n in auto)
    with 2(2) [OF guard _ push [symmetric] 2(3,4)] guard True push show ?thesis by simp
  qed
qed

lemma open_path:
  "(i, j) \<in> (edges C)\<^sup>* \<Longrightarrow>
     \<exists>x. (i, x) \<in> (open_edges C st)\<^sup>* \<and> (x = j \<or> \<not> incomplete st ! x \<and> (x, j) \<in> (edges C)\<^sup>*)"
proof (induction rule: rtrancl_induct)
  case (step y z)
  then obtain x where x: "(i, x) \<in> (open_edges C st)\<^sup>*" "x = y \<or> \<not> incomplete st ! x \<and> (x, y) \<in> (edges C)\<^sup>*" by blast
  show ?case
  proof (cases "x = y \<and> incomplete st ! x")
    case True
    then have "(x, z) \<in> open_edges C st" using step(2) by (auto simp: open_edges_def)
    with x(1) show ?thesis by (auto intro: rtrancl_into_rtrancl)
  next
    case False
    with x step(2) show ?thesis by (meson r_into_rtrancl rtrancl_into_rtrancl)
  qed
qed auto

lemma parts_reached:
  assumes ok: "graph_ok C" and fin: "dfs_final D C st" and i: "i < length C"
  shows "(\<Union>x \<in> (open_edges C st)\<^sup>* `` {i}. part D st x) = reached D C i"
proof -
  have sub: "(open_edges C st)\<^sup>* \<subseteq> (edges C)\<^sup>*" by (intro rtrancl_mono) (auto simp: open_edges_def)
  have part: "part D st x = (if incomplete st ! x then set (D ! x) else reached D C x)" if "x < length C" for x
    using fin that by (auto simp: dfs_final_def part_def)
  have below: "x < length C" if "(i, x) \<in> (open_edges C st)\<^sup>*" for x
    using edges_closed [OF ok _ i] sub that by blast
  have trans: "reached D C x \<subseteq> reached D C i" if "(i, x) \<in> (edges C)\<^sup>*" for x
    using that by (auto simp: reached_def intro: rtrancl_trans)
  have own: "set (D ! x) \<subseteq> reached D C x" for x by (auto simp: reached_def)
  show ?thesis
  proof (intro equalityI subsetI)
    fix a assume "a \<in> (\<Union>x \<in> (open_edges C st)\<^sup>* `` {i}. part D st x)"
    then obtain x where x: "(i, x) \<in> (open_edges C st)\<^sup>*" "a \<in> part D st x" by auto
    then have "a \<in> reached D C x" using part [OF below [OF x(1)]] own by (auto split: if_splits)
    then show "a \<in> reached D C i" using trans sub x(1) by blast
  next
    fix a assume "a \<in> reached D C i"
    then obtain j where j: "(i, j) \<in> (edges C)\<^sup>*" "a \<in> set (D ! j)" by (auto simp: reached_def)
    obtain x where x: "(i, x) \<in> (open_edges C st)\<^sup>*" "x = j \<or> \<not> incomplete st ! x \<and> (x, j) \<in> (edges C)\<^sup>*"
      using open_path [OF j(1), of st] by blast
    have "a \<in> part D st x" using x(2) j(2) own part [OF below [OF x(1)]] by (auto simp: reached_def)
    then show "a \<in> (\<Union>x \<in> (open_edges C st)\<^sup>* `` {i}. part D st x)" using x(1) by blast
  qed
qed

lemma exact_reach_spec:
  assumes "graph_ok C" "dfs_final D C st" "i < length C" "length D = length C"
  shows "\<exists>r. exact_reach i D C st = Some r \<and> set r = reached D C i"
proof -
  have "marked ((replicate (length D) False)[i := True]) = {i}"
    using assms(3,4) by (auto simp: marked_def nth_list_update split: if_splits)
  then have "reach_inv D C st i [] ((replicate (length D) False)[i := True]) [i]"
    using assms(4) by (simp add: reach_inv_def)
  from reach_loop_spec [OF assms(1,2) this] show ?thesis
    using parts_reached [OF assms(1,2,3)] by (simp add: exact_reach_def)
qed

section \<open>The result\<close>

definition bare_reads :: "('v, 't) CompiledExpr \<Rightarrow> ValueCellId set" where
  "bare_reads expr = {c. \<exists>node \<in> set (walk expr). expr_kind node = ValueRef c}"

lemma set_bare_value_refs: "set (bare_value_refs expr out) = set out \<union> bare_reads expr"
proof -
  have "set (fold insert_value_ref nodes out) = set out \<union> {c. \<exists>node \<in> set nodes. expr_kind node = ValueRef c}" for nodes
    by (induction nodes arbitrary: out) (auto simp: insert_value_ref_def split: CompiledExprKind.splits)
  then show ?thesis by (simp add: bare_value_refs_def bare_reads_def)
qed

definition occurrences :: "(ValueCellId \<times> 'e) list \<Rightarrow> ValueCellId \<Rightarrow> nat set" where
  "occurrences cells c = {i. i < length cells \<and> fst (cells ! i) = c}"

definition cell_edge :: "(ValueCellId \<times> ('v, 't) CompiledExpr) list \<Rightarrow> ValueCellId set \<Rightarrow> (nat \<times> nat) set" where
  "cell_edge cells A =
     {(i, j). i < length cells \<and> j < length cells \<and> fst (cells ! j) \<in> bare_reads (snd (cells ! i)) - A}"

definition autos_reached ::
  "(ValueCellId \<times> ('v, 't) CompiledExpr) list \<Rightarrow> ValueCellId set \<Rightarrow> nat \<Rightarrow> ValueCellId set" where
  "autos_reached cells A i = A \<inter> (\<Union>j \<in> (cell_edge cells A)\<^sup>* `` {i}. bare_reads (snd (cells ! j)))"

definition cycle_reached :: "(ValueCellId \<times> ('v, 't) CompiledExpr) list \<Rightarrow> ValueCellId set \<Rightarrow> nat \<Rightarrow> bool" where
  "cycle_reached cells A i \<longleftrightarrow> (\<exists>j. (i, j) \<in> (cell_edge cells A)\<^sup>* \<and> (j, j) \<in> (cell_edge cells A)\<^sup>+)"

lemma occurrences_Cons:
  "occurrences (x # cells) c = (if fst x = c then {0} else {}) \<union> Suc ` occurrences cells c"
  by (auto simp: occurrences_def less_Suc_eq_0_disj)

lemma occurrences_Nil [simp]: "occurrences [] c = {}"
  by (simp add: occurrences_def)

definition indexed :: "(ValueCellId, nat list) hash_map \<Rightarrow> ValueCellId \<Rightarrow> nat list" where
  "indexed m c = (case hm_get m c of Some is \<Rightarrow> is | None \<Rightarrow> [])"

lemma indexed_upsert: "indexed (hm_upsert d [] (\<lambda>is. is @ [i]) m) c = (if c = d then indexed m c @ [i] else indexed m c)"
  by (simp add: indexed_def hm_simps split: option.split)

lemma fold_index:
  "set (indexed (fold (\<lambda>(i, c, expr). hm_upsert c [] (\<lambda>is. is @ [i])) (enumerate k cells) m) c)
     = set (indexed m c) \<union> (\<lambda>i. k + i) ` occurrences cells c"
  by (induction cells arbitrary: k m) (auto simp: indexed_upsert occurrences_Cons image_Un image_image)

lemma index_occurrences: "set (indexed (build_cell_index cells) c) = occurrences cells c"
  using fold_index [of 0 cells "[]" c] by (simp add: build_cell_index_def indexed_def)

lemma split_refs_spec:
  "set (fst (split_refs as (build_cell_index cells) expr)) = set as \<inter> bare_reads expr"
  "set (snd (split_refs as (build_cell_index cells) expr)) = (\<Union>c \<in> bare_reads expr - set as. occurrences cells c)"
proof -
  show "set (fst (split_refs as (build_cell_index cells) expr)) = set as \<inter> bare_reads expr"
    by (auto simp: split_refs_def Let_def set_bare_value_refs)
  have "set (snd (split_refs as (build_cell_index cells) expr))
      = (\<Union>c \<in> bare_reads expr. set (if c \<in> set as then [] else indexed (build_cell_index cells) c))"
    by (simp only: split_refs_def Let_def snd_conv set_concat set_map image_image set_bare_value_refs
        list.set(1) Un_empty_left indexed_def)
  then show "set (snd (split_refs as (build_cell_index cells) expr)) = (\<Union>c \<in> bare_reads expr - set as. occurrences cells c)"
    by (auto simp: index_occurrences split: if_splits)
qed

definition entry_of :: "DependentCellReads \<Rightarrow> ValueCellId \<Rightarrow> CellEntry" where
  "entry_of m c = (case hm_get m c of Some e \<Rightarrow> e | None \<Rightarrow> \<lparr>autos = [], foldable = True\<rparr>)"

lemma entry_step:
  "set (autos (entry_of (materialise_entry memos incs (i, d, expr) m) c))
     = set (autos (entry_of m c)) \<union> (if c = d then set (memos ! i) else {})"
  "foldable (entry_of (materialise_entry memos incs (i, d, expr) m) c)
     \<longleftrightarrow> foldable (entry_of m c) \<and> (c = d \<longrightarrow> \<not> incs ! i)"
  "hm_get (materialise_entry memos incs (i, d, expr) m) c \<noteq> None \<longleftrightarrow> c = d \<or> hm_get m c \<noteq> None"
  by (auto simp: materialise_entry_def entry_of_def hm_simps split: option.split)

lemma fold_materialise:
  "set (autos (entry_of (fold (materialise_entry memos incs) (enumerate k cells) m) c))
     = set (autos (entry_of m c)) \<union> (\<Union>i \<in> occurrences cells c. set (memos ! (k + i)))
   \<and> (foldable (entry_of (fold (materialise_entry memos incs) (enumerate k cells) m) c)
        \<longleftrightarrow> foldable (entry_of m c) \<and> (\<forall>i \<in> occurrences cells c. \<not> incs ! (k + i)))
   \<and> (hm_get (fold (materialise_entry memos incs) (enumerate k cells) m) c \<noteq> None
        \<longleftrightarrow> hm_get m c \<noteq> None \<or> occurrences cells c \<noteq> {})"
proof (induction cells arbitrary: k m)
  case (Cons x cells)
  obtain d expr where x: "x = (d, expr)" by (cases x)
  define m' where "m' = materialise_entry memos incs (k, d, expr) m"
  have m': "fold (materialise_entry memos incs) (enumerate k (x # cells)) m
      = fold (materialise_entry memos incs) (enumerate (Suc k) cells) m'"
    by (simp add: x m'_def)
  note step = entry_step [of memos incs k d expr m c, folded m'_def]
  note IH = Cons.IH [of "Suc k" m', THEN conjunct1] Cons.IH [of "Suc k" m', THEN conjunct2, THEN conjunct1]
    Cons.IH [of "Suc k" m', THEN conjunct2, THEN conjunct2]
  show ?case unfolding m' IH step occurrences_Cons
    by (cases "d = c") (simp_all add: x Un_assoc)
qed simp

lemma materialise_spec:
  "set (autos (entry_of (materialise cells memos incs) c)) = (\<Union>i \<in> occurrences cells c. set (memos ! i))"
  "foldable (entry_of (materialise cells memos incs) c) \<longleftrightarrow> (\<forall>i \<in> occurrences cells c. \<not> incs ! i)"
  "hm_get (materialise cells memos incs) c = None \<longleftrightarrow> occurrences cells c = {}"
  using fold_materialise [where memos = memos and incs = incs and k = 0 and cells = cells and m = "[]" and c = c]
  by (auto simp: materialise_def entry_of_def)

lemma lookup_entry:
  "lookup_reads reads c =
     (if hm_get reads c = None then NotACell
      else if foldable (entry_of reads c) then Foldable (autos (entry_of reads c)) else Unfoldable (autos (entry_of reads c)))"
  by (simp add: lookup_reads_def entry_of_def split: option.split)

lemma those_Some: "those (map Some xs) = Some xs"
  by (induction xs) simp_all

lemma reads_exact:
  "\<exists>reads. dependent_cell_auto_reads cells auto_params = Some reads \<and>
     (case lookup_reads reads c of
        NotACell \<Rightarrow> occurrences cells c = {}
      | Foldable as \<Rightarrow> occurrences cells c \<noteq> {}
          \<and> set as = (\<Union>i \<in> occurrences cells c. autos_reached cells (ap_id ` set auto_params) i)
          \<and> \<not> (\<exists>i \<in> occurrences cells c. cycle_reached cells (ap_id ` set auto_params) i)
      | Unfoldable as \<Rightarrow> occurrences cells c \<noteq> {}
          \<and> set as = (\<Union>i \<in> occurrences cells c. autos_reached cells (ap_id ` set auto_params) i)
          \<and> (\<exists>i \<in> occurrences cells c. cycle_reached cells (ap_id ` set auto_params) i))"
proof -
  let ?A = "ap_id ` set auto_params"
  define auto_ids where "auto_ids = fold hs_insert (map ap_id auto_params) []"
  define splits where "splits = map (\<lambda>(c, expr). split_refs auto_ids (build_cell_index cells) expr) cells"
  define D where "D = map fst splits"
  define C where "C = map snd splits"
  have A: "set auto_ids = ?A" by (simp add: auto_ids_def)
  have n: "length C = length cells" "length D = length cells" by (simp_all add: C_def D_def splits_def)
  have D: "set (D ! i) = ?A \<inter> bare_reads (snd (cells ! i))" if "i < length cells" for i
    using that by (simp add: D_def splits_def case_prod_beta split_refs_spec A)
  have C: "set (C ! i) = (\<Union>d \<in> bare_reads (snd (cells ! i)) - ?A. occurrences cells d)" if "i < length cells" for i
    using that by (simp add: C_def splits_def case_prod_beta split_refs_spec A)
  have E: "edges C = cell_edge cells ?A" using C n by (auto simp: edges_def cell_edge_def occurrences_def)
  have ok: "graph_ok C" using C n by (auto simp: graph_ok_def occurrences_def)
  have reached: "reached D C i = autos_reached cells ?A i" if "i < length cells" for i
  proof -
    have "j < length cells" if "(i, j) \<in> (cell_edge cells ?A)\<^sup>*" for j
      using edges_closed [OF ok, of i j] that \<open>i < length cells\<close> n E by simp
    then show ?thesis using D by (auto simp: reached_def autos_reached_def E)
  qed
  obtain st where st: "dfs_starts D C [0..<length cells] (dfs_init (length cells)) = Some st" "dfs_final D C st"
    using dfs_starts_inv [OF ok dfs_init_inv, of "[0..<length cells]"] dfs_inv_final [OF ok] n
    by (fastforce simp: dfs_init_def atLeast0LessThan)
  define pick where "pick i = (if incomplete st ! i then exact_reach i D C st
      else Some (case memo st ! i of Some s \<Rightarrow> s | None \<Rightarrow> []))" for i
  have pick: "\<exists>r. pick i = Some r \<and> set r = autos_reached cells ?A i" if i: "i < length cells" for i
  proof (cases "incomplete st ! i")
    case True
    then show ?thesis using exact_reach_spec [OF ok st(2)] i n reached by (simp add: pick_def)
  next
    case False
    then show ?thesis using st(2) i n reached by (fastforce simp: pick_def dfs_final_def)
  qed
  define memos where "memos = map (\<lambda>i. the (pick i)) [0..<length cells]"
  have "pick i = Some (the (pick i))" if "i < length cells" for i using pick [OF that] by auto
  then have "map pick [0..<length cells] = map Some memos" by (simp add: memos_def)
  then have memos: "those (map pick [0..<length cells]) = Some memos" by (simp only: those_Some)
  have memo_at: "set (memos ! i) = autos_reached cells ?A i" if i: "i < length cells" for i
  proof -
    obtain r where "pick i = Some r" "set r = autos_reached cells ?A i" using pick [OF i] by blast
    with i show ?thesis by (simp add: memos_def)
  qed
  note memos' = memos [unfolded pick_def]
  have inc: "incomplete st ! i \<longleftrightarrow> cycle_reached cells ?A i" if "i < length cells" for i
    using st(2) that n by (simp add: dfs_final_def cyclic_def cycle_reached_def E)
  have result: "dependent_cell_auto_reads cells auto_params = Some (materialise cells memos (incomplete st))"
  proof (cases "cells = []")
    case True
    then show ?thesis by (simp add: dependent_cell_auto_reads_def materialise_def)
  next
    case False
    then show ?thesis
      unfolding dependent_cell_auto_reads_def Let_def auto_ids_def [symmetric] splits_def [symmetric]
        D_def [symmetric] C_def [symmetric]
      by (simp add: st(1) memos')
  qed
  let ?reads = "materialise cells memos (incomplete st)"
  have "(\<Union>i \<in> occurrences cells c. set (memos ! i)) = (\<Union>i \<in> occurrences cells c. autos_reached cells ?A i)"
    using memo_at by (auto simp: occurrences_def)
  then have set: "set (autos (entry_of ?reads c)) = (\<Union>i \<in> occurrences cells c. autos_reached cells ?A i)"
    by (simp add: materialise_spec)
  have fold: "foldable (entry_of ?reads c) \<longleftrightarrow> \<not> (\<exists>i \<in> occurrences cells c. cycle_reached cells ?A i)"
    using inc by (auto simp: materialise_spec occurrences_def)
  show ?thesis using result materialise_spec(3) [of cells memos "incomplete st" c]
    by (auto simp: lookup_entry set fold)
qed

text \<open>
  C18.  The analysis of dependent cells never fails, and is exact: a cell is
  unfoldable if some occurrence of it reaches a cycle of cells and foldable
  otherwise, and its set holds exactly the auto params that its
  occurrences read through any number of other cells.
\<close>

theorem dependent_cell_auto_reads_exact:
  "\<exists>reads. dependent_cell_auto_reads cells auto_params = Some reads \<and>
     (case lookup_reads reads c of
        NotACell \<Rightarrow> occurrences cells c = {}
      | Foldable as \<Rightarrow> occurrences cells c \<noteq> {}
          \<and> set as = (\<Union>i \<in> occurrences cells c. autos_reached cells (ap_id ` set auto_params) i)
          \<and> \<not> (\<exists>i \<in> occurrences cells c. cycle_reached cells (ap_id ` set auto_params) i)
      | Unfoldable as \<Rightarrow> occurrences cells c \<noteq> {}
          \<and> set as = (\<Union>i \<in> occurrences cells c. autos_reached cells (ap_id ` set auto_params) i)
          \<and> (\<exists>i \<in> occurrences cells c. cycle_reached cells (ap_id ` set auto_params) i))"
  by (rule reads_exact)

end
