(* ===== verification/Values.thy ===== *)
theory Values
  imports Types Expr F64
begin

text \<open>
  Runtime values (\<open>Value\<close> in \<open>reify-ir/src/value.rs\<close>) with the identifiers of
  geometry they carry (\<open>reify-ir/src/geometry_id.rs\<close>), and the functions that
  classify, rebuild, negate and type a value.  A constructor of \<open>Value\<close> has the
  source's name with \<open>Val\<close> in front.  A \<open>BTreeSet\<close> or \<open>BTreeMap\<close> is the list of
  its elements in iteration order, a persistent hash map a list of bindings.
\<close>

unbundle bit_operations_syntax

section \<open>Identifiers of geometry\<close>

type_synonym vec3 = "f64 \<times> f64 \<times> f64"

datatype DerivedKind = MidSurface

datatype FeatureId = FRealization RealizationNodeId | FDerived FeatureId DerivedKind

datatype AxisSign = Pos | Neg'

datatype CapKind = CapTop | CapBottom | CapStart | CapEnd

datatype Role =
    RoleCap CapKind | RoleSide | RoleNewEdge | RoleRevolvedFace | RoleAxisFace | RoleSweptFace | RoleLoftedFace
  | RoleMidSurfaceFace | RoleMidSurfaceEdge | RoleCornerVertex AxisSign AxisSign AxisSign
  | RoleCapCornerVertex CapKind | RoleLocalFeatureFace

datatype FaceSurfaceKind =
    SurfPlane | SurfCylinder | SurfCone | SurfSphere | SurfTorus | SurfBezierSurface | SurfBSplineSurface
  | SurfOffsetSurface | SurfOther

datatype EdgeCurveKind =
    CurveLine | CurveCircle | CurveEllipse | CurveHyperbola | CurveParabola | CurveBezierCurve
  | CurveBSplineCurve | CurveOffsetCurve | CurveOther

section \<open>Selectors\<close>

record GeometryHandleRef =
  realization_ref :: RealizationNodeId
  upstream_values_hash :: "u8 list"
  kernel_handle :: "u64 option"

datatype LeafQuery =
    QNamed string
  | QAll
  | QByNormal vec3 f64
  | QByArea f64 f64
  | QByLength f64 f64
  | QByHeight f64 f64
  | QByParallel vec3 f64
  | QByRole Role
  | QByPerpendicular vec3 f64
  | QBySurfaceKind FaceSurfaceKind
  | QByCurveKind EdgeCurveKind
  | QByExtremalBbox u8 bool f64
  | QByExtremalCentroid u8 bool f64
  | QCreatedByFeature FeatureId
  | QSplitByFeature FeatureId

definition required_kind :: "LeafQuery \<Rightarrow> RegionKind option" where
  "required_kind q =
     (case q of
        QByNormal d t \<Rightarrow> Some FaceKind | QByArea lo hi \<Rightarrow> Some FaceKind | QBySurfaceKind k \<Rightarrow> Some FaceKind
      | QByLength lo hi \<Rightarrow> Some EdgeKind | QByHeight z t \<Rightarrow> Some EdgeKind | QByParallel a t \<Rightarrow> Some EdgeKind
      | QByCurveKind k \<Rightarrow> Some EdgeKind
      | QByRole r \<Rightarrow>
          (if r = RoleMidSurfaceFace then Some FaceKind else if r = RoleMidSurfaceEdge then Some EdgeKind else None)
      | QCreatedByFeature f \<Rightarrow> Some FaceKind | QSplitByFeature f \<Rightarrow> Some FaceKind
      | _ \<Rightarrow> None)"

datatype SelectorNode =
    SelLeaf GeometryHandleRef LeafQuery
  | SelUnion "SelectorValue list"
  | SelIntersect "SelectorValue list"
  | SelDifference SelectorValue SelectorValue
and SelectorValue =
  SelectorValue (sel_kind: RegionKind) (sel_node: SelectorNode) (sel_hash: ContentHash)

datatype SelectorError = KindMismatch RegionKind RegionKind | EmptyComposition

section \<open>Values\<close>

datatype SampledGridKind = Regular1D | Regular2D | Regular3D

datatype InterpolationKind = Linear | NearestNeighbor | Cubic | Rbf | Kriging

record SampledField =
  sf_name :: string
  sf_kind :: SampledGridKind
  bounds_min :: "f64 list"
  bounds_max :: "f64 list"
  spacing :: "f64 list"
  axis_grids :: "f64 list list"
  interpolation :: InterpolationKind
  sf_data :: "f64 list"
  oob_emitted :: bool

datatype FieldSourceKind =
    Analytical | Sampled | Composed | Imported | Gradient | Divergence | Curl | Laplacian | VonMises
  | PrincipalStresses | MaxShear | SafetyFactor | Restricted | AsPrintedZones

datatype Value =
    ValBool bool
  | ValInt u64
  | ValReal f64
  | ValString string
  | ValScalar f64 DimensionVector
  | ValEnum string string "(string \<times> Value) list"
  | ValList "Value list"
  | ValSet "Value list"
  | ValMap "(Value \<times> Value) list"
  | ValOption "Value option"
  | ValField Type Type FieldSourceKind Value
  | ValLambda "(string \<times> ValueCellId) list" "(Value, Type) CompiledExpr" "(ValueCellId \<times> Value) list"
  | ValTensor "Value list"
  | ValPoint "Value list"
  | ValVector "Value list"
  | ValComplex f64 f64 DimensionVector
  | ValOrientation f64 f64 f64 f64
  | ValFrame Value Value
  | ValTransform Value Value
  | ValPlane Value Value
  | ValAxis Value Value
  | ValDirection f64 f64 f64
  | ValBoundingBox Value Value
  | ValRange "Value option" "Value option" bool bool
  | ValMatrix "Value list list"
  | ValSampledField SampledField
  | ValStructureInstance u32 string u32 "(string \<times> Value) list"
  | ValGeometryHandle GeometryHandleRef
  | ValAffineMap "vec3 \<times> vec3 \<times> vec3" vec3
  | ValSelector SelectorValue
  | ValFeature FeatureId
  | ValUndef

text \<open>\<open>Int\<close> holds an \<open>i64\<close>: its bits, read with \<open>sint\<close>.\<close>

definition MATERIALIZED_ANNOTATIONS_KEY :: string where
  "MATERIALIZED_ANNOTATIONS_KEY = ''@@materialized_annotations''"

definition SOURCE_SPAN_KEY :: string where
  "SOURCE_SPAN_KEY = ''@@source_span''"

definition user_fields :: "(string \<times> 'v) list \<Rightarrow> (string \<times> 'v) list" where
  "user_fields fs = filter (\<lambda>p. fst p \<noteq> MATERIALIZED_ANNOTATIONS_KEY \<and> fst p \<noteq> SOURCE_SPAN_KEY) fs"

definition normalize_range_flags :: "'v option \<Rightarrow> 'v option \<Rightarrow> bool \<Rightarrow> bool \<Rightarrow> bool \<times> bool" where
  "normalize_range_flags lower upper li ui = (li \<and> lower \<noteq> None, ui \<and> upper \<noteq> None)"

definition enum_unit :: "string \<Rightarrow> string \<Rightarrow> Value" where
  "enum_unit type_name variant = ValEnum type_name variant []"

definition from_real_scalar :: "f64 \<Rightarrow> DimensionVector \<Rightarrow> Value" where
  "from_real_scalar v d = (if is_dimensionless d then ValReal v else ValScalar v d)"

definition value_range :: "Value option \<Rightarrow> Value option \<Rightarrow> bool \<Rightarrow> bool \<Rightarrow> Value" where
  "value_range lower upper li ui =
     (case normalize_range_flags lower upper li ui of (li', ui') \<Rightarrow> ValRange lower upper li' ui')"

definition is_undef :: "Value \<Rightarrow> bool" where
  "is_undef v \<longleftrightarrow> v = ValUndef"

definition canonicalize_matrix :: "Value \<Rightarrow> Value" where
  "canonicalize_matrix v = (case v of ValMatrix rows \<Rightarrow> ValTensor (map ValTensor rows) | _ \<Rightarrow> v)"

definition is_tensor :: "Value \<Rightarrow> bool" where
  "is_tensor v = (case v of ValTensor es \<Rightarrow> True | _ \<Rightarrow> False)"

definition try_into_matrix :: "Value \<Rightarrow> Value option" where
  "try_into_matrix v =
     (case v of
        ValTensor rows \<Rightarrow>
          if rows \<noteq> [] \<and> list_all is_tensor rows
          then Some (ValMatrix (map (\<lambda>r. case r of ValTensor es \<Rightarrow> es | _ \<Rightarrow> []) rows)) else None
      | _ \<Rightarrow> None)"

definition is_domain_numeric_leaf :: "Value \<Rightarrow> bool" where
  "is_domain_numeric_leaf v = (case v of ValInt i \<Rightarrow> True | ValReal r \<Rightarrow> True | ValScalar s d \<Rightarrow> True | _ \<Rightarrow> False)"

definition is_domain_logical_leaf :: "Value \<Rightarrow> bool" where
  "is_domain_logical_leaf v = (case v of ValBool b \<Rightarrow> True | _ \<Rightarrow> False)"

fun kind_name :: "Value \<Rightarrow> string" where
  "kind_name (ValBool b) = ''Bool''"
| "kind_name (ValInt i) = ''Int''"
| "kind_name (ValReal r) = ''Real''"
| "kind_name (ValString s) = ''String''"
| "kind_name (ValScalar s d) = ''Scalar''"
| "kind_name (ValEnum t v p) = ''Enum''"
| "kind_name (ValList vs) = ''List''"
| "kind_name (ValSet vs) = ''Set''"
| "kind_name (ValMap kvs) = ''Map''"
| "kind_name (ValOption m) = ''Option''"
| "kind_name (ValField d c s l) = ''Field''"
| "kind_name (ValLambda ps b cs) = ''Lambda''"
| "kind_name (ValTensor vs) = ''Tensor''"
| "kind_name (ValPoint vs) = ''Point''"
| "kind_name (ValVector vs) = ''Vector''"
| "kind_name (ValComplex re im d) = ''Complex''"
| "kind_name (ValOrientation w x y z) = ''Orientation''"
| "kind_name (ValFrame a b) = ''Frame''"
| "kind_name (ValTransform a b) = ''Transform''"
| "kind_name (ValPlane a b) = ''Plane''"
| "kind_name (ValAxis a b) = ''Axis''"
| "kind_name (ValDirection x y z) = ''Direction''"
| "kind_name (ValBoundingBox a b) = ''BoundingBox''"
| "kind_name (ValRange lo hi li ui) = ''Range''"
| "kind_name (ValMatrix rows) = ''Matrix''"
| "kind_name (ValSampledField f) = ''SampledField''"
| "kind_name (ValStructureInstance i n v fs) = ''StructureInstance''"
| "kind_name (ValGeometryHandle g) = ''GeometryHandle''"
| "kind_name (ValAffineMap l t) = ''AffineMap''"
| "kind_name (ValSelector s) = ''Selector''"
| "kind_name (ValFeature f) = ''Feature''"
| "kind_name ValUndef = ''Undef''"

fun value_dimension :: "Value \<Rightarrow> DimensionVector" where
  "value_dimension (ValScalar s d) = d"
| "value_dimension (ValComplex re im d) = d"
| "value_dimension (ValPoint items) = (case items of [] \<Rightarrow> DIMENSIONLESS | v # vs \<Rightarrow> value_dimension v)"
| "value_dimension (ValVector items) = (case items of [] \<Rightarrow> DIMENSIONLESS | v # vs \<Rightarrow> value_dimension v)"
| "value_dimension _ = DIMENSIONLESS"

section \<open>Negation\<close>

definition f64_neg :: "f64 \<Rightarrow> f64" where
  "f64_neg x = x XOR push_bit 63 1"

definition checked_neg :: "u64 \<Rightarrow> u64 option" where
  "checked_neg i = (if i = push_bit 63 1 then None else Some (- i))"

definition neg_components :: "(Value list \<Rightarrow> Value) \<Rightarrow> Value list \<Rightarrow> Value" where
  "neg_components wrap results = (if list_ex is_undef results then ValUndef else wrap results)"

fun value_neg :: "Value \<Rightarrow> Value" where
  "value_neg (ValInt i) = (case checked_neg i of Some j \<Rightarrow> ValInt j | None \<Rightarrow> ValUndef)"
| "value_neg (ValReal r) = ValReal (f64_neg r)"
| "value_neg (ValScalar s d) = ValScalar (f64_neg s) d"
| "value_neg (ValComplex re im d) = ValComplex (f64_neg re) (f64_neg im) d"
| "value_neg (ValTensor components) = neg_components ValTensor (map value_neg components)"
| "value_neg (ValVector components) = neg_components ValVector (map value_neg components)"
| "value_neg _ = ValUndef"

section \<open>Types of values\<close>

fun try_infer_type :: "Value \<Rightarrow> Type option" where
  "try_infer_type (ValBool b) = Some TBool"
| "try_infer_type (ValInt i) = Some TInt"
| "try_infer_type (ValReal r) = Some dimensionless_scalar"
| "try_infer_type (ValString s) = Some TString"
| "try_infer_type (ValScalar s d) = Some (TScalar d)"
| "try_infer_type (ValEnum t v p) = Some (TEnum t)"
| "try_infer_type (ValList items) = (case items of [] \<Rightarrow> None | v # vs \<Rightarrow> map_option TList (try_infer_type v))"
| "try_infer_type (ValSet items) = (case items of [] \<Rightarrow> None | v # vs \<Rightarrow> map_option TSet (try_infer_type v))"
| "try_infer_type (ValMap items) =
     (case items of [] \<Rightarrow> None
      | kv # kvs \<Rightarrow>
          Option.bind (try_infer_type (fst kv)) (\<lambda>k. map_option (TMap k) (try_infer_type (snd kv))))"
| "try_infer_type (ValOption m) = (case m of None \<Rightarrow> None | Some v \<Rightarrow> map_option TOption (try_infer_type v))"
| "try_infer_type (ValLambda ps b cs) = Some (TFunction (map (\<lambda>p. dimensionless_scalar) ps) (expr_type b))"
| "try_infer_type (ValField d c s l) = Some (TField d c)"
| "try_infer_type (ValTensor vs) = None"
| "try_infer_type (ValComplex re im d) = Some (TComplex (TScalar d))"
| "try_infer_type (ValMatrix rows) = None"
| "try_infer_type (ValPoint items) =
     (case items of [] \<Rightarrow> None | v # vs \<Rightarrow> map_option (TPoint (length items)) (try_infer_type v))"
| "try_infer_type (ValVector items) =
     (case items of [] \<Rightarrow> None | v # vs \<Rightarrow> map_option (TVector (length items)) (try_infer_type v))"
| "try_infer_type (ValOrientation w x y z) = Some (TOrientation 3)"
| "try_infer_type (ValFrame a b) = None"
| "try_infer_type (ValTransform a b) = None"
| "try_infer_type (ValPlane a b) = Some TPlane"
| "try_infer_type (ValAxis a b) = Some TAxis"
| "try_infer_type (ValDirection x y z) = Some TDirection"
| "try_infer_type (ValBoundingBox a b) = Some TBoundingBox"
| "try_infer_type (ValRange lower upper li ui) =
     (case lower of Some v \<Rightarrow> map_option TRange (try_infer_type v)
      | None \<Rightarrow> (case upper of Some v \<Rightarrow> map_option TRange (try_infer_type v) | None \<Rightarrow> None))"
| "try_infer_type (ValSampledField f) = None"
| "try_infer_type (ValStructureInstance i n v fs) = Some (TStructureRef n)"
| "try_infer_type (ValGeometryHandle g) = Some TGeometry"
| "try_infer_type (ValAffineMap l t) = Some (TAffineMap 3)"
| "try_infer_type (ValSelector s) = Some (TSelector (sel_kind s))"
| "try_infer_type (ValFeature f) = Some TFeature"
| "try_infer_type ValUndef = Some TBool"

text \<open>\<open>None\<close> is a panic.\<close>

fun infer_type :: "Value \<Rightarrow> Type option" where
  "infer_type v =
     (case try_infer_type v of
        Some ty \<Rightarrow> Some ty
      | None \<Rightarrow>
          (case v of
             ValList items \<Rightarrow>
               (case items of [] \<Rightarrow> Some (TList dimensionless_scalar) | x # xs \<Rightarrow> map_option TList (infer_type x))
           | ValSet items \<Rightarrow>
               (case items of [] \<Rightarrow> Some (TSet dimensionless_scalar) | x # xs \<Rightarrow> map_option TSet (infer_type x))
           | ValMap items \<Rightarrow>
               (case items of [] \<Rightarrow> Some (TMap TString dimensionless_scalar)
                | kv # kvs \<Rightarrow> Option.bind (infer_type (fst kv)) (\<lambda>k. map_option (TMap k) (infer_type (snd kv))))
           | ValOption m \<Rightarrow> (case m of Some x \<Rightarrow> map_option TOption (infer_type x) | None \<Rightarrow> Some (TOption TBool))
           | ValPoint items \<Rightarrow>
               (case items of [] \<Rightarrow> None | x # xs \<Rightarrow> map_option (TPoint (length items)) (infer_type x))
           | ValVector items \<Rightarrow>
               (case items of [] \<Rightarrow> None | x # xs \<Rightarrow> map_option (TVector (length items)) (infer_type x))
           | ValRange lower upper li ui \<Rightarrow>
               (case lower of Some x \<Rightarrow> map_option TRange (infer_type x)
                | None \<Rightarrow> (case upper of Some x \<Rightarrow> map_option TRange (infer_type x)
                           | None \<Rightarrow> Some (TRange dimensionless_scalar)))
           | _ \<Rightarrow> None))"

end
