(* ===== verification/Compare.thy ===== *)
theory Compare
  imports Text F64
begin

text \<open>
  Three-valued comparison (\<open>std::cmp::Ordering\<close>): the comparisons of the standard
  library that the hand-written orders of the sources combine, and the laws of a
  total order stated at one point, so that an order on a recursive type is
  verified by induction on its values.
\<close>

section \<open>Comparisons of the standard library\<close>

datatype Ordering = Less | Equal | Greater

fun reverse_ordering :: "Ordering \<Rightarrow> Ordering" where
  "reverse_ordering Less = Greater"
| "reverse_ordering Equal = Equal"
| "reverse_ordering Greater = Less"

definition then_with :: "Ordering \<Rightarrow> Ordering \<Rightarrow> Ordering" where
  "then_with a b = (if a = Equal then b else a)"

definition cmp_by :: "('a \<Rightarrow> 'b :: linorder) \<Rightarrow> 'a \<Rightarrow> 'a \<Rightarrow> Ordering" where
  "cmp_by k x y = (if k x < k y then Less else if k x = k y then Equal else Greater)"

text \<open>Slices compare lexicographically, \<open>None\<close> is below \<open>Some\<close>.\<close>

fun cmp_list :: "('a \<Rightarrow> 'a \<Rightarrow> Ordering) \<Rightarrow> 'a list \<Rightarrow> 'a list \<Rightarrow> Ordering" where
  "cmp_list f [] [] = Equal"
| "cmp_list f [] (y # ys) = Less"
| "cmp_list f (x # xs) [] = Greater"
| "cmp_list f (x # xs) (y # ys) = then_with (f x y) (cmp_list f xs ys)"

definition cmp_pair :: "('a \<Rightarrow> 'a \<Rightarrow> Ordering) \<Rightarrow> ('b \<Rightarrow> 'b \<Rightarrow> Ordering) \<Rightarrow> 'a \<times> 'b \<Rightarrow> 'a \<times> 'b \<Rightarrow> Ordering" where
  "cmp_pair f g p q = then_with (f (fst p) (fst q)) (g (snd p) (snd q))"

fun cmp_option :: "('a \<Rightarrow> 'a \<Rightarrow> Ordering) \<Rightarrow> 'a option \<Rightarrow> 'a option \<Rightarrow> Ordering" where
  "cmp_option f None None = Equal"
| "cmp_option f None (Some y) = Less"
| "cmp_option f (Some x) None = Greater"
| "cmp_option f (Some x) (Some y) = f x y"

definition cmp_str :: "string \<Rightarrow> string \<Rightarrow> Ordering" where
  "cmp_str = cmp_list (cmp_by (of_char :: char \<Rightarrow> nat))"

text \<open>\<open>f64::total_cmp\<close>: the bits of a negative number are flipped below the sign.\<close>

definition total_key :: "f64 \<Rightarrow> int" where
  "total_key x = sint (if bit x 63 then x XOR mask 63 else x)"

definition total_cmp :: "f64 \<Rightarrow> f64 \<Rightarrow> Ordering" where
  "total_cmp = cmp_by total_key"

section \<open>Laws at a point\<close>

definition chain :: "Ordering \<Rightarrow> Ordering \<Rightarrow> Ordering \<Rightarrow> bool" where
  "chain a b c \<longleftrightarrow> (a \<noteq> Greater \<longrightarrow> b \<noteq> Greater \<longrightarrow> c \<noteq> Greater \<and> (a = Less \<or> b = Less \<longrightarrow> c = Less))"

definition lawful :: "('a \<Rightarrow> 'a \<Rightarrow> Ordering) \<Rightarrow> 'a \<Rightarrow> bool" where
  "lawful f x \<longleftrightarrow>
     (\<forall>y. f y x = reverse_ordering (f x y)) \<and> (\<forall>y z. chain (f x y) (f y z) (f x z))"

named_theorems lawful_intro \<open>laws of the comparisons, one rule for each combination\<close>

lemma reverse_ordering_simps [simp]:
  "reverse_ordering a = Equal \<longleftrightarrow> a = Equal" "Equal = reverse_ordering a \<longleftrightarrow> a = Equal"
  "reverse_ordering a = Less \<longleftrightarrow> a = Greater" "reverse_ordering a = Greater \<longleftrightarrow> a = Less"
  "reverse_ordering (reverse_ordering a) = a"
  by (cases a; simp)+

lemma lawful_refl: "lawful f x \<Longrightarrow> f x x = Equal"
  unfolding lawful_def by (cases "f x x") (metis Ordering.distinct reverse_ordering.simps)+

lemma lawfulI:
  "(\<And>y. f y x = reverse_ordering (f x y)) \<Longrightarrow> (\<And>y z. chain (f x y) (f y z) (f x z)) \<Longrightarrow> lawful f x"
  by (simp add: lawful_def)

lemma then_with_simps [simp]: "then_with Equal b = b" "then_with Less b = Less" "then_with Greater b = Greater"
  by (simp_all add: then_with_def)

lemma then_with_Equal [simp]: "then_with a b = Equal \<longleftrightarrow> a = Equal \<and> b = Equal"
  by (simp add: then_with_def)

lemma reverse_then: "reverse_ordering (then_with a b) = then_with (reverse_ordering a) (reverse_ordering b)"
  by (simp add: then_with_def)

lemma chain_then: "chain a b c \<Longrightarrow> chain a' b' c' \<Longrightarrow> chain (then_with a a') (then_with b b') (then_with c c')"
  unfolding chain_def by (cases a; cases b; cases c) auto

lemma chain_consts [simp]: "chain Equal b b" "chain a Equal a" "chain Greater b c" "chain a Greater c" "chain Less Less Less"
  by (auto simp: chain_def)

lemma lawful_key [lawful_intro]: "lawful (cmp_by k) x"
  by (rule lawfulI) (auto simp: cmp_by_def chain_def)

lemma cmp_by_Equal [simp]: "cmp_by k x y = Equal \<longleftrightarrow> k x = k y"
  by (auto simp: cmp_by_def)

lemma lawful_map: "lawful f (k x) \<Longrightarrow> lawful (\<lambda>a b. f (k a) (k b)) x"
  by (simp add: lawful_def)

lemma lawful_then [lawful_intro]: "lawful f x \<Longrightarrow> lawful g x \<Longrightarrow> lawful (\<lambda>a b. then_with (f a b) (g a b)) x"
  unfolding lawful_def by (simp add: reverse_then chain_then)

lemma lawful_pair [lawful_intro]: "lawful f (fst p) \<Longrightarrow> lawful g (snd p) \<Longrightarrow> lawful (cmp_pair f g) p"
  unfolding lawful_def cmp_pair_def by (simp add: reverse_then chain_then)

lemma lawful_list [lawful_intro]:
  assumes "\<And>x. x \<in> set xs \<Longrightarrow> lawful f x"
  shows "lawful (cmp_list f) xs"
  using assms
proof (induction xs)
  case Nil
  show ?case
  proof (rule lawfulI)
    show "cmp_list f ys [] = reverse_ordering (cmp_list f [] ys)" for ys by (cases ys) simp_all
    show "chain (cmp_list f [] ys) (cmp_list f ys zs) (cmp_list f [] zs)" for ys zs
      by (cases ys; cases zs) (simp_all add: chain_def)
  qed
next
  case (Cons x xs)
  then have x: "lawful f x" and xs: "lawful (cmp_list f) xs" by simp_all
  show ?case
  proof (rule lawfulI)
    show "cmp_list f ys (x # xs) = reverse_ordering (cmp_list f (x # xs) ys)" for ys
      using x xs by (cases ys) (simp_all add: lawful_def reverse_then)
    show "chain (cmp_list f (x # xs) ys) (cmp_list f ys zs) (cmp_list f (x # xs) zs)" for ys zs
      using x xs by (cases ys; cases zs) (simp_all add: lawful_def chain_then chain_def [of Less])
  qed
qed

lemma lawful_option [lawful_intro]:
  assumes "\<And>x. m = Some x \<Longrightarrow> lawful f x"
  shows "lawful (cmp_option f) m"
proof (rule lawfulI)
  show "cmp_option f y m = reverse_ordering (cmp_option f m y)" for y
    using assms by (cases m; cases y) (simp_all add: lawful_def)
  show "chain (cmp_option f m y) (cmp_option f y z) (cmp_option f m z)" for y z
    using assms by (cases m; cases y; cases z) (simp_all add: lawful_def chain_def [of Less])
qed

lemma lawful_str [lawful_intro]: "lawful cmp_str s"
  unfolding cmp_str_def by (intro lawful_intro)

lemma lawful_total [lawful_intro]: "lawful total_cmp x"
  unfolding total_cmp_def by (intro lawful_intro)

section \<open>When two values compare equal\<close>

lemma cmp_list_Equal: "cmp_list f xs ys = Equal \<longleftrightarrow> list_all2 (\<lambda>x y. f x y = Equal) xs ys"
  by (induction f xs ys rule: cmp_list.induct) simp_all

lemma cmp_pair_Equal [simp]: "cmp_pair f g p q = Equal \<longleftrightarrow> f (fst p) (fst q) = Equal \<and> g (snd p) (snd q) = Equal"
  by (simp add: cmp_pair_def)

lemma cmp_option_Equal: "cmp_option f x y = Equal \<longleftrightarrow> rel_option (\<lambda>x y. f x y = Equal) x y"
  by (cases x; cases y) simp_all

lemma cmp_str_Equal [simp]: "cmp_str s t = Equal \<longleftrightarrow> s = t"
proof -
  have "(\<lambda>x y. cmp_by (of_char :: char \<Rightarrow> nat) x y = Equal) = (=)" 
    by (intro ext) (simp only: cmp_by_Equal of_char_eq_iff)
  then show ?thesis unfolding cmp_str_def cmp_list_Equal by (simp only: list.rel_eq)
qed

lemma total_key_inject: "total_key x = total_key y \<longleftrightarrow> x = y"
proof
  assume "total_key x = total_key y"
  then have eq: "(if bit x 63 then x XOR mask 63 else x) = (if bit y 63 then y XOR mask 63 else y)"
    unfolding total_key_def by (simp only: sint_word_ariths signed_word_eqI)
  then have "bit (if bit x 63 then x XOR mask 63 else x) 63 = bit (if bit y 63 then y XOR mask 63 else y) 63"
    by simp
  then have "bit x 63 \<longleftrightarrow> bit y 63"
    by (auto simp: bit_simps split: if_splits)
  moreover have "a = b" if "a XOR mask 63 = b XOR mask 63" for a b :: f64
  proof -
    have "(a XOR mask 63) XOR mask 63 = (b XOR mask 63) XOR mask 63" by (simp only: that)
    then show ?thesis by (simp add: xor.assoc)
  qed
  ultimately show "x = y" using eq by (auto split: if_splits)
qed simp

lemma total_cmp_Equal [simp]: "total_cmp x y = Equal \<longleftrightarrow> x = y"
  by (simp add: total_cmp_def total_key_inject)

section \<open>Congruence rules for recursive orders\<close>

lemma cmp_list_cong [fundef_cong]:
  "xs = xs' \<Longrightarrow> ys = ys' \<Longrightarrow> (\<And>x y. x \<in> set xs' \<Longrightarrow> y \<in> set ys' \<Longrightarrow> f x y = g x y) \<Longrightarrow>
     cmp_list f xs ys = cmp_list g xs' ys'"
proof (induction f xs ys arbitrary: xs' ys' rule: cmp_list.induct)
  case (4 f x xs y ys)
  then have "f x y = g x y" "cmp_list f xs ys = cmp_list g xs ys" by auto
  with 4 show ?case by auto
qed auto

lemma cmp_pair_cong [fundef_cong]:
  "p = p' \<Longrightarrow> q = q' \<Longrightarrow> (\<And>a b c d. p' = (a, b) \<Longrightarrow> q' = (c, d) \<Longrightarrow> f a c = f' a c) \<Longrightarrow>
     (\<And>a b c d. p' = (a, b) \<Longrightarrow> q' = (c, d) \<Longrightarrow> g b d = g' b d) \<Longrightarrow> cmp_pair f g p q = cmp_pair f' g' p' q'"
  by (cases p'; cases q') (simp add: cmp_pair_def)

lemma cmp_option_cong [fundef_cong]:
  "x = x' \<Longrightarrow> y = y' \<Longrightarrow> (\<And>a b. x' = Some a \<Longrightarrow> y' = Some b \<Longrightarrow> f a b = g a b) \<Longrightarrow>
     cmp_option f x y = cmp_option g x' y'"
  by (cases x'; cases y') simp_all

end
