(* ===== verification/ValueOrder.thy ===== *)
theory ValueOrder
  imports Values Compare "HOL-Library.Product_Lexorder"
begin

text \<open>
  Equality and order of runtime values (\<open>impl PartialEq\<close> and \<open>impl Ord\<close> for
  \<open>Value\<close> and \<open>SampledField\<close> in \<open>reify-ir/src/value.rs\<close>).  The contract that a
  \<open>BTreeSet\<close> or \<open>BTreeMap\<close> of values needs, a total order whose \<open>Equal\<close> is
  \<open>==\<close>, is what the theorems are about.
\<close>

section \<open>Comparisons of the parts\<close>

definition cmp_rational :: "Rational \<Rightarrow> Rational \<Rightarrow> Ordering" where
  "cmp_rational a b = then_with (cmp_by num a b) (cmp_by den a b)"

definition cmp_dimension :: "DimensionVector \<Rightarrow> DimensionVector \<Rightarrow> Ordering" where
  "cmp_dimension d e = cmp_list cmp_rational (slots d) (slots e)"

definition cmp_cell_id :: "ValueCellId \<Rightarrow> ValueCellId \<Rightarrow> Ordering" where
  "cmp_cell_id a b = then_with (cmp_str (vc_entity a) (vc_entity b)) (cmp_str (vc_member a) (vc_member b))"

definition sort_fields :: "(string \<times> 'v) list \<Rightarrow> (string \<times> 'v) list" where
  "sort_fields = sort_key fst"

definition sorted_captures :: "(ValueCellId \<times> 'v) list \<Rightarrow> (ValueCellId \<times> 'v) list" where
  "sorted_captures = sort_key (\<lambda>p. (vc_entity (fst p), vc_member (fst p)))"

text \<open>The first difference of two sequences traversed together.\<close>

definition cmp_zip :: "('a \<Rightarrow> 'a \<Rightarrow> Ordering) \<Rightarrow> 'a list \<Rightarrow> 'a list \<Rightarrow> Ordering" where
  "cmp_zip f a b =
     (case find (\<lambda>r. r \<noteq> Equal) (map (\<lambda>(x, y). f x y) (zip a b)) of Some r \<Rightarrow> r | None \<Rightarrow> Equal)"

definition cmp_floats :: "f64 list \<Rightarrow> f64 list \<Rightarrow> Ordering" where
  "cmp_floats a b = then_with (cmp_by length a b) (cmp_zip total_cmp a b)"

fun debug_grid_kind :: "SampledGridKind \<Rightarrow> string" where
  "debug_grid_kind Regular1D = ''Regular1D''"
| "debug_grid_kind Regular2D = ''Regular2D''"
| "debug_grid_kind Regular3D = ''Regular3D''"

fun debug_interpolation :: "InterpolationKind \<Rightarrow> string" where
  "debug_interpolation Linear = ''Linear''"
| "debug_interpolation NearestNeighbor = ''NearestNeighbor''"
| "debug_interpolation Cubic = ''Cubic''"
| "debug_interpolation Rbf = ''Rbf''"
| "debug_interpolation Kriging = ''Kriging''"

fun debug_source :: "FieldSourceKind \<Rightarrow> string" where
  "debug_source Analytical = ''Analytical''"
| "debug_source Sampled = ''Sampled''"
| "debug_source Composed = ''Composed''"
| "debug_source Imported = ''Imported''"
| "debug_source Gradient = ''Gradient''"
| "debug_source Divergence = ''Divergence''"
| "debug_source Curl = ''Curl''"
| "debug_source Laplacian = ''Laplacian''"
| "debug_source VonMises = ''VonMises''"
| "debug_source PrincipalStresses = ''PrincipalStresses''"
| "debug_source MaxShear = ''MaxShear''"
| "debug_source SafetyFactor = ''SafetyFactor''"
| "debug_source Restricted = ''Restricted''"
| "debug_source AsPrintedZones = ''AsPrintedZones''"

definition cmp_sampled :: "SampledField \<Rightarrow> SampledField \<Rightarrow> Ordering" where
  "cmp_sampled a b =
     then_with (cmp_str (sf_name a) (sf_name b))
    (then_with (cmp_str (debug_grid_kind (sf_kind a)) (debug_grid_kind (sf_kind b)))
    (then_with (cmp_floats (bounds_min a) (bounds_min b))
    (then_with (cmp_floats (bounds_max a) (bounds_max b))
    (then_with (cmp_floats (spacing a) (spacing b))
    (then_with (then_with (cmp_by length (axis_grids a) (axis_grids b)) (cmp_zip cmp_floats (axis_grids a) (axis_grids b)))
    (then_with (cmp_str (debug_interpolation (interpolation a)) (debug_interpolation (interpolation b)))
      (cmp_floats (sf_data a) (sf_data b))))))))"

definition vecs_bit_eq :: "f64 list \<Rightarrow> f64 list \<Rightarrow> bool" where
  "vecs_bit_eq xs ys \<longleftrightarrow> length xs = length ys \<and> list_all (\<lambda>(x, y). x = y) (zip xs ys)"

definition sampled_eq :: "SampledField \<Rightarrow> SampledField \<Rightarrow> bool" where
  "sampled_eq a b \<longleftrightarrow>
     sf_name a = sf_name b \<and> sf_kind a = sf_kind b
     \<and> vecs_bit_eq (bounds_min a) (bounds_min b) \<and> vecs_bit_eq (bounds_max a) (bounds_max b)
     \<and> vecs_bit_eq (spacing a) (spacing b)
     \<and> length (axis_grids a) = length (axis_grids b)
     \<and> list_all (\<lambda>(x, y). vecs_bit_eq x y) (zip (axis_grids a) (axis_grids b))
     \<and> interpolation a = interpolation b \<and> vecs_bit_eq (sf_data a) (sf_data b)"

text \<open>The byte encoding of a feature, which is also its sort key.\<close>

fun derived_kind_tag :: "DerivedKind \<Rightarrow> u8" where
  "derived_kind_tag MidSurface = 0"

fun feature_bytes :: "FeatureId \<Rightarrow> u8 list" where
  "feature_bytes (FRealization node) =
     0 # le_bytes 4 (word_of_nat (length (rn_entity node)) :: u32) @ map of_char (rn_entity node)
       @ le_bytes 4 (rn_index node)"
| "feature_bytes (FDerived base kind) = 1 # derived_kind_tag kind # feature_bytes base"

fun vec3_entries :: "vec3 \<Rightarrow> f64 list" where
  "vec3_entries (x, y, z) = [x, y, z]"

fun affine_entries :: "vec3 \<times> vec3 \<times> vec3 \<Rightarrow> vec3 \<Rightarrow> f64 list" where
  "affine_entries (r0, r1, r2) t = vec3_entries r0 @ vec3_entries r1 @ vec3_entries r2 @ vec3_entries t"

definition handle_eq :: "GeometryHandleRef \<Rightarrow> GeometryHandleRef \<Rightarrow> bool" where
  "handle_eq a b \<longleftrightarrow> realization_ref a = realization_ref b \<and> upstream_values_hash a = upstream_values_hash b"

definition cmp_handle :: "GeometryHandleRef \<Rightarrow> GeometryHandleRef \<Rightarrow> Ordering" where
  "cmp_handle a b =
     then_with (cmp_str (rn_entity (realization_ref a)) (rn_entity (realization_ref b)))
    (then_with (cmp_by rn_index (realization_ref a) (realization_ref b))
      (cmp_list (cmp_by id) (upstream_values_hash a) (upstream_values_hash b)))"

section \<open>Equality\<close>

lemma set_sort_fields [simp]: "set (sort_fields fs) = set fs"
  by (simp add: sort_fields_def)

lemma set_sorted_captures [simp]: "set (sorted_captures cs) = set cs"
  by (simp add: sorted_captures_def)

lemma set_user_fields: "set (user_fields fs) \<subseteq> set fs"
  by (auto simp: user_fields_def)

text \<open>Comparison of pairs, with the recursive equality on one or both parts.\<close>

definition pair_eq :: "('a \<Rightarrow> 'a \<Rightarrow> bool) \<Rightarrow> ('b \<Rightarrow> 'b \<Rightarrow> bool) \<Rightarrow> 'a \<times> 'b \<Rightarrow> 'a \<times> 'b \<Rightarrow> bool" where
  "pair_eq f g p q \<longleftrightarrow> f (fst p) (fst q) \<and> g (snd p) (snd q)"

lemma pair_eq_cong [fundef_cong]:
  "p = p' \<Longrightarrow> q = q' \<Longrightarrow> (\<And>a b c d. p' = (a, b) \<Longrightarrow> q' = (c, d) \<Longrightarrow> f a c = f' a c) \<Longrightarrow>
     (\<And>a b c d. p' = (a, b) \<Longrightarrow> q' = (c, d) \<Longrightarrow> g b d = g' b d) \<Longrightarrow> pair_eq f g p q = pair_eq f' g' p' q'"
  by (cases p'; cases q') (simp add: pair_eq_def)

lemma rel_option_cong' [fundef_cong]:
  "x = x' \<Longrightarrow> y = y' \<Longrightarrow> (\<And>a b. x' = Some a \<Longrightarrow> y' = Some b \<Longrightarrow> f a b = g a b) \<Longrightarrow>
     rel_option f x y = rel_option g x' y'"
  by (cases x'; cases y') simp_all

lemma size_below: "x \<in> set xs \<Longrightarrow> n \<le> f x \<Longrightarrow> n < Suc (size_list f xs)"
  using size_list_estimation' [of x xs n f] by simp

lemma size_value_parts:
  "v \<in> set vs \<Longrightarrow> size v < Suc (size_list size vs)"
  "(k, v) \<in> set fs \<Longrightarrow> size v < Suc (size_list (size_prod (\<lambda>s. 0) size) fs)"
  "(v, w) \<in> set kvs \<Longrightarrow> size v < Suc (size_list (size_prod size size) kvs)"
  "(v, w) \<in> set kvs \<Longrightarrow> size w < Suc (size_list (size_prod size size) kvs)"
  "v \<in> set row \<Longrightarrow> row \<in> set rows \<Longrightarrow> size v < Suc (size_list (size_list size) rows)"
  by (auto intro!: size_below intro: size_list_estimation')

lemma size_capture: "(c, v) \<in> set cs \<Longrightarrow> size v < Suc (n + size_list (size_prod (\<lambda>c. 0) size) cs)"
  using size_value_parts(2) [of c v cs] by simp

function (sequential) value_eq :: "Value \<Rightarrow> Value \<Rightarrow> bool" where
  "value_eq (ValBool a) w = (case w of ValBool b \<Rightarrow> a = b | _ \<Rightarrow> False)"
| "value_eq (ValInt a) w = (case w of ValInt b \<Rightarrow> a = b | _ \<Rightarrow> False)"
| "value_eq (ValReal a) w = (case w of ValReal b \<Rightarrow> a = b | _ \<Rightarrow> False)"
| "value_eq (ValString a) w = (case w of ValString b \<Rightarrow> a = b | _ \<Rightarrow> False)"
| "value_eq (ValScalar a ad) w = (case w of ValScalar b bd \<Rightarrow> a = b \<and> ad = bd | _ \<Rightarrow> False)"
| "value_eq (ValEnum a av ap) w =
     (case w of
        ValEnum b bv bp \<Rightarrow>
          if a \<noteq> b \<or> av \<noteq> bv then False
          else list_all2 (pair_eq (=) value_eq) (sort_fields ap) (sort_fields bp)
      | _ \<Rightarrow> False)"
| "value_eq (ValList a) w = (case w of ValList b \<Rightarrow> list_all2 value_eq a b | _ \<Rightarrow> False)"
| "value_eq (ValTensor a) w = (case w of ValTensor b \<Rightarrow> list_all2 value_eq a b | _ \<Rightarrow> False)"
| "value_eq (ValPoint a) w = (case w of ValPoint b \<Rightarrow> list_all2 value_eq a b | _ \<Rightarrow> False)"
| "value_eq (ValVector a) w = (case w of ValVector b \<Rightarrow> list_all2 value_eq a b | _ \<Rightarrow> False)"
| "value_eq (ValSet a) w = (case w of ValSet b \<Rightarrow> list_all2 value_eq a b | _ \<Rightarrow> False)"
| "value_eq (ValMap a) w = (case w of ValMap b \<Rightarrow> list_all2 (pair_eq value_eq value_eq) a b | _ \<Rightarrow> False)"
| "value_eq (ValOption a) w = (case w of ValOption b \<Rightarrow> rel_option value_eq a b | _ \<Rightarrow> False)"
| "value_eq (ValField ad ac as al) w =
     (case w of ValField bd bc bs bl \<Rightarrow> ad = bd \<and> ac = bc \<and> as = bs \<and> value_eq al bl | _ \<Rightarrow> False)"
| "value_eq (ValLambda ap ab ac) w =
     (case w of
        ValLambda bp bb bc \<Rightarrow>
          ap = bp \<and> expr_hash ab = expr_hash bb
          \<and> list_all2 (pair_eq (=) value_eq) (sorted_captures ac) (sorted_captures bc)
      | _ \<Rightarrow> False)"
| "value_eq (ValComplex ar ai ad) w = (case w of ValComplex br bi bd \<Rightarrow> ar = br \<and> ai = bi \<and> ad = bd | _ \<Rightarrow> False)"
| "value_eq (ValOrientation aw ax ay az) w =
     (case w of ValOrientation bw bx by bz \<Rightarrow> aw = bw \<and> ax = bx \<and> ay = by \<and> az = bz | _ \<Rightarrow> False)"
| "value_eq (ValFrame ao ab) w = (case w of ValFrame bo bb \<Rightarrow> value_eq ao bo \<and> value_eq ab bb | _ \<Rightarrow> False)"
| "value_eq (ValTransform ar atr) w = (case w of ValTransform br btr \<Rightarrow> value_eq ar br \<and> value_eq atr btr | _ \<Rightarrow> False)"
| "value_eq (ValPlane ao an) w = (case w of ValPlane bo bn \<Rightarrow> value_eq ao bo \<and> value_eq an bn | _ \<Rightarrow> False)"
| "value_eq (ValAxis ao ad) w = (case w of ValAxis bo bd \<Rightarrow> value_eq ao bo \<and> value_eq ad bd | _ \<Rightarrow> False)"
| "value_eq (ValBoundingBox amin amax) w =
     (case w of ValBoundingBox bmin bmax \<Rightarrow> value_eq amin bmin \<and> value_eq amax bmax | _ \<Rightarrow> False)"
| "value_eq (ValRange al au ali aui) w =
     (case w of
        ValRange bl bu bli bui \<Rightarrow>
          (case (normalize_range_flags al au ali aui, normalize_range_flags bl bu bli bui) of
             ((ali, aui), (bli, bui)) \<Rightarrow>
               rel_option value_eq al bl \<and> rel_option value_eq au bu \<and> ali = bli \<and> aui = bui)
      | _ \<Rightarrow> False)"
| "value_eq (ValMatrix a) w = (case w of ValMatrix b \<Rightarrow> list_all2 (list_all2 value_eq) a b | _ \<Rightarrow> False)"
| "value_eq (ValSampledField a) w = (case w of ValSampledField b \<Rightarrow> sampled_eq a b | _ \<Rightarrow> False)"
| "value_eq (ValStructureInstance ai an av af) w =
     (case w of
        ValStructureInstance bi bn bv bf \<Rightarrow>
          if an \<noteq> bn \<or> av \<noteq> bv then False
          else if length (user_fields af) \<noteq> length (user_fields bf) then False
          else list_all (\<lambda>(k, x). case hm_get bf k of Some y \<Rightarrow> value_eq x y | None \<Rightarrow> False) (user_fields af)
      | _ \<Rightarrow> False)"
| "value_eq (ValGeometryHandle a) w = (case w of ValGeometryHandle b \<Rightarrow> handle_eq a b | _ \<Rightarrow> False)"
| "value_eq (ValAffineMap la ta) w =
     (case w of
        ValAffineMap lb tb \<Rightarrow> list_all (\<lambda>(a, b). a = b) (zip (affine_entries la ta) (affine_entries lb tb))
      | _ \<Rightarrow> False)"
| "value_eq (ValSelector a) w = (case w of ValSelector b \<Rightarrow> sel_hash a = sel_hash b | _ \<Rightarrow> False)"
| "value_eq (ValDirection ax ay az) w =
     (case w of ValDirection bx by bz \<Rightarrow> ax = bx \<and> ay = by \<and> az = bz | _ \<Rightarrow> False)"
| "value_eq (ValFeature a) w = (case w of ValFeature b \<Rightarrow> a = b | _ \<Rightarrow> False)"
| "value_eq ValUndef w = (case w of ValUndef \<Rightarrow> True | _ \<Rightarrow> False)"
  by pat_completeness auto
termination
  by (relation "measure (\<lambda>(v, w). size v)")
    (auto intro: size_value_parts size_capture dest: subsetD [OF set_user_fields])

section \<open>Order\<close>

fun type_tag :: "Value \<Rightarrow> nat" where
  "type_tag ValUndef = 0"
| "type_tag (ValBool a) = 1"
| "type_tag (ValInt a) = 2"
| "type_tag (ValReal a) = 3"
| "type_tag (ValScalar a d) = 4"
| "type_tag (ValString a) = 5"
| "type_tag (ValEnum a v p) = 6"
| "type_tag (ValList a) = 7"
| "type_tag (ValSet a) = 8"
| "type_tag (ValMap a) = 9"
| "type_tag (ValOption a) = 10"
| "type_tag (ValField d c s l) = 11"
| "type_tag (ValLambda p b c) = 12"
| "type_tag (ValTensor a) = 13"
| "type_tag (ValComplex r i d) = 14"
| "type_tag (ValOrientation w x y z) = 15"
| "type_tag (ValRange l u li ui) = 16"
| "type_tag (ValPoint a) = 17"
| "type_tag (ValVector a) = 18"
| "type_tag (ValMatrix a) = 19"
| "type_tag (ValFrame a b) = 20"
| "type_tag (ValTransform a b) = 21"
| "type_tag (ValPlane a b) = 22"
| "type_tag (ValAxis a b) = 23"
| "type_tag (ValBoundingBox a b) = 24"
| "type_tag (ValSampledField a) = 25"
| "type_tag (ValStructureInstance i n v f) = 26"
| "type_tag (ValGeometryHandle a) = 27"
| "type_tag (ValAffineMap l t) = 28"
| "type_tag (ValSelector a) = 29"
| "type_tag (ValDirection x y z) = 30"
| "type_tag (ValFeature a) = 31"

text \<open>Variants with different tags are ordered by their tags, in the last branch of each case.\<close>

definition cmp_tags :: "Value \<Rightarrow> Value \<Rightarrow> Ordering" where
  "cmp_tags = cmp_by type_tag"

function (sequential) value_cmp :: "Value \<Rightarrow> Value \<Rightarrow> Ordering" where
  "value_cmp ValUndef w = (case w of ValUndef \<Rightarrow> Equal | _ \<Rightarrow> cmp_tags ValUndef w)"
| "value_cmp (ValBool a) w = (case w of ValBool b \<Rightarrow> cmp_by id a b | _ \<Rightarrow> cmp_tags (ValBool a) w)"
| "value_cmp (ValInt a) w = (case w of ValInt b \<Rightarrow> cmp_by sint a b | _ \<Rightarrow> cmp_tags (ValInt a) w)"
| "value_cmp (ValReal a) w = (case w of ValReal b \<Rightarrow> total_cmp a b | _ \<Rightarrow> cmp_tags (ValReal a) w)"
| "value_cmp (ValScalar a ad) w =
     (case w of ValScalar b bd \<Rightarrow> then_with (cmp_dimension ad bd) (total_cmp a b) | _ \<Rightarrow> cmp_tags (ValScalar a ad) w)"
| "value_cmp (ValString a) w = (case w of ValString b \<Rightarrow> cmp_str a b | _ \<Rightarrow> cmp_tags (ValString a) w)"
| "value_cmp (ValEnum a av ap) w =
     (case w of
        ValEnum b bv bp \<Rightarrow>
          then_with (then_with (cmp_str a b) (cmp_str av bv))
            (cmp_list (cmp_pair cmp_str value_cmp) (sort_fields ap) (sort_fields bp))
      | _ \<Rightarrow> cmp_tags (ValEnum a av ap) w)"
| "value_cmp (ValList a) w = (case w of ValList b \<Rightarrow> cmp_list value_cmp a b | _ \<Rightarrow> cmp_tags (ValList a) w)"
| "value_cmp (ValTensor a) w = (case w of ValTensor b \<Rightarrow> cmp_list value_cmp a b | _ \<Rightarrow> cmp_tags (ValTensor a) w)"
| "value_cmp (ValPoint a) w = (case w of ValPoint b \<Rightarrow> cmp_list value_cmp a b | _ \<Rightarrow> cmp_tags (ValPoint a) w)"
| "value_cmp (ValVector a) w = (case w of ValVector b \<Rightarrow> cmp_list value_cmp a b | _ \<Rightarrow> cmp_tags (ValVector a) w)"
| "value_cmp (ValSet a) w = (case w of ValSet b \<Rightarrow> cmp_list value_cmp a b | _ \<Rightarrow> cmp_tags (ValSet a) w)"
| "value_cmp (ValMap a) w =
     (case w of ValMap b \<Rightarrow> cmp_list (cmp_pair value_cmp value_cmp) a b | _ \<Rightarrow> cmp_tags (ValMap a) w)"
| "value_cmp (ValOption a) w = (case w of ValOption b \<Rightarrow> cmp_option value_cmp a b | _ \<Rightarrow> cmp_tags (ValOption a) w)"
| "value_cmp (ValField ad ac as al) w =
     (case w of
        ValField bd bc bs bl \<Rightarrow>
          then_with (then_with (then_with (cmp_str (show_type ad) (show_type bd)) (cmp_str (show_type ac) (show_type bc)))
            (cmp_str (debug_source as) (debug_source bs))) (value_cmp al bl)
      | _ \<Rightarrow> cmp_tags (ValField ad ac as al) w)"
| "value_cmp (ValLambda ap ab ac) w =
     (case w of
        ValLambda bp bb bc \<Rightarrow>
          then_with (then_with (cmp_list (cmp_pair cmp_str cmp_cell_id) ap bp) (cmp_by expr_hash ab bb))
            (cmp_list (cmp_pair cmp_cell_id value_cmp) (sorted_captures ac) (sorted_captures bc))
      | _ \<Rightarrow> cmp_tags (ValLambda ap ab ac) w)"
| "value_cmp (ValComplex ar ai ad) w =
     (case w of
        ValComplex br bi bd \<Rightarrow> then_with (then_with (cmp_dimension ad bd) (total_cmp ar br)) (total_cmp ai bi)
      | _ \<Rightarrow> cmp_tags (ValComplex ar ai ad) w)"
| "value_cmp (ValOrientation aw ax ay az) w =
     (case w of
        ValOrientation bw bx by bz \<Rightarrow>
          then_with (then_with (then_with (total_cmp aw bw) (total_cmp ax bx)) (total_cmp ay by)) (total_cmp az bz)
      | _ \<Rightarrow> cmp_tags (ValOrientation aw ax ay az) w)"
| "value_cmp (ValRange al au ali aui) w =
     (case w of
        ValRange bl bu bli bui \<Rightarrow>
          (case (normalize_range_flags al au ali aui, normalize_range_flags bl bu bli bui) of
             ((ali, aui), (bli, bui)) \<Rightarrow>
               then_with (then_with (then_with (cmp_by id ali bli) (cmp_option value_cmp al bl)) (cmp_by id aui bui))
                 (cmp_option value_cmp au bu))
      | _ \<Rightarrow> cmp_tags (ValRange al au ali aui) w)"
| "value_cmp (ValMatrix a) w =
     (case w of ValMatrix b \<Rightarrow> cmp_list (cmp_list value_cmp) a b | _ \<Rightarrow> cmp_tags (ValMatrix a) w)"
| "value_cmp (ValFrame ao ab) w =
     (case w of ValFrame bo bb \<Rightarrow> then_with (value_cmp ao bo) (value_cmp ab bb) | _ \<Rightarrow> cmp_tags (ValFrame ao ab) w)"
| "value_cmp (ValTransform ar atr) w =
     (case w of ValTransform br btr \<Rightarrow> then_with (value_cmp ar br) (value_cmp atr btr)
      | _ \<Rightarrow> cmp_tags (ValTransform ar atr) w)"
| "value_cmp (ValPlane ao an) w =
     (case w of ValPlane bo bn \<Rightarrow> then_with (value_cmp ao bo) (value_cmp an bn) | _ \<Rightarrow> cmp_tags (ValPlane ao an) w)"
| "value_cmp (ValAxis ao ad) w =
     (case w of ValAxis bo bd \<Rightarrow> then_with (value_cmp ao bo) (value_cmp ad bd) | _ \<Rightarrow> cmp_tags (ValAxis ao ad) w)"
| "value_cmp (ValBoundingBox amin amax) w =
     (case w of ValBoundingBox bmin bmax \<Rightarrow> then_with (value_cmp amin bmin) (value_cmp amax bmax)
      | _ \<Rightarrow> cmp_tags (ValBoundingBox amin amax) w)"
| "value_cmp (ValSampledField a) w =
     (case w of ValSampledField b \<Rightarrow> cmp_sampled a b | _ \<Rightarrow> cmp_tags (ValSampledField a) w)"
| "value_cmp (ValStructureInstance ai an av af) w =
     (case w of
        ValStructureInstance bi bn bv bf \<Rightarrow>
          then_with (then_with (cmp_str an bn) (cmp_by id av bv))
            (cmp_list (cmp_pair cmp_str value_cmp) (sort_fields (user_fields af)) (sort_fields (user_fields bf)))
      | _ \<Rightarrow> cmp_tags (ValStructureInstance ai an av af) w)"
| "value_cmp (ValGeometryHandle a) w =
     (case w of ValGeometryHandle b \<Rightarrow> cmp_handle a b | _ \<Rightarrow> cmp_tags (ValGeometryHandle a) w)"
| "value_cmp (ValAffineMap la ta) w =
     (case w of
        ValAffineMap lb tb \<Rightarrow> cmp_zip total_cmp (affine_entries la ta) (affine_entries lb tb)
      | _ \<Rightarrow> cmp_tags (ValAffineMap la ta) w)"
| "value_cmp (ValSelector a) w =
     (case w of ValSelector b \<Rightarrow> cmp_by sel_hash a b | _ \<Rightarrow> cmp_tags (ValSelector a) w)"
| "value_cmp (ValDirection ax ay az) w =
     (case w of
        ValDirection bx by bz \<Rightarrow> then_with (then_with (total_cmp ax bx) (total_cmp ay by)) (total_cmp az bz)
      | _ \<Rightarrow> cmp_tags (ValDirection ax ay az) w)"
| "value_cmp (ValFeature a) w =
     (case w of
        ValFeature b \<Rightarrow> cmp_list (cmp_by id) (feature_bytes a) (feature_bytes b)
      | _ \<Rightarrow> cmp_tags (ValFeature a) w)"
  by pat_completeness auto
termination
  by (relation "measure (\<lambda>(v, w). size v)")
    (auto intro: size_value_parts size_capture dest: subsetD [OF set_user_fields])

end
