(* ===== verification/ValueOrderLaws.thy ===== *)
theory ValueOrderLaws
  imports ValueOrder
begin

text \<open>
  The laws of the order on values: it is total, and its \<open>Equal\<close> is \<open>==\<close> up to the
  text of the types of fields.  Each variant is one lemma over the combinations
  of \<open>Compare\<close>, and the theorems are inductions that collect them.
\<close>

section \<open>The order is total\<close>

definition cmp_on :: "('a \<Rightarrow> 'b) \<Rightarrow> ('b \<Rightarrow> 'b \<Rightarrow> Ordering) \<Rightarrow> 'a \<Rightarrow> 'a \<Rightarrow> Ordering" where
  "cmp_on k f x y = f (k x) (k y)"

lemma lawful_on [lawful_intro]: "lawful f (k x) \<Longrightarrow> lawful (cmp_on k f) x"
  by (simp add: lawful_def cmp_on_def)

lemma then_with_assoc: "then_with (then_with a b) c = then_with a (then_with b c)"
  by (simp add: then_with_def)

lemma cmp_zip_list: "length a = length b \<Longrightarrow> cmp_zip f a b = cmp_list f a b"
  by (induction a b rule: list_induct2) (auto simp: cmp_zip_def then_with_def)

lemma cmp_zip_length: "then_with (cmp_by length a b) (cmp_zip f a b) = then_with (cmp_by length a b) (cmp_list f a b)"
  by (cases "length a = length b") (auto simp: cmp_zip_list then_with_def)

lemma cmp_rational_pair: "cmp_rational = (\<lambda>a b. then_with (cmp_by num a b) (cmp_by den a b))"
  by (intro ext) (simp add: cmp_rational_def)

lemma cmp_floats_list: "cmp_floats = (\<lambda>a b. then_with (cmp_by length a b) (cmp_list total_cmp a b))"
  by (intro ext) (simp only: cmp_floats_def cmp_zip_length)

lemma lawful_rational [lawful_intro]: "lawful cmp_rational x"
  unfolding cmp_rational_pair by (intro lawful_intro)

lemma lawful_dimension [lawful_intro]: "lawful cmp_dimension d"
proof -
  have eq: "cmp_dimension = cmp_on slots (cmp_list cmp_rational)" by (intro ext) (simp add: cmp_dimension_def cmp_on_def)
  show ?thesis unfolding eq by (intro lawful_intro)
qed

lemma lawful_cell_id [lawful_intro]: "lawful cmp_cell_id c"
proof -
  have eq: "cmp_cell_id = (\<lambda>a b. then_with (cmp_on vc_entity cmp_str a b) (cmp_on vc_member cmp_str a b))"
    by (intro ext) (simp add: cmp_cell_id_def cmp_on_def)
  show ?thesis unfolding eq by (intro lawful_intro)
qed

lemma lawful_floats [lawful_intro]: "lawful cmp_floats xs"
  unfolding cmp_floats_list by (intro lawful_intro)

lemma lawful_handle [lawful_intro]: "lawful cmp_handle g"
proof -
  have eq: "cmp_handle = (\<lambda>a b. then_with (cmp_on (\<lambda>g. rn_entity (realization_ref g)) cmp_str a b)
      (then_with (cmp_by (\<lambda>g. rn_index (realization_ref g)) a b)
        (cmp_on upstream_values_hash (cmp_list (cmp_by id)) a b)))"
    by (intro ext) (simp add: cmp_handle_def cmp_on_def cmp_by_def)
  show ?thesis unfolding eq by (intro lawful_intro)
qed

lemma lawful_sampled_field [lawful_intro]: "lawful cmp_sampled f"
proof -
  have eq: "cmp_sampled = (\<lambda>a b.
       then_with (cmp_on sf_name cmp_str a b)
      (then_with (cmp_on (\<lambda>f. debug_grid_kind (sf_kind f)) cmp_str a b)
      (then_with (cmp_on bounds_min cmp_floats a b)
      (then_with (cmp_on bounds_max cmp_floats a b)
      (then_with (cmp_on spacing cmp_floats a b)
      (then_with (then_with (cmp_by (\<lambda>f. length (axis_grids f)) a b) (cmp_on axis_grids (cmp_list cmp_floats) a b))
      (then_with (cmp_on (\<lambda>f. debug_interpolation (interpolation f)) cmp_str a b)
        (cmp_on sf_data cmp_floats a b))))))))"
    by (intro ext) (simp add: cmp_sampled_def cmp_on_def cmp_zip_length cmp_by_def [of "\<lambda>f. length (axis_grids f)"]
        flip: cmp_by_def [of length])
  show ?thesis unfolding eq by (intro lawful_intro)
qed

text \<open>One variant at a time: values of another variant are ordered by their tags.\<close>

lemma cmp_other_tag: "type_tag v \<noteq> type_tag w \<Longrightarrow> value_cmp v w = cmp_tags v w"
  by (cases v; cases w) simp_all

lemma lawful_by_tag:
  assumes "\<And>w. type_tag w = type_tag v \<Longrightarrow> value_cmp w v = reverse_ordering (value_cmp v w)"
    and "\<And>y z. type_tag y = type_tag v \<Longrightarrow> type_tag z = type_tag v \<Longrightarrow>
           chain (value_cmp v y) (value_cmp y z) (value_cmp v z)"
  shows "lawful value_cmp v"
proof (rule lawfulI)
  show "value_cmp w v = reverse_ordering (value_cmp v w)" for w
    using assms(1) [of w] by (cases "type_tag w = type_tag v") (auto simp: cmp_other_tag cmp_tags_def cmp_by_def)
  show "chain (value_cmp v y) (value_cmp y z) (value_cmp v z)" for y z
    using assms(2) [of y z]
    by (cases "type_tag y = type_tag v"; cases "type_tag z = type_tag v"; cases "type_tag y = type_tag z")
      (auto simp: cmp_other_tag cmp_tags_def cmp_by_def chain_def)
qed

lemma lawful_variant:
  assumes "lawful h p" and v: "v = C p" and same: "\<And>p q. value_cmp (C p) (C q) = h p q"
    and shape: "\<And>w. type_tag w = type_tag v \<Longrightarrow> \<exists>q. w = C q"
  shows "lawful value_cmp v"
proof (rule lawful_by_tag)
  fix y z assume "type_tag y = type_tag v" "type_tag z = type_tag v"
  then obtain q r where "y = C q" "z = C r" using shape by blast
  then show "chain (value_cmp v y) (value_cmp y z) (value_cmp v z)"
    using assms(1) by (simp add: v same lawful_def)
next
  fix w assume "type_tag w = type_tag v"
  then obtain q where "w = C q" using shape by blast
  then show "value_cmp w v = reverse_ordering (value_cmp v w)" using assms(1) by (simp add: v same lawful_def)
qed

lemmas variant_simps = cmp_pair_def cmp_on_def then_with_assoc cmp_zip_list

lemma lawful_value_undef [lawful_intro]:
  "lawful value_cmp ValUndef"
proof (rule lawful_variant [where C = "\<lambda>u :: unit. ValUndef" and p = "()"
      and h = "cmp_by (\<lambda>u. 0 :: nat)"])
  show "lawful (cmp_by (\<lambda>u. 0 :: nat)) ()"
    by (auto intro!: lawful_intro)
  show "\<exists>q. v1 = (\<lambda>u :: unit. ValUndef) q" if "type_tag v1 = type_tag ValUndef" for v1
    using that by (cases v1) auto
qed (auto simp: variant_simps cmp_by_def)

lemma lawful_value_bool [lawful_intro]:
  "lawful value_cmp (ValBool a)"
proof (rule lawful_variant [where C = "ValBool" and p = "a"
      and h = "cmp_by id"])
  show "lawful (cmp_by id) a"
    by (auto intro!: lawful_intro)
  show "\<exists>q. v1 = (ValBool) q" if "type_tag v1 = type_tag (ValBool a)" for v1
    using that by (cases v1) auto
qed (auto simp: variant_simps)

lemma lawful_value_int [lawful_intro]:
  "lawful value_cmp (ValInt a)"
proof (rule lawful_variant [where C = "ValInt" and p = "a"
      and h = "cmp_by sint"])
  show "lawful (cmp_by sint) a"
    by (auto intro!: lawful_intro)
  show "\<exists>q. v1 = (ValInt) q" if "type_tag v1 = type_tag (ValInt a)" for v1
    using that by (cases v1) auto
qed (auto simp: variant_simps)

lemma lawful_value_real [lawful_intro]:
  "lawful value_cmp (ValReal a)"
proof (rule lawful_variant [where C = "ValReal" and p = "a"
      and h = "total_cmp"])
  show "lawful (total_cmp) a"
    by (auto intro!: lawful_intro)
  show "\<exists>q. v1 = (ValReal) q" if "type_tag v1 = type_tag (ValReal a)" for v1
    using that by (cases v1) auto
qed (auto simp: variant_simps)

lemma lawful_value_scalar [lawful_intro]:
  "lawful value_cmp (ValScalar a d)"
proof (rule lawful_variant [where C = "\<lambda>(d, a). ValScalar a d" and p = "(d, a)"
      and h = "cmp_pair cmp_dimension total_cmp"])
  show "lawful (cmp_pair cmp_dimension total_cmp) (d, a)"
    by (auto intro!: lawful_intro)
  show "\<exists>q. v1 = (\<lambda>(d, a). ValScalar a d) q" if "type_tag v1 = type_tag (ValScalar a d)" for v1
    using that by (cases v1) auto
qed (auto simp: variant_simps)

lemma lawful_value_string [lawful_intro]:
  "lawful value_cmp (ValString a)"
proof (rule lawful_variant [where C = "ValString" and p = "a"
      and h = "cmp_str"])
  show "lawful (cmp_str) a"
    by (auto intro!: lawful_intro)
  show "\<exists>q. v1 = (ValString) q" if "type_tag v1 = type_tag (ValString a)" for v1
    using that by (cases v1) auto
qed (auto simp: variant_simps)

lemma lawful_value_enum [lawful_intro]:
  assumes "\<And>k x. (k, x) \<in> set ap \<Longrightarrow> lawful value_cmp x"
  shows "lawful value_cmp (ValEnum a av ap)"
proof (rule lawful_variant [where C = "\<lambda>(a, av, ap). ValEnum a av ap" and p = "(a, av, ap)"
      and h = "cmp_pair cmp_str (cmp_pair cmp_str (cmp_on sort_fields (cmp_list (cmp_pair cmp_str value_cmp))))"])
  show "lawful (cmp_pair cmp_str (cmp_pair cmp_str (cmp_on sort_fields (cmp_list (cmp_pair cmp_str value_cmp))))) (a, av, ap)"
    using assms by (auto intro!: lawful_intro)
  show "\<exists>q. v1 = (\<lambda>(a, av, ap). ValEnum a av ap) q" if "type_tag v1 = type_tag (ValEnum a av ap)" for v1
    using that by (cases v1) auto
qed (auto simp: variant_simps)

lemma lawful_value_list [lawful_intro]:
  assumes "\<And>x. x \<in> set a \<Longrightarrow> lawful value_cmp x"
  shows "lawful value_cmp (ValList a)"
proof (rule lawful_variant [where C = "ValList" and p = "a"
      and h = "cmp_list value_cmp"])
  show "lawful (cmp_list value_cmp) a"
    using assms by (auto intro!: lawful_intro)
  show "\<exists>q. v1 = (ValList) q" if "type_tag v1 = type_tag (ValList a)" for v1
    using that by (cases v1) auto
qed (auto simp: variant_simps)

lemma lawful_value_set [lawful_intro]:
  assumes "\<And>x. x \<in> set a \<Longrightarrow> lawful value_cmp x"
  shows "lawful value_cmp (ValSet a)"
proof (rule lawful_variant [where C = "ValSet" and p = "a"
      and h = "cmp_list value_cmp"])
  show "lawful (cmp_list value_cmp) a"
    using assms by (auto intro!: lawful_intro)
  show "\<exists>q. v1 = (ValSet) q" if "type_tag v1 = type_tag (ValSet a)" for v1
    using that by (cases v1) auto
qed (auto simp: variant_simps)

lemma lawful_value_tensor [lawful_intro]:
  assumes "\<And>x. x \<in> set a \<Longrightarrow> lawful value_cmp x"
  shows "lawful value_cmp (ValTensor a)"
proof (rule lawful_variant [where C = "ValTensor" and p = "a"
      and h = "cmp_list value_cmp"])
  show "lawful (cmp_list value_cmp) a"
    using assms by (auto intro!: lawful_intro)
  show "\<exists>q. v1 = (ValTensor) q" if "type_tag v1 = type_tag (ValTensor a)" for v1
    using that by (cases v1) auto
qed (auto simp: variant_simps)

lemma lawful_value_point [lawful_intro]:
  assumes "\<And>x. x \<in> set a \<Longrightarrow> lawful value_cmp x"
  shows "lawful value_cmp (ValPoint a)"
proof (rule lawful_variant [where C = "ValPoint" and p = "a"
      and h = "cmp_list value_cmp"])
  show "lawful (cmp_list value_cmp) a"
    using assms by (auto intro!: lawful_intro)
  show "\<exists>q. v1 = (ValPoint) q" if "type_tag v1 = type_tag (ValPoint a)" for v1
    using that by (cases v1) auto
qed (auto simp: variant_simps)

lemma lawful_value_vector [lawful_intro]:
  assumes "\<And>x. x \<in> set a \<Longrightarrow> lawful value_cmp x"
  shows "lawful value_cmp (ValVector a)"
proof (rule lawful_variant [where C = "ValVector" and p = "a"
      and h = "cmp_list value_cmp"])
  show "lawful (cmp_list value_cmp) a"
    using assms by (auto intro!: lawful_intro)
  show "\<exists>q. v1 = (ValVector) q" if "type_tag v1 = type_tag (ValVector a)" for v1
    using that by (cases v1) auto
qed (auto simp: variant_simps)

lemma lawful_value_map [lawful_intro]:
  assumes "\<And>k x. (k, x) \<in> set a \<Longrightarrow> lawful value_cmp k \<and> lawful value_cmp x"
  shows "lawful value_cmp (ValMap a)"
proof (rule lawful_variant [where C = "ValMap" and p = "a"
      and h = "cmp_list (cmp_pair value_cmp value_cmp)"])
  show "lawful (cmp_list (cmp_pair value_cmp value_cmp)) a"
    using assms by (auto intro!: lawful_intro)
  show "\<exists>q. v1 = (ValMap) q" if "type_tag v1 = type_tag (ValMap a)" for v1
    using that by (cases v1) auto
qed (auto simp: variant_simps)

lemma lawful_value_option [lawful_intro]:
  assumes "\<And>x. a = Some x \<Longrightarrow> lawful value_cmp x"
  shows "lawful value_cmp (ValOption a)"
proof (rule lawful_variant [where C = "ValOption" and p = "a"
      and h = "cmp_option value_cmp"])
  show "lawful (cmp_option value_cmp) a"
    using assms by (auto intro!: lawful_intro)
  show "\<exists>q. v1 = (ValOption) q" if "type_tag v1 = type_tag (ValOption a)" for v1
    using that by (cases v1) auto
qed (auto simp: variant_simps)

lemma lawful_value_field [lawful_intro]:
  assumes "lawful value_cmp l"
  shows "lawful value_cmp (ValField d c s l)"
proof (rule lawful_variant [where C = "\<lambda>(d, c, s, l). ValField d c s l" and p = "(d, c, s, l)"
      and h = "cmp_pair (cmp_on show_type cmp_str) (cmp_pair (cmp_on show_type cmp_str) (cmp_pair (cmp_on debug_source cmp_str) value_cmp))"])
  show "lawful (cmp_pair (cmp_on show_type cmp_str) (cmp_pair (cmp_on show_type cmp_str) (cmp_pair (cmp_on debug_source cmp_str) value_cmp))) (d, c, s, l)"
    using assms by (auto intro!: lawful_intro)
  show "\<exists>q. v1 = (\<lambda>(d, c, s, l). ValField d c s l) q" if "type_tag v1 = type_tag (ValField d c s l)" for v1
    using that by (cases v1) auto
qed (auto simp: variant_simps)

lemma lawful_value_lambda [lawful_intro]:
  assumes "\<And>k x. (k, x) \<in> set c \<Longrightarrow> lawful value_cmp x"
  shows "lawful value_cmp (ValLambda ps b c)"
proof (rule lawful_variant [where C = "\<lambda>(ps, b, c). ValLambda ps b c" and p = "(ps, b, c)"
      and h = "cmp_pair (cmp_list (cmp_pair cmp_str cmp_cell_id)) (cmp_pair (cmp_by expr_hash) (cmp_on sorted_captures (cmp_list (cmp_pair cmp_cell_id value_cmp))))"])
  show "lawful (cmp_pair (cmp_list (cmp_pair cmp_str cmp_cell_id)) (cmp_pair (cmp_by expr_hash) (cmp_on sorted_captures (cmp_list (cmp_pair cmp_cell_id value_cmp))))) (ps, b, c)"
    using assms by (auto intro!: lawful_intro)
  show "\<exists>q. v1 = (\<lambda>(ps, b, c). ValLambda ps b c) q" if "type_tag v1 = type_tag (ValLambda ps b c)" for v1
    using that by (cases v1) auto
qed (auto simp: variant_simps)

lemma lawful_value_complex [lawful_intro]:
  "lawful value_cmp (ValComplex r i d)"
proof (rule lawful_variant [where C = "\<lambda>(d, r, i). ValComplex r i d" and p = "(d, r, i)"
      and h = "cmp_pair cmp_dimension (cmp_pair total_cmp total_cmp)"])
  show "lawful (cmp_pair cmp_dimension (cmp_pair total_cmp total_cmp)) (d, r, i)"
    by (auto intro!: lawful_intro)
  show "\<exists>q. v1 = (\<lambda>(d, r, i). ValComplex r i d) q" if "type_tag v1 = type_tag (ValComplex r i d)" for v1
    using that by (cases v1) auto
qed (auto simp: variant_simps)

lemma lawful_value_orientation [lawful_intro]:
  "lawful value_cmp (ValOrientation w x y z)"
proof (rule lawful_variant [where C = "\<lambda>(w, x, y, z). ValOrientation w x y z" and p = "(w, x, y, z)"
      and h = "cmp_pair total_cmp (cmp_pair total_cmp (cmp_pair total_cmp total_cmp))"])
  show "lawful (cmp_pair total_cmp (cmp_pair total_cmp (cmp_pair total_cmp total_cmp))) (w, x, y, z)"
    by (auto intro!: lawful_intro)
  show "\<exists>q. v1 = (\<lambda>(w, x, y, z). ValOrientation w x y z) q" if "type_tag v1 = type_tag (ValOrientation w x y z)" for v1
    using that by (cases v1) auto
qed (auto simp: variant_simps)

lemma lawful_value_direction [lawful_intro]:
  "lawful value_cmp (ValDirection x y z)"
proof (rule lawful_variant [where C = "\<lambda>(x, y, z). ValDirection x y z" and p = "(x, y, z)"
      and h = "cmp_pair total_cmp (cmp_pair total_cmp total_cmp)"])
  show "lawful (cmp_pair total_cmp (cmp_pair total_cmp total_cmp)) (x, y, z)"
    by (auto intro!: lawful_intro)
  show "\<exists>q. v1 = (\<lambda>(x, y, z). ValDirection x y z) q" if "type_tag v1 = type_tag (ValDirection x y z)" for v1
    using that by (cases v1) auto
qed (auto simp: variant_simps)

lemma lawful_value_matrix [lawful_intro]:
  assumes "\<And>r x. r \<in> set a \<Longrightarrow> x \<in> set r \<Longrightarrow> lawful value_cmp x"
  shows "lawful value_cmp (ValMatrix a)"
proof (rule lawful_variant [where C = "ValMatrix" and p = "a"
      and h = "cmp_list (cmp_list value_cmp)"])
  show "lawful (cmp_list (cmp_list value_cmp)) a"
    using assms by (auto intro!: lawful_intro)
  show "\<exists>q. v1 = (ValMatrix) q" if "type_tag v1 = type_tag (ValMatrix a)" for v1
    using that by (cases v1) auto
qed (auto simp: variant_simps)

lemma lawful_value_frame [lawful_intro]:
  assumes "lawful value_cmp a" and "lawful value_cmp b"
  shows "lawful value_cmp (ValFrame a b)"
proof (rule lawful_variant [where C = "\<lambda>(a, b). ValFrame a b" and p = "(a, b)"
      and h = "cmp_pair value_cmp value_cmp"])
  show "lawful (cmp_pair value_cmp value_cmp) (a, b)"
    using assms by (auto intro!: lawful_intro)
  show "\<exists>q. v1 = (\<lambda>(a, b). ValFrame a b) q" if "type_tag v1 = type_tag (ValFrame a b)" for v1
    using that by (cases v1) auto
qed (auto simp: variant_simps)

lemma lawful_value_transform [lawful_intro]:
  assumes "lawful value_cmp a" and "lawful value_cmp b"
  shows "lawful value_cmp (ValTransform a b)"
proof (rule lawful_variant [where C = "\<lambda>(a, b). ValTransform a b" and p = "(a, b)"
      and h = "cmp_pair value_cmp value_cmp"])
  show "lawful (cmp_pair value_cmp value_cmp) (a, b)"
    using assms by (auto intro!: lawful_intro)
  show "\<exists>q. v1 = (\<lambda>(a, b). ValTransform a b) q" if "type_tag v1 = type_tag (ValTransform a b)" for v1
    using that by (cases v1) auto
qed (auto simp: variant_simps)

lemma lawful_value_plane [lawful_intro]:
  assumes "lawful value_cmp a" and "lawful value_cmp b"
  shows "lawful value_cmp (ValPlane a b)"
proof (rule lawful_variant [where C = "\<lambda>(a, b). ValPlane a b" and p = "(a, b)"
      and h = "cmp_pair value_cmp value_cmp"])
  show "lawful (cmp_pair value_cmp value_cmp) (a, b)"
    using assms by (auto intro!: lawful_intro)
  show "\<exists>q. v1 = (\<lambda>(a, b). ValPlane a b) q" if "type_tag v1 = type_tag (ValPlane a b)" for v1
    using that by (cases v1) auto
qed (auto simp: variant_simps)

lemma lawful_value_axis [lawful_intro]:
  assumes "lawful value_cmp a" and "lawful value_cmp b"
  shows "lawful value_cmp (ValAxis a b)"
proof (rule lawful_variant [where C = "\<lambda>(a, b). ValAxis a b" and p = "(a, b)"
      and h = "cmp_pair value_cmp value_cmp"])
  show "lawful (cmp_pair value_cmp value_cmp) (a, b)"
    using assms by (auto intro!: lawful_intro)
  show "\<exists>q. v1 = (\<lambda>(a, b). ValAxis a b) q" if "type_tag v1 = type_tag (ValAxis a b)" for v1
    using that by (cases v1) auto
qed (auto simp: variant_simps)

lemma lawful_value_bounding_box [lawful_intro]:
  assumes "lawful value_cmp a" and "lawful value_cmp b"
  shows "lawful value_cmp (ValBoundingBox a b)"
proof (rule lawful_variant [where C = "\<lambda>(a, b). ValBoundingBox a b" and p = "(a, b)"
      and h = "cmp_pair value_cmp value_cmp"])
  show "lawful (cmp_pair value_cmp value_cmp) (a, b)"
    using assms by (auto intro!: lawful_intro)
  show "\<exists>q. v1 = (\<lambda>(a, b). ValBoundingBox a b) q" if "type_tag v1 = type_tag (ValBoundingBox a b)" for v1
    using that by (cases v1) auto
qed (auto simp: variant_simps)

lemma lawful_value_sampled [lawful_intro]:
  "lawful value_cmp (ValSampledField a)"
proof (rule lawful_variant [where C = "ValSampledField" and p = "a"
      and h = "cmp_sampled"])
  show "lawful (cmp_sampled) a"
    by (auto intro!: lawful_intro)
  show "\<exists>q. v1 = (ValSampledField) q" if "type_tag v1 = type_tag (ValSampledField a)" for v1
    using that by (cases v1) auto
qed (auto simp: variant_simps)

lemma lawful_value_geometry_handle [lawful_intro]:
  "lawful value_cmp (ValGeometryHandle a)"
proof (rule lawful_variant [where C = "ValGeometryHandle" and p = "a"
      and h = "cmp_handle"])
  show "lawful (cmp_handle) a"
    by (auto intro!: lawful_intro)
  show "\<exists>q. v1 = (ValGeometryHandle) q" if "type_tag v1 = type_tag (ValGeometryHandle a)" for v1
    using that by (cases v1) auto
qed (auto simp: variant_simps)

lemma lawful_value_affine [lawful_intro]:
  "lawful value_cmp (ValAffineMap l t)"
proof (rule lawful_variant [where C = "\<lambda>(l, t). ValAffineMap l t" and p = "(l, t)"
      and h = "cmp_on (\<lambda>(l, t). affine_entries l t) (cmp_list total_cmp)"])
  show "lawful (cmp_on (\<lambda>(l, t). affine_entries l t) (cmp_list total_cmp)) (l, t)"
    by (auto intro!: lawful_intro)
  show "\<exists>q. v1 = (\<lambda>(l, t). ValAffineMap l t) q" if "type_tag v1 = type_tag (ValAffineMap l t)" for v1
    using that by (cases v1) auto
qed (auto simp: variant_simps)

lemma lawful_value_selector [lawful_intro]:
  "lawful value_cmp (ValSelector a)"
proof (rule lawful_variant [where C = "ValSelector" and p = "a"
      and h = "cmp_by sel_hash"])
  show "lawful (cmp_by sel_hash) a"
    by (auto intro!: lawful_intro)
  show "\<exists>q. v1 = (ValSelector) q" if "type_tag v1 = type_tag (ValSelector a)" for v1
    using that by (cases v1) auto
qed (auto simp: variant_simps)

lemma lawful_value_feature [lawful_intro]:
  "lawful value_cmp (ValFeature a)"
proof (rule lawful_variant [where C = "ValFeature" and p = "a"
      and h = "cmp_on feature_bytes (cmp_list (cmp_by id))"])
  show "lawful (cmp_on feature_bytes (cmp_list (cmp_by id))) a"
    by (auto intro!: lawful_intro)
  show "\<exists>q. v1 = (ValFeature) q" if "type_tag v1 = type_tag (ValFeature a)" for v1
    using that by (cases v1) auto
qed (auto simp: variant_simps)

lemma lawful_value_range [lawful_intro]:
  assumes "\<And>x. l = Some x \<or> u = Some x \<Longrightarrow> lawful value_cmp x"
  shows "lawful value_cmp (ValRange l u li ui)"
proof (rule lawful_variant [where C = "\<lambda>(l, u, li, ui). ValRange l u li ui" and p = "(l, u, li, ui)"
      and h = "cmp_on (\<lambda>(l, u, li, ui). (fst (normalize_range_flags l u li ui), l, snd (normalize_range_flags l u li ui), u))
        (cmp_pair (cmp_by id) (cmp_pair (cmp_option value_cmp) (cmp_pair (cmp_by id) (cmp_option value_cmp))))"])
  show "lawful (cmp_on (\<lambda>(l, u, li, ui). (fst (normalize_range_flags l u li ui), l, snd (normalize_range_flags l u li ui), u))
        (cmp_pair (cmp_by id) (cmp_pair (cmp_option value_cmp) (cmp_pair (cmp_by id) (cmp_option value_cmp))))) (l, u, li, ui)"
    using assms by (auto intro!: lawful_intro)
  show "\<exists>q. v1 = (\<lambda>(l, u, li, ui). ValRange l u li ui) q" if "type_tag v1 = type_tag (ValRange l u li ui)" for v1
    using that by (cases v1) auto
qed (auto simp: variant_simps split: prod.split)

lemma lawful_value_structure [lawful_intro]:
  assumes "\<And>k x. (k, x) \<in> set f \<Longrightarrow> lawful value_cmp x"
  shows "lawful value_cmp (ValStructureInstance i n v f)"
proof (rule lawful_variant [where C = "\<lambda>(i, n, v, f). ValStructureInstance i n v f" and p = "(i, n, v, f)"
      and h = "cmp_on snd (cmp_pair cmp_str (cmp_pair (cmp_by id)
        (cmp_on (\<lambda>f. sort_fields (user_fields f)) (cmp_list (cmp_pair cmp_str value_cmp)))))"])
  show "lawful (cmp_on snd (cmp_pair cmp_str (cmp_pair (cmp_by id)
        (cmp_on (\<lambda>f. sort_fields (user_fields f)) (cmp_list (cmp_pair cmp_str value_cmp)))))) (i, n, v, f)"
    using assms set_user_fields [of f] by (auto intro!: lawful_intro)
  show "\<exists>q. v1 = (\<lambda>(i, n, v, f). ValStructureInstance i n v f) q"
    if "type_tag v1 = type_tag (ValStructureInstance i n v f)" for v1
    using that by (cases v1) auto
qed (auto simp: variant_simps)

lemma lawful_value: "lawful value_cmp v"
  by (induction v) (auto intro!: lawful_intro intro: Basic_BNFs.fsts.intros Basic_BNFs.snds.intros)

section \<open>Equal is equality\<close>

lemma cmp_rational_Equal [simp]: "cmp_rational a b = Equal \<longleftrightarrow> a = b"
  by (auto simp: cmp_rational_def intro: Rational.equality)

lemma cmp_list_eq [simp]: "(\<And>x y. f x y = Equal \<longleftrightarrow> x = y) \<Longrightarrow> cmp_list f xs ys = Equal \<longleftrightarrow> xs = ys"
  by (simp add: cmp_list_Equal list.rel_eq)

lemma cmp_dimension_Equal [simp]: "cmp_dimension a b = Equal \<longleftrightarrow> a = b"
  by (auto simp: cmp_dimension_def intro: DimensionVector.expand)

lemma cmp_cell_id_Equal [simp]: "cmp_cell_id a b = Equal \<longleftrightarrow> a = b"
  by (auto simp: cmp_cell_id_def intro: ValueCellId.expand)

lemma zip_all2: "length xs = length ys \<Longrightarrow> list_all (\<lambda>(x, y). P x y) (zip xs ys) \<longleftrightarrow> list_all2 P xs ys"
  by (simp add: list_all2_iff list_all_iff)

lemma vecs_bit_eq [simp]: "vecs_bit_eq xs ys \<longleftrightarrow> xs = ys"
  by (auto simp: vecs_bit_eq_def zip_all2 list.rel_eq)

lemma cmp_floats_Equal [simp]: "cmp_floats xs ys = Equal \<longleftrightarrow> xs = ys"
  by (auto simp: cmp_floats_list)

lemma debug_grid_inject [simp]: "debug_grid_kind a = debug_grid_kind b \<longleftrightarrow> a = b"
  by (cases a; cases b) simp_all

lemma debug_interpolation_inject [simp]: "debug_interpolation a = debug_interpolation b \<longleftrightarrow> a = b"
  by (cases a; cases b) simp_all

lemma debug_source_inject [simp]: "debug_source a = debug_source b \<longleftrightarrow> a = b"
  by (cases a; cases b) simp_all

lemma sampled_Equal [simp]: "cmp_sampled a b = Equal \<longleftrightarrow> sampled_eq a b"
proof -
  have bits: "vecs_bit_eq = (=)" by (intro ext) simp
  have grids: "length g = length h \<Longrightarrow> cmp_zip cmp_floats g h = Equal \<longleftrightarrow> list_all (\<lambda>(x, y). x = y) (zip g h)" for g h
    by (simp add: cmp_zip_list zip_all2 list.rel_eq)
  show ?thesis unfolding cmp_sampled_def sampled_eq_def bits using grids [of "axis_grids a" "axis_grids b"] by auto
qed

lemma handle_Equal [simp]: "cmp_handle a b = Equal \<longleftrightarrow> handle_eq a b"
  by (auto simp: cmp_handle_def handle_eq_def intro: RealizationNodeId.expand)

lemma affine_Equal: "cmp_zip total_cmp (affine_entries la ta) (affine_entries lb tb) = Equal
    \<longleftrightarrow> list_all (\<lambda>(a, b). a = b) (zip (affine_entries la ta) (affine_entries lb tb))"
  by (cases la; cases ta; cases lb; cases tb) (auto simp: cmp_zip_list)

lemma le_bytes_inject:
  fixes a b :: "'a :: len word"
  assumes "LENGTH('a) \<le> 8 * k" and eq: "le_bytes k a = le_bytes k b"
  shows "a = b"
proof (rule bit_word_eqI)
  fix n assume n: "n < LENGTH('a)"
  have byte: "bit (ucast (drop_bit (8 * (n div 8)) w) :: u8) (n mod 8) \<longleftrightarrow> bit w n" for w :: "'a word"
    using n by (simp add: bit_simps)
  have i: "n div 8 < k" using n assms(1) by linarith
  then have "le_bytes k a ! (n div 8) = le_bytes k b ! (n div 8)" by (simp add: eq)
  with i have "(ucast (drop_bit (8 * (n div 8)) a) :: u8) = ucast (drop_bit (8 * (n div 8)) b)" by (simp add: le_bytes_def)
  then show "bit a n \<longleftrightarrow> bit b n" using byte [of a] byte [of b] by simp
qed

lemma length_le_bytes [simp]: "length (le_bytes k w) = k"
  by (simp add: le_bytes_def)

lemma of_char_u8_inject: "(of_char c :: u8) = of_char d \<longleftrightarrow> c = d"
proof
  assume eq: "(of_char c :: u8) = of_char d"
  have "unat (of_char e :: u8) = of_char e" for e :: char
    by (subst of_nat_of_char [symmetric]) (simp add: unat_of_nat del: of_nat_of_char)
  with eq show "c = d" by (metis of_char_eq_iff)
qed simp

lemma realization_bytes_inject:
  assumes "feature_bytes (FRealization n) = feature_bytes (FRealization m)"
  shows "n = m"
proof -
  have eq: "map (of_char :: char \<Rightarrow> u8) (rn_entity n) @ le_bytes 4 (rn_index n) = map of_char (rn_entity m) @ le_bytes 4 (rn_index m)"
    using assms by (simp only: feature_bytes.simps list.inject append_eq_append_conv length_le_bytes simp_thms)
  then have "map (of_char :: char \<Rightarrow> u8) (rn_entity n) = map of_char (rn_entity m)"
    and index: "le_bytes 4 (rn_index n) = le_bytes 4 (rn_index m)"
    by (simp_all only: append_eq_append_conv length_le_bytes simp_thms)
  then have "rn_entity n = rn_entity m" by (simp add: inj_map_eq_map inj_def of_char_u8_inject)
  with index show ?thesis using le_bytes_inject [of 4 "rn_index n" "rn_index m"] by (simp add: RealizationNodeId.expand)
qed

lemma feature_bytes_inject: "feature_bytes f = feature_bytes g \<Longrightarrow> f = g"
proof (induction f arbitrary: g)
  case (FRealization n)
  then show ?case using realization_bytes_inject [of n] by (cases g) auto
next
  case (FDerived f k)
  have "k = l" for l by (cases k; cases l) simp
  with FDerived show ?case by (cases g) auto
qed

text \<open>
  Well-formed values: the bindings of a persistent map have distinct keys, and
  the types of every field lie in \<open>T\<close>.
\<close>

function (sequential) value_wf :: "Type set \<Rightarrow> Value \<Rightarrow> bool" where
  "value_wf T (ValEnum t v p) = list_all (\<lambda>(k, x). value_wf T x) p"
| "value_wf T (ValList vs) = list_all (value_wf T) vs"
| "value_wf T (ValSet vs) = list_all (value_wf T) vs"
| "value_wf T (ValTensor vs) = list_all (value_wf T) vs"
| "value_wf T (ValPoint vs) = list_all (value_wf T) vs"
| "value_wf T (ValVector vs) = list_all (value_wf T) vs"
| "value_wf T (ValMatrix rows) = list_all (list_all (value_wf T)) rows"
| "value_wf T (ValMap kvs) = list_all (\<lambda>(k, x). value_wf T k \<and> value_wf T x) kvs"
| "value_wf T (ValOption m) = pred_option (value_wf T) m"
| "value_wf T (ValField d c s l) = (d \<in> T \<and> c \<in> T \<and> value_wf T l)"
| "value_wf T (ValLambda ps b cs) = (hm_wf cs \<and> list_all (\<lambda>(k, x). value_wf T x) cs)"
| "value_wf T (ValFrame a b) = (value_wf T a \<and> value_wf T b)"
| "value_wf T (ValTransform a b) = (value_wf T a \<and> value_wf T b)"
| "value_wf T (ValPlane a b) = (value_wf T a \<and> value_wf T b)"
| "value_wf T (ValAxis a b) = (value_wf T a \<and> value_wf T b)"
| "value_wf T (ValBoundingBox a b) = (value_wf T a \<and> value_wf T b)"
| "value_wf T (ValRange l u li ui) = (pred_option (value_wf T) l \<and> pred_option (value_wf T) u)"
| "value_wf T (ValStructureInstance i n v f) = (hm_wf f \<and> list_all (\<lambda>(k, x). value_wf T x) f)"
| "value_wf T _ = True"
  by pat_completeness auto
termination
  by (relation "measure (\<lambda>(T, v). size v)") (auto intro: size_value_parts size_capture)

lemma sorted_fields_match:
  assumes "distinct (map fst p)" "distinct (map fst q)"
  shows "list_all2 (pair_eq (=) E) (sort_fields p) (sort_fields q)
    \<longleftrightarrow> length p = length q \<and> (\<forall>(k, x) \<in> set p. \<exists>y. (k, y) \<in> set q \<and> E x y)"
    (is "?all \<longleftrightarrow> ?len \<and> ?found")
proof
  assume all: ?all
  then have ?len using list_all2_lengthD [OF all] by (simp add: sort_fields_def)
  moreover have ?found
  proof clarify
    fix k x assume "(k, x) \<in> set p"
    then obtain i where i: "i < length (sort_fields p)" "sort_fields p ! i = (k, x)"
      using in_set_conv_nth [of "(k, x)" "sort_fields p"] by auto
    then have "pair_eq (=) E (k, x) (sort_fields q ! i)" using all by (auto simp: list_all2_conv_all_nth)
    then have "sort_fields q ! i = (k, snd (sort_fields q ! i))" "E x (snd (sort_fields q ! i))"
      by (auto simp: pair_eq_def prod_eq_iff)
    moreover have "sort_fields q ! i \<in> set q" using i list_all2_lengthD [OF all] nth_mem [of i "sort_fields q"] by simp
    ultimately show "\<exists>y. (k, y) \<in> set q \<and> E x y" by (intro exI [of _ "snd (sort_fields q ! i)"]) simp
  qed
  ultimately show "?len \<and> ?found" ..
next
  assume lf: "?len \<and> ?found"
  have "set (map fst p) \<subseteq> set (map fst q)" using lf by force
  moreover have "card (set (map fst p)) = card (set (map fst q))" using lf assms by (simp only: distinct_card length_map)
  ultimately have "set (map fst p) = set (map fst q)" by (simp add: card_subset_eq)
  moreover have srt: "sorted (map fst (sort_fields r))" "distinct (map fst r) \<Longrightarrow> distinct (map fst (sort_fields r))"
    "set (map fst (sort_fields r)) = set (map fst r)" for r :: "(string \<times> 'x) list"
    by (simp_all add: sort_fields_def distinct_map)
  ultimately have keys: "map fst (sort_fields p) = map fst (sort_fields q)"
    by (intro sorted_distinct_set_unique srt(1) srt(2) assms) (simp only: srt(3))
  show ?all
  proof (rule list_all2_all_nthI)
    show len: "length (sort_fields p) = length (sort_fields q)" using keys map_eq_imp_length_eq by blast
    fix i assume i: "i < length (sort_fields p)"
    obtain k x where kx: "sort_fields p ! i = (k, x)" by (cases "sort_fields p ! i")
    then have "(k, x) \<in> set p" using i nth_mem [of i "sort_fields p"] by simp
    then obtain y where y: "(k, y) \<in> set q" "E x y" using lf by blast
    have "fst (sort_fields q ! i) = k" using arg_cong [OF keys, of "\<lambda>l. l ! i"] i len kx by simp
    moreover have "sort_fields q ! i \<in> set q" using i len nth_mem [of i "sort_fields q"] by simp
    ultimately have "sort_fields q ! i = (k, y)"
      using y(1) eq_key_imp_eq_value [OF assms(2), of k y] by (cases "sort_fields q ! i") simp
    then show "pair_eq (=) E (sort_fields p ! i) (sort_fields q ! i)" using kx y(2) by (simp add: pair_eq_def)
  qed
qed

lemma structure_match:
  assumes "hm_wf f" "hm_wf g"
  shows "list_all2 (pair_eq (=) E) (sort_fields (user_fields f)) (sort_fields (user_fields g))
    \<longleftrightarrow> length (user_fields f) = length (user_fields g)
      \<and> list_all (\<lambda>(k, x). case hm_get g k of Some y \<Rightarrow> E x y | None \<Rightarrow> False) (user_fields f)"
proof -
  have wf: "distinct (map fst (user_fields f))" "distinct (map fst (user_fields g))"
    using assms by (auto simp: hm_wf_def user_fields_def intro: distinct_map_filter)
  have "(\<exists>y. (k, y) \<in> set (user_fields g) \<and> E x y) \<longleftrightarrow> (case hm_get g k of Some y \<Rightarrow> E x y | None \<Rightarrow> False)"
    if "(k, x) \<in> set (user_fields f)" for k x
  proof -
    have "(k, y) \<in> set (user_fields g) \<longleftrightarrow> hm_get g k = Some y" for y
      using that assms(2) by (auto simp: user_fields_def hm_get_def hm_wf_def)
    then show ?thesis by (auto split: option.split)
  qed
  then show ?thesis unfolding sorted_fields_match [OF wf] list_all_iff by (intro conj_cong ball_cong refl) auto
qed

lemma list_all2_IH:
  assumes "\<And>x y. x \<in> set xs \<Longrightarrow> P x \<Longrightarrow> P y \<Longrightarrow> f x y \<longleftrightarrow> g x y" "list_all P xs" "list_all P ys"
  shows "list_all2 f xs ys \<longleftrightarrow> list_all2 g xs ys"
  using assms by (intro list.rel_cong refl) (auto simp: list_all_iff)

lemma pair_eq_fun: "pair_eq E f = (\<lambda>p q. E (fst p) (fst q) \<and> f (snd p) (snd q))"
  by (intro ext) (simp add: pair_eq_def)

text \<open>The induction hypotheses for the parts of a container.\<close>

definition parts_match :: "Type set \<Rightarrow> Value \<Rightarrow> bool" where
  "parts_match T x \<longleftrightarrow> (\<forall>y. value_wf T x \<longrightarrow> value_wf T y \<longrightarrow> value_cmp x y = Equal \<longleftrightarrow> value_eq x y)"

lemma list_match:
  assumes "\<And>x. x \<in> set xs \<Longrightarrow> parts_match T x" "list_all (value_wf T) xs" "list_all (value_wf T) ys"
  shows "list_all2 (\<lambda>x y. value_cmp x y = Equal) xs ys \<longleftrightarrow> list_all2 value_eq xs ys"
  using assms by (intro list.rel_cong refl) (auto simp: list_all_iff parts_match_def)

lemma rows_match:
  assumes "\<And>r x. r \<in> set xs \<Longrightarrow> x \<in> set r \<Longrightarrow> parts_match T x" "list_all (list_all (value_wf T)) xs" "list_all (list_all (value_wf T)) ys"
  shows "list_all2 (list_all2 (\<lambda>x y. value_cmp x y = Equal)) xs ys \<longleftrightarrow> list_all2 (list_all2 value_eq) xs ys"
  using assms by (intro list.rel_cong refl list_match) (auto simp: list_all_iff)

lemma bindings_match:
  assumes "\<And>k x. (k, x) \<in> set p \<Longrightarrow> parts_match T x" "list_all (\<lambda>(k, x). value_wf T x) p" "list_all (\<lambda>(k, x). value_wf T x) q"
  shows "list_all2 (\<lambda>x y. E (fst x) (fst y) \<and> value_cmp (snd x) (snd y) = Equal) p q
    \<longleftrightarrow> list_all2 (\<lambda>x y. E (fst x) (fst y) \<and> value_eq (snd x) (snd y)) p q"
  using assms by (intro list.rel_cong refl) (fastforce simp: list_all_iff parts_match_def)

lemma entries_match:
  assumes "\<And>k x. (k, x) \<in> set p \<Longrightarrow> parts_match T k \<and> parts_match T x"
    and "list_all (\<lambda>(k, x). value_wf T k \<and> value_wf T x) p" "list_all (\<lambda>(k, x). value_wf T k \<and> value_wf T x) q"
  shows "list_all2 (\<lambda>x y. value_cmp (fst x) (fst y) = Equal \<and> value_cmp (snd x) (snd y) = Equal) p q
    \<longleftrightarrow> list_all2 (\<lambda>x y. value_eq (fst x) (fst y) \<and> value_eq (snd x) (snd y)) p q"
  using assms by (intro list.rel_cong refl) (fastforce simp: list_all_iff parts_match_def)

lemma option_match:
  assumes "\<And>x. m = Some x \<Longrightarrow> parts_match T x" "pred_option (value_wf T) m" "pred_option (value_wf T) n"
  shows "rel_option (\<lambda>x y. value_cmp x y = Equal) m n \<longleftrightarrow> rel_option value_eq m n"
  using assms by (cases m; cases n) (simp_all add: parts_match_def)

lemma parts_matchI:
  "(\<And>w. value_wf T v \<Longrightarrow> value_wf T w \<Longrightarrow> type_tag w = type_tag v \<Longrightarrow> value_cmp v w = Equal \<longleftrightarrow> value_eq v w) \<Longrightarrow> parts_match T v"
proof -
  have "\<not> value_eq v w \<and> value_cmp v w \<noteq> Equal" if "type_tag w \<noteq> type_tag v" for w
    using that by (simp add: cmp_other_tag cmp_tags_def) (cases v; cases w; simp)
  then show "(\<And>w. value_wf T v \<Longrightarrow> value_wf T w \<Longrightarrow> type_tag w = type_tag v \<Longrightarrow> value_cmp v w = Equal \<longleftrightarrow> value_eq v w) \<Longrightarrow> parts_match T v"
    unfolding parts_match_def by blast
qed

lemmas Equal_simps = cmp_list_Equal cmp_option_Equal pair_eq_fun affine_Equal

lemma match_list:
  assumes "\<And>x. x \<in> set a \<Longrightarrow> parts_match T x"
  shows "parts_match T (ValList a)"
proof (rule parts_matchI)
  fix w assume wf: "value_wf T (ValList a)" "value_wf T w" and "type_tag w = type_tag (ValList a)"
  then obtain b where w: "w = ValList b" by (cases w) auto
  show "value_cmp (ValList a) w = Equal \<longleftrightarrow> value_eq (ValList a) w"
    using wf list_match [OF assms] by (simp add: w Equal_simps)
qed

lemma match_set:
  assumes "\<And>x. x \<in> set a \<Longrightarrow> parts_match T x"
  shows "parts_match T (ValSet a)"
proof (rule parts_matchI)
  fix w assume wf: "value_wf T (ValSet a)" "value_wf T w" and "type_tag w = type_tag (ValSet a)"
  then obtain b where w: "w = ValSet b" by (cases w) auto
  show "value_cmp (ValSet a) w = Equal \<longleftrightarrow> value_eq (ValSet a) w"
    using wf list_match [OF assms] by (simp add: w Equal_simps)
qed

lemma match_tensor:
  assumes "\<And>x. x \<in> set a \<Longrightarrow> parts_match T x"
  shows "parts_match T (ValTensor a)"
proof (rule parts_matchI)
  fix w assume wf: "value_wf T (ValTensor a)" "value_wf T w" and "type_tag w = type_tag (ValTensor a)"
  then obtain b where w: "w = ValTensor b" by (cases w) auto
  show "value_cmp (ValTensor a) w = Equal \<longleftrightarrow> value_eq (ValTensor a) w"
    using wf list_match [OF assms] by (simp add: w Equal_simps)
qed

lemma match_point:
  assumes "\<And>x. x \<in> set a \<Longrightarrow> parts_match T x"
  shows "parts_match T (ValPoint a)"
proof (rule parts_matchI)
  fix w assume wf: "value_wf T (ValPoint a)" "value_wf T w" and "type_tag w = type_tag (ValPoint a)"
  then obtain b where w: "w = ValPoint b" by (cases w) auto
  show "value_cmp (ValPoint a) w = Equal \<longleftrightarrow> value_eq (ValPoint a) w"
    using wf list_match [OF assms] by (simp add: w Equal_simps)
qed

lemma match_vector:
  assumes "\<And>x. x \<in> set a \<Longrightarrow> parts_match T x"
  shows "parts_match T (ValVector a)"
proof (rule parts_matchI)
  fix w assume wf: "value_wf T (ValVector a)" "value_wf T w" and "type_tag w = type_tag (ValVector a)"
  then obtain b where w: "w = ValVector b" by (cases w) auto
  show "value_cmp (ValVector a) w = Equal \<longleftrightarrow> value_eq (ValVector a) w"
    using wf list_match [OF assms] by (simp add: w Equal_simps)
qed

lemma match_matrix:
  assumes "\<And>r x. r \<in> set a \<Longrightarrow> x \<in> set r \<Longrightarrow> parts_match T x"
  shows "parts_match T (ValMatrix a)"
proof (rule parts_matchI)
  fix w assume wf: "value_wf T (ValMatrix a)" "value_wf T w" and "type_tag w = type_tag (ValMatrix a)"
  then obtain b where w: "w = ValMatrix b" by (cases w) auto
  show "value_cmp (ValMatrix a) w = Equal \<longleftrightarrow> value_eq (ValMatrix a) w"
    using wf rows_match [OF assms] by (simp add: w Equal_simps)
qed

lemma match_map:
  assumes "\<And>k x. (k, x) \<in> set a \<Longrightarrow> parts_match T k \<and> parts_match T x"
  shows "parts_match T (ValMap a)"
proof (rule parts_matchI)
  fix w assume wf: "value_wf T (ValMap a)" "value_wf T w" and "type_tag w = type_tag (ValMap a)"
  then obtain b where w: "w = ValMap b" by (cases w) auto
  show "value_cmp (ValMap a) w = Equal \<longleftrightarrow> value_eq (ValMap a) w"
    using wf entries_match [OF assms] by (simp add: w Equal_simps)
qed

lemma match_option:
  assumes "\<And>x. a = Some x \<Longrightarrow> parts_match T x"
  shows "parts_match T (ValOption a)"
proof (rule parts_matchI)
  fix w assume wf: "value_wf T (ValOption a)" "value_wf T w" and "type_tag w = type_tag (ValOption a)"
  then obtain b where w: "w = ValOption b" by (cases w) auto
  show "value_cmp (ValOption a) w = Equal \<longleftrightarrow> value_eq (ValOption a) w"
    using wf option_match [OF assms] by (simp add: w Equal_simps)
qed

lemma match_range:
  assumes "\<And>x. l = Some x \<or> u = Some x \<Longrightarrow> parts_match T x"
  shows "parts_match T (ValRange l u li ui)"
proof (rule parts_matchI)
  fix w assume wf: "value_wf T (ValRange l u li ui)" "value_wf T w" and "type_tag w = type_tag (ValRange l u li ui)"
  then obtain l' u' li' ui' where w: "w = ValRange l' u' li' ui'" by (cases w) auto
  show "value_cmp (ValRange l u li ui) w = Equal \<longleftrightarrow> value_eq (ValRange l u li ui) w"
    using wf option_match [of l T l'] option_match [of u T u'] assms
    by (auto simp: w Equal_simps split: prod.split)
qed

lemma match_enum:
  assumes "\<And>k x. (k, x) \<in> set p \<Longrightarrow> parts_match T x"
  shows "parts_match T (ValEnum t v p)"
proof (rule parts_matchI)
  fix w assume wf: "value_wf T (ValEnum t v p)" "value_wf T w" and "type_tag w = type_tag (ValEnum t v p)"
  then obtain t' v' q where w: "w = ValEnum t' v' q" by (cases w) auto
  have "list_all (\<lambda>(k, x). value_wf T x) (sort_fields p)" "list_all (\<lambda>(k, x). value_wf T x) (sort_fields q)"
    using wf by (simp_all add: w list_all_iff)
  from bindings_match [OF _ this] assms show "value_cmp (ValEnum t v p) w = Equal \<longleftrightarrow> value_eq (ValEnum t v p) w"
    by (auto simp: w Equal_simps)
qed

lemma match_lambda:
  assumes "\<And>k x. (k, x) \<in> set c \<Longrightarrow> parts_match T x"
  shows "parts_match T (ValLambda ps b c)"
proof (rule parts_matchI)
  fix w assume wf: "value_wf T (ValLambda ps b c)" "value_wf T w" and "type_tag w = type_tag (ValLambda ps b c)"
  then obtain ps' b' d where w: "w = ValLambda ps' b' d" by (cases w) auto
  have "list_all (\<lambda>(k, x). value_wf T x) (sorted_captures c)" "list_all (\<lambda>(k, x). value_wf T x) (sorted_captures d)"
    using wf by (simp_all add: w list_all_iff)
  from bindings_match [OF _ this] assms show "value_cmp (ValLambda ps b c) w = Equal \<longleftrightarrow> value_eq (ValLambda ps b c) w"
    by (simp add: w Equal_simps list.rel_eq flip: prod_eq_iff)
qed

lemma match_structure:
  assumes "\<And>k x. (k, x) \<in> set f \<Longrightarrow> parts_match T x"
  shows "parts_match T (ValStructureInstance i n v f)"
proof (rule parts_matchI)
  fix w assume wf: "value_wf T (ValStructureInstance i n v f)" "value_wf T w" and "type_tag w = type_tag (ValStructureInstance i n v f)"
  then obtain i' n' v' g where w: "w = ValStructureInstance i' n' v' g" by (cases w) auto
  have "list_all (\<lambda>(k, x). value_wf T x) (sort_fields (user_fields f))" "list_all (\<lambda>(k, x). value_wf T x) (sort_fields (user_fields g))"
    using wf set_user_fields [of f] set_user_fields [of g] by (auto simp: w list_all_iff)
  moreover have "parts_match T x" if "(k, x) \<in> set (sort_fields (user_fields f))" for k x
    using that assms set_user_fields [of f] by auto
  ultimately show "value_cmp (ValStructureInstance i n v f) w = Equal \<longleftrightarrow> value_eq (ValStructureInstance i n v f) w"
    using bindings_match [of "sort_fields (user_fields f)" T "sort_fields (user_fields g)" "(=)"]
      structure_match [of f g value_eq] wf by (auto simp: w Equal_simps)
qed

lemma match_field:
  assumes "inj_on show_type T" "parts_match T l"
  shows "parts_match T (ValField d c s l)"
proof (rule parts_matchI)
  fix w assume wf: "value_wf T (ValField d c s l)" "value_wf T w" and "type_tag w = type_tag (ValField d c s l)"
  then obtain d' c' s' l' where w: "w = ValField d' c' s' l'" by (cases w) auto
  show "value_cmp (ValField d c s l) w = Equal \<longleftrightarrow> value_eq (ValField d c s l) w"
    using wf assms(2) inj_on_eq_iff [OF assms(1)] by (simp add: w parts_match_def)
qed

lemma match_frame:
  assumes "parts_match T a" "parts_match T b"
  shows "parts_match T (ValFrame a b)"
proof (rule parts_matchI)
  fix w assume wf: "value_wf T (ValFrame a b)" "value_wf T w" and "type_tag w = type_tag (ValFrame a b)"
  then obtain a' b' where w: "w = ValFrame a' b'" by (cases w) auto
  show "value_cmp (ValFrame a b) w = Equal \<longleftrightarrow> value_eq (ValFrame a b) w" using wf assms by (simp add: w parts_match_def)
qed

lemma match_transform:
  assumes "parts_match T a" "parts_match T b"
  shows "parts_match T (ValTransform a b)"
proof (rule parts_matchI)
  fix w assume wf: "value_wf T (ValTransform a b)" "value_wf T w" and "type_tag w = type_tag (ValTransform a b)"
  then obtain a' b' where w: "w = ValTransform a' b'" by (cases w) auto
  show "value_cmp (ValTransform a b) w = Equal \<longleftrightarrow> value_eq (ValTransform a b) w" using wf assms by (simp add: w parts_match_def)
qed

lemma match_plane:
  assumes "parts_match T a" "parts_match T b"
  shows "parts_match T (ValPlane a b)"
proof (rule parts_matchI)
  fix w assume wf: "value_wf T (ValPlane a b)" "value_wf T w" and "type_tag w = type_tag (ValPlane a b)"
  then obtain a' b' where w: "w = ValPlane a' b'" by (cases w) auto
  show "value_cmp (ValPlane a b) w = Equal \<longleftrightarrow> value_eq (ValPlane a b) w" using wf assms by (simp add: w parts_match_def)
qed

lemma match_axis:
  assumes "parts_match T a" "parts_match T b"
  shows "parts_match T (ValAxis a b)"
proof (rule parts_matchI)
  fix w assume wf: "value_wf T (ValAxis a b)" "value_wf T w" and "type_tag w = type_tag (ValAxis a b)"
  then obtain a' b' where w: "w = ValAxis a' b'" by (cases w) auto
  show "value_cmp (ValAxis a b) w = Equal \<longleftrightarrow> value_eq (ValAxis a b) w" using wf assms by (simp add: w parts_match_def)
qed

lemma match_bounding_box:
  assumes "parts_match T a" "parts_match T b"
  shows "parts_match T (ValBoundingBox a b)"
proof (rule parts_matchI)
  fix w assume wf: "value_wf T (ValBoundingBox a b)" "value_wf T w" and "type_tag w = type_tag (ValBoundingBox a b)"
  then obtain a' b' where w: "w = ValBoundingBox a' b'" by (cases w) auto
  show "value_cmp (ValBoundingBox a b) w = Equal \<longleftrightarrow> value_eq (ValBoundingBox a b) w" using wf assms by (simp add: w parts_match_def)
qed

lemmas match_parts = match_list match_set match_tensor match_point match_vector match_matrix match_map match_option
  match_range match_enum match_lambda match_structure match_frame match_transform match_plane match_axis match_bounding_box

lemma value_cmp_Equal:
  assumes "inj_on show_type T"
  shows "parts_match T v"
proof (induction v)
  case (ValField d c s l)
  with assms show ?case by (rule match_field)
qed (auto intro!: match_parts intro: Basic_BNFs.fsts.intros Basic_BNFs.snds.intros,
    (rule parts_matchI, case_tac w; auto simp: affine_Equal cmp_zip_list dest: feature_bytes_inject signed_word_eqI)+)

text \<open>
  C21.  The order on values is a total preorder: comparing the other way round
  reverses the answer, and the answers of a chain of two comparisons decide the
  third.
\<close>

theorem value_order_total:
  "value_cmp w v = reverse_ordering (value_cmp v w) \<and> chain (value_cmp v w) (value_cmp w u) (value_cmp v u)"
  using lawful_value [of v] by (simp add: lawful_def)

text \<open>
  C22.  Two values compare as \<open>Equal\<close> exactly when they are \<open>==\<close>, provided that
  different types of their fields print differently: the order compares the
  types by their text.
\<close>

theorem value_order_equality:
  assumes "value_wf T v" "value_wf T w" "inj_on show_type T"
  shows "value_cmp v w = Equal \<longleftrightarrow> value_eq v w"
  using value_cmp_Equal [OF assms(3), of v] assms(1,2) by (simp add: parts_match_def)

text \<open>
  CX.  Without that proviso the contract between \<open>Eq\<close> and \<open>Ord\<close> fails: a
  structure and a trait of the same name print alike, so two fields over them
  differ and still compare as \<open>Equal\<close>.
\<close>

theorem value_order_conflates_types:
  "\<exists>v w. value_cmp v w = Equal \<and> \<not> value_eq v w"
proof -
  let ?v = "ValField (TStructureRef ''Load'') TInt Analytical ValUndef"
  let ?w = "ValField (TTraitObject ''Load'') TInt Analytical ValUndef"
  have "value_cmp ?v ?w = Equal \<and> \<not> value_eq ?v ?w" by simp
  then show ?thesis by blast
qed

definition demo_struct :: "(string \<times> Value) list \<Rightarrow> Value" where
  "demo_struct = ValStructureInstance 7 ''Beam'' 1"

lemma value_order_equality_witness:
  "value_cmp (demo_struct [(''a'', ValInt 1), (''b'', ValField TInt TString Sampled ValUndef)])
     (demo_struct [(''b'', ValField TInt TString Sampled ValUndef), (''a'', ValInt 1)]) = Equal
   \<longleftrightarrow> value_eq (demo_struct [(''a'', ValInt 1), (''b'', ValField TInt TString Sampled ValUndef)])
     (demo_struct [(''b'', ValField TInt TString Sampled ValUndef), (''a'', ValInt 1)])"
  by (rule value_order_equality [of "{TInt, TString}"]) (simp_all add: demo_struct_def hm_wf_def)

end
