(* ===== verification/ValueHash.thy ===== *)
theory ValueHash
  imports ValueOrderLaws "HOL-Library.Multiset"
begin

text \<open>
  Content hashes of values and of selectors (\<open>Value::content_hash\<close>,
  \<open>SelectorValue::compute_content_hash\<close> in \<open>reify-ir/src/value.rs\<close>) and the
  constructors of selectors.  The hash function is the parameter \<open>X\<close>.
\<close>

section \<open>Selectors\<close>

definition canonical_nan :: f64 where
  "canonical_nan = 0x7FF8000000000000"

definition nan_bits :: "f64 \<Rightarrow> f64" where
  "nan_bits v = (if is_nan v then canonical_nan else v)"

definition float_bytes :: "f64 \<Rightarrow> u8 list" where
  "float_bytes v = le_bytes 8 (nan_bits v)"

fun surface_kind_byte :: "FaceSurfaceKind \<Rightarrow> u8" where
  "surface_kind_byte SurfPlane = 0"
| "surface_kind_byte SurfCylinder = 1"
| "surface_kind_byte SurfCone = 2"
| "surface_kind_byte SurfSphere = 3"
| "surface_kind_byte SurfTorus = 4"
| "surface_kind_byte SurfBezierSurface = 5"
| "surface_kind_byte SurfBSplineSurface = 6"
| "surface_kind_byte SurfOffsetSurface = 7"
| "surface_kind_byte SurfOther = 8"

fun curve_kind_byte :: "EdgeCurveKind \<Rightarrow> u8" where
  "curve_kind_byte CurveLine = 0"
| "curve_kind_byte CurveCircle = 1"
| "curve_kind_byte CurveEllipse = 2"
| "curve_kind_byte CurveHyperbola = 3"
| "curve_kind_byte CurveParabola = 4"
| "curve_kind_byte CurveBezierCurve = 5"
| "curve_kind_byte CurveBSplineCurve = 6"
| "curve_kind_byte CurveOffsetCurve = 7"
| "curve_kind_byte CurveOther = 8"

fun cap_byte :: "CapKind \<Rightarrow> u8" where
  "cap_byte CapTop = 1"
| "cap_byte CapBottom = 2"
| "cap_byte CapStart = 3"
| "cap_byte CapEnd = 4"

fun sign_byte :: "AxisSign \<Rightarrow> u8" where
  "sign_byte Pos = 1"
| "sign_byte Neg' = 2"

fun role_bytes :: "Role \<Rightarrow> u8 list" where
  "role_bytes (RoleCap k) = [0, cap_byte k, 0, 0]"
| "role_bytes RoleSide = [1, 0, 0, 0]"
| "role_bytes RoleNewEdge = [2, 0, 0, 0]"
| "role_bytes RoleRevolvedFace = [3, 0, 0, 0]"
| "role_bytes RoleAxisFace = [4, 0, 0, 0]"
| "role_bytes RoleSweptFace = [5, 0, 0, 0]"
| "role_bytes RoleLoftedFace = [6, 0, 0, 0]"
| "role_bytes RoleMidSurfaceFace = [7, 0, 0, 0]"
| "role_bytes RoleMidSurfaceEdge = [8, 0, 0, 0]"
| "role_bytes (RoleCornerVertex x y z) = [9, sign_byte x, sign_byte y, sign_byte z]"
| "role_bytes (RoleCapCornerVertex face) = [10, cap_byte face, 0, 0]"
| "role_bytes RoleLocalFeatureFace = [11, 0, 0, 0]"

definition vec3_bytes :: "vec3 \<Rightarrow> u8 list" where
  "vec3_bytes d = concat (map float_bytes (vec3_entries d))"

fun hash_query :: "(u8 list \<Rightarrow> ContentHash) \<Rightarrow> LeafQuery \<Rightarrow> ContentHash" where
  "hash_query X (QNamed s) = hash_combine X (hash_of X [0]) (hash_of_str X s)"
| "hash_query X QAll = hash_of X [1]"
| "hash_query X (QByNormal dir tol) = hash_of X (2 # vec3_bytes dir @ float_bytes tol)"
| "hash_query X (QByArea lo hi) = hash_of X (3 # float_bytes lo @ float_bytes hi)"
| "hash_query X (QByLength lo hi) = hash_of X (4 # float_bytes lo @ float_bytes hi)"
| "hash_query X (QByHeight z tol) = hash_of X (5 # float_bytes z @ float_bytes tol)"
| "hash_query X (QByParallel axis tol) = hash_of X (6 # vec3_bytes axis @ float_bytes tol)"
| "hash_query X (QByRole role) = hash_combine X (hash_of X [7]) (hash_of X (role_bytes role))"
| "hash_query X (QByPerpendicular axis tol) = hash_of X (8 # vec3_bytes axis @ float_bytes tol)"
| "hash_query X (QBySurfaceKind k) = hash_of X [9, surface_kind_byte k]"
| "hash_query X (QByCurveKind k) = hash_of X [10, curve_kind_byte k]"
| "hash_query X (QByExtremalBbox axis_index mx tol) = hash_of X ([11, axis_index, of_bool mx] @ float_bytes tol)"
| "hash_query X (QByExtremalCentroid axis_index mx tol) = hash_of X ([12, axis_index, of_bool mx] @ float_bytes tol)"
| "hash_query X (QCreatedByFeature f) = hash_combine X (hash_of X [13]) (hash_of X (feature_bytes f))"
| "hash_query X (QSplitByFeature f) = hash_combine X (hash_of X [14]) (hash_of X (feature_bytes f))"

definition hash_handle :: "(u8 list \<Rightarrow> ContentHash) \<Rightarrow> ContentHash \<Rightarrow> GeometryHandleRef \<Rightarrow> ContentHash" where
  "hash_handle X h g =
     hash_combine X (hash_combine X h (hash_of X (le_bytes 4 (rn_index (realization_ref g)))))
       (hash_of X (upstream_values_hash g))"

definition hash_ghr :: "(u8 list \<Rightarrow> ContentHash) \<Rightarrow> GeometryHandleRef \<Rightarrow> ContentHash" where
  "hash_ghr X g = hash_handle X (hash_of_str X (rn_entity (realization_ref g))) g"

definition hash_children :: "(u8 list \<Rightarrow> ContentHash) \<Rightarrow> u8 \<Rightarrow> SelectorValue list \<Rightarrow> ContentHash" where
  "hash_children X tag parts =
     foldl (hash_combine X)
       (hash_combine X (hash_of X [tag]) (hash_of X (le_bytes 8 (word_of_nat (length parts) :: u64))))
       (sort (map sel_hash parts))"

fun hash_node :: "(u8 list \<Rightarrow> ContentHash) \<Rightarrow> SelectorNode \<Rightarrow> ContentHash" where
  "hash_node X (SelLeaf target query) =
     hash_combine X (hash_combine X (hash_of X [0]) (hash_ghr X target)) (hash_query X query)"
| "hash_node X (SelUnion parts) = hash_children X 1 parts"
| "hash_node X (SelIntersect parts) = hash_children X 2 parts"
| "hash_node X (SelDifference a b) = hash_combine X (hash_combine X (hash_of X [3]) (sel_hash a)) (sel_hash b)"

fun kind_byte :: "RegionKind \<Rightarrow> u8" where
  "kind_byte FaceKind = 0"
| "kind_byte EdgeKind = 1"
| "kind_byte BodyKind = 2"
| "kind_byte VertexKind = 3"

definition compute_content_hash :: "(u8 list \<Rightarrow> ContentHash) \<Rightarrow> RegionKind \<Rightarrow> SelectorNode \<Rightarrow> ContentHash" where
  "compute_content_hash X kind node = hash_combine X (hash_of X [30, kind_byte kind]) (hash_node X node)"

text \<open>What every constructor ends with.\<close>

definition sel_new :: "(u8 list \<Rightarrow> ContentHash) \<Rightarrow> RegionKind \<Rightarrow> SelectorNode \<Rightarrow> SelectorValue" where
  "sel_new X kind node = SelectorValue kind node (compute_content_hash X kind node)"

definition selector_leaf ::
  "(u8 list \<Rightarrow> ContentHash) \<Rightarrow> RegionKind \<Rightarrow> GeometryHandleRef \<Rightarrow> LeafQuery \<Rightarrow> SelectorError + SelectorValue" where
  "selector_leaf X kind target query =
     (case required_kind query of
        Some required \<Rightarrow> if required \<noteq> kind then Inl (KindMismatch required kind) else Inr (sel_new X kind (SelLeaf target query))
      | None \<Rightarrow> Inr (sel_new X kind (SelLeaf target query)))"

fun check_composition :: "SelectorValue list \<Rightarrow> SelectorError + RegionKind" where
  "check_composition [] = Inl EmptyComposition"
| "check_composition (first # rest) =
     (case find (\<lambda>child. sel_kind child \<noteq> sel_kind first) rest of
        Some child \<Rightarrow> Inl (KindMismatch (sel_kind first) (sel_kind child))
      | None \<Rightarrow> Inr (sel_kind first))"

definition selector_union :: "(u8 list \<Rightarrow> ContentHash) \<Rightarrow> SelectorValue list \<Rightarrow> SelectorError + SelectorValue" where
  "selector_union X parts = map_sum id (\<lambda>kind. sel_new X kind (SelUnion parts)) (check_composition parts)"

definition selector_intersect :: "(u8 list \<Rightarrow> ContentHash) \<Rightarrow> SelectorValue list \<Rightarrow> SelectorError + SelectorValue" where
  "selector_intersect X parts = map_sum id (\<lambda>kind. sel_new X kind (SelIntersect parts)) (check_composition parts)"

definition selector_difference ::
  "(u8 list \<Rightarrow> ContentHash) \<Rightarrow> SelectorValue \<Rightarrow> SelectorValue \<Rightarrow> SelectorError + SelectorValue" where
  "selector_difference X a b =
     (if sel_kind a \<noteq> sel_kind b then Inl (KindMismatch (sel_kind a) (sel_kind b))
      else Inr (sel_new X (sel_kind a) (SelDifference a b)))"

section \<open>Values\<close>

definition len_hash :: "(u8 list \<Rightarrow> ContentHash) \<Rightarrow> 'a list \<Rightarrow> ContentHash" where
  "len_hash X xs = hash_of X (le_bytes 8 (word_of_nat (length xs) :: u64))"

definition hash_floats :: "(u8 list \<Rightarrow> ContentHash) \<Rightarrow> f64 list \<Rightarrow> ContentHash" where
  "hash_floats X fs = foldl (hash_combine X) (len_hash X fs) (map (\<lambda>f. hash_of X (float_bytes f)) fs)"

definition hash_sampled :: "(u8 list \<Rightarrow> ContentHash) \<Rightarrow> SampledField \<Rightarrow> ContentHash" where
  "hash_sampled X f =
     foldl (hash_combine X) (hash_of X [26])
       ([hash_of_str X (sf_name f), hash_of_str X (debug_grid_kind (sf_kind f)), hash_floats X (bounds_min f),
         hash_floats X (bounds_max f), hash_floats X (spacing f), len_hash X (axis_grids f)]
        @ map (hash_floats X) (axis_grids f)
        @ [hash_of_str X (debug_interpolation (interpolation f)), hash_floats X (sf_data f)])"

text \<open>The hash of a sequence: the tag, the length, then the parts, from the left.\<close>

definition hash_seq :: "(u8 list \<Rightarrow> ContentHash) \<Rightarrow> ContentHash \<Rightarrow> ContentHash list \<Rightarrow> ContentHash" where
  "hash_seq X h parts = foldl (hash_combine X) h parts"

function (sequential) value_hash :: "(u8 list \<Rightarrow> ContentHash) \<Rightarrow> Value \<Rightarrow> ContentHash" where
  "value_hash X (ValBool b) = hash_of X [0, of_bool b]"
| "value_hash X (ValInt i) = hash_of X (1 # le_bytes 8 i)"
| "value_hash X (ValReal r) = hash_of X (2 # float_bytes r)"
| "value_hash X (ValString s) = hash_combine X (hash_of X [3]) (hash_of_str X s)"
| "value_hash X (ValScalar v d) = hash_combine X (hash_of X (4 # float_bytes v)) (dim_content_hash (hash_of X) d)"
| "value_hash X (ValEnum type_name variant payload) =
     (let h = hash_combine X (hash_combine X (hash_of X [6]) (hash_of_str X type_name)) (hash_of_str X variant);
        entries = sort_fields payload
      in if payload = [] then h
         else hash_seq X h
           (len_hash X entries # concat (map (\<lambda>(name, val). [hash_of_str X name, value_hash X val]) entries)))"
| "value_hash X (ValList items) = hash_seq X (hash_of X [7]) (len_hash X items # map (value_hash X) items)"
| "value_hash X (ValSet items) = hash_seq X (hash_of X [8]) (len_hash X items # map (value_hash X) items)"
| "value_hash X (ValMap entries) =
     hash_seq X (hash_of X [9])
       (len_hash X entries # concat (map (\<lambda>(k, v). [value_hash X k, value_hash X v]) entries))"
| "value_hash X (ValOption inner) =
     (case inner of None \<Rightarrow> hash_of X [11, 0] | Some v \<Rightarrow> hash_combine X (hash_of X [11, 1]) (value_hash X v))"
| "value_hash X (ValField domain_type codomain_type source lambda) =
     hash_seq X (hash_of X [13])
       [hash_of_str X (show_type domain_type), hash_of_str X (show_type codomain_type),
        hash_of_str X (debug_source source), value_hash X lambda]"
| "value_hash X (ValLambda params body captures) =
     hash_seq X (hash_of X [12])
       ([len_hash X params] @ concat (map (\<lambda>(name, c). [hash_of_str X name, hash_of_str X (valuecellid_display c)]) params)
        @ [expr_hash body]
        @ concat (map (\<lambda>(c, val). [hash_of_str X (valuecellid_display c), value_hash X val]) (sorted_captures captures)))"
| "value_hash X (ValTensor items) = hash_seq X (hash_of X [14]) (len_hash X items # map (value_hash X) items)"
| "value_hash X (ValPoint items) = hash_seq X (hash_of X [18]) (len_hash X items # map (value_hash X) items)"
| "value_hash X (ValVector items) = hash_seq X (hash_of X [19]) (len_hash X items # map (value_hash X) items)"
| "value_hash X (ValComplex re im d) =
     hash_combine X (hash_of X (15 # float_bytes re @ float_bytes im)) (dim_content_hash (hash_of X) d)"
| "value_hash X (ValOrientation w x y z) =
     hash_of X (16 # float_bytes w @ float_bytes x @ float_bytes y @ float_bytes z)"
| "value_hash X (ValFrame a b) = hash_seq X (hash_of X [20]) [value_hash X a, value_hash X b]"
| "value_hash X (ValTransform a b) = hash_seq X (hash_of X [21]) [value_hash X a, value_hash X b]"
| "value_hash X (ValPlane a b) = hash_seq X (hash_of X [22]) [value_hash X a, value_hash X b]"
| "value_hash X (ValAxis a b) = hash_seq X (hash_of X [23]) [value_hash X a, value_hash X b]"
| "value_hash X (ValDirection x y z) = hash_of X (30 # float_bytes x @ float_bytes y @ float_bytes z)"
| "value_hash X (ValBoundingBox a b) = hash_seq X (hash_of X [24]) [value_hash X a, value_hash X b]"
| "value_hash X (ValRange lower upper li ui) =
     (case normalize_range_flags lower upper li ui of
        (li', ui') \<Rightarrow>
          hash_seq X (hash_of X [17, of_bool li', of_bool ui'])
            ((case lower of None \<Rightarrow> [hash_of X [0]] | Some v \<Rightarrow> [hash_of X [1], value_hash X v])
             @ (case upper of None \<Rightarrow> [hash_of X [0]] | Some v \<Rightarrow> [hash_of X [1], value_hash X v])))"
| "value_hash X (ValMatrix rows) =
     hash_seq X (hash_of X [25])
       (len_hash X rows # concat (map (\<lambda>row. len_hash X row # map (value_hash X) row) rows))"
| "value_hash X (ValSampledField f) = hash_sampled X f"
| "value_hash X (ValStructureInstance type_id type_name version fs) =
     (let entries = sort_fields (user_fields fs) in
      hash_seq X (hash_of X [27])
        ([hash_of_str X type_name, hash_of X (le_bytes 4 version), len_hash X entries]
         @ concat (map (\<lambda>(k, v). [hash_of_str X k, value_hash X v]) entries)))"
| "value_hash X (ValGeometryHandle g) =
     hash_handle X (hash_combine X (hash_of X [28]) (hash_of_str X (rn_entity (realization_ref g)))) g"
| "value_hash X (ValAffineMap l t) = hash_of X (29 # concat (map float_bytes (affine_entries l t)))"
| "value_hash X (ValSelector s) = sel_hash s"
| "value_hash X (ValFeature f) = hash_combine X (hash_of X [31]) (hash_of X (feature_bytes f))"
| "value_hash X ValUndef = hash_of X [5]"
  by pat_completeness auto
termination
  by (relation "measure (\<lambda>(X, v). size v)")
    (auto intro: size_value_parts size_capture dest: subsetD [OF set_user_fields])

section \<open>Equal values have equal hashes\<close>

lemma map_match: "list_all2 R xs ys \<Longrightarrow> (\<And>x y. x \<in> set xs \<Longrightarrow> R x y \<Longrightarrow> f x = f y) \<Longrightarrow> map f xs = map f ys"
  by (induction rule: list_all2_induct) auto

lemma concat_match: "list_all2 R xs ys \<Longrightarrow> (\<And>x y. x \<in> set xs \<Longrightarrow> R x y \<Longrightarrow> f x = f y) \<Longrightarrow> concat (map f xs) = concat (map f ys)"
  by (simp add: map_match [of R xs ys f])

lemma len_hash_match: "list_all2 R xs ys \<Longrightarrow> len_hash X xs = len_hash X ys"
  by (simp add: len_hash_def list_all2_lengthD)

lemma zip_eq: "length xs = length ys \<Longrightarrow> list_all (\<lambda>(x, y). x = y) (zip xs ys) \<Longrightarrow> xs = ys"
  by (simp add: zip_all2 list.rel_eq)

lemma sampled_hash: "sampled_eq a b \<Longrightarrow> hash_sampled X a = hash_sampled X b"
proof -
  have bits: "vecs_bit_eq = (=)" by (intro ext) simp
  assume "sampled_eq a b"
  then have "axis_grids a = axis_grids b" unfolding sampled_eq_def bits by (intro zip_eq) auto
  with \<open>sampled_eq a b\<close> show ?thesis by (simp add: sampled_eq_def hash_sampled_def)
qed

definition hash_match :: "(u8 list \<Rightarrow> ContentHash) \<Rightarrow> Value \<Rightarrow> bool" where
  "hash_match X v \<longleftrightarrow> (\<forall>w. value_cmp v w = Equal \<longrightarrow> value_hash X v = value_hash X w)"

lemma hash_matchI:
  assumes "\<And>w. type_tag w = type_tag v \<Longrightarrow> value_cmp v w = Equal \<Longrightarrow> value_hash X v = value_hash X w"
  shows "hash_match X v"
proof -
  have "value_cmp v w \<noteq> Equal" if "type_tag w \<noteq> type_tag v" for w
    using that cmp_other_tag [of v w] by (auto simp: cmp_tags_def)
  with assms show ?thesis unfolding hash_match_def by blast
qed

lemma length_affine: "length (affine_entries l t) = 12"
  by (cases l; cases t) (auto elim!: vec3_entries.elims split: prod.split)

lemma hash_matchD: "hash_match X x \<Longrightarrow> value_cmp x y = Equal \<Longrightarrow> value_hash X x = value_hash X y"
  by (simp add: hash_match_def)

lemma hash_seq_match:
  assumes "list_all2 (\<lambda>x y. value_cmp x y = Equal) xs ys" "\<And>x. x \<in> set xs \<Longrightarrow> hash_match X x"
  shows "len_hash X xs = len_hash X ys" "map (value_hash X) xs = map (value_hash X) ys"
  using assms by (auto intro!: len_hash_match map_match simp: hash_match_def)

lemma hash_bindings_match:
  assumes "list_all2 (\<lambda>x y. fst x = fst y \<and> value_cmp (snd x) (snd y) = Equal) p q"
    and "\<And>k x. (k, x) \<in> set p \<Longrightarrow> hash_match X x"
  shows "len_hash X p = len_hash X q"
    "concat (map (\<lambda>(k, v). [h k, value_hash X v]) p) = concat (map (\<lambda>(k, v). [h k, value_hash X v]) q)"
  using assms by (auto intro!: len_hash_match concat_match simp: hash_match_def)

lemma hash_entries_match:
  assumes "list_all2 (\<lambda>x y. value_cmp (fst x) (fst y) = Equal \<and> value_cmp (snd x) (snd y) = Equal) p q"
    and "\<And>k x. (k, x) \<in> set p \<Longrightarrow> hash_match X k \<and> hash_match X x"
  shows "len_hash X p = len_hash X q"
    "concat (map (\<lambda>(k, v). [value_hash X k, value_hash X v]) p) = concat (map (\<lambda>(k, v). [value_hash X k, value_hash X v]) q)"
  using assms by (fastforce intro!: len_hash_match concat_match simp: hash_match_def)+

lemma hash_rows_match:
  assumes "list_all2 (list_all2 (\<lambda>x y. value_cmp x y = Equal)) xs ys" "\<And>r x. r \<in> set xs \<Longrightarrow> x \<in> set r \<Longrightarrow> hash_match X x"
  shows "len_hash X xs = len_hash X ys"
    "concat (map (\<lambda>row. len_hash X row # map (value_hash X) row) xs) = concat (map (\<lambda>row. len_hash X row # map (value_hash X) row) ys)"
proof -
  show "len_hash X xs = len_hash X ys" using assms(1) by (rule len_hash_match)
  show "concat (map (\<lambda>row. len_hash X row # map (value_hash X) row) xs) = concat (map (\<lambda>row. len_hash X row # map (value_hash X) row) ys)"
    using assms hash_seq_match by (intro concat_match [OF assms(1)]) (metis (no_types, lifting))
qed

text \<open>One variant at a time; the values that compare as \<open>Equal\<close> have the same variant.\<close>

lemma hash_match_list:
  assumes "\<And>x. x \<in> set a \<Longrightarrow> hash_match X x"
  shows "hash_match X (ValList a)"
proof (rule hash_matchI)
  fix w assume "type_tag w = type_tag (ValList a)" and eq: "value_cmp (ValList a) w = Equal"
  then obtain b where w: "w = ValList b" by (cases w) auto
  with eq hash_seq_match [OF _ assms, of a b] show "value_hash X (ValList a) = value_hash X w" by (simp add: Equal_simps)
qed

lemma hash_match_set:
  assumes "\<And>x. x \<in> set a \<Longrightarrow> hash_match X x"
  shows "hash_match X (ValSet a)"
proof (rule hash_matchI)
  fix w assume "type_tag w = type_tag (ValSet a)" and eq: "value_cmp (ValSet a) w = Equal"
  then obtain b where w: "w = ValSet b" by (cases w) auto
  with eq hash_seq_match [OF _ assms, of a b] show "value_hash X (ValSet a) = value_hash X w" by (simp add: Equal_simps)
qed

lemma hash_match_tensor:
  assumes "\<And>x. x \<in> set a \<Longrightarrow> hash_match X x"
  shows "hash_match X (ValTensor a)"
proof (rule hash_matchI)
  fix w assume "type_tag w = type_tag (ValTensor a)" and eq: "value_cmp (ValTensor a) w = Equal"
  then obtain b where w: "w = ValTensor b" by (cases w) auto
  with eq hash_seq_match [OF _ assms, of a b] show "value_hash X (ValTensor a) = value_hash X w" by (simp add: Equal_simps)
qed

lemma hash_match_point:
  assumes "\<And>x. x \<in> set a \<Longrightarrow> hash_match X x"
  shows "hash_match X (ValPoint a)"
proof (rule hash_matchI)
  fix w assume "type_tag w = type_tag (ValPoint a)" and eq: "value_cmp (ValPoint a) w = Equal"
  then obtain b where w: "w = ValPoint b" by (cases w) auto
  with eq hash_seq_match [OF _ assms, of a b] show "value_hash X (ValPoint a) = value_hash X w" by (simp add: Equal_simps)
qed

lemma hash_match_vector:
  assumes "\<And>x. x \<in> set a \<Longrightarrow> hash_match X x"
  shows "hash_match X (ValVector a)"
proof (rule hash_matchI)
  fix w assume "type_tag w = type_tag (ValVector a)" and eq: "value_cmp (ValVector a) w = Equal"
  then obtain b where w: "w = ValVector b" by (cases w) auto
  with eq hash_seq_match [OF _ assms, of a b] show "value_hash X (ValVector a) = value_hash X w" by (simp add: Equal_simps)
qed

lemma hash_match_matrix:
  assumes "\<And>r x. r \<in> set a \<Longrightarrow> x \<in> set r \<Longrightarrow> hash_match X x"
  shows "hash_match X (ValMatrix a)"
proof (rule hash_matchI)
  fix w assume "type_tag w = type_tag (ValMatrix a)" and eq: "value_cmp (ValMatrix a) w = Equal"
  then obtain b where w: "w = ValMatrix b" by (cases w) auto
  with eq hash_rows_match [OF _ assms, of a b] show "value_hash X (ValMatrix a) = value_hash X w" by (simp add: Equal_simps)
qed

lemma hash_match_map:
  assumes "\<And>k x. (k, x) \<in> set a \<Longrightarrow> hash_match X k \<and> hash_match X x"
  shows "hash_match X (ValMap a)"
proof (rule hash_matchI)
  fix w assume "type_tag w = type_tag (ValMap a)" and eq: "value_cmp (ValMap a) w = Equal"
  then obtain b where w: "w = ValMap b" by (cases w) auto
  with eq hash_entries_match [OF _ assms, of a b] show "value_hash X (ValMap a) = value_hash X w" by (simp add: Equal_simps)
qed

lemma hash_match_option:
  assumes "\<And>x. a = Some x \<Longrightarrow> hash_match X x"
  shows "hash_match X (ValOption a)"
proof (rule hash_matchI)
  fix w assume "type_tag w = type_tag (ValOption a)" and eq: "value_cmp (ValOption a) w = Equal"
  then obtain b where w: "w = ValOption b" by (cases w) auto
  with eq assms show "value_hash X (ValOption a) = value_hash X w"
    by (auto simp: Equal_simps hash_match_def option_rel_Some1 split: option.split)
qed

lemma hash_match_range:
  assumes "\<And>x. l = Some x \<or> u = Some x \<Longrightarrow> hash_match X x"
  shows "hash_match X (ValRange l u li ui)"
proof (rule hash_matchI)
  fix w assume "type_tag w = type_tag (ValRange l u li ui)" and eq: "value_cmp (ValRange l u li ui) w = Equal"
  then obtain l' u' li' ui' where w: "w = ValRange l' u' li' ui'" by (cases w) auto
  have "normalize_range_flags l u li ui = normalize_range_flags l' u' li' ui'"
    "rel_option (\<lambda>x y. value_cmp x y = Equal) l l'" "rel_option (\<lambda>x y. value_cmp x y = Equal) u u'"
    using eq by (simp_all add: w Equal_simps prod_eq_iff split: prod.splits)
  with assms show "value_hash X (ValRange l u li ui) = value_hash X w"
    by (cases l; cases l'; cases u; cases u') (simp_all add: w hash_match_def)
qed

lemma hash_match_enum:
  assumes "\<And>k x. (k, x) \<in> set p \<Longrightarrow> hash_match X x"
  shows "hash_match X (ValEnum t v p)"
proof (rule hash_matchI)
  fix w assume "type_tag w = type_tag (ValEnum t v p)" and eq: "value_cmp (ValEnum t v p) w = Equal"
  then obtain t' v' q where w: "w = ValEnum t' v' q" by (cases w) auto
  from eq have all: "list_all2 (\<lambda>x y. fst x = fst y \<and> value_cmp (snd x) (snd y) = Equal) (sort_fields p) (sort_fields q)"
    by (simp add: w Equal_simps)
  then have "p = [] \<longleftrightarrow> q = []" using list_all2_lengthD [OF all] by (auto simp: sort_fields_def)
  with eq hash_bindings_match [OF all] assms show "value_hash X (ValEnum t v p) = value_hash X w" by (simp add: w Let_def)
qed

lemma hash_match_lambda:
  assumes "\<And>k x. (k, x) \<in> set c \<Longrightarrow> hash_match X x"
  shows "hash_match X (ValLambda ps b c)"
proof (rule hash_matchI)
  fix w assume "type_tag w = type_tag (ValLambda ps b c)" and eq: "value_cmp (ValLambda ps b c) w = Equal"
  then obtain ps' b' d where w: "w = ValLambda ps' b' d" by (cases w) auto
  from eq have all: "list_all2 (\<lambda>x y. fst x = fst y \<and> value_cmp (snd x) (snd y) = Equal) (sorted_captures c) (sorted_captures d)"
    and ps: "ps = ps'" "expr_hash b = expr_hash b'" by (simp_all add: w Equal_simps list.rel_eq flip: prod_eq_iff)
  with hash_bindings_match [OF all] assms show "value_hash X (ValLambda ps b c) = value_hash X w" by (simp add: w)
qed

lemma hash_match_structure:
  assumes "\<And>k x. (k, x) \<in> set f \<Longrightarrow> hash_match X x"
  shows "hash_match X (ValStructureInstance i n v f)"
proof (rule hash_matchI)
  fix w assume "type_tag w = type_tag (ValStructureInstance i n v f)" and eq: "value_cmp (ValStructureInstance i n v f) w = Equal"
  then obtain i' n' v' g where w: "w = ValStructureInstance i' n' v' g" by (cases w) auto
  from eq have all: "list_all2 (\<lambda>x y. fst x = fst y \<and> value_cmp (snd x) (snd y) = Equal)
      (sort_fields (user_fields f)) (sort_fields (user_fields g))" by (simp add: w Equal_simps)
  have "hash_match X x" if "(k, x) \<in> set (sort_fields (user_fields f))" for k x
    using that assms set_user_fields [of f] by auto
  with eq hash_bindings_match [OF all] show "value_hash X (ValStructureInstance i n v f) = value_hash X w" by (simp add: w Let_def)
qed

lemma hash_match_field:
  assumes "hash_match X l"
  shows "hash_match X (ValField d c s l)"
proof (rule hash_matchI)
  fix w assume "type_tag w = type_tag (ValField d c s l)" and eq: "value_cmp (ValField d c s l) w = Equal"
  then obtain d' c' s' l' where w: "w = ValField d' c' s' l'" by (cases w) auto
  with eq show "value_hash X (ValField d c s l) = value_hash X w" by (simp add: hash_matchD [OF assms, of l'])
qed

lemma hash_match_frame:
  assumes "hash_match X a" "hash_match X b"
  shows "hash_match X (ValFrame a b)"
proof (rule hash_matchI)
  fix w assume "type_tag w = type_tag (ValFrame a b)" and eq: "value_cmp (ValFrame a b) w = Equal"
  then obtain a' b' where w: "w = ValFrame a' b'" by (cases w) auto
  with eq show "value_hash X (ValFrame a b) = value_hash X w"
    by (simp add: hash_matchD [OF assms(1), of a'] hash_matchD [OF assms(2), of b'])
qed

lemma hash_match_transform:
  assumes "hash_match X a" "hash_match X b"
  shows "hash_match X (ValTransform a b)"
proof (rule hash_matchI)
  fix w assume "type_tag w = type_tag (ValTransform a b)" and eq: "value_cmp (ValTransform a b) w = Equal"
  then obtain a' b' where w: "w = ValTransform a' b'" by (cases w) auto
  with eq show "value_hash X (ValTransform a b) = value_hash X w"
    by (simp add: hash_matchD [OF assms(1), of a'] hash_matchD [OF assms(2), of b'])
qed

lemma hash_match_plane:
  assumes "hash_match X a" "hash_match X b"
  shows "hash_match X (ValPlane a b)"
proof (rule hash_matchI)
  fix w assume "type_tag w = type_tag (ValPlane a b)" and eq: "value_cmp (ValPlane a b) w = Equal"
  then obtain a' b' where w: "w = ValPlane a' b'" by (cases w) auto
  with eq show "value_hash X (ValPlane a b) = value_hash X w"
    by (simp add: hash_matchD [OF assms(1), of a'] hash_matchD [OF assms(2), of b'])
qed

lemma hash_match_axis:
  assumes "hash_match X a" "hash_match X b"
  shows "hash_match X (ValAxis a b)"
proof (rule hash_matchI)
  fix w assume "type_tag w = type_tag (ValAxis a b)" and eq: "value_cmp (ValAxis a b) w = Equal"
  then obtain a' b' where w: "w = ValAxis a' b'" by (cases w) auto
  with eq show "value_hash X (ValAxis a b) = value_hash X w"
    by (simp add: hash_matchD [OF assms(1), of a'] hash_matchD [OF assms(2), of b'])
qed

lemma hash_match_bounding_box:
  assumes "hash_match X a" "hash_match X b"
  shows "hash_match X (ValBoundingBox a b)"
proof (rule hash_matchI)
  fix w assume "type_tag w = type_tag (ValBoundingBox a b)" and eq: "value_cmp (ValBoundingBox a b) w = Equal"
  then obtain a' b' where w: "w = ValBoundingBox a' b'" by (cases w) auto
  with eq show "value_hash X (ValBoundingBox a b) = value_hash X w"
    by (simp add: hash_matchD [OF assms(1), of a'] hash_matchD [OF assms(2), of b'])
qed

lemma hash_match_affine:
  "hash_match X (ValAffineMap l t)"
proof (rule hash_matchI)
  fix w assume "type_tag w = type_tag (ValAffineMap l t)" and eq: "value_cmp (ValAffineMap l t) w = Equal"
  then obtain l' t' where w: "w = ValAffineMap l' t'" by (cases w) auto
  from eq have "affine_entries l t = affine_entries l' t'" unfolding w
    by (intro zip_eq) (simp_all add: affine_Equal length_affine)
  then show "value_hash X (ValAffineMap l t) = value_hash X w" by (simp add: w)
qed

lemma hash_match_bool:
  "hash_match X (ValBool a)"
proof (rule hash_matchI)
  fix w assume "type_tag w = type_tag (ValBool a)" and eq: "value_cmp (ValBool a) w = Equal"
  then obtain b where w: "w = ValBool b" by (cases w) auto
  with eq show "value_hash X (ValBool a) = value_hash X w" by simp
qed

lemma hash_match_real:
  "hash_match X (ValReal a)"
proof (rule hash_matchI)
  fix w assume "type_tag w = type_tag (ValReal a)" and eq: "value_cmp (ValReal a) w = Equal"
  then obtain b where w: "w = ValReal b" by (cases w) auto
  with eq show "value_hash X (ValReal a) = value_hash X w" by simp
qed

lemma hash_match_string:
  "hash_match X (ValString a)"
proof (rule hash_matchI)
  fix w assume "type_tag w = type_tag (ValString a)" and eq: "value_cmp (ValString a) w = Equal"
  then obtain b where w: "w = ValString b" by (cases w) auto
  with eq show "value_hash X (ValString a) = value_hash X w" by simp
qed

lemma hash_match_selector:
  "hash_match X (ValSelector a)"
proof (rule hash_matchI)
  fix w assume "type_tag w = type_tag (ValSelector a)" and eq: "value_cmp (ValSelector a) w = Equal"
  then obtain b where w: "w = ValSelector b" by (cases w) auto
  with eq show "value_hash X (ValSelector a) = value_hash X w" by simp
qed

lemma hash_match_int:
  "hash_match X (ValInt a)"
proof (rule hash_matchI)
  fix w assume "type_tag w = type_tag (ValInt a)" and eq: "value_cmp (ValInt a) w = Equal"
  then obtain b where w: "w = ValInt b" by (cases w) auto
  with eq show "value_hash X (ValInt a) = value_hash X w" by (auto dest: signed_word_eqI)
qed

lemma hash_match_sampled:
  "hash_match X (ValSampledField a)"
proof (rule hash_matchI)
  fix w assume "type_tag w = type_tag (ValSampledField a)" and eq: "value_cmp (ValSampledField a) w = Equal"
  then obtain b where w: "w = ValSampledField b" by (cases w) auto
  with eq show "value_hash X (ValSampledField a) = value_hash X w" by (simp add: sampled_hash)
qed

lemma hash_match_handle:
  "hash_match X (ValGeometryHandle a)"
proof (rule hash_matchI)
  fix w assume "type_tag w = type_tag (ValGeometryHandle a)" and eq: "value_cmp (ValGeometryHandle a) w = Equal"
  then obtain b where w: "w = ValGeometryHandle b" by (cases w) auto
  with eq show "value_hash X (ValGeometryHandle a) = value_hash X w" by (simp add: handle_eq_def hash_handle_def)
qed

lemma hash_match_feature:
  "hash_match X (ValFeature a)"
proof (rule hash_matchI)
  fix w assume "type_tag w = type_tag (ValFeature a)" and eq: "value_cmp (ValFeature a) w = Equal"
  then obtain b where w: "w = ValFeature b" by (cases w) auto
  with eq show "value_hash X (ValFeature a) = value_hash X w" by (auto dest: feature_bytes_inject)
qed

lemma hash_match_scalar:
  "hash_match X (ValScalar a d)"
proof (rule hash_matchI)
  fix w assume "type_tag w = type_tag (ValScalar a d)" and eq: "value_cmp (ValScalar a d) w = Equal"
  then obtain a' d' where w: "w = ValScalar a' d'" by (cases w) auto
  with eq show "value_hash X (ValScalar a d) = value_hash X w" by simp
qed

lemma hash_match_complex:
  "hash_match X (ValComplex a b d)"
proof (rule hash_matchI)
  fix w assume "type_tag w = type_tag (ValComplex a b d)" and eq: "value_cmp (ValComplex a b d) w = Equal"
  then obtain a' b' d' where w: "w = ValComplex a' b' d'" by (cases w) auto
  with eq show "value_hash X (ValComplex a b d) = value_hash X w" by simp
qed

lemma hash_match_orientation:
  "hash_match X (ValOrientation a b c d)"
proof (rule hash_matchI)
  fix w assume "type_tag w = type_tag (ValOrientation a b c d)" and eq: "value_cmp (ValOrientation a b c d) w = Equal"
  then obtain a' b' c' d' where w: "w = ValOrientation a' b' c' d'" by (cases w) auto
  with eq show "value_hash X (ValOrientation a b c d) = value_hash X w" by simp
qed

lemma hash_match_direction:
  "hash_match X (ValDirection a b c)"
proof (rule hash_matchI)
  fix w assume "type_tag w = type_tag (ValDirection a b c)" and eq: "value_cmp (ValDirection a b c) w = Equal"
  then obtain a' b' c' where w: "w = ValDirection a' b' c'" by (cases w) auto
  with eq show "value_hash X (ValDirection a b c) = value_hash X w" by simp
qed

lemma hash_match_undef: "hash_match X ValUndef"
  by (rule hash_matchI, case_tac w) simp_all

lemmas hash_match_parts = hash_match_list hash_match_set hash_match_tensor hash_match_point hash_match_vector
  hash_match_matrix hash_match_map hash_match_option hash_match_range hash_match_enum hash_match_lambda
  hash_match_structure hash_match_field hash_match_frame hash_match_transform hash_match_plane hash_match_axis
  hash_match_bounding_box hash_match_affine hash_match_bool hash_match_int hash_match_real hash_match_string
  hash_match_scalar hash_match_complex hash_match_orientation hash_match_direction hash_match_sampled
  hash_match_handle hash_match_feature hash_match_selector hash_match_undef

lemma value_hash_match: "hash_match X v"
  by (induction v) (auto intro!: hash_match_parts intro: Basic_BNFs.fsts.intros Basic_BNFs.snds.intros)

text \<open>
  C23.  For every hash function, values that compare as \<open>Equal\<close> have the same
  content hash.
\<close>

theorem value_hash_respects_order:
  assumes "value_cmp v w = Equal"
  shows "value_hash X v = value_hash X w"
  using value_hash_match [of X v] assms by (simp add: hash_match_def)

lemma value_hash_respects_order_witness:
  "\<forall>X. value_hash X (ValEnum ''Fit'' ''Press'' [(''b'', ValInt 1), (''a'', ValReal 0)])
     = value_hash X (ValEnum ''Fit'' ''Press'' [(''a'', ValReal 0), (''b'', ValInt 1)])"
  by (intro allI value_hash_respects_order) (simp add: sort_fields_def)

section \<open>Composed selectors\<close>

lemma find_mem: "find P xs = Some c \<Longrightarrow> c \<in> set xs \<and> P c"
  by (induction xs) (auto split: if_splits)

lemma check_composition_Inr: "check_composition cs = Inr k \<longleftrightarrow> cs \<noteq> [] \<and> (\<forall>c \<in> set cs. sel_kind c = k)"
  by (cases cs) (auto simp: find_None_iff dest: find_mem split: option.split)

lemma hash_children_mset:
  assumes "mset cs = mset ds"
  shows "hash_children X tag cs = hash_children X tag ds"
proof -
  have "sort (map sel_hash cs) = sort (map sel_hash ds)"
    by (rule properties_for_sort) (simp_all add: assms)
  with mset_eq_length [OF assms] show ?thesis by (simp add: hash_children_def)
qed

text \<open>
  Unions and intersections of selectors do not depend on the order of their
  operands: whenever one order is accepted every order is, and the results are
  equal values with equal hashes.
\<close>

theorem selector_composition_commutes:
  assumes "mset cs = mset ds" and "op \<in> {selector_union, selector_intersect}" and "op X cs = Inr s"
  shows "\<exists>t. op X ds = Inr t \<and> sel_kind t = sel_kind s \<and> value_eq (ValSelector s) (ValSelector t)
    \<and> value_hash X (ValSelector s) = value_hash X (ValSelector t)"
proof -
  have "set cs = set ds" "cs = [] \<longleftrightarrow> ds = []" using assms(1) by (auto dest: mset_eq_setD)
  then have "check_composition cs = Inr k \<longleftrightarrow> check_composition ds = Inr k" for k by (auto simp: check_composition_Inr)
  moreover obtain k where "check_composition cs = Inr k"
    using assms(2,3) by (cases "check_composition cs") (auto simp: selector_union_def selector_intersect_def)
  ultimately have "check_composition cs = Inr k" "check_composition ds = Inr k" by auto
  with assms(2,3) show ?thesis
    by (auto simp: selector_union_def selector_intersect_def sel_new_def compute_content_hash_def
        hash_children_mset [OF assms(1)])
qed

definition demo_leaf :: "LeafQuery \<Rightarrow> ContentHash \<Rightarrow> SelectorValue" where
  "demo_leaf query hash =
     SelectorValue FaceKind
       (SelLeaf \<lparr>realization_ref = RealizationNodeId ''Bracket'' 0, upstream_values_hash = [], kernel_handle = None\<rparr> query) hash"

lemma selector_composition_commutes_witness:
  "\<forall>X. \<exists>t. selector_union X [demo_leaf QAll 2, demo_leaf (QNamed ''top'') 1] = Inr t
     \<and> sel_kind t = sel_kind (sel_new X FaceKind (SelUnion [demo_leaf (QNamed ''top'') 1, demo_leaf QAll 2]))
     \<and> value_eq (ValSelector (sel_new X FaceKind (SelUnion [demo_leaf (QNamed ''top'') 1, demo_leaf QAll 2]))) (ValSelector t)
     \<and> value_hash X (ValSelector (sel_new X FaceKind (SelUnion [demo_leaf (QNamed ''top'') 1, demo_leaf QAll 2])))
         = value_hash X (ValSelector t)"
  by (rule allI, rule selector_composition_commutes [of "[demo_leaf (QNamed ''top'') 1, demo_leaf QAll 2]" _ selector_union])
    (simp_all add: selector_union_def demo_leaf_def add_mset_commute)

end
