(* ===== verification/Decompose.thy ===== *)
theory Decompose
  imports Reads Values "HOL-Library.Monad_Syntax"
begin

text \<open>
  Splitting a constraint problem into independent sub-problems
  (\<open>reify-constraints/src/classifier.rs\<close>, \<open>decompose.rs\<close>, and the domains of the
  discrete solver that routing depends on, \<open>cpsat.rs\<close>).  Constraints that read a
  common auto parameter, directly, through dependent cells or through the
  objective, end up in one sub-problem; the search for connected parameters is a
  union-find structure.  An index out of range, and a loop that does not end, is
  \<open>None\<close>.
\<close>

unbundle bit_operations_syntax

type_synonym Constraints = "(ConstraintNodeId \<times> (Value, Type) CompiledExpr) list"

section \<open>Classification of constraints\<close>

datatype ConstraintDomain = Dimensional | Geometric | Logical | CrossDomain

record DomainFlags =
  has_numeric :: bool
  has_logical :: bool
  has_geometric :: bool

definition into_domain :: "DomainFlags \<Rightarrow> ConstraintDomain" where
  "into_domain f =
     (if has_geometric f then (if has_logical f then CrossDomain else Geometric)
      else if has_numeric f \<and> has_logical f then CrossDomain
      else if has_logical f then Logical
      else Dimensional)"

definition is_geometry_qualified_name :: "string \<Rightarrow> bool" where
  "is_geometry_qualified_name n \<longleftrightarrow>
     prefix ''std::geo::'' n \<or> prefix ''std::geometry::'' n
     \<or> n \<in> set [''std::distance'', ''std::angle_between'', ''std::parallel'', ''std::tangent'', ''std::concentric'',
         ''std::flush'', ''std::offset'', ''std::coincident'', ''std::perpendicular'', ''std::antiparallel'', ''std::on'']"

definition collect_flag :: "(Value, Type) CompiledExpr \<Rightarrow> DomainFlags \<Rightarrow> DomainFlags" where
  "collect_flag node f =
     (case expr_kind node of
        Literal v \<Rightarrow>
          if is_domain_logical_leaf v then f\<lparr>has_logical := True\<rparr>
          else if is_domain_numeric_leaf v then f\<lparr>has_numeric := True\<rparr> else f
      | ValueRef c \<Rightarrow>
          if is_numeric (expr_type node) then f\<lparr>has_numeric := True\<rparr>
          else if expr_type node = TBool then f\<lparr>has_logical := True\<rparr> else f
      | FunctionCall function args \<Rightarrow>
          if is_geometry_qualified_name (qualified_name function) then f\<lparr>has_geometric := True\<rparr> else f
      | _ \<Rightarrow> f)"

definition no_flags :: DomainFlags where
  "no_flags = \<lparr>has_numeric = False, has_logical = False, has_geometric = False\<rparr>"

definition classify :: "(Value, Type) CompiledExpr \<Rightarrow> ConstraintDomain" where
  "classify expr = into_domain (fold collect_flag (walk expr) no_flags)"

fun widen_domain :: "ConstraintDomain \<Rightarrow> ConstraintDomain \<Rightarrow> ConstraintDomain" where
  "widen_domain a b =
     (if a = b then a
      else if a = CrossDomain \<or> b = CrossDomain then CrossDomain
      else if a = Logical \<or> b = Logical then CrossDomain
      else if a = Geometric \<and> b = Dimensional \<or> a = Dimensional \<and> b = Geometric then Geometric
      else a)"

section \<open>Domains of the discrete solver\<close>

definition MAX_INT_DOMAIN :: int where
  "MAX_INT_DOMAIN = 1000"

text \<open>\<open>x as i64\<close>: truncation toward zero, saturating.  The magnitude of the pattern is exponent and mantissa.\<close>

definition f64_trunc :: "f64 \<Rightarrow> int" where
  "f64_trunc x =
     (let e = nat (f64_magnitude x div 2 ^ 52);
        m = f64_magnitude x mod 2 ^ 52 + 2 ^ 52;
        t = (if e = 0 then 0 else if e \<ge> 1075 then m * 2 ^ (e - 1075) else m div 2 ^ (1075 - e))
      in if f64_negative x then - t else t)"

definition i64_min :: int where
  "i64_min = - (2 ^ 63)"

definition i64_max :: int where
  "i64_max = 2 ^ 63 - 1"

definition f64_as_i64 :: "f64 \<Rightarrow> int" where
  "f64_as_i64 x = (if is_nan x then 0 else max i64_min (min i64_max (f64_trunc x)))"

definition checked_i64 :: "int \<Rightarrow> int option" where
  "checked_i64 n = (if i64_min \<le> n \<and> n \<le> i64_max then Some n else None)"

text \<open>\<open>i64::MIN as f64\<close> and \<open>i64::MAX as f64\<close>; the latter rounds up to \<open>2^63\<close>.\<close>

definition I64_MIN_F :: f64 where
  "I64_MIN_F = 0xC3E0000000000000"

definition I64_MAX_F :: f64 where
  "I64_MAX_F = 0x43E0000000000000"

definition in_i64_range :: "f64 \<Rightarrow> bool" where
  "in_i64_range x \<longleftrightarrow> f64_le I64_MIN_F x \<and> f64_le x I64_MAX_F"

datatype DomainSpec = SpecBool | IntRange int int | EnumVariants "Value list"

text \<open>The rejections; the text of their messages is left out.\<close>

datatype DomainError = NonFiniteBounds | OutsideI64 | TooLarge int | NoBounds | NoVariants | UnsupportedType

definition add_variant :: "string \<Rightarrow> (Value, Type) CompiledExpr \<Rightarrow> string list \<times> Value list \<Rightarrow> string list \<times> Value list" where
  "add_variant type_name node acc =
     (case expr_kind node of
        Literal v \<Rightarrow>
          (case v of
             ValEnum tn variant payload \<Rightarrow>
               if tn = type_name \<and> variant \<notin> set (fst acc)
               then (variant # fst acc, snd acc @ [enum_unit tn variant]) else acc
           | _ \<Rightarrow> acc)
      | _ \<Rightarrow> acc)"

definition enum_variants :: "string \<Rightarrow> Constraints \<Rightarrow> Value list" where
  "enum_variants type_name cs =
     snd (fold (\<lambda>(c, expr). fold (add_variant type_name) (walk expr)) cs ([], []))"

definition domain_spec :: "AutoParam \<Rightarrow> Constraints \<Rightarrow> DomainError + DomainSpec" where
  "domain_spec param cs =
     (case param_type param of
        TBool \<Rightarrow> Inr SpecBool
      | TInt \<Rightarrow>
          (case ap_bounds param of
             Some (lo, hi) \<Rightarrow>
               if \<not> is_finite lo \<or> \<not> is_finite hi then Inl NonFiniteBounds
               else if \<not> in_i64_range lo \<or> \<not> in_i64_range hi then Inl OutsideI64
               else
                 (let lo_i = f64_as_i64 lo; hi_i = f64_as_i64 hi;
                    size = (case Option.bind (checked_i64 (hi_i - lo_i)) (\<lambda>d. checked_i64 (d + 1)) of
                              Some n \<Rightarrow> n | None \<Rightarrow> i64_max)
                  in if size > MAX_INT_DOMAIN \<or> size \<le> 0 then Inl (TooLarge size) else Inr (IntRange lo_i hi_i))
           | None \<Rightarrow> Inl NoBounds)
      | TEnum type_name \<Rightarrow>
          (let variants = enum_variants type_name cs in
           if variants = [] then Inl NoVariants else Inr (EnumVariants variants))
      | _ \<Rightarrow> Inl UnsupportedType)"

definition build_variable_domain :: "AutoParam \<Rightarrow> Constraints \<Rightarrow> DomainError + Value list" where
  "build_variable_domain param cs =
     map_sum id (\<lambda>spec. case spec of
         SpecBool \<Rightarrow> [ValBool True, ValBool False]
       | IntRange lo hi \<Rightarrow> map (\<lambda>n. ValInt (word_of_int n)) [lo..hi]
       | EnumVariants variants \<Rightarrow> variants) (domain_spec param cs)"

definition can_enumerate :: "AutoParam \<Rightarrow> Constraints \<Rightarrow> bool" where
  "can_enumerate param cs \<longleftrightarrow> \<not> Sum_Type.isl (domain_spec param cs)"

definition domain_of_auto :: "AutoParam \<Rightarrow> Constraints \<Rightarrow> ConstraintDomain option" where
  "domain_of_auto param cs =
     (case param_type param of
        TBool \<Rightarrow> Some Logical
      | TEnum n \<Rightarrow> if can_enumerate param cs then Some Logical else Some CrossDomain
      | TInt \<Rightarrow> if can_enumerate param cs then None else Some Dimensional
      | TGeometry \<Rightarrow> Some Geometric
      | TFeature \<Rightarrow> Some Geometric
      | t \<Rightarrow> if is_numeric t then Some Dimensional else Some CrossDomain)"

section \<open>Union-find\<close>

record UnionFind =
  uf_parent :: "nat list"
  uf_rank :: "nat list"

definition uf_new :: "nat \<Rightarrow> UnionFind" where
  "uf_new n = \<lparr>uf_parent = [0..<n], uf_rank = replicate n 0\<rparr>"

partial_function (option) find_loop :: "nat list \<Rightarrow> nat \<Rightarrow> (nat list \<times> nat) option" where
  "find_loop parent x =
     (if x \<ge> length parent then None
      else if parent ! x = x then Some (parent, x)
      else if parent ! x \<ge> length parent then None
      else find_loop (parent[x := parent ! (parent ! x)]) (parent ! (parent ! x)))"

definition uf_find :: "UnionFind \<Rightarrow> nat \<Rightarrow> (UnionFind \<times> nat) option" where
  "uf_find uf x = map_option (\<lambda>(p, r). (uf\<lparr>uf_parent := p\<rparr>, r)) (find_loop (uf_parent uf) x)"

definition uf_link :: "nat \<Rightarrow> nat \<Rightarrow> UnionFind \<Rightarrow> UnionFind" where
  "uf_link ra rb uf =
     (if ra = rb then uf
      else if uf_rank uf ! ra < uf_rank uf ! rb then uf\<lparr>uf_parent := (uf_parent uf)[ra := rb]\<rparr>
      else if uf_rank uf ! ra > uf_rank uf ! rb then uf\<lparr>uf_parent := (uf_parent uf)[rb := ra]\<rparr>
      else uf\<lparr>uf_parent := (uf_parent uf)[rb := ra], uf_rank := (uf_rank uf)[ra := uf_rank uf ! ra + 1]\<rparr>)"

definition uf_union :: "UnionFind \<Rightarrow> nat \<Rightarrow> nat \<Rightarrow> UnionFind option" where
  "uf_union uf a b =
     do { (uf1, ra) \<leftarrow> uf_find uf a; (uf2, rb) \<leftarrow> uf_find uf1 b; Some (uf_link ra rb uf2) }"

text \<open>\<open>for i in 1..xs.len() { uf.union(xs[0], xs[i]) }\<close>\<close>

fun union_with :: "nat \<Rightarrow> nat list \<Rightarrow> UnionFind \<Rightarrow> UnionFind option" where
  "union_with a [] uf = Some uf"
| "union_with a (b # bs) uf = do { uf1 \<leftarrow> uf_union uf a b; union_with a bs uf1 }"

fun union_all :: "nat list \<Rightarrow> UnionFind \<Rightarrow> UnionFind option" where
  "union_all [] uf = Some uf"
| "union_all (a # bs) uf = union_with a bs uf"

section \<open>The decomposition\<close>

record SubProblem =
  sp_auto_params :: "ValueCellId list"
  sp_constraints :: Constraints
  sp_domain :: ConstraintDomain

text \<open>The refs of an objective, widened through the foldable cells.\<close>

definition expand_objective :: "ValueCellId hash_set \<Rightarrow> DependentCellReads \<Rightarrow> ValueCellId hash_set" where
  "expand_objective refs reads = fold hs_insert (reach_foldable (reach_of refs reads)) refs"

definition reaches_any :: "ValueCellId hash_set \<Rightarrow> ValueCellId list \<Rightarrow> bool" where
  "reaches_any refs as \<longleftrightarrow> list_ex (\<lambda>a. a \<in> set refs) as"

record ConstraintInfo =
  constraint_idx :: nat
  referenced_params :: "nat list"
  reached_params :: "nat list"
  classified :: ConstraintDomain

definition param_index :: "AutoParam list \<Rightarrow> (ValueCellId, nat) hash_map" where
  "param_index auto_params = fold (\<lambda>(i, ap). hm_insert (ap_id ap) i) (enumerate 0 auto_params) []"

definition sorted_dedup :: "nat list \<Rightarrow> nat list" where
  "sorted_dedup xs = remdups_adj (sort xs)"

definition constraint_info ::
  "(ValueCellId, nat) hash_map \<Rightarrow> DependentCellReads \<Rightarrow> nat \<Rightarrow> (Value, Type) CompiledExpr \<Rightarrow> ConstraintInfo" where
  "constraint_info index reads ci expr =
     (let refs = bare_value_refs expr []; reach = reach_of refs reads in
      \<lparr>constraint_idx = ci,
       referenced_params = sorted_dedup (List.map_filter (hm_get index) (refs @ reach_all reach)),
       reached_params = sorted_dedup (List.map_filter (hm_get index) (reach_all reach)),
       classified = (if reads_unfoldable_cell reach then CrossDomain else classify expr)\<rparr>)"

fun collect_infos ::
  "(nat \<Rightarrow> (Value, Type) CompiledExpr \<Rightarrow> ConstraintInfo) \<Rightarrow> nat \<Rightarrow> Constraints \<Rightarrow> UnionFind \<Rightarrow>
     (UnionFind \<times> ConstraintInfo list) option" where
  "collect_infos f ci [] uf = Some (uf, [])"
| "collect_infos f ci ((cid, expr) # cs) uf =
     (let info = f ci expr in
      if referenced_params info = [] then collect_infos f (Suc ci) cs uf
      else do {
        uf1 \<leftarrow> union_all (referenced_params info) uf;
        (uf2, infos) \<leftarrow> collect_infos f (Suc ci) cs uf1;
        Some (uf2, info # infos) })"

text \<open>A slot for a component is allocated at its first constraint.\<close>

fun group_infos ::
  "nat \<Rightarrow> ConstraintInfo list \<Rightarrow> UnionFind \<Rightarrow> nat option list \<Rightarrow> (nat \<times> nat list) list \<Rightarrow>
     (UnionFind \<times> (nat \<times> nat list) list) option" where
  "group_infos idx [] uf slot_of_root components = Some (uf, components)"
| "group_infos idx (info # infos) uf slot_of_root components =
     (case referenced_params info of
        [] \<Rightarrow> None
      | p # ps \<Rightarrow>
          do {
            (uf1, rt) \<leftarrow> uf_find uf p;
            (case slot_of_root ! rt of
               Some slot \<Rightarrow>
                 group_infos (Suc idx) infos uf1 slot_of_root
                   (components[slot := (fst (components ! slot), snd (components ! slot) @ [idx])])
             | None \<Rightarrow>
                 group_infos (Suc idx) infos uf1 (slot_of_root[rt := Some (length components)])
                   (components @ [(rt, [idx])])) })"

text \<open>The parameters of a component, and those no constraint reads.\<close>

fun component_params ::
  "nat \<Rightarrow> bool list \<Rightarrow> nat list \<Rightarrow> UnionFind \<Rightarrow> (UnionFind \<times> nat list \<times> nat list) option" where
  "component_params rt read_by [] uf = Some (uf, [], [])"
| "component_params rt read_by (ix # ixs) uf =
     do {
       (uf1, r) \<leftarrow> uf_find uf ix;
       (uf2, params, objective_only) \<leftarrow> component_params rt read_by ixs uf1;
       Some (if r = rt then (uf2, ix # params, (if \<not> read_by ! ix then [ix] else []) @ objective_only)
             else (uf2, params, objective_only)) }"

text \<open>The memo of \<open>domain_of_auto\<close>: \<open>*auto_domain[pi].get_or_insert_with(..)\<close>.\<close>

type_synonym domain_memo = "ConstraintDomain option option list"

definition own_domain :: "(nat \<Rightarrow> ConstraintDomain option) \<Rightarrow> nat \<Rightarrow> domain_memo \<Rightarrow> ConstraintDomain option \<times> domain_memo" where
  "own_domain probe ix cache =
     (case cache ! ix of Some v \<Rightarrow> (v, cache) | None \<Rightarrow> (probe ix, cache[ix := Some (probe ix)]))"

fun widen_all ::
  "(nat \<Rightarrow> ConstraintDomain option) \<Rightarrow> nat list \<Rightarrow> ConstraintDomain \<times> domain_memo \<Rightarrow> ConstraintDomain \<times> domain_memo" where
  "widen_all probe [] s = s"
| "widen_all probe (ix # ixs) s =
     (case own_domain probe ix (snd s) of
        (None, cache) \<Rightarrow> widen_all probe ixs (fst s, cache)
      | (Some d, cache) \<Rightarrow> widen_all probe ixs (widen_domain (fst s) d, cache))"

fun info_domains ::
  "(nat \<Rightarrow> ConstraintDomain option) \<Rightarrow> ConstraintInfo list \<Rightarrow> domain_memo \<Rightarrow> ConstraintDomain list \<times> domain_memo" where
  "info_domains probe [] cache = ([], cache)"
| "info_domains probe (info # infos) cache =
     (let (d, cache1) = widen_all probe (reached_params info) (classified info, cache);
        (ds, cache2) = info_domains probe infos cache1
      in (d # ds, cache2))"

definition component_domain ::
  "(nat \<Rightarrow> ConstraintDomain option) \<Rightarrow> ConstraintInfo list \<Rightarrow> nat list \<Rightarrow> domain_memo \<Rightarrow>
     (ConstraintDomain \<times> domain_memo) option" where
  "component_domain probe infos objective_only cache =
     (case info_domains probe infos cache of
        ([], cache1) \<Rightarrow> None
      | (first_domain # ds, cache1) \<Rightarrow>
          Some (widen_all probe objective_only
            (if list_all (\<lambda>d. d = first_domain) (first_domain # ds) then first_domain else CrossDomain, cache1)))"

fun build_subproblems ::
  "AutoParam list \<Rightarrow> Constraints \<Rightarrow> ConstraintInfo list \<Rightarrow> bool list \<Rightarrow> (nat \<times> nat list) list \<Rightarrow> UnionFind \<Rightarrow>
     domain_memo \<Rightarrow> SubProblem list option" where
  "build_subproblems auto_params cs infos read_by [] uf cache = Some []"
| "build_subproblems auto_params cs infos read_by ((rt, info_indices) # components) uf cache =
     (let own_infos = map (\<lambda>i. infos ! i) info_indices;
        sub_constraints = map (\<lambda>info. cs ! constraint_idx info) own_infos
      in do {
        (uf1, params, objective_only) \<leftarrow> component_params rt read_by [0..<length auto_params] uf;
        (domain, cache1) \<leftarrow>
          component_domain (\<lambda>ix. domain_of_auto (auto_params ! ix) sub_constraints) own_infos objective_only cache;
        rest \<leftarrow> build_subproblems auto_params cs infos read_by components uf1 cache1;
        Some (\<lparr>sp_auto_params = map (\<lambda>ix. ap_id (auto_params ! ix)) params,
               sp_constraints = sub_constraints, sp_domain = domain\<rparr> # rest) })"

definition mark_read :: "ConstraintInfo list \<Rightarrow> nat \<Rightarrow> bool list" where
  "mark_read infos n = fold (\<lambda>ix marks. marks[ix := True]) (concat (map referenced_params infos)) (replicate n False)"

definition decompose_with_reads ::
  "AutoParam list \<Rightarrow> Constraints \<Rightarrow> ValueCellId hash_set option \<Rightarrow> DependentCellReads \<Rightarrow> SubProblem list option" where
  "decompose_with_reads auto_params cs objective reads =
     (let index = param_index auto_params; n = length auto_params in
      if cs = [] then Some []
      else do {
        (uf1, infos) \<leftarrow> collect_infos (constraint_info index reads) 0 cs (uf_new n);
        uf2 \<leftarrow> (case objective of Some refs \<Rightarrow> union_all (List.map_filter (hm_get index) refs) uf1 | None \<Rightarrow> Some uf1);
        (if infos = [] then Some []
         else do {
           (uf3, components) \<leftarrow> group_infos 0 infos uf2 (replicate n None) [];
           build_subproblems auto_params cs infos (mark_read infos n) components uf3 (replicate n None) }) })"

definition decompose_into_components ::
  "AutoParam list \<Rightarrow> Constraints \<Rightarrow> ValueCellId hash_set option \<Rightarrow> (ValueCellId \<times> (Value, Type) CompiledExpr) list \<Rightarrow>
     SubProblem list option" where
  "decompose_into_components auto_params cs objective_refs dependent_cells =
     do {
       reads \<leftarrow> dependent_cell_auto_reads dependent_cells auto_params;
       decompose_with_reads auto_params cs (map_option (\<lambda>refs. expand_objective refs reads) objective_refs) reads }"

end
