(* ===== verification/UnionFindLaws.thy ===== *)
theory UnionFindLaws
  imports Decompose
begin

text \<open>
  The union-find of \<open>decompose.rs\<close>: every find ends, and the structure represents
  the equivalence closure of the pairs that were united.  Ranks rise along
  parents, so path halving keeps the roots and shortens the paths.
\<close>

definition parent_ok :: "nat list \<Rightarrow> nat list \<Rightarrow> bool" where
  "parent_ok p rk \<longleftrightarrow> (\<forall>i < length p. p ! i < length p \<and> (p ! i \<noteq> i \<longrightarrow> rk ! i < rk ! (p ! i)))"

definition uf_ok :: "UnionFind \<Rightarrow> bool" where
  "uf_ok uf \<longleftrightarrow> length (uf_rank uf) = length (uf_parent uf) \<and> parent_ok (uf_parent uf) (uf_rank uf)"

lemma parent_okD:
  "parent_ok p rk \<Longrightarrow> i < length p \<Longrightarrow> p ! i < length p"
  "parent_ok p rk \<Longrightarrow> i < length p \<Longrightarrow> p ! i \<noteq> i \<Longrightarrow> rk ! i < rk ! (p ! i)"
  by (simp_all add: parent_ok_def)

inductive root_of :: "nat list \<Rightarrow> nat \<Rightarrow> nat \<Rightarrow> bool" for p where
  root_self: "p ! r = r \<Longrightarrow> root_of p r r"
| root_up: "p ! i \<noteq> i \<Longrightarrow> root_of p (p ! i) r \<Longrightarrow> root_of p i r"

inductive_cases root_ofE: "root_of p i r"

lemma root_of_unique: "root_of p i r \<Longrightarrow> root_of p i s \<Longrightarrow> r = s"
  by (induction rule: root_of.induct) (auto elim: root_ofE)

lemma root_of_root: "root_of p i r \<Longrightarrow> p ! r = r"
  by (induction rule: root_of.induct)

lemma root_of_less: "root_of p i r \<Longrightarrow> parent_ok p rk \<Longrightarrow> i < length p \<Longrightarrow> r < length p"
  by (induction rule: root_of.induct) (auto simp: parent_ok_def)

text \<open>Ranks rise along parents and stay below their maximum.\<close>

definition height :: "nat list \<Rightarrow> nat \<Rightarrow> nat" where
  "height rk i = Max (insert 0 (set rk)) - rk ! i"

lemma height_less:
  assumes "parent_ok p rk" "length rk = length p" "i < length p" "p ! i \<noteq> i"
  shows "height rk (p ! i) < height rk i"
proof -
  have "p ! i < length rk" "rk ! i < rk ! (p ! i)" using assms by (auto simp: parent_ok_def)
  moreover from this have "rk ! (p ! i) \<le> Max (insert 0 (set rk))" by (intro Max_ge) auto
  ultimately show ?thesis unfolding height_def by linarith
qed

lemma root_of_exists:
  assumes "parent_ok p rk" "length rk = length p"
  shows "i < length p \<Longrightarrow> \<exists>r. root_of p i r"
proof (induction "height rk i" arbitrary: i rule: less_induct)
  case less
  show ?case
  proof (cases "p ! i = i")
    case True
    then show ?thesis by (blast intro: root_self)
  next
    case False
    moreover have "p ! i < length p" using assms less.prems by (simp add: parent_ok_def)
    ultimately show ?thesis using less.hyps height_less [OF assms less.prems] by (blast intro: root_up)
  qed
qed

lemma halving_root:
  assumes ok: "parent_ok p rk" and x: "x < length p" "p ! x \<noteq> x"
  shows "root_of p i r \<Longrightarrow> root_of (p[x := p ! (p ! x)]) i r"
proof (induction rule: root_of.induct)
  case (root_self r)
  with x show ?case by (intro root_of.root_self) (auto simp: nth_list_update)
next
  case (root_up i r)
  let ?p = "p[x := p ! (p ! x)]"
  show ?case
  proof (cases "i = x")
    case False
    with root_up show ?thesis by (auto intro: root_of.root_up [of ?p i r])
  next
    case True
    have up: "p ! x < length p" "p ! x \<noteq> x" "p ! (p ! x) \<noteq> x"
      using parent_okD [OF ok x(1)] parent_okD(2) [OF ok, of "p ! x"] x(2) by auto
    then have at: "?p ! x = p ! (p ! x)" "?p ! (p ! x) = p ! (p ! x)" using x by simp_all
    have "root_of ?p (p ! (p ! x)) r"
    proof (cases "p ! (p ! x) = p ! x")
      case True
      with root_up.IH \<open>i = x\<close> show ?thesis by simp
    next
      case False
      with root_up.IH \<open>i = x\<close> at(2) show ?thesis by (auto elim: root_ofE [of ?p "p ! x" r])
    qed
    moreover have "?p ! i \<noteq> i" using True at(1) up(3) by simp
    ultimately show ?thesis using True at(1) root_of.root_up [of ?p i r] by simp
  qed
qed

lemma halving_ok:
  assumes "parent_ok p rk" "x < length p"
  shows "parent_ok (p[x := p ! (p ! x)]) rk"
  unfolding parent_ok_def
proof (intro allI impI)
  fix i assume i: "i < length (p[x := p ! (p ! x)])"
  have "p ! x < length p" "p ! (p ! x) < length p" using assms by (auto simp: parent_ok_def)
  moreover have "rk ! x < rk ! (p ! (p ! x))" if "p ! (p ! x) \<noteq> x"
  proof -
    have "p ! x \<noteq> x" using that by auto
    then have "rk ! x < rk ! (p ! x)" using assms by (simp add: parent_ok_def)
    moreover have "rk ! (p ! x) \<le> rk ! (p ! (p ! x))"
      using assms calculation \<open>p ! x < length p\<close> by (cases "p ! (p ! x) = p ! x") (auto simp: parent_ok_def less_imp_le)
    ultimately show ?thesis by simp
  qed
  ultimately show "p[x := p ! (p ! x)] ! i < length (p[x := p ! (p ! x)])
      \<and> (p[x := p ! (p ! x)] ! i \<noteq> i \<longrightarrow> rk ! i < rk ! (p[x := p ! (p ! x)] ! i))"
    using assms i by (cases "i = x") (auto simp: parent_ok_def)
qed

lemma find_loop_spec:
  assumes "length rk = length p"
  shows "parent_ok p rk \<Longrightarrow> length p = length rk \<Longrightarrow> x < length p \<Longrightarrow>
    \<exists>q r. find_loop p x = Some (q, r) \<and> root_of p x r \<and> parent_ok q rk \<and> length q = length p
      \<and> (\<forall>i r. root_of p i r \<longrightarrow> root_of q i r)"
proof (induction "height rk x" arbitrary: x p rule: less_induct)
  case less
  show ?case
  proof (cases "p ! x = x")
    case True
    with less.prems show ?thesis by (subst find_loop.simps) (auto intro: root_self)
  next
    case False
    let ?q = "p[x := p ! (p ! x)]" and ?y = "p ! (p ! x)"
    have up: "p ! x < length p" "?y < length p" using less.prems by (auto simp: parent_ok_def)
    have "height rk ?y < height rk x"
    proof (cases "?y = p ! x")
      case True
      then show ?thesis using height_less less.prems False by simp
    next
      case False
      with \<open>p ! x \<noteq> x\<close> show ?thesis
        using height_less [of p rk "p ! x"] height_less [of p rk x] less.prems up by simp
    qed
    moreover have q: "parent_ok ?q rk" "\<And>i r. root_of p i r \<Longrightarrow> root_of ?q i r"
      using halving_ok halving_root less.prems False by auto
    ultimately obtain q' r where r: "find_loop ?q ?y = Some (q', r)" "root_of ?q ?y r" "parent_ok q' rk"
      "length q' = length ?q" "\<forall>i r. root_of ?q i r \<longrightarrow> root_of q' i r"
      using less.hyps [of ?y ?q] less.prems up by auto
    have "find_loop p x = Some (q', r)" using less.prems False up r(1) by (subst find_loop.simps) simp
    moreover obtain s where s: "root_of p x s" using root_of_exists [of p rk x] less.prems by auto
    moreover have "root_of p ?y s" using s False by (auto elim!: root_ofE [of p x] root_ofE [of p "p ! x"] intro: root_self)
    then have "s = r" using root_of_unique [OF q(2) r(2)] by blast
    ultimately show ?thesis using q r by auto
  qed
qed

definition same_root :: "nat list \<Rightarrow> nat \<Rightarrow> nat \<Rightarrow> bool" where
  "same_root p i j \<longleftrightarrow> (\<exists>r. root_of p i r \<and> root_of p j r)"

lemma same_root_iff: "root_of p x u \<Longrightarrow> root_of p y v \<Longrightarrow> same_root p x y \<longleftrightarrow> u = v"
  unfolding same_root_def using root_of_unique by blast

text \<open>The equivalence closure of the pairs that were united.\<close>

definition linked :: "(nat \<times> nat) set \<Rightarrow> (nat \<times> nat) set" where
  "linked E = (E \<union> E\<inverse>)\<^sup>*"

definition represents :: "nat \<Rightarrow> UnionFind \<Rightarrow> (nat \<times> nat) set \<Rightarrow> bool" where
  "represents n uf E \<longleftrightarrow>
     uf_ok uf \<and> length (uf_parent uf) = n
     \<and> (\<forall>i < n. \<forall>j < n. same_root (uf_parent uf) i j \<longleftrightarrow> (i, j) \<in> linked E)"

lemma linked_refl [simp]: "(i, i) \<in> linked E"
  by (simp add: linked_def)

lemma linked_sym: "(i, j) \<in> linked E \<Longrightarrow> (j, i) \<in> linked E"
proof -
  have "sym (E \<union> E\<inverse>)" by (auto simp: sym_def)
  then have "sym (linked E)" unfolding linked_def by (rule sym_rtrancl)
  then show "(i, j) \<in> linked E \<Longrightarrow> (j, i) \<in> linked E" by (rule symD)
qed

lemma linked_trans: "(i, j) \<in> linked E \<Longrightarrow> (j, k) \<in> linked E \<Longrightarrow> (i, k) \<in> linked E"
  unfolding linked_def by (rule rtrancl_trans)

lemma linked_base: "(i, j) \<in> E \<Longrightarrow> (i, j) \<in> linked E"
  unfolding linked_def by blast

lemma linked_least:
  assumes "E \<subseteq> linked F"
  shows "linked E \<subseteq> linked F"
proof -
  have "E \<union> E\<inverse> \<subseteq> linked F" using assms linked_sym by blast
  then have "linked E \<subseteq> (linked F)\<^sup>*" unfolding linked_def [of E] by (rule rtrancl_mono)
  then show ?thesis by (simp add: linked_def)
qed

lemma linked_insert:
  "(i, j) \<in> linked (insert (a, b) E) \<longleftrightarrow>
     (i, j) \<in> linked E \<or> (i, a) \<in> linked E \<and> (b, j) \<in> linked E \<or> (i, b) \<in> linked E \<and> (a, j) \<in> linked E"
proof -
  have "insert (a, b) E \<union> (insert (a, b) E)\<inverse> = insert (a, b) (insert (b, a) (E \<union> E\<inverse>))" by auto
  then have "linked (insert (a, b) E) = (insert (a, b) (insert (b, a) (E \<union> E\<inverse>)))\<^sup>*" by (simp add: linked_def)
  then show ?thesis
    using linked_trans [of _ _ E] linked_refl [of _ E] by (auto simp: rtrancl_insert linked_def [symmetric])
qed

lemma represents_new: "represents n (uf_new n) {}"
proof -
  have "same_root [0..<n] i j \<longleftrightarrow> i = j" if "i < n" "j < n" for i j
  proof -
    have "root_of [0..<n] k k" if "k < n" for k using that by (intro root_self) simp
    with that root_of_unique show ?thesis unfolding same_root_def by metis
  qed
  then show ?thesis by (auto simp: represents_def uf_ok_def uf_new_def parent_ok_def linked_def)
qed

lemma uf_find_spec:
  assumes "represents n uf E" "x < n"
  shows "\<exists>uf' r. uf_find uf x = Some (uf', r) \<and> represents n uf' E \<and> r < n \<and> root_of (uf_parent uf') x r
    \<and> (\<forall>i < n. root_of (uf_parent uf') i = root_of (uf_parent uf) i)"
proof -
  have ok: "parent_ok (uf_parent uf) (uf_rank uf)" "length (uf_rank uf) = n" "length (uf_parent uf) = n"
    using assms by (auto simp: represents_def uf_ok_def)
  from find_loop_spec [of "uf_rank uf" "uf_parent uf" x] ok assms(2)
  obtain q r where q: "find_loop (uf_parent uf) x = Some (q, r)" "root_of (uf_parent uf) x r" "parent_ok q (uf_rank uf)"
    "length q = n" "\<And>i r. root_of (uf_parent uf) i r \<Longrightarrow> root_of q i r" by auto
  have same: "root_of q i s \<longleftrightarrow> root_of (uf_parent uf) i s" if "i < n" for i s
    using q(5) root_of_exists [OF ok(1), of i] ok that root_of_unique [of q i] by metis
  let ?uf = "uf\<lparr>uf_parent := q\<rparr>"
  have "uf_find uf x = Some (?uf, r)" by (simp add: uf_find_def q(1))
  moreover have "represents n ?uf E"
    using assms(1) same q(3,4) ok by (simp add: represents_def uf_ok_def same_root_def)
  moreover have "r < n" using root_of_less [OF q(2) ok(1)] ok assms(2) by simp
  ultimately show ?thesis using q(5) [OF q(2)] same by (auto simp: fun_eq_iff)
qed

lemma link_root:
  assumes "p ! a = a" "p ! b = b" "a \<noteq> b" "a < length p"
  shows "root_of p i r \<Longrightarrow> root_of (p[a := b]) i (if r = a then b else r)"
proof (induction rule: root_of.induct)
  case (root_self r)
  have "root_of (p[a := b]) b b" using assms by (intro root_of.root_self) simp
  then show ?case using assms root_self by (auto intro: root_of.root_self root_of.root_up [of "p[a := b]" a b])
next
  case (root_up i r)
  then have "i \<noteq> a" using assms(1) by auto
  then have "p[a := b] ! i = p ! i" by simp
  with root_up show ?case by (intro root_of.root_up [of "p[a := b]" i]) simp_all
qed

lemma represents_link:
  assumes rep: "represents n uf E" and ab: "a < n" "b < n"
    and roots: "root_of (uf_parent uf) a ra" "root_of (uf_parent uf) b rb" and ne: "ra \<noteq> rb"
    and uf': "uf_parent uf' = (uf_parent uf)[ra := rb]" "uf_ok uf'"
  shows "represents n uf' (insert (a, b) E)"
proof -
  let ?p = "uf_parent uf"
  have ok: "parent_ok ?p (uf_rank uf)" "length ?p = n" "length (uf_rank uf) = n"
    and E: "\<And>i j. i < n \<Longrightarrow> j < n \<Longrightarrow> same_root ?p i j \<longleftrightarrow> (i, j) \<in> linked E"
    using rep by (auto simp: represents_def uf_ok_def)
  have self: "?p ! ra = ra" "?p ! rb = rb" and less: "ra < n"
    using roots root_of_root root_of_less ok ab by auto
  have "same_root (uf_parent uf') i j \<longleftrightarrow> (i, j) \<in> linked (insert (a, b) E)" if ij: "i < n" "j < n" for i j
  proof -
    obtain r s where rs: "root_of ?p i r" "root_of ?p j s" using root_of_exists [OF ok(1)] ok ij by metis
    note same = same_root_iff [of ?p]
    have "root_of (uf_parent uf') i (if r = ra then rb else r)" "root_of (uf_parent uf') j (if s = ra then rb else s)"
      using link_root [of ?p ra rb] self ne less ok rs by (simp_all add: uf')
    then have "same_root (uf_parent uf') i j \<longleftrightarrow> (if r = ra then rb else r) = (if s = ra then rb else s)"
      by (rule same_root_iff)
    moreover have "(i, a) \<in> linked E \<longleftrightarrow> r = ra" "(b, j) \<in> linked E \<longleftrightarrow> s = rb" "(i, b) \<in> linked E \<longleftrightarrow> r = rb"
      "(a, j) \<in> linked E \<longleftrightarrow> s = ra" "(i, j) \<in> linked E \<longleftrightarrow> r = s"
      using E [symmetric] ij ab same rs roots by auto
    ultimately show ?thesis using ne by (auto simp: linked_insert)
  qed
  then show ?thesis using uf' ok by (simp add: represents_def)
qed

lemma uf_link_ok:
  assumes "uf_ok uf" "ra < length (uf_parent uf)" "rb < length (uf_parent uf)"
    "uf_parent uf ! ra = ra" "uf_parent uf ! rb = rb"
  shows "uf_ok (uf_link ra rb uf)"
proof -
  have ok: "parent_ok (uf_parent uf) (uf_rank uf)" "length (uf_rank uf) = length (uf_parent uf)"
    using assms by (auto simp: uf_ok_def)
  have link: "parent_ok ((uf_parent uf)[x := y]) rk"
    if "x < length (uf_parent uf)" "y < length (uf_parent uf)" "x \<noteq> y" "rk ! x < rk ! y"
      "\<And>i. i < length (uf_parent uf) \<Longrightarrow> uf_parent uf ! i \<noteq> i \<Longrightarrow> rk ! i < rk ! (uf_parent uf ! i)" for x y rk
    unfolding parent_ok_def
  proof (intro allI impI)
    fix i assume "i < length ((uf_parent uf)[x := y])"
    then show "(uf_parent uf)[x := y] ! i < length ((uf_parent uf)[x := y])
        \<and> ((uf_parent uf)[x := y] ! i \<noteq> i \<longrightarrow> rk ! i < rk ! ((uf_parent uf)[x := y] ! i))"
      using that parent_okD(1) [OF ok(1), of i] by (cases "i = x") auto
  qed
  have "parent_ok ((uf_parent uf)[rb := ra]) ((uf_rank uf)[ra := uf_rank uf ! ra + 1])"
    if "ra \<noteq> rb" "uf_rank uf ! ra = uf_rank uf ! rb"
  proof (rule link)
    fix i assume i: "i < length (uf_parent uf)" "uf_parent uf ! i \<noteq> i"
    then have "i \<noteq> ra" "uf_rank uf ! i < uf_rank uf ! (uf_parent uf ! i)"
      using assms(4) parent_okD(2) [OF ok(1)] by auto
    then show "(uf_rank uf)[ra := uf_rank uf ! ra + 1] ! i < (uf_rank uf)[ra := uf_rank uf ! ra + 1] ! (uf_parent uf ! i)"
      using ok(2) assms(2) by (cases "uf_parent uf ! i = ra") auto
  qed (use that assms ok in auto)
  with link [of ra rb "uf_rank uf"] link [of rb ra "uf_rank uf"] parent_okD(2) [OF ok(1)] assms ok
  show ?thesis by (auto simp: uf_link_def uf_ok_def)
qed

lemma linked_absorb: "(a, b) \<in> linked E \<Longrightarrow> linked (insert (a, b) E) = linked E"
  by (intro equalityI linked_least) (auto intro: linked_base)

lemma uf_union_spec:
  assumes "represents n uf E" "a < n" "b < n"
  obtains uf' where "uf_union uf a b = Some uf'" "represents n uf' (insert (a, b) E)"
proof -
  obtain uf1 ra where f1: "uf_find uf a = Some (uf1, ra)" "represents n uf1 E" "ra < n" "root_of (uf_parent uf1) a ra"
    using uf_find_spec [OF assms(1,2)] by blast
  obtain uf2 rb where f2: "uf_find uf1 b = Some (uf2, rb)" "represents n uf2 E" "rb < n" "root_of (uf_parent uf2) b rb"
    "\<forall>i < n. root_of (uf_parent uf2) i = root_of (uf_parent uf1) i"
    using uf_find_spec [OF f1(2) assms(3)] by blast
  have ra: "root_of (uf_parent uf2) a ra" using f1 f2(5) assms(2) by simp
  have self: "uf_parent uf2 ! ra = ra" "uf_parent uf2 ! rb = rb" using root_of_root ra f2(4) by blast+
  have ok: "uf_ok (uf_link ra rb uf2)"
    using f2(2,3) f1(3) self by (intro uf_link_ok) (auto simp: represents_def)
  have "represents n (uf_link ra rb uf2) (insert (a, b) E)"
  proof (cases "ra = rb")
    case True
    then have "(a, b) \<in> linked E" using f2(2,4) ra assms by (auto simp: represents_def same_root_def)
    with True f2(2) show ?thesis by (simp add: uf_link_def represents_def linked_absorb)
  next
    case False
    then have "uf_parent (uf_link ra rb uf2) = (uf_parent uf2)[ra := rb] \<or> uf_parent (uf_link ra rb uf2) = (uf_parent uf2)[rb := ra]"
      by (simp add: uf_link_def)
    then consider "uf_parent (uf_link ra rb uf2) = (uf_parent uf2)[ra := rb]"
      | "uf_parent (uf_link ra rb uf2) = (uf_parent uf2)[rb := ra]"
      by blast
    then show ?thesis
    proof cases
      case 1
      with represents_link [OF f2(2) assms(2,3) ra f2(4) False _ ok] show ?thesis by simp
    next
      case 2
      have "linked (insert (b, a) E) = linked (insert (a, b) E)" by (auto simp: linked_insert)
      with 2 represents_link [OF f2(2) assms(3,2) f2(4) ra False [symmetric] _ ok] show ?thesis
        by (simp add: represents_def)
    qed
  qed
  with f1(1) f2(1) that show thesis by (simp add: uf_union_def)
qed

lemma union_with_spec:
  "represents n uf E \<Longrightarrow> a < n \<Longrightarrow> set bs \<subseteq> {..<n} \<Longrightarrow>
     \<exists>uf'. union_with a bs uf = Some uf' \<and> represents n uf' (Pair a ` set bs \<union> E)"
proof (induction bs arbitrary: uf E)
  case (Cons b bs)
  obtain uf1 where "uf_union uf a b = Some uf1" "represents n uf1 (insert (a, b) E)"
    using uf_union_spec [OF Cons.prems(1,2), of b] Cons.prems(3) by auto
  with Cons.IH [of uf1 "insert (a, b) E"] Cons.prems(2,3) show ?case by (auto simp: Un_insert_right)
qed auto

lemma union_all_spec:
  assumes "represents n uf E" "set xs \<subseteq> {..<n}"
  shows "\<exists>uf'. union_all xs uf = Some uf' \<and> represents n uf' (set xs \<times> set xs \<union> E)"
proof (cases xs)
  case Nil
  with assms show ?thesis by auto
next
  case (Cons a bs)
  then obtain uf' where uf': "union_all xs uf = Some uf'" "represents n uf' (Pair a ` set bs \<union> E)"
    using union_with_spec [OF assms(1), of a bs] assms(2) by auto
  have hd: "(a, x) \<in> linked (Pair a ` set bs \<union> E)" if "x \<in> set xs" for x
    using that Cons by (auto intro: linked_base)
  have "linked (set xs \<times> set xs \<union> E) = linked (Pair a ` set bs \<union> E)"
  proof
    show "linked (set xs \<times> set xs \<union> E) \<subseteq> linked (Pair a ` set bs \<union> E)"
    proof (intro linked_least subsetI)
      fix e assume "e \<in> set xs \<times> set xs \<union> E"
      then show "e \<in> linked (Pair a ` set bs \<union> E)"
      proof
        assume "e \<in> set xs \<times> set xs"
        then obtain x y where "e = (x, y)" "x \<in> set xs" "y \<in> set xs" by blast
        with hd show ?thesis by (auto intro: linked_trans [OF linked_sym [OF hd] hd])
      qed (cases e, simp add: linked_base)
    qed
    show "linked (Pair a ` set bs \<union> E) \<subseteq> linked (set xs \<times> set xs \<union> E)"
      using Cons by (intro linked_least) (auto intro: linked_base)
  qed
  with uf' show ?thesis by (auto simp: represents_def)
qed

end
