(* ===== verification/DecomposeLaws.thy ===== *)
theory DecomposeLaws
  imports UnionFindLaws "HOL-Library.Multiset"
begin

text \<open>
  The decomposition computes the connected components: the sub-problems are
  the groups of connected constraints in the order of their first members.
\<close>

section \<open>Reference decomposition\<close>

definition constraint_infos :: "AutoParam list \<Rightarrow> DependentCellReads \<Rightarrow> Constraints \<Rightarrow> ConstraintInfo list" where
  "constraint_infos auto_params reads cs =
     filter (\<lambda>info. referenced_params info \<noteq> [])
       (map (\<lambda>(ci, cid, expr). constraint_info (param_index auto_params) reads ci expr) (enumerate 0 cs))"

definition coupling :: "ConstraintInfo list \<Rightarrow> (nat \<times> nat) set" where
  "coupling infos = (\<Union>info \<in> set infos. set (referenced_params info) \<times> set (referenced_params info))"

definition info_key :: "ConstraintInfo \<Rightarrow> nat" where
  "info_key info = hd (referenced_params info)"

definition routing_domain ::
  "(nat \<Rightarrow> ConstraintDomain option) \<Rightarrow> ConstraintInfo list \<Rightarrow> nat list \<Rightarrow> ConstraintDomain" where
  "routing_domain probe infos objective_only =
     (let widen = (\<lambda>ixs d. fold (\<lambda>e d. widen_domain d e) (List.map_filter probe ixs) d);
        verdicts = map (\<lambda>info. widen (reached_params info) (classified info)) infos
      in widen objective_only (if \<forall>d \<in> set verdicts. d = hd verdicts then hd verdicts else CrossDomain))"

text \<open>The sub-problem of the parameters that satisfy \<open>inside\<close>.\<close>

definition sub_problem ::
  "AutoParam list \<Rightarrow> Constraints \<Rightarrow> ConstraintInfo list \<Rightarrow> (nat \<Rightarrow> bool) \<Rightarrow> SubProblem" where
  "sub_problem auto_params cs infos inside =
     (let own = filter (\<lambda>info. inside (info_key info)) infos;
        sub_constraints = map (\<lambda>info. cs ! constraint_idx info) own;
        params = filter inside [0..<length auto_params];
        objective_only = filter (\<lambda>ix. \<not> (\<exists>info \<in> set infos. ix \<in> set (referenced_params info))) params
      in \<lparr>sp_auto_params = map (\<lambda>ix. ap_id (auto_params ! ix)) params, sp_constraints = sub_constraints,
          sp_domain = routing_domain (\<lambda>ix. domain_of_auto (auto_params ! ix) sub_constraints) own objective_only\<rparr>)"

text \<open>The keys with no related key before them.\<close>

definition first_keys :: "(nat \<times> nat) set \<Rightarrow> nat list \<Rightarrow> nat list" where
  "first_keys R ks = map ((!) ks) (filter (\<lambda>i. \<forall>j < i. (ks ! j, ks ! i) \<notin> R) [0..<length ks])"

section \<open>Grouping\<close>

definition rooted :: "nat \<Rightarrow> UnionFind \<Rightarrow> (nat \<Rightarrow> nat) \<Rightarrow> (nat \<times> nat) set \<Rightarrow> bool" where
  "rooted n uf rt E \<longleftrightarrow> represents n uf E \<and> (\<forall>i < n. root_of (uf_parent uf) i (rt i))"

lemma rooted_exists:
  assumes "represents n uf E"
  shows "\<exists>rt. rooted n uf rt E"
proof -
  have "\<forall>i < n. \<exists>r. root_of (uf_parent uf) i r"
    using assms root_of_exists by (auto simp: represents_def uf_ok_def)
  then have "\<exists>rt. \<forall>i < n. root_of (uf_parent uf) i (rt i)" by metis
  with assms show ?thesis by (auto simp: rooted_def)
qed

lemma rooted_less: "rooted n uf rt E \<Longrightarrow> i < n \<Longrightarrow> rt i < n"
  using root_of_less by (fastforce simp: rooted_def represents_def uf_ok_def)

lemma rooted_eq: "rooted n uf rt E \<Longrightarrow> i < n \<Longrightarrow> j < n \<Longrightarrow> rt i = rt j \<longleftrightarrow> (i, j) \<in> linked E"
  using same_root_iff [of "uf_parent uf" i "rt i" j "rt j"] by (auto simp: rooted_def represents_def)

lemma rooted_find:
  assumes "rooted n uf rt E" "x < n"
  shows "\<exists>uf'. uf_find uf x = Some (uf', rt x) \<and> rooted n uf' rt E"
proof -
  obtain uf' r where uf': "uf_find uf x = Some (uf', r)" "represents n uf' E" "root_of (uf_parent uf') x r"
    "\<forall>i < n. root_of (uf_parent uf') i = root_of (uf_parent uf) i"
    using uf_find_spec assms unfolding rooted_def by blast
  moreover have "r = rt x" using uf' assms root_of_unique by (auto simp: rooted_def)
  ultimately show ?thesis using assms by (auto simp: rooted_def)
qed

lemma collect_infos_spec:
  assumes "\<And>ci expr. set (referenced_params (f ci expr)) \<subseteq> {..<n}"
  shows "represents n uf E \<Longrightarrow>
    \<exists>uf'. collect_infos f ci cs uf
        = Some (uf', filter (\<lambda>info. referenced_params info \<noteq> []) (map (\<lambda>(ci, cid, expr). f ci expr) (enumerate ci cs)))
      \<and> represents n uf' (coupling (filter (\<lambda>info. referenced_params info \<noteq> [])
            (map (\<lambda>(ci, cid, expr). f ci expr) (enumerate ci cs))) \<union> E)"
proof (induction cs arbitrary: ci uf E)
  case Nil
  then show ?case by (simp add: coupling_def)
next
  case (Cons c cs)
  obtain cid expr where c: "c = (cid, expr)" by (cases c)
  show ?case
  proof (cases "referenced_params (f ci expr) = []")
    case True
    with Cons.IH [OF Cons.prems, of "Suc ci"] show ?thesis by (simp add: c)
  next
    case False
    let ?xs = "referenced_params (f ci expr)"
    obtain uf1 where uf1: "union_all ?xs uf = Some uf1" "represents n uf1 (set ?xs \<times> set ?xs \<union> E)"
      using union_all_spec [OF Cons.prems assms] by blast
    from Cons.IH [OF this(2), of "Suc ci"] uf1(1) False show ?thesis
      by (auto simp: c coupling_def Un_assoc Un_left_commute)
  qed
qed

definition firsts :: "nat list \<Rightarrow> nat list" where
  "firsts ks = rev (remdups (rev ks))"

definition positions :: "nat list \<Rightarrow> nat \<Rightarrow> nat list" where
  "positions ks k = filter (\<lambda>i. ks ! i = k) [0..<length ks]"

definition groups :: "nat list \<Rightarrow> (nat \<times> nat list) list" where
  "groups ks = map (\<lambda>k. (k, positions ks k)) (firsts ks)"

lemma firsts_simps [simp]:
  "firsts [] = []" "firsts (ks @ [k]) = (if k \<in> set ks then firsts ks else firsts ks @ [k])"
  "set (firsts ks) = set ks" "distinct (firsts ks)"
  by (simp_all add: firsts_def)

lemma positions_snoc: "positions (ks @ [k]) r = positions ks r @ (if k = r then [length ks] else [])"
proof -
  have "filter (\<lambda>i. (ks @ [k]) ! i = r) [0..<length ks] = positions ks r"
    unfolding positions_def by (intro filter_cong) (auto simp: nth_append)
  then show ?thesis by (simp add: positions_def)
qed

lemma groups_old:
  assumes "s < length (firsts ks)" "firsts ks ! s = k"
  shows "groups (ks @ [k]) = (groups ks)[s := (fst (groups ks ! s), snd (groups ks ! s) @ [length ks])]"
proof (rule nth_equalityI)
  have k: "k \<in> set ks" using assms nth_mem [of s "firsts ks"] by simp
  then show "length (groups (ks @ [k])) = length ((groups ks)[s := (fst (groups ks ! s), snd (groups ks ! s) @ [length ks])])"
    by (simp add: groups_def)
  fix i assume "i < length (groups (ks @ [k]))"
  then have i: "i < length (firsts ks)" using k by (simp add: groups_def)
  then have "firsts ks ! i = k \<longleftrightarrow> i = s" using assms nth_eq_iff_index_eq [of "firsts ks" i s] by auto
  with i k assms show "groups (ks @ [k]) ! i
      = (groups ks)[s := (fst (groups ks ! s), snd (groups ks ! s) @ [length ks])] ! i"
    by (cases "i = s") (auto simp: groups_def positions_snoc)
qed

lemma positions_none: "k \<notin> set ks \<Longrightarrow> positions ks k = []"
  by (auto simp: positions_def filter_empty_conv)

lemma groups_new: "k \<notin> set ks \<Longrightarrow> groups (ks @ [k]) = groups ks @ [(k, [length ks])]"
  by (auto simp: groups_def positions_snoc positions_none)

definition slots_ok :: "nat \<Rightarrow> nat list \<Rightarrow> nat option list \<Rightarrow> bool" where
  "slots_ok n ks slot_of \<longleftrightarrow>
     length slot_of = n \<and> (\<forall>k < n. case slot_of ! k of
       None \<Rightarrow> k \<notin> set ks | Some s \<Rightarrow> s < length (firsts ks) \<and> firsts ks ! s = k)"

lemma slots_new: "slots_ok n ks slot_of \<Longrightarrow> k < n \<Longrightarrow> k \<notin> set ks \<Longrightarrow>
    slots_ok n (ks @ [k]) (slot_of[k := Some (length (firsts ks))])"
  by (auto simp: slots_ok_def nth_list_update nth_append split: option.splits)

lemma slots_old: "slots_ok n ks slot_of \<Longrightarrow> k \<in> set ks \<Longrightarrow> slots_ok n (ks @ [k]) slot_of"
  by (auto simp: slots_ok_def split: option.splits)

lemma group_infos_spec:
  "rooted n uf rt E \<Longrightarrow> slots_ok n ks slot_of \<Longrightarrow>
     \<forall>info \<in> set infos. referenced_params info \<noteq> [] \<and> info_key info < n \<Longrightarrow>
     \<exists>uf'. group_infos (length ks) infos uf slot_of (groups ks)
       = Some (uf', groups (ks @ map (\<lambda>info. rt (info_key info)) infos)) \<and> rooted n uf' rt E"
proof (induction infos arbitrary: uf slot_of ks)
  case (Cons info infos)
  let ?k = "rt (info_key info)"
  obtain p ps where p: "referenced_params info = p # ps" "info_key info = p" "p < n"
    using Cons.prems(3) by (cases "referenced_params info") (auto simp: info_key_def)
  obtain uf1 where uf1: "uf_find uf p = Some (uf1, rt p)" "rooted n uf1 rt E"
    using rooted_find [OF Cons.prems(1) p(3)] by blast
  have k: "rt p < n" using rooted_less Cons.prems(1) p(3) by blast
  show ?case
  proof (cases "slot_of ! rt p")
    case None
    then have new: "rt p \<notin> set ks" using Cons.prems(2) k by (auto simp: slots_ok_def)
    note IH = Cons.IH [OF uf1(2) slots_new [OF Cons.prems(2) k new]]
    have "length (groups ks) = length (firsts ks)" by (simp add: groups_def)
    with IH Cons.prems(3) show ?thesis by (simp add: p(1,2) uf1(1) None groups_new [OF new])
  next
    case (Some s)
    then have s: "s < length (firsts ks)" "firsts ks ! s = rt p" using Cons.prems(2) k by (auto simp: slots_ok_def)
    then have "rt p \<in> set ks" using nth_mem [of s "firsts ks"] by simp
    from Cons.IH [OF uf1(2) slots_old [OF Cons.prems(2) this]] Cons.prems(3)
    show ?thesis by (simp add: p(1,2) uf1(1) Some groups_old [OF s])
  qed
qed simp

lemma component_params_spec:
  "rooted n uf rt E \<Longrightarrow> set ixs \<subseteq> {..<n} \<Longrightarrow>
     \<exists>uf'. component_params r read_by ixs uf
       = Some (uf', filter (\<lambda>i. rt i = r) ixs, filter (\<lambda>i. \<not> read_by ! i) (filter (\<lambda>i. rt i = r) ixs))
       \<and> rooted n uf' rt E"
proof (induction ixs arbitrary: uf)
  case (Cons ix ixs)
  obtain uf1 where uf1: "uf_find uf ix = Some (uf1, rt ix)" "rooted n uf1 rt E"
    using rooted_find [OF Cons.prems(1)] Cons.prems(2) by auto
  with Cons.IH [OF uf1(2)] Cons.prems(2) show ?case by auto
qed simp

lemma mark_read_spec:
  "i < n \<Longrightarrow> mark_read infos n ! i \<longleftrightarrow> (\<exists>info \<in> set infos. i \<in> set (referenced_params info))"
proof -
  have "length (fold (\<lambda>ix marks. marks[ix := True]) xs v) = length v
      \<and> (i < length v \<longrightarrow> fold (\<lambda>ix marks. marks[ix := True]) xs v ! i = (v ! i \<or> i \<in> set xs))" for xs v
  proof (induction xs arbitrary: v)
    case (Cons x xs)
    then show ?case by (cases "i = x") auto
  qed simp
  from this [of "concat (map referenced_params infos)" "replicate n False"]
  show "i < n \<Longrightarrow> mark_read infos n ! i \<longleftrightarrow> (\<exists>info \<in> set infos. i \<in> set (referenced_params info))"
    by (simp add: mark_read_def)
qed


section \<open>Domains\<close>

declare widen_domain.simps [simp del]

text \<open>The memo: an entry that is filled holds the probe of its own component.\<close>

definition cache_ok :: "(nat \<Rightarrow> ConstraintDomain option) \<Rightarrow> nat set \<Rightarrow> domain_memo \<Rightarrow> domain_memo \<Rightarrow> bool" where
  "cache_ok probe S cache0 cache \<longleftrightarrow>
     length cache = length cache0 \<and> S \<subseteq> {..<length cache}
     \<and> (\<forall>i \<in> S. cache ! i = None \<or> cache ! i = Some (probe i))
     \<and> (\<forall>i < length cache. i \<notin> S \<longrightarrow> cache ! i = cache0 ! i)"

abbreviation widen_ref :: "(nat \<Rightarrow> ConstraintDomain option) \<Rightarrow> nat list \<Rightarrow> ConstraintDomain \<Rightarrow> ConstraintDomain" where
  "widen_ref probe ixs \<equiv> fold (\<lambda>e d. widen_domain d e) (List.map_filter probe ixs)"

lemma own_domain_spec:
  assumes "cache_ok probe S cache0 cache" "i \<in> S"
  shows "\<exists>cache'. own_domain probe i cache = (probe i, cache') \<and> cache_ok probe S cache0 cache'"
proof (cases "cache ! i")
  case None
  have "i < length cache" using assms by (auto simp: cache_ok_def)
  then have "cache_ok probe S cache0 (cache[i := Some (probe i)])"
    using assms by (auto simp: cache_ok_def nth_list_update)
  with None show ?thesis by (simp add: own_domain_def)
qed (use assms in \<open>auto simp: own_domain_def cache_ok_def\<close>)

lemma widen_all_spec:
  "cache_ok probe S cache0 cache \<Longrightarrow> set ixs \<subseteq> S \<Longrightarrow>
     \<exists>cache'. widen_all probe ixs (d, cache) = (widen_ref probe ixs d, cache') \<and> cache_ok probe S cache0 cache'"
proof (induction ixs arbitrary: d cache)
  case (Cons ix ixs)
  obtain cache1 where c1: "own_domain probe ix cache = (probe ix, cache1)" "cache_ok probe S cache0 cache1"
    using own_domain_spec [OF Cons.prems(1)] Cons.prems(2) by auto
  show ?case
  proof (cases "probe ix")
    case None
    with Cons.IH [OF c1(2), of d] c1(1) Cons.prems(2) show ?thesis by (simp add: map_filter_simps)
  next
    case (Some e)
    with Cons.IH [OF c1(2), of "widen_domain d e"] c1(1) Cons.prems(2) show ?thesis
      by (simp add: map_filter_simps)
  qed
qed (simp add: map_filter_simps)

lemma info_domains_spec:
  "cache_ok probe S cache0 cache \<Longrightarrow> (\<Union>info \<in> set infos. set (reached_params info)) \<subseteq> S \<Longrightarrow>
     \<exists>cache'. info_domains probe infos cache
         = (map (\<lambda>info. widen_ref probe (reached_params info) (classified info)) infos, cache')
       \<and> cache_ok probe S cache0 cache'"
proof (induction infos arbitrary: cache)
  case (Cons info infos)
  obtain cache1 where c1: "widen_all probe (reached_params info) (classified info, cache)
      = (widen_ref probe (reached_params info) (classified info), cache1)" "cache_ok probe S cache0 cache1"
    using widen_all_spec [OF Cons.prems(1), of "reached_params info" "classified info"] Cons.prems(2) by auto
  with Cons.IH [OF c1(2)] Cons.prems(2) show ?case by auto
qed simp

lemma component_domain_spec:
  assumes "cache_ok probe S cache0 cache" "(\<Union>info \<in> set infos. set (reached_params info)) \<subseteq> S"
    "set objective_only \<subseteq> S" "infos \<noteq> []"
  shows "\<exists>cache'. component_domain probe infos objective_only cache
      = Some (routing_domain probe infos objective_only, cache') \<and> cache_ok probe S cache0 cache'"
proof -
  let ?ds = "map (\<lambda>info. widen_ref probe (reached_params info) (classified info)) infos"
  obtain cache1 where c1: "info_domains probe infos cache = (?ds, cache1)" "cache_ok probe S cache0 cache1"
    using info_domains_spec [OF assms(1,2)] by blast
  obtain d ds where ds: "?ds = d # ds" using assms(4) by (cases ?ds) auto
  let ?base = "if list_all (\<lambda>e. e = d) (d # ds) then d else CrossDomain"
  obtain cache2 where "widen_all probe objective_only (?base, cache1) = (widen_ref probe objective_only ?base, cache2)"
    "cache_ok probe S cache0 cache2"
    using widen_all_spec [OF c1(2) assms(3), of ?base] by blast
  moreover have "routing_domain probe infos objective_only = widen_ref probe objective_only ?base"
    unfolding routing_domain_def Let_def ds by (simp only: list_all_iff list.sel)
  ultimately show ?thesis by (simp add: component_domain_def c1(1) ds)
qed


section \<open>The sub-problems\<close>

lemma map_nth_filter: "map ((!) xs) (filter (\<lambda>i. P (xs ! i)) [0..<length xs]) = filter P xs"
proof -
  have "filter P xs = filter P (map ((!) xs) [0..<length xs])" by (simp add: map_nth)
  also have "\<dots> = map ((!) xs) (filter (\<lambda>i. P (xs ! i)) [0..<length xs])" by (simp add: filter_map comp_def)
  finally show ?thesis by (rule sym)
qed

lemma positions_infos:
  "map ((!) infos) (positions (map f infos) r) = filter (\<lambda>info. f info = r) infos"
proof -
  have "positions (map f infos) r = filter (\<lambda>i. f (infos ! i) = r) [0..<length infos]"
    unfolding positions_def by (intro filter_cong) auto
  then show ?thesis using map_nth_filter [of infos "\<lambda>info. f info = r"] by simp
qed

definition infos_ok :: "nat \<Rightarrow> (nat \<Rightarrow> nat) \<Rightarrow> ConstraintInfo list \<Rightarrow> bool" where
  "infos_ok n rt infos \<longleftrightarrow>
     (\<forall>info \<in> set infos. referenced_params info \<noteq> [] \<and> set (reached_params info) \<subseteq> set (referenced_params info)
        \<and> (\<forall>i \<in> set (referenced_params info). i < n \<and> rt i = rt (info_key info)))"

lemma infos_okD:
  assumes "infos_ok n rt infos" "info \<in> set infos"
  shows "info_key info < n" "i \<in> set (reached_params info) \<Longrightarrow> i < n \<and> rt i = rt (info_key info)"
proof -
  have ok: "referenced_params info \<noteq> []" "set (reached_params info) \<subseteq> set (referenced_params info)"
    "\<And>i. i \<in> set (referenced_params info) \<Longrightarrow> i < n \<and> rt i = rt (info_key info)"
    using assms unfolding infos_ok_def by blast+
  then show "info_key info < n" using hd_in_set unfolding info_key_def by blast
  show "i \<in> set (reached_params info) \<Longrightarrow> i < n \<and> rt i = rt (info_key info)" using ok by blast
qed

lemma build_subproblems_spec:
  assumes marks: "\<And>i. i < n \<Longrightarrow> marks ! i \<longleftrightarrow> (\<exists>info \<in> set infos. i \<in> set (referenced_params info))"
    and infos: "infos_ok n rt infos" and n: "n = length auto_params"
  shows "rooted n uf rt E \<Longrightarrow> distinct rs \<Longrightarrow> set rs \<subseteq> (\<lambda>info. rt (info_key info)) ` set infos \<Longrightarrow> length cache = n \<Longrightarrow>
     \<forall>i < n. rt i \<in> set rs \<longrightarrow> cache ! i = None \<Longrightarrow>
     build_subproblems auto_params cs infos marks
         (map (\<lambda>r. (r, positions (map (\<lambda>info. rt (info_key info)) infos) r)) rs) uf cache
       = Some (map (\<lambda>r. sub_problem auto_params cs infos (\<lambda>i. rt i = r)) rs)"
proof (induction rs arbitrary: uf cache)
  case (Cons r rs)
  let ?own = "filter (\<lambda>info. rt (info_key info) = r) infos"
  let ?cs = "map (\<lambda>info. cs ! constraint_idx info) ?own"
  let ?probe = "\<lambda>ix. domain_of_auto (auto_params ! ix) ?cs"
  let ?params = "filter (\<lambda>i. rt i = r) [0..<n]"
  let ?only = "filter (\<lambda>i. \<not> marks ! i) ?params"
  have "set [0..<n] \<subseteq> {..<n}" by auto
  then obtain uf1 where uf1: "component_params r marks [0..<n] uf = Some (uf1, ?params, ?only)" "rooted n uf1 rt E"
    using component_params_spec [OF Cons.prems(1)] by blast
  have start: "cache_ok ?probe {i. i < n \<and> rt i = r} cache cache" using Cons.prems(4,5) by (auto simp: cache_ok_def)
  have inside: "(\<Union>info \<in> set ?own. set (reached_params info)) \<subseteq> {i. i < n \<and> rt i = r}"
  proof
    fix i assume "i \<in> (\<Union>info \<in> set ?own. set (reached_params info))"
    then obtain info where "info \<in> set infos" "rt (info_key info) = r" "i \<in> set (reached_params info)" by auto
    then show "i \<in> {i. i < n \<and> rt i = r}" using infos_okD(2) [OF infos] by auto
  qed
  have within: "set ?only \<subseteq> {i. i < n \<and> rt i = r}" by auto
  have "?own \<noteq> []" using Cons.prems(3) by (auto simp: filter_empty_conv)
  then obtain cache1 where
    c1: "component_domain ?probe ?own ?only cache = Some (routing_domain ?probe ?own ?only, cache1)"
      "cache_ok ?probe {i. i < n \<and> rt i = r} cache cache1"
    using component_domain_spec [OF start inside within] by blast
  have "\<forall>i < n. rt i \<in> set rs \<longrightarrow> cache1 ! i = None"
    using c1(2) Cons.prems(2,4,5) by (auto simp: cache_ok_def)
  moreover have "length cache1 = n" using c1(2) Cons.prems(4) by (simp add: cache_ok_def)
  ultimately have rest: "build_subproblems auto_params cs infos marks
      (map (\<lambda>r. (r, positions (map (\<lambda>info. rt (info_key info)) infos) r)) rs) uf1 cache1
      = Some (map (\<lambda>r. sub_problem auto_params cs infos (\<lambda>i. rt i = r)) rs)"
    using Cons.IH [OF uf1(2)] Cons.prems(2,3) by simp
  have only: "?only = filter (\<lambda>ix. \<not> (\<exists>info \<in> set infos. ix \<in> set (referenced_params info))) ?params"
    using marks by (auto intro: filter_cong)
  have own: "map (\<lambda>i. infos ! i) (positions (map (\<lambda>info. rt (info_key info)) infos) r) = ?own"
    by (rule positions_infos)
  show ?case
    unfolding list.map build_subproblems.simps own Let_def n [symmetric] uf1(1) bind.simps case_prod_conv c1(1) rest
    by (simp only: sub_problem_def Let_def only [unfolded n] n)
qed simp

lemma first_keys_snoc:
  "first_keys R (ks @ [k]) = first_keys R ks @ (if \<forall>j \<in> set ks. (j, k) \<notin> R then [k] else [])"
proof -
  have "filter (\<lambda>i. \<forall>j < i. ((ks @ [k]) ! j, (ks @ [k]) ! i) \<notin> R) [0..<length ks]
      = filter (\<lambda>i. \<forall>j < i. (ks ! j, ks ! i) \<notin> R) [0..<length ks]"
    by (intro filter_cong) (auto simp: nth_append)
  moreover have "map ((!) (ks @ [k])) (filter P [0..<length ks]) = map ((!) ks) (filter P [0..<length ks])" for P
    by (auto simp: nth_append)
  ultimately show ?thesis by (simp add: first_keys_def nth_append all_set_conv_all_nth)
qed

lemma firsts_first_keys:
  assumes "\<And>i j. i \<in> set ks \<Longrightarrow> j \<in> set ks \<Longrightarrow> rt i = rt j \<longleftrightarrow> (i, j) \<in> R"
  shows "firsts (map rt ks) = map rt (first_keys R ks)"
  using assms
proof (induction ks rule: rev_induct)
  case (snoc k ks)
  have "(j, k) \<in> R \<longleftrightarrow> rt k = rt j" if "j \<in> set ks" for j using snoc.prems [of j k] that by auto
  then have "rt k \<in> rt ` set ks \<longleftrightarrow> \<not> (\<forall>j \<in> set ks. (j, k) \<notin> R)" by blast
  moreover have "firsts (map rt ks) = map rt (first_keys R ks)" by (rule snoc.IH) (simp add: snoc.prems)
  ultimately show ?case by (simp add: first_keys_snoc)
qed (simp add: first_keys_def)

lemma sub_problem_cong:
  assumes "\<And>i. i < length auto_params \<Longrightarrow> P i \<longleftrightarrow> Q i" "\<forall>info \<in> set infos. info_key info < length auto_params"
  shows "sub_problem auto_params cs infos P = sub_problem auto_params cs infos Q"
proof -
  have "filter (\<lambda>info. P (info_key info)) infos = filter (\<lambda>info. Q (info_key info)) infos"
    "filter P [0..<length auto_params] = filter Q [0..<length auto_params]"
    using assms by (auto intro: filter_cong)
  then show ?thesis by (simp only: sub_problem_def)
qed

lemma set_sorted_dedup [simp]: "set (sorted_dedup xs) = set xs"
  by (simp add: sorted_dedup_def)

lemma fold_param_index:
  "hm_get (fold (\<lambda>(i, ap). hm_insert (ap_id ap) i) (enumerate k ps) m) c = Some i \<Longrightarrow>
     hm_get m c = Some i \<or> k \<le> i \<and> i < k + length ps \<and> ap_id (ps ! (i - k)) = c"
proof (induction ps arbitrary: k m)
  case (Cons p ps)
  have "enumerate k (p # ps) = (k, p) # enumerate (Suc k) ps" by simp
  with Cons.prems Cons.IH [of "Suc k" "hm_insert (ap_id p) k m"] show ?case
    by (auto simp: hm_simps nth_Cons' Suc_diff_le split: if_splits)
qed simp

lemma param_indexD: "hm_get (param_index ps) c = Some i \<Longrightarrow> i < length ps \<and> ap_id (ps ! i) = c"
  using fold_param_index [of 0 ps "[]" c i] by (simp add: param_index_def)


section \<open>The decomposition\<close>

lemma set_map_filter: "set (List.map_filter f xs) = {y. \<exists>x \<in> set xs. f x = Some y}"
  by (induction xs) (auto simp: map_filter_simps split: option.split)

lemma constraint_info_indices:
  "set (referenced_params (constraint_info (param_index ps) reads ci expr)) \<subseteq> {..<length ps}"
  "set (reached_params (constraint_info (param_index ps) reads ci expr))
     \<subseteq> set (referenced_params (constraint_info (param_index ps) reads ci expr))"
  using param_indexD [of ps] by (auto simp: constraint_info_def Let_def set_map_filter)

definition objective_pairs :: "AutoParam list \<Rightarrow> ValueCellId hash_set option \<Rightarrow> (nat \<times> nat) set" where
  "objective_pairs auto_params objective =
     (case objective of
        None \<Rightarrow> {}
      | Some refs \<Rightarrow> (let ixs = set (List.map_filter (hm_get (param_index auto_params)) refs) in ixs \<times> ixs))"

definition coupled ::
  "AutoParam list \<Rightarrow> Constraints \<Rightarrow> ValueCellId hash_set option \<Rightarrow> DependentCellReads \<Rightarrow> (nat \<times> nat) set" where
  "coupled auto_params cs objective reads =
     linked (coupling (constraint_infos auto_params reads cs) \<union> objective_pairs auto_params objective)"

lemma unions_spec:
  "\<exists>uf1 uf2. collect_infos (constraint_info (param_index ps) reads) 0 cs (uf_new (length ps))
       = Some (uf1, constraint_infos ps reads cs)
     \<and> (case objective of Some refs \<Rightarrow> union_all (List.map_filter (hm_get (param_index ps)) refs) uf1 | None \<Rightarrow> Some uf1)
       = Some uf2
     \<and> represents (length ps) uf2 (coupling (constraint_infos ps reads cs) \<union> objective_pairs ps objective)"
proof -
  obtain uf1 where uf1: "collect_infos (constraint_info (param_index ps) reads) 0 cs (uf_new (length ps))
      = Some (uf1, constraint_infos ps reads cs)" "represents (length ps) uf1 (coupling (constraint_infos ps reads cs))"
    using collect_infos_spec [where f = "constraint_info (param_index ps) reads" and ci = 0 and cs = cs,
        OF constraint_info_indices(1) represents_new]
    by (auto simp: constraint_infos_def)
  show ?thesis
  proof (cases objective)
    case None
    with uf1 show ?thesis by (simp add: objective_pairs_def)
  next
    case (Some refs)
    have "set (List.map_filter (hm_get (param_index ps)) refs) \<subseteq> {..<length ps}"
      using param_indexD by (auto simp: set_map_filter)
    from union_all_spec [OF uf1(2) this] uf1(1) Some show ?thesis
      by (auto simp: objective_pairs_def Let_def Un_commute)
  qed
qed

lemma constraint_infos_ok:
  assumes "rooted (length ps) uf rt E" "coupling (constraint_infos ps reads cs) \<subseteq> E"
  shows "infos_ok (length ps) rt (constraint_infos ps reads cs)"
  unfolding infos_ok_def
proof (intro ballI conjI)
  fix info assume info: "info \<in> set (constraint_infos ps reads cs)"
  then obtain ci expr where ci: "info = constraint_info (param_index ps) reads ci expr" "referenced_params info \<noteq> []"
    by (auto simp: constraint_infos_def)
  show "referenced_params info \<noteq> []" "set (reached_params info) \<subseteq> set (referenced_params info)"
    using ci constraint_info_indices by auto
  fix i assume i: "i \<in> set (referenced_params info)"
  show less: "i < length ps" using i ci(1) constraint_info_indices(1) by blast
  have key: "info_key info \<in> set (referenced_params info)" using ci(2) by (simp add: info_key_def)
  then have "info_key info < length ps" using ci(1) constraint_info_indices(1) by blast
  moreover have "(i, info_key info) \<in> linked E" using assms(2) info i key by (auto simp: coupling_def intro: linked_base)
  ultimately show "rt i = rt (info_key info)" using rooted_eq [OF assms(1) less] by simp
qed

lemma decompose_reference:
  "decompose_with_reads auto_params cs objective reads =
     Some (map (\<lambda>k. sub_problem auto_params cs (constraint_infos auto_params reads cs)
             (\<lambda>i. (i, k) \<in> coupled auto_params cs objective reads))
       (first_keys (coupled auto_params cs objective reads) (map info_key (constraint_infos auto_params reads cs))))"
proof -
  let ?n = "length auto_params"
  let ?infos = "constraint_infos auto_params reads cs"
  let ?E = "coupling ?infos \<union> objective_pairs auto_params objective"
  obtain uf1 uf2 where
    u1: "collect_infos (constraint_info (param_index auto_params) reads) 0 cs (uf_new ?n) = Some (uf1, ?infos)"
    and u2: "(case objective of Some refs \<Rightarrow> union_all (List.map_filter (hm_get (param_index auto_params)) refs) uf1
        | None \<Rightarrow> Some uf1) = Some uf2"
    and rep: "represents ?n uf2 ?E"
    using unions_spec by blast
  obtain rt where rt: "rooted ?n uf2 rt ?E" using rooted_exists [OF rep] by blast
  have ok: "infos_ok ?n rt ?infos" using constraint_infos_ok [OF rt] by blast
  then have keys: "\<forall>info \<in> set ?infos. referenced_params info \<noteq> [] \<and> info_key info < ?n"
    using infos_okD(1) by (auto simp: infos_ok_def)
  have "slots_ok ?n [] (replicate ?n None)" by (simp add: slots_ok_def)
  from group_infos_spec [OF rt this keys] obtain uf3 where
    g: "group_infos 0 ?infos uf2 (replicate ?n None) [] = Some (uf3, groups (map (\<lambda>info. rt (info_key info)) ?infos))"
      "rooted ?n uf3 rt ?E"
    by (auto simp: groups_def)
  let ?ks = "map info_key ?infos"
  have eq: "rt i = rt j \<longleftrightarrow> (i, j) \<in> linked ?E" if "i < ?n" "j < ?n" for i j using rooted_eq [OF rt that] .
  have firsts: "firsts (map (\<lambda>info. rt (info_key info)) ?infos) = map rt (first_keys (linked ?E) ?ks)"
    using firsts_first_keys [of ?ks rt "linked ?E"] eq keys by (auto simp: comp_def)
  have build: "build_subproblems auto_params cs ?infos (mark_read ?infos ?n)
      (groups (map (\<lambda>info. rt (info_key info)) ?infos)) uf3 (replicate ?n None)
    = Some (map (\<lambda>r. sub_problem auto_params cs ?infos (\<lambda>i. rt i = r))
        (firsts (map (\<lambda>info. rt (info_key info)) ?infos)))"
    unfolding groups_def
    by (intro build_subproblems_spec [OF mark_read_spec ok refl g(2)]) auto
  have sub: "sub_problem auto_params cs ?infos (\<lambda>i. rt i = rt k)
      = sub_problem auto_params cs ?infos (\<lambda>i. (i, k) \<in> linked ?E)" if "k \<in> set ?ks" for k
    using that eq keys by (intro sub_problem_cong) auto
  have "set (first_keys (linked ?E) ?ks) \<subseteq> set ?ks" by (auto simp: first_keys_def)
  then have result: "map (\<lambda>r. sub_problem auto_params cs ?infos (\<lambda>i. rt i = r))
        (firsts (map (\<lambda>info. rt (info_key info)) ?infos))
      = map (\<lambda>k. sub_problem auto_params cs ?infos (\<lambda>i. (i, k) \<in> linked ?E)) (first_keys (linked ?E) ?ks)"
    using sub by (auto simp: firsts)
  show ?thesis
  proof (cases "?infos = []")
    case True
    then show ?thesis using u1 u2 by (simp add: decompose_with_reads_def first_keys_def Let_def)
  next
    case False
    then have "cs \<noteq> []" by (auto simp: constraint_infos_def)
    with False show ?thesis
      unfolding decompose_with_reads_def Let_def u1 coupled_def result [symmetric]
      by (simp add: u2 g(1) build)
  qed
qed

end
