(* ===== verification/Subproblems.thy ===== *)
theory Subproblems
  imports DecomposeLaws
begin

text \<open>
  What the sub-problems of a decomposition are to their callers: each constraint
  that reads an auto parameter, directly or through cells, is in exactly one of
  them, together with all the autos it reads; their domains follow the flags of
  the classifier, and the values the discrete solver enumerates are bounded.
\<close>

section \<open>Splitting a list by representatives\<close>

lemma mset_split_Cons:
  "mset (concat (map (\<lambda>k. filter (P k) (x # xs)) ls))
     = replicate_mset (length (filter (\<lambda>k. P k x) ls)) x + mset (concat (map (\<lambda>k. filter (P k) xs) ls))"
  by (induction ls) auto

lemma mset_split_eq:
  "\<forall>x \<in> set xs. length (filter (\<lambda>k. P k x) ls) = 1 \<Longrightarrow> mset (concat (map (\<lambda>k. filter (P k) xs) ls)) = mset xs"
proof (induction xs)
  case Nil
  show ?case by (induction ls) auto
qed (simp add: mset_split_Cons del: filter.simps(2))

lemma mset_split_subset:
  "\<forall>x \<in> set xs. length (filter (\<lambda>k. P k x) ls) \<le> 1 \<Longrightarrow> mset (concat (map (\<lambda>k. filter (P k) xs) ls)) \<subseteq># mset xs"
proof (induction xs)
  case Nil
  show ?case by (induction ls) auto
next
  case (Cons x xs)
  then have "length (filter (\<lambda>k. P k x) ls) \<le> 1" by simp
  then have "replicate_mset (length (filter (\<lambda>k. P k x) ls)) x \<subseteq># {#x#}"
    by (cases "length (filter (\<lambda>k. P k x) ls)") auto
  moreover have "mset (concat (map (\<lambda>k. filter (P k) xs) ls)) \<subseteq># mset xs" using Cons by simp
  ultimately have "replicate_mset (length (filter (\<lambda>k. P k x) ls)) x + mset (concat (map (\<lambda>k. filter (P k) xs) ls))
      \<subseteq># {#x#} + mset xs"
    by (rule subset_mset.add_mono)
  then show ?case unfolding mset_split_Cons by simp
qed

lemma first_keys_count:
  "length (filter (\<lambda>k. (i, k) \<in> linked E) (first_keys (linked E) ks)) = (if \<exists>k \<in> set ks. (i, k) \<in> linked E then 1 else 0)"
proof (induction ks rule: rev_induct)
  case (snoc k ks)
  have "(i, j) \<in> linked E \<longleftrightarrow> (k, j) \<in> linked E" if "(i, k) \<in> linked E" for j
    using that linked_trans linked_sym by metis
  moreover have "(j, k) \<in> linked E \<longleftrightarrow> (k, j) \<in> linked E" for j using linked_sym by blast
  ultimately show ?case using snoc by (auto simp: first_keys_snoc)
qed (simp add: first_keys_def)

section \<open>What a constraint reads\<close>

definition autos_read ::
  "(ValueCellId \<times> (Value, Type) CompiledExpr) list \<Rightarrow> ValueCellId set \<Rightarrow> (Value, Type) CompiledExpr \<Rightarrow> ValueCellId set" where
  "autos_read cells A expr =
     A \<inter> (bare_reads expr \<union> (\<Union>c \<in> bare_reads expr. \<Union>i \<in> occurrences cells c. autos_reached cells A i))"

definition cell_autos :: "DependentCellReads \<Rightarrow> ValueCellId \<Rightarrow> ValueCellId set" where
  "cell_autos reads c = (case lookup_reads reads c of NotACell \<Rightarrow> {} | Foldable as \<Rightarrow> set as | Unfoldable as \<Rightarrow> set as)"

lemma set_reach_of: "set (reach_all (reach_of refs reads)) = (\<Union>c \<in> set refs. cell_autos reads c)"
proof -
  let ?step = "\<lambda>c reach. case lookup_reads reads c of
          NotACell \<Rightarrow> reach
        | Foldable as \<Rightarrow> reach\<lparr>reach_foldable := reach_foldable reach @ as\<rparr>
        | Unfoldable as \<Rightarrow> reach\<lparr>reads_unfoldable_cell := True, reach_unfoldable := reach_unfoldable reach @ as\<rparr>"
  have "set (reach_all (fold ?step refs r)) = set (reach_all r) \<union> (\<Union>c \<in> set refs. cell_autos reads c)" for r
    by (induction refs arbitrary: r) (auto simp: reach_all_def cell_autos_def split: CellReads.split)
  moreover have "cell_autos [] c = {}" for c by (simp add: cell_autos_def lookup_reads_def)
  ultimately show ?thesis by (simp add: reach_of_def Let_def reach_all_def)
qed

lemma cell_autos_exact:
  assumes "dependent_cell_auto_reads cells ps = Some reads"
  shows "cell_autos reads c = (\<Union>i \<in> occurrences cells c. autos_reached cells (ap_id ` set ps) i)"
  using reads_exact [of cells ps c] assms by (auto simp: cell_autos_def split: CellReads.splits)

lemma fold_param_index_dom:
  "hm_get (fold (\<lambda>(i, ap). hm_insert (ap_id ap) i) (enumerate k ps) m) c = None \<longleftrightarrow>
     hm_get m c = None \<and> c \<notin> ap_id ` set ps"
proof (induction ps arbitrary: k m)
  case (Cons p ps)
  have "enumerate k (p # ps) = (k, p) # enumerate (Suc k) ps" by simp
  with Cons.IH [of "Suc k" "hm_insert (ap_id p) k m"] show ?case by (auto simp: hm_simps)
qed simp

lemma param_index_dom: "(\<exists>i. hm_get (param_index ps) c = Some i) \<longleftrightarrow> c \<in> ap_id ` set ps"
  using fold_param_index_dom [of 0 ps "[]" c] by (cases "hm_get (param_index ps) c") (auto simp: param_index_def)

lemma image_param_index:
  "(\<lambda>i. ap_id (ps ! i)) ` set (List.map_filter (hm_get (param_index ps)) xs) = ap_id ` set ps \<inter> set xs"
proof (intro equalityI subsetI)
  fix c assume "c \<in> (\<lambda>i. ap_id (ps ! i)) ` set (List.map_filter (hm_get (param_index ps)) xs)"
  then obtain d i where "d \<in> set xs" "hm_get (param_index ps) d = Some i" "c = ap_id (ps ! i)"
    by (auto simp: set_map_filter)
  then show "c \<in> ap_id ` set ps \<inter> set xs" using param_indexD [of ps d i] by auto
next
  fix c assume c: "c \<in> ap_id ` set ps \<inter> set xs"
  then obtain i where i: "hm_get (param_index ps) c = Some i" using param_index_dom by blast
  then have "c = ap_id (ps ! i)" using param_indexD by blast
  moreover have "i \<in> set (List.map_filter (hm_get (param_index ps)) xs)" using c i by (auto simp: set_map_filter)
  ultimately show "c \<in> (\<lambda>i. ap_id (ps ! i)) ` set (List.map_filter (hm_get (param_index ps)) xs)" by blast
qed

lemma referenced_ids:
  assumes "dependent_cell_auto_reads cells ps = Some reads"
  shows "(\<lambda>i. ap_id (ps ! i)) ` set (referenced_params (constraint_info (param_index ps) reads ci expr))
    = autos_read cells (ap_id ` set ps) expr"
proof -
  have "set (referenced_params (constraint_info (param_index ps) reads ci expr))
      = set (List.map_filter (hm_get (param_index ps))
          (bare_value_refs expr [] @ reach_all (reach_of (bare_value_refs expr []) reads)))"
    by (simp add: constraint_info_def Let_def)
  then show ?thesis
    by (simp only: image_param_index set_append set_reach_of set_bare_value_refs cell_autos_exact [OF assms]
        autos_read_def list.set(1) Un_empty_left)
qed

lemma infos_constraints:
  assumes "dependent_cell_auto_reads cells ps = Some reads"
  shows "map (\<lambda>info. cs ! constraint_idx info) (constraint_infos ps reads cs)
    = filter (\<lambda>(cid, expr). autos_read cells (ap_id ` set ps) expr \<noteq> {}) cs"
proof -
  let ?info = "\<lambda>(ci, cid, expr). constraint_info (param_index ps) reads ci expr"
  have ref: "referenced_params (constraint_info (param_index ps) reads ci expr) \<noteq> []
      \<longleftrightarrow> autos_read cells (ap_id ` set ps) expr \<noteq> {}" for ci expr
    using referenced_ids [OF assms, of ci expr] by auto
  have "map (\<lambda>info. cs ! constraint_idx info)
      (filter (\<lambda>info. referenced_params info \<noteq> []) (map ?info (enumerate (length pre) ts)))
    = filter (\<lambda>(cid, expr). autos_read cells (ap_id ` set ps) expr \<noteq> {}) ts" if "cs = pre @ ts" for pre ts
    using that
  proof (induction ts arbitrary: pre)
    case (Cons t ts)
    obtain cid expr where t: "t = (cid, expr)" by (cases t)
    have "constraint_idx (constraint_info (param_index ps) reads (length pre) expr) = length pre"
      by (simp add: constraint_info_def Let_def)
    moreover have "cs ! length pre = t" using Cons.prems by simp
    ultimately show ?case using Cons.IH [of "pre @ [t]"] Cons.prems ref by (simp add: t)
  qed simp
  from this [of "[]" cs] show ?thesis by (simp add: constraint_infos_def)
qed

lemma info_ids:
  assumes "dependent_cell_auto_reads cells ps = Some reads" "info \<in> set (constraint_infos ps reads cs)"
  shows "autos_read cells (ap_id ` set ps) (snd (cs ! constraint_idx info)) = (\<lambda>i. ap_id (ps ! i)) ` set (referenced_params info)"
proof -
  obtain ci c where "(ci, c) \<in> set (enumerate 0 cs)" "info = constraint_info (param_index ps) reads ci (snd c)"
    using assms(2) by (auto simp: constraint_infos_def)
  moreover from this have "cs ! ci = c" by (auto simp: in_set_enumerate_eq)
  ultimately show ?thesis using referenced_ids [OF assms(1)] by (simp add: constraint_info_def Let_def)
qed


section \<open>The decomposition of a problem\<close>

lemma constraints_partition:
  fixes cs :: Constraints
  assumes "dependent_cell_auto_reads cells ps = Some reads"
  defines "infos \<equiv> constraint_infos ps reads cs"
  shows "mset (concat (map (\<lambda>k. sp_constraints (sub_problem ps cs infos (\<lambda>i. (i, k) \<in> linked E)))
      (first_keys (linked E) (map info_key infos))))
    = mset (filter (\<lambda>(cid, expr). autos_read cells (ap_id ` set ps) expr \<noteq> {}) cs)"
proof -
  let ?g = "\<lambda>info. cs ! constraint_idx info"
  let ?ls = "first_keys (linked E) (map info_key infos)"
  have "\<exists>k \<in> set (map info_key infos). (info_key info, k) \<in> linked E" if "info \<in> set infos" for info
    using that by (intro bexI [of _ "info_key info"]) auto
  then have "length (filter (\<lambda>k. (info_key info, k) \<in> linked E) ?ls) = 1" if "info \<in> set infos" for info
    unfolding first_keys_count using that by (simp only: if_True)
  then have "\<forall>info \<in> set infos. length (filter (\<lambda>k. (info_key info, k) \<in> linked E) ?ls) = 1" by blast
  then have "mset (concat (map (\<lambda>k. filter (\<lambda>info. (info_key info, k) \<in> linked E) infos) ?ls)) = mset infos"
    by (rule mset_split_eq)
  then have "mset (map ?g (concat (map (\<lambda>k. filter (\<lambda>info. (info_key info, k) \<in> linked E) infos) ?ls))) = mset (map ?g infos)"
    by simp
  moreover have "map ?g (concat (map (\<lambda>k. filter (\<lambda>info. (info_key info, k) \<in> linked E) infos) ?ls))
      = concat (map (\<lambda>k. sp_constraints (sub_problem ps cs infos (\<lambda>i. (i, k) \<in> linked E))) ?ls)"
    by (simp add: map_concat comp_def sub_problem_def Let_def)
  moreover have "map ?g infos = filter (\<lambda>(cid, expr). autos_read cells (ap_id ` set ps) expr \<noteq> {}) cs"
    unfolding infos_def by (rule infos_constraints [OF assms(1)])
  ultimately show ?thesis by (simp only:)
qed

lemma params_disjoint:
  "mset (concat (map (\<lambda>k. sp_auto_params (sub_problem ps cs infos (\<lambda>i. (i, k) \<in> linked E))) (first_keys (linked E) ks)))
    \<subseteq># mset (map ap_id ps)"
proof -
  let ?g = "\<lambda>i. ap_id (ps ! i)"
  have "\<forall>i \<in> set [0..<length ps]. length (filter (\<lambda>k. (i, k) \<in> linked E) (first_keys (linked E) ks)) \<le> 1"
    by (simp add: first_keys_count)
  from mset_split_subset [OF this]
  have "image_mset ?g (mset (concat (map (\<lambda>k. filter (\<lambda>i. (i, k) \<in> linked E) [0..<length ps]) (first_keys (linked E) ks))))
      \<subseteq># image_mset ?g (mset [0..<length ps])"
    by (rule image_mset_subseteq_mono)
  moreover have "map ?g [0..<length ps] = map ap_id ps" by (intro nth_equalityI) auto
  moreover have "map ?g (concat (map (\<lambda>k. filter (\<lambda>i. (i, k) \<in> linked E) [0..<length ps]) (first_keys (linked E) ks)))
      = concat (map (\<lambda>k. sp_auto_params (sub_problem ps cs infos (\<lambda>i. (i, k) \<in> linked E))) (first_keys (linked E) ks))"
    by (simp add: map_concat comp_def sub_problem_def Let_def)
  ultimately show ?thesis by (simp only: mset_map [symmetric])
qed

lemma referenced_less: "i \<in> set (referenced_params (constraint_info (param_index ps) reads ci expr)) \<Longrightarrow> i < length ps"
  using constraint_info_indices(1) by blast

lemma sub_problem_closed:
  fixes cs :: Constraints and objective :: "ValueCellId hash_set option"
  assumes "dependent_cell_auto_reads cells ps = Some reads"
  defines "infos \<equiv> constraint_infos ps reads cs" and "R \<equiv> coupled ps cs objective reads"
  shows "(\<Union>(cid, expr) \<in> set (sp_constraints (sub_problem ps cs infos (\<lambda>i. (i, k) \<in> R))).
      autos_read cells (ap_id ` set ps) expr) \<subseteq> set (sp_auto_params (sub_problem ps cs infos (\<lambda>i. (i, k) \<in> R)))"
proof
  fix a assume "a \<in> (\<Union>(cid, expr) \<in> set (sp_constraints (sub_problem ps cs infos (\<lambda>i. (i, k) \<in> R))).
      autos_read cells (ap_id ` set ps) expr)"
  then obtain info where info: "info \<in> set infos" "(info_key info, k) \<in> R"
    "a \<in> autos_read cells (ap_id ` set ps) (snd (cs ! constraint_idx info))"
    by (auto simp: sub_problem_def Let_def case_prod_beta)
  then obtain i where i: "i \<in> set (referenced_params info)" "a = ap_id (ps ! i)"
    using info_ids [OF assms(1), of info cs] unfolding infos_def by auto
  have "i < length ps" using info(1) i(1) referenced_less unfolding infos_def constraint_infos_def by auto
  moreover have "info_key info \<in> set (referenced_params info)"
    using i(1) unfolding info_key_def by (cases "referenced_params info") auto
  then have "(i, info_key info) \<in> R" using info(1) i(1)
    unfolding R_def coupled_def infos_def coupling_def by (intro linked_base) auto
  then have "(i, k) \<in> R" using info(2) linked_trans unfolding R_def coupled_def by blast
  ultimately show "a \<in> set (sp_auto_params (sub_problem ps cs infos (\<lambda>i. (i, k) \<in> R)))"
    using i(2) by (auto simp: sub_problem_def Let_def)
qed

lemma decompose_total:
  assumes "dependent_cell_auto_reads cells ps = Some reads"
  shows "decompose_into_components ps cs objective_refs cells
    = decompose_with_reads ps cs (map_option (\<lambda>refs. expand_objective refs reads) objective_refs) reads"
  by (simp add: decompose_into_components_def assms)

text \<open>
  C19.  Decomposing never fails, and yields the connected components: two auto
  params are in one sub-problem iff they are linked by a chain of constraints,
  or of the objective, that read both.  The sub-problems come in the order of
  their first constraints, and each is routed by the domains of its own
  constraints, whatever order the union-find and the memo were filled in.
\<close>

theorem decompose_connected_components:
  "decompose_into_components auto_params cs objective_refs cells =
     (let reads = the (dependent_cell_auto_reads cells auto_params);
        related = coupled auto_params cs (map_option (\<lambda>refs. expand_objective refs reads) objective_refs) reads;
        infos = constraint_infos auto_params reads cs
      in Some (map (\<lambda>k. sub_problem auto_params cs infos (\<lambda>i. (i, k) \<in> related)) (first_keys related (map info_key infos))))"
proof -
  obtain reads where "dependent_cell_auto_reads cells auto_params = Some reads" using reads_exact by blast
  then show ?thesis by (simp add: decompose_total decompose_reference Let_def)
qed

lemma set_first_keys: "set (first_keys R ks) \<subseteq> set ks"
  by (auto simp: first_keys_def)

lemma subs_exact:
  assumes reads: "dependent_cell_auto_reads cells ps = Some reads"
  shows "\<exists>subs. decompose_with_reads ps cs objective reads = Some subs
     \<and> mset (concat (map sp_constraints subs)) = mset (filter (\<lambda>(cid, expr). autos_read cells (ap_id ` set ps) expr \<noteq> {}) cs)
     \<and> mset (concat (map sp_auto_params subs)) \<subseteq># mset (map ap_id ps)
     \<and> list_all (\<lambda>sub. sp_constraints sub \<noteq> [] \<and> (\<Union>(cid, expr) \<in> set (sp_constraints sub). autos_read cells (ap_id ` set ps) expr)
           \<subseteq> set (sp_auto_params sub)) subs"
proof -
  let ?E = "coupling (constraint_infos ps reads cs) \<union> objective_pairs ps objective"
  let ?keys = "first_keys (linked ?E) (map info_key (constraint_infos ps reads cs))"
  have R: "coupled ps cs objective reads = linked ?E" by (simp add: coupled_def)
  define sub where "sub k = sub_problem ps cs (constraint_infos ps reads cs) (\<lambda>i. (i, k) \<in> linked ?E)" for k
  have "mset (concat (map sp_constraints (map sub ?keys)))
      = mset (filter (\<lambda>(cid, expr). autos_read cells (ap_id ` set ps) expr \<noteq> {}) cs)"
    unfolding sub_def map_map comp_def by (rule constraints_partition [OF reads])
  moreover have "mset (concat (map sp_auto_params (map sub ?keys))) \<subseteq># mset (map ap_id ps)"
    unfolding sub_def map_map comp_def by (rule params_disjoint)
  moreover have "(\<Union>(cid, expr) \<in> set (sp_constraints (sub k)). autos_read cells (ap_id ` set ps) expr)
      \<subseteq> set (sp_auto_params (sub k))" for k
    using sub_problem_closed [OF reads, of cs k objective, unfolded R] unfolding sub_def .
  moreover have "sp_constraints (sub k) \<noteq> []" if k: "k \<in> set ?keys" for k
  proof -
    obtain info where "info \<in> set (constraint_infos ps reads cs)" "k = info_key info"
      using subsetD [OF set_first_keys k] by auto
    then show ?thesis by (auto simp: sub_def sub_problem_def Let_def filter_empty_conv intro!: bexI [of _ info])
  qed
  moreover have "decompose_with_reads ps cs objective reads = Some (map sub ?keys)"
    unfolding decompose_reference R sub_def by (rule refl)
  ultimately show ?thesis unfolding list_all_iff by (intro exI [of _ "map sub ?keys"]) auto
qed

text \<open>
  C20.  The sub-problems are independent and complete: each constraint that reads
  an auto, directly or through any number of cells, is in exactly one of them,
  no other constraint is in any, no auto is in two, and each holds every auto
  that one of its constraints reads.
\<close>

theorem decompose_partitions:
  "\<exists>subs. decompose_into_components auto_params cs objective_refs cells = Some subs
     \<and> mset (concat (map sp_constraints subs))
         = mset (filter (\<lambda>(cid, expr). autos_read cells (ap_id ` set auto_params) expr \<noteq> {}) cs)
     \<and> mset (concat (map sp_auto_params subs)) \<subseteq># mset (map ap_id auto_params)
     \<and> list_all (\<lambda>sub. (\<Union>(cid, expr) \<in> set (sp_constraints sub). autos_read cells (ap_id ` set auto_params) expr)
           \<subseteq> set (sp_auto_params sub)) subs"
proof -
  obtain reads where reads: "dependent_cell_auto_reads cells auto_params = Some reads" using reads_exact by blast
  from subs_exact [OF reads, of cs "map_option (\<lambda>refs. expand_objective refs reads) objective_refs"] show ?thesis
    unfolding decompose_total [OF reads, symmetric] list_all_iff by blast
qed

section \<open>Domains\<close>

text \<open>The flags a domain stands for.\<close>

definition domain_flags :: "ConstraintDomain \<Rightarrow> DomainFlags" where
  "domain_flags d = \<lparr>has_numeric = d = Dimensional \<or> d = CrossDomain, has_logical = d = Logical \<or> d = CrossDomain,
     has_geometric = d = Geometric \<or> d = CrossDomain\<rparr>"

definition join_flags :: "DomainFlags \<Rightarrow> DomainFlags \<Rightarrow> DomainFlags" where
  "join_flags f g = \<lparr>has_numeric = has_numeric f \<or> has_numeric g, has_logical = has_logical f \<or> has_logical g,
     has_geometric = has_geometric f \<or> has_geometric g\<rparr>"

text \<open>
  Widening a domain is what the classifier would have answered with the
  flags of both sides; so it is commutative, associative and idempotent, and a
  component is routed the same way in whatever order its autos are met.
\<close>

theorem widen_domain_joins_flags:
  "widen_domain a b = into_domain (join_flags (domain_flags a) (domain_flags b))
     \<and> widen_domain a b = widen_domain b a
     \<and> widen_domain (widen_domain a b) c = widen_domain a (widen_domain b c)
     \<and> widen_domain a a = a"
  by (cases a; cases b; cases c) (simp_all add: widen_domain.simps into_domain_def join_flags_def domain_flags_def)

definition variants_ok :: "string \<Rightarrow> string list \<times> Value list \<Rightarrow> bool" where
  "variants_ok type_name acc \<longleftrightarrow> distinct (fst acc) \<and> snd acc = map (enum_unit type_name) (rev (fst acc))"

lemma add_variant_ok: "variants_ok type_name acc \<Longrightarrow> variants_ok type_name (add_variant type_name node acc)"
  by (auto simp: variants_ok_def add_variant_def split: CompiledExprKind.split Value.split)

lemma enum_variants_distinct: "distinct (enum_variants type_name cs)"
proof -
  have "variants_ok type_name (fold (add_variant type_name) nodes acc)" if "variants_ok type_name acc" for nodes acc
    using that by (induction nodes arbitrary: acc) (simp_all add: add_variant_ok)
  then have "variants_ok type_name (fold (\<lambda>(c, expr). fold (add_variant type_name) (walk expr)) cs acc)"
    if "variants_ok type_name acc" for acc
    using that by (induction cs arbitrary: acc) (simp_all add: case_prod_beta)
  from this [of "([], [])"] show ?thesis
    by (auto simp: variants_ok_def enum_variants_def distinct_map inj_on_def enum_unit_def)
qed

text \<open>
  A domain that the discrete solver accepts is finite and not empty: an
  integer range lies in the 64 bits of an integer and has at most a thousand
  values, and the variants of an enum are distinct.
\<close>

theorem domain_spec_bounded:
  "case domain_spec param cs of
     Inr (IntRange lo hi) \<Rightarrow> i64_min \<le> lo \<and> lo \<le> hi \<and> hi \<le> i64_max \<and> hi - lo + 1 \<le> MAX_INT_DOMAIN
   | Inr (EnumVariants variants) \<Rightarrow> variants \<noteq> [] \<and> distinct variants
   | _ \<Rightarrow> True"
proof -
  have range: "i64_min \<le> f64_as_i64 x" "f64_as_i64 x \<le> i64_max" for x
    by (auto simp: f64_as_i64_def i64_min_def i64_max_def)
  show ?thesis
  proof (cases "param_type param")
    case TInt
    show ?thesis
    proof (cases "ap_bounds param")
      case None
      with TInt show ?thesis by (simp add: domain_spec_def)
    next
      case (Some b)
      obtain lo hi where b: "b = (lo, hi)" by (cases b)
      define s where "s = (case Option.bind (checked_i64 (f64_as_i64 hi - f64_as_i64 lo)) (\<lambda>d. checked_i64 (d + 1)) of
        Some n \<Rightarrow> n | None \<Rightarrow> i64_max)"
      have size: "f64_as_i64 lo \<le> f64_as_i64 hi \<and> f64_as_i64 hi - f64_as_i64 lo + 1 \<le> MAX_INT_DOMAIN"
        if "\<not> (s > MAX_INT_DOMAIN \<or> s \<le> 0)"
        using that by (auto simp: s_def checked_i64_def MAX_INT_DOMAIN_def i64_max_def split: if_splits)
      have spec: "domain_spec param cs =
          (if \<not> is_finite lo \<or> \<not> is_finite hi then Inl NonFiniteBounds
           else if \<not> in_i64_range lo \<or> \<not> in_i64_range hi then Inl OutsideI64
           else if s > MAX_INT_DOMAIN \<or> s \<le> 0 then Inl (TooLarge s) else Inr (IntRange (f64_as_i64 lo) (f64_as_i64 hi)))"
        by (simp add: domain_spec_def TInt Some b s_def Let_def)
      show ?thesis unfolding spec using size range by (simp split: if_split)
    qed
  qed (auto simp: domain_spec_def Let_def enum_variants_distinct)
qed

end
