(* ===== verification/Ranked.thy ===== *)
theory Ranked
  imports Values
begin

text \<open>
  Ranked results (\<open>reify-ir/src/ranked.rs\<close>) and how much of a solution set a
  solver established (\<open>reify-ir/src/completeness.rs\<close>).
\<close>

type_synonym ValueMap = "(ValueCellId, Value) hash_map"

section \<open>Quality of a ranking\<close>

datatype BestFoundReason = IterationLimit | EnumerationBudget | ConvergedWithinBudget | Unreported

fun stopped_at_budget :: "BestFoundReason \<Rightarrow> bool" where
  "stopped_at_budget IterationLimit = True"
| "stopped_at_budget EnumerationBudget = True"
| "stopped_at_budget ConvergedWithinBudget = False"
| "stopped_at_budget Unreported = False"

datatype OptimalityStatus = ProvenOptimal | BestFound BestFoundReason | FeasibilityOnly

record RankedCandidate =
  candidate_values :: ValueMap
  objective_score :: "f64 option"
  candidate_unique :: bool

section \<open>Completeness\<close>

datatype PartialReason =
    BoxBudgetExhausted
  | DimensionAboveEnvelope nat
  | DomainUnbounded ValueCellId
  | NotIntervalRepresentable ConstraintNodeId
  | InnerSolveUnproven
  | ProbeOnly
  | NotAttempted

datatype Completeness = Exhaustive | Partial PartialReason | Refuted ConstraintNodeId

fun is_exhaustive :: "Completeness \<Rightarrow> bool" where
  "is_exhaustive Exhaustive = True"
| "is_exhaustive _ = False"

definition derived_unique :: "Completeness \<Rightarrow> nat \<Rightarrow> bool" where
  "derived_unique c solution_count \<longleftrightarrow> is_exhaustive c \<and> solution_count = 1"

definition permits_proven_optimal :: "Completeness \<Rightarrow> bool" where
  "permits_proven_optimal c = is_exhaustive c"

definition not_attempted :: Completeness where
  "not_attempted = Partial NotAttempted"

fun describe_reason :: "PartialReason \<Rightarrow> string" where
  "describe_reason BoxBudgetExhausted = ''subdivision budget exhausted with boxes still unresolved''"
| "describe_reason (DimensionAboveEnvelope dims) =
     ''component dimension '' @ show_nat dims @ '' exceeds the enumeration envelope''"
| "describe_reason (DomainUnbounded param) =
     ''domain of '' @ valuecellid_display param @ '' is unbounded, so no finite box could be searched''"
| "describe_reason (NotIntervalRepresentable c) =
     ''constraint '' @ constraint_display c @ '' has no sound interval form, so no box verdict is trustworthy''"
| "describe_reason InnerSolveUnproven = ''the continuous sub-problem under this discrete choice was not enumerated''"
| "describe_reason ProbeOnly = ''only the legacy perturbation probe ran; nothing was established about the set''"
| "describe_reason NotAttempted = ''this solver does not reason about solution-set completeness''"

fun describe :: "Completeness \<Rightarrow> string" where
  "describe Exhaustive = ''every solution in the searched domain was enumerated''"
| "describe (Partial reason) = ''solution set not established: '' @ describe_reason reason"
| "describe (Refuted c) =
     ''proven infeasible: no solution exists in the searched domain (narrowed to empty by constraint ''
       @ constraint_display c @ '')''"

section \<open>Solution sets\<close>

record SolutionSet =
  set_solutions :: "RankedCandidate list"
  set_completeness :: Completeness

definition exhaustive_set :: "RankedCandidate list \<Rightarrow> SolutionSet" where
  "exhaustive_set deduplicated = \<lparr>set_solutions = deduplicated, set_completeness = Exhaustive\<rparr>"

definition partial_set :: "RankedCandidate list \<Rightarrow> PartialReason \<Rightarrow> SolutionSet" where
  "partial_set found reason = \<lparr>set_solutions = found, set_completeness = Partial reason\<rparr>"

definition refuted_set :: "ConstraintNodeId \<Rightarrow> SolutionSet" where
  "refuted_set c = \<lparr>set_solutions = [], set_completeness = Refuted c\<rparr>"

definition set_unique :: "SolutionSet \<Rightarrow> bool" where
  "set_unique s = derived_unique (set_completeness s) (length (set_solutions s))"

text \<open>The debug assertion that a refuted set is empty is compiled out of a release build.\<close>

definition proven_count :: "SolutionSet \<Rightarrow> nat option" where
  "proven_count s =
     (case set_completeness s of
        Exhaustive \<Rightarrow> Some (length (set_solutions s))
      | Refuted c \<Rightarrow> Some 0
      | Partial reason \<Rightarrow> None)"

text \<open>A solver reports no progress with a reason of its own.\<close>

datatype 'r RankedSolveResult =
    Ranked "RankedCandidate list" OptimalityStatus Completeness
  | RankedInfeasible
  | RankedNoProgress 'r

text \<open>
  Verdicts render apart: two renderings agree only for the same verdict, or for
  unbounded domains of parameters whose own renderings agree.
\<close>

lemma constraint_display_inject [simp]: "constraint_display c = constraint_display d \<longleftrightarrow> c = d"
proof
  have split: "rsplit_once CHR ''['' (constraint_display c) = Some (cn_entity c @ ''#constraint'', show_u32 (cn_index c) @ '']'')" for c
  proof -
    have "CHR ''['' \<notin> set (show_u32 (cn_index c) @ '']'')"
      using show_nat_digit_set by (force simp: show_u32_def is_ascii_digit_def)
    then show ?thesis
      using rsplit_once_append [of "CHR ''[''" _ "cn_entity c @ ''#constraint''"]
      by (simp add: constraint_display_def write_rendered_def)
  qed
  assume "constraint_display c = constraint_display d"
  then have "cn_entity c = cn_entity d" "show_u32 (cn_index c) = show_u32 (cn_index d)"
    using split [of c] split [of d] by simp_all
  moreover from this(2) have "cn_index c = cn_index d" by (metis option.inject parse_show_u32)
  ultimately show "c = d" by (cases c; cases d) simp
qed simp

lemma describe_reason_distinct:
  "describe_reason r = describe_reason r' \<longleftrightarrow>
     r = r' \<or> (\<exists>a b. r = DomainUnbounded a \<and> r' = DomainUnbounded b \<and> valuecellid_display a = valuecellid_display b)"
  by (cases r; cases r'; auto)

lemma describe_distinct:
  "describe c = describe d \<longleftrightarrow>
     c = d \<or> (\<exists>a b. c = Partial (DomainUnbounded a) \<and> d = Partial (DomainUnbounded b) \<and> valuecellid_display a = valuecellid_display b)"
  by (cases c; cases d) (auto simp: describe_reason_distinct)

text \<open>A total is reported only for a proof, and a unique solution is a total of one.\<close>

lemma unique_counts_one: "set_unique s \<longleftrightarrow> proven_count s = Some 1 \<and> permits_proven_optimal (set_completeness s)"
  by (cases "set_completeness s") (auto simp: set_unique_def proven_count_def derived_unique_def permits_proven_optimal_def)

end
