(* ===== verification/Cpsat.thy ===== *)
theory Cpsat
  imports Decompose Ranked
begin

text \<open>
  The discrete solver (\<open>reify-constraints/src/cpsat.rs\<close> and
  \<open>discrete_fallback.rs\<close>): a backtracking search over finite domains that
  re-derives at each trial only the dependent cells that are not yet exact, the
  verdicts drawn from an enumeration, and the ranking of its models.  The
  evaluator of expressions, at the functions of the problem, and the score of an
  objective are arguments.
\<close>

type_synonym evaluator = "ValueMap \<Rightarrow> (Value, Type) CompiledExpr \<Rightarrow> Value"
type_synonym cell = "ValueCellId \<times> (Value, Type) CompiledExpr"

section \<open>Problems and verdicts\<close>

record 'o ResolutionProblem =
  rp_auto_params :: "AutoParam list"
  rp_constraints :: Constraints
  rp_current_values :: ValueMap
  rp_objective :: "'o option"
  rp_dependent_cells :: "cell list"

datatype NoProgressReason = CannotEnumerate DomainError | BudgetExhausted nat

datatype 'r SolveResult = Solved ValueMap bool | Infeasible | NoProgress 'r

datatype SolveAllResult = Enumerated "ValueMap list" bool | NotEnumerable DomainError

definition ENUMERATION_NODE_BUDGET :: nat where
  "ENUMERATION_NODE_BUDGET = 100000"

definition RANKED_CANDIDATE_CAP :: nat where
  "RANKED_CANDIDATE_CAP = 16"

definition USIZE_MAX :: nat where
  "USIZE_MAX = 2 ^ 64 - 1"

section \<open>Dependent cells\<close>

fun fold_dependent_cells_skipping_collisions ::
  "evaluator \<Rightarrow> (ValueCellId \<Rightarrow> bool) \<Rightarrow> cell list \<Rightarrow> ValueMap \<Rightarrow> ValueMap \<times> ValueCellId list" where
  "fold_dependent_cells_skipping_collisions eval solver_owned [] vals = (vals, [])"
| "fold_dependent_cells_skipping_collisions eval solver_owned ((c, expr) # cells) vals =
     (if solver_owned c then
        (let (vals1, collisions) = fold_dependent_cells_skipping_collisions eval solver_owned cells vals
         in (vals1, c # collisions))
      else fold_dependent_cells_skipping_collisions eval solver_owned cells (hm_insert c (eval vals expr) vals))"

text \<open>The alarm about collisions is compiled out of a release build.\<close>

definition fold_dependent_cells ::
  "evaluator \<Rightarrow> (ValueCellId \<Rightarrow> bool) \<Rightarrow> cell list \<Rightarrow> ValueMap \<Rightarrow> ValueMap" where
  "fold_dependent_cells eval solver_owned cells vals =
     fst (fold_dependent_cells_skipping_collisions eval solver_owned cells vals)"

definition build_scoring_values :: "evaluator \<Rightarrow> ValueMap \<Rightarrow> ValueMap \<Rightarrow> cell list \<Rightarrow> ValueMap" where
  "build_scoring_values eval base solved cells =
     fold_dependent_cells eval (hm_contains solved) cells (fold (\<lambda>(c, v). hm_insert c v) solved base)"

definition collect_constraint_refs :: "(Value, Type) CompiledExpr \<Rightarrow> ValueCellId hash_set" where
  "collect_constraint_refs expr = bare_value_refs expr []"

record Variable =
  var_id :: ValueCellId
  var_domain :: "Value list"

record ScheduledCell =
  sc_cell :: cell
  exact_from :: "nat option"

definition needs_rederive_at :: "nat \<Rightarrow> ScheduledCell \<Rightarrow> bool" where
  "needs_rederive_at depth sc = (case exact_from sc of None \<Rightarrow> True | Some e \<Rightarrow> e \<ge> depth)"

definition derived_from_exact_cells :: "(ValueCellId, nat list) hash_map \<Rightarrow> ScheduledCell list \<Rightarrow> cell \<Rightarrow> bool" where
  "derived_from_exact_cells stored_at scheduled cell \<longleftrightarrow>
     \<not> (case hm_get stored_at (fst cell) of Some occurs \<Rightarrow> length occurs > 1 | None \<Rightarrow> False)
     \<and> list_all (\<lambda>index. index < length scheduled \<and> exact_from (scheduled ! index) \<noteq> None)
         (concat (List.map_filter (hm_get stored_at) (collect_constraint_refs (snd cell))))"

fun deepest_auto :: "(ValueCellId, nat) hash_map \<Rightarrow> ValueCellId list \<Rightarrow> nat \<Rightarrow> nat option" where
  "deepest_auto depth [] deepest = Some deepest"
| "deepest_auto depth (a # as) deepest =
     (case hm_get depth a of None \<Rightarrow> None | Some d \<Rightarrow> deepest_auto depth as (max deepest d))"

definition exact_depth ::
  "(ValueCellId, nat) hash_map \<Rightarrow> DependentCellReads \<Rightarrow> (ValueCellId, nat list) hash_map \<Rightarrow> ScheduledCell list \<Rightarrow> cell
     \<Rightarrow> nat option" where
  "exact_depth depth reads stored_at scheduled cell =
     (case lookup_reads reads (fst cell) of
        Foldable as \<Rightarrow> if derived_from_exact_cells stored_at scheduled cell then deepest_auto depth as 0 else None
      | _ \<Rightarrow> None)"

fun schedule_cells ::
  "(ScheduledCell list \<Rightarrow> cell \<Rightarrow> nat option) \<Rightarrow> cell list \<Rightarrow> ScheduledCell list \<Rightarrow> ScheduledCell list" where
  "schedule_cells exact [] scheduled = scheduled"
| "schedule_cells exact (cell # cells) scheduled =
     schedule_cells exact cells (scheduled @ [\<lparr>sc_cell = cell, exact_from = exact scheduled cell\<rparr>])"

definition schedule_dependent_cells ::
  "AutoParam list \<Rightarrow> cell list \<Rightarrow> Variable list \<Rightarrow> ScheduledCell list option" where
  "schedule_dependent_cells auto_params cells variables =
     (let depth = fold (\<lambda>(i, var). hm_insert (var_id var) i) (enumerate 0 variables) [];
        stored_at = build_cell_index cells
      in map_option (\<lambda>reads. schedule_cells (exact_depth depth reads stored_at) cells [])
           (dependent_cell_auto_reads cells auto_params))"

section \<open>The search\<close>

record SearchContext =
  sx_eval :: evaluator
  variables :: "Variable list"
  sx_constraints :: "(ConstraintNodeId \<times> (Value, Type) CompiledExpr \<times> ValueCellId hash_set) list"
  auto_param_ids :: "ValueCellId hash_set"
  sx_cells :: "ScheduledCell list"
  cap :: nat
  node_budget :: nat

text \<open>The models handed to the sink, in order, and its count.\<close>

record SearchState =
  assignment :: ValueMap
  emitted :: "ValueMap list"
  sink_count :: nat
  nodes :: nat

fun forward_check ::
  "evaluator \<Rightarrow> ValueCellId hash_set \<Rightarrow> ValueMap
     \<Rightarrow> (ConstraintNodeId \<times> (Value, Type) CompiledExpr \<times> ValueCellId hash_set) list \<Rightarrow> bool" where
  "forward_check eval ids vals [] = True"
| "forward_check eval ids vals ((cid, expr, refs) # cs) =
     (if \<not> list_all (\<lambda>r. hm_contains vals r) (filter (\<lambda>r. r \<in> set ids) refs) then forward_check eval ids vals cs
      else if eval vals expr = ValBool False then False
      else forward_check eval ids vals cs)"

definition accept :: "ValueMap \<Rightarrow> SearchState \<Rightarrow> SearchState" where
  "accept solution s = s\<lparr>sink_count := sink_count s + 1, emitted := emitted s @ [solution]\<rparr>"

definition solution_of :: "Variable list \<Rightarrow> ValueMap \<Rightarrow> ValueMap" where
  "solution_of vars vals =
     fold (\<lambda>var sol. case hm_get vals (var_id var) of Some v \<Rightarrow> hm_insert (var_id var) v sol | None \<Rightarrow> sol) vars []"

definition unassign :: "Variable \<Rightarrow> SearchState \<Rightarrow> SearchState" where
  "unassign var s = s\<lparr>assignment := hm_remove (var_id var) (assignment s)\<rparr>"

text \<open>Insert the value of the variable at this depth and derive the cells that are not yet exact.\<close>

definition trial :: "SearchContext \<Rightarrow> nat \<Rightarrow> Variable \<Rightarrow> Value \<Rightarrow> ValueMap \<Rightarrow> ValueMap" where
  "trial ctx var_index var v vals =
     fold_dependent_cells (sx_eval ctx) (\<lambda>c. c \<in> set (auto_param_ids ctx))
       (map sc_cell (filter (needs_rederive_at var_index) (sx_cells ctx))) (hm_insert (var_id var) v vals)"

text \<open>
  The search; its third argument is \<open>ctx.variables[var_index..]\<close>, and the loop over
  the domain is the second function.
\<close>

function (sequential) backtrack_all :: "SearchContext \<Rightarrow> nat \<Rightarrow> Variable list \<Rightarrow> SearchState \<Rightarrow> bool \<times> SearchState"
  and try_values :: "SearchContext \<Rightarrow> nat \<Rightarrow> Variable \<Rightarrow> Variable list \<Rightarrow> Value list \<Rightarrow> SearchState \<Rightarrow> bool \<times> SearchState"
where
  "backtrack_all ctx var_index [] s =
     (if sink_count s \<ge> cap ctx then (False, s)
      else (let s1 = accept (solution_of (variables ctx) (assignment s)) s in (sink_count s1 < cap ctx, s1)))"
| "backtrack_all ctx var_index (var # vars) s =
     (if sink_count s \<ge> cap ctx then (False, s) else try_values ctx var_index var vars (var_domain var) s)"
| "try_values ctx var_index var vars [] s = (True, unassign var s)"
| "try_values ctx var_index var vars (v # vs) s =
     (let s1 = s\<lparr>nodes := nodes s + 1\<rparr> in
      if nodes s1 \<ge> node_budget ctx then (False, unassign var s1)
      else
        (let s2 = s1\<lparr>assignment := trial ctx var_index var v (assignment s1)\<rparr> in
         if forward_check (sx_eval ctx) (auto_param_ids ctx) (assignment s2) (sx_constraints ctx) then
           (case backtrack_all ctx (var_index + 1) vars s2 of
              (False, s3) \<Rightarrow> (False, unassign var s3)
            | (True, s3) \<Rightarrow> try_values ctx var_index var vars vs s3)
         else try_values ctx var_index var vars vs s2))"
  by pat_completeness auto
termination
  by (relation "measures [\<lambda>x. case x of Inl (c, i, vs, s) \<Rightarrow> 2 * length vs | Inr (c, i, var, vs, d, s) \<Rightarrow> 2 * length vs + 1,
      \<lambda>x. case x of Inl (c, i, vs, s) \<Rightarrow> 0 | Inr (c, i, var, vs, d, s) \<Rightarrow> length d]") auto

section \<open>Solving\<close>

record SearchInputs =
  in_variables :: "Variable list"
  in_auto_ids :: "ValueCellId hash_set"
  in_constraints :: "(ConstraintNodeId \<times> (Value, Type) CompiledExpr \<times> ValueCellId hash_set) list"
  in_assignment :: ValueMap
  in_cells :: "ScheduledCell list"

fun build_variables :: "Constraints \<Rightarrow> AutoParam list \<Rightarrow> DomainError + Variable list" where
  "build_variables cs [] = Inr []"
| "build_variables cs (p # ps) =
     (case build_variable_domain p cs of
        Inl e \<Rightarrow> Inl e
      | Inr d \<Rightarrow> map_sum id (\<lambda>vars. \<lparr>var_id = ap_id p, var_domain = d\<rparr> # vars) (build_variables cs ps))"

definition build_search_inputs :: "'o ResolutionProblem \<Rightarrow> (DomainError + SearchInputs) option" where
  "build_search_inputs problem =
     (case build_variables (rp_constraints problem) (rp_auto_params problem) of
        Inl e \<Rightarrow> Some (Inl e)
      | Inr vars \<Rightarrow>
          (let ids = fold hs_insert (map ap_id (rp_auto_params problem)) [] in
           map_option (\<lambda>cells. Inr
             \<lparr>in_variables = vars, in_auto_ids = ids,
              in_constraints = map (\<lambda>(cid, expr). (cid, expr, collect_constraint_refs expr)) (rp_constraints problem),
              in_assignment = fold hm_remove ids (rp_current_values problem), in_cells = cells\<rparr>)
             (schedule_dependent_cells (rp_auto_params problem) (rp_dependent_cells problem) vars)))"

text \<open>The models in the order in which the callback receives them, and whether the space was exhausted.\<close>

definition enumerate_with_budget ::
  "evaluator \<Rightarrow> 'o ResolutionProblem \<Rightarrow> nat \<Rightarrow> nat \<Rightarrow> (DomainError + ValueMap list \<times> bool) option" where
  "enumerate_with_budget eval problem cap_count budget =
     map_option (map_sum id (\<lambda>inputs.
         let ctx = \<lparr>sx_eval = eval, variables = in_variables inputs, sx_constraints = in_constraints inputs,
                   auto_param_ids = in_auto_ids inputs, sx_cells = in_cells inputs, cap = cap_count, node_budget = budget\<rparr>;
           (exhausted, s) = backtrack_all ctx 0 (in_variables inputs)
             \<lparr>assignment = in_assignment inputs, emitted = [], sink_count = 0, nodes = 0\<rparr>
         in (emitted s, exhausted)))
       (build_search_inputs problem)"

definition solve_all_with_budget :: "evaluator \<Rightarrow> 'o ResolutionProblem \<Rightarrow> nat \<Rightarrow> nat \<Rightarrow> SolveAllResult option" where
  "solve_all_with_budget eval problem cap_count budget =
     map_option (\<lambda>r. case r of Inl e \<Rightarrow> NotEnumerable e | Inr (solutions, exhausted) \<Rightarrow> Enumerated solutions exhausted)
       (enumerate_with_budget eval problem cap_count budget)"

definition solve_all :: "evaluator \<Rightarrow> 'o ResolutionProblem \<Rightarrow> nat \<Rightarrow> SolveAllResult option" where
  "solve_all eval problem cap_count = solve_all_with_budget eval problem cap_count ENUMERATION_NODE_BUDGET"

definition verdict_from_enumeration :: "ValueMap option \<Rightarrow> nat \<Rightarrow> bool \<Rightarrow> nat \<Rightarrow> NoProgressReason SolveResult" where
  "verdict_from_enumeration first model_count exhausted budget =
     (case first of
        Some vals \<Rightarrow> Solved vals (exhausted \<and> model_count = 1)
      | None \<Rightarrow> if exhausted then Infeasible else NoProgress (BudgetExhausted budget))"

definition first_of_models :: "'a list \<Rightarrow> 'a option" where
  "first_of_models xs = (case xs of [] \<Rightarrow> None | x # ys \<Rightarrow> Some x)"

definition solve_with_budget :: "evaluator \<Rightarrow> 'o ResolutionProblem \<Rightarrow> nat \<Rightarrow> NoProgressReason SolveResult option" where
  "solve_with_budget eval problem budget =
     (if rp_auto_params problem = [] then Some (Solved [] True)
      else map_option (\<lambda>r. case r of
          NotEnumerable e \<Rightarrow> NoProgress (CannotEnumerate e)
        | Enumerated solutions exhausted \<Rightarrow>
            verdict_from_enumeration (first_of_models solutions) (length solutions) exhausted budget)
        (solve_all_with_budget eval problem 2 budget))"

fun lift_feasibility :: "NoProgressReason SolveResult \<Rightarrow> NoProgressReason RankedSolveResult" where
  "lift_feasibility (Solved vals unique) =
     Ranked [\<lparr>candidate_values = vals, objective_score = None, candidate_unique = unique\<rparr>] FeasibilityOnly not_attempted"
| "lift_feasibility Infeasible = RankedInfeasible"
| "lift_feasibility (NoProgress reason) = RankedNoProgress reason"

record ScoredModel =
  score :: f64
  model_index :: nat
  model_values :: ValueMap

definition scored_before :: "ScoredModel \<Rightarrow> ScoredModel \<Rightarrow> bool" where
  "scored_before a b \<longleftrightarrow>
     f64_lt (score a) (score b) \<or> \<not> f64_lt (score b) (score a) \<and> model_index a < model_index b"

text \<open>The heap as the ascending list of its entries; what it pops is the last.\<close>

fun heap_push :: "ScoredModel \<Rightarrow> ScoredModel list \<Rightarrow> ScoredModel list" where
  "heap_push m [] = [m]"
| "heap_push m (x # xs) = (if scored_before m x then m # x # xs else x # heap_push m xs)"

record Tally =
  retained :: "ScoredModel list"
  model_count :: nat
  first_unscored :: "ValueMap option"
  best :: "(f64 \<times> nat) option"

definition on_solution :: "(ValueMap \<Rightarrow> f64 option) \<Rightarrow> ValueMap \<Rightarrow> Tally \<Rightarrow> Tally" where
  "on_solution score_of solution t =
     (let t1 = t\<lparr>model_count := model_count t + 1\<rparr> in
      case score_of solution of
        None \<Rightarrow> (if first_unscored t1 = None then t1\<lparr>first_unscored := Some solution\<rparr> else t1)
      | Some sc \<Rightarrow>
          (let heap = heap_push \<lparr>score = sc, model_index = model_count t, model_values = solution\<rparr> (retained t1) in
           t1\<lparr>best := Some (case best t1 of
                  Some (seen, ties) \<Rightarrow> if f64_eq sc seen then (seen, ties + 1) else if f64_lt seen sc then (seen, ties) else (sc, 1)
                | None \<Rightarrow> (sc, 1)),
              retained := (if length heap > RANKED_CANDIDATE_CAP then butlast heap else heap)\<rparr>))"

definition rank_models :: "bool \<Rightarrow> nat \<Rightarrow> Tally \<Rightarrow> NoProgressReason RankedSolveResult" where
  "rank_models exhausted budget t =
     (case best t of
        None \<Rightarrow> lift_feasibility (verdict_from_enumeration (first_unscored t) (model_count t) exhausted budget)
      | Some (best_score, best_ties) \<Rightarrow>
          Ranked (map (\<lambda>(rank, m). \<lparr>candidate_values = model_values m, objective_score = Some (score m),
                     candidate_unique = (rank = 0 \<and> exhausted \<and> best_ties = 1)\<rparr>) (enumerate 0 (retained t)))
            (if exhausted then ProvenOptimal else BestFound EnumerationBudget) not_attempted)"

definition feasibility_ranking :: "evaluator \<Rightarrow> 'o ResolutionProblem \<Rightarrow> nat \<Rightarrow> NoProgressReason RankedSolveResult option" where
  "feasibility_ranking eval problem budget = map_option lift_feasibility (solve_with_budget eval problem budget)"

definition solve_ranked_with_budget ::
  "evaluator \<Rightarrow> ('o \<Rightarrow> ValueMap \<Rightarrow> f64 option) \<Rightarrow> 'o ResolutionProblem \<Rightarrow> nat \<Rightarrow> NoProgressReason RankedSolveResult option" where
  "solve_ranked_with_budget eval eval_objective_set problem budget =
     (case rp_objective problem of
        None \<Rightarrow> feasibility_ranking eval problem budget
      | Some objective \<Rightarrow>
          map_option (\<lambda>r. case r of
              Inl e \<Rightarrow> RankedNoProgress (CannotEnumerate e)
            | Inr (models, exhausted) \<Rightarrow>
                rank_models exhausted budget
                  (fold (on_solution (\<lambda>solution. eval_objective_set objective
                       (build_scoring_values eval (rp_current_values problem) solution (rp_dependent_cells problem))))
                     models \<lparr>retained = [], model_count = 0, first_unscored = None, best = None\<rparr>))
            (enumerate_with_budget eval problem USIZE_MAX budget))"

text \<open>The two operations of the solver interface.\<close>

definition cpsat_solve :: "evaluator \<Rightarrow> 'o ResolutionProblem \<Rightarrow> NoProgressReason SolveResult option" where
  "cpsat_solve eval problem = solve_with_budget eval problem ENUMERATION_NODE_BUDGET"

definition cpsat_solve_ranked ::
  "evaluator \<Rightarrow> ('o \<Rightarrow> ValueMap \<Rightarrow> f64 option) \<Rightarrow> 'o ResolutionProblem \<Rightarrow> NoProgressReason RankedSolveResult option" where
  "cpsat_solve_ranked eval eval_objective_set problem =
     solve_ranked_with_budget eval eval_objective_set problem ENUMERATION_NODE_BUDGET"

definition is_all_discrete :: "'o ResolutionProblem \<Rightarrow> bool" where
  "is_all_discrete problem \<longleftrightarrow>
     rp_auto_params problem \<noteq> [] \<and> list_all (\<lambda>ap. can_enumerate ap (rp_constraints problem)) (rp_auto_params problem)"

text \<open>The fallback of the registry, over the discrete solver and the solver of the other problems.\<close>

definition discrete_first_solve :: "('o ResolutionProblem \<Rightarrow> 'a) \<Rightarrow> ('o ResolutionProblem \<Rightarrow> 'a) \<Rightarrow> 'o ResolutionProblem \<Rightarrow> 'a" where
  "discrete_first_solve discrete other problem = (if is_all_discrete problem then discrete problem else other problem)"

end
