(* ===== verification/CpsatLaws.thy ===== *)
theory CpsatLaws
  imports Cpsat Subproblems
begin

text \<open>
  The search of the discrete solver against its reference: a depth-first walk in
  which every trial sees all dependent cells derived afresh from the assigned
  autos.  The incremental derivation of the code gives the same map at every
  trial, so the models come out in the same order, cut off only by the cap and
  the node budget.
\<close>

section \<open>Derived cells\<close>

text \<open>
  The values of these expressions depend only on the cells that occur in them as
  value references.  The evaluator of \<open>reify-expr\<close> reads cells in other ways only
  for calls of composed fields and for what lambdas capture.
\<close>

definition local_eval :: "evaluator \<Rightarrow> (Value, Type) CompiledExpr set \<Rightarrow> bool" where
  "local_eval eval exprs \<longleftrightarrow>
     (\<forall>expr \<in> exprs. \<forall>m1 m2. (\<forall>c \<in> bare_reads expr. hm_get m1 c = hm_get m2 c) \<longrightarrow> eval m1 expr = eval m2 expr)"

lemma local_evalD:
  "local_eval eval exprs \<Longrightarrow> expr \<in> exprs \<Longrightarrow> (\<And>c. c \<in> bare_reads expr \<Longrightarrow> hm_get m1 c = hm_get m2 c) \<Longrightarrow> eval m1 expr = eval m2 expr"
  unfolding local_eval_def by blast

lemma fold_cells_simps [simp]:
  "fold_dependent_cells eval solver_owned [] m = m"
  "fold_dependent_cells eval solver_owned (cell # cells) m =
     fold_dependent_cells eval solver_owned cells
       (if solver_owned (fst cell) then m else hm_insert (fst cell) (eval m (snd cell)) m)"
  by (cases cell; simp add: fold_dependent_cells_def split: prod.split)+

lemma fold_cells_append:
  "fold_dependent_cells eval solver_owned (xs @ ys) m =
     fold_dependent_cells eval solver_owned ys (fold_dependent_cells eval solver_owned xs m)"
  by (induction xs arbitrary: m) simp_all

lemma fold_cells_other:
  "c \<notin> fst ` set cells \<Longrightarrow> hm_get (fold_dependent_cells eval solver_owned cells m) c = hm_get m c"
  by (induction cells arbitrary: m) (auto simp: hm_simps)

text \<open>The autos assigned along a path, in the order of the variables.\<close>

definition bind_path :: "Variable list \<Rightarrow> Value list \<Rightarrow> ValueMap \<Rightarrow> ValueMap" where
  "bind_path vars p m = fold (\<lambda>(var, v). hm_insert (var_id var) v) (zip vars p) m"

lemma bind_path_other: "c \<notin> var_id ` set vars \<Longrightarrow> hm_get (bind_path vars p m) c = hm_get m c"
proof (induction vars arbitrary: p m)
  case (Cons var vars)
  then show ?case by (cases p) (auto simp: bind_path_def hm_simps)
qed (simp add: bind_path_def)

lemma bind_path_var:
  "distinct (map var_id vars) \<Longrightarrow> i < length vars \<Longrightarrow>
     hm_get (bind_path vars p m) (var_id (vars ! i)) = (if i < length p then Some (p ! i) else hm_get m (var_id (vars ! i)))"
proof (induction vars arbitrary: p m i)
  case (Cons var vars)
  show ?case
  proof (cases p)
    case Nil
    then show ?thesis by (simp add: bind_path_def)
  next
    case p: (Cons v q)
    have step: "bind_path (var # vars) p m = bind_path vars q (hm_insert (var_id var) v m)"
      by (simp add: p bind_path_def)
    show ?thesis
    proof (cases i)
      case 0
      then show ?thesis using bind_path_other [of "var_id var" vars] Cons.prems unfolding step by (simp add: p hm_simps)
    next
      case (Suc j)
      then have "vars ! j \<in> set vars" using Cons.prems by simp
      then have "var_id (vars ! j) \<noteq> var_id var" using Cons.prems(1) by (metis distinct.simps(2) image_eqI list.set_map list.simps(9))
      then show ?thesis using Cons.IH [of j] Cons.prems Suc unfolding step by (simp add: p hm_simps)
    qed
  qed
qed simp

section \<open>Searches\<close>

abbreviation cell_id :: "ScheduledCell \<Rightarrow> ValueCellId" where
  "cell_id sc \<equiv> fst (sc_cell sc)"

abbreviation cell_reads :: "ScheduledCell \<Rightarrow> ValueCellId set" where
  "cell_reads sc \<equiv> bare_reads (snd (sc_cell sc))"

text \<open>A cell may be trusted from the depth of the deepest auto behind it.\<close>

definition schedule_ok :: "Variable list \<Rightarrow> ScheduledCell list \<Rightarrow> bool" where
  "schedule_ok vars cells \<longleftrightarrow>
     distinct (map cell_id cells) \<and> cell_id ` set cells \<inter> var_id ` set vars = {}
     \<and> (\<forall>pre sc post. cells = pre @ sc # post \<longrightarrow> cell_reads sc \<inter> cell_id ` set cells \<subseteq> cell_id ` set pre)
     \<and> (\<forall>sc \<in> set cells. \<forall>e. exact_from sc = Some e \<longrightarrow>
          (\<forall>i < length vars. var_id (vars ! i) \<in> cell_reads sc \<longrightarrow> i \<le> e)
          \<and> (\<forall>sc' \<in> set cells. cell_id sc' \<in> cell_reads sc \<longrightarrow> (\<exists>e'. exact_from sc' = Some e' \<and> e' \<le> e)))"

definition searched_exprs :: "SearchContext \<Rightarrow> (Value, Type) CompiledExpr set" where
  "searched_exprs ctx = (\<lambda>sc. snd (sc_cell sc)) ` set (sx_cells ctx) \<union> (\<lambda>(cid, expr, refs). expr) ` set (sx_constraints ctx)"

lemma searched_cell: "sc \<in> set (sx_cells ctx) \<Longrightarrow> snd (sc_cell sc) \<in> searched_exprs ctx"
  by (simp add: searched_exprs_def)

definition search_ok :: "SearchContext \<Rightarrow> ValueMap \<Rightarrow> bool" where
  "search_ok ctx base \<longleftrightarrow>
     local_eval (sx_eval ctx) (searched_exprs ctx) \<and> distinct (map var_id (variables ctx))
     \<and> set (auto_param_ids ctx) = var_id ` set (variables ctx)
     \<and> (\<forall>a \<in> set (auto_param_ids ctx). hm_get base a = None)
     \<and> schedule_ok (variables ctx) (sx_cells ctx)"

definition total_map :: "SearchContext \<Rightarrow> ValueMap \<Rightarrow> Value list \<Rightarrow> ValueMap" where
  "total_map ctx base p =
     fold_dependent_cells (sx_eval ctx) (\<lambda>c. c \<in> set (auto_param_ids ctx)) (map sc_cell (sx_cells ctx))
       (bind_path (variables ctx) p base)"

lemma search_okD:
  assumes "search_ok ctx base"
  shows "local_eval (sx_eval ctx) (searched_exprs ctx)" "distinct (map var_id (variables ctx))"
    "set (auto_param_ids ctx) = var_id ` set (variables ctx)"
    "i < length (variables ctx) \<Longrightarrow> hm_get base (var_id (variables ctx ! i)) = None"
    "distinct (map cell_id (sx_cells ctx))" "sc \<in> set (sx_cells ctx) \<Longrightarrow> cell_id sc \<notin> var_id ` set (variables ctx)"
    "sx_cells ctx = pre @ x # post \<Longrightarrow> cell_reads x \<inter> cell_id ` set (sx_cells ctx) \<subseteq> cell_id ` set pre"
    "sc \<in> set (sx_cells ctx) \<Longrightarrow> exact_from sc = Some e \<Longrightarrow> i < length (variables ctx) \<Longrightarrow>
       var_id (variables ctx ! i) \<in> cell_reads sc \<Longrightarrow> i \<le> e"
    "sc \<in> set (sx_cells ctx) \<Longrightarrow> exact_from sc = Some e \<Longrightarrow> sc' \<in> set (sx_cells ctx) \<Longrightarrow> cell_id sc' \<in> cell_reads sc \<Longrightarrow>
       \<exists>e'. exact_from sc' = Some e' \<and> e' \<le> e"
proof -
  have sched: "schedule_ok (variables ctx) (sx_cells ctx)" and ids: "set (auto_param_ids ctx) = var_id ` set (variables ctx)"
    and base: "\<forall>a \<in> set (auto_param_ids ctx). hm_get base a = None"
    using assms by (simp_all add: search_ok_def)
  show "local_eval (sx_eval ctx) (searched_exprs ctx)" "distinct (map var_id (variables ctx))" using assms by (simp_all add: search_ok_def)
  show "set (auto_param_ids ctx) = var_id ` set (variables ctx)" by (rule ids)
  show "i < length (variables ctx) \<Longrightarrow> hm_get base (var_id (variables ctx ! i)) = None" using base ids by simp
  show "distinct (map cell_id (sx_cells ctx))" using sched by (simp add: schedule_ok_def)
  show "sc \<in> set (sx_cells ctx) \<Longrightarrow> cell_id sc \<notin> var_id ` set (variables ctx)"
    using sched unfolding schedule_ok_def by blast
  show "sx_cells ctx = pre @ x # post \<Longrightarrow> cell_reads x \<inter> cell_id ` set (sx_cells ctx) \<subseteq> cell_id ` set pre"
    using sched unfolding schedule_ok_def by blast
  show "sc \<in> set (sx_cells ctx) \<Longrightarrow> exact_from sc = Some e \<Longrightarrow> i < length (variables ctx) \<Longrightarrow>
       var_id (variables ctx ! i) \<in> cell_reads sc \<Longrightarrow> i \<le> e"
    "sc \<in> set (sx_cells ctx) \<Longrightarrow> exact_from sc = Some e \<Longrightarrow> sc' \<in> set (sx_cells ctx) \<Longrightarrow> cell_id sc' \<in> cell_reads sc \<Longrightarrow>
       \<exists>e'. exact_from sc' = Some e' \<and> e' \<le> e"
    using sched by (simp_all add: schedule_ok_def)
qed

lemma total_other:
  assumes "c \<notin> cell_id ` set (sx_cells ctx)"
  shows "hm_get (total_map ctx base p) c = hm_get (bind_path (variables ctx) p base) c"
  using assms unfolding total_map_def by (intro fold_cells_other) auto

lemma total_var:
  assumes "search_ok ctx base" "i < length (variables ctx)"
  shows "hm_get (total_map ctx base p) (var_id (variables ctx ! i)) = (if i < length p then Some (p ! i) else None)"
proof -
  have "var_id (variables ctx ! i) \<notin> cell_id ` set (sx_cells ctx)"
  proof
    assume "var_id (variables ctx ! i) \<in> cell_id ` set (sx_cells ctx)"
    then obtain sc where "sc \<in> set (sx_cells ctx)" "cell_id sc = var_id (variables ctx ! i)" by force
    with search_okD(6) [OF assms(1)] nth_mem [OF assms(2)] show False by force
  qed
  then show ?thesis
    using total_other bind_path_var [OF search_okD(2) [OF assms(1)] assms(2)] search_okD(4) [OF assms] by simp
qed

lemma total_cell:
  assumes ok: "search_ok ctx base" and sc: "sc \<in> set (sx_cells ctx)"
  shows "hm_get (total_map ctx base p) (cell_id sc) = Some (sx_eval ctx (total_map ctx base p) (snd (sc_cell sc)))"
proof -
  obtain pre post where split: "sx_cells ctx = pre @ sc # post" using sc by (meson split_list)
  let ?f = "\<lambda>cells. fold_dependent_cells (sx_eval ctx) (\<lambda>c. c \<in> set (auto_param_ids ctx)) (map sc_cell cells)"
  define m where "m = ?f pre (bind_path (variables ctx) p base)"
  have dist: "distinct (map cell_id (pre @ sc # post))" using search_okD(5) [OF ok] by (simp add: split)
  have "cell_id sc \<notin> set (auto_param_ids ctx)" using search_okD(3,6) [OF ok] sc by auto
  then have total: "total_map ctx base p = ?f post (hm_insert (cell_id sc) (sx_eval ctx m (snd (sc_cell sc))) m)"
    by (simp add: total_map_def split fold_cells_append m_def)
  have "hm_get m c = hm_get (total_map ctx base p) c" if "c \<in> cell_reads sc" for c
  proof -
    have "c \<notin> cell_id ` set (sc # post)"
    proof
      assume c: "c \<in> cell_id ` set (sc # post)"
      then have "c \<in> cell_id ` set pre" using search_okD(7) [OF ok split] that by (auto simp: split)
      then have "c \<in> cell_id ` set pre \<inter> set (map cell_id (sc # post))" using c by auto
      moreover have "set (map cell_id pre) \<inter> set (map cell_id (sc # post)) = {}"
        using dist unfolding map_append distinct_append by blast
      ultimately show False unfolding set_map by blast
    qed
    then show ?thesis by (simp add: total fold_cells_other hm_simps image_image)
  qed
  then have "sx_eval ctx m (snd (sc_cell sc)) = sx_eval ctx (total_map ctx base p) (snd (sc_cell sc))"
    using local_evalD [OF search_okD(1) [OF ok] searched_cell [OF sc]] by blast
  moreover have "cell_id sc \<notin> fst ` set (map sc_cell post)" using dist by auto
  then have "hm_get (total_map ctx base p) (cell_id sc) = Some (sx_eval ctx m (snd (sc_cell sc)))"
    unfolding total by (subst fold_cells_other) (simp_all add: hm_simps)
  ultimately show ?thesis by simp
qed

text \<open>An exact cell keeps its value along every extension of the path.\<close>

lemma total_exact:
  assumes ok: "search_ok ctx base"
  shows "sc \<in> set (sx_cells ctx) \<Longrightarrow> exact_from sc = Some e \<Longrightarrow> e < length p \<Longrightarrow>
    hm_get (total_map ctx base (p @ q)) (cell_id sc) = hm_get (total_map ctx base p) (cell_id sc)"
proof -
  have "hm_get (total_map ctx base (p @ q)) (cell_id sc) = hm_get (total_map ctx base p) (cell_id sc)"
    if "sx_cells ctx = pre @ sc # post" "exact_from sc = Some e" "e < length p" for pre sc post e
    using that
  proof (induction "length pre" arbitrary: pre sc post e rule: less_induct)
    case less
    have sc: "sc \<in> set (sx_cells ctx)" by (simp add: less.prems(1))
    have "hm_get (total_map ctx base (p @ q)) c = hm_get (total_map ctx base p) c" if c: "c \<in> cell_reads sc" for c
    proof (cases "c \<in> cell_id ` set (sx_cells ctx)")
      case True
      then have "c \<in> cell_id ` set pre" using search_okD(7) [OF ok less.prems(1)] c by blast
      then obtain sc' where sc': "sc' \<in> set pre" "c = cell_id sc'" by blast
      then obtain pre' post' where split: "pre = pre' @ sc' # post'" by (meson split_list)
      have "sc' \<in> set (sx_cells ctx)" using sc'(1) less.prems(1) by simp
      then obtain e' where e': "exact_from sc' = Some e'" "e' \<le> e"
        using search_okD(9) [OF ok sc less.prems(2)] c sc'(2) by blast
      have "sx_cells ctx = pre' @ sc' # (post' @ sc # post)" using less.prems(1) split by simp
      from less.hyps [OF _ this e'(1)] e'(2) less.prems(3) split show ?thesis by (simp add: sc'(2))
    next
      case False
      show ?thesis
      proof (cases "c \<in> var_id ` set (variables ctx)")
        case True
        then obtain i where i: "i < length (variables ctx)" "c = var_id (variables ctx ! i)"
          by (metis imageE in_set_conv_nth)
        then have "i \<le> e" using search_okD(8) [OF ok sc less.prems(2)] c by blast
        then show ?thesis using less.prems(3) by (simp add: i total_var [OF ok i(1)] nth_append)
      next
        case other: False
        with False show ?thesis by (simp add: total_other bind_path_other)
      qed
    qed
    then have "sx_eval ctx (total_map ctx base (p @ q)) (snd (sc_cell sc)) = sx_eval ctx (total_map ctx base p) (snd (sc_cell sc))"
      using local_evalD [OF search_okD(1) [OF ok] searched_cell [OF sc]] by blast
    then show ?case by (simp add: total_cell [OF ok sc])
  qed
  then show "sc \<in> set (sx_cells ctx) \<Longrightarrow> exact_from sc = Some e \<Longrightarrow> e < length p \<Longrightarrow> ?thesis" by (meson split_list)
qed


section \<open>One trial\<close>

text \<open>
  Before a trial at depth \<open>length p\<close> the autos of the path are assigned, the deeper
  ones are not, and the cells that are exact on the path hold their values.
\<close>

definition ready :: "SearchContext \<Rightarrow> ValueMap \<Rightarrow> Value list \<Rightarrow> ValueMap \<Rightarrow> bool" where
  "ready ctx base p m \<longleftrightarrow>
     (\<forall>c. c \<notin> var_id ` set (variables ctx) \<and> c \<notin> cell_id ` set (sx_cells ctx) \<longrightarrow> hm_get m c = hm_get base c)
     \<and> (\<forall>j < length (variables ctx). j \<noteq> length p \<longrightarrow>
          hm_get m (var_id (variables ctx ! j)) = (if j < length p then Some (p ! j) else None))
     \<and> (\<forall>sc \<in> set (sx_cells ctx). \<forall>e. exact_from sc = Some e \<longrightarrow> e < length p \<longrightarrow>
          hm_get m (cell_id sc) = hm_get (total_map ctx base p) (cell_id sc))"

definition clean :: "SearchContext \<Rightarrow> ValueMap \<Rightarrow> Value list \<Rightarrow> ValueMap \<Rightarrow> bool" where
  "clean ctx base p m \<longleftrightarrow> ready ctx base p m
     \<and> (length p < length (variables ctx) \<longrightarrow> hm_get m (var_id (variables ctx ! length p)) = None)"

definition settled :: "SearchContext \<Rightarrow> ValueMap \<Rightarrow> Value list \<Rightarrow> ValueMap \<Rightarrow> bool" where
  "settled ctx base p m \<longleftrightarrow> (\<forall>c. hm_get m c = hm_get (total_map ctx base p) c)"

lemma settled_clean:
  assumes ok: "search_ok ctx base" and s: "settled ctx base p m"
  shows "clean ctx base p m"
proof -
  have "hm_get m c = hm_get base c" if "c \<notin> var_id ` set (variables ctx)" "c \<notin> cell_id ` set (sx_cells ctx)" for c
    using s that by (simp add: settled_def total_other bind_path_other)
  moreover have "hm_get m (var_id (variables ctx ! j)) = (if j < length p then Some (p ! j) else None)"
    if "j < length (variables ctx)" for j
    using s total_var [OF ok that] by (simp add: settled_def)
  ultimately show ?thesis using s by (auto simp: clean_def ready_def settled_def)
qed

lemma clean_ready:
  assumes ok: "search_ok ctx base" and c: "clean ctx base (p @ [v]) m"
  shows "ready ctx base p m"
proof -
  have r: "ready ctx base (p @ [v]) m" using c by (simp add: clean_def)
  have "hm_get m (var_id (variables ctx ! j)) = (if j < length p then Some (p ! j) else None)"
    if j: "j < length (variables ctx)" "j \<noteq> length p" for j
  proof (cases "j = length (p @ [v])")
    case True
    then show ?thesis using c j(1) by (simp add: clean_def)
  next
    case False
    then show ?thesis using r j by (auto simp: ready_def nth_append)
  qed
  moreover have "hm_get m (cell_id sc) = hm_get (total_map ctx base p) (cell_id sc)"
    if "sc \<in> set (sx_cells ctx)" "exact_from sc = Some e" "e < length p" for sc e
    using r that total_exact [OF ok that, of "[v]"] by (auto simp: ready_def)
  ultimately show ?thesis using r by (simp add: ready_def)
qed

lemma unassign_clean:
  assumes ok: "search_ok ctx base" and r: "ready ctx base p (assignment s)"
    and p: "length p < length (variables ctx)"
  shows "clean ctx base p (assignment (unassign (variables ctx ! length p) s))"
proof -
  let ?x = "var_id (variables ctx ! length p)"
  have get: "hm_get (assignment (unassign (variables ctx ! length p) s)) c = (if c = ?x then None else hm_get (assignment s) c)" for c
    by (simp add: unassign_def hm_simps)
  have x: "?x \<in> var_id ` set (variables ctx)" using p by simp
  have cells: "cell_id sc \<noteq> ?x" if "sc \<in> set (sx_cells ctx)" for sc
    using search_okD(6) [OF ok that] x by metis
  have vars: "var_id (variables ctx ! j) \<noteq> ?x" if "j < length (variables ctx)" "j \<noteq> length p" for j
    using search_okD(2) [OF ok] that p nth_eq_iff_index_eq [of "map var_id (variables ctx)" j "length p"] by simp
  have other: "c \<noteq> ?x" if "c \<notin> var_id ` set (variables ctx)" for c using x that by metis
  show ?thesis
    unfolding clean_def ready_def get
  proof (intro conjI allI ballI impI)
    fix c assume c: "c \<notin> var_id ` set (variables ctx) \<and> c \<notin> cell_id ` set (sx_cells ctx)"
    then show "(if c = ?x then None else hm_get (assignment s) c) = hm_get base c"
      using r other [of c] by (simp add: ready_def)
  next
    fix j assume "j < length (variables ctx)" "j \<noteq> length p"
    then show "(if var_id (variables ctx ! j) = ?x then None else hm_get (assignment s) (var_id (variables ctx ! j)))
        = (if j < length p then Some (p ! j) else None)"
      using r vars [of j] by (simp add: ready_def)
  next
    fix sc e assume "sc \<in> set (sx_cells ctx)" "exact_from sc = Some e" "e < length p"
    then show "(if cell_id sc = ?x then None else hm_get (assignment s) (cell_id sc)) = hm_get (total_map ctx base p) (cell_id sc)"
      using r cells [of sc] by (simp add: ready_def)
  qed simp
qed

lemma trial_settled:
  assumes ok: "search_ok ctx base" and r: "ready ctx base p m" and p: "length p < length (variables ctx)"
  shows "settled ctx base (p @ [v]) (trial ctx (length p) (variables ctx ! length p) v m)"
proof -
  let ?x = "var_id (variables ctx ! length p)" and ?T = "total_map ctx base (p @ [v])"
  let ?f = "\<lambda>cells. fold_dependent_cells (sx_eval ctx) (\<lambda>c. c \<in> set (auto_param_ids ctx))
      (map sc_cell (filter (needs_rederive_at (length p)) cells))"
  let ?ids = "cell_id ` set (sx_cells ctx)"
  have x: "?x \<in> var_id ` set (variables ctx)" using p by simp
  have start: "hm_get (hm_insert ?x v m) c = hm_get ?T c"
    if c: "c \<notin> ?ids" for c
  proof (cases "c \<in> var_id ` set (variables ctx)")
    case True
    then obtain j where j: "j < length (variables ctx)" "c = var_id (variables ctx ! j)"
      by (metis imageE in_set_conv_nth)
    then have "c = ?x \<longleftrightarrow> j = length p"
      using search_okD(2) [OF ok] p nth_eq_iff_index_eq [of "map var_id (variables ctx)" j "length p"] by simp
    then show ?thesis using r j total_var [OF ok j(1), of "p @ [v]"]
      by (auto simp: hm_simps ready_def nth_append)
  next
    case False
    then have "hm_get (hm_insert ?x v m) c = hm_get base c" using r c x by (auto simp: hm_simps ready_def)
    then show ?thesis using False c by (simp add: total_other bind_path_other)
  qed
  have skipped: "hm_get (hm_insert ?x v m) (cell_id sc) = hm_get ?T (cell_id sc)"
    if sc: "sc \<in> set (sx_cells ctx)" "\<not> needs_rederive_at (length p) sc" for sc
  proof -
    obtain e where e: "exact_from sc = Some e" "e < length p"
      using sc(2) by (auto simp: needs_rederive_at_def split: option.splits)
    have "cell_id sc \<noteq> ?x" using search_okD(6) [OF ok sc(1)] x by metis
    then show ?thesis using r sc(1) e total_exact [OF ok sc(1) e, of "[v]"] by (auto simp: hm_simps ready_def)
  qed
  have "\<forall>c. hm_get (?f post m1) c = hm_get ?T c"
    if "sx_cells ctx = pre @ post" "\<forall>c. c \<notin> ?ids \<longrightarrow> hm_get m1 c = hm_get ?T c"
      "\<forall>sc \<in> set (sx_cells ctx). sc \<in> set pre \<or> \<not> needs_rederive_at (length p) sc \<longrightarrow>
         hm_get m1 (cell_id sc) = hm_get ?T (cell_id sc)" for pre post m1
    using that
  proof (induction post arbitrary: pre m1)
    case Nil
    then have "hm_get m1 c = hm_get ?T c" for c by (cases "c \<in> ?ids") auto
    then show ?case by simp
  next
    case (Cons sc post)
    have sc: "sc \<in> set (sx_cells ctx)" using Cons.prems(1) by simp
    have next_split: "sx_cells ctx = (pre @ [sc]) @ post" using Cons.prems(1) by simp
    show ?case
    proof (cases "needs_rederive_at (length p) sc")
      case False
      have "\<forall>sc' \<in> set (sx_cells ctx). sc' \<in> set (pre @ [sc]) \<or> \<not> needs_rederive_at (length p) sc' \<longrightarrow>
          hm_get m1 (cell_id sc') = hm_get ?T (cell_id sc')"
        using Cons.prems(3) False by auto
      from Cons.IH [OF next_split Cons.prems(2) this] False show ?thesis by simp
    next
      case True
      let ?m2 = "hm_insert (cell_id sc) (sx_eval ctx m1 (snd (sc_cell sc))) m1"
      have "hm_get m1 c = hm_get ?T c" if c: "c \<in> cell_reads sc" for c
      proof (cases "c \<in> ?ids")
        case True
        then obtain sc' where "sc' \<in> set pre" "c = cell_id sc'" using search_okD(7) [OF ok Cons.prems(1)] c by blast
        then show ?thesis using Cons.prems(1,3) by auto
      qed (use Cons.prems(2) in blast)
      then have "sx_eval ctx m1 (snd (sc_cell sc)) = sx_eval ctx ?T (snd (sc_cell sc))"
        using local_evalD [OF search_okD(1) [OF ok] searched_cell [OF sc]] by blast
      then have at: "hm_get ?m2 (cell_id sc) = hm_get ?T (cell_id sc)"
        by (simp add: hm_simps total_cell [OF ok sc])
      have "\<forall>c. c \<notin> ?ids \<longrightarrow> hm_get ?m2 c = hm_get ?T c" using Cons.prems(2) sc by (auto simp: hm_simps)
      moreover have "\<forall>sc' \<in> set (sx_cells ctx). sc' \<in> set (pre @ [sc]) \<or> \<not> needs_rederive_at (length p) sc' \<longrightarrow>
          hm_get ?m2 (cell_id sc') = hm_get ?T (cell_id sc')"
        using Cons.prems(3) at by (auto simp: hm_simps)
      moreover have "cell_id sc \<notin> set (auto_param_ids ctx)" using search_okD(3,6) [OF ok] sc by auto
      ultimately show ?thesis using Cons.IH [OF next_split, of ?m2] True by simp
    qed
  qed
  from this [of "[]" "sx_cells ctx" "hm_insert ?x v m"] start skipped show ?thesis
    by (simp add: settled_def trial_def)
qed


section \<open>The reference search\<close>

fun models :: "(Value list \<Rightarrow> bool) \<Rightarrow> Variable list \<Rightarrow> Value list \<Rightarrow> Value list list" where
  "models ok [] p = [p]"
| "models ok (var # vars) p =
     concat (map (\<lambda>v. if ok (p @ [v]) then models ok vars (p @ [v]) else []) (var_domain var))"

fun trials :: "(Value list \<Rightarrow> bool) \<Rightarrow> Variable list \<Rightarrow> Value list \<Rightarrow> nat" where
  "trials ok [] p = 0"
| "trials ok (var # vars) p =
     (\<Sum>v \<leftarrow> var_domain var. Suc (if ok (p @ [v]) then trials ok vars (p @ [v]) else 0))"

definition consistent :: "SearchContext \<Rightarrow> ValueMap \<Rightarrow> Value list \<Rightarrow> bool" where
  "consistent ctx base p \<longleftrightarrow>
     forward_check (sx_eval ctx) (auto_param_ids ctx) (total_map ctx base p) (sx_constraints ctx)"

lemma forward_check_settled:
  assumes "local_eval eval exprs" "(\<lambda>(cid, expr, refs). expr) ` set cs \<subseteq> exprs" "\<And>c. hm_get m1 c = hm_get m2 c"
  shows "forward_check eval ids m1 cs = forward_check eval ids m2 cs"
  using assms(2)
proof (induction cs)
  case (Cons c cs)
  obtain cid expr refs where c: "c = (cid, expr, refs)" by (cases c)
  have "expr \<in> exprs" using Cons.prems by (simp add: c)
  then have "eval m1 expr = eval m2 expr" by (rule local_evalD [OF assms(1)]) (rule assms(3))
  moreover have "hm_contains m1 = hm_contains m2" by (intro ext) (simp add: hm_contains_def assms(3))
  ultimately show ?case using Cons by (simp add: c)
qed simp

lemma solution_of_path:
  "length p = length vars \<Longrightarrow> \<forall>i < length vars. hm_get m (var_id (vars ! i)) = Some (p ! i) \<Longrightarrow>
     fold (\<lambda>var sol. case hm_get m (var_id var) of Some v \<Rightarrow> hm_insert (var_id var) v sol | None \<Rightarrow> sol) vars sol
       = bind_path vars p sol"
proof (induction vars arbitrary: p sol)
  case (Cons var vars)
  then obtain v q where p: "p = v # q" by (cases p) auto
  have "hm_get m (var_id var) = Some v" using Cons.prems(2) p by force
  moreover have "\<forall>i < length vars. hm_get m (var_id (vars ! i)) = Some (q ! i)"
    using Cons.prems(2) p by force
  ultimately show ?case using Cons.IH [of q] Cons.prems(1) by (simp add: p bind_path_def)
qed (simp add: bind_path_def)

text \<open>
  What a search may do to its state: it emits a prefix of the models below it,
  all of them if it reports that it exhausted them, and stops early only at the
  cap or the budget.
\<close>

definition searched ::
  "SearchContext \<Rightarrow> ValueMap \<Rightarrow> Value list \<Rightarrow> Value list list \<Rightarrow> nat \<Rightarrow> SearchState \<Rightarrow> bool \<times> SearchState \<Rightarrow> bool" where
  "searched ctx base p ms n s r \<longleftrightarrow>
     (\<exists>es rest. ms = es @ rest \<and> emitted (snd r) = emitted s @ map (\<lambda>q. bind_path (variables ctx) q []) es
        \<and> sink_count (snd r) = sink_count s + length es \<and> nodes (snd r) \<le> nodes s + n
        \<and> (if fst r
           then rest = [] \<and> nodes (snd r) = nodes s + n \<and> (n = 0 \<or> nodes (snd r) < node_budget ctx)
             \<and> sink_count (snd r) < cap ctx \<and> clean ctx base p (assignment (snd r))
           else sink_count (snd r) \<ge> cap ctx \<or> nodes (snd r) \<ge> node_budget ctx \<and> n > 0))"

lemma searched_trial:
  assumes r: "searched ctx base p' ms n (s\<lparr>nodes := Suc (nodes s), assignment := m\<rparr>) (b, s1)"
    and budget: "Suc (nodes s) < node_budget ctx"
    and clean: "b \<Longrightarrow> clean ctx base p' (assignment s1) \<Longrightarrow> clean ctx base p (assignment s2)"
    and s2: "emitted s2 = emitted s1" "sink_count s2 = sink_count s1" "nodes s2 = nodes s1"
  shows "searched ctx base p ms (Suc n) s (b, s2)"
proof -
  from r obtain es rest where 1: "ms = es @ rest" "emitted s1 = emitted s @ map (\<lambda>q. bind_path (variables ctx) q []) es"
    "sink_count s1 = sink_count s + length es" "nodes s1 \<le> Suc (nodes s) + n"
    "if b then rest = [] \<and> nodes s1 = Suc (nodes s) + n \<and> (n = 0 \<or> nodes s1 < node_budget ctx)
       \<and> sink_count s1 < cap ctx \<and> clean ctx base p' (assignment s1)
     else sink_count s1 \<ge> cap ctx \<or> nodes s1 \<ge> node_budget ctx \<and> n > 0"
    unfolding searched_def by (cases b) auto
  show ?thesis unfolding searched_def
    by (rule exI [of _ es], rule exI [of _ rest]) (use 1 budget clean s2 in \<open>auto split: if_splits\<close>)
qed

text \<open>Between the trials of a variable the autos of the path and the exact cells stay.\<close>

definition searching ::
  "SearchContext \<Rightarrow> ValueMap \<Rightarrow> Value list \<Rightarrow> Value list list \<Rightarrow> nat \<Rightarrow> SearchState \<Rightarrow> SearchState \<Rightarrow> bool" where
  "searching ctx base p ms n s s1 \<longleftrightarrow>
     emitted s1 = emitted s @ map (\<lambda>q. bind_path (variables ctx) q []) ms \<and> sink_count s1 = sink_count s + length ms
     \<and> nodes s1 = nodes s + n \<and> (n = 0 \<or> nodes s1 < node_budget ctx) \<and> sink_count s1 < cap ctx \<and> ready ctx base p (assignment s1)"

lemma searched_next:
  assumes "searching ctx base p ms1 n1 s s1" "searched ctx base p ms2 n2 s1 r"
  shows "searched ctx base p (ms1 @ ms2) (n1 + n2) s r"
proof -
  from assms(2) obtain es rest where 2: "ms2 = es @ rest"
    "emitted (snd r) = emitted s1 @ map (\<lambda>q. bind_path (variables ctx) q []) es"
    "sink_count (snd r) = sink_count s1 + length es" "nodes (snd r) \<le> nodes s1 + n2"
    "if fst r then rest = [] \<and> nodes (snd r) = nodes s1 + n2 \<and> (n2 = 0 \<or> nodes (snd r) < node_budget ctx)
       \<and> sink_count (snd r) < cap ctx \<and> clean ctx base p (assignment (snd r))
     else sink_count (snd r) \<ge> cap ctx \<or> nodes (snd r) \<ge> node_budget ctx \<and> n2 > 0"
    unfolding searched_def by blast
  show ?thesis unfolding searched_def
    by (rule exI [of _ "ms1 @ es"], rule exI [of _ rest])
      (use 2 assms(1) in \<open>auto simp: searching_def split: if_splits\<close>)
qed

lemma searched_stop:
  assumes "searched ctx base p ms n s (False, s1)"
  shows "searched ctx base p (ms @ ms') (n + n') s (False, s1)"
proof -
  from assms obtain es rest where 1: "ms = es @ rest" "emitted s1 = emitted s @ map (\<lambda>q. bind_path (variables ctx) q []) es"
    "sink_count s1 = sink_count s + length es" "nodes s1 \<le> nodes s + n"
    "sink_count s1 \<ge> cap ctx \<or> nodes s1 \<ge> node_budget ctx \<and> n > 0"
    unfolding searched_def by auto
  show ?thesis unfolding searched_def
    by (rule exI [of _ es], rule exI [of _ "rest @ ms'"]) (use 1 in auto)
qed

lemma searching_trial:
  assumes "searched ctx base p' ms n (s\<lparr>nodes := Suc (nodes s), assignment := m\<rparr>) (True, s1)"
    "Suc (nodes s) < node_budget ctx" "ready ctx base p (assignment s1)"
  shows "searching ctx base p ms (Suc n) s s1"
  using assms by (auto simp: searched_def searching_def)

lemma search_reference:
  shows "search_ok ctx base \<Longrightarrow> vars = drop (length p) (variables ctx) \<Longrightarrow> i = length p \<Longrightarrow> length p \<le> length (variables ctx) \<Longrightarrow>
      clean ctx base p (assignment s) \<Longrightarrow>
      searched ctx base p (models (consistent ctx base) vars p) (trials (consistent ctx base) vars p) s
        (backtrack_all ctx i vars s)"
    and "search_ok ctx base \<Longrightarrow> var # vars = drop (length p) (variables ctx) \<Longrightarrow> i = length p \<Longrightarrow> sink_count s < cap ctx \<Longrightarrow>
      ready ctx base p (assignment s) \<Longrightarrow>
      searched ctx base p
        (concat (map (\<lambda>v. if consistent ctx base (p @ [v]) then models (consistent ctx base) vars (p @ [v]) else []) vs))
        (\<Sum>v \<leftarrow> vs. Suc (if consistent ctx base (p @ [v]) then trials (consistent ctx base) vars (p @ [v]) else 0)) s
        (try_values ctx i var vars vs s)"
proof (induction ctx i vars s and ctx i var vars vs s arbitrary: p and p rule: backtrack_all_try_values.induct)
  case (1 ctx i s)
  then have len: "length p = length (variables ctx)" by simp
  then have "\<forall>j < length (variables ctx). hm_get (assignment s) (var_id (variables ctx ! j)) = Some (p ! j)"
    using 1 by (auto simp: clean_def ready_def)
  then have sol: "solution_of (variables ctx) (assignment s) = bind_path (variables ctx) p []"
    using solution_of_path [OF len] by (simp add: solution_of_def)
  show ?case
  proof (cases "sink_count s \<ge> cap ctx")
    case True
    then show ?thesis unfolding searched_def by (intro exI [of _ "[]"] exI [of _ "models (consistent ctx base) [] p"]) auto
  next
    case False
    then show ?thesis using 1 unfolding searched_def
      by (intro exI [of _ "[p]"] exI [of _ "[]"]) (auto simp: sol accept_def Let_def)
  qed
next
  case (2 ctx i var vars s)
  show ?case
  proof (cases "sink_count s \<ge> cap ctx")
    case True
    then show ?thesis unfolding searched_def by (intro exI [of _ "[]"] exI [of _ "models (consistent ctx base) (var # vars) p"]) auto
  next
    case False
    moreover have "sink_count s < cap ctx" "ready ctx base p (assignment s)" using False 2(6) by (simp_all add: clean_def)
    ultimately show ?thesis using 2(1) [OF False 2(2,3,4)] by simp
  qed
next
  case (3 ctx i var vars s)
  have p: "length p < length (variables ctx)" using 3 by (metis drop_all list.distinct(1) not_le)
  then have "var = variables ctx ! length p" using 3 by (metis Cons_nth_drop_Suc list.inject)
  then have "clean ctx base p (assignment (unassign var s))" using unassign_clean 3 p by blast
  then show ?case using 3 by (auto simp: searched_def unassign_def)
next
  case (4 ctx i var vars v vs s)
  let ?ok = "consistent ctx base"
  let ?ms = "concat (map (\<lambda>v. if ?ok (p @ [v]) then models ?ok vars (p @ [v]) else []) vs)"
  let ?n = "\<Sum>v \<leftarrow> vs. Suc (if ?ok (p @ [v]) then trials ?ok vars (p @ [v]) else 0)"
  let ?q = "p @ [v]"
  let ?s2 = "s\<lparr>nodes := nodes s + 1, assignment := trial ctx i var v (assignment s)\<rparr>"
  have p: "length p < length (variables ctx)" using 4 by (metis drop_all list.distinct(1) not_le)
  have drop: "drop (length p) (variables ctx) = variables ctx ! length p # drop (Suc (length p)) (variables ctx)"
    using Cons_nth_drop_Suc [OF p] by simp
  then have var: "var = variables ctx ! length p" and vars: "vars = drop (length ?q) (variables ctx)" using 4 by simp_all
  note ok = "4.prems"(1)
  have settled: "settled ctx base ?q (assignment ?s2)"
    using trial_settled [OF ok "4.prems"(5) p, of v] by (simp add: var "4.prems"(3))
  have clean: "clean ctx base ?q (assignment ?s2)" by (rule settled_clean [OF ok settled])
  have check: "forward_check (sx_eval ctx) (auto_param_ids ctx) (assignment ?s2) (sx_constraints ctx) = ?ok ?q"
    unfolding consistent_def using settled
    by (intro forward_check_settled [OF search_okD(1) [OF ok]]) (simp_all add: settled_def searched_exprs_def)
  have ready: "ready ctx base p (assignment s1)" if "clean ctx base ?q (assignment s1)" for s1
    by (rule clean_ready [OF ok that])
  show ?case
  proof (cases "node_budget ctx \<le> nodes (s\<lparr>nodes := nodes s + 1\<rparr>)")
    case True
    then show ?thesis unfolding searched_def
      by (intro exI [of _ "[]"] exI [of _ "concat (map (\<lambda>v. if ?ok (p @ [v]) then models ?ok vars (p @ [v]) else []) (v # vs))"])
        (auto simp: Let_def unassign_def)
  next
    case False
    then have budget: "Suc (nodes s) < node_budget ctx" by simp
    let ?s2' = "s\<lparr>nodes := nodes s + 1\<rparr>\<lparr>assignment := trial ctx i var v (assignment (s\<lparr>nodes := nodes s + 1\<rparr>))\<rparr>"
    have same: "?s2' = ?s2" by simp
    show ?thesis
    proof (cases "?ok ?q")
      case pruned: False
      then have fc: "\<not> forward_check (sx_eval ctx) (auto_param_ids ctx) (assignment ?s2') (sx_constraints ctx)"
        unfolding same check .
      have step: "searching ctx base p [] 1 s ?s2"
        using budget "4.prems"(4) ready [of ?s2, OF clean] unfolding searching_def by simp
      have "searched ctx base p ?ms ?n ?s2 (try_values ctx i var vars vs ?s2)"
        using "4.IH"(3) [OF refl False refl fc ok "4.prems"(2,3)] step unfolding same by (simp add: searching_def)
      with step have "searched ctx base p ([] @ ?ms) (1 + ?n) s (try_values ctx i var vars vs ?s2)"
        by (rule searched_next)
      then show ?thesis using budget pruned check by (simp add: Let_def)
    next
      case explored: True
      then have fc: "forward_check (sx_eval ctx) (auto_param_ids ctx) (assignment ?s2') (sx_constraints ctx)"
        unfolding same check .
      let ?r = "backtrack_all ctx (i + 1) vars ?s2"
      have deep: "searched ctx base ?q (models ?ok vars ?q) (trials ?ok vars ?q) ?s2 ?r"
        using "4.IH"(1) [OF refl False refl fc ok vars] clean p unfolding same by (simp add: "4.prems"(3))
      obtain b s3 where r: "?r = (b, s3)" by (cases ?r)
      then have deeper: "searched ctx base ?q (models ?ok vars ?q) (trials ?ok vars ?q)
          (s\<lparr>nodes := Suc (nodes s), assignment := trial ctx i var v (assignment s)\<rparr>) (b, s3)"
        using deep by simp
      have ms: "concat (map (\<lambda>v. if ?ok (p @ [v]) then models ?ok vars (p @ [v]) else []) (v # vs)) = models ?ok vars ?q @ ?ms"
        and n: "(\<Sum>v \<leftarrow> v # vs. Suc (if ?ok (p @ [v]) then trials ?ok vars (p @ [v]) else 0)) = Suc (trials ?ok vars ?q) + ?n"
        using explored by simp_all
      show ?thesis
      proof (cases b)
        case True
        have s3: "clean ctx base ?q (assignment s3)" using deep True unfolding r searched_def by auto
        have step: "searching ctx base p (models ?ok vars ?q) (Suc (trials ?ok vars ?q)) s s3"
          using searching_trial [OF _ budget ready [OF s3]] deeper True by simp
        have "searched ctx base p ?ms ?n s3 (try_values ctx i var vars vs s3)"
          using "4.IH"(2) [OF refl False refl fc, of b s3] r True step ok "4.prems"(2,3) unfolding same by (simp add: searching_def)
        with step have "searched ctx base p (models ?ok vars ?q @ ?ms) (Suc (trials ?ok vars ?q) + ?n) s
            (try_values ctx i var vars vs s3)"
          by (rule searched_next)
        then show ?thesis using budget explored check r True unfolding ms n by (simp add: Let_def)
      next
        case stopped: False
        have "searched ctx base p (models ?ok vars ?q) (Suc (trials ?ok vars ?q)) s (False, unassign var s3)"
          using searched_trial [OF deeper budget, of p "unassign var s3"] stopped by (simp add: unassign_def)
        from searched_stop [OF this, of ?ms ?n] show ?thesis
          using budget explored check r stopped unfolding ms n by (simp add: Let_def)
      qed
    qed
  qed
qed

end
