(* ===== verification/CpsatModels.thy ===== *)
theory CpsatModels
  imports CpsatLaws "HOL-Library.Sublist"
begin

text \<open>
  What the discrete search returns: the models of a problem in lexicographic
  order, and no fewer of them for its pruning.
\<close>

section \<open>The schedule of a well-formed problem\<close>

text \<open>
  The cells are stored in topological order, without duplicates, and no auto is
  among them.
\<close>

definition cells_ok :: "AutoParam list \<Rightarrow> cell list \<Rightarrow> bool" where
  "cells_ok params cells \<longleftrightarrow>
     distinct (map ap_id params) \<and> distinct (map fst cells) \<and> fst ` set cells \<inter> ap_id ` set params = {}
     \<and> (\<forall>pre c post. cells = pre @ c # post \<longrightarrow> bare_reads (snd c) \<inter> fst ` set cells \<subseteq> fst ` set pre)"

lemma schedule_cells_spec:
  "length (schedule_cells exact cells scheduled) = length scheduled + length cells
   \<and> take (length scheduled) (schedule_cells exact cells scheduled) = scheduled
   \<and> (\<forall>k < length cells. schedule_cells exact cells scheduled ! (length scheduled + k)
        = \<lparr>sc_cell = cells ! k, exact_from = exact (take (length scheduled + k) (schedule_cells exact cells scheduled)) (cells ! k)\<rparr>)"
proof (induction cells arbitrary: scheduled)
  case (Cons cell cells)
  let ?next = "scheduled @ [\<lparr>sc_cell = cell, exact_from = exact scheduled cell\<rparr>]"
  define res where "res = schedule_cells exact cells ?next"
  from Cons.IH [of ?next] have IH: "length res = Suc (length scheduled) + length cells"
    "take (Suc (length scheduled)) res = ?next"
    "\<forall>k < length cells. res ! (Suc (length scheduled) + k)
        = \<lparr>sc_cell = cells ! k, exact_from = exact (take (Suc (length scheduled) + k) res) (cells ! k)\<rparr>"
    by (simp_all add: res_def)
  have old: "take (length scheduled) res = scheduled"
    using arg_cong [OF IH(2), of "take (length scheduled)"] by simp
  have at: "res ! length scheduled = \<lparr>sc_cell = cell, exact_from = exact scheduled cell\<rparr>"
    using arg_cong [OF IH(2), of "\<lambda>xs. xs ! length scheduled"] IH(1) by simp
  have "res ! (length scheduled + k)
      = \<lparr>sc_cell = (cell # cells) ! k, exact_from = exact (take (length scheduled + k) res) ((cell # cells) ! k)\<rparr>"
    if "k < length (cell # cells)" for k
    using that IH(3) at old by (cases k) simp_all
  then show ?case using IH(1) old by (simp add: res_def)
qed simp

lemma deepest_auto_spec:
  "deepest_auto depth as d = Some e \<Longrightarrow>
     d \<le> e \<and> (\<forall>a \<in> set as. \<exists>i \<le> e. hm_get depth a = Some i)
     \<and> (\<forall>b. d \<le> b \<and> (\<forall>a \<in> set as. \<forall>i. hm_get depth a = Some i \<longrightarrow> i \<le> b) \<longrightarrow> e \<le> b)"
proof (induction as arbitrary: d)
  case (Cons a as)
  then obtain i where i: "hm_get depth a = Some i" "deepest_auto depth as (max d i) = Some e"
    by (auto split: option.splits)
  from Cons.IH [OF i(2)] i(1) show ?case by auto
qed simp

lemma depth_index:
  "distinct (map var_id vars) \<Longrightarrow> i < length vars \<Longrightarrow>
     hm_get (fold (\<lambda>(i, var). hm_insert (var_id var) i) (enumerate k vars) m) (var_id (vars ! i)) = Some (k + i)"
proof (induction vars arbitrary: k m i)
  case (Cons var vars)
  have other: "hm_get (fold (\<lambda>(i, var). hm_insert (var_id var) i) (enumerate k vars) m) c = hm_get m c"
    if "c \<notin> var_id ` set vars" for k m c
    using that by (induction vars arbitrary: k m) (auto simp: hm_simps)
  show ?case
  proof (cases i)
    case 0
    then show ?thesis using Cons.prems other [of "var_id var"] by (simp add: hm_simps)
  next
    case (Suc j)
    then show ?thesis using Cons.IH [of j "Suc k"] Cons.prems by simp
  qed
qed simp

lemma occurrences_distinct:
  assumes "distinct (map fst cells)" "k < length cells"
  shows "occurrences cells (fst (cells ! k)) = {k}"
proof -
  have "i = k" if "i < length cells" "fst (cells ! i) = fst (cells ! k)" for i
    using assms that nth_eq_iff_index_eq [of "map fst cells" i k] by simp
  then show ?thesis using assms(2) by (auto simp: occurrences_def)
qed

lemma schedule_exists:
  assumes ok: "cells_ok params cells" and vars: "map var_id vars = map ap_id params"
  shows "\<exists>sched. schedule_dependent_cells params cells vars = Some sched \<and> map sc_cell sched = cells \<and> schedule_ok vars sched"
proof -
  let ?A = "ap_id ` set params"
  obtain reads where reads: "dependent_cell_auto_reads cells params = Some reads" using reads_exact by blast
  define depth where "depth = fold (\<lambda>(i, var). hm_insert (var_id var) i) (enumerate 0 vars) []"
  define exact where "exact = exact_depth depth reads (build_cell_index cells)"
  define sched where "sched = schedule_cells exact cells []"
  have sched: "length sched = length cells"
    "\<And>k. k < length cells \<Longrightarrow> sched ! k = \<lparr>sc_cell = cells ! k, exact_from = exact (take k sched) (cells ! k)\<rparr>"
    using schedule_cells_spec [of exact cells "[]"] by (simp_all add: sched_def)
  have map: "map sc_cell sched = cells" using sched by (intro nth_equalityI) auto
  have dist: "distinct (map fst cells)" "distinct (map var_id vars)" using ok vars by (simp_all add: cells_ok_def)
  have A: "var_id ` set vars = ?A" using arg_cong [OF vars, of set] by simp
  have ids: "map cell_id sched = map fst cells" using arg_cong [OF map, of "map fst"] by (simp add: comp_def)
  have idset: "cell_id ` set sched = fst ` set cells" using arg_cong [OF ids, of set] by simp
  have depth: "hm_get depth (var_id (vars ! i)) = Some i" if "i < length vars" for i
    using depth_index [OF dist(2) that, of 0 "[]"] by (simp add: depth_def)
  have facts: "\<exists>as. set as = autos_reached cells ?A k \<and> deepest_auto depth as 0 = Some e
      \<and> derived_from_exact_cells (build_cell_index cells) (take k sched) (cells ! k)"
    if k: "k < length cells" and e: "exact_from (sched ! k) = Some e" for k e
  proof -
    have "exact (take k sched) (cells ! k) = Some e" using e sched(2) [OF k] by simp
    then obtain as where as: "lookup_reads reads (fst (cells ! k)) = Foldable as"
      "derived_from_exact_cells (build_cell_index cells) (take k sched) (cells ! k)" "deepest_auto depth as 0 = Some e"
      by (auto simp: exact_def exact_depth_def split: CellReads.splits if_splits)
    have "set as = autos_reached cells ?A k"
      using reads_exact [of cells params "fst (cells ! k)"] reads as(1) occurrences_distinct [OF dist(1) k] by auto
    with as show ?thesis by blast
  qed
  have autos: "i \<le> e" if k: "k < length cells" and e: "exact_from (sched ! k) = Some e"
    and i: "i < length vars" "var_id (vars ! i) \<in> bare_reads (snd (cells ! k))" for k e i
  proof -
    obtain as where as: "set as = autos_reached cells ?A k" "deepest_auto depth as 0 = Some e" using facts [OF k e] by blast
    have "var_id (vars ! i) \<in> autos_reached cells ?A k"
      using i A by (auto simp: autos_reached_def intro: nth_mem)
    then show ?thesis using deepest_auto_spec [OF as(2)] as(1) depth [OF i(1)] by force
  qed
  have below: "\<exists>e'. exact_from (sched ! j) = Some e' \<and> e' \<le> e"
    if k: "k < length cells" and e: "exact_from (sched ! k) = Some e"
      and j: "j < length cells" "fst (cells ! j) \<in> bare_reads (snd (cells ! k))" for k e j
  proof -
    obtain as where as: "set as = autos_reached cells ?A k" "deepest_auto depth as 0 = Some e"
      "derived_from_exact_cells (build_cell_index cells) (take k sched) (cells ! k)" using facts [OF k e] by blast
    have "j \<in> set (indexed (build_cell_index cells) (fst (cells ! j)))"
      by (simp add: index_occurrences occurrences_distinct [OF dist(1) j(1)])
    then obtain js where "hm_get (build_cell_index cells) (fst (cells ! j)) = Some js" "j \<in> set js"
      by (cases "hm_get (build_cell_index cells) (fst (cells ! j))") (simp_all add: indexed_def)
    then have "j \<in> set (concat (List.map_filter (hm_get (build_cell_index cells)) (collect_constraint_refs (snd (cells ! k)))))"
      using j(2) by (auto simp: set_map_filter collect_constraint_refs_def set_bare_value_refs)
    then have "j < length (take k sched) \<and> exact_from (take k sched ! j) \<noteq> None"
      using as(3) unfolding derived_from_exact_cells_def list_all_iff by blast
    then obtain e' where e': "exact_from (sched ! j) = Some e'" by auto
    obtain as' where as': "set as' = autos_reached cells ?A j" "deepest_auto depth as' 0 = Some e'" using facts [OF j(1) e'] by blast
    have "fst (cells ! j) \<notin> ?A" using ok j(1) nth_mem [OF j(1)] unfolding cells_ok_def by blast
    then have "(k, j) \<in> cell_edge cells ?A" using k j by (simp add: cell_edge_def)
    then have "set as' \<subseteq> set as" unfolding as(1) as'(1) autos_reached_def by (blast intro: converse_rtrancl_into_rtrancl)
    then have "\<forall>a \<in> set as'. \<forall>i. hm_get depth a = Some i \<longrightarrow> i \<le> e"
      using deepest_auto_spec [OF as(2)] by fastforce
    then have "e' \<le> e" using deepest_auto_spec [OF as'(2)] by blast
    with e' show ?thesis by blast
  qed
  have topo: "cell_reads sc \<inter> cell_id ` set sched \<subseteq> cell_id ` set pre" if "sched = pre @ sc # post" for pre sc post
  proof -
    have "cells = map sc_cell pre @ sc_cell sc # map sc_cell post" using map that by auto
    then have "bare_reads (snd (sc_cell sc)) \<inter> fst ` set cells \<subseteq> fst ` set (map sc_cell pre)"
      using ok unfolding cells_ok_def by blast
    then show ?thesis by (simp add: idset image_image)
  qed
  have "schedule_ok vars sched"
    unfolding schedule_ok_def
  proof (intro conjI allI impI ballI)
    show "distinct (map cell_id sched)" using dist(1) ids by simp
    show "cell_id ` set sched \<inter> var_id ` set vars = {}" using ok by (simp add: idset A cells_ok_def)
    show "cell_reads sc \<inter> cell_id ` set sched \<subseteq> cell_id ` set pre" if "sched = pre @ sc # post" for pre sc post
      using topo [OF that] .
  next
    fix sc e i assume sc: "sc \<in> set sched" "exact_from sc = Some e" "i < length vars" "var_id (vars ! i) \<in> cell_reads sc"
    then obtain k where k: "k < length cells" "sc = sched ! k" using sched(1) by (metis in_set_conv_nth)
    have "sc_cell sc = cells ! k" using k sched(2) by simp
    then show "i \<le> e" using autos [OF k(1)] sc(2-4) k(2) by simp
  next
    fix sc e sc' assume sc: "sc \<in> set sched" "exact_from sc = Some e" "sc' \<in> set sched" "cell_id sc' \<in> cell_reads sc"
    then obtain k j where k: "k < length cells" "sc = sched ! k" and j: "j < length cells" "sc' = sched ! j"
      using sched(1) by (metis in_set_conv_nth)
    have "sc_cell sc = cells ! k" "sc_cell sc' = cells ! j" using k j sched(2) by simp_all
    then show "\<exists>e'. exact_from sc' = Some e' \<and> e' \<le> e" using below [OF k(1) _ j(1)] sc k(2) j(2) by simp
  qed
  moreover have "schedule_dependent_cells params cells vars = Some sched"
    by (simp add: schedule_dependent_cells_def Let_def reads sched_def exact_def depth_def)
  ultimately show ?thesis using map by blast
qed

section \<open>What an enumeration finds\<close>

abbreviation autos_of :: "'o ResolutionProblem \<Rightarrow> ValueCellId hash_set" where
  "autos_of problem \<equiv> fold hs_insert (map ap_id (rp_auto_params problem)) []"

text \<open>The values of the problem with the first autos assigned and every dependent cell derived.\<close>

definition resolved :: "evaluator \<Rightarrow> 'o ResolutionProblem \<Rightarrow> Variable list \<Rightarrow> Value list \<Rightarrow> ValueMap" where
  "resolved eval problem vars p =
     fold_dependent_cells eval (\<lambda>c. c \<in> set (autos_of problem)) (rp_dependent_cells problem)
       (bind_path vars p (fold hm_remove (autos_of problem) (rp_current_values problem)))"

text \<open>No constraint whose autos are all assigned evaluates to false.\<close>

definition not_refuted :: "evaluator \<Rightarrow> 'o ResolutionProblem \<Rightarrow> Variable list \<Rightarrow> Value list \<Rightarrow> bool" where
  "not_refuted eval problem vars p \<longleftrightarrow>
     list_all (\<lambda>(cid, expr).
         set (collect_constraint_refs expr) \<inter> set (autos_of problem) \<subseteq> var_id ` set (take (length p) vars)
           \<longrightarrow> eval (resolved eval problem vars p) expr \<noteq> ValBool False)
       (rp_constraints problem)"

definition all_models :: "evaluator \<Rightarrow> 'o ResolutionProblem \<Rightarrow> Variable list \<Rightarrow> ValueMap list" where
  "all_models eval problem vars = map (\<lambda>p. bind_path vars p []) (models (not_refuted eval problem vars) vars [])"

definition all_trials :: "evaluator \<Rightarrow> 'o ResolutionProblem \<Rightarrow> Variable list \<Rightarrow> nat" where
  "all_trials eval problem vars = trials (not_refuted eval problem vars) vars []"

definition well_formed :: "'o ResolutionProblem \<Rightarrow> bool" where
  "well_formed problem \<longleftrightarrow> cells_ok (rp_auto_params problem) (rp_dependent_cells problem)"

lemma build_variables_ids: "build_variables cs ps = Inr vars \<Longrightarrow> map var_id vars = map ap_id ps"
proof (induction ps arbitrary: vars)
  case (Cons p ps)
  then show ?case by (cases "build_variable_domain p cs"; cases "build_variables cs ps") auto
qed simp

lemma set_fold_hs_insert: "set (fold hs_insert xs acc) = set xs \<union> set acc"
  by (induction xs arbitrary: acc) auto

lemma hm_get_remove_all: "hm_get (fold hm_remove cs m) c = (if c \<in> set cs then None else hm_get m c)"
  by (induction cs arbitrary: m) (auto simp: hm_simps)

lemma forward_check_list:
  "forward_check eval ids m (map (\<lambda>(cid, expr). (cid, expr, collect_constraint_refs expr)) cs) \<longleftrightarrow>
     list_all (\<lambda>(cid, expr). (\<forall>r \<in> set (collect_constraint_refs expr) \<inter> set ids. hm_get m r \<noteq> None)
        \<longrightarrow> eval m expr \<noteq> ValBool False) cs"
proof (induction cs)
  case (Cons c cs)
  obtain cid expr where c: "c = (cid, expr)" by (cases c)
  have "list_all (hm_contains m) (filter (\<lambda>r. r \<in> set ids) (collect_constraint_refs expr))
      \<longleftrightarrow> (\<forall>r \<in> set (collect_constraint_refs expr) \<inter> set ids. hm_get m r \<noteq> None)"
    by (auto simp: list_all_iff hm_contains_def)
  then show ?case using Cons.IH unfolding c by (simp del: not_None_eq)
qed simp

definition problem_exprs :: "'o ResolutionProblem \<Rightarrow> (Value, Type) CompiledExpr set" where
  "problem_exprs problem = snd ` set (rp_dependent_cells problem) \<union> snd ` set (rp_constraints problem)"

text \<open>The context that a problem is searched in.\<close>

definition context_of :: "evaluator \<Rightarrow> 'o ResolutionProblem \<Rightarrow> Variable list \<Rightarrow> ScheduledCell list \<Rightarrow> nat \<Rightarrow> nat \<Rightarrow> SearchContext" where
  "context_of eval problem vars sched cap_count budget =
     \<lparr>sx_eval = eval, variables = vars,
      sx_constraints = map (\<lambda>(cid, expr). (cid, expr, collect_constraint_refs expr)) (rp_constraints problem),
      auto_param_ids = autos_of problem, sx_cells = sched, cap = cap_count, node_budget = budget\<rparr>"

lemma context_ok:
  assumes "local_eval eval (problem_exprs problem)" "well_formed problem" "map var_id vars = map ap_id (rp_auto_params problem)" "schedule_ok vars sched"
    and cells: "map sc_cell sched = rp_dependent_cells problem"
  shows "search_ok (context_of eval problem vars sched n b) (fold hm_remove (autos_of problem) (rp_current_values problem))"
proof -
  have "var_id ` set vars = ap_id ` set (rp_auto_params problem)" using arg_cong [OF assms(3), of set] by simp
  moreover have "searched_exprs (context_of eval problem vars sched n b) = problem_exprs problem"
    by (simp add: searched_exprs_def problem_exprs_def context_of_def image_image case_prod_beta flip: cells)
  ultimately show ?thesis using assms(1-4)
    by (simp add: search_ok_def context_of_def set_fold_hs_insert hm_get_remove_all well_formed_def cells_ok_def)
qed

lemma consistent_not_refuted:
  assumes ok: "search_ok (context_of eval problem vars sched n b) (fold hm_remove (autos_of problem) (rp_current_values problem))"
    and cells: "map sc_cell sched = rp_dependent_cells problem"
  shows "consistent (context_of eval problem vars sched n b) (fold hm_remove (autos_of problem) (rp_current_values problem)) p
    \<longleftrightarrow> not_refuted eval problem vars p"
proof -
  let ?ctx = "context_of eval problem vars sched n b" and ?base = "fold hm_remove (autos_of problem) (rp_current_values problem)"
  have res: "total_map ?ctx ?base p = resolved eval problem vars p"
    by (simp add: total_map_def resolved_def context_of_def cells)
  have vars: "set (autos_of problem) = var_id ` set vars" "distinct (map var_id vars)"
    using ok by (simp_all add: search_ok_def context_of_def)
  have get: "hm_get (resolved eval problem vars p) r \<noteq> None \<longleftrightarrow> r \<in> var_id ` set (take (length p) vars)"
    if r: "r \<in> set (autos_of problem)" for r
  proof -
    obtain i where i: "i < length vars" "r = var_id (vars ! i)" using r vars(1) by (auto simp: in_set_conv_nth)
    have "hm_get (resolved eval problem vars p) r = (if i < length p then Some (p ! i) else None)"
      using total_var [OF ok, of i p] i unfolding res by (simp add: context_of_def)
    moreover have "r \<in> var_id ` set (take (length p) vars) \<longleftrightarrow> i < length p"
    proof
      assume "r \<in> var_id ` set (take (length p) vars)"
      then obtain j where "j < length vars" "j < length p" "r = var_id (vars ! j)" by (auto simp: in_set_conv_nth)
      then show "i < length p" using i vars(2) nth_eq_iff_index_eq [of "map var_id vars" i j] by simp
    next
      assume "i < length p"
      then have "vars ! i \<in> set (take (length p) vars)" using i(1) nth_mem [of i "take (length p) vars"] by simp
      then show "r \<in> var_id ` set (take (length p) vars)" using i(2) by blast
    qed
    ultimately show ?thesis by simp
  qed
  have "consistent ?ctx ?base p = forward_check eval (autos_of problem) (resolved eval problem vars p)
      (map (\<lambda>(cid, expr). (cid, expr, collect_constraint_refs expr)) (rp_constraints problem))"
    by (simp add: consistent_def res) (simp add: context_of_def)
  also have "\<dots> = not_refuted eval problem vars p"
    unfolding forward_check_list not_refuted_def using get by (intro list.pred_cong) auto
  finally show ?thesis .
qed

lemma enumeration_spec:
  assumes eval: "local_eval eval (problem_exprs problem)" and wf: "well_formed problem"
    and vars: "build_variables (rp_constraints problem) (rp_auto_params problem) = Inr vars"
  shows "\<exists>found exhausted. enumerate_with_budget eval problem cap_count budget = Some (Inr (found, exhausted))
     \<and> prefix found (all_models eval problem vars)
     \<and> (exhausted \<longleftrightarrow> length (all_models eval problem vars) < cap_count
          \<and> (all_trials eval problem vars = 0 \<or> all_trials eval problem vars < budget))
     \<and> (exhausted \<longrightarrow> found = all_models eval problem vars)
     \<and> (\<not> exhausted \<longrightarrow> length found \<ge> cap_count \<or> all_trials eval problem vars \<ge> budget \<and> all_trials eval problem vars > 0)"
proof -
  note ids = build_variables_ids [OF vars]
  obtain sched where sched: "schedule_dependent_cells (rp_auto_params problem) (rp_dependent_cells problem) vars = Some sched"
    "map sc_cell sched = rp_dependent_cells problem" "schedule_ok vars sched"
    using schedule_exists wf ids unfolding well_formed_def by blast
  define ctx where "ctx = context_of eval problem vars sched cap_count budget"
  define base where "base = fold hm_remove (autos_of problem) (rp_current_values problem)"
  define s where "s = \<lparr>assignment = base, emitted = [], sink_count = 0, nodes = 0\<rparr>"
  have ok: "search_ok ctx base" unfolding ctx_def base_def by (rule context_ok [OF eval wf ids sched(3,2)])
  have same: "consistent ctx base = not_refuted eval problem vars"
    unfolding ctx_def base_def using consistent_not_refuted [OF _ sched(2)] ok ctx_def base_def by blast
  have ctx: "variables ctx = vars" "cap ctx = cap_count" "node_budget ctx = budget" by (simp_all add: ctx_def context_of_def)
  have "clean ctx base [] (assignment s)"
    using search_okD(4) [OF ok] by (simp add: clean_def ready_def s_def)
  then have "searched ctx base [] (models (consistent ctx base) vars []) (trials (consistent ctx base) vars []) s (backtrack_all ctx 0 vars s)"
    by (intro search_reference(1) [OF ok]) (simp_all add: ctx)
  moreover obtain b s1 where r: "backtrack_all ctx 0 vars s = (b, s1)" by (cases "backtrack_all ctx 0 vars s")
  ultimately have found: "searched ctx base [] (models (not_refuted eval problem vars) vars []) (all_trials eval problem vars) s (b, s1)"
    by (simp add: same all_trials_def)
  have "enumerate_with_budget eval problem cap_count budget = Some (Inr (emitted s1, b))"
    using r by (simp add: enumerate_with_budget_def build_search_inputs_def vars sched(1) Let_def ctx_def context_of_def s_def base_def)
  moreover from found obtain es rest where "models (not_refuted eval problem vars) vars [] = es @ rest"
    "emitted s1 = map (\<lambda>q. bind_path vars q []) es" "sink_count s1 = length es" "nodes s1 \<le> all_trials eval problem vars"
    "if b then rest = [] \<and> nodes s1 = all_trials eval problem vars \<and> (all_trials eval problem vars = 0 \<or> nodes s1 < budget)
        \<and> sink_count s1 < cap_count
     else sink_count s1 \<ge> cap_count \<or> nodes s1 \<ge> budget \<and> all_trials eval problem vars > 0"
    by (cases b) (auto simp: searched_def ctx s_def)
  ultimately show ?thesis
    by (intro exI [of _ "emitted s1"] exI [of _ b]) (auto simp: all_models_def split: if_splits)
qed

section \<open>Pruning loses no model\<close>

lemma models_filter:
  assumes "\<And>p q. ok (p @ q) \<Longrightarrow> ok p"
  shows "ok p \<or> vars \<noteq> [] \<Longrightarrow> models ok vars p = filter ok (map ((@) p) (product_lists (map var_domain vars)))"
proof (induction vars arbitrary: p)
  case (Cons var vars)
  have step: "filter ok (map ((@) p) (map ((#) v) qs)) = (if ok (p @ [v]) then filter ok (map ((@) (p @ [v])) qs) else [])"
    for v qs
  proof -
    have "\<not> ok (p @ v # q)" if "\<not> ok (p @ [v])" for q using that assms [of "p @ [v]" q] by auto
    then show ?thesis by (simp add: comp_def filter_map)
  qed
  have join: "(@) (p @ [v]) = (\<lambda>q. p @ v # q)" for v by (rule ext) simp
  have "filter ok (map ((@) p) (product_lists (map var_domain (var # vars))))
      = concat (map (\<lambda>v. filter ok (map ((@) p) (map ((#) v) (product_lists (map var_domain vars))))) (var_domain var))"
    by (simp add: map_concat filter_concat comp_def)
  also have "\<dots> = models ok (var # vars) p" unfolding step
    by (simp only: models.simps) (rule arg_cong [of _ _ concat], rule map_cong, simp_all add: Cons.IH join)
  finally show ?case by simp
qed simp

text \<open>The constraints that read no dependent cell are the same at every extension of an assignment.\<close>

definition reads_no_cells :: "'o ResolutionProblem \<Rightarrow> bool" where
  "reads_no_cells problem \<longleftrightarrow>
     list_all (\<lambda>(cid, expr). set (collect_constraint_refs expr) \<inter> fst ` set (rp_dependent_cells problem) = {}) (rp_constraints problem)"

lemma resolved_extend:
  assumes vars: "distinct (map var_id vars)" "var_id ` set vars = set (autos_of problem)"
    and c: "c \<notin> fst ` set (rp_dependent_cells problem)"
    and set: "c \<in> set (autos_of problem) \<Longrightarrow> c \<in> var_id ` set (take (length p) vars)"
  shows "hm_get (resolved eval problem vars (p @ q)) c = hm_get (resolved eval problem vars p) c"
proof -
  have other: "hm_get (resolved eval problem vars r) c
      = hm_get (bind_path vars r (fold hm_remove (autos_of problem) (rp_current_values problem))) c" for r
    unfolding resolved_def using c by (rule fold_cells_other)
  show ?thesis
  proof (cases "c \<in> set (autos_of problem)")
    case True
    then obtain i where i: "i < length vars" "i < length p" "c = var_id (vars ! i)" using set by (auto simp: in_set_conv_nth)
    then show ?thesis unfolding other by (simp add: bind_path_var [OF vars(1) i(1)] nth_append)
  next
    case False
    then show ?thesis using vars(2) by (simp add: other bind_path_other)
  qed
qed

lemma not_refuted_extend:
  assumes eval: "local_eval eval (problem_exprs problem)" and reads: "reads_no_cells problem"
    and vars: "distinct (map var_id vars)" "var_id ` set vars = set (autos_of problem)"
    and ok: "not_refuted eval problem vars (p @ q)"
  shows "not_refuted eval problem vars p"
proof -
  have "eval (resolved eval problem vars p) expr \<noteq> ValBool False"
    if c: "(cid, expr) \<in> set (rp_constraints problem)"
      and refs: "set (collect_constraint_refs expr) \<inter> set (autos_of problem) \<subseteq> var_id ` set (take (length p) vars)" for cid expr
  proof -
    have "eval (resolved eval problem vars (p @ q)) expr = eval (resolved eval problem vars p) expr"
    proof (rule local_evalD [OF eval])
      show "expr \<in> problem_exprs problem" using c by (force simp: problem_exprs_def)
    next
      fix r assume "r \<in> bare_reads expr"
      then have r: "r \<in> set (collect_constraint_refs expr)" by (simp add: collect_constraint_refs_def set_bare_value_refs)
      then have "r \<notin> fst ` set (rp_dependent_cells problem)"
        using reads c unfolding reads_no_cells_def list_all_iff by blast
      then show "hm_get (resolved eval problem vars (p @ q)) r = hm_get (resolved eval problem vars p) r"
        using subsetD [OF refs IntI [OF r]] by (rule resolved_extend [OF vars])
    qed
    moreover have "var_id ` set (take (length p) vars) \<subseteq> var_id ` set (take (length (p @ q)) vars)"
      by (intro image_mono set_take_subset_set_take) simp
    ultimately show ?thesis using ok c refs unfolding not_refuted_def list_all_iff by fastforce
  qed
  then show ?thesis unfolding not_refuted_def list_all_iff by auto
qed

lemma not_refuted_full:
  assumes "var_id ` set vars = set (autos_of problem)" "length vars \<le> length p"
  shows "not_refuted eval problem vars p \<longleftrightarrow>
    list_all (\<lambda>(cid, expr). eval (resolved eval problem vars p) expr \<noteq> ValBool False) (rp_constraints problem)"
  unfolding not_refuted_def using assms by (intro list.pred_cong) auto

lemma pruning_exact:
  assumes "local_eval eval (problem_exprs problem)" "well_formed problem" "reads_no_cells problem"
    and "build_variables (rp_constraints problem) (rp_auto_params problem) = Inr vars" "rp_auto_params problem \<noteq> []"
  shows "all_models eval problem vars =
    map (\<lambda>p. bind_path vars p [])
      (filter (\<lambda>p. list_all (\<lambda>(cid, expr). eval (resolved eval problem vars p) expr \<noteq> ValBool False) (rp_constraints problem))
         (product_lists (map var_domain vars)))"
proof -
  note ids = build_variables_ids [OF assms(4)]
  have "var_id ` set vars = ap_id ` set (rp_auto_params problem)" using arg_cong [OF ids, of set] by simp
  then have vars: "distinct (map var_id vars)" "var_id ` set vars = set (autos_of problem)"
    using assms(2) ids by (simp_all add: well_formed_def cells_ok_def set_fold_hs_insert)
  note extend = not_refuted_extend [OF assms(1,3) vars]
  have id: "(@) [] = (\<lambda>q. q)" by (rule ext) simp
  have "vars \<noteq> []" using assms(5) ids by auto
  then have "models (not_refuted eval problem vars) vars [] = filter (not_refuted eval problem vars) (product_lists (map var_domain vars))"
    using models_filter [of "not_refuted eval problem vars" "[]" vars] extend by (simp add: id)
  then show ?thesis using not_refuted_full [OF vars(2)]
    by (auto simp: all_models_def in_set_product_lists_length intro!: arg_cong [of _ _ "map _"] filter_cong)
qed

lemma verdict_exact:
  assumes "local_eval eval (problem_exprs problem)" "well_formed problem" "rp_auto_params problem \<noteq> []"
    and "build_variables (rp_constraints problem) (rp_auto_params problem) = Inr vars"
  shows "\<exists>verdict. solve_with_budget eval problem budget = Some verdict
     \<and> (case verdict of
          Solved vals unique \<Rightarrow> (\<exists>rest. all_models eval problem vars = vals # rest \<and> (unique \<longrightarrow> rest = []))
        | Infeasible \<Rightarrow> all_models eval problem vars = []
        | NoProgress reason \<Rightarrow> reason = BudgetExhausted budget \<and> budget \<le> all_trials eval problem vars)
     \<and> (all_trials eval problem vars < budget \<longrightarrow>
          verdict = (case all_models eval problem vars of [] \<Rightarrow> Infeasible | m # ms \<Rightarrow> Solved m (ms = [])))"
proof -
  obtain found exhausted where r: "enumerate_with_budget eval problem 2 budget = Some (Inr (found, exhausted))"
    "prefix found (all_models eval problem vars)" "exhausted \<longrightarrow> found = all_models eval problem vars"
    "\<not> exhausted \<longrightarrow> length found \<ge> 2 \<or> all_trials eval problem vars \<ge> budget \<and> all_trials eval problem vars > 0"
    "exhausted \<longrightarrow> length (all_models eval problem vars) < 2"
    using enumeration_spec [OF assms(1,2,4), of 2 budget] by blast
  define verdict where "verdict = verdict_from_enumeration (first_of_models found) (length found) exhausted budget"
  have solve: "solve_with_budget eval problem budget = Some verdict"
    using assms(3) r(1) by (simp add: solve_with_budget_def solve_all_with_budget_def verdict_def)
  show ?thesis
  proof (cases found)
    case Nil
    then have "verdict = (if exhausted then Infeasible else NoProgress (BudgetExhausted budget))"
      by (simp add: verdict_def verdict_from_enumeration_def first_of_models_def)
    then show ?thesis using solve r(3,4) Nil by auto
  next
    case (Cons m ms)
    then obtain rest where all: "all_models eval problem vars = m # ms @ rest" using r(2) by (auto simp: prefix_def)
    have verdict: "verdict = Solved m (exhausted \<and> ms = [])"
      using Cons by (simp add: verdict_def verdict_from_enumeration_def first_of_models_def)
    have "exhausted \<and> ms = [] \<longleftrightarrow> ms @ rest = []" if "all_trials eval problem vars < budget"
      using that r(3-5) all Cons by (cases exhausted) auto
    then show ?thesis using solve r(3) all Cons unfolding verdict by auto
  qed
qed

section \<open>Domains and the size of the search tree\<close>

lemma distinct_int_range:
  assumes "i64_min \<le> lo" "hi \<le> i64_max"
  shows "distinct (map (\<lambda>n. ValInt (word_of_int n)) [lo..hi])"
proof -
  have "m = n" if "m \<in> {lo..hi}" "n \<in> {lo..hi}" "word_of_int m = (word_of_int n :: u64)" for m n
  proof -
    have "signed_take_bit 63 m = signed_take_bit 63 n"
      using arg_cong [OF that(3), of sint] by (simp add: sint_sbintrunc')
    moreover have "signed_take_bit 63 k = k" if "k \<in> {lo..hi}" for k
      using that assms by (intro signed_take_bit_int_eq_self) (auto simp: i64_min_def i64_max_def)
    ultimately show ?thesis using that(1,2) by simp
  qed
  then show ?thesis by (auto simp: distinct_map inj_on_def)
qed

lemma domain_distinct: "build_variable_domain param cs = Inr d \<Longrightarrow> distinct d"
  using domain_spec_bounded [of param cs] distinct_int_range
  by (cases "domain_spec param cs") (auto simp: build_variable_domain_def split: DomainSpec.splits)

lemma build_variables_domains:
  "build_variables cs ps = Inr vars \<Longrightarrow>
     list_all2 (\<lambda>p var. var_id var = ap_id p \<and> build_variable_domain p cs = Inr (var_domain var)) ps vars"
proof (induction ps arbitrary: vars)
  case (Cons p ps)
  then show ?case by (cases "build_variable_domain p cs"; cases "build_variables cs ps") auto
qed simp

text \<open>The number of trials of a search that prunes nothing.\<close>

fun tree_size :: "Variable list \<Rightarrow> nat" where
  "tree_size [] = 0"
| "tree_size (var # vars) = length (var_domain var) * (1 + tree_size vars)"

lemma trials_le: "trials ok vars p \<le> tree_size vars"
proof (induction vars arbitrary: p)
  case (Cons var vars)
  have "(\<Sum>v \<leftarrow> vs. Suc (if ok (p @ [v]) then trials ok vars (p @ [v]) else 0)) \<le> length vs * (1 + tree_size vars)" for vs
  proof (induction vs)
    case (Cons v vs)
    have "(if ok (p @ [v]) then trials ok vars (p @ [v]) else 0) \<le> tree_size vars"
      using Cons.IH \<open>\<And>p. trials ok vars p \<le> tree_size vars\<close> by simp
    then show ?case using Cons.IH by simp
  qed simp
  then show ?case by simp
qed simp

lemma all_trials_le: "all_trials eval problem vars \<le> tree_size vars"
  by (simp add: all_trials_def trials_le)

text \<open>The assignments at which no constraint is false, by a search of the whole product.\<close>

definition satisfying :: "evaluator \<Rightarrow> 'o ResolutionProblem \<Rightarrow> Variable list \<Rightarrow> Value list list" where
  "satisfying eval problem vars =
     filter (\<lambda>p. list_all (\<lambda>(cid, expr). eval (resolved eval problem vars p) expr \<noteq> ValBool False) (rp_constraints problem))
       (product_lists (map var_domain vars))"

section \<open>Properties\<close>

text \<open>An evaluator that reads cells and literals, and a problem of two autos with a cell that copies the first.\<close>

definition read_eval :: evaluator where
  "read_eval m expr =
     (case expr_kind expr of
        ValueRef c \<Rightarrow> (case hm_get m c of Some v \<Rightarrow> v | None \<Rightarrow> ValUndef)
      | Literal v \<Rightarrow> v
      | _ \<Rightarrow> ValUndef)"

lemma read_eval_local: "local_eval read_eval exprs"
proof -
  have "c \<in> bare_reads expr" if "expr_kind expr = ValueRef c" for expr :: "(Value, Type) CompiledExpr" and c
    using that by (cases expr) (auto simp: bare_reads_def)
  then show ?thesis
    unfolding local_eval_def read_eval_def by (auto split: CompiledExprKind.split)
qed

definition demo_auto :: "string \<Rightarrow> AutoParam" where
  "demo_auto name = \<lparr>ap_id = ValueCellId ''P'' name, param_type = TBool, ap_bounds = None, free = False\<rparr>"

definition demo_ref :: "string \<Rightarrow> (Value, Type) CompiledExpr" where
  "demo_ref name = CompiledExpr (ValueRef (ValueCellId ''P'' name)) TBool 0"

definition demo_problem :: "unit ResolutionProblem" where
  "demo_problem = \<lparr>rp_auto_params = [demo_auto ''a'', demo_auto ''b''],
     rp_constraints = [(ConstraintNodeId ''P'' 0, demo_ref ''a'')], rp_current_values = [], rp_objective = Some (),
     rp_dependent_cells = [(ValueCellId ''P'' ''d'', demo_ref ''a'')]\<rparr>"

definition demo_variables :: "Variable list" where
  "demo_variables = map (\<lambda>name. \<lparr>var_id = ValueCellId ''P'' name, var_domain = [ValBool True, ValBool False]\<rparr>) [''a'', ''b'']"

lemma demo_well_formed: "well_formed demo_problem" "reads_no_cells demo_problem"
  by (auto simp: well_formed_def cells_ok_def reads_no_cells_def demo_problem_def demo_auto_def demo_ref_def
      collect_constraint_refs_def set_bare_value_refs bare_reads_def append_eq_Cons_conv Cons_eq_append_conv)

lemma demo_build: "build_variables (rp_constraints demo_problem) (rp_auto_params demo_problem) = Inr demo_variables"
  by code_simp

lemma demo_all: "all_models read_eval demo_problem demo_variables =
    map (\<lambda>b. [(ValueCellId ''P'' ''a'', ValBool True), (ValueCellId ''P'' ''b'', ValBool b)]) [True, False]"
  "all_trials read_eval demo_problem demo_variables = 4"
  by code_simp+

text \<open>
  C24.  The incremental search enumerates what a search over full re-derivations
  describes: the models in lexicographic order of the domains, each of them a
  path on which no constraint over assigned autos is false when every dependent
  cell is derived anew.  What it returns is a prefix of them, and all of them
  whenever it reports exhaustion.  It reports exhaustion exactly when the models
  stay below the cap and the trials below the node budget, so at the cap it may
  return every model without reporting it; when it does not report exhaustion,
  it has found as many models as the cap or the budget does not cover the search.
\<close>

theorem enumeration_lists_models:
  assumes "local_eval eval (problem_exprs problem)" "well_formed problem"
    and "build_variables (rp_constraints problem) (rp_auto_params problem) = Inr vars"
  shows "\<exists>found exhausted. enumerate_with_budget eval problem cap_count budget = Some (Inr (found, exhausted))
     \<and> prefix found (all_models eval problem vars)
     \<and> (exhausted \<longleftrightarrow> length (all_models eval problem vars) < cap_count
          \<and> (all_trials eval problem vars = 0 \<or> all_trials eval problem vars < budget))
     \<and> (exhausted \<longrightarrow> found = all_models eval problem vars)
     \<and> (\<not> exhausted \<longrightarrow> cap_count \<le> length found \<or> budget \<le> all_trials eval problem vars)"
  using enumeration_spec [OF assms] by blast

theorem enumeration_lists_models_witness:
  "enumerate_with_budget read_eval demo_problem 3 5 = Some (Inr (all_models read_eval demo_problem demo_variables, True))"
  using enumeration_lists_models [OF read_eval_local demo_well_formed(1) demo_build, of 3 5]
  by (auto simp: demo_all)

text \<open>
  C25.  Pruning loses no model: when no constraint reads a dependent cell, the
  search with forward checking returns a prefix of the satisfying assignments,
  which are those of the whole product of the domains at which no constraint is
  false.  It returns all of them when it reports exhaustion, and does report it
  when they stay below the cap and the budget covers the unpruned tree.
\<close>

theorem pruning_loses_no_model:
  assumes "local_eval eval (problem_exprs problem)" "well_formed problem" "reads_no_cells problem"
    and "build_variables (rp_constraints problem) (rp_auto_params problem) = Inr vars" "rp_auto_params problem \<noteq> []"
  shows "\<exists>found exhausted. enumerate_with_budget eval problem cap_count budget = Some (Inr (found, exhausted))
     \<and> prefix found (map (\<lambda>p. bind_path vars p []) (satisfying eval problem vars))
     \<and> (exhausted \<longrightarrow> found = map (\<lambda>p. bind_path vars p []) (satisfying eval problem vars))
     \<and> (length (satisfying eval problem vars) < cap_count \<and> tree_size vars < budget \<longrightarrow> exhausted)"
proof -
  have all: "all_models eval problem vars = map (\<lambda>p. bind_path vars p []) (satisfying eval problem vars)"
    using pruning_exact [OF assms] by (simp add: satisfying_def)
  show ?thesis
    using enumeration_spec [OF assms(1,2,4), of cap_count budget] all_trials_le [of eval problem vars]
    unfolding all by fastforce
qed

theorem pruning_loses_no_model_witness:
  "enumerate_with_budget read_eval demo_problem 3 7
     = Some (Inr (map (\<lambda>p. bind_path demo_variables p []) (satisfying read_eval demo_problem demo_variables), True))"
proof -
  have "satisfying read_eval demo_problem demo_variables = [[ValBool True, ValBool True], [ValBool True, ValBool False]]"
    "tree_size demo_variables = 6"
    by code_simp+
  then show ?thesis
    using pruning_loses_no_model [OF read_eval_local demo_well_formed demo_build, of 3 7] by (auto simp: demo_problem_def)
qed

end
