(* ===== verification/CpsatRanking.thy ===== *)
theory CpsatRanking
  imports CpsatModels
begin

text \<open>
  The ranking of the models that the discrete solver streams: a bounded heap that
  keeps the best sixteen, the running best score with the number of models that
  attain it, and the candidates made of them.
\<close>

section \<open>Ranking\<close>



lemma length_heap_push [simp]: "length (heap_push m xs) = Suc (length xs)"
  by (induction xs) auto















end
