(* ===== verification/CpsatVerdict.thy ===== *)
theory CpsatVerdict
  imports CpsatModels
begin

text \<open>
  The verdict of the discrete solver, measured by what a solution of a problem
  is, without any search: the contract of a solver of a domain, as a locale, and
  the discrete solver as its provider.
\<close>

section \<open>Solutions\<close>

text \<open>
  A solution assigns exactly the autos, from their domains, and no constraint is
  false when every dependent cell is derived from it.
\<close>

definition in_domains :: "'o ResolutionProblem \<Rightarrow> ValueMap \<Rightarrow> bool" where
  "in_domains problem w \<longleftrightarrow>
     hm_wf w \<and> (\<forall>c. hm_get w c \<noteq> None \<longleftrightarrow> c \<in> ap_id ` set (rp_auto_params problem))
     \<and> (\<forall>p \<in> set (rp_auto_params problem). \<exists>dom. build_variable_domain p (rp_constraints problem) = Inr dom
          \<and> the (hm_get w (ap_id p)) \<in> set dom)"

definition satisfies :: "evaluator \<Rightarrow> 'o ResolutionProblem \<Rightarrow> ValueMap \<Rightarrow> bool" where
  "satisfies eval problem w \<longleftrightarrow>
     list_all (\<lambda>(cid, expr). eval (build_scoring_values eval (rp_current_values problem) w (rp_dependent_cells problem)) expr
         \<noteq> ValBool False) (rp_constraints problem)"

definition solution :: "evaluator \<Rightarrow> 'o ResolutionProblem \<Rightarrow> ValueMap \<Rightarrow> bool" where
  "solution eval problem w \<longleftrightarrow> in_domains problem w \<and> satisfies eval problem w"

text \<open>It is the only solution, up to the order of its entries.\<close>

definition sole_solution :: "evaluator \<Rightarrow> 'o ResolutionProblem \<Rightarrow> ValueMap \<Rightarrow> bool" where
  "sole_solution eval problem vals \<longleftrightarrow> (\<forall>w. solution eval problem w \<longrightarrow> (\<forall>c. hm_get w c = hm_get vals c))"

fun verdict_ok :: "evaluator \<Rightarrow> 'o ResolutionProblem \<Rightarrow> 'r SolveResult \<Rightarrow> bool" where
  "verdict_ok eval problem (Solved vals unique) \<longleftrightarrow>
     solution eval problem vals \<and> (unique \<longrightarrow> sole_solution eval problem vals)"
| "verdict_ok eval problem Infeasible \<longleftrightarrow> (\<forall>w. \<not> solution eval problem w)"
| "verdict_ok eval problem (NoProgress reason) \<longleftrightarrow> True"

locale domain_solver =
  fixes solve :: "'o ResolutionProblem \<Rightarrow> 'r SolveResult option"
    and eval :: evaluator
    and accepts :: "'o ResolutionProblem \<Rightarrow> bool"
  assumes answers: "accepts problem \<Longrightarrow> \<exists>r. solve problem = Some r \<and> verdict_ok eval problem r"
begin

text \<open>Rendering the reason of a failure changes no verdict.\<close>

lemma renders:
  assumes "accepts problem"
  shows "\<exists>r. map_option (map_SolveResult render) (solve problem) = Some r \<and> verdict_ok eval problem r"
proof -
  obtain r where "solve problem = Some r" "verdict_ok eval problem r" using answers [OF assms] by blast
  then show ?thesis by (cases r) auto
qed

end

section \<open>The discrete solver\<close>

definition discrete_ok :: "evaluator \<Rightarrow> 'o ResolutionProblem \<Rightarrow> bool" where
  "discrete_ok eval problem \<longleftrightarrow>
     local_eval eval (problem_exprs problem) \<and> well_formed problem \<and> reads_no_cells problem \<and> is_all_discrete problem"

text \<open>\<open>HashMap::extend\<close>\<close>

definition extend_values :: "ValueMap \<Rightarrow> ValueMap \<Rightarrow> ValueMap" where
  "extend_values m vals = fold (\<lambda>(c, v). hm_insert c v) vals m"

lemma extend_values_other: "c \<notin> fst ` set w \<Longrightarrow> hm_get (extend_values m w) c = hm_get m c"
  unfolding extend_values_def by (induction w arbitrary: m) (auto simp: hm_simps)

lemma hm_get_extend: "hm_wf w \<Longrightarrow> hm_get (extend_values m w) c = (case hm_get w c of Some v \<Rightarrow> Some v | None \<Rightarrow> hm_get m c)"
proof (induction w arbitrary: m)
  case Nil
  show ?case by (simp add: extend_values_def hm_get_def)
next
  case (Cons x w)
  obtain d v where x: "x = (d, v)" by (cases x)
  have wf: "hm_wf w" "d \<notin> fst ` set w" using Cons.prems by (simp_all add: hm_wf_def x)
  have step: "extend_values m ((d, v) # w) = extend_values (hm_insert d v m) w" by (simp add: extend_values_def)
  show ?case
  proof (cases "c = d")
    case True
    then show ?thesis unfolding x step hm_get_Cons using wf(2) by (simp add: extend_values_other hm_simps)
  next
    case False
    then show ?thesis unfolding x step hm_get_Cons by (auto simp: Cons.IH [OF wf(1)] hm_simps split: option.split)
  qed
qed

lemma hm_wf_extend: "hm_wf m \<Longrightarrow> hm_wf (extend_values m w)"
  unfolding extend_values_def by (induction w arbitrary: m) (auto intro: hm_inv)

lemma all_discrete_variables:
  assumes "is_all_discrete problem"
  shows "\<exists>vars. build_variables (rp_constraints problem) (rp_auto_params problem) = Inr vars"
proof -
  have "\<exists>vars. build_variables cs ps = Inr vars" if "list_all (\<lambda>p. can_enumerate p cs) ps" for cs ps
    using that
  proof (induction ps)
    case (Cons p ps)
    then obtain vars where "build_variables cs ps = Inr vars" by auto
    moreover have "\<exists>dom. build_variable_domain p cs = Inr dom"
      using Cons.prems by (cases "domain_spec p cs") (auto simp: can_enumerate_def build_variable_domain_def)
    ultimately show ?case by auto
  qed simp
  then show ?thesis using assms by (simp add: is_all_discrete_def)
qed

lemma hm_wf_bind_path: "hm_wf m \<Longrightarrow> hm_wf (bind_path vars p m)"
proof (induction vars arbitrary: p m)
  case (Cons var vars)
  then show ?case by (cases p) (auto simp: bind_path_def intro: hm_inv)
qed (simp add: bind_path_def)

text \<open>The models of the search are the solutions.\<close>

lemma models_are_solutions:
  assumes ok: "discrete_ok eval problem"
    and vars: "build_variables (rp_constraints problem) (rp_auto_params problem) = Inr vars"
  shows "solution eval problem w \<longleftrightarrow> hm_wf w \<and> (\<exists>m \<in> set (all_models eval problem vars). \<forall>c. hm_get w c = hm_get m c)"
proof -
  let ?A = "ap_id ` set (rp_auto_params problem)" and ?B = "fold hm_remove (autos_of problem) (rp_current_values problem)"
  note ids = build_variables_ids [OF vars] and doms = build_variables_domains [OF vars]
  have eval: "local_eval eval (problem_exprs problem)" and wf: "well_formed problem" and reads: "reads_no_cells problem"
    and ne: "rp_auto_params problem \<noteq> []" using ok by (simp_all add: discrete_ok_def is_all_discrete_def)
  have A: "var_id ` set vars = ?A" using arg_cong [OF ids, of set] by simp
  have dist: "distinct (map var_id vars)" using wf ids by (simp add: well_formed_def cells_ok_def)
  have len: "length vars = length (rp_auto_params problem)" using arg_cong [OF ids, of length] by simp
  have bind: "hm_get (bind_path vars p []) (var_id (vars ! i)) = Some (p ! i)" if "length p = length vars" "i < length vars" for p i
    using bind_path_var [OF dist that(2), of p "[]"] that by simp
  have unbound: "hm_get (bind_path vars p []) c = None" if "c \<notin> ?A" for p c
    using bind_path_other [of c vars p "[]"] that A by (simp add: hm_get_def)
  have dom: "ap_id (rp_auto_params problem ! i) = var_id (vars ! i)"
    "build_variable_domain (rp_auto_params problem ! i) (rp_constraints problem) = Inr (var_domain (vars ! i))"
    if "i < length vars" for i
    using list_all2_nthD [OF doms, of i] that len by simp_all
  have index: "\<exists>i < length vars. c = var_id (vars ! i)" if "c \<in> ?A" for c
    using that unfolding A [symmetric] by (auto simp: in_set_conv_nth)
  have same: "satisfies eval problem w \<longleftrightarrow>
      list_all (\<lambda>(cid, expr). eval (resolved eval problem vars p) expr \<noteq> ValBool False) (rp_constraints problem)"
    if w: "hm_wf w" "\<And>c. hm_get w c = hm_get (bind_path vars p []) c" and p: "length p = length vars" for w p
  proof -
    have "eval (build_scoring_values eval (rp_current_values problem) w (rp_dependent_cells problem)) expr
        = eval (resolved eval problem vars p) expr"
      if c: "(cid, expr) \<in> set (rp_constraints problem)" for cid expr
    proof (rule local_evalD [OF eval])
      show "expr \<in> problem_exprs problem" using c by (force simp: problem_exprs_def)
    next
      fix r assume "r \<in> bare_reads expr"
      then have r: "r \<notin> fst ` set (rp_dependent_cells problem)"
        using reads c unfolding reads_no_cells_def list_all_iff collect_constraint_refs_def set_bare_value_refs by blast
      have "hm_get (resolved eval problem vars p) r = hm_get (bind_path vars p ?B) r"
        unfolding resolved_def using r by (rule fold_cells_other)
      moreover have "hm_get (bind_path vars p ?B) r
          = (case hm_get (bind_path vars p []) r of Some v \<Rightarrow> Some v | None \<Rightarrow> hm_get (rp_current_values problem) r)"
      proof (cases "r \<in> ?A")
        case True
        then obtain i where "i < length vars" "r = var_id (vars ! i)" unfolding A [symmetric] by (auto simp: in_set_conv_nth)
        then show ?thesis using bind_path_var [OF dist, of i p] p by simp
      next
        case False
        then show ?thesis using bind_path_other [of r vars p] A
          by (simp add: hm_get_remove_all set_fold_hs_insert hm_get_def [of "[]"])
      qed
      moreover have "hm_get (build_scoring_values eval (rp_current_values problem) w (rp_dependent_cells problem)) r
          = hm_get (extend_values (rp_current_values problem) w) r"
        unfolding build_scoring_values_def extend_values_def using r by (rule fold_cells_other)
      ultimately show "hm_get (build_scoring_values eval (rp_current_values problem) w (rp_dependent_cells problem)) r
          = hm_get (resolved eval problem vars p) r"
        by (simp add: hm_get_extend [OF w(1)] w(2))
    qed
    then show ?thesis unfolding satisfies_def by (intro list.pred_cong) auto
  qed
  let ?P = "filter (\<lambda>p. list_all (\<lambda>(cid, expr). eval (resolved eval problem vars p) expr \<noteq> ValBool False) (rp_constraints problem))
      (product_lists (map var_domain vars))"
  have all: "all_models eval problem vars = map (\<lambda>p. bind_path vars p []) ?P"
    by (rule pruning_exact [OF eval wf reads vars ne])
  have prod: "p \<in> set (product_lists (map var_domain vars)) \<longleftrightarrow>
      length p = length vars \<and> (\<forall>i < length vars. p ! i \<in> set (var_domain (vars ! i)))" for p
    by (auto simp: product_lists_set list_all2_conv_all_nth)
  have domains: "in_domains problem w \<longleftrightarrow> hm_wf w \<and> (\<exists>p. p \<in> set (product_lists (map var_domain vars))
      \<and> (\<forall>c. hm_get w c = hm_get (bind_path vars p []) c))" (is "_ \<longleftrightarrow> _ \<and> ?R")
  proof (cases "hm_wf w")
    case True
    show ?thesis
    proof (intro iffI conjI True)
      assume w: "in_domains problem w"
      define p where "p = map (\<lambda>var. the (hm_get w (var_id var))) vars"
      have "the (hm_get w (var_id (vars ! i))) \<in> set (var_domain (vars ! i))" if i: "i < length vars" for i
      proof -
        have "rp_auto_params problem ! i \<in> set (rp_auto_params problem)" using i len by simp
        with w obtain d where "build_variable_domain (rp_auto_params problem ! i) (rp_constraints problem) = Inr d"
          "the (hm_get w (ap_id (rp_auto_params problem ! i))) \<in> set d" unfolding in_domains_def by blast
        with dom [OF i] show ?thesis by simp
      qed
      then have "p \<in> set (product_lists (map var_domain vars))" by (simp add: prod p_def)
      moreover have "hm_get w c = hm_get (bind_path vars p []) c" for c
      proof (cases "c \<in> ?A")
        case True
        then obtain i where i: "i < length vars" "c = var_id (vars ! i)" using index by blast
        moreover have "hm_get w c \<noteq> None" using w True by (simp add: in_domains_def)
        ultimately show ?thesis using bind [of p i] by (auto simp: p_def)
      next
        case False
        then have "hm_get w c = None" using w unfolding in_domains_def by blast
        then show ?thesis using unbound [OF False] by simp
      qed
      ultimately show ?R by blast
    next
      assume "hm_wf w \<and> ?R"
      then obtain p where p: "length p = length vars" "\<forall>i < length vars. p ! i \<in> set (var_domain (vars ! i))"
        "\<forall>c. hm_get w c = hm_get (bind_path vars p []) c" unfolding prod by blast
      have "hm_get w c \<noteq> None \<longleftrightarrow> c \<in> ?A" for c
        using index [of c] unbound [of c p] bind [OF p(1)] p(3) by fastforce
      moreover have "\<exists>d. build_variable_domain q (rp_constraints problem) = Inr d \<and> the (hm_get w (ap_id q)) \<in> set d"
        if q: "q \<in> set (rp_auto_params problem)" for q
      proof -
        obtain i where i: "i < length vars" "q = rp_auto_params problem ! i" using q len by (metis in_set_conv_nth)
        then show ?thesis using dom [OF i(1)] p(2,3) bind [OF p(1) i(1)] by simp
      qed
      ultimately show "in_domains problem w" using True unfolding in_domains_def by blast
    qed
  qed (simp add: in_domains_def)
  have "solution eval problem w \<longleftrightarrow> hm_wf w \<and> (\<exists>p \<in> set ?P. \<forall>c. hm_get w c = hm_get (bind_path vars p []) c)"
    unfolding solution_def domains using same [of w] by (auto simp: prod)
  also have "\<dots> \<longleftrightarrow> hm_wf w \<and> (\<exists>m \<in> set (all_models eval problem vars). \<forall>c. hm_get w c = hm_get m c)"
    unfolding all set_map by blast
  finally show ?thesis .
qed

lemma models_wf: "m \<in> set (all_models eval problem vars) \<Longrightarrow> hm_wf m"
  by (auto simp: all_models_def intro: hm_wf_bind_path)

lemma distinct_product_lists: "\<forall>xs \<in> set xss. distinct xs \<Longrightarrow> distinct (product_lists xss)"
proof (induction xss)
  case (Cons xs xss)
  then have IH: "distinct (product_lists xss)" by simp
  have "distinct (concat (map (\<lambda>x. map ((#) x) (product_lists xss)) ys))" if "distinct ys" for ys
    using that IH by (induction ys) (auto simp: distinct_map)
  then show ?case using Cons.prems by simp
qed simp

text \<open>Two satisfying assignments at different places bind some auto differently.\<close>

lemma satisfying_distinct:
  assumes vars: "build_variables (rp_constraints problem) (rp_auto_params problem) = Inr vars"
    and dist: "distinct (map var_id vars)" and sat: "satisfying eval problem vars = p # q # rest"
  shows "\<exists>c. hm_get (bind_path vars p []) c \<noteq> hm_get (bind_path vars q []) c"
proof -
  have "distinct (var_domain var)" if "var \<in> set vars" for var
    using that build_variables_domains [OF vars] domain_distinct unfolding list_all2_conv_all_nth in_set_conv_nth by metis
  then have "distinct (satisfying eval problem vars)"
    unfolding satisfying_def by (intro distinct_filter distinct_product_lists) auto
  then have "p \<noteq> q" using sat by simp
  moreover have len: "length p = length vars" "length q = length vars"
  proof -
    have "p \<in> set (satisfying eval problem vars)" "q \<in> set (satisfying eval problem vars)" using sat by simp_all
    then show "length p = length vars" "length q = length vars"
      by (auto simp: satisfying_def dest: in_set_product_lists_length)
  qed
  ultimately obtain i where i: "i < length vars" "p ! i \<noteq> q ! i" by (metis nth_equalityI)
  then show ?thesis
    using bind_path_var [OF dist i(1), of p "[]"] bind_path_var [OF dist i(1), of q "[]"] len
    by (intro exI [of _ "var_id (vars ! i)"]) simp
qed

lemma discrete_verdict:
  assumes ok: "discrete_ok eval problem"
    and vars: "build_variables (rp_constraints problem) (rp_auto_params problem) = Inr vars"
  shows "\<exists>verdict. solve_with_budget eval problem budget = Some verdict
     \<and> (case verdict of
          Solved vals unique \<Rightarrow> solution eval problem vals
            \<and> (\<exists>p rest. satisfying eval problem vars = p # rest \<and> vals = bind_path vars p [])
            \<and> (unique \<longrightarrow> sole_solution eval problem vals)
            \<and> (sole_solution eval problem vals \<and> tree_size vars < budget \<longrightarrow> unique)
        | Infeasible \<Rightarrow> \<forall>w. \<not> solution eval problem w
        | NoProgress reason \<Rightarrow> reason = BudgetExhausted budget \<and> budget \<le> tree_size vars)"
proof -
  note sol = models_are_solutions [OF ok vars]
  have wf: "local_eval eval (problem_exprs problem)" "well_formed problem" "reads_no_cells problem"
    "rp_auto_params problem \<noteq> []" using ok by (simp_all add: discrete_ok_def is_all_discrete_def)
  have dist: "distinct (map var_id vars)"
    using wf(2) build_variables_ids [OF vars] by (simp add: well_formed_def cells_ok_def)
  have all: "all_models eval problem vars = map (\<lambda>p. bind_path vars p []) (satisfying eval problem vars)"
    using pruning_exact [OF wf(1-3) vars wf(4)] by (simp add: satisfying_def)
  note le = all_trials_le [of eval problem vars]
  from verdict_exact [OF wf(1,2,4) vars, of budget] obtain r where r: "solve_with_budget eval problem budget = Some r"
    "case r of Solved vals unique \<Rightarrow> (\<exists>rest. all_models eval problem vars = vals # rest \<and> (unique \<longrightarrow> rest = []))
       | Infeasible \<Rightarrow> all_models eval problem vars = []
       | NoProgress reason \<Rightarrow> reason = BudgetExhausted budget \<and> budget \<le> all_trials eval problem vars"
    "all_trials eval problem vars < budget \<longrightarrow>
       r = (case all_models eval problem vars of [] \<Rightarrow> Infeasible | m # ms \<Rightarrow> Solved m (ms = []))" by blast
  show ?thesis
  proof (cases r)
    case (Solved vals unique)
    then obtain ms where ms: "all_models eval problem vars = vals # ms" "unique \<longrightarrow> ms = []" using r(2) by auto
    then obtain p rest where p: "satisfying eval problem vars = p # rest" "vals = bind_path vars p []"
      "ms = map (\<lambda>p. bind_path vars p []) rest" unfolding all by (cases "satisfying eval problem vars") auto
    have wf_all: "\<And>m. m \<in> set (all_models eval problem vars) \<Longrightarrow> hm_wf m" by (rule models_wf)
    have vals: "solution eval problem vals" using sol [of vals] ms(1) wf_all [of vals] by auto
    have "sole_solution eval problem vals" if unique
      using that sol ms by (auto simp: sole_solution_def)
    moreover have unique if "sole_solution eval problem vals" "tree_size vars < budget"
    proof (rule ccontr)
      assume "\<not> unique"
      then have "ms \<noteq> []" using r(3) le that(2) Solved ms(1) by auto
      then obtain q qs where q: "rest = q # qs" using p(3) by (cases rest) auto
      have "bind_path vars q [] \<in> set (all_models eval problem vars)" unfolding all p(1) q by simp
      then have "solution eval problem (bind_path vars q [])" using sol wf_all by blast
      then show False
        using satisfying_distinct [OF vars dist p(1) [unfolded q]] that(1) unfolding sole_solution_def p(2) by metis
    qed
    ultimately show ?thesis using r(1) vals p(1,2) by (simp add: Solved)
  next
    case Infeasible
    then show ?thesis using r(1,2) sol by simp
  next
    case (NoProgress reason)
    then show ?thesis using r(1,2) le by simp
  qed
qed

lemma discrete_verdict_ok:
  assumes "discrete_ok eval problem"
  shows "\<exists>r. solve_with_budget eval problem budget = Some r \<and> verdict_ok eval problem r"
proof -
  obtain vars where vars: "build_variables (rp_constraints problem) (rp_auto_params problem) = Inr vars"
    using assms all_discrete_variables by (auto simp: discrete_ok_def)
  from discrete_verdict [OF assms vars, of budget] obtain r where "solve_with_budget eval problem budget = Some r"
    "case r of Solved vals unique \<Rightarrow> solution eval problem vals
         \<and> (\<exists>p rest. satisfying eval problem vars = p # rest \<and> vals = bind_path vars p [])
         \<and> (unique \<longrightarrow> sole_solution eval problem vals)
         \<and> (sole_solution eval problem vals \<and> tree_size vars < budget \<longrightarrow> unique)
       | Infeasible \<Rightarrow> \<forall>w. \<not> solution eval problem w
       | NoProgress reason \<Rightarrow> reason = BudgetExhausted budget \<and> budget \<le> tree_size vars" by blast
  then show ?thesis by (cases r) auto
qed

interpretation cpsat: domain_solver "cpsat_solve eval" eval "discrete_ok eval" for eval
  by unfold_locales (simp add: cpsat_solve_def discrete_verdict_ok)

section \<open>Properties\<close>

definition refuted_problem :: "unit ResolutionProblem" where
  "refuted_problem = demo_problem\<lparr>rp_constraints := [(ConstraintNodeId ''P'' 0, CompiledExpr (Literal (ValBool False)) TBool 0)]\<rparr>"

text \<open>
  C26.  The verdict of the discrete solver is honest.  On a problem over
  enumerable autos whose constraints read no dependent cell, a solution is an
  assignment of exactly the autos from their domains at which no constraint is
  false.  The solver returns: the values it calls solved are a solution, the
  first in lexicographic order of the domains; it calls them unique only when
  every solution agrees with them, and always then if the budget covers the tree; a
  problem is called infeasible only when it has no solution; and it gives up
  only when the budget does not cover the search tree.
\<close>

theorem solve_verdict_honest:
  assumes "discrete_ok eval problem"
    and "build_variables (rp_constraints problem) (rp_auto_params problem) = Inr vars"
  shows "\<exists>verdict. solve_with_budget eval problem budget = Some verdict
     \<and> (case verdict of
          Solved vals unique \<Rightarrow> solution eval problem vals
            \<and> (\<exists>p rest. satisfying eval problem vars = p # rest \<and> vals = bind_path vars p [])
            \<and> (unique \<longrightarrow> sole_solution eval problem vals)
            \<and> (sole_solution eval problem vals \<and> tree_size vars < budget \<longrightarrow> unique)
        | Infeasible \<Rightarrow> \<forall>w. \<not> solution eval problem w
        | NoProgress reason \<Rightarrow> reason = BudgetExhausted budget \<and> budget \<le> tree_size vars)"
  using assms by (rule discrete_verdict)

theorem solve_verdict_honest_witness:
  "solution read_eval demo_problem [(ValueCellId ''P'' ''a'', ValBool True), (ValueCellId ''P'' ''b'', ValBool True)]
   \<and> (\<forall>w. \<not> solution read_eval refuted_problem w)"
proof -
  have "list_all (\<lambda>ap. can_enumerate ap (rp_constraints demo_problem)) (rp_auto_params demo_problem)"
    "list_all (\<lambda>ap. can_enumerate ap (rp_constraints refuted_problem)) (rp_auto_params refuted_problem)" by code_simp+
  moreover have "rp_auto_params demo_problem \<noteq> []" by (simp add: demo_problem_def)
  ultimately have ok: "discrete_ok read_eval demo_problem" "discrete_ok read_eval refuted_problem"
    using demo_well_formed read_eval_local
    by (simp_all add: discrete_ok_def is_all_discrete_def refuted_problem_def well_formed_def reads_no_cells_def
        collect_constraint_refs_def set_bare_value_refs bare_reads_def)
  have refuted: "build_variables (rp_constraints refuted_problem) (rp_auto_params refuted_problem) = Inr demo_variables"
    "solve_with_budget read_eval refuted_problem 7 = Some Infeasible" by code_simp+
  have solved: "solve_with_budget read_eval demo_problem 7
      = Some (Solved [(ValueCellId ''P'' ''a'', ValBool True), (ValueCellId ''P'' ''b'', ValBool True)] False)" by code_simp
  show ?thesis
    using solve_verdict_honest [OF ok(1) demo_build, of 7] solve_verdict_honest [OF ok(2) refuted(1), of 7] refuted(2) solved
    by auto
qed

end
