(* ===== verification/Registry.thy ===== *)
theory Registry
  imports CpsatVerdict ValueHash
begin

text \<open>
  The solver registry (\<open>reify-constraints/src/registry.rs\<close>): it decomposes a
  problem, routes each component to the solver of its domain, sequences the ranks
  of a lexicographic objective, and merges the answers.  A solver is a pair of
  functions that may panic; the arithmetic of \<open>f64\<close>, the evaluator under a
  compute-dispatch hook and the hash function are arguments.
\<close>

unbundle bit_operations_syntax

section \<open>Objectives\<close>

datatype ObjectiveSense = Minimize | Maximize

record ObjectiveTerm =
  sense :: ObjectiveSense
  term_expr :: "(Value, Type) CompiledExpr"
  weight :: f64
  priority :: u32

datatype ObjectiveCombination = WeightedSum | Lexicographic

record ObjectiveSet =
  terms :: "ObjectiveTerm list"
  combination :: ObjectiveCombination
  cost_robustness_lambda :: "f64 option"

type_synonym problem = "ObjectiveSet ResolutionProblem"

record ('d, 'r) ConstraintSolver =
  run_solve :: "'d option \<Rightarrow> problem \<Rightarrow> 'r SolveResult option"
  run_solve_ranked :: "'d option \<Rightarrow> problem \<Rightarrow> 'r RankedSolveResult option"

fun into_ranked_pass_through :: "'r SolveResult \<Rightarrow> 'r RankedSolveResult option" where
  "into_ranked_pass_through (Solved vals unique) = None"
| "into_ranked_pass_through Infeasible = Some RankedInfeasible"
| "into_ranked_pass_through (NoProgress reason) = Some (RankedNoProgress reason)"

text \<open>The ranked operation of a solver that implements only \<open>solve\<close>.\<close>

definition default_solve_ranked :: "(problem \<Rightarrow> 'r SolveResult option) \<Rightarrow> problem \<Rightarrow> 'r RankedSolveResult option" where
  "default_solve_ranked solve problem =
     (case solve problem of
        None \<Rightarrow> None
      | Some (Solved vals unique) \<Rightarrow>
          Some (Ranked [\<lparr>candidate_values = vals, objective_score = None, candidate_unique = unique\<rparr>]
            (if rp_objective problem \<noteq> None then BestFound Unreported else FeasibilityOnly) not_attempted)
      | Some r \<Rightarrow> into_ranked_pass_through r)"

section \<open>The prelude\<close>

datatype ObjectiveConsumption = NoObjective | NoAutoParams | NoComponents | FallbackComponentZero | Consumed nat

record DecompositionPrelude =
  components :: "SubProblem list"
  consumption :: ObjectiveConsumption
  dependent_auto_reads :: DependentCellReads

fun position :: "('a \<Rightarrow> bool) \<Rightarrow> 'a list \<Rightarrow> nat option" where
  "position P [] = None"
| "position P (x # xs) = (if P x then Some 0 else map_option Suc (position P xs))"

definition decompose_prelude :: "problem \<Rightarrow> DecompositionPrelude option" where
  "decompose_prelude problem =
     (if rp_auto_params problem = [] then
        Some \<lparr>components = [], consumption = (if rp_objective problem \<noteq> None then NoAutoParams else NoObjective),
              dependent_auto_reads = []\<rparr>
      else do {
        reads \<leftarrow> dependent_cell_auto_reads (rp_dependent_cells problem) (rp_auto_params problem);
        let objective = map_option (\<lambda>obj. expand_objective (fold (\<lambda>t. bare_value_refs (term_expr t)) (terms obj) []) reads)
          (rp_objective problem);
        comps \<leftarrow> decompose_with_reads (rp_auto_params problem) (rp_constraints problem) objective reads;
        Some \<lparr>components = comps,
              consumption = (case objective of
                 None \<Rightarrow> NoObjective
               | Some refs \<Rightarrow>
                   if comps = [] then NoComponents
                   else (case position (\<lambda>c. reaches_any refs (sp_auto_params c)) comps of
                           Some i \<Rightarrow> Consumed i | None \<Rightarrow> FallbackComponentZero)),
              dependent_auto_reads = reads\<rparr> })"

definition objective_consumption :: "problem \<Rightarrow> ObjectiveConsumption option" where
  "objective_consumption problem = map_option consumption (decompose_prelude problem)"

section \<open>Lexicographic objectives\<close>

record f64_ops =
  f_add :: "f64 \<Rightarrow> f64 \<Rightarrow> f64"
  f_sub :: "f64 \<Rightarrow> f64 \<Rightarrow> f64"
  f_mul :: "f64 \<Rightarrow> f64 \<Rightarrow> f64"
  f_of_i64 :: "u64 \<Rightarrow> f64"

definition f64_abs :: "f64 \<Rightarrow> f64" where
  "f64_abs x = x AND mask 63"

definition f64_max :: "f64 \<Rightarrow> f64 \<Rightarrow> f64" where
  "f64_max x y = (if is_nan x then y else if is_nan y then x else if f64_lt x y then y else x)"

definition f64_one :: f64 where
  "f64_one = 0x3FF0000000000000"

definition f64_epsilon :: f64 where
  "f64_epsilon = 0x3CB0000000000000"

definition LEX_EPSILON_BAND_REL :: f64 where
  "LEX_EPSILON_BAND_REL = 0x3F50624DD2F1A9FC"

definition LEX_EPSILON_BAND_ABS :: f64 where
  "LEX_EPSILON_BAND_ABS = 0x3E112E0BE826D695"

fun value_as_f64 :: "f64_ops \<Rightarrow> Value \<Rightarrow> f64 option" where
  "value_as_f64 fo (ValInt i) = Some (f_of_i64 fo i)"
| "value_as_f64 fo (ValReal r) = Some r"
| "value_as_f64 fo (ValScalar s d) = Some s"
| "value_as_f64 fo _ = None"

type_synonym hasher = "u8 list \<Rightarrow> ContentHash"

definition literal_expr :: "hasher \<Rightarrow> Value \<Rightarrow> Type \<Rightarrow> (Value, Type) CompiledExpr" where
  "literal_expr xxh v ty = CompiledExpr (Literal v) ty (hash_combine xxh (hash_of xxh [0]) (value_hash xxh v))"

fun binop_byte :: "BinOp \<Rightarrow> u8" where
  "binop_byte Add = 0" | "binop_byte Sub = 1" | "binop_byte Mul = 2" | "binop_byte Div = 3" | "binop_byte Mod = 4"
| "binop_byte Pow = 5" | "binop_byte Eq = 6" | "binop_byte Ne = 7" | "binop_byte Lt = 8" | "binop_byte Le = 9"
| "binop_byte Gt = 10" | "binop_byte Ge = 11" | "binop_byte And = 12" | "binop_byte Or = 13" | "binop_byte Implies = 14"

definition binop_expr ::
  "hasher \<Rightarrow> BinOp \<Rightarrow> (Value, Type) CompiledExpr \<Rightarrow> (Value, Type) CompiledExpr \<Rightarrow> Type \<Rightarrow> (Value, Type) CompiledExpr" where
  "binop_expr xxh bop left right ty =
     CompiledExpr (BinOp bop left right) ty
       (hash_combine xxh (hash_combine xxh (hash_of xxh [2, binop_byte bop]) (expr_hash left)) (expr_hash right))"

fun unop_byte :: "UnOp \<Rightarrow> u8" where
  "unop_byte Neg = 0"
| "unop_byte Not = 1"

definition unop_expr :: "hasher \<Rightarrow> UnOp \<Rightarrow> (Value, Type) CompiledExpr \<Rightarrow> Type \<Rightarrow> (Value, Type) CompiledExpr" where
  "unop_expr xxh uop operand ty =
     CompiledExpr (UnOp uop operand) ty (hash_combine xxh (hash_of xxh [3, unop_byte uop]) (expr_hash operand))"

text \<open>The realized cost of a rank; \<open>None\<close> when a term is not finite.\<close>

fun rank_cost :: "f64_ops \<Rightarrow> evaluator \<Rightarrow> ValueMap \<Rightarrow> ObjectiveTerm list \<Rightarrow> f64 \<Rightarrow> f64 option" where
  "rank_cost fo eval vals [] acc = Some acc"
| "rank_cost fo eval vals (t # ts) acc =
     (case value_as_f64 fo (eval vals (term_expr t)) of
        None \<Rightarrow> None
      | Some v \<Rightarrow>
          if \<not> is_finite v then None
          else rank_cost fo eval vals ts
            (case sense t of Minimize \<Rightarrow> f_add fo acc (f_mul fo (weight t) v) | Maximize \<Rightarrow> f_sub fo acc (f_mul fo (weight t) v)))"

definition eval_rank_cost :: "f64_ops \<Rightarrow> evaluator \<Rightarrow> ObjectiveTerm list \<Rightarrow> ValueMap \<Rightarrow> f64 option" where
  "eval_rank_cost fo eval rank_terms vals = rank_cost fo eval vals rank_terms f64_zero"

definition signed_term_expr :: "f64_ops \<Rightarrow> hasher \<Rightarrow> ObjectiveTerm \<Rightarrow> (Value, Type) CompiledExpr" where
  "signed_term_expr fo xxh t =
     (let e = term_expr t; ty = expr_type e;
        is_unit = f64_lt (f64_abs (f_sub fo (weight t) f64_one)) f64_epsilon
      in case sense t of
           Minimize \<Rightarrow>
             if is_unit then e
             else binop_expr xxh Mul (literal_expr xxh (ValReal (weight t)) dimensionless_scalar) e ty
         | Maximize \<Rightarrow>
             if is_unit then unop_expr xxh Neg e ty
             else binop_expr xxh Mul (literal_expr xxh (ValReal (f64_neg (weight t))) dimensionless_scalar) e ty)"

fun signed_cost_expr :: "f64_ops \<Rightarrow> hasher \<Rightarrow> ObjectiveTerm list \<Rightarrow> (Value, Type) CompiledExpr option" where
  "signed_cost_expr fo xxh [] = None"
| "signed_cost_expr fo xxh (t # ts) =
     Some (foldl (\<lambda>a b. binop_expr xxh Add a b (expr_type a)) (signed_term_expr fo xxh t) (map (signed_term_expr fo xxh) ts))"

definition build_band_constraints :: "f64_ops \<Rightarrow> hasher \<Rightarrow> ObjectiveTerm list \<Rightarrow> f64 \<Rightarrow> nat \<Rightarrow> Constraints option" where
  "build_band_constraints fo xxh rank_terms obj_star stage_idx =
     (let delta = f64_max (f_mul fo LEX_EPSILON_BAND_REL (f64_abs obj_star)) LEX_EPSILON_BAND_ABS;
        upper = literal_expr xxh (ValReal (f_add fo obj_star delta)) dimensionless_scalar;
        lower = literal_expr xxh (ValReal (f_sub fo obj_star delta)) dimensionless_scalar;
        base_idx = of_nat stage_idx * 2
      in map_option (\<lambda>cost.
           [(ConstraintNodeId ''__lex_freeze__'' base_idx, binop_expr xxh Le cost upper TBool),
            (ConstraintNodeId ''__lex_freeze__'' (base_idx + 1), binop_expr xxh Ge cost lower TBool)])
           (signed_cost_expr fo xxh rank_terms))"

definition weighted_sum :: "ObjectiveTerm list \<Rightarrow> ObjectiveSet" where
  "weighted_sum ts = \<lparr>terms = ts, combination = WeightedSum, cost_robustness_lambda = None\<rparr>"

fun lex_stages ::
  "f64_ops \<Rightarrow> hasher \<Rightarrow> evaluator \<Rightarrow> (problem \<Rightarrow> 'r SolveResult option) \<Rightarrow> problem \<Rightarrow> ObjectiveTerm list \<Rightarrow> nat \<Rightarrow> u32 list
     \<Rightarrow> ValueMap \<Rightarrow> Constraints \<Rightarrow> 'r SolveResult option" where
  "lex_stages fo xxh eval solve base ts stage_idx [] current accumulated = None"
| "lex_stages fo xxh eval solve base ts stage_idx (p # ps) current accumulated =
     (let rank_terms = filter (\<lambda>t. priority t = p) ts in
      case solve (base\<lparr>rp_auto_params := map (\<lambda>ap. ap\<lparr>free := True\<rparr>) (rp_auto_params base), rp_constraints := accumulated,
                       rp_current_values := current, rp_objective := Some (weighted_sum rank_terms)\<rparr>) of
        None \<Rightarrow> None
      | Some (Solved vals unique) \<Rightarrow>
          (if ps = [] then Some (Solved vals unique)
           else
             (let current1 = extend_values current vals in
              case eval_rank_cost fo eval rank_terms (build_scoring_values eval current1 vals (rp_dependent_cells base)) of
                None \<Rightarrow> lex_stages fo xxh eval solve base ts (stage_idx + 1) ps current1 accumulated
              | Some obj_star \<Rightarrow>
                  (case build_band_constraints fo xxh rank_terms obj_star stage_idx of
                     None \<Rightarrow> None
                   | Some bands \<Rightarrow>
                       lex_stages fo xxh eval solve base ts (stage_idx + 1) ps current1 (accumulated @ bands))))
      | Some r \<Rightarrow> Some r)"

definition priority_order :: "ObjectiveTerm list \<Rightarrow> u32 list" where
  "priority_order ts = rev (remdups_adj (sort (map priority ts)))"

definition solve_lexicographic ::
  "f64_ops \<Rightarrow> hasher \<Rightarrow> evaluator \<Rightarrow> (problem \<Rightarrow> 'r SolveResult option) \<Rightarrow> problem \<Rightarrow> 'r SolveResult option" where
  "solve_lexicographic fo xxh eval solve base =
     (case rp_objective base of
        None \<Rightarrow> None
      | Some obj \<Rightarrow>
          if length (priority_order (terms obj)) = 1 then solve (base\<lparr>rp_objective := Some (weighted_sum (terms obj))\<rparr>)
          else lex_stages fo xxh eval solve base (terms obj) 0 (priority_order (terms obj)) (rp_current_values base)
                 (rp_constraints base))"

section \<open>Routing and merging\<close>

record ('d, 'r) SolverRegistry =
  dimensional :: "('d, 'r) ConstraintSolver"
  geometric :: "('d, 'r) ConstraintSolver option"
  logical :: "('d, 'r) ConstraintSolver option"
  fallback :: "('d, 'r) ConstraintSolver option"

fun solver_for :: "('d, 'r) SolverRegistry \<Rightarrow> ConstraintDomain \<Rightarrow> ('d, 'r) ConstraintSolver" where
  "solver_for registry Dimensional = dimensional registry"
| "solver_for registry Geometric = (case geometric registry of Some s \<Rightarrow> s | None \<Rightarrow> dimensional registry)"
| "solver_for registry Logical = (case logical registry of Some s \<Rightarrow> s | None \<Rightarrow> dimensional registry)"
| "solver_for registry CrossDomain = (case fallback registry of Some s \<Rightarrow> s | None \<Rightarrow> dimensional registry)"

text \<open>What the objective component's ranked solve leaves behind.\<close>

type_synonym captured = "(OptimalityStatus \<times> f64 option \<times> RankedCandidate list) option"

definition component_result ::
  "f64_ops \<Rightarrow> hasher \<Rightarrow> ('d option \<Rightarrow> evaluator) \<Rightarrow> ('d, 'r) ConstraintSolver \<Rightarrow> bool \<Rightarrow> 'd option \<Rightarrow> problem
     \<Rightarrow> ('r SolveResult \<times> captured) option" where
  "component_result fo xxh eval solver want_ranked dispatch sub =
     (if (case rp_objective sub of Some obj \<Rightarrow> combination obj = Lexicographic | None \<Rightarrow> False) then
        map_option (\<lambda>r. (r, None)) (solve_lexicographic fo xxh (eval dispatch) (run_solve solver dispatch) sub)
      else if rp_objective sub \<noteq> None \<and> want_ranked then
        (case run_solve_ranked solver dispatch sub of
           None \<Rightarrow> None
         | Some (Ranked candidates optimality completeness) \<Rightarrow>
             (case candidates of
                [] \<Rightarrow> None
              | c # cs \<Rightarrow>
                  Some (Solved (candidate_values c) (candidate_unique c), Some (optimality, objective_score c, candidates)))
         | Some RankedInfeasible \<Rightarrow> Some (Infeasible, None)
         | Some (RankedNoProgress reason) \<Rightarrow> Some (NoProgress reason, None))
      else map_option (\<lambda>r. (r, None)) (run_solve solver dispatch sub))"

fun lookup_autos :: "(ValueCellId, AutoParam) hash_map \<Rightarrow> ValueCellId list \<Rightarrow> AutoParam list option" where
  "lookup_autos auto_param_of [] = Some []"
| "lookup_autos auto_param_of (a # as) =
     (case hm_get auto_param_of a of None \<Rightarrow> None | Some ap \<Rightarrow> map_option ((#) ap) (lookup_autos auto_param_of as))"

definition component_problem :: "problem \<Rightarrow> DependentCellReads \<Rightarrow> bool \<Rightarrow> SubProblem \<Rightarrow> problem option" where
  "component_problem problem reads is_objective component =
     map_option (\<lambda>autos.
       problem\<lparr>rp_auto_params := autos, rp_constraints := sp_constraints component,
         rp_objective := (if is_objective then rp_objective problem else None),
         rp_dependent_cells := filter (\<lambda>(c, expr). case lookup_reads reads c of
             Foldable as \<Rightarrow> list_all (\<lambda>a. a \<in> set (sp_auto_params component)) as | _ \<Rightarrow> False) (rp_dependent_cells problem)\<rparr>)
       (lookup_autos (fold (\<lambda>ap. hm_insert (ap_id ap) ap) (rp_auto_params problem) []) (sp_auto_params component))"

record RegistryState =
  merged_values :: ValueMap
  all_unique :: bool
  other_values :: ValueMap
  other_unique :: bool
  captured_ranking :: captured

definition absorb :: "ValueMap \<Rightarrow> bool \<Rightarrow> captured \<Rightarrow> RegistryState \<Rightarrow> RegistryState" where
  "absorb vals unique captured s =
     (let s1 = s\<lparr>all_unique := all_unique s \<and> unique, merged_values := extend_values (merged_values s) vals\<rparr> in
      case captured of
        Some c \<Rightarrow> s1\<lparr>captured_ranking := captured\<rparr>
      | None \<Rightarrow> s1\<lparr>other_values := extend_values (other_values s) vals, other_unique := other_unique s \<and> unique\<rparr>)"

fun solve_components ::
  "(nat \<Rightarrow> SubProblem \<Rightarrow> ('r SolveResult \<times> captured) option) \<Rightarrow> nat \<Rightarrow> SubProblem list \<Rightarrow> RegistryState
     \<Rightarrow> ('r SolveResult + RegistryState) option" where
  "solve_components run ci [] s = Some (Inr s)"
| "solve_components run ci (component # rest) s =
     (case run ci component of
        None \<Rightarrow> None
      | Some (Solved vals unique, captured) \<Rightarrow> solve_components run (Suc ci) rest (absorb vals unique captured s)
      | Some (Infeasible, captured) \<Rightarrow> Some (Inl Infeasible)
      | Some (NoProgress reason, captured) \<Rightarrow> Some (Inl (NoProgress reason)))"

fun objective_component :: "ObjectiveConsumption \<Rightarrow> nat option" where
  "objective_component (Consumed i) = Some i"
| "objective_component FallbackComponentZero = Some 0"
| "objective_component NoObjective = None"
| "objective_component NoAutoParams = None"
| "objective_component NoComponents = None"

definition merge_candidates :: "RegistryState \<Rightarrow> RankedCandidate list \<Rightarrow> RankedCandidate list" where
  "merge_candidates s candidates =
     map (\<lambda>c. \<lparr>candidate_values =
                 (if other_values s = [] then candidate_values c else extend_values (other_values s) (candidate_values c)),
               objective_score = objective_score c, candidate_unique = (candidate_unique c \<and> other_unique s)\<rparr>) candidates"

definition solve_inner ::
  "f64_ops \<Rightarrow> hasher \<Rightarrow> ('d option \<Rightarrow> evaluator) \<Rightarrow> ('d, 'r) SolverRegistry \<Rightarrow> problem \<Rightarrow> bool \<Rightarrow> 'd option
     \<Rightarrow> ('r SolveResult \<times> OptimalityStatus option \<times> f64 option \<times> RankedCandidate list option) option" where
  "solve_inner fo xxh eval registry problem want_optimality dispatch =
     do {
       prelude \<leftarrow> decompose_prelude problem;
       (if rp_auto_params problem = [] \<or> components prelude = [] then Some (Solved [] True, None, None, None)
        else do {
          let objective_ix = objective_component (consumption prelude);
          r \<leftarrow> solve_components (\<lambda>ci component. do {
                 sub \<leftarrow> component_problem problem (dependent_auto_reads prelude) (objective_ix = Some ci) component;
                 component_result fo xxh eval (solver_for registry (sp_domain component))
                   (want_optimality \<and> objective_ix = Some ci) dispatch sub })
               0 (components prelude)
               \<lparr>merged_values = [], all_unique = True, other_values = [], other_unique = True, captured_ranking = None\<rparr>;
          Some (case r of
              Inl failed \<Rightarrow> (failed, None, None, None)
            | Inr s \<Rightarrow>
                (Solved (merged_values s) (all_unique s), map_option fst (captured_ranking s),
                 Option.bind (captured_ranking s) (\<lambda>(opt, sc, cs). sc),
                 map_option (\<lambda>(opt, sc, cs). merge_candidates s cs) (captured_ranking s))) }) }"

definition registry_solve_with_dispatch ::
  "f64_ops \<Rightarrow> hasher \<Rightarrow> ('d option \<Rightarrow> evaluator) \<Rightarrow> ('d, 'r) SolverRegistry \<Rightarrow> problem \<Rightarrow> 'd option \<Rightarrow> 'r SolveResult option" where
  "registry_solve_with_dispatch fo xxh eval registry problem dispatch =
     map_option fst (solve_inner fo xxh eval registry problem False dispatch)"

definition registry_solve ::
  "f64_ops \<Rightarrow> hasher \<Rightarrow> ('d option \<Rightarrow> evaluator) \<Rightarrow> ('d, 'r) SolverRegistry \<Rightarrow> problem \<Rightarrow> 'r SolveResult option" where
  "registry_solve fo xxh eval registry problem = map_option fst (solve_inner fo xxh eval registry problem False None)"

definition registry_solve_ranked_with_dispatch ::
  "f64_ops \<Rightarrow> hasher \<Rightarrow> ('d option \<Rightarrow> evaluator) \<Rightarrow> ('d, 'r) SolverRegistry \<Rightarrow> problem \<Rightarrow> 'd option
     \<Rightarrow> 'r RankedSolveResult option" where
  "registry_solve_ranked_with_dispatch fo xxh eval registry problem dispatch =
     do {
       (result, optimality, obj_score, candidates) \<leftarrow> solve_inner fo xxh eval registry problem True dispatch;
       (case result of
          Solved vals unique \<Rightarrow>
            Some (Ranked
              (case candidates of
                 Some cs \<Rightarrow> cs
               | None \<Rightarrow> [\<lparr>candidate_values = vals, objective_score = obj_score, candidate_unique = unique\<rparr>])
              (case optimality of
                 Some opt \<Rightarrow> opt
               | None \<Rightarrow> if rp_objective problem \<noteq> None then BestFound Unreported else FeasibilityOnly)
              not_attempted)
        | _ \<Rightarrow> into_ranked_pass_through result) }"

definition registry_solve_ranked ::
  "f64_ops \<Rightarrow> hasher \<Rightarrow> ('d option \<Rightarrow> evaluator) \<Rightarrow> ('d, 'r) SolverRegistry \<Rightarrow> problem \<Rightarrow> 'r RankedSolveResult option" where
  "registry_solve_ranked fo xxh eval registry problem =
     registry_solve_ranked_with_dispatch fo xxh eval registry problem None"

text \<open>
  The registry of the product, over the two continuous solvers and the score of an
  objective.  The discrete solver ignores the hook; its reasons are rendered.
\<close>

definition cpsat_solver ::
  "(NoProgressReason \<Rightarrow> 'r) \<Rightarrow> evaluator \<Rightarrow> (ObjectiveSet \<Rightarrow> ValueMap \<Rightarrow> f64 option) \<Rightarrow> ('d, 'r) ConstraintSolver" where
  "cpsat_solver render eval eval_objective_set =
     \<lparr>run_solve = (\<lambda>dispatch problem. map_option (map_SolveResult render) (cpsat_solve eval problem)),
      run_solve_ranked = (\<lambda>dispatch problem.
        map_option (map_RankedSolveResult render) (cpsat_solve_ranked eval eval_objective_set problem))\<rparr>"

definition production ::
  "(NoProgressReason \<Rightarrow> 'r) \<Rightarrow> evaluator \<Rightarrow> (ObjectiveSet \<Rightarrow> ValueMap \<Rightarrow> f64 option)
     \<Rightarrow> ('d, 'r) ConstraintSolver \<Rightarrow> ('d, 'r) ConstraintSolver \<Rightarrow> ('d, 'r) SolverRegistry" where
  "production render eval eval_objective_set dimensional_solver solve_space_solver =
     (let discrete = cpsat_solver render eval eval_objective_set in
      \<lparr>dimensional = dimensional_solver, geometric = Some solve_space_solver, logical = Some discrete,
       fallback = Some
         \<lparr>run_solve = (\<lambda>dispatch. discrete_first_solve (run_solve discrete dispatch) (run_solve dimensional_solver dispatch)),
          run_solve_ranked = (\<lambda>dispatch.
            discrete_first_solve (run_solve_ranked discrete dispatch) (run_solve_ranked dimensional_solver dispatch))\<rparr>\<rparr>)"

end
