(* ===== verification/CpsatPruning.thy ===== *)
theory CpsatPruning
  imports CpsatVerdict ValueOrder
begin

text \<open>
  A constraint over a dependent cell is checked before every auto behind the cell
  is assigned.  That is sound as long as its value is undefined until then, and
  the count of a map literal is not: an undefined key counts as an entry.  Here is
  the part of the evaluator that the example needs.
\<close>

fun map_put :: "Value \<Rightarrow> Value \<Rightarrow> (Value \<times> Value) list \<Rightarrow> (Value \<times> Value) list" where
  "map_put k v [] = [(k, v)]"
| "map_put k v ((k', v') # kvs) =
     (case value_cmp k k' of
        Less \<Rightarrow> (k, v) # (k', v') # kvs
      | Equal \<Rightarrow> (k', v) # kvs
      | Greater \<Rightarrow> (k', v') # map_put k v kvs)"

fun count_eval :: "ValueMap \<Rightarrow> (Value, Type) CompiledExpr \<Rightarrow> Value" where
  "count_eval m (CompiledExpr (Literal v) ty h) = v"
| "count_eval m (CompiledExpr (ValueRef c) ty h) = (case hm_get m c of Some v \<Rightarrow> v | None \<Rightarrow> ValUndef)"
| "count_eval m (CompiledExpr (MapLiteral entries) ty h) =
     ValMap (fold (\<lambda>(k, v). map_put k v) (map (\<lambda>kv. (count_eval m (fst kv), count_eval m (snd kv))) entries) [])"
| "count_eval m (CompiledExpr (MethodCall obj meth args) ty h) =
     (if args = [] \<and> meth = ''count''
      then (case count_eval m obj of ValMap kvs \<Rightarrow> ValInt (of_nat (length kvs)) | _ \<Rightarrow> ValUndef)
      else ValUndef)"
| "count_eval m (CompiledExpr (BinOp bop left right) ty h) =
     (case (bop, count_eval m left, count_eval m right) of
        (BinOp.Eq, ValInt x, ValInt y) \<Rightarrow> ValBool (x = y)
      | _ \<Rightarrow> ValUndef)"
| "count_eval m _ = ValUndef"

definition count_problem :: "unit ResolutionProblem" where
  "count_problem =
     (let lit = \<lambda>n. CompiledExpr (Literal (ValInt n)) TInt 0;
        cell = ValueCellId ''P'' ''m'';
        entries = [(demo_ref ''a'', lit 1), (demo_ref ''b'', lit 2)]
      in \<lparr>rp_auto_params = [demo_auto ''a'', demo_auto ''b''],
          rp_constraints = [(ConstraintNodeId ''P'' 0, CompiledExpr (BinOp BinOp.Eq
             (CompiledExpr (MethodCall (CompiledExpr (ValueRef cell) (TMap TBool TInt) 0) ''count'' []) TInt 0) (lit 1)) TBool 0)],
          rp_current_values = [], rp_objective = None,
          rp_dependent_cells = [(cell, CompiledExpr (MapLiteral entries) (TMap TBool TInt) 0)]\<rparr>)"

text \<open>Both autos true is a solution, and the solver calls the problem infeasible after
  two trials.\<close>

lemma pruning_loses_map_count:
  "solve_with_budget count_eval count_problem 10 = Some Infeasible"
  "solution count_eval count_problem [(ValueCellId ''P'' ''a'', ValBool True), (ValueCellId ''P'' ''b'', ValBool True)]"
proof -
  show "solve_with_budget count_eval count_problem 10 = Some Infeasible" by code_simp
  have "satisfies count_eval count_problem [(ValueCellId ''P'' ''a'', ValBool True), (ValueCellId ''P'' ''b'', ValBool True)]"
    by code_simp
  moreover have "in_domains count_problem [(ValueCellId ''P'' ''a'', ValBool True), (ValueCellId ''P'' ''b'', ValBool True)]"
    by (auto simp: in_domains_def count_problem_def demo_auto_def Let_def hm_wf_def hm_get_def
        build_variable_domain_def domain_spec_def split: if_splits)
  ultimately show "solution count_eval count_problem [(ValueCellId ''P'' ''a'', ValBool True), (ValueCellId ''P'' ''b'', ValBool True)]"
    by (simp add: solution_def)
qed

end
