(* ===== verification/RegistryLaws.thy ===== *)
theory RegistryLaws
  imports Registry CpsatPruning
begin

text \<open>
  What the registry makes of the answers of its solvers: every component comes
  back with the merged values, and the best ranked candidate is the answer.
\<close>

section \<open>The problem of a component\<close>

abbreviation auto_ids :: "'o ResolutionProblem \<Rightarrow> ValueCellId set" where
  "auto_ids problem \<equiv> ap_id ` set (rp_auto_params problem)"

lemma auto_param_of_id:
  "(\<And>a ap. hm_get m a = Some ap \<Longrightarrow> ap_id ap = a) \<Longrightarrow> hm_get (fold (\<lambda>ap. hm_insert (ap_id ap) ap) ps m) a = Some ap
     \<Longrightarrow> ap_id ap = a"
proof (induction ps arbitrary: m)
  case (Cons p ps)
  show ?case
  proof (rule Cons.IH [of "hm_insert (ap_id p) p m"])
    show "ap_id ap = a" if "hm_get (hm_insert (ap_id p) p m) a = Some ap" for a ap
      using that Cons.prems(1) by (cases "a = ap_id p") (auto simp: hm_simps)
    show "hm_get (fold (\<lambda>ap. hm_insert (ap_id ap) ap) ps (hm_insert (ap_id p) p m)) a = Some ap"
      using Cons.prems(2) by simp
  qed
qed simp

lemma auto_param_of_some:
  "a \<in> ap_id ` set ps \<or> hm_get m a \<noteq> None \<Longrightarrow> hm_get (fold (\<lambda>ap. hm_insert (ap_id ap) ap) ps m) a \<noteq> None"
proof (induction ps arbitrary: m)
  case (Cons p ps)
  show ?case using Cons.IH [of "hm_insert (ap_id p) p m"] Cons.prems by (auto simp: hm_simps)
qed simp

lemma lookup_autos_ids:
  assumes "set as \<subseteq> ap_id ` set ps"
  shows "\<exists>autos. lookup_autos (fold (\<lambda>ap. hm_insert (ap_id ap) ap) ps []) as = Some autos \<and> map ap_id autos = as"
  using assms
proof (induction as)
  case (Cons a as)
  then obtain autos where autos: "lookup_autos (fold (\<lambda>ap. hm_insert (ap_id ap) ap) ps []) as = Some autos" "map ap_id autos = as"
    by auto
  obtain ap where ap: "hm_get (fold (\<lambda>ap. hm_insert (ap_id ap) ap) ps []) a = Some ap"
    using auto_param_of_some [of a ps "[]"] Cons.prems by auto
  moreover have "ap_id ap = a" using auto_param_of_id [OF _ ap] by (simp add: hm_get_def)
  ultimately show ?case using autos by simp
qed simp

lemma component_problem_exists:
  assumes "set (sp_auto_params sp) \<subseteq> auto_ids problem"
  shows "\<exists>sub. component_problem problem reads is_objective sp = Some sub
     \<and> map ap_id (rp_auto_params sub) = sp_auto_params sp \<and> rp_constraints sub = sp_constraints sp
     \<and> rp_current_values sub = rp_current_values problem
     \<and> rp_objective sub = (if is_objective then rp_objective problem else None)
     \<and> set (rp_dependent_cells sub) \<subseteq> set (rp_dependent_cells problem)"
  using lookup_autos_ids [OF assms] by (auto simp: component_problem_def)

section \<open>Merging disjoint answers\<close>

lemma merged_other:
  "\<forall>(vals, u) \<in> set rs. hm_wf vals \<and> hm_get vals c = None
     \<Longrightarrow> hm_get (fold (\<lambda>(vals, u) m. extend_values m vals) rs m) c = hm_get m c"
  by (induction rs arbitrary: m) (auto simp: hm_get_extend)

lemma merged_at:
  assumes "list_all2 (\<lambda>sp (vals, u). hm_wf vals \<and> (\<forall>c. hm_get vals c \<noteq> None \<longleftrightarrow> c \<in> set (sp_auto_params sp))) comps rs"
    and "distinct (concat (map sp_auto_params comps))" "(sp, vals, u) \<in> set (zip comps rs)" "c \<in> set (sp_auto_params sp)"
  shows "hm_get (fold (\<lambda>(vals, u) m. extend_values m vals) rs m) c = hm_get vals c"
  using assms
proof (induction comps rs arbitrary: m rule: list_all2_induct)
  case (Cons sp' comps r rs)
  obtain vals' u' where r: "r = (vals', u')" by (cases r)
  have vals': "hm_wf vals'" "\<And>c. hm_get vals' c \<noteq> None \<longleftrightarrow> c \<in> set (sp_auto_params sp')"
    using Cons.hyps(1) by (simp_all add: r)
  show ?case
  proof (cases "c \<in> set (sp_auto_params sp')")
    case True
    have rest: "c \<notin> set (sp_auto_params d)" if "d \<in> set comps" for d
      using Cons.prems(1) True that by auto
    have "(sp, vals, u) = (sp', vals', u')"
      using Cons.prems(2,3) rest by (auto simp: r dest: set_zip_leftD)
    moreover have "\<forall>(vals, u) \<in> set rs. hm_wf vals \<and> hm_get vals c = None"
      using Cons.hyps(2) rest unfolding list_all2_conv_all_nth by (fastforce simp: in_set_conv_nth)
    moreover have "hm_get vals' c \<noteq> None" using True vals'(2) by blast
    ultimately show ?thesis by (auto simp: r merged_other hm_get_extend [OF vals'(1)])
  next
    case False
    then have "(sp, vals, u) \<in> set (zip comps rs)" using Cons.prems(2,3) by (auto simp: r)
    then show ?thesis using Cons.IH [of "extend_values m vals'"] Cons.prems(1,3) by (simp add: r)
  qed
qed simp

lemma merged_nowhere:
  assumes "list_all2 (\<lambda>sp (vals, u). hm_wf vals \<and> (\<forall>c. hm_get vals c \<noteq> None \<longleftrightarrow> c \<in> set (sp_auto_params sp))) comps rs"
    and "c \<notin> set (concat (map sp_auto_params comps))"
  shows "hm_get (fold (\<lambda>(vals, u) m. extend_values m vals) rs m) c = hm_get m c"
  using assms
proof (induction comps rs arbitrary: m rule: list_all2_induct)
  case (Cons sp comps r rs)
  obtain vals u where r: "r = (vals, u)" by (cases r)
  have vals: "hm_wf vals" "hm_get vals c = None" using Cons.hyps(1) Cons.prems by (auto simp: r)
  show ?case using Cons.IH [of "extend_values m vals"] Cons.prems by (simp add: r hm_get_extend [OF vals(1)] vals(2))
qed simp

lemma merged_wf: "hm_wf m \<Longrightarrow> hm_wf (fold (\<lambda>(vals, u) m. extend_values m vals) rs m)"
  by (induction rs arbitrary: m) (auto intro: hm_wf_extend)

section \<open>The component loop\<close>

text \<open>
  The loop over components whose solvers answer without a ranking: it returns the
  first failure, or the answers of all components merged in order.
\<close>

lemma solve_components_spec:
  assumes "\<And>ci sp. sp \<in> set comps \<Longrightarrow> run ci sp = map_option (\<lambda>r. (r, None)) (solve sp)"
    and "\<And>sp. sp \<in> set comps \<Longrightarrow> solve sp \<noteq> None"
  shows "(\<exists>sp \<in> set comps. \<exists>failed. solve sp = Some failed \<and> (\<forall>v u. failed \<noteq> Solved v u)
        \<and> solve_components run ci comps s = Some (Inl failed))
    \<or> (\<exists>rs s'. list_all2 (\<lambda>sp (vals, u). solve sp = Some (Solved vals u)) comps rs
        \<and> solve_components run ci comps s = Some (Inr s')
        \<and> merged_values s' = fold (\<lambda>(vals, u) m. extend_values m vals) rs (merged_values s)
        \<and> all_unique s' = (all_unique s \<and> (\<forall>(vals, u) \<in> set rs. u)) \<and> captured_ranking s' = captured_ranking s)"
  using assms
proof (induction comps arbitrary: ci s)
  case (Cons sp comps)
  obtain r where r: "solve sp = Some r" using Cons.prems(2) by fastforce
  have run: "run ci sp = Some (r, None)" using Cons.prems(1) [of sp ci] r by simp
  show ?case
  proof (cases r)
    case (Solved vals u)
    let ?s = "absorb vals u None s"
    have s: "merged_values ?s = extend_values (merged_values s) vals" "all_unique ?s = (all_unique s \<and> u)"
      "captured_ranking ?s = captured_ranking s" by (simp_all add: absorb_def)
    have step: "solve_components run ci (sp # comps) s = solve_components run (Suc ci) comps ?s"
      by (simp add: run Solved)
    show ?thesis
    proof (rule disjE [OF Cons.IH [of "Suc ci" ?s]])
      show "run ci c = map_option (\<lambda>r. (r, None)) (solve c)" if "c \<in> set comps" for ci c
        using Cons.prems(1) that by simp
      show "solve c \<noteq> None" if "c \<in> set comps" for c using Cons.prems(2) that by simp
    next
      assume "\<exists>c \<in> set comps. \<exists>failed. solve c = Some failed \<and> (\<forall>v u. failed \<noteq> Solved v u)
          \<and> solve_components run (Suc ci) comps ?s = Some (Inl failed)"
      then show ?thesis unfolding step by (intro disjI1) auto
    next
      assume "\<exists>rs s'. list_all2 (\<lambda>c (vals, u). solve c = Some (Solved vals u)) comps rs
        \<and> solve_components run (Suc ci) comps ?s = Some (Inr s')
        \<and> merged_values s' = fold (\<lambda>(vals, u) m. extend_values m vals) rs (merged_values ?s)
        \<and> all_unique s' = (all_unique ?s \<and> (\<forall>(vals, u) \<in> set rs. u)) \<and> captured_ranking s' = captured_ranking ?s"
      then obtain rs s' where "list_all2 (\<lambda>c (vals, u). solve c = Some (Solved vals u)) comps rs"
        "solve_components run (Suc ci) comps ?s = Some (Inr s')"
        "merged_values s' = fold (\<lambda>(vals, u) m. extend_values m vals) rs (merged_values ?s)"
        "all_unique s' = (all_unique ?s \<and> (\<forall>(vals, u) \<in> set rs. u))" "captured_ranking s' = captured_ranking ?s" by blast
      then show ?thesis unfolding step s using r Solved
        by (intro disjI2 exI [of _ "(vals, u) # rs"] exI [of _ s']) simp
    qed
  qed (use r run in auto)
qed simp

section \<open>Every component comes back\<close>

definition restrict_values :: "ValueCellId set \<Rightarrow> ValueMap \<Rightarrow> ValueMap" where
  "restrict_values A vals = filter (\<lambda>(c, v). c \<in> A) vals"

lemma hm_get_restrict: "hm_get (restrict_values A vals) c = (if c \<in> A then hm_get vals c else None)"
  unfolding restrict_values_def by (induction vals) (auto simp: hm_get_Cons hm_get_def [of "[]"])

lemma hm_wf_restrict: "hm_wf vals \<Longrightarrow> hm_wf (restrict_values A vals)"
  unfolding restrict_values_def hm_wf_def by (induction vals) auto

lemma in_domains_cong:
  assumes "hm_wf w" "hm_wf w'" "\<And>c. hm_get w c = hm_get w' c"
  shows "in_domains problem w \<longleftrightarrow> in_domains problem w'"
  unfolding in_domains_def using assms by simp

text \<open>Without reads of cells, a constraint sees the assignment over the current values.\<close>

lemma satisfies_direct:
  assumes eval: "local_eval eval exprs" "snd ` set (rp_constraints p) \<subseteq> exprs" and reads: "reads_no_cells p" and w: "hm_wf w"
    and m: "\<And>cid expr r. (cid, expr) \<in> set (rp_constraints p) \<Longrightarrow> r \<in> bare_reads expr \<Longrightarrow>
      hm_get m r = (case hm_get w r of Some v \<Rightarrow> Some v | None \<Rightarrow> hm_get (rp_current_values p) r)"
  shows "satisfies eval p w \<longleftrightarrow> list_all (\<lambda>(cid, expr). eval m expr \<noteq> ValBool False) (rp_constraints p)"
proof -
  have "eval (build_scoring_values eval (rp_current_values p) w (rp_dependent_cells p)) expr = eval m expr"
    if c: "(cid, expr) \<in> set (rp_constraints p)" for cid expr
  proof (rule local_evalD [OF eval(1)])
    show "expr \<in> exprs" using eval(2) c by force
  next
    fix r assume r: "r \<in> bare_reads expr"
    then have "r \<notin> fst ` set (rp_dependent_cells p)"
      using reads c unfolding reads_no_cells_def list_all_iff collect_constraint_refs_def set_bare_value_refs by blast
    then have "hm_get (build_scoring_values eval (rp_current_values p) w (rp_dependent_cells p)) r
        = hm_get (extend_values (rp_current_values p) w) r"
      unfolding build_scoring_values_def extend_values_def by (rule fold_cells_other)
    then show "hm_get (build_scoring_values eval (rp_current_values p) w (rp_dependent_cells p)) r = hm_get m r"
      by (simp add: hm_get_extend [OF w] m [OF c r])
  qed
  then show ?thesis unfolding satisfies_def by (intro list.pred_cong) auto
qed

definition honest :: "evaluator \<Rightarrow> (problem \<Rightarrow> 'r SolveResult option) \<Rightarrow> problem \<Rightarrow> bool" where
  "honest eval solve p \<longleftrightarrow> (\<exists>r. solve p = Some r \<and> verdict_ok eval p r)"

text \<open>The problem that the loop builds for a component when there is no objective.\<close>

definition part_of :: "problem \<Rightarrow> DecompositionPrelude \<Rightarrow> SubProblem \<Rightarrow> problem" where
  "part_of problem prelude sp = the (component_problem problem (dependent_auto_reads prelude) False sp)"

lemma autos_read_direct: "A \<inter> bare_reads expr \<subseteq> autos_read cells A expr"
  by (auto simp: autos_read_def)

lemma distinct_submset:
  assumes "mset xs \<subseteq># mset ys" "distinct ys" shows "distinct xs"
proof -
  obtain zs where "mset ys = mset (xs @ zs)"
    using assms(1) ex_mset [of "mset ys - mset xs"] by (metis mset_append subset_mset.add_diff_inverse)
  then have "distinct (xs @ zs)" using assms(2) mset_eq_imp_distinct_iff by blast
  then show ?thesis by simp
qed

text \<open>What the prelude promises about the components.\<close>

lemma prelude_no_objective:
  "decompose_prelude problem = Some prelude \<Longrightarrow> rp_objective problem = None \<Longrightarrow> objective_component (consumption prelude) = None"
  by (auto simp: decompose_prelude_def Let_def split: if_splits Option.bind_splits)

lemma prelude_spec:
  assumes prelude: "decompose_prelude problem = Some prelude"
    and dist: "distinct (map ap_id (rp_auto_params problem))"
  shows "distinct (concat (map sp_auto_params (components prelude)))"
    and "\<And>sp. sp \<in> set (components prelude) \<Longrightarrow> set (sp_auto_params sp) \<subseteq> auto_ids problem"
    and "\<And>sp cid expr. sp \<in> set (components prelude) \<Longrightarrow> (cid, expr) \<in> set (sp_constraints sp) \<Longrightarrow>
      (cid, expr) \<in> set (rp_constraints problem) \<and> auto_ids problem \<inter> bare_reads expr \<subseteq> set (sp_auto_params sp)"
    and "\<And>cid expr. (cid, expr) \<in> set (rp_constraints problem) \<Longrightarrow> auto_ids problem \<inter> bare_reads expr \<noteq> {} \<Longrightarrow>
      \<exists>sp \<in> set (components prelude). (cid, expr) \<in> set (sp_constraints sp)"
proof -
  let ?A = "auto_ids problem" and ?cells = "rp_dependent_cells problem" and ?cs = "rp_constraints problem"
  have all: "mset (concat (map sp_auto_params (components prelude))) \<subseteq># mset (map ap_id (rp_auto_params problem))
    \<and> mset (concat (map sp_constraints (components prelude))) = mset (filter (\<lambda>(cid, expr). autos_read ?cells ?A expr \<noteq> {}) ?cs)
    \<and> list_all (\<lambda>sub. (\<Union>(cid, expr) \<in> set (sp_constraints sub). autos_read ?cells ?A expr) \<subseteq> set (sp_auto_params sub))
        (components prelude)"
  proof (cases "rp_auto_params problem = []")
    case True
    then show ?thesis using prelude by (auto simp: decompose_prelude_def autos_read_def)
  next
    case False
    obtain reads where reads: "dependent_cell_auto_reads ?cells (rp_auto_params problem) = Some reads" using reads_exact by blast
    let ?obj = "map_option (\<lambda>obj. expand_objective (fold (\<lambda>t. bare_value_refs (term_expr t)) (terms obj) []) reads) (rp_objective problem)"
    from subs_exact [OF reads, of ?cs ?obj] obtain subs where
      subs: "decompose_with_reads (rp_auto_params problem) ?cs ?obj reads = Some subs"
      "mset (concat (map sp_constraints subs)) = mset (filter (\<lambda>(cid, expr). autos_read ?cells ?A expr \<noteq> {}) ?cs)"
      "mset (concat (map sp_auto_params subs)) \<subseteq># mset (map ap_id (rp_auto_params problem))"
      "list_all (\<lambda>sub. sp_constraints sub \<noteq> [] \<and> (\<Union>(cid, expr) \<in> set (sp_constraints sub). autos_read ?cells ?A expr)
           \<subseteq> set (sp_auto_params sub)) subs" by blast
    have "components prelude = subs"
      using prelude False subs(1) by (auto simp: decompose_prelude_def reads Let_def)
    then show ?thesis using subs(2-4) by (auto simp: list_all_iff)
  qed
  have closed: "\<forall>sub \<in> set (components prelude). (\<Union>(cid, expr) \<in> set (sp_constraints sub). autos_read ?cells ?A expr)
      \<subseteq> set (sp_auto_params sub)"
    using all unfolding list_all_iff by blast
  have sub: "mset (concat (map sp_auto_params (components prelude))) \<subseteq># mset (map ap_id (rp_auto_params problem))"
    using all by blast
  then show "distinct (concat (map sp_auto_params (components prelude)))"
    using dist by (rule distinct_submset)
  have autos: "set (concat (map sp_auto_params (components prelude))) \<subseteq> ?A"
    using set_mset_mono [OF sub] by simp
  then show "set (sp_auto_params sp) \<subseteq> ?A" if "sp \<in> set (components prelude)" for sp
    using that by auto
  have cs: "set (concat (map sp_constraints (components prelude))) = set (filter (\<lambda>(cid, expr). autos_read ?cells ?A expr \<noteq> {}) ?cs)"
    using all by (metis set_mset_mset)
  show "(cid, expr) \<in> set ?cs \<and> ?A \<inter> bare_reads expr \<subseteq> set (sp_auto_params sp)"
    if "sp \<in> set (components prelude)" "(cid, expr) \<in> set (sp_constraints sp)" for sp cid expr
  proof
    have "(cid, expr) \<in> set (concat (map sp_constraints (components prelude)))" using that by auto
    then show "(cid, expr) \<in> set ?cs" unfolding cs by simp
    have "autos_read ?cells ?A expr \<subseteq> set (sp_auto_params sp)"
      using closed that by blast
    with autos_read_direct show "?A \<inter> bare_reads expr \<subseteq> set (sp_auto_params sp)" by blast
  qed
  show "\<exists>sp \<in> set (components prelude). (cid, expr) \<in> set (sp_constraints sp)"
    if "(cid, expr) \<in> set ?cs" "?A \<inter> bare_reads expr \<noteq> {}" for cid expr
  proof -
    have "autos_read ?cells ?A expr \<noteq> {}" using that(2) autos_read_direct by blast
    then have "(cid, expr) \<in> set (concat (map sp_constraints (components prelude)))" unfolding cs using that(1) by simp
    then show ?thesis by auto
  qed
qed

lemma part_of_spec:
  assumes "set (sp_auto_params sp) \<subseteq> auto_ids problem"
  shows "component_problem problem (dependent_auto_reads prelude) False sp = Some (part_of problem prelude sp)"
    and "map ap_id (rp_auto_params (part_of problem prelude sp)) = sp_auto_params sp"
    and "rp_constraints (part_of problem prelude sp) = sp_constraints sp"
    and "rp_current_values (part_of problem prelude sp) = rp_current_values problem"
    and "rp_objective (part_of problem prelude sp) = None"
    and "set (rp_dependent_cells (part_of problem prelude sp)) \<subseteq> set (rp_dependent_cells problem)"
  using component_problem_exists [OF assms, of "dependent_auto_reads prelude" False] by (auto simp: part_of_def)

text \<open>
  The merged values, restricted to the autos of a component, are its solution
  again, and no constraint over an auto is false at them.
\<close>

lemma part_solution:
  assumes eval: "local_eval eval (problem_exprs problem)" and reads: "reads_no_cells problem"
    and sp: "set (sp_auto_params sp) \<subseteq> auto_ids problem"
    and cs: "\<And>cid expr. (cid, expr) \<in> set (sp_constraints sp) \<Longrightarrow>
      (cid, expr) \<in> set (rp_constraints problem) \<and> auto_ids problem \<inter> bare_reads expr \<subseteq> set (sp_auto_params sp)"
    and vals: "hm_wf vals" "\<And>c. c \<in> set (sp_auto_params sp) \<Longrightarrow> hm_get vals c = hm_get answer c"
      "\<And>c. hm_get vals c \<noteq> None \<Longrightarrow> c \<in> auto_ids problem"
    and answer: "solution eval (part_of problem prelude sp) answer"
  shows "solution eval (part_of problem prelude sp) (restrict_values (set (sp_auto_params sp)) vals)"
    and "(cid, expr) \<in> set (sp_constraints sp) \<Longrightarrow>
      eval (build_scoring_values eval (rp_current_values problem) vals (rp_dependent_cells problem)) expr \<noteq> ValBool False"
proof -
  let ?p = "part_of problem prelude sp" and ?w = "restrict_values (set (sp_auto_params sp)) vals"
  note part = part_of_spec [OF sp, of prelude]
  have ids: "auto_ids ?p = set (sp_auto_params sp)" using arg_cong [OF part(2), of set] by simp
  have wf: "hm_wf answer" "hm_wf ?w" using answer vals(1) by (simp_all add: solution_def in_domains_def hm_wf_restrict)
  have same: "hm_get ?w c = hm_get answer c" for c
  proof (cases "c \<in> set (sp_auto_params sp)")
    case False
    then have "hm_get answer c = None" using answer unfolding solution_def in_domains_def ids by blast
    with False show ?thesis by (simp add: hm_get_restrict)
  qed (simp add: hm_get_restrict vals(2))
  have exprs: "snd ` set (rp_constraints ?p) \<subseteq> problem_exprs problem"
    using cs by (force simp: part(3) problem_exprs_def)
  have part_reads: "reads_no_cells ?p"
    unfolding reads_no_cells_def list_all_iff part(3)
  proof clarify
    fix cid expr assume "(cid, expr) \<in> set (sp_constraints sp)"
    then have "(cid, expr) \<in> set (rp_constraints problem)" using cs by blast
    then have "set (collect_constraint_refs expr) \<inter> fst ` set (rp_dependent_cells problem) = {}"
      using reads unfolding reads_no_cells_def list_all_iff by blast
    then show "set (collect_constraint_refs expr) \<inter> fst ` set (rp_dependent_cells ?p) = {}"
      using image_mono [OF part(6), of fst] by blast
  qed
  note direct = satisfies_direct [OF eval exprs part_reads]
  define m where "m = build_scoring_values eval (rp_current_values problem) vals (rp_dependent_cells problem)"
  have m: "hm_get m r = (case hm_get w r of Some v \<Rightarrow> Some v | None \<Rightarrow> hm_get (rp_current_values ?p) r)"
    if c: "(cid, expr) \<in> set (rp_constraints ?p)" and r: "r \<in> bare_reads expr" and w: "w = ?w \<or> w = answer" for cid expr r w
  proof -
    have c': "(cid, expr) \<in> set (rp_constraints problem)" "auto_ids problem \<inter> bare_reads expr \<subseteq> set (sp_auto_params sp)"
      using cs c by (simp_all add: part(3))
    then have "r \<notin> fst ` set (rp_dependent_cells problem)"
      using reads r unfolding reads_no_cells_def list_all_iff collect_constraint_refs_def set_bare_value_refs by blast
    then have "hm_get m r = hm_get (extend_values (rp_current_values problem) vals) r"
      unfolding m_def build_scoring_values_def extend_values_def by (rule fold_cells_other)
    moreover have "hm_get w r = hm_get ?w r" using w same by auto
    moreover have "hm_get ?w r = hm_get vals r"
      using c'(2) r vals(3) [of r] by (cases "hm_get vals r") (auto simp: hm_get_restrict)
    ultimately show ?thesis by (simp add: hm_get_extend [OF vals(1)] part(4) split: option.split)
  qed
  have at: "list_all (\<lambda>(cid, expr). eval m expr \<noteq> ValBool False) (rp_constraints ?p)"
    using answer direct [OF wf(1), of m] m unfolding solution_def by blast
  then have "satisfies eval ?p ?w" using direct [OF wf(2), of m] m by blast
  moreover have "in_domains ?p ?w \<longleftrightarrow> in_domains ?p answer" by (rule in_domains_cong [OF wf(2,1) same])
  ultimately show "solution eval ?p ?w" using answer by (simp add: solution_def)
  show "eval (build_scoring_values eval (rp_current_values problem) vals (rp_dependent_cells problem)) expr \<noteq> ValBool False"
    if "(cid, expr) \<in> set (sp_constraints sp)"
    using at that unfolding list_all_iff m_def part(3) by fastforce
qed

lemma registry_merge:
  assumes eval: "local_eval (eval dispatch) (problem_exprs problem)" and wf: "well_formed problem"
    and reads: "reads_no_cells problem" and none: "rp_objective problem = None"
    and prelude: "decompose_prelude problem = Some prelude"
    and honest: "\<forall>sp \<in> set (components prelude).
      honest (eval dispatch) (run_solve (solver_for registry (sp_domain sp)) dispatch) (part_of problem prelude sp)"
  shows "\<exists>r. registry_solve_with_dispatch fo xxh eval registry problem dispatch = Some r
     \<and> (case r of
          Solved vals unique \<Rightarrow>
            list_all (\<lambda>(cid, expr). auto_ids problem \<inter> bare_reads expr \<noteq> {} \<longrightarrow>
                eval dispatch (build_scoring_values (eval dispatch) (rp_current_values problem) vals (rp_dependent_cells problem)) expr
                  \<noteq> ValBool False) (rp_constraints problem)
            \<and> (\<forall>sp \<in> set (components prelude).
                 solution (eval dispatch) (part_of problem prelude sp) (restrict_values (set (sp_auto_params sp)) vals)
                 \<and> (unique \<longrightarrow> sole_solution (eval dispatch) (part_of problem prelude sp)
                      (restrict_values (set (sp_auto_params sp)) vals)))
        | Infeasible \<Rightarrow> \<exists>sp \<in> set (components prelude). \<forall>w. \<not> solution (eval dispatch) (part_of problem prelude sp) w
        | NoProgress reason \<Rightarrow> \<exists>sp \<in> set (components prelude).
            run_solve (solver_for registry (sp_domain sp)) dispatch (part_of problem prelude sp) = Some (NoProgress reason))"
proof -
  let ?comps = "components prelude" and ?eval = "eval dispatch" and ?part = "part_of problem prelude"
  let ?solve = "\<lambda>sp. run_solve (solver_for registry (sp_domain sp)) dispatch (?part sp)"
  have "distinct (map ap_id (rp_auto_params problem))" using wf by (simp add: well_formed_def cells_ok_def)
  note pre = prelude_no_objective [OF prelude none] prelude_spec [OF prelude this]
  define run where "run = (\<lambda>ci component. do {
       sub \<leftarrow> component_problem problem (dependent_auto_reads prelude) (objective_component (consumption prelude) = Some ci) component;
       component_result fo xxh eval (solver_for registry (sp_domain component))
         (False \<and> objective_component (consumption prelude) = Some ci) dispatch sub })"
  define start :: RegistryState where
    "start = \<lparr>merged_values = [], all_unique = True, other_values = [], other_unique = True, captured_ranking = None\<rparr>"
  have start: "merged_values start = []" "all_unique start = True" by (simp_all add: start_def)
  have run: "run ci sp = map_option (\<lambda>r. (r, None)) (?solve sp)" if "sp \<in> set ?comps" for ci sp
  proof -
    note part = part_of_spec [OF pre(3) [OF that], of prelude]
    show ?thesis unfolding run_def pre(1) using part(1) part(5) by (simp add: component_result_def)
  qed
  have answers: "\<exists>r. ?solve sp = Some r \<and> verdict_ok ?eval (?part sp) r" if "sp \<in> set ?comps" for sp
    using honest that by (auto simp: honest_def)
  have solve: "registry_solve_with_dispatch fo xxh eval registry problem dispatch =
      map_option (\<lambda>r. case r of Inl failed \<Rightarrow> failed | Inr s \<Rightarrow> Solved (merged_values s) (all_unique s))
        (solve_components run 0 ?comps start)"
  proof (cases "?comps = []")
    case True
    then show ?thesis by (simp add: registry_solve_with_dispatch_def solve_inner_def prelude start_def)
  next
    case False
    then have "rp_auto_params problem \<noteq> []" using prelude by (auto simp: decompose_prelude_def)
    with False show ?thesis
      by (auto simp: registry_solve_with_dispatch_def solve_inner_def prelude start_def run_def Let_def
          split: Option.bind_splits sum.splits)
  qed
  show ?thesis
  proof (rule disjE [OF solve_components_spec [of ?comps run ?solve 0 start]])
    show "run ci sp = map_option (\<lambda>r. (r, None)) (?solve sp)" if "sp \<in> set ?comps" for ci sp
      using that by (rule run)
    show "?solve sp \<noteq> None" if "sp \<in> set ?comps" for sp using answers [OF that] by auto
  next
    assume "\<exists>sp \<in> set ?comps. \<exists>failed. ?solve sp = Some failed \<and> (\<forall>v u. failed \<noteq> Solved v u)
      \<and> solve_components run 0 ?comps start = Some (Inl failed)"
    then obtain sp failed where failed: "sp \<in> set ?comps" "?solve sp = Some failed" "\<forall>v u. failed \<noteq> Solved v u"
      "solve_components run 0 ?comps start = Some (Inl failed)" by blast
    then show ?thesis using answers [OF failed(1)] unfolding solve by (cases failed) auto
  next
    assume "\<exists>rs s. list_all2 (\<lambda>sp (vals, u). ?solve sp = Some (Solved vals u)) ?comps rs
      \<and> solve_components run 0 ?comps start = Some (Inr s)
      \<and> merged_values s = fold (\<lambda>(vals, u) m. extend_values m vals) rs (merged_values start)
      \<and> all_unique s = (all_unique start \<and> (\<forall>(vals, u) \<in> set rs. u)) \<and> captured_ranking s = captured_ranking start"
    then obtain rs s where merged: "list_all2 (\<lambda>sp (vals, u). ?solve sp = Some (Solved vals u)) ?comps rs"
      "solve_components run 0 ?comps start = Some (Inr s)"
      "merged_values s = fold (\<lambda>(vals, u) m. extend_values m vals) rs []" "all_unique s = (\<forall>(vals, u) \<in> set rs. u)"
      unfolding start by blast
    let ?vals = "merged_values s"
    have rs: "list_all2 (\<lambda>sp (vals, u). solution ?eval (?part sp) vals \<and> (u \<longrightarrow> sole_solution ?eval (?part sp) vals)) ?comps rs"
      by (rule list.rel_mono_strong [OF merged(1)]) (use answers in fastforce)
    have doms: "list_all2 (\<lambda>sp (vals, u). hm_wf vals \<and> (\<forall>c. hm_get vals c \<noteq> None \<longleftrightarrow> c \<in> set (sp_auto_params sp))) ?comps rs"
    proof (rule list.rel_mono_strong [OF rs])
      fix sp r assume sp: "sp \<in> set ?comps"
        and "case r of (vals, u) \<Rightarrow> solution ?eval (?part sp) vals \<and> (u \<longrightarrow> sole_solution ?eval (?part sp) vals)"
      then show "case r of (vals, u) \<Rightarrow> hm_wf vals \<and> (\<forall>c. hm_get vals c \<noteq> None \<longleftrightarrow> c \<in> set (sp_auto_params sp))"
        using arg_cong [OF part_of_spec(2) [OF pre(3) [OF sp], of prelude], of set]
        by (auto simp: solution_def in_domains_def simp del: not_None_eq)
    qed
    have vals: "hm_wf ?vals" "\<And>c. hm_get ?vals c \<noteq> None \<Longrightarrow> c \<in> auto_ids problem"
    proof -
      show "hm_wf ?vals" unfolding merged(3) by (rule merged_wf) (simp add: hm_wf_def)
      show "c \<in> auto_ids problem" if "hm_get ?vals c \<noteq> None" for c
      proof (rule ccontr)
        assume "c \<notin> auto_ids problem"
        then have "c \<notin> set (concat (map sp_auto_params ?comps))" using pre(3) by auto
        then show False using that merged_nowhere [OF doms, of c "[]"] unfolding merged(3) by (simp add: hm_get_def)
      qed
    qed
    have part: "\<exists>answer u. (answer, u) \<in> set rs \<and> solution ?eval (?part sp) answer \<and> (u \<longrightarrow> sole_solution ?eval (?part sp) answer)
        \<and> (\<forall>c \<in> set (sp_auto_params sp). hm_get ?vals c = hm_get answer c)" if sp: "sp \<in> set ?comps" for sp
    proof -
      obtain i where i: "i < length ?comps" "sp = ?comps ! i" using sp by (metis in_set_conv_nth)
      obtain answer u where r: "rs ! i = (answer, u)" by (cases "rs ! i")
      have len: "length rs = length ?comps" using list_all2_lengthD [OF rs] by simp
      have "(sp, answer, u) \<in> set (zip ?comps rs)" using i r len by (auto simp: set_zip)
      from merged_at [OF doms pre(2) this] list_all2_nthD [OF rs i(1)] nth_mem [of i rs] show ?thesis
        unfolding merged(3) using i r len by fastforce
    qed
    have sol: "solution ?eval (?part sp) (restrict_values (set (sp_auto_params sp)) ?vals)
        \<and> (all_unique s \<longrightarrow> sole_solution ?eval (?part sp) (restrict_values (set (sp_auto_params sp)) ?vals))"
      and false: "(cid, expr) \<in> set (sp_constraints sp) \<Longrightarrow>
        ?eval (build_scoring_values ?eval (rp_current_values problem) ?vals (rp_dependent_cells problem)) expr \<noteq> ValBool False"
      if sp: "sp \<in> set ?comps" for sp cid expr
    proof -
      obtain answer u where a: "(answer, u) \<in> set rs" "solution ?eval (?part sp) answer"
        "u \<longrightarrow> sole_solution ?eval (?part sp) answer" "\<And>c. c \<in> set (sp_auto_params sp) \<Longrightarrow> hm_get ?vals c = hm_get answer c"
        using part [OF sp] by blast
      note ps = part_solution [OF eval reads pre(3) [OF sp] pre(4) [OF sp] vals(1) a(4) vals(2) a(2)]
      have "sole_solution ?eval (?part sp) (restrict_values (set (sp_auto_params sp)) ?vals)" if "all_unique s"
      proof -
        have "sole_solution ?eval (?part sp) answer" using that a(1,3) merged(4) by fastforce
        then show ?thesis using ps(1) unfolding sole_solution_def by metis
      qed
      with ps show "solution ?eval (?part sp) (restrict_values (set (sp_auto_params sp)) ?vals)
        \<and> (all_unique s \<longrightarrow> sole_solution ?eval (?part sp) (restrict_values (set (sp_auto_params sp)) ?vals))"
        "(cid, expr) \<in> set (sp_constraints sp) \<Longrightarrow>
        ?eval (build_scoring_values ?eval (rp_current_values problem) ?vals (rp_dependent_cells problem)) expr \<noteq> ValBool False"
        by blast+
    qed
    have "list_all (\<lambda>(cid, expr). auto_ids problem \<inter> bare_reads expr \<noteq> {} \<longrightarrow>
        ?eval (build_scoring_values ?eval (rp_current_values problem) ?vals (rp_dependent_cells problem)) expr
          \<noteq> ValBool False) (rp_constraints problem)"
      unfolding list_all_iff using pre(5) false by fastforce
    then show ?thesis using sol merged(2) unfolding solve by auto
  qed
qed

section \<open>The best candidate is the answer\<close>

text \<open>A solver answers for the autos of its problem only.\<close>

definition own_values :: "'o ResolutionProblem \<Rightarrow> ValueMap \<Rightarrow> bool" where
  "own_values p vals \<longleftrightarrow> hm_wf vals \<and> (\<forall>c. hm_get vals c \<noteq> None \<longrightarrow> c \<in> auto_ids p)"

definition answers_own :: "('d, 'r) ConstraintSolver \<Rightarrow> 'd option \<Rightarrow> bool" where
  "answers_own solver dispatch \<longleftrightarrow>
     (\<forall>p vals u. run_solve solver dispatch p = Some (Solved vals u) \<longrightarrow> own_values p vals)
     \<and> (\<forall>p cands opt comp_rep. run_solve_ranked solver dispatch p = Some (Ranked cands opt comp_rep)
          \<longrightarrow> (\<forall>cand \<in> set cands. own_values p (candidate_values cand)))"

lemma lex_stages_own:
  assumes "\<And>p vals u. solve p = Some (Solved vals u) \<Longrightarrow> own_values p vals"
  shows "lex_stages fo xxh eval solve base ts i ps current acc = Some (Solved vals u) \<Longrightarrow> own_values base vals"
proof (induction ps arbitrary: i current acc)
  case (Cons p ps)
  let ?stage = "base\<lparr>rp_auto_params := map (\<lambda>ap. ap\<lparr>free := True\<rparr>) (rp_auto_params base), rp_constraints := acc,
    rp_current_values := current, rp_objective := Some (weighted_sum (filter (\<lambda>t. priority t = p) ts))\<rparr>"
  have ids: "auto_ids ?stage = auto_ids base" by (simp add: image_image)
  have own: "own_values base v" if "solve ?stage = Some (Solved v w)" for v w
    using assms [OF that] unfolding own_values_def ids .
  show ?case
    using Cons.prems Cons.IH own by (auto simp: Let_def split: option.splits SolveResult.splits if_splits)
qed simp

lemma solve_lexicographic_own:
  assumes "\<And>p vals u. solve p = Some (Solved vals u) \<Longrightarrow> own_values p vals"
    and "solve_lexicographic fo xxh eval solve base = Some (Solved vals u)"
  shows "own_values base vals"
proof -
  have "own_values base vals" if "solve (base\<lparr>rp_objective := obj\<rparr>) = Some (Solved vals u)" for obj
    using assms(1) [OF that] by (simp add: own_values_def)
  then show ?thesis
    using assms(2) lex_stages_own [OF assms(1)]
    by (auto simp: solve_lexicographic_def split: option.splits if_splits)
qed

text \<open>What one component hands to the loop.\<close>

definition result_ok :: "bool \<Rightarrow> problem \<Rightarrow> ValueMap \<Rightarrow> bool \<Rightarrow> captured \<Rightarrow> bool" where
  "result_ok ranked p vals u captured \<longleftrightarrow> own_values p vals
     \<and> (case captured of
          None \<Rightarrow> True
        | Some (opt, sc, cands) \<Rightarrow> ranked \<and> (\<exists>best rest. cands = best # rest \<and> sc = objective_score best
            \<and> vals = candidate_values best \<and> u = candidate_unique best))"

lemma component_result_ok:
  assumes own: "answers_own solver dispatch"
    and res: "component_result fo xxh eval solver ranked dispatch sub = Some (Solved vals u, captured)"
  shows "result_ok ranked sub vals u captured"
proof -
  have solve: "\<And>p vals u. run_solve solver dispatch p = Some (Solved vals u) \<Longrightarrow> own_values p vals"
    and rank: "\<And>p cands opt c cand. run_solve_ranked solver dispatch p = Some (Ranked cands opt c) \<Longrightarrow> cand \<in> set cands
      \<Longrightarrow> own_values p (candidate_values cand)"
    using own unfolding answers_own_def by blast+
  show ?thesis
    using res solve rank solve_lexicographic_own [OF solve]
    unfolding component_result_def result_ok_def
    by (auto split: if_splits option.splits RankedSolveResult.splits list.splits)
qed

definition loop_inv :: "nat option \<Rightarrow> nat \<Rightarrow> ValueCellId set \<Rightarrow> RegistryState \<Rightarrow> bool" where
  "loop_inv objective ci U s \<longleftrightarrow>
     hm_wf (other_values s) \<and> (\<forall>c. hm_get (other_values s) c \<noteq> None \<longrightarrow> c \<in> U)
     \<and> (case captured_ranking s of
          None \<Rightarrow> (\<forall>c. hm_get (merged_values s) c = hm_get (other_values s) c) \<and> all_unique s = other_unique s
        | Some (opt, sc, cands) \<Rightarrow> (\<exists>j < ci. objective = Some j)
            \<and> (\<exists>best rest. cands = best # rest \<and> sc = objective_score best \<and> hm_wf (candidate_values best)
                 \<and> (\<forall>c. hm_get (candidate_values best) c \<noteq> None \<longrightarrow> c \<in> U)
                 \<and> (\<forall>c. hm_get (merged_values s) c = hm_get (extend_values (other_values s) (candidate_values best)) c)
                 \<and> all_unique s = (candidate_unique best \<and> other_unique s)))"

lemma loop_inv_absorb:
  assumes inv: "loop_inv objective ci U s" and ok: "result_ok (objective = Some ci) sub vals u captured"
    and disjoint: "auto_ids sub \<inter> U = {}"
  shows "loop_inv objective (Suc ci) (U \<union> auto_ids sub) (absorb vals u captured s)"
proof -
  have vals: "hm_wf vals" "\<And>c. hm_get vals c \<noteq> None \<Longrightarrow> c \<in> auto_ids sub"
    using ok by (simp_all add: result_ok_def own_values_def)
  have other: "hm_wf (other_values s)" "\<And>c. hm_get (other_values s) c \<noteq> None \<Longrightarrow> c \<in> U"
    using inv by (simp_all add: loop_inv_def)
  show ?thesis
  proof (cases captured)
    case None
    have wf: "hm_wf (extend_values (other_values s) vals)" using other(1) by (rule hm_wf_extend)
    have keys: "c \<in> U \<union> auto_ids sub" if "hm_get (extend_values (other_values s) vals) c \<noteq> None" for c
      using that other(2) [of c] vals(2) [of c] by (auto simp: hm_get_extend [OF vals(1)] split: option.splits)
    show ?thesis
    proof (cases "captured_ranking s")
      case None
      then have old: "\<And>c. hm_get (merged_values s) c = hm_get (other_values s) c" "all_unique s = other_unique s"
        using inv by (simp_all add: loop_inv_def)
      have "hm_get (extend_values (merged_values s) vals) c = hm_get (extend_values (other_values s) vals) c" for c
        by (simp add: hm_get_extend [OF vals(1)] old(1) split: option.split)
      then show ?thesis using None old(2) wf keys \<open>captured = None\<close>
        by (auto simp: loop_inv_def absorb_def simp del: not_None_eq)
    next
      case (Some r)
      obtain opt sc cands where r: "r = (opt, sc, cands)" by (cases r)
      then obtain j best rest where best: "j < ci" "objective = Some j" "cands = best # rest" "sc = objective_score best"
        "hm_wf (candidate_values best)" "\<And>c. hm_get (candidate_values best) c \<noteq> None \<Longrightarrow> c \<in> U"
        "\<And>c. hm_get (merged_values s) c = hm_get (extend_values (other_values s) (candidate_values best)) c"
        "all_unique s = (candidate_unique best \<and> other_unique s)"
        using inv Some by (auto simp: loop_inv_def simp del: not_None_eq)
      have "hm_get (extend_values (merged_values s) vals) c
          = hm_get (extend_values (extend_values (other_values s) vals) (candidate_values best)) c" for c
      proof (cases "hm_get vals c")
        case None
        then show ?thesis by (simp add: hm_get_extend [OF vals(1)] hm_get_extend [OF best(5)] best(7) split: option.split)
      next
        case (Some v)
        then have "c \<notin> U" using vals(2) [of c] disjoint by auto
        then have "hm_get (candidate_values best) c = None" using best(6) by blast
        then show ?thesis using Some by (simp add: hm_get_extend [OF vals(1)] hm_get_extend [OF best(5)])
      qed
      then show ?thesis using best wf keys Some r \<open>captured = None\<close>
        by (auto simp: loop_inv_def absorb_def simp del: not_None_eq)
    qed
  next
    case (Some r)
    obtain opt sc cands where r: "r = (opt, sc, cands)" by (cases r)
    then obtain best rest where best: "objective = Some ci" "cands = best # rest" "sc = objective_score best"
      "vals = candidate_values best" "u = candidate_unique best"
      using ok Some by (auto simp: result_ok_def)
    have "captured_ranking s = None"
      using inv best(1) by (cases "captured_ranking s") (auto simp: loop_inv_def)
    then have old: "\<And>c. hm_get (merged_values s) c = hm_get (other_values s) c" "all_unique s = other_unique s"
      using inv by (simp_all add: loop_inv_def)
    have "hm_get (extend_values (merged_values s) vals) c = hm_get (extend_values (other_values s) vals) c" for c
      by (simp add: hm_get_extend [OF vals(1)] old(1) split: option.split)
    then show ?thesis using best vals other old Some r
      by (auto simp: loop_inv_def absorb_def simp del: not_None_eq)
  qed
qed

lemma solve_components_inv:
  assumes "\<And>ci sp vals u captured. sp \<in> set comps \<Longrightarrow> run ci sp = Some (Solved vals u, captured) \<Longrightarrow>
      \<exists>sub. result_ok (objective = Some ci) sub vals u captured \<and> auto_ids sub = set (sp_auto_params sp)"
    and "distinct (concat (map sp_auto_params comps))" "U \<inter> set (concat (map sp_auto_params comps)) = {}"
    and "loop_inv objective ci U s" "solve_components run ci comps s = Some (Inr s')"
  shows "\<exists>cj V. loop_inv objective cj V s'"
  using assms
proof (induction comps arbitrary: ci U s)
  case (Cons sp comps)
  obtain vals u captured where run: "run ci sp = Some (Solved vals u, captured)"
    "solve_components run (Suc ci) comps (absorb vals u captured s) = Some (Inr s')"
    using Cons.prems(5) by (auto split: option.splits SolveResult.splits)
  obtain sub where sub: "result_ok (objective = Some ci) sub vals u captured" "auto_ids sub = set (sp_auto_params sp)"
    using Cons.prems(1) [OF _ run(1)] by auto
  show ?case
  proof (rule Cons.IH)
    show "loop_inv objective (Suc ci) (U \<union> auto_ids sub) (absorb vals u captured s)"
      using Cons.prems(4) sub(1) by (rule loop_inv_absorb) (use Cons.prems(3) sub(2) in auto)
    show "(U \<union> auto_ids sub) \<inter> set (concat (map sp_auto_params comps)) = {}"
      unfolding sub(2) using Cons.prems(2,3) by auto
    show "distinct (concat (map sp_auto_params comps))" using Cons.prems(2) by simp
    show "\<exists>sub. result_ok (objective = Some cj) sub v w cap \<and> auto_ids sub = set (sp_auto_params d)"
      if "d \<in> set comps" "run cj d = Some (Solved v w, cap)" for cj d v w cap
      using Cons.prems(1) [OF _ that(2)] that(1) by simp
    show "solve_components run (Suc ci) comps (absorb vals u captured s) = Some (Inr s')" by (rule run(2))
  qed
qed auto

lemma registry_first:
  assumes own: "\<forall>domain. answers_own (solver_for registry domain) dispatch"
    and dist: "distinct (map ap_id (rp_auto_params problem))"
    and res: "solve_inner fo xxh eval registry problem ranked dispatch = Some (Solved vals unique, opt, sc, Some cands)"
  shows "\<exists>best rest. cands = best # rest \<and> (\<forall>c. hm_get (candidate_values best) c = hm_get vals c)
     \<and> candidate_unique best = unique \<and> objective_score best = sc"
proof -
  obtain prelude where prelude: "decompose_prelude problem = Some prelude"
    using res by (auto simp: solve_inner_def split: Option.bind_splits)
  note pre = prelude_spec [OF prelude dist]
  let ?obj = "objective_component (consumption prelude)" and ?comps = "components prelude"
  define run where "run = (\<lambda>ci component. do {
       sub \<leftarrow> component_problem problem (dependent_auto_reads prelude) (?obj = Some ci) component;
       component_result fo xxh eval (solver_for registry (sp_domain component)) (ranked \<and> ?obj = Some ci) dispatch sub })"
  define start :: RegistryState where
    "start = \<lparr>merged_values = [], all_unique = True, other_values = [], other_unique = True, captured_ranking = None\<rparr>"
  obtain s where s: "solve_components run 0 ?comps start = Some (Inr s)" "vals = merged_values s" "unique = all_unique s"
    "sc = Option.bind (captured_ranking s) (\<lambda>(opt, sc, cs). sc)"
    "Some cands = map_option (\<lambda>(opt, sc, cs). merge_candidates s cs) (captured_ranking s)"
    using res by (auto simp: solve_inner_def prelude Let_def run_def start_def split: if_splits Option.bind_splits sum.splits)
  have "\<exists>sub. result_ok (?obj = Some ci) sub v u captured \<and> auto_ids sub = set (sp_auto_params sp)"
    if mem: "sp \<in> set ?comps" and run: "run ci sp = Some (Solved v u, captured)" for ci sp v u captured
  proof -
    obtain sub where sub: "component_problem problem (dependent_auto_reads prelude) (?obj = Some ci) sp = Some sub"
      "map ap_id (rp_auto_params sub) = sp_auto_params sp"
      using component_problem_exists [OF pre(2) [OF mem]] by blast
    then have "result_ok (ranked \<and> ?obj = Some ci) sub v u captured"
      using run own by (intro component_result_ok [of "solver_for registry (sp_domain sp)" dispatch]) (auto simp: run_def)
    then have "result_ok (?obj = Some ci) sub v u captured" by (auto simp: result_ok_def split: option.splits)
    with arg_cong [OF sub(2), of set] show ?thesis by auto
  qed
  moreover have "loop_inv ?obj 0 {} start" by (simp add: loop_inv_def start_def hm_wf_def hm_get_def)
  ultimately obtain cj V where inv: "loop_inv ?obj cj V s"
    using solve_components_inv [OF _ pre(1) _ _ s(1), of ?obj "{}"] by auto
  obtain opt' sc' cs where cap: "captured_ranking s = Some (opt', sc', cs)"
    using s(5) by (cases "captured_ranking s") auto
  then obtain best rest where best: "cs = best # rest" "sc' = objective_score best" "hm_wf (candidate_values best)"
    "\<And>c. hm_get (merged_values s) c = hm_get (extend_values (other_values s) (candidate_values best)) c"
    "all_unique s = (candidate_unique best \<and> other_unique s)"
    using inv by (auto simp: loop_inv_def)
  have "hm_get (extend_values [] (candidate_values best)) c = hm_get (candidate_values best) c" for c
    by (simp add: hm_get_extend [OF best(3)] hm_get_def [of "[]"] split: option.split)
  then show ?thesis using s cap best by (auto simp: merge_candidates_def)
qed

section \<open>Properties\<close>

text \<open>A problem of two independent autos, and the registry of the product on it.\<close>

declare find_loop.simps [code]

definition demo_parts :: problem where
  "demo_parts = \<lparr>rp_auto_params = [demo_auto ''a'', demo_auto ''b''],
     rp_constraints = [(ConstraintNodeId ''P'' 0, demo_ref ''a''), (ConstraintNodeId ''P'' 1, demo_ref ''b'')],
     rp_current_values = [], rp_objective = None, rp_dependent_cells = []\<rparr>"

definition silent_solver :: "(unit, NoProgressReason) ConstraintSolver" where
  "silent_solver = \<lparr>run_solve = (\<lambda>dispatch problem. None), run_solve_ranked = (\<lambda>dispatch problem. None)\<rparr>"

definition demo_registry :: "(unit, NoProgressReason) SolverRegistry" where
  "demo_registry = production (\<lambda>r. r) read_eval (\<lambda>obj vals. None) silent_solver silent_solver"

definition demo_ops :: f64_ops where
  "demo_ops = \<lparr>f_add = (\<lambda>a b. a), f_sub = (\<lambda>a b. a), f_mul = (\<lambda>a b. a), f_of_i64 = (\<lambda>i. i)\<rparr>"

definition demo_component :: "string \<Rightarrow> u32 \<Rightarrow> SubProblem" where
  "demo_component name i = \<lparr>sp_auto_params = [ValueCellId ''P'' name], sp_constraints = [(ConstraintNodeId ''P'' i, demo_ref name)],
     sp_domain = Logical\<rparr>"

definition demo_prelude :: DecompositionPrelude where
  "demo_prelude = \<lparr>components = [demo_component ''a'' 0, demo_component ''b'' 1], consumption = NoObjective,
     dependent_auto_reads = []\<rparr>"

lemma demo_prelude: "decompose_prelude demo_parts = Some demo_prelude"
  by code_simp

lemma demo_part:
  assumes "(name, i) = (''a'', 0) \<or> (name, i) = (''b'', 1)"
  shows "part_of demo_parts demo_prelude (demo_component name i) =
    demo_parts\<lparr>rp_auto_params := [demo_auto name], rp_constraints := [(ConstraintNodeId ''P'' i, demo_ref name)]\<rparr>"
proof -
  have "part_of demo_parts demo_prelude (demo_component ''a'' 0) =
      demo_parts\<lparr>rp_auto_params := [demo_auto ''a''], rp_constraints := [(ConstraintNodeId ''P'' 0, demo_ref ''a'')]\<rparr>"
    "part_of demo_parts demo_prelude (demo_component ''b'' 1) =
      demo_parts\<lparr>rp_auto_params := [demo_auto ''b''], rp_constraints := [(ConstraintNodeId ''P'' 1, demo_ref ''b'')]\<rparr>"
    by code_simp+
  with assms show ?thesis by auto
qed

lemma demo_honest:
  assumes "sp \<in> set (components demo_prelude)"
  shows "honest read_eval (run_solve (solver_for demo_registry (sp_domain sp)) None) (part_of demo_parts demo_prelude sp)"
proof -
  obtain name i where sp: "sp = demo_component name i" "(name, i) = (''a'', 0) \<or> (name, i) = (''b'', 1)"
    using assms by (auto simp: demo_prelude_def)
  let ?p = "demo_parts\<lparr>rp_auto_params := [demo_auto name], rp_constraints := [(ConstraintNodeId ''P'' i, demo_ref name)]\<rparr>"
  have "discrete_ok read_eval ?p"
    using read_eval_local
    by (simp add: discrete_ok_def well_formed_def cells_ok_def reads_no_cells_def is_all_discrete_def demo_parts_def
        can_enumerate_def domain_spec_def demo_auto_def)
  from cpsat.renders [OF this, of "\<lambda>r. r"] show ?thesis
    unfolding sp(1) demo_part [OF sp(2)]
    by (simp add: honest_def demo_registry_def production_def cpsat_solver_def demo_component_def Let_def)
qed

text \<open>
  C28.  The registry answers a feasibility problem honestly when the solver of each
  component does (it returns, its solution solves the component, unique means
  the only one, infeasible means that there is none) and no constraint reads a
  dependent cell.  The registry then returns.  Merged values restricted to the
  autos of a component solve that component, no constraint over an auto is
  false at them, and when they are called unique each restriction is the only
  solution of its component; infeasible means that some component has no solution, and
  a failure to progress is that of a component.
\<close>

theorem registry_merges_honestly:
  assumes "local_eval (eval dispatch) (problem_exprs problem)" "well_formed problem" "reads_no_cells problem"
    and "rp_objective problem = None" "decompose_prelude problem = Some prelude"
    and "\<forall>sp \<in> set (components prelude).
      honest (eval dispatch) (run_solve (solver_for registry (sp_domain sp)) dispatch) (part_of problem prelude sp)"
  shows "\<exists>r. registry_solve_with_dispatch fo xxh eval registry problem dispatch = Some r
     \<and> (case r of
          Solved vals unique \<Rightarrow>
            list_all (\<lambda>(cid, expr). auto_ids problem \<inter> bare_reads expr \<noteq> {} \<longrightarrow>
                eval dispatch (build_scoring_values (eval dispatch) (rp_current_values problem) vals (rp_dependent_cells problem)) expr
                  \<noteq> ValBool False) (rp_constraints problem)
            \<and> (\<forall>sp \<in> set (components prelude).
                 solution (eval dispatch) (part_of problem prelude sp) (restrict_values (set (sp_auto_params sp)) vals)
                 \<and> (unique \<longrightarrow> sole_solution (eval dispatch) (part_of problem prelude sp)
                      (restrict_values (set (sp_auto_params sp)) vals)))
        | Infeasible \<Rightarrow> \<exists>sp \<in> set (components prelude). \<forall>w. \<not> solution (eval dispatch) (part_of problem prelude sp) w
        | NoProgress reason \<Rightarrow> \<exists>sp \<in> set (components prelude).
            run_solve (solver_for registry (sp_domain sp)) dispatch (part_of problem prelude sp) = Some (NoProgress reason))"
  using assms by (rule registry_merge)

theorem registry_merges_honestly_witness:
  "\<exists>r. registry_solve_with_dispatch demo_ops (\<lambda>bs. 0) (\<lambda>d. read_eval) demo_registry demo_parts None = Some r
     \<and> (case r of
          Solved vals unique \<Rightarrow> solution read_eval (part_of demo_parts demo_prelude (demo_component ''b'' 1))
            (restrict_values {ValueCellId ''P'' ''b''} vals)
        | _ \<Rightarrow> True)"
proof -
  let ?X = "registry_solve_with_dispatch demo_ops (\<lambda>bs. 0) (\<lambda>d. read_eval) demo_registry demo_parts None"
  have wf: "well_formed demo_parts" "reads_no_cells demo_parts" "rp_objective demo_parts = None"
    by (simp_all add: well_formed_def cells_ok_def reads_no_cells_def demo_parts_def demo_auto_def)
  have b: "demo_component ''b'' 1 \<in> set (components demo_prelude)" by (simp add: demo_prelude_def)
  note merges = registry_merges_honestly [OF read_eval_local wf demo_prelude ballI [OF demo_honest], of demo_ops "\<lambda>bs. 0"]
  obtain r where r: "?X = Some r" using merges by blast
  show ?thesis
  proof (cases r)
    case (Solved vals unique)
    have "\<forall>sp \<in> set (components demo_prelude). solution read_eval (part_of demo_parts demo_prelude sp)
        (restrict_values (set (sp_auto_params sp)) vals)"
      using merges by (simp only: r Solved option.inject ex_simps simp_thms SolveResult.case) blast
    from bspec [OF this b] show ?thesis using r Solved by (simp add: demo_component_def)
  qed (use r in simp_all)
qed

text \<open>A solver that sets every auto to true and ranks that one model.\<close>

definition all_true :: "problem \<Rightarrow> ValueMap" where
  "all_true p = fold (\<lambda>ap. hm_insert (ap_id ap) (ValBool True)) (rp_auto_params p) []"

definition eager_solver :: "(unit, NoProgressReason) ConstraintSolver" where
  "eager_solver =
     \<lparr>run_solve = (\<lambda>dispatch p. Some (Solved (all_true p) True)),
      run_solve_ranked = (\<lambda>dispatch p. Some (Ranked
        [\<lparr>candidate_values = all_true p, objective_score = Some f64_zero, candidate_unique = False\<rparr>]
        (BestFound Unreported) not_attempted))\<rparr>"

definition eager_registry :: "(unit, NoProgressReason) SolverRegistry" where
  "eager_registry = \<lparr>dimensional = eager_solver, geometric = None, logical = None, fallback = None\<rparr>"

lemma all_true_own: "own_values p (all_true p)"
proof -
  have "hm_wf m \<Longrightarrow> hm_wf (fold (\<lambda>ap. hm_insert (ap_id ap) (ValBool True)) ps m)" for ps m
    by (induction ps arbitrary: m) (auto intro: hm_inv)
  moreover have "hm_get (fold (\<lambda>ap. hm_insert (ap_id ap) (ValBool True)) ps m) c \<noteq> None \<Longrightarrow> hm_get m c \<noteq> None \<or> c \<in> ap_id ` set ps"
    for ps m c by (induction ps arbitrary: m) (force simp: hm_simps split: if_splits)+
  ultimately show ?thesis by (force simp: own_values_def all_true_def hm_wf_def hm_get_def [of "[]"])
qed

lemma eager_own: "answers_own (solver_for eager_registry domain) None"
  by (cases domain) (simp_all add: answers_own_def eager_registry_def eager_solver_def all_true_own)

text \<open>
  C29.  When every solver answers for the autos of its own problem, the first of the
  ranked candidates that the registry merges is its answer: it binds every
  cell as the merged values of all components do, with the same verdict on
  uniqueness and with the score that is reported.
\<close>

theorem registry_first_candidate:
  assumes "\<forall>domain. answers_own (solver_for registry domain) dispatch"
    and "distinct (map ap_id (rp_auto_params problem))"
    and "solve_inner fo xxh eval registry problem ranked dispatch = Some (Solved vals unique, opt, sc, Some cands)"
  shows "\<exists>best rest. cands = best # rest \<and> (\<forall>c. hm_get (candidate_values best) c = hm_get vals c)
     \<and> candidate_unique best = unique \<and> objective_score best = sc"
  using assms by (rule registry_first)

theorem registry_first_candidate_witness:
  "\<exists>vals cands best rest.
     solve_inner demo_ops (\<lambda>bs. 0) (\<lambda>d. read_eval) eager_registry (demo_parts\<lparr>rp_objective := Some (weighted_sum [])\<rparr>) True None
       = Some (Solved vals False, Some (BestFound Unreported), Some f64_zero, Some cands)
     \<and> cands = best # rest \<and> (\<forall>c. hm_get (candidate_values best) c = hm_get vals c)"
proof -
  let ?a = "(ValueCellId ''P'' ''a'', ValBool True)" and ?b = "(ValueCellId ''P'' ''b'', ValBool True)"
  have run: "solve_inner demo_ops (\<lambda>bs. 0) (\<lambda>d. read_eval) eager_registry (demo_parts\<lparr>rp_objective := Some (weighted_sum [])\<rparr>) True None
      = Some (Solved [?a, ?b] False, Some (BestFound Unreported), Some f64_zero,
          Some [\<lparr>candidate_values = [?b, ?a], objective_score = Some f64_zero, candidate_unique = False\<rparr>])"
    by code_simp
  have "distinct (map ap_id (rp_auto_params (demo_parts\<lparr>rp_objective := Some (weighted_sum [])\<rparr>)))"
    by (simp add: demo_parts_def demo_auto_def)
  from registry_first_candidate [OF allI [OF eager_own] this run] run show ?thesis by blast
qed

end
