(* ===== verification/Spec2Isabelle.thy ===== *)
theory Spec2Isabelle
  imports Identity NodeTraits Expr Deps DirtyCone Demand Fixpoint EvalSet CacheLaws WarmPool Commitment FreshnessWalk Cycles Dimension Kleene Dispatch RealizationCache OverloadLaws Normalize Reads ValueHash Subproblems CpsatRanking RegistryLaws
begin

text \<open>
  Reify is a parametric design language.  Its compiler lowers a module to value
  cells, constraints, realizations (geometry to build), resolutions (solver
  problems) and compute nodes; the evaluation engine of \<open>src/crates/reify-eval\<close>
  keeps a graph of these nodes and re-evaluates, after an edit, only what
  depends on it.  This library models that incremental core, the task runtime
  beside it, the type checks and overload resolution on which the compiler and
  the evaluator have to agree, the runtime values with their order and hashes,
  and the discrete half of the constraint solver.

  \<^bold>\<open>How the parts interact.\<close>  Nodes are named by \<open>NodeId\<close>.  Dependency extraction
  reads the compiled expressions and gives each node a trace of what it reads,
  and the reverse index of who reads what.  An edit walks the reverse index to
  the dirty cone, intersects it with the demand cone and orders the result; a
  build orders all nodes.  Each evaluated node is recorded in the cache, which
  decides by content hash whether anything changed and whose freshness the
  freshness walk carries on.  State worth keeping across evaluations goes to the
  warm-state pool.  The runtime runs tasks by priority, raises priorities on
  demand and decides when speculative work is committed.  A resolution hands the
  constraints over its auto parameters to the solver: the analysis of dependent
  cells says which autos each derived cell reads, the decomposition splits the
  problem into independent sub-problems, and the registry gives each to the solver
  of its domain, one with finite domains to the discrete solver, and merges the
  answers.

  \<^bold>\<open>Theories and the code they model.\<close>
  \<^item> \<open>Prelude\<close>, \<open>Text\<close>, \<open>F64\<close>, \<open>Worklist\<close>: shared material.  Hash maps and sets are
    lists of bindings (their order stands for an arbitrary iteration order),
    Rust string operations, the comparisons of \<open>f64\<close>, and a locale for work-list
    searches together with what they compute.
  \<^item> \<open>Identity\<close>, \<open>NodeTraits\<close>: \<open>reify-core/src/identity.rs\<close>,
    \<open>reify-eval/src/cache/node_id.rs\<close>, \<open>reify-ir/src/node_traits.rs\<close>.  Printing and
    parsing of node ids, the trait flags as words.
  \<^item> \<open>Expr\<close>, \<open>Deps\<close>: \<open>reify-ir/src/expr.rs\<close> (the expression tree and its
    traversals) and \<open>reify-eval/src/deps.rs\<close> in full, with the node records of
    \<open>graph.rs\<close>.  Forward traces and reverse index are converse relations.
  \<^item> \<open>DirtyCone\<close>, \<open>Demand\<close>, \<open>EvalSet\<close>: \<open>dirty.rs\<close> and \<open>demand.rs\<close>.  Both cones are
    the reachable sets they stand for, the evaluation set is their ordered
    intersection, and the completeness check accepts the linear extensions.
  \<^item> \<open>DebugOrder\<close>, \<open>Fixpoint\<close>: \<open>engine_fixpoint.rs\<close>.  Kahn's algorithm over a set
    ordered by the Debug rendering; the schedule is topological, maximal and
    independent of hash order.
  \<^item> \<open>Cache\<close>, \<open>CacheLaws\<close>: \<open>cache.rs\<close>, the result, freshness and hash types of
    \<open>reify-ir\<close> and \<open>reify-core\<close>.  A reachability relation over all operations
    carries the store invariant.
  \<^item> \<open>Tarjan\<close>, \<open>Cycles\<close>: the cycle search of \<open>engine_fixpoint.rs\<close>, an iterative
    component search, and the diagnostics of a build pass.
  \<^item> \<open>FreshnessWalk\<close>: \<open>freshness_walk.rs\<close>.
  \<^item> \<open>WarmPool\<close>: \<open>warm_pool.rs\<close>.  \<open>Runtime\<close>, \<open>Commitment\<close>: \<open>reify-runtime\<close>.
  \<^item> \<open>Dispatch\<close>: \<open>dispatcher.rs\<close>, the search for a kernel and a shortest chain of
    conversions.  \<open>RealizationCache\<close>: \<open>realization_cache.rs\<close> with the tolerance
    buckets; what a cache serves, and what eviction removes.
  \<^item> \<open>Hash\<close>, \<open>Dimension\<close>, \<open>Kleene\<close>: content hashes and dimension vectors of
    \<open>reify-core\<close>, three-valued logic of \<open>reify-expr\<close>.
  \<^item> \<open>Types\<close>, \<open>TypeCompat\<close>, \<open>TypeLaws\<close>: the type language of \<open>reify-core\<close> with the
    tiers of the overload ladder, and \<open>reify-compiler/src/type_compat.rs\<close>:
    conversion, unification, operator results.  Unification is complete,
    conversion is equality of canonical forms, operators are homogeneous.
  \<^item> \<open>Overload\<close>, \<open>OverloadLaws\<close>: overload resolution of the compiler and of the
    evaluator, default arguments, selector coercion, the type of a call.
  \<^item> \<open>Normalize\<close>: reduction of associated types (\<open>type_resolution.rs\<close>).
  \<^item> \<open>Values\<close>, \<open>Compare\<close>, \<open>ValueOrder\<close>, \<open>ValueOrderLaws\<close>, \<open>ValueHash\<close>: the values of
    \<open>reify-ir/src/value.rs\<close> and \<open>geometry_id.rs\<close>.  The order is a total preorder,
    agrees with equality where types print apart, and equal values hash alike.
  \<^item> \<open>Reads\<close>: \<open>reify-constraints/src/dependent_reads.rs\<close>.  The analysis is the
    reachability it stands for.  \<open>Decompose\<close>, \<open>UnionFindLaws\<close>, \<open>DecomposeLaws\<close>,
    \<open>Subproblems\<close>: \<open>classifier.rs\<close> and \<open>decompose.rs\<close>; the sub-problems are the
    connected components.
  \<^item> \<open>Ranked\<close>: \<open>ranked.rs\<close> and \<open>completeness.rs\<close> of \<open>reify-ir\<close>.  \<open>Cpsat\<close>: the
    discrete solver, \<open>cpsat.rs\<close> and \<open>discrete_fallback.rs\<close>.  \<open>CpsatLaws\<close>: the
    incremental search is the search over full re-derivations, cut off by its
    cap and budget.  \<open>CpsatModels\<close>, \<open>CpsatVerdict\<close>, \<open>CpsatRanking\<close>: what enumeration,
    verdicts and rankings promise; the verdicts are measured by the solutions of
    a problem, without a search.  \<open>CpsatPruning\<close>: a problem whose constraint reads a
    dependent cell, on which pruning is unsound.
  \<^item> \<open>Registry\<close>, \<open>RegistryLaws\<close>: \<open>registry.rs\<close> with the objectives of \<open>reify-ir\<close>.  The
    merged answer solves every component, and the first ranked candidate is it.

  \<^bold>\<open>Conventions.\<close>  A panic, a failed assertion or an out-of-range index of the code
  is \<open>None\<close>; theorems that a routine returns state \<open>Some\<close>.  Loops are functions
  with a termination proof; no fuel is used, and the one loop without a bound of
  its own, the search of a root in the union-find, is a partial function that
  is proved to return.  The node budget of the discrete solver is that of the
  code.  Counters, versions and bit sets
  are words; an index or a length is a natural number, and the one sum of \<open>usize\<close>
  over sizes that a caller provides, in the warm-state pool, wraps around.
  A string is its UTF-8 bytes.  The code's hash function, its clock, the quotient of two
  floating-point numbers, the arithmetic of a lexicographic band, the evaluator
  that a scheduler or the solver calls and the score of an objective are arguments.
  Values, types and solver payloads that a component only moves around are type
  variables.

  \<^bold>\<open>Not modelled.\<close>  The geometry kernels and their bindings, the continuous solvers
  and compute targets (the registry takes them as functions), the
  texts of solver messages, the parser, the lowering of syntax trees by the compiler,
  the language server, the command line, the graphical interface and the test and audit tools; within
  the engine, the glue of \<open>engine_*.rs\<close> that calls the modelled components, and
  the evaluation of expressions over floating-point values.

  \<^bold>\<open>Plan.\<close>  Next are the remaining constructors
  and rewritings of compiled expressions, the journal of \<open>reify-eval\<close> and the
  units of the compiler.
\<close>

section \<open>An edit re-evaluates what depends on it\<close>

definition edit_scope ::
  "('v, 't) EvaluationGraph \<Rightarrow> ('v, 't) CompiledField list \<Rightarrow> DemandRegistry \<Rightarrow> ValueCellId list \<Rightarrow> NodeId set" where
  "edit_scope g flds reg changed =
     {n \<in> (cone_edges (build_from_graph_and_fields g flds) g)\<^sup>+ `` (Value ` set changed).
        is_demanded (rebuild_cone g reg) n}"

text \<open>
  C6.  Editing cells: the evaluation set exists, holds no node twice, holds
  exactly the demanded nodes that transitively depend on an edited cell, less
  those stranded by a dependency cycle among them, and lists every node after
  the nodes of that scope its trace reads.  A compute node has no trace, so it
  may precede a dirty cell that is its input (\<open>eval_set_compute_before_input\<close>
  of theory \<open>EvalSet\<close>).
\<close>

theorem edit_eval_set_complete:
  "\<exists>order. compute_eval_set
        (compute_dirty_cone changed (build_from_graph_and_fields g flds) g)
        (rebuild_cone g reg) (build_trace_map_and_fields g flds) = Some order
     \<and> distinct order
     \<and> set order = edit_scope g flds reg changed
         - stranded (edit_scope g flds reg changed)
             (\<lambda>n. trace_preds (build_trace_map_and_fields g flds) n \<inter> edit_scope g flds reg changed)
     \<and> (\<forall>i < length order. trace_preds (build_trace_map_and_fields g flds) (order ! i)
          \<inter> edit_scope g flds reg changed \<subseteq> set (take i order))"
proof -
  let ?ri = "build_from_graph_and_fields g flds" and ?tr = "build_trace_map_and_fields g flds"
  let ?d = "compute_dirty_cone changed ?ri g" and ?N = "edit_scope g flds reg changed"
  have N: "{n \<in> set ?d. is_demanded (rebuild_cone g reg) n} = ?N"
    by (simp add: edit_scope_def dirty_cone_set)
  from compute_eval_set_greedy [OF compute_dirty_cone_distinct [of changed ?ri g], of "rebuild_cone g reg" ?tr]
  obtain order where o: "compute_eval_set ?d (rebuild_cone g reg) ?tr = Some order"
    and gs: "greedy_schedule ?N (\<lambda>n. trace_preds ?tr n \<inter> ?N) order" unfolding N by blast
  have gp: "greedy_prefix ?N (\<lambda>n. trace_preds ?tr n \<inter> ?N) order" using gs by (simp add: greedy_schedule_def)
  have "finite ?N" by (simp flip: N)
  with gs have "set order = ?N - stranded ?N (\<lambda>n. trace_preds ?tr n \<inter> ?N)"
    by (intro greedy_schedule_set) auto
  with o greedy_prefix_distinct [OF gp] greedy_prefix_topological [OF gp] show ?thesis by blast
qed

theorem edit_eval_set_complete_witness:
  "\<exists>order. compute_eval_set
      (compute_dirty_cone [demo_cell ''w''] (build_from_graph_and_fields demo_graph []) demo_graph)
      (rebuild_cone demo_graph (set_full_scope True demand_new)) (build_trace_map_and_fields demo_graph [])
    = Some order \<and> distinct order"
  using edit_eval_set_complete [of "[demo_cell ''w'']" demo_graph "[]" "set_full_scope True demand_new"] by blast

end
